(* ===== verification/Gix_Prelude.thy ===== *)
theory Gix_Prelude
  imports Main "HOL-Library.Word" "HOL-Library.Sublist"
begin

text \<open>
  Shared vocabulary of the development: the machine integers and byte strings of the Rust
  sources, the outcome of a fallible operation (a value, an error value, or a panic), slice
  access as Rust performs it, big-endian conversion, and the generic lemmas on lists and words
  that the component theories use.

  Integer arithmetic follows the release profile of \<^verbatim>\<open>src/Cargo.toml\<close>
  (\<^verbatim>\<open>overflow-checks = false\<close>): addition on fixed-width integers wraps and a shift
  count is taken modulo the width.  \<^verbatim>\<open>usize\<close> counts bytes of a slice that exists in
  memory, so it is a \<open>nat\<close>.
\<close>

unbundle bit_operations_syntax

section \<open>Types\<close>

type_synonym u8 = "8 word"
type_synonym u16 = "16 word"
type_synonym u32 = "32 word"
type_synonym u64 = "64 word"
type_synonym bytes = "u8 list"

named_theorems gix_simps \<open>characteristic equations of the model's small operations\<close>
named_theorems word_nat \<open>transfer of word operations to natural numbers\<close>

section \<open>Outcomes of operations\<close>

text \<open>
  \<open>Ok\<close> and \<open>Err\<close> are the two constructors of Rust's \<^verbatim>\<open>Result\<close>; \<open>Panic\<close> is a run-time
  panic (an index out of bounds, a failed assertion, an \<^verbatim>\<open>expect\<close> on the wrong variant).
  An operation without error values that may panic has the type \<open>'a or_panic\<close>: \<open>None\<close> is the panic, and
  \<open>expect\<close> lifts it into an outcome.
\<close>

datatype ('a, 'e) outcome = Ok 'a | Err 'e | Panic

type_synonym 'a or_panic = "'a option"

fun and_then :: "('a, 'e) outcome \<Rightarrow> ('a \<Rightarrow> ('b, 'e) outcome) \<Rightarrow> ('b, 'e) outcome" where
  "and_then (Ok x) f = f x"
| "and_then (Err e) f = Err e"
| "and_then Panic f = Panic"

fun map_err :: "('e \<Rightarrow> 'f) \<Rightarrow> ('a, 'e) outcome \<Rightarrow> ('a, 'f) outcome" where
  "map_err f (Ok x) = Ok x"
| "map_err f (Err e) = Err (f e)"
| "map_err f Panic = Panic"

definition expect :: "'a option \<Rightarrow> ('a, 'e) outcome" where
  "expect x = (case x of None \<Rightarrow> Panic | Some y \<Rightarrow> Ok y)"

definition ok_or :: "'a option \<Rightarrow> 'e \<Rightarrow> ('a, 'e) outcome" where
  "ok_or x e = (case x of None \<Rightarrow> Err e | Some y \<Rightarrow> Ok y)"

lemma and_then_Ok_iff:
  "and_then m f = Ok y \<longleftrightarrow> (\<exists>x. m = Ok x \<and> f x = Ok y)"
  by (cases m) auto

text \<open>A chain of early returns succeeds when none of them is taken.\<close>

lemma early_return_Ok:
  "(if c then Err e else x) = Ok r \<longleftrightarrow> \<not> c \<and> x = Ok r"
  "(case o1 of Some e1 \<Rightarrow> Err (f e1) | None \<Rightarrow> x) = Ok r \<longleftrightarrow> o1 = None \<and> x = Ok r"
  by (auto split: option.split)

lemma and_then_assoc: "and_then (and_then m f) g = and_then m (\<lambda>x. and_then (f x) g)"
  by (cases m) auto

lemma expect_simps [simp]: "expect (Some x) = Ok x" "expect None = Panic"
  by (simp_all add: expect_def)

lemma ok_or_simps [simp]: "ok_or (Some x) e = Ok x" "ok_or None e = Err e"
  by (simp_all add: ok_or_def)

lemma and_then_Panic_iff: "and_then m f = Panic \<longleftrightarrow> m = Panic \<or> (\<exists>x. m = Ok x \<and> f x = Panic)"
  by (cases m) auto

lemma map_err_Panic_iff: "map_err h m = Panic \<longleftrightarrow> m = Panic"
  by (cases m) auto

lemma expect_Panic_iff: "expect o1 = Panic \<longleftrightarrow> o1 = None"
  by (cases o1) auto

lemma map_err_Ok_iff: "map_err h m = Ok x \<longleftrightarrow> m = Ok x"
  by (cases m) auto

lemma expect_Ok_iff: "expect o1 = Ok x \<longleftrightarrow> o1 = Some x"
  by (cases o1) auto

section \<open>Slices\<close>

text \<open>\<^verbatim>\<open>data.get(i)\<close> and \<^verbatim>\<open>data.get(a..b)\<close>; the indexing forms panic where these give \<open>None\<close>.\<close>

definition get_at :: "'a list \<Rightarrow> nat \<Rightarrow> 'a option" where
  "get_at xs i = (if i < length xs then Some (xs ! i) else None)"

definition get_range :: "'a list \<Rightarrow> nat \<Rightarrow> nat \<Rightarrow> 'a list option" where
  "get_range xs a b = (if a \<le> b \<and> b \<le> length xs then Some (take (b - a) (drop a xs)) else None)"

lemma get_at_simps [simp]:
  "get_at [] i = None" "get_at (x # xs) 0 = Some x" "get_at (x # xs) (Suc i) = get_at xs i"
  by (auto simp: get_at_def)

lemma get_at_append_left: "i < length xs \<Longrightarrow> get_at (xs @ ys) i = get_at xs i"
  by (simp add: get_at_def nth_append)

lemma get_at_append_right [simp]: "get_at (xs @ ys) (length xs + i) = get_at ys i"
  by (simp add: get_at_def nth_append)

lemma get_at_Some: "get_at xs i = Some x \<longleftrightarrow> i < length xs \<and> xs ! i = x"
  by (auto simp: get_at_def)

lemma get_range_Some:
  "get_range xs a b = Some ys \<longleftrightarrow> a \<le> b \<and> b \<le> length xs \<and> ys = take (b - a) (drop a xs)"
  by (auto simp: get_range_def)

lemma get_range_prefix [simp]: "get_range (xs @ ys) 0 (length xs) = Some xs"
  by (simp add: get_range_def)

lemma get_range_middle:
  "a = length xs \<Longrightarrow> b = length xs + length ys \<Longrightarrow> get_range (xs @ ys @ zs) a b = Some ys"
  by (simp add: get_range_def)

section \<open>Ordering\<close>

text \<open>\<^verbatim>\<open>std::cmp::Ordering\<close> and the comparison of slices, which is lexicographic.\<close>

datatype ordering = Less | Equal | Greater

definition cmp :: "'a::linorder \<Rightarrow> 'a \<Rightarrow> ordering" where
  "cmp a b = (if a < b then Less else if a = b then Equal else Greater)"

fun then_cmp :: "ordering \<Rightarrow> ordering \<Rightarrow> ordering" where
  "then_cmp Less o2 = Less"
| "then_cmp Equal o2 = o2"
| "then_cmp Greater o2 = Greater"

fun cmp_slice :: "'a::linorder list \<Rightarrow> 'a list \<Rightarrow> ordering" where
  "cmp_slice [] [] = Equal"
| "cmp_slice [] (y # ys) = Less"
| "cmp_slice (x # xs) [] = Greater"
| "cmp_slice (x # xs) (y # ys) = then_cmp (cmp x y) (cmp_slice xs ys)"

lemma cmp_simps [simp]:
  "cmp a b = Equal \<longleftrightarrow> a = b" "cmp a b = Less \<longleftrightarrow> a < b" "cmp a b = Greater \<longleftrightarrow> b < a"
  by (auto simp: cmp_def)

lemma cmp_refl [simp]: "cmp a a = Equal"
  by simp

lemma then_cmp_Equal_iff [simp]: "then_cmp a b = Equal \<longleftrightarrow> a = Equal \<and> b = Equal"
  by (cases a) auto

lemma then_cmp_Equal_right [simp]: "then_cmp a Equal = a"
  by (cases a) auto

lemma then_cmp_decided: "a \<noteq> Equal \<Longrightarrow> then_cmp a b = a"
  by (cases a) auto

lemma then_cmp_assoc: "then_cmp (then_cmp a b) c = then_cmp a (then_cmp b c)"
  by (cases a) auto

lemma cmp_slice_Equal_iff [simp]: "cmp_slice xs ys = Equal \<longleftrightarrow> xs = ys"
  by (induction xs ys rule: cmp_slice.induct) auto

lemma cmp_slice_refl: "cmp_slice xs xs = Equal"
  by simp

lemma cmp_slice_append:
  "length xs = length ys \<Longrightarrow>
   cmp_slice (xs @ xs') (ys @ ys') = then_cmp (cmp_slice xs ys) (cmp_slice xs' ys')"
  by (induction xs ys rule: list_induct2) (auto simp: then_cmp_assoc)

lemma then_cmp_Less_iff: "then_cmp a b = Less \<longleftrightarrow> a = Less \<or> a = Equal \<and> b = Less"
  by (cases a) auto

lemma then_cmp_Greater_iff: "then_cmp a b = Greater \<longleftrightarrow> a = Greater \<or> a = Equal \<and> b = Greater"
  by (cases a) auto

lemma cmp_slice_swap: "cmp_slice xs ys = Less \<longleftrightarrow> cmp_slice ys xs = Greater"
  by (induction xs ys rule: cmp_slice.induct) (auto simp: then_cmp_Less_iff then_cmp_Greater_iff)

lemma cmp_slice_Less_trans:
  "cmp_slice xs ys = Less \<Longrightarrow> cmp_slice ys zs = Less \<Longrightarrow> cmp_slice xs zs = Less"
proof (induction xs ys arbitrary: zs rule: cmp_slice.induct)
  case (4 x xs y ys)
  then show ?case by (cases zs) (auto simp: then_cmp_Less_iff)
qed (auto simp: neq_Nil_conv elim: cmp_slice.elims)

section \<open>Words as natural numbers\<close>

lemma unat_drop_bit [word_nat]: "unat (drop_bit n w) = unat w div 2 ^ n" for w :: "'a::len word"
  by (subst unat_drop_bit_eq) (rule drop_bit_eq_div)

lemma unat_take_bit [word_nat]: "unat (take_bit n w) = unat w mod 2 ^ n" for w :: "'a::len word"
  by (subst unsigned_take_bit_eq) (rule take_bit_eq_mod)

lemma unat_and_mask [word_nat]: "unat (w AND mask n) = unat w mod 2 ^ n" for w :: "'a::len word"
  by (simp add: take_bit_eq_mask [symmetric] unat_take_bit)

lemma unat_of_nat_small: "n < 2 ^ LENGTH('a) \<Longrightarrow> unat (word_of_nat n :: 'a::len word) = n"
  by (simp add: unsigned_of_nat take_bit_nat_eq_self)

lemma unat_lt_256 [simp]: "unat (b :: u8) < 256"
  using unsigned_less [of b] by simp

section \<open>Big-endian integers\<close>

text \<open>\<^verbatim>\<open>from_be_bytes\<close> and \<^verbatim>\<open>to_be_bytes\<close> of the fixed-width integers, over natural numbers.\<close>

definition be_nat :: "bytes \<Rightarrow> nat" where
  "be_nat bs = foldl (\<lambda>acc b. acc * 256 + unat b) 0 bs"

fun be_bytes :: "nat \<Rightarrow> nat \<Rightarrow> bytes" where
  "be_bytes 0 v = []"
| "be_bytes (Suc n) v = be_bytes n (v div 256) @ [word_of_nat v]"

definition read_u32 :: "bytes \<Rightarrow> (u32, 'e) outcome" where
  "read_u32 b = (if length b = 4 then Ok (word_of_nat (be_nat b)) else Panic)"

definition read_u64 :: "bytes \<Rightarrow> (u64, 'e) outcome" where
  "read_u64 b = (if length b = 8 then Ok (word_of_nat (be_nat b)) else Panic)"

definition be32 :: "u32 \<Rightarrow> bytes" where "be32 w = be_bytes 4 (unat w)"
definition be64 :: "u64 \<Rightarrow> bytes" where "be64 w = be_bytes 8 (unat w)"

lemma length_be_bytes [simp]: "length (be_bytes n v) = n"
  by (induction n arbitrary: v) auto

lemma length_be [simp]: "length (be32 w) = 4" "length (be64 v) = 8"
  by (simp_all add: be32_def be64_def)

lemma be_nat_snoc: "be_nat (bs @ [b]) = be_nat bs * 256 + unat b"
  by (simp add: be_nat_def)

lemma be_nat_be_bytes: "be_nat (be_bytes n v) = v mod 256 ^ n"
proof (induction n arbitrary: v)
  case (Suc n)
  have "v mod (256 * 256 ^ n) = 256 * (v div 256 mod 256 ^ n) + v mod 256"
    by (rule mod_mult2_eq)
  with Suc show ?case by (simp add: be_nat_snoc unsigned_of_nat take_bit_eq_mod)
qed (simp add: be_nat_def)

lemma read_be32 [simp]: "read_u32 (be32 w) = Ok w"
proof -
  have "unat w mod 256 ^ 4 = unat w" using unsigned_less [where 'a = nat and w = w] by simp
  then show ?thesis by (simp add: read_u32_def be32_def be_nat_be_bytes)
qed

lemma read_be64 [simp]: "read_u64 (be64 w) = Ok w"
proof -
  have "unat w mod 256 ^ 8 = unat w" using unsigned_less [where 'a = nat and w = w] by simp
  then show ?thesis by (simp add: read_u64_def be64_def be_nat_be_bytes)
qed

lemma byte_256: "(256 :: u8) = 0"
  by code_simp

lemma be_bytes_be_nat: "length b = n \<Longrightarrow> be_bytes n (be_nat b) = b"
proof (induction n arbitrary: b)
  case (Suc n)
  then obtain bs x where b: "b = bs @ [x]" "length bs = n"
    by (cases b rule: rev_cases) auto
  have "(be_nat bs * 256 + unat x) div 256 = be_nat bs" by simp
  moreover have "(word_of_nat (be_nat bs * 256 + unat x) :: u8) = word_of_nat (be_nat bs) * 256 + x" by simp
  then have "(word_of_nat (be_nat bs * 256 + unat x) :: u8) = x"
    by (simp only: byte_256 mult_zero_right add_0)
  ultimately show ?case using Suc.IH [of bs] b by (simp add: be_nat_snoc)
qed simp

lemma be_nat_less: "be_nat b < 256 ^ length b"
proof (induction b rule: rev_induct)
  case (snoc x xs)
  have "be_nat xs * 256 + unat x < (be_nat xs + 1) * 256" by simp
  also have "\<dots> \<le> 256 ^ length xs * 256" using snoc by (intro mult_le_mono1) simp
  finally show ?case by (simp add: be_nat_snoc mult.commute)
qed (simp add: be_nat_def)

lemma be32_read: "read_u32 b = Ok w \<Longrightarrow> b = be32 w"
proof -
  assume "read_u32 b = Ok w"
  then have len: "length b = 4" and w: "w = word_of_nat (be_nat b)"
    by (auto simp: read_u32_def split: if_splits)
  have "be_nat b < 2 ^ 32" using be_nat_less [of b] len by simp
  then have "unat w = be_nat b" by (simp add: w unsigned_of_nat take_bit_nat_eq_self)
  then show ?thesis using be_bytes_be_nat [OF len] by (simp add: be32_def)
qed

section \<open>Facts about the seven-bit groups\<close>

lemma mask7: "(0x7f :: u8) = mask 7" "(0x7f :: u64) = mask 7" "(0x0f :: u64) = mask 4"
  by (simp_all add: mask_eq_exp_minus_1)

lemma low7_ucast [simp]:
  "ucast (ucast n AND (0x7f :: u8)) AND (0x7f :: u64) = n AND 0x7f"
  "ucast ((ucast n AND (0x7f :: u8)) AND 0x7f) = n AND (0x7f :: u64)" for n :: u64
  by (auto intro!: bit_word_eqI simp: bit_simps mask7)

lemma flagged [simp]:
  "(0x80 OR c) AND 0x80 \<noteq> (0 :: u8)" "(c OR 0x80) AND 0x80 \<noteq> (0 :: u8)"
  "(0x80 OR c) AND 0x7f = c AND (0x7f :: u8)" "(c OR 0x80) AND 0x7f = c AND (0x7f :: u8)"
  "(c AND 0x7f) AND 0x80 = (0 :: u8)"
proof -
  have "bit ((0x80 OR c) AND 0x80) 7" by (simp add: bit_simps)
  then show "(0x80 OR c) AND 0x80 \<noteq> (0 :: u8)" "(c OR 0x80) AND 0x80 \<noteq> (0 :: u8)"
    by (auto simp: or.commute)
qed (simp_all add: bit.conj_disj_distrib2 and.assoc)

lemma low7_flagged [simp]:
  "ucast (0x80 OR (ucast n AND (0x7f :: u8))) AND (0x7f :: u64) = n AND 0x7f" for n :: u64
proof -
  have "ucast (0x80 OR (ucast n AND (0x7f :: u8))) AND (0x7f :: u64) =
      ucast ((0x80 OR (ucast n AND (0x7f :: u8))) AND 0x7f) AND 0x7f"
    by (auto intro!: bit_word_eqI simp: bit_simps mask7)
  then show ?thesis by (simp del: low7_ucast(2))
qed

lemma groups_join: "push_bit 7 (drop_bit 7 n) + (n AND 0x7f) = n" for n :: u64
  by (simp only: mask7 take_bit_eq_mask [symmetric] bits_ident)

lemma small_low7: "unat n < 128 \<Longrightarrow> n AND 0x7f = n" for n :: u64
  by (rule unsigned_word_eqI [where 'a = nat]) (simp add: mask7 unat_and_mask)

lemma byte_cases:
  fixes b :: u8
  assumes "list_all (\<lambda>k. P (word_of_nat k)) ks" and "unat b \<in> set ks"
  shows "P b"
  using assms by (auto simp: list_all_iff dest!: bspec [where x = "unat b"])

lemma flag_clear: "unat (c :: u8) < 128 \<Longrightarrow> c AND 0x80 = 0"
  by (rule byte_cases [where ks = "[0..<128]"]) (code_simp, simp)

lemma unat_ucast_mod [word_nat]:
  "unat (ucast w :: 'b::len word) = unat w mod 2 ^ LENGTH('b)" for w :: "'a::len word"
  by (simp add: unsigned_ucast_eq take_bit_eq_mod)

section \<open>Tables of fixed-size records\<close>

text \<open>\<^verbatim>\<open>slice.chunks_exact(n)\<close>; the chunk size is never zero.\<close>

function chunks_exact :: "nat \<Rightarrow> 'a list \<Rightarrow> 'a list list" where
  "chunks_exact n xs = (if n = 0 \<or> length xs < n then [] else take n xs # chunks_exact n (drop n xs))"
  by pat_completeness auto
termination by (relation "measure (\<lambda>(n, xs). length xs)") auto

declare chunks_exact.simps [simp del]

lemma chunks_exact_concat:
  "0 < n \<Longrightarrow> \<forall>x\<in>set xs. length x = n \<Longrightarrow> chunks_exact n (concat xs @ rest) = xs @ chunks_exact n rest"
  by (induction xs) (simp_all add: chunks_exact.simps)

lemma length_chunks_exact: "length (chunks_exact n xs) = (if n = 0 then 0 else length xs div n)"
proof (induction n xs rule: chunks_exact.induct)
  case (1 n xs)
  show ?case
  proof (cases "n = 0 \<or> length xs < n")
    case False
    then show ?thesis using "1.IH" by (simp add: chunks_exact.simps [of n xs] div_if)
  qed (auto simp: chunks_exact.simps)
qed

lemma length_concat_const: "\<forall>x\<in>set xs. length x = n \<Longrightarrow> length (concat xs) = length xs * n"
  by (induction xs) simp_all

text \<open>Reading the \<open>k\<close>-th record of a table inside a file.\<close>

lemma get_range_record:
  assumes "\<forall>x\<in>set xs. length x = n" "k < length xs" "a = length pre + k * n" "b = a + n"
  shows "get_range (pre @ concat xs @ post) a b = Some (xs ! k)"
proof -
  have xs: "xs = take k xs @ xs ! k # drop (Suc k) xs" using assms(2) by (rule id_take_nth_drop)
  have "concat xs = concat (take k xs) @ xs ! k @ concat (drop (Suc k) xs)" by (subst xs) simp
  moreover have "length (concat (take k xs)) = k * n"
    using assms(1,2) length_concat_const [of "take k xs" n] set_take_subset [of k xs] by auto
  ultimately show ?thesis
    using assms get_range_middle [of a "pre @ concat (take k xs)" b "xs ! k" "concat (drop (Suc k) xs) @ post"] by simp
qed

lemma those_map_Some: "(\<And>x. x \<in> set xs \<Longrightarrow> f x = Some (g x)) \<Longrightarrow> those (map f xs) = Some (map g xs)"
  by (induction xs) auto

lemma those_length: "those xs = Some ys \<Longrightarrow> length ys = length xs"
  by (induction xs arbitrary: ys) (auto split: option.splits)

lemma those_nth: "those xs = Some ys \<Longrightarrow> k < length xs \<Longrightarrow> xs ! k = Some (ys ! k)"
proof (induction xs arbitrary: ys k)
  case (Cons x xs)
  then show ?case by (cases k) (auto split: option.splits)
qed simp

section \<open>ASCII\<close>

text \<open>A byte-string literal \<^verbatim>\<open>b"..."\<close>, and the ASCII classes of the standard library's \<^verbatim>\<open>u8\<close>.\<close>

abbreviation lit :: "string \<Rightarrow> bytes" where "lit s \<equiv> map of_char s"

definition is_ascii_digit :: "u8 \<Rightarrow> bool" where "is_ascii_digit b = (0x30 \<le> b \<and> b \<le> 0x39)"
definition is_ascii_lowercase :: "u8 \<Rightarrow> bool" where "is_ascii_lowercase b = (0x61 \<le> b \<and> b \<le> 0x7a)"
definition is_ascii_uppercase :: "u8 \<Rightarrow> bool" where "is_ascii_uppercase b = (0x41 \<le> b \<and> b \<le> 0x5a)"

definition to_ascii_lowercase :: "u8 \<Rightarrow> u8" where
  "to_ascii_lowercase b = (if is_ascii_uppercase b then b OR 0x20 else b)"

definition to_ascii_uppercase :: "u8 \<Rightarrow> u8" where
  "to_ascii_uppercase b = (if is_ascii_lowercase b then b AND NOT 0x20 else b)"

text \<open>Lowercasing only produces letters from something else.\<close>

lemma lowercase_digit: "to_ascii_lowercase c = d \<Longrightarrow> d < 0x40 \<Longrightarrow> c = d"
proof (cases "is_ascii_uppercase c")
  case True
  then have "unat c \<in> set [0x41..<0x5b]"
    unfolding set_upt by (auto simp: is_ascii_uppercase_def word_le_nat_alt)
  then have "\<not> to_ascii_lowercase c < 0x40"
    by (rule byte_cases [where ks = "[0x41..<0x5b]" and b = c, rotated]) code_simp
  then show "to_ascii_lowercase c = d \<Longrightarrow> d < 0x40 \<Longrightarrow> c = d" by simp
qed (simp add: to_ascii_lowercase_def)

lemma lowercase_digits:
  "map to_ascii_lowercase s = t \<Longrightarrow> list_all (\<lambda>d. d < 0x40) t \<Longrightarrow> s = t"
proof (induction s arbitrary: t)
  case (Cons c s)
  then obtain d t' where "t = d # t'" "to_ascii_lowercase c = d" "map to_ascii_lowercase s = t'" by auto
  with Cons show ?case using lowercase_digit [of c d] by auto
qed simp

definition eq_ignore_ascii_case :: "bytes \<Rightarrow> bytes \<Rightarrow> bool" where
  "eq_ignore_ascii_case a b = (map to_ascii_lowercase a = map to_ascii_lowercase b)"

definition is_ascii :: "bytes \<Rightarrow> bool" where "is_ascii s = list_all (\<lambda>b. b < 0x80) s"

text \<open>\<^verbatim>\<open>std::str::from_utf8\<close>: the byte sequences it accepts.\<close>

fun utf8_valid :: "bytes \<Rightarrow> bool" where
  "utf8_valid [] = True"
| "utf8_valid (a # s) =
     (if a < 0x80 then utf8_valid s
      else case s of
        [] \<Rightarrow> False
      | b # s2 \<Rightarrow>
          if 0xc2 \<le> a \<and> a \<le> 0xdf then 0x80 \<le> b \<and> b \<le> 0xbf \<and> utf8_valid s2
          else case s2 of
            [] \<Rightarrow> False
          | c # s3 \<Rightarrow>
              if 0xe0 \<le> a \<and> a \<le> 0xef then
                (if a = 0xe0 then 0xa0 \<le> b \<and> b \<le> 0xbf else if a = 0xed then 0x80 \<le> b \<and> b \<le> 0x9f
                 else 0x80 \<le> b \<and> b \<le> 0xbf) \<and> 0x80 \<le> c \<and> c \<le> 0xbf \<and> utf8_valid s3
              else case s3 of
                [] \<Rightarrow> False
              | d # s4 \<Rightarrow> 0xf0 \<le> a \<and> a \<le> 0xf4 \<and>
                  (if a = 0xf0 then 0x90 \<le> b \<and> b \<le> 0xbf else if a = 0xf4 then 0x80 \<le> b \<and> b \<le> 0x8f
                   else 0x80 \<le> b \<and> b \<le> 0xbf) \<and>
                  0x80 \<le> c \<and> c \<le> 0xbf \<and> 0x80 \<le> d \<and> d \<le> 0xbf \<and> utf8_valid s4)"

lemma ascii_utf8_valid: "is_ascii s \<Longrightarrow> utf8_valid s"
  by (induction s) (simp_all add: is_ascii_def)

section \<open>Sorting\<close>

text \<open>
  \<^verbatim>\<open>Vec::sort_by\<close> is a stable sort; for a total preorder its result does not depend on the algorithm.
  \<^verbatim>\<open>Vec::dedup_by_key\<close> keeps the first element of every run of equal keys.
\<close>

fun insert_by :: "('a \<Rightarrow> 'a \<Rightarrow> ordering) \<Rightarrow> 'a \<Rightarrow> 'a list \<Rightarrow> 'a list" where
  "insert_by c x [] = [x]"
| "insert_by c x (y # ys) = (if c x y = Greater then y # insert_by c x ys else x # y # ys)"

definition sort_by :: "('a \<Rightarrow> 'a \<Rightarrow> ordering) \<Rightarrow> 'a list \<Rightarrow> 'a list" where
  "sort_by c xs = foldr (insert_by c) xs []"

fun dedup_by_key :: "('a \<Rightarrow> 'b) \<Rightarrow> 'a list \<Rightarrow> 'a list" where
  "dedup_by_key f [] = []"
| "dedup_by_key f [x] = [x]"
| "dedup_by_key f (x # y # ys) = (if f x = f y then dedup_by_key f (x # ys) else x # dedup_by_key f (y # ys))"

definition reverse_cmp :: "ordering \<Rightarrow> ordering" where
  "reverse_cmp o1 = (case o1 of Less \<Rightarrow> Greater | Equal \<Rightarrow> Equal | Greater \<Rightarrow> Less)"

lemma set_insert_by [simp]: "set (insert_by c x xs) = insert x (set xs)"
  by (induction xs) auto

lemma set_sort_by [simp]: "set (sort_by c xs) = set xs"
  by (induction xs) (simp_all add: sort_by_def)

lemma length_sort_by [simp]: "length (sort_by c xs) = length xs"
proof (induction xs)
  case (Cons x xs)
  have "length (insert_by c x ys) = Suc (length ys)" for ys by (induction ys) auto
  with Cons show ?case by (simp add: sort_by_def)
qed (simp add: sort_by_def)

text \<open>What \<^verbatim>\<open>sort_by\<close> asks of a comparison function: a total preorder.\<close>

locale comparator =
  fixes c :: "'a \<Rightarrow> 'a \<Rightarrow> ordering"
  assumes swap: "c x y = Less \<longleftrightarrow> c y x = Greater"
    and le_trans: "c x y \<noteq> Greater \<Longrightarrow> c y z \<noteq> Greater \<Longrightarrow> c x z \<noteq> Greater"
begin

lemma equal_sym: "c x y = Equal \<longleftrightarrow> c y x = Equal"
  using swap [of x y] swap [of y x] by (cases "c x y"; cases "c y x") auto

lemma less_le_trans: "c x y = Less \<Longrightarrow> c y z \<noteq> Greater \<Longrightarrow> c x z = Less"
  using le_trans [of y z x] le_trans [of x y z] swap [of x y] equal_sym [of x z] by (cases "c x z") auto

lemma le_less_trans: "c x y \<noteq> Greater \<Longrightarrow> c y z = Less \<Longrightarrow> c x z = Less"
  using le_trans [of z x y] le_trans [of x y z] swap [of y z] equal_sym [of x z] by (cases "c x z") auto

lemma insert_by_sorted:
  "sorted_wrt (\<lambda>x y. c x y \<noteq> Greater) xs \<Longrightarrow> sorted_wrt (\<lambda>x y. c x y \<noteq> Greater) (insert_by c x xs)"
proof (induction xs)
  case (Cons y ys)
  show ?case
  proof (cases "c x y = Greater")
    case True
    then have "c y x \<noteq> Greater" using swap [of y x] by auto
    with True Cons show ?thesis by auto
  next
    case False
    then have "c x z \<noteq> Greater" if "z \<in> set ys" for z
      using le_trans [of x y z] Cons.prems that by auto
    with False Cons.prems show ?thesis by auto
  qed
qed simp

lemma sort_by_sorted: "sorted_wrt (\<lambda>x y. c x y \<noteq> Greater) (sort_by c xs)"
  by (induction xs) (simp_all add: sort_by_def insert_by_sorted)

end

context comparator
begin

lemma then_le:
  assumes le: "then_cmp (c x y) o1 \<noteq> Greater" "then_cmp (c y z) o2 \<noteq> Greater"
    and o3: "o1 \<noteq> Greater \<Longrightarrow> o2 \<noteq> Greater \<Longrightarrow> o3 \<noteq> Greater"
  shows "then_cmp (c x z) o3 \<noteq> Greater"
proof -
  have c: "c x y \<noteq> Greater" "c y z \<noteq> Greater" using le by (auto simp: then_cmp_Greater_iff)
  show ?thesis
  proof (cases "c x y = Less \<or> c y z = Less")
    case True
    then have "c x z = Less" using c less_le_trans le_less_trans by blast
    then show ?thesis by simp
  next
    case False
    then have "c x y = Equal" "c y z = Equal" using c by (metis ordering.exhaust)+
    then have "o3 \<noteq> Greater" using le o3 by simp
    moreover have "c x z \<noteq> Greater" using c le_trans by blast
    ultimately show ?thesis by (simp add: then_cmp_Greater_iff)
  qed
qed

lemma refl: "c x x = Equal"
  using swap [of x x] by (cases "c x x") auto

lemma dedup_strict:
  "(\<And>x y. f x = f y \<longleftrightarrow> c x y = Equal) \<Longrightarrow> sorted_wrt (\<lambda>x y. c x y \<noteq> Greater) xs \<Longrightarrow>
    sorted_wrt (\<lambda>x y. c x y = Less) (dedup_by_key f xs) \<and> set (dedup_by_key f xs) \<subseteq> set xs"
proof (induction f xs rule: dedup_by_key.induct)
  case (3 f x y ys)
  show ?case
  proof (cases "f x = f y")
    case True
    then show ?thesis using 3 by auto
  next
    case False
    then have "c x y = Less" using "3.prems"(1) [of x y] "3.prems"(2) by (cases "c x y") auto
    then have "c x z = Less" if "z \<in> set (y # ys)" for z
      using that less_le_trans [of x y z] "3.prems"(2) by auto
    then show ?thesis using False 3 by auto
  qed
qed auto

lemma dedup_least:
  "sorted_wrt (\<lambda>x y. c x y \<noteq> Greater) xs \<Longrightarrow> x \<in> set xs \<Longrightarrow>
   \<exists>y\<in>set (dedup_by_key f xs). f y = f x \<and> c y x \<noteq> Greater"
proof (induction f xs arbitrary: x rule: dedup_by_key.induct)
  case (2 f a)
  then show ?case by (simp add: refl)
next
  case (3 f a b ys)
  show ?case
  proof (cases "f a = f b")
    case True
    have ex: "\<exists>y\<in>set (dedup_by_key f (a # ys)). f y = f z \<and> c y z \<noteq> Greater" if "z \<in> set (a # ys)" for z
      using "3.IH"(1) [OF True _ that] "3.prems"(1) by simp
    show ?thesis
    proof (cases "x = b")
      case xb: True
      have "c a b \<noteq> Greater" using "3.prems"(1) by simp
      moreover obtain y where "y \<in> set (dedup_by_key f (a # ys))" "f y = f a" "c y a \<noteq> Greater"
        using ex [of a] by auto
      ultimately show ?thesis using le_trans [of y a b] True xb by auto
    next
      case False
      then show ?thesis using ex [of x] "3.prems"(2) True by auto
    qed
  next
    case False
    then show ?thesis using 3 by (cases "x = a") (auto simp: refl)
  qed
qed simp

end

lemma comparator_then:
  assumes "comparator c" "comparator d"
  shows "comparator (\<lambda>x y. then_cmp (c x y) (d x y))"
proof
  fix x y z
  show "then_cmp (c x y) (d x y) = Less \<longleftrightarrow> then_cmp (c y x) (d y x) = Greater"
    using comparator.swap [OF assms(1)] comparator.swap [OF assms(2)] comparator.equal_sym [OF assms(1)]
    by (metis then_cmp_Greater_iff then_cmp_Less_iff)
  show "then_cmp (c x y) (d x y) \<noteq> Greater \<Longrightarrow> then_cmp (c y z) (d y z) \<noteq> Greater \<Longrightarrow> then_cmp (c x z) (d x z) \<noteq> Greater"
    by (erule (1) comparator.then_le [OF assms(1)]) (rule comparator.le_trans [OF assms(2)])
qed

fun list_cmp :: "('a \<Rightarrow> 'a \<Rightarrow> ordering) \<Rightarrow> 'a list \<Rightarrow> 'a list \<Rightarrow> ordering" where
  "list_cmp c [] [] = Equal"
| "list_cmp c [] (b # bs) = Less"
| "list_cmp c (a # as) [] = Greater"
| "list_cmp c (a # as) (b # bs) = then_cmp (c a b) (list_cmp c as bs)"

lemma comparator_list:
  assumes "comparator c"
  shows "comparator (list_cmp c)"
proof
  fix x y z
  show "list_cmp c x y = Less \<longleftrightarrow> list_cmp c y x = Greater"
  proof (induction x arbitrary: y)
    case Nil
    then show ?case by (cases y) auto
  next
    case (Cons a as)
    then show ?case
      using comparator.swap [OF assms] comparator.equal_sym [OF assms]
      by (cases y) (auto simp: then_cmp_Greater_iff then_cmp_Less_iff)
  qed
  show "list_cmp c x y \<noteq> Greater \<Longrightarrow> list_cmp c y z \<noteq> Greater \<Longrightarrow> list_cmp c x z \<noteq> Greater"
  proof (induction x arbitrary: y z)
    case Nil
    then show ?case by (cases z) auto
  next
    case (Cons a as)
    from Cons.prems obtain b bs where y: "y = b # bs" by (cases y) auto
    from Cons.prems y obtain d ds where z: "z = d # ds" by (cases z) auto
    have "then_cmp (c a d) (list_cmp c as ds) \<noteq> Greater"
    proof (rule comparator.then_le [OF assms])
      show "then_cmp (c a b) (list_cmp c as bs) \<noteq> Greater" "then_cmp (c b d) (list_cmp c bs ds) \<noteq> Greater"
        using Cons.prems y z by simp_all
    qed (rule Cons.IH)
    then show ?case by (simp add: z)
  qed
qed

lemma comparator_key: "comparator c \<Longrightarrow> comparator (\<lambda>x y. c (f x) (f y))"
  by (simp add: comparator_def)

lemma comparator_reverse: "comparator c \<Longrightarrow> comparator (\<lambda>x y. reverse_cmp (c x y))"
proof
  fix x y z
  assume c: "comparator c"
  show "reverse_cmp (c x y) = Less \<longleftrightarrow> reverse_cmp (c y x) = Greater"
    using comparator.swap [OF c, of y x] by (cases "c x y"; cases "c y x") (auto simp: reverse_cmp_def)
  assume "reverse_cmp (c x y) \<noteq> Greater" "reverse_cmp (c y z) \<noteq> Greater"
  then have "c x y \<noteq> Less" "c y z \<noteq> Less" by (auto simp: reverse_cmp_def)
  then have "c y x \<noteq> Greater" "c z y \<noteq> Greater" using comparator.swap [OF c] by auto
  then have "c z x \<noteq> Greater" using comparator.le_trans [OF c] by blast
  then have "c x z \<noteq> Less" using comparator.swap [OF c] by auto
  then show "reverse_cmp (c x z) \<noteq> Greater" by (cases "c x z") (auto simp: reverse_cmp_def)
qed

interpretation cmp: comparator "cmp :: 'a::linorder \<Rightarrow> 'a \<Rightarrow> ordering"
  by unfold_locales (auto simp: cmp_def split: if_splits)

interpretation cmp_slice: comparator "cmp_slice :: 'a::linorder list \<Rightarrow> 'a list \<Rightarrow> ordering"
proof
  fix x y z :: "'a list"
  show "cmp_slice x y = Less \<longleftrightarrow> cmp_slice y x = Greater" by (rule cmp_slice_swap)
  assume "cmp_slice x y \<noteq> Greater" "cmp_slice y z \<noteq> Greater"
  then show "cmp_slice x z \<noteq> Greater"
    using cmp_slice_Less_trans [of x y z] by (cases "cmp_slice x y"; cases "cmp_slice y z") auto
qed

section \<open>Searching\<close>

text \<open>\<^verbatim>\<open>iter().position(p)\<close>, and the first occurrence of a sub-slice.\<close>

fun position :: "('a \<Rightarrow> bool) \<Rightarrow> 'a list \<Rightarrow> nat option" where
  "position P [] = None"
| "position P (x # xs) = (if P x then Some 0 else map_option Suc (position P xs))"

fun find_sub :: "'a list \<Rightarrow> 'a list \<Rightarrow> nat option" where
  "find_sub needle [] = (if needle = [] then Some 0 else None)"
| "find_sub needle (x # xs) =
     (if prefix needle (x # xs) then Some 0 else map_option Suc (find_sub needle xs))"

lemma position_None [simp]: "position P xs = None \<longleftrightarrow> (\<forall>x\<in>set xs. \<not> P x)"
  by (induction xs) auto

lemma position_Some:
  "position P xs = Some i \<longleftrightarrow> i < length xs \<and> P (xs ! i) \<and> (\<forall>j<i. \<not> P (xs ! j))"
proof (induction xs arbitrary: i)
  case (Cons x xs)
  then show ?case
    by (cases i) (auto simp: nth_Cons split: nat.splits)
qed simp

lemma position_SomeD:
  assumes "position P xs = Some i"
  shows "i < length xs" "P (xs ! i)" "\<forall>x\<in>set (take i xs). \<not> P x"
  using assms by (auto simp: position_Some in_set_conv_nth)

lemma position_split:
  "position P xs = Some i \<longleftrightarrow>
     (\<exists>ys y zs. xs = ys @ y # zs \<and> length ys = i \<and> P y \<and> (\<forall>x\<in>set ys. \<not> P x))"
proof
  assume a: "position P xs = Some i"
  then have "xs = take i xs @ xs ! i # drop (Suc i) xs"
    by (simp add: position_Some id_take_nth_drop)
  with position_SomeD [OF a] show "\<exists>ys y zs. xs = ys @ y # zs \<and> length ys = i \<and> P y \<and> (\<forall>x\<in>set ys. \<not> P x)"
    by (metis length_take min.absorb4)
next
  assume "\<exists>ys y zs. xs = ys @ y # zs \<and> length ys = i \<and> P y \<and> (\<forall>x\<in>set ys. \<not> P x)"
  then show "position P xs = Some i" by (auto simp: position_Some nth_append)
qed

lemma position_append:
  "position P (xs @ ys) =
     (case position P xs of Some i \<Rightarrow> Some i | None \<Rightarrow> map_option (\<lambda>i. length xs + i) (position P ys))"
proof (induction xs)
  case (Cons x xs)
  then show ?case
    by (cases "position P xs"; cases "position P ys") (simp_all del: position_None)
qed (cases "position P ys", simp_all del: position_None)

lemma find_sub_length: "find_sub needle xs = Some i \<Longrightarrow> i + length needle \<le> length xs"
  by (induction xs arbitrary: i) (fastforce dest: prefix_length_le split: if_splits)+

lemma find_sub_append: "find_sub needle xs = Some i \<Longrightarrow> find_sub needle (xs @ ys) = Some i"
proof (induction xs arbitrary: i)
  case Nil
  then show ?case by (cases ys) (simp_all split: if_splits)
next
  case (Cons x xs)
  show ?case
  proof (cases "prefix needle (x # xs)")
    case True
    then have "prefix needle ((x # xs) @ ys)" by (rule prefix_prefix)
    then show ?thesis using True Cons.prems by simp
  next
    case False
    then obtain j where j: "find_sub needle xs = Some j" "i = Suc j" using Cons.prems by auto
    then have "length needle \<le> length (x # xs)" using find_sub_length [of needle xs j] by simp
    then have "\<not> prefix needle ((x # xs) @ ys)" using False prefix_length_prefix [of needle "(x # xs) @ ys" "x # xs"] by auto
    then show ?thesis using j Cons.IH by simp
  qed
qed

text \<open>\<^verbatim>\<open>split\<close> at a byte: the pieces between its occurrences, at least one.\<close>

fun split_on :: "u8 \<Rightarrow> bytes \<Rightarrow> bytes list" where
  "split_on b [] = [[]]"
| "split_on b (x # xs) =
     (if x = b then [] # split_on b xs
      else case split_on b xs of [] \<Rightarrow> [[x]] | y # ys \<Rightarrow> (x # y) # ys)"

text \<open>The last position, and the last occurrence of a sub-slice.\<close>

fun rposition :: "('a \<Rightarrow> bool) \<Rightarrow> 'a list \<Rightarrow> nat option" where
  "rposition P [] = None"
| "rposition P (x # xs) =
     (case rposition P xs of Some i \<Rightarrow> Some (Suc i) | None \<Rightarrow> if P x then Some 0 else None)"

fun rfind_sub :: "'a list \<Rightarrow> 'a list \<Rightarrow> nat option" where
  "rfind_sub needle [] = (if needle = [] then Some 0 else None)"
| "rfind_sub needle (x # xs) =
     (case rfind_sub needle xs of Some i \<Rightarrow> Some (Suc i) | None \<Rightarrow> if prefix needle (x # xs) then Some 0 else None)"

lemma rposition_None [simp]: "rposition P xs = None \<longleftrightarrow> (\<forall>x\<in>set xs. \<not> P x)"
  by (induction xs) (auto split: option.splits)

lemma rposition_last:
  "P y \<Longrightarrow> \<forall>z\<in>set zs. \<not> P z \<Longrightarrow> rposition P (xs @ y # zs) = Some (length xs)"
proof (induction xs)
  case Nil
  then have "rposition P zs = None" by simp
  with Nil show ?case by (simp del: rposition_None)
qed simp

end
