(* ===== verification/Gix_External.thy ===== *)
theory Gix_External
  imports Gix_Prelude
begin

text \<open>
  The third-party crates the modelled sources call and whose code is not part of the repository:
  \<^verbatim>\<open>faster_hex\<close> (hexadecimal conversion) and \<^verbatim>\<open>bstr\<close> (searching in byte strings).  Each is a
  record of functions that the definitions of the model take as an argument; a locale per crate
  states the documented behaviour the callers rely on.  The hexadecimal notation itself
  (\<open>hex_lower\<close>, \<open>unhex\<close>) is defined here because Rust's own \<^verbatim>\<open>{:02x}\<close> formatting uses it too.
\<close>

section \<open>Hexadecimal notation\<close>

definition hex_digit :: "u8 \<Rightarrow> u8" where
  "hex_digit n = (if n < 10 then 0x30 + n else 0x57 + n)"

definition nibble_of :: "u8 \<Rightarrow> u8 option" where
  "nibble_of c =
     (if 0x30 \<le> c \<and> c \<le> 0x39 then Some (c - 0x30)
      else if 0x61 \<le> c \<and> c \<le> 0x66 then Some (c - 0x57)
      else if 0x41 \<le> c \<and> c \<le> 0x46 then Some (c - 0x37)
      else None)"

fun nibbles :: "bytes \<Rightarrow> bytes" where
  "nibbles [] = []"
| "nibbles (b # bs) = drop_bit 4 b # (b AND 0x0f) # nibbles bs"

definition hex_lower :: "bytes \<Rightarrow> bytes" where
  "hex_lower bs = map hex_digit (nibbles bs)"

fun unhex :: "bytes \<Rightarrow> bytes option" where
  "unhex [] = Some []"
| "unhex [c] = None"
| "unhex (c # d # cs) =
     (case (nibble_of c, nibble_of d, unhex cs) of
        (Some h, Some l, Some bs) \<Rightarrow> Some ((push_bit 4 h OR l) # bs)
      | _ \<Rightarrow> None)"

lemma length_nibbles [simp]: "length (nibbles bs) = 2 * length bs"
  by (induction bs) auto

lemma length_hex_lower [simp]: "length (hex_lower bs) = 2 * length bs"
  by (simp add: hex_lower_def)

lemma nibbles_append [simp]: "nibbles (xs @ ys) = nibbles xs @ nibbles ys"
  by (induction xs) auto

lemma hex_lower_append [simp]: "hex_lower (xs @ ys) = hex_lower xs @ hex_lower ys"
  by (simp add: hex_lower_def)

lemma low_mask: "(0x0f :: u8) = mask 4"
  by (simp add: mask_eq_exp_minus_1)

lemma nibbles_lt_16: "n \<in> set (nibbles bs) \<Longrightarrow> unat n < 16"
proof (induction bs)
  case (Cons b bs)
  moreover have "unat (drop_bit 4 b) < 16"
    by (simp add: word_nat div_less_iff_less_mult)
  moreover have "unat (b AND 0x0f) < 16"
    by (simp add: low_mask word_nat)
  ultimately show ?case by auto
qed simp

text \<open>Facts about single bytes are decided by running through the values they can have.\<close>

lemma nibble_of_hex_digit [simp]: "unat n < 16 \<Longrightarrow> nibble_of (hex_digit n) = Some n"
  by (rule byte_cases [where ks = "[0..<16]"]) (code_simp, simp)

lemma hex_digit_nibble_of:
  assumes "nibble_of c = Some n"
  shows "hex_digit n = to_ascii_lowercase c \<and> unat n < 16"
proof -
  let ?ks = "[0x30..<0x3a] @ [0x41..<0x47] @ [0x61..<0x67]"
  have "unat c \<in> set ?ks"
    unfolding set_append set_upt
    using assms by (auto simp: nibble_of_def word_le_nat_alt split: if_splits)
  then have "hex_digit (the (nibble_of c)) = to_ascii_lowercase c \<and> unat (the (nibble_of c)) < 16"
    by (rule byte_cases [where ks = ?ks and b = c, rotated]) code_simp
  with assms show ?thesis by simp
qed

lemma nibbles_join: "push_bit 4 (drop_bit 4 b) OR (b AND 0x0f) = b" for b :: u8
  by (rule bit_word_eqI) (auto simp: bit_simps low_mask)

lemma split_join:
  fixes h l :: u8
  assumes "unat h < 16" and "unat l < 16"
  shows "drop_bit 4 (push_bit 4 h OR l) = h" and "(push_bit 4 h OR l) AND 0x0f = l"
proof -
  have "h = take_bit 4 h" "l = take_bit 4 l"
    using assms by (auto intro!: unsigned_word_eqI [where 'a = nat] simp only: word_nat, simp_all)
  then have hl: "bit h n \<Longrightarrow> n < 4" "bit l n \<Longrightarrow> n < 4" for n
    by (metis bit_take_bit_iff)+
  show "drop_bit 4 (push_bit 4 h OR l) = h"
    by (rule bit_word_eqI) (use hl in \<open>auto simp: bit_simps\<close>)
  show "(push_bit 4 h OR l) AND 0x0f = l"
    by (rule bit_word_eqI) (use hl in \<open>auto simp: bit_simps low_mask\<close>)
qed

lemma unhex_hex_lower [simp]: "unhex (hex_lower bs) = Some bs"
proof (induction bs)
  case (Cons b bs)
  have "unat (drop_bit 4 b) < 16" "unat (b AND 0x0f) < 16"
    using nibbles_lt_16 [of _ "[b]"] by auto
  with Cons show ?case by (simp add: hex_lower_def nibbles_join)
qed (simp add: hex_lower_def)

lemma unhex_SomeD:
  "unhex s = Some bs \<Longrightarrow> hex_lower bs = map to_ascii_lowercase s \<and> length s = 2 * length bs"
proof (induction s arbitrary: bs rule: unhex.induct)
  case (3 c d cs)
  then obtain h l bs' where *: "nibble_of c = Some h" "nibble_of d = Some l" "unhex cs = Some bs'"
    "bs = (push_bit 4 h OR l) # bs'"
    by (auto split: option.splits)
  have nb: "hex_digit h = to_ascii_lowercase c" "unat h < 16" "hex_digit l = to_ascii_lowercase d" "unat l < 16"
    using hex_digit_nibble_of *(1,2) by auto
  then have "nibbles bs = h # l # nibbles bs'"
    unfolding *(4) nibbles.simps by (simp only: split_join)
  with "3.IH" [OF *(3)] nb *(4) show ?case
    by (simp add: hex_lower_def)
qed (auto simp: hex_lower_def)

section \<open>faster-hex\<close>

text \<open>
  \<^verbatim>\<open>hex_encode(src, dst)\<close> and \<^verbatim>\<open>hex_decode(src, dst)\<close>: the second argument is the length of
  \<^verbatim>\<open>dst\<close>, the result the bytes written to it.
\<close>

datatype hex_error = InvalidChar | InvalidLength nat | Overflow

record faster_hex =
  hex_encode :: "bytes \<Rightarrow> nat \<Rightarrow> (bytes, hex_error) outcome"
  hex_decode :: "bytes \<Rightarrow> nat \<Rightarrow> (bytes, hex_error) outcome"

locale faster_hex_spec =
  fixes fh :: faster_hex
  assumes encode_exact: "n = 2 * length src \<Longrightarrow> hex_encode fh src n = Ok (hex_lower src)"
    and decode_valid: "length src = 2 * n \<Longrightarrow> unhex src = Some bs \<Longrightarrow> hex_decode fh src n = Ok bs"
    and decode_invalid: "length src = 2 * n \<Longrightarrow> unhex src = None \<Longrightarrow>
      hex_decode fh src n = Err InvalidChar \<or> hex_decode fh src n = Err Overflow"
begin

lemma decode_encode:
  "n = 2 * length src \<Longrightarrow> and_then (hex_encode fh src n) (\<lambda>h. hex_decode fh h (length src)) = Ok src"
  by (simp add: encode_exact decode_valid)

lemma decode_cases:
  assumes "length src = 2 * n"
  obtains (valid) bs where "unhex src = Some bs" "hex_decode fh src n = Ok bs" "length bs = n"
  | (char) "unhex src = None" "hex_decode fh src n = Err InvalidChar"
  | (overflow) "unhex src = None" "hex_decode fh src n = Err Overflow"
  using assms decode_valid decode_invalid unhex_SomeD by (cases "unhex src") fastforce+

end

definition reference_hex :: faster_hex where
  "reference_hex = \<lparr>
     hex_encode = (\<lambda>src n. if n < 2 * length src then Err (InvalidLength n) else Ok (hex_lower src)),
     hex_decode = (\<lambda>src n. if odd (length src) \<or> n < length src div 2 then Err (InvalidLength n)
       else case unhex src of None \<Rightarrow> Err InvalidChar | Some bs \<Rightarrow> Ok bs)\<rparr>"

interpretation ref_hex: faster_hex_spec reference_hex
  by unfold_locales (auto simp: reference_hex_def)

section \<open>bstr\<close>

record bstr =
  find_byte :: "bytes \<Rightarrow> u8 \<Rightarrow> nat option"
  find_byteset :: "bytes \<Rightarrow> bytes \<Rightarrow> nat option"
  find_str :: "bytes \<Rightarrow> bytes \<Rightarrow> nat option"
  ends_with_str :: "bytes \<Rightarrow> bytes \<Rightarrow> bool"
  bchars :: "bytes \<Rightarrow> u32 list"
  rfind_byte :: "bytes \<Rightarrow> u8 \<Rightarrow> nat option"
  rfind_str :: "bytes \<Rightarrow> bytes \<Rightarrow> nat option"

text \<open>
  \<^verbatim>\<open>chars()\<close> yields the Unicode scalar values of a byte string; an ASCII byte is a character of its own,
  wherever it stands.
\<close>

locale bstr_spec =
  fixes bs :: bstr
  assumes find_byte: "find_byte bs hay b = position (\<lambda>c. c = b) hay"
    and find_byteset: "find_byteset bs hay cs = position (\<lambda>c. c \<in> set cs) hay"
    and find_str: "find_str bs hay needle = find_sub needle hay"
    and ends_with_str: "ends_with_str bs hay suf \<longleftrightarrow> suffix suf hay"
    and rfind_byte: "rfind_byte bs hay b = rposition (\<lambda>c. c = b) hay"
    and rfind_str: "rfind_str bs hay needle = rfind_sub needle hay"
    and chars_Nil: "bchars bs [] = []"
    and chars_ascii: "a < 0x80 \<Longrightarrow> bchars bs (a # s) = ucast a # bchars bs s"
begin

lemma chars_of_ascii: "is_ascii s \<Longrightarrow> bchars bs s = map ucast s"
  by (induction s) (simp_all add: is_ascii_def chars_Nil chars_ascii)

lemma find_byte_None: "find_byte bs hay b = None \<longleftrightarrow> b \<notin> set hay"
  by (auto simp: find_byte)

lemma find_byteset_Some:
  "find_byteset bs hay cs = Some i \<longleftrightarrow>
     (\<exists>ys y zs. hay = ys @ y # zs \<and> length ys = i \<and> y \<in> set cs \<and> set ys \<inter> set cs = {})"
  by (auto simp: find_byteset position_split)

end

definition reference_bstr :: bstr where
  "reference_bstr = \<lparr>
     find_byte = (\<lambda>hay b. position (\<lambda>c. c = b) hay),
     find_byteset = (\<lambda>hay cs. position (\<lambda>c. c \<in> set cs) hay),
     find_str = (\<lambda>hay needle. find_sub needle hay),
     ends_with_str = (\<lambda>hay suf. suffix suf hay),
     bchars = map (\<lambda>b. if b < 0x80 then ucast b else 0xfffd),
     rfind_byte = (\<lambda>hay b. rposition (\<lambda>c. c = b) hay),
     rfind_str = (\<lambda>hay needle. rfind_sub needle hay)\<rparr>"

interpretation ref_bstr: bstr_spec reference_bstr
  by unfold_locales (simp_all add: reference_bstr_def)

end
