(* ===== verification/Gix_Hash.thy ===== *)
theory Gix_Hash
  imports Gix_External
begin

text \<open>
  The crate \<^verbatim>\<open>gix-hash\<close>: hash kinds (\<^verbatim>\<open>src/gix-hash/src/kind.rs\<close>), owned and borrowed object ids
  (\<^verbatim>\<open>object_id.rs\<close>, \<^verbatim>\<open>oid.rs\<close>) and abbreviated ids (\<^verbatim>\<open>prefix.rs\<close>).  An \<^verbatim>\<open>oid\<close> is a byte slice of
  any length (\<^verbatim>\<open>from_bytes_unchecked\<close> performs no check); an \<^verbatim>\<open>ObjectId\<close> holds a 20-byte array, which
  \<open>wf_object_id\<close> states.  The lemmas show that hexadecimal conversion is a round trip, that an
  abbreviated id compares like the first digits of the hexadecimal form, and that the two ways of making
  an abbreviation agree.
\<close>

section \<open>Kinds\<close>

datatype hash_kind = KSha1

definition kind_try_from :: "u8 \<Rightarrow> (hash_kind, u8) outcome" where
  "kind_try_from value = (if value = 1 then Ok KSha1 else Err value)"

definition kind_as_u8 :: "hash_kind \<Rightarrow> u8" where
  "kind_as_u8 k = (case k of KSha1 \<Rightarrow> 1)"

definition kind_from_str :: "bytes \<Rightarrow> (hash_kind, bytes) outcome" where
  "kind_from_str s = (if s = lit ''sha1'' \<or> s = lit ''SHA1'' then Ok KSha1 else Err s)"

definition kind_display :: "hash_kind \<Rightarrow> bytes" where
  "kind_display k = (case k of KSha1 \<Rightarrow> lit ''SHA1'')"

definition kind_shortest :: hash_kind where "kind_shortest = KSha1"
definition kind_longest :: hash_kind where "kind_longest = KSha1"

definition kind_len_in_hex :: "hash_kind \<Rightarrow> nat" where
  "kind_len_in_hex k = (case k of KSha1 \<Rightarrow> 40)"

definition kind_len_in_bytes :: "hash_kind \<Rightarrow> nat" where
  "kind_len_in_bytes k = (case k of KSha1 \<Rightarrow> 20)"

definition kind_hex_buf :: bytes where "kind_hex_buf = replicate (kind_len_in_hex kind_longest) 0"
definition kind_buf :: bytes where "kind_buf = replicate (kind_len_in_bytes kind_longest) 0"

definition kind_from_hex_len :: "nat \<Rightarrow> hash_kind option" where
  "kind_from_hex_len hex_len = (if hex_len \<le> 40 then Some KSha1 else None)"

definition kind_from_len_in_bytes :: "nat \<Rightarrow> (hash_kind, 'e) outcome" where
  "kind_from_len_in_bytes n = (if n = 20 then Ok KSha1 else Panic)"

section \<open>Object ids\<close>

datatype object_id = Sha1 bytes

type_synonym oid = bytes

fun wf_object_id :: "object_id \<Rightarrow> bool" where
  "wf_object_id (Sha1 b) = (length b = 20)"

datatype decode_error = InvalidHexEncodingLength nat | Invalid

definition object_id_from_hex :: "faster_hex \<Rightarrow> bytes \<Rightarrow> (object_id, decode_error) outcome" where
  "object_id_from_hex fh buffer =
     (if length buffer = 40 then
        (case hex_decode fh buffer 20 of
           Ok buf \<Rightarrow> Ok (Sha1 buf)
         | Err InvalidChar \<Rightarrow> Err Invalid
         | Err Overflow \<Rightarrow> Err Invalid
         | Err (InvalidLength _) \<Rightarrow> Panic
         | Panic \<Rightarrow> Panic)
      else Err (InvalidHexEncodingLength (length buffer)))"

definition object_id_kind :: "object_id \<Rightarrow> hash_kind" where
  "object_id_kind i = (case i of Sha1 _ \<Rightarrow> KSha1)"

definition object_id_as_slice :: "object_id \<Rightarrow> bytes" where
  "object_id_as_slice i = (case i of Sha1 b \<Rightarrow> b)"

definition null_sha1 :: object_id where "null_sha1 = Sha1 (replicate 20 0)"

definition object_id_null :: "hash_kind \<Rightarrow> object_id" where
  "object_id_null k = (case k of KSha1 \<Rightarrow> null_sha1)"

definition object_id_is_null :: "object_id \<Rightarrow> bool" where
  "object_id_is_null i = (case i of Sha1 digest \<Rightarrow> digest = object_id_as_slice null_sha1)"

definition object_id_empty_blob :: "hash_kind \<Rightarrow> object_id" where
  "object_id_empty_blob k = (case k of KSha1 \<Rightarrow>
     Sha1 [0xe6,0x9d,0xe2,0x9b,0xb2,0xd1,0xd6,0x43,0x4b,0x8b,0x29,0xae,0x77,0x5a,0xd8,0xc2,0xe4,0x8c,0x53,0x91])"

definition object_id_empty_tree :: "hash_kind \<Rightarrow> object_id" where
  "object_id_empty_tree k = (case k of KSha1 \<Rightarrow>
     Sha1 [0x4b,0x82,0x5d,0xc6,0x42,0xcb,0x6e,0xb9,0xa0,0x60,0xe5,0x4b,0xf8,0xd6,0x92,0x88,0xfb,0xee,0x49,0x04])"

definition object_id_is_empty_blob :: "object_id \<Rightarrow> bool" where
  "object_id_is_empty_blob i = (i = object_id_empty_blob (object_id_kind i))"

definition object_id_is_empty_tree :: "object_id \<Rightarrow> bool" where
  "object_id_is_empty_tree i = (i = object_id_empty_tree (object_id_kind i))"

definition object_id_from_bytes_or_panic :: "bytes \<Rightarrow> (object_id, 'e) outcome" where
  "object_id_from_bytes_or_panic b = (if length b = 20 then Ok (Sha1 b) else Panic)"

text \<open>\<^verbatim>\<open>copy_from_slice\<close> panics when the lengths differ.\<close>

definition object_id_from_20_bytes :: "bytes \<Rightarrow> (object_id, 'e) outcome" where
  "object_id_from_20_bytes b = (if length b = 20 then Ok (Sha1 b) else Panic)"

definition object_id_debug :: "object_id \<Rightarrow> bytes" where
  "object_id_debug i = (case i of Sha1 b \<Rightarrow> lit ''Sha1('' @ hex_lower b @ lit '')'')"

section \<open>Borrowed ids\<close>

datatype oid_error = InvalidByteSliceLength nat

definition oid_try_from_bytes :: "bytes \<Rightarrow> (oid, oid_error) outcome" where
  "oid_try_from_bytes digest =
     (if length digest = 20 then Ok digest else Err (InvalidByteSliceLength (length digest)))"

definition oid_kind :: "oid \<Rightarrow> (hash_kind, 'e) outcome" where
  "oid_kind o1 = kind_from_len_in_bytes (length o1)"

definition oid_first_byte :: "oid \<Rightarrow> (u8, 'e) outcome" where
  "oid_first_byte o1 = expect (get_at o1 0)"

definition oid_is_null :: "oid \<Rightarrow> (bool, 'e) outcome" where
  "oid_is_null o1 = and_then (oid_kind o1) (\<lambda>k. case k of KSha1 \<Rightarrow> Ok (o1 = object_id_as_slice null_sha1))"

definition oid_hex_to_buf :: "faster_hex \<Rightarrow> oid \<Rightarrow> bytes \<Rightarrow> (nat \<times> bytes, 'e) outcome" where
  "oid_hex_to_buf fh o1 buf =
     (let num_hex_bytes = length o1 * 2 in
      if length buf < num_hex_bytes then Panic
      else (case hex_encode fh o1 num_hex_bytes of
              Ok h \<Rightarrow> Ok (num_hex_bytes, h @ drop num_hex_bytes buf)
            | _ \<Rightarrow> Panic))"

definition hex_display :: "faster_hex \<Rightarrow> oid \<Rightarrow> nat \<Rightarrow> (bytes, 'e) outcome" where
  "hex_display fh o1 hex_len =
     and_then (oid_hex_to_buf fh o1 kind_hex_buf) (\<lambda>(max_len, hex). expect (get_range hex 0 (min hex_len max_len)))"

definition oid_to_hex :: "faster_hex \<Rightarrow> oid \<Rightarrow> (bytes, 'e) outcome" where
  "oid_to_hex fh o1 = hex_display fh o1 (length o1 * 2)"

definition oid_write_hex_to :: "faster_hex \<Rightarrow> oid \<Rightarrow> bytes \<Rightarrow> (bytes, 'e) outcome" where
  "oid_write_hex_to fh o1 out =
     and_then (oid_hex_to_buf fh o1 kind_hex_buf) (\<lambda>(hex_len, hex).
       and_then (expect (get_range hex 0 hex_len)) (\<lambda>h. Ok (out @ h)))"

definition oid_to_owned :: "oid \<Rightarrow> (object_id, 'e) outcome" where
  "oid_to_owned o1 = and_then (oid_kind o1) (\<lambda>k. case k of KSha1 \<Rightarrow> Ok (Sha1 o1))"

definition oid_display :: "oid \<Rightarrow> bytes" where
  "oid_display o1 = concat (map (\<lambda>b. hex_lower [b]) o1)"

definition object_id_try_from :: "bytes \<Rightarrow> (object_id, oid_error) outcome" where
  "object_id_try_from b = and_then (oid_try_from_bytes b) oid_to_owned"

section \<open>Prefixes\<close>

record oid_prefix =
  prefix_bytes :: object_id
  prefix_hex_len :: nat

definition MIN_HEX_LEN :: nat where "MIN_HEX_LEN = 4"

datatype prefix_error = PTooShort nat | PTooLong hash_kind nat

datatype from_hex_error = TooShort nat | TooLong nat | PInvalid

definition prefix_new :: "oid \<Rightarrow> nat \<Rightarrow> (oid_prefix, prefix_error) outcome" where
  "prefix_new i hex_len =
     and_then (oid_kind i) (\<lambda>k.
       if hex_len > kind_len_in_hex k then Err (PTooLong k hex_len)
       else if hex_len < MIN_HEX_LEN then Err (PTooShort hex_len)
       else
         let b0 = object_id_as_slice (object_id_null k);
             copy_len = (hex_len + 1) div 2;
             b1 = take copy_len i @ drop copy_len b0;
             b2 = (if hex_len mod 2 = 1 then b1[hex_len div 2 := b1 ! (hex_len div 2) AND 0xf0] else b1)
         in Ok \<lparr>prefix_bytes = Sha1 b2, prefix_hex_len = hex_len\<rparr>)"

definition prefix_cmp_oid :: "oid_prefix \<Rightarrow> oid \<Rightarrow> (ordering, 'e) outcome" where
  "prefix_cmp_oid p candidate =
     (let common_len = prefix_hex_len p div 2;
          b = object_id_as_slice (prefix_bytes p) in
      and_then (expect (get_range b 0 common_len)) (\<lambda>l.
      and_then (expect (get_range candidate 0 common_len)) (\<lambda>r.
        and_then
          (if prefix_hex_len p mod 2 = 1 then
             (let half_byte_idx = prefix_hex_len p div 2 in
              and_then (expect (get_at b half_byte_idx)) (\<lambda>x.
              and_then (expect (get_at candidate half_byte_idx)) (\<lambda>y. Ok (cmp x (y AND 0xf0)))))
           else Ok Equal)
          (\<lambda>half. Ok (then_cmp (cmp_slice l r) half)))))"

definition prefix_from_hex :: "faster_hex \<Rightarrow> bytes \<Rightarrow> (oid_prefix, from_hex_error) outcome" where
  "prefix_from_hex fh value =
     (let hex_len = length value in
      if hex_len > kind_len_in_hex kind_longest then Err (TooLong hex_len)
      else if hex_len < MIN_HEX_LEN then Err (TooShort hex_len)
      else
        let src = (if length value mod 2 = 0 then hex_decode fh value (length value div 2)
                   else let s = value @ [0x30] in hex_decode fh s (length s div 2)) in
        (case src of
           Err InvalidChar \<Rightarrow> Err PInvalid
         | Err Overflow \<Rightarrow> Err PInvalid
         | Err (InvalidLength _) \<Rightarrow> Panic
         | Panic \<Rightarrow> Panic
         | Ok s \<Rightarrow>
             and_then (expect (kind_from_hex_len (length value))) (\<lambda>k.
               let dst = object_id_as_slice (object_id_null k) in
               if length s \<le> length dst
               then Ok \<lparr>prefix_bytes = Sha1 (s @ drop (length s) dst), prefix_hex_len = hex_len\<rparr>
               else Panic)))"

definition prefix_display :: "faster_hex \<Rightarrow> oid_prefix \<Rightarrow> (bytes, 'e) outcome" where
  "prefix_display fh p = hex_display fh (object_id_as_slice (prefix_bytes p)) (prefix_hex_len p)"

definition prefix_from_object_id :: "object_id \<Rightarrow> oid_prefix" where
  "prefix_from_object_id i = \<lparr>prefix_bytes = i, prefix_hex_len = kind_len_in_hex (object_id_kind i)\<rparr>"

lemmas hash_defs [gix_simps] =
  kind_len_in_hex_def kind_len_in_bytes_def kind_longest_def kind_hex_buf_def kind_from_len_in_bytes_def
  kind_from_hex_len_def oid_kind_def object_id_null_def null_sha1_def object_id_as_slice_def MIN_HEX_LEN_def

section \<open>Comparing half bytes\<close>

lemma nibble_parts [simp]:
  "drop_bit 4 y AND 0x0f = drop_bit 4 y" "(y AND 0xf0) AND 0x0f = 0" for y :: u8
proof -
  have "n < 4" if "bit y (4 + n)" for n
    using bit_imp_le_length [OF that] by simp
  then show "drop_bit 4 y AND 0x0f = drop_bit 4 y"
    by (auto intro!: bit_word_eqI simp: bit_simps low_mask)
qed (simp add: and.assoc)

lemma cmp_byte:
  "cmp x y = then_cmp (cmp (drop_bit 4 x) (drop_bit 4 y)) (cmp (x AND 0x0f) (y AND 0x0f))" for x y :: u8
proof -
  have u: "unat z = 16 * (unat (drop_bit 4 z)) + unat (z AND 0x0f)" and l: "unat (z AND 0x0f) < 16" for z :: u8
    by (simp_all add: low_mask word_nat)
  have "x = y \<longleftrightarrow> unat (drop_bit 4 x) = unat (drop_bit 4 y) \<and> unat (x AND 0x0f) = unat (y AND 0x0f)"
    by (metis u unsigned_word_eqI)
  moreover have "x < y \<longleftrightarrow> unat (drop_bit 4 x) < unat (drop_bit 4 y) \<or>
      unat (drop_bit 4 x) = unat (drop_bit 4 y) \<and> unat (x AND 0x0f) < unat (y AND 0x0f)"
    using u [of x] u [of y] l [of x] l [of y] unfolding word_less_nat_alt by linarith
  ultimately show ?thesis
    unfolding cmp_def word_less_nat_alt [of "drop_bit 4 x"] word_less_nat_alt [of "x AND 0x0f"]
      word_unat_eq_iff [of "drop_bit 4 x"] word_unat_eq_iff [of "x AND 0x0f"]
    by auto
qed

lemma cmp_slice_nibbles:
  "length xs = length ys \<Longrightarrow> cmp_slice (nibbles xs) (nibbles ys) = cmp_slice xs ys"
  by (induction xs ys rule: list_induct2) (simp_all add: then_cmp_assoc [symmetric] cmp_byte [symmetric])

lemma take_nibbles_even: "take (2 * k) (nibbles b) = nibbles (take k b)"
proof (induction b arbitrary: k)
  case (Cons x b)
  then show ?case by (cases k) auto
qed simp

lemma take_nibbles_odd:
  "k < length b \<Longrightarrow> take (2 * k + 1) (nibbles b) = nibbles (take k b) @ [drop_bit 4 (b ! k)]"
proof (induction b arbitrary: k)
  case (Cons x b)
  then show ?case by (cases k) auto
qed simp

section \<open>Abbreviated ids\<close>

text \<open>A prefix keeps the first digits of an id; the digits past \<open>prefix_hex_len\<close> are zero.\<close>

definition wf_prefix :: "oid_prefix \<Rightarrow> bool" where
  "wf_prefix p \<longleftrightarrow> wf_object_id (prefix_bytes p) \<and> MIN_HEX_LEN \<le> prefix_hex_len p \<and> prefix_hex_len p \<le> 40 \<and>
     drop (prefix_hex_len p) (nibbles (object_id_as_slice (prefix_bytes p))) = replicate (40 - prefix_hex_len p) 0"

definition prefix_digits :: "oid_prefix \<Rightarrow> bytes" where
  "prefix_digits p = take (prefix_hex_len p) (nibbles (object_id_as_slice (prefix_bytes p)))"

lemma wf_prefix_half_byte:
  assumes "wf_prefix p" "odd (prefix_hex_len p)" "prefix_bytes p = Sha1 b"
  shows "(b ! (prefix_hex_len p div 2)) AND 0x0f = 0"
proof -
  let ?n = "prefix_hex_len p" and ?k = "prefix_hex_len p div 2"
  have len: "length b = 20" and n: "?n = 2 * ?k + 1" "?k < 20"
    using assms by (auto simp: wf_prefix_def elim!: oddE)
  have "nibbles b ! (2 * ?k + 1) = drop ?n (nibbles b) ! 0"
    using n len by (simp add: nth_append)
  also have "\<dots> = 0"
    using assms n by (simp add: wf_prefix_def object_id_as_slice_def)
  finally have "nibbles b ! (2 * ?k + 1) = 0" .
  moreover have "nibbles b ! (2 * k + 1) = b ! k AND 0x0f" if "k < length b" for k
    using that by (induction b arbitrary: k) (auto simp: less_Suc_eq_0_disj)
  ultimately show ?thesis using n(2) len by metis
qed

lemma prefix_cmp_digits:
  assumes p: "wf_prefix p" and c: "length candidate = 20"
  shows "prefix_cmp_oid p candidate =
    Ok (cmp_slice (prefix_digits p) (take (prefix_hex_len p) (nibbles candidate)))"
proof -
  obtain b where b: "prefix_bytes p = Sha1 b" by (cases "prefix_bytes p")
  let ?n = "prefix_hex_len p" and ?k = "prefix_hex_len p div 2"
  have len: "length b = 20" and le: "?n \<le> 40"
    using p b by (auto simp: wf_prefix_def)
  show ?thesis
  proof (cases "odd ?n")
    case False
    then have "?n = 2 * ?k" by simp
    moreover have "?k \<le> 20" using le by simp
    ultimately show ?thesis
      using False b c len take_nibbles_even [of ?k b] take_nibbles_even [of ?k candidate]
      by (simp add: prefix_cmp_oid_def prefix_digits_def object_id_as_slice_def get_range_def Let_def
          cmp_slice_nibbles even_iff_mod_2_eq_zero)
  next
    case True
    then have n: "?n = 2 * ?k + 1" and k: "?k < 20" using le by (auto elim!: oddE)
    have "take ?n (nibbles b) = nibbles (take ?k b) @ [drop_bit 4 (b ! ?k)]"
      "take ?n (nibbles candidate) = nibbles (take ?k candidate) @ [drop_bit 4 (candidate ! ?k)]"
      using take_nibbles_odd [of ?k] k len c n by metis+
    moreover have "cmp (b ! ?k) (candidate ! ?k AND 0xf0) = cmp (drop_bit 4 (b ! ?k)) (drop_bit 4 (candidate ! ?k))"
      using wf_prefix_half_byte [OF p True b] by (subst cmp_byte) simp
    ultimately show ?thesis
      using True b c k len
      by (simp add: prefix_cmp_oid_def prefix_digits_def object_id_as_slice_def get_range_def get_at_def Let_def
          cmp_slice_append cmp_slice_nibbles odd_iff_mod_2_eq_one)
  qed
qed

lemma prefix_new_Ok:
  assumes "length i = 20" "4 \<le> n" "n \<le> 40"
  obtains p where "prefix_new i n = Ok p" "wf_prefix p" "prefix_hex_len p = n"
    "prefix_digits p = take n (nibbles i)"
proof -
  let ?k = "n div 2" and ?c = "(n + 1) div 2"
  let ?b1 = "take ?c i @ replicate (20 - ?c) (0 :: u8)"
  let ?b2 = "if n mod 2 = 1 then ?b1[?k := ?b1 ! ?k AND 0xf0] else ?b1"
  let ?p = "\<lparr>prefix_bytes = Sha1 ?b2, prefix_hex_len = n\<rparr>"
  have ok: "prefix_new i n = Ok ?p"
    using assms by (simp add: prefix_new_def hash_defs Let_def)
  have nib0: "nibbles (replicate m 0) = replicate (2 * m) 0" for m
    by (induction m) auto
  have split: "nibbles ?b2 = take n (nibbles i) @ replicate (40 - n) 0"
  proof (cases "odd n")
    case False
    then obtain k where "n = 2 * k" by (auto elim: evenE)
    with assms show ?thesis by (simp add: take_nibbles_even nib0)
  next
    case True
    then obtain k where n: "n = 2 * k + 1" by (auto elim: oddE)
    then have k: "k < 20" "?c = Suc k" "?k = k" using assms by auto
    have b1: "?b1 = take k i @ i ! k # replicate (19 - k) 0"
      using k assms by (simp add: take_Suc_conv_app_nth)
    have "?b2 = take k i @ (i ! k AND 0xf0) # replicate (19 - k) 0"
      using True k assms unfolding b1 by (simp add: odd_iff_mod_2_eq_one nth_append list_update_append)
    then have "nibbles ?b2 = nibbles (take k i) @ [drop_bit 4 (i ! k)] @ 0 # replicate (2 * (19 - k)) 0"
      by (simp add: nib0)
    also have "\<dots> = take n (nibbles i) @ replicate (40 - n) 0"
      using take_nibbles_odd [of k i] k n assms by (simp flip: replicate_Suc)
    finally show ?thesis .
  qed
  have "length ?b2 = 20" using assms by simp
  with split assms have "wf_prefix ?p" "prefix_digits ?p = take n (nibbles i)"
    by (simp_all add: wf_prefix_def prefix_digits_def hash_defs)
  with ok that show ?thesis by (metis oid_prefix.select_convs(2))
qed

lemma nibbles_inj: "nibbles xs = nibbles ys \<Longrightarrow> xs = ys"
  by (metis hex_lower_def option.inject unhex_hex_lower)

lemma wf_prefix_eqI:
  assumes "wf_prefix p" "wf_prefix q" "prefix_digits p = prefix_digits q"
    "prefix_hex_len p = prefix_hex_len q"
  shows "p = q"
proof -
  have "nibbles (object_id_as_slice (prefix_bytes p)) = nibbles (object_id_as_slice (prefix_bytes q))"
    using assms unfolding wf_prefix_def prefix_digits_def by (metis append_take_drop_id)
  then have "prefix_bytes p = prefix_bytes q"
    by (cases "prefix_bytes p"; cases "prefix_bytes q") (auto simp: object_id_as_slice_def dest: nibbles_inj)
  with assms(4) show ?thesis by simp
qed

section \<open>Hexadecimal round trips\<close>

context faster_hex_spec
begin

lemma hex_display_eq:
  assumes "length i = 20" shows "hex_display fh i n = Ok (take n (hex_lower i))"
  using assms by (simp add: hex_display_def oid_hex_to_buf_def encode_exact hash_defs get_range_def Let_def min_def)

lemma to_hex_eq: "length i = 20 \<Longrightarrow> oid_to_hex fh i = Ok (hex_lower i)"
  by (simp add: oid_to_hex_def hex_display_eq)

lemma from_hex_eq:
  "object_id_from_hex fh s =
     (if length s \<noteq> 40 then Err (InvalidHexEncodingLength (length s))
      else case unhex s of None \<Rightarrow> Err Invalid | Some b \<Rightarrow> Ok (Sha1 b))"
proof (cases "length s = 40")
  case True
  then have "length s = 2 * 20" by simp
  then show ?thesis
    by (rule decode_cases) (simp_all add: object_id_from_hex_def True)
qed (simp add: object_id_from_hex_def)

lemma from_hex_wf: "object_id_from_hex fh s = Ok i \<Longrightarrow> wf_object_id i"
  by (auto simp: from_hex_eq dest!: unhex_SomeD split: if_splits option.splits)

end

lemma unhex_digits:
  "even (length ns) \<Longrightarrow> \<forall>n\<in>set ns. unat n < 16 \<Longrightarrow>
   \<exists>bs. unhex (map hex_digit ns) = Some bs \<and> nibbles bs = ns"
proof (induction ns rule: unhex.induct)
  case (3 h l ns)
  then obtain bs where "unhex (map hex_digit ns) = Some bs" "nibbles bs = ns" by auto
  with 3 have "unhex (map hex_digit (h # l # ns)) = Some ((push_bit 4 h OR l) # bs)"
    by simp
  moreover have "nibbles ((push_bit 4 h OR l) # bs) = h # l # ns"
    using "3.prems" \<open>nibbles bs = ns\<close> unfolding nibbles.simps by (simp only: split_join list.set ball_simps insert_iff)
  ultimately show ?case by blast
qed auto

context faster_hex_spec
begin

lemma prefix_from_hex_digits:
  assumes ns: "4 \<le> length ns" "length ns \<le> 40" "\<forall>n\<in>set ns. unat n < 16"
  obtains p where "prefix_from_hex fh (map hex_digit ns) = Ok p" "wf_prefix p"
    "prefix_hex_len p = length ns" "prefix_digits p = ns"
proof -
  let ?ns = "if even (length ns) then ns else ns @ [0]"
  obtain s where s: "unhex (map hex_digit ?ns) = Some s" "nibbles s = ?ns"
    using unhex_digits [of ?ns] ns(3) by (force split: if_splits)
  have len: "2 * length s = length ?ns" and le: "length s \<le> 20"
    using arg_cong [OF s(2), of length] ns(2) by (auto elim!: oddE split: if_splits)
  have dec: "hex_decode fh (map hex_digit ?ns) (length ?ns div 2) = Ok s"
    using decode_valid [OF _ s(1), of "length ?ns div 2"] by simp
  have z: "hex_digit 0 = 0x30" by (simp add: hex_digit_def)
  let ?p = "\<lparr>prefix_bytes = Sha1 (s @ replicate (20 - length s) 0), prefix_hex_len = length ns\<rparr>"
  have ok: "prefix_from_hex fh (map hex_digit ns) = Ok ?p"
    using dec ns le by (auto simp: prefix_from_hex_def hash_defs Let_def z even_iff_mod_2_eq_zero split: if_splits)
  have nib0: "nibbles (replicate m 0) = replicate (2 * m) 0" for m
    by (induction m) auto
  have "wf_prefix ?p \<and> prefix_digits ?p = ns"
    using ns le len s(2) by (auto simp: wf_prefix_def prefix_digits_def hash_defs nib0 split: if_splits simp flip: replicate_Suc)
  with ok that show ?thesis by (metis oid_prefix.select_convs(2))
qed

lemma prefix_from_hex_new:
  assumes "length i = 20" "4 \<le> n" "n \<le> 40"
  shows "\<exists>p. prefix_new i n = Ok p \<and> prefix_from_hex fh (take n (hex_lower i)) = Ok p"
proof -
  obtain p where p: "prefix_new i n = Ok p" "wf_prefix p" "prefix_hex_len p = n"
    "prefix_digits p = take n (nibbles i)"
    using prefix_new_Ok [OF assms] .
  have "\<forall>d\<in>set (take n (nibbles i)). unat d < 16"
    using nibbles_lt_16 set_take_subset by fastforce
  then obtain q where q: "prefix_from_hex fh (map hex_digit (take n (nibbles i))) = Ok q" "wf_prefix q"
    "prefix_hex_len q = n" "prefix_digits q = take n (nibbles i)"
    using prefix_from_hex_digits [of "take n (nibbles i)"] assms by auto
  have "p = q" using wf_prefix_eqI p q by metis
  with p q show ?thesis by (simp add: hex_lower_def take_map)
qed

lemma prefix_display_roundtrip:
  assumes "wf_prefix p"
  shows "\<exists>s. prefix_display fh p = Ok s \<and> prefix_from_hex fh s = Ok p"
proof -
  obtain b where b: "prefix_bytes p = Sha1 b" by (cases "prefix_bytes p")
  with assms have len: "length b = 20" by (simp add: wf_prefix_def)
  have "\<forall>d\<in>set (prefix_digits p). unat d < 16"
    using nibbles_lt_16 set_take_subset unfolding prefix_digits_def by fastforce
  then obtain q where q: "prefix_from_hex fh (map hex_digit (prefix_digits p)) = Ok q" "wf_prefix q"
    "prefix_hex_len q = length (prefix_digits p)" "prefix_digits q = prefix_digits p"
    using prefix_from_hex_digits [of "prefix_digits p"] assms b
    by (auto simp: wf_prefix_def prefix_digits_def hash_defs)
  have "length (prefix_digits p) = prefix_hex_len p"
    using assms b len by (simp add: wf_prefix_def prefix_digits_def hash_defs)
  with q assms have "q = p" by (intro wf_prefix_eqI) auto
  moreover have "prefix_display fh p = Ok (map hex_digit (prefix_digits p))"
    using len b by (simp add: prefix_display_def hex_display_eq prefix_digits_def hash_defs hex_lower_def take_map)
  ultimately show ?thesis using q(1) by blast
qed

end

lemma unhex_None: "unhex s = None \<longleftrightarrow> odd (length s) \<or> \<not> list_all (\<lambda>c. nibble_of c \<noteq> None) s"
  by (induction s rule: unhex.induct) (auto split: option.splits)

section \<open>Properties\<close>

text \<open>
  An abbreviated id made with \<^verbatim>\<open>Prefix::new(id, n)\<close> compares to any candidate exactly as the first
  \<open>n\<close> hexadecimal digits of \<open>id\<close> compare, lexicographically, to the first \<open>n\<close> digits of the candidate;
  in particular \<^verbatim>\<open>cmp_oid\<close> never panics on ids of the right length and answers \<open>Equal\<close> exactly for the
  candidates that start with these digits, for odd and for even \<open>n\<close>.
\<close>

theorem prefix_cmp_oid_compares_digits:
  assumes "length i = 20" and "4 \<le> n" and "n \<le> 40" and "length candidate = 20"
  shows "and_then (map_err (\<lambda>_. ()) (prefix_new i n)) (\<lambda>p. prefix_cmp_oid p candidate) =
    Ok (cmp_slice (take n (nibbles i)) (take n (nibbles candidate)))"
proof -
  obtain p where "prefix_new i n = Ok p" "wf_prefix p" "prefix_hex_len p = n"
    "prefix_digits p = take n (nibbles i)"
    using prefix_new_Ok [OF assms(1-3)] .
  then show ?thesis using prefix_cmp_digits [of p candidate] assms(4) by simp
qed

theorem prefix_cmp_oid_compares_digits_witness:
  "and_then (map_err (\<lambda>_. ()) (prefix_new (replicate 20 0xab) 5)) (\<lambda>p. prefix_cmp_oid p (replicate 20 0xac)) = Ok Less"
proof -
  have "and_then (map_err (\<lambda>_. ()) (prefix_new (replicate 20 0xab) 5)) (\<lambda>p. prefix_cmp_oid p (replicate 20 0xac)) =
    Ok (cmp_slice (take 5 (nibbles (replicate 20 0xab))) (take 5 (nibbles (replicate 20 0xac))))"
    by (rule prefix_cmp_oid_compares_digits) simp_all
  also have "\<dots> = Ok Less" by code_simp
  finally show ?thesis .
qed

text \<open>
  The two constructors of an abbreviated id agree: parsing the first \<open>n\<close> digits of an id's hexadecimal
  form with \<^verbatim>\<open>Prefix::from_hex\<close> gives the very prefix that \<^verbatim>\<open>Prefix::new(id, n)\<close> computes from the bytes,
  for every \<open>n\<close> from 4 to 40, and printing that prefix gives these digits back.
\<close>

theorem prefix_from_hex_agrees_with_new:
  assumes "faster_hex_spec fh" and "length i = 20" and "4 \<le> n" and "n \<le> 40"
  shows "\<exists>p. prefix_new i n = Ok p \<and> prefix_from_hex fh (take n (hex_lower i)) = Ok p \<and>
    prefix_display fh p = (Ok (take n (hex_lower i)) :: (bytes, unit) outcome)"
proof -
  obtain p where p: "prefix_new i n = Ok p" "prefix_from_hex fh (take n (hex_lower i)) = Ok p"
    using faster_hex_spec.prefix_from_hex_new [OF assms] by blast
  obtain q where q: "prefix_new i n = Ok q" "wf_prefix q" "prefix_hex_len q = n"
    "prefix_digits q = take n (nibbles i)"
    using prefix_new_Ok [OF assms(2-4)] .
  obtain b where b: "prefix_bytes q = Sha1 b" "length b = 20"
    using q(2) by (cases "prefix_bytes q") (auto simp: wf_prefix_def)
  have "prefix_display fh q = (Ok (take n (hex_lower b)) :: (bytes, unit) outcome)"
    using b q(3) faster_hex_spec.hex_display_eq [OF assms(1) b(2)]
    by (simp add: prefix_display_def object_id_as_slice_def)
  also have "take n (hex_lower b) = take n (hex_lower i)"
    using b q(3,4) by (simp add: prefix_digits_def object_id_as_slice_def hex_lower_def take_map)
  finally show ?thesis using p q(1) by simp
qed

theorem prefix_from_hex_agrees_with_new_witness:
  "\<exists>p. prefix_new (replicate 20 0xab) 7 = Ok p \<and>
    prefix_from_hex reference_hex (take 7 (hex_lower (replicate 20 0xab))) = Ok p \<and>
    prefix_display reference_hex p = (Ok (take 7 (hex_lower (replicate 20 0xab))) :: (bytes, unit) outcome)"
  by (rule prefix_from_hex_agrees_with_new [OF ref_hex.faster_hex_spec_axioms]) simp_all

text \<open>
  Hexadecimal conversion of object ids is a round trip and rejects everything else: parsing the printed
  form of an id gives the id; a string is accepted only if it has 40 characters, all of them hexadecimal
  digits, and then printing the result gives the string in lower case; every other string of 40 characters is
  \<open>Invalid\<close> and every other length is reported; parsing never panics.
\<close>

theorem object_id_hex_roundtrip:
  assumes fh: "faster_hex_spec fh"
  shows "(length i = 20 \<longrightarrow> and_then (oid_to_hex fh i) (object_id_from_hex fh) = Ok (Sha1 i)) \<and>
    object_id_from_hex fh s =
      (if length s \<noteq> 40 then Err (InvalidHexEncodingLength (length s))
       else if list_all (\<lambda>c. nibble_of c \<noteq> None) s then Ok (Sha1 (the (unhex s)))
       else Err Invalid) \<and>
    (\<forall>j. object_id_from_hex fh s = Ok j \<longrightarrow> wf_object_id j \<and>
      oid_to_hex fh (object_id_as_slice j) = (Ok (map to_ascii_lowercase s) :: (bytes, unit) outcome))"
proof (intro conjI impI allI)
  assume "length i = 20"
  then show "and_then (oid_to_hex fh i) (object_id_from_hex fh) = Ok (Sha1 i)"
    by (simp add: faster_hex_spec.to_hex_eq [OF fh] faster_hex_spec.from_hex_eq [OF fh])
next
  show "object_id_from_hex fh s =
      (if length s \<noteq> 40 then Err (InvalidHexEncodingLength (length s))
       else if list_all (\<lambda>c. nibble_of c \<noteq> None) s then Ok (Sha1 (the (unhex s)))
       else Err Invalid)"
    using unhex_None [of s] by (auto simp: faster_hex_spec.from_hex_eq [OF fh] split: option.splits)
next
  fix j assume j: "object_id_from_hex fh s = Ok j"
  then show "wf_object_id j" by (rule faster_hex_spec.from_hex_wf [OF fh])
  from j obtain b where "j = Sha1 b" "unhex s = Some b" "length s = 40"
    by (auto simp: faster_hex_spec.from_hex_eq [OF fh] split: if_splits option.splits)
  with unhex_SomeD [of s b]
  show "oid_to_hex fh (object_id_as_slice j) = (Ok (map to_ascii_lowercase s) :: (bytes, unit) outcome)"
    by (simp add: faster_hex_spec.to_hex_eq [OF fh] object_id_as_slice_def)
qed

theorem object_id_hex_roundtrip_witness:
  "and_then (oid_to_hex reference_hex (replicate 20 0x5a)) (object_id_from_hex reference_hex) =
    Ok (Sha1 (replicate 20 0x5a)) \<and>
   object_id_from_hex reference_hex (replicate 40 0x67) = Err Invalid \<and>
   object_id_from_hex reference_hex (replicate 39 0x61) = Err (InvalidHexEncodingLength 39)"
  using object_id_hex_roundtrip [OF ref_hex.faster_hex_spec_axioms, of "replicate 20 0x5a" "replicate 40 0x67"]
    object_id_hex_roundtrip [OF ref_hex.faster_hex_spec_axioms, of "replicate 20 0x5a" "replicate 39 0x61"]
  by (simp add: nibble_of_def list_all_iff)

end
