(* ===== verification/Gix_Pack_Entry.thy ===== *)
theory Gix_Pack_Entry
  imports Gix_Hash
begin

text \<open>
  Pack data: the variable-length integers of \<^verbatim>\<open>src/gix-features/src/decode.rs\<close>, the pack header
  (\<^verbatim>\<open>src/gix-pack/src/data/header.rs\<close>) and the header of a pack entry
  (\<^verbatim>\<open>src/gix-pack/src/data/entry/\<close>: \<^verbatim>\<open>mod.rs\<close>, \<^verbatim>\<open>header.rs\<close>, \<^verbatim>\<open>decode.rs\<close>).  A reader is the list of bytes it
  still has to deliver; a writer is the list of bytes written.
\<close>

section \<open>Variable-length integers\<close>

datatype io_error = UnexpectedEof | Unsupported u8

fun read_byte :: "bytes \<Rightarrow> (u8 \<times> bytes, io_error) outcome" where
  "read_byte [] = Err UnexpectedEof"
| "read_byte (b # r) = Ok (b, r)"

text \<open>The body of the loop shared by \<^verbatim>\<open>leb64\<close> and \<^verbatim>\<open>leb64_from_read\<close>.\<close>

definition leb64_step :: "u64 \<Rightarrow> u8 \<Rightarrow> u64" where
  "leb64_step value c = push_bit 7 (value + 1) + (ucast c AND 0x7f)"

fun leb64_from_read_loop :: "u8 \<Rightarrow> u64 \<Rightarrow> nat \<Rightarrow> bytes \<Rightarrow> ((u64 \<times> nat) \<times> bytes, io_error) outcome" where
  "leb64_from_read_loop b value i [] = (if b AND 0x80 = 0 then Ok ((value, i), []) else Err UnexpectedEof)"
| "leb64_from_read_loop b value i (c # r) =
     (if b AND 0x80 = 0 then Ok ((value, i), c # r) else leb64_from_read_loop c (leb64_step value c) (i + 1) r)"

definition leb64_from_read :: "bytes \<Rightarrow> ((u64 \<times> nat) \<times> bytes, io_error) outcome" where
  "leb64_from_read r = and_then (read_byte r) (\<lambda>(b, r). leb64_from_read_loop b (ucast b AND 0x7f) 1 r)"

function leb64_loop :: "bytes \<Rightarrow> u8 \<Rightarrow> u64 \<Rightarrow> nat \<Rightarrow> (u64 \<times> nat) or_panic" where
  "leb64_loop d c value i =
     (if c AND 0x80 = 0 then Some (value, i)
      else case get_at d i of None \<Rightarrow> None | Some c' \<Rightarrow> leb64_loop d c' (leb64_step value c') (i + 1))"
  by pat_completeness auto
termination
  by (relation "measure (\<lambda>(d, c, v, i). length d - i)") (auto simp: get_at_Some)

declare leb64_loop.simps [simp del]

definition leb64 :: "bytes \<Rightarrow> (u64 \<times> nat) or_panic" where
  "leb64 d = (case get_at d 0 of None \<Rightarrow> None | Some c \<Rightarrow> leb64_loop d c (ucast c AND 0x7f) 1)"

text \<open>\<^verbatim>\<open>leb64_encode\<close> fills its 10-byte buffer from the end; \<open>k\<close> slots are left in front of \<open>out\<close>.\<close>

fun leb64_encode_loop :: "nat \<Rightarrow> u64 \<Rightarrow> bytes \<Rightarrow> bytes" where
  "leb64_encode_loop 0 n out = out"
| "leb64_encode_loop (Suc k) n out =
     (let n = drop_bit 7 n in
      if n = 0 then out
      else let n = n - 1 in leb64_encode_loop k n ((0x80 OR (ucast n AND 0x7f)) # out))"

definition leb64_encode :: "u64 \<Rightarrow> bytes" where
  "leb64_encode n = leb64_encode_loop 9 n [ucast n AND 0x7f]"

section \<open>The pack header\<close>

datatype pack_version = PackV2 | PackV3

datatype pack_header_error = HeaderCorrupt string | UnsupportedVersion u32

definition pack_header_decode :: "bytes \<Rightarrow> (pack_version \<times> u32, pack_header_error) outcome" where
  "pack_header_decode d =
     (if length d \<noteq> 12 then Panic
      else if take 4 d \<noteq> lit ''PACK'' then Err (HeaderCorrupt ''Pack data type not recognized'')
      else and_then (read_u32 (take 4 (drop 4 d))) (\<lambda>v.
        let kind = (if v = 2 then Ok PackV2 else if v = 3 then Ok PackV3 else Err (UnsupportedVersion v)) in
        and_then kind (\<lambda>kind.
        and_then (read_u32 (take 4 (drop 8 d))) (\<lambda>num_objects. Ok (kind, num_objects)))))"

definition pack_header_encode :: "pack_version \<Rightarrow> u32 \<Rightarrow> bytes" where
  "pack_header_encode version num_objects =
     lit ''PACK'' @ be32 (case version of PackV2 \<Rightarrow> 2 | PackV3 \<Rightarrow> 3) @ be32 num_objects"

section \<open>Entry headers\<close>

datatype entry_header = HCommit | HTree | HBlob | HTag | RefDelta object_id | OfsDelta u64

datatype object_kind = KTree | KBlob | KCommit | KTag

abbreviation COMMIT :: u8 where "COMMIT \<equiv> 1"
abbreviation TREE :: u8 where "TREE \<equiv> 2"
abbreviation BLOB :: u8 where "BLOB \<equiv> 3"
abbreviation TAG :: u8 where "TAG \<equiv> 4"
abbreviation OFS_DELTA :: u8 where "OFS_DELTA \<equiv> 6"
abbreviation REF_DELTA :: u8 where "REF_DELTA \<equiv> 7"

record pack_entry =
  entry_header :: entry_header
  decompressed_size :: u64
  data_offset :: u64

definition verified_base_pack_offset :: "u64 \<Rightarrow> u64 \<Rightarrow> u64 option" where
  "verified_base_pack_offset pack_offset distance =
     (if distance = 0 then None
      else if distance \<le> pack_offset then Some (pack_offset - distance) else None)"

definition header_as_kind :: "entry_header \<Rightarrow> object_kind option" where
  "header_as_kind h = (case h of HTree \<Rightarrow> Some KTree | HBlob \<Rightarrow> Some KBlob | HCommit \<Rightarrow> Some KCommit
     | HTag \<Rightarrow> Some KTag | RefDelta _ \<Rightarrow> None | OfsDelta _ \<Rightarrow> None)"

definition as_type_id :: "entry_header \<Rightarrow> u8" where
  "as_type_id h = (case h of HBlob \<Rightarrow> BLOB | HTree \<Rightarrow> TREE | HCommit \<Rightarrow> COMMIT | HTag \<Rightarrow> TAG
     | OfsDelta _ \<Rightarrow> OFS_DELTA | RefDelta _ \<Rightarrow> REF_DELTA)"

definition header_is_delta :: "entry_header \<Rightarrow> bool" where
  "header_is_delta h = (case h of OfsDelta _ \<Rightarrow> True | RefDelta _ \<Rightarrow> True | _ \<Rightarrow> False)"

definition header_is_base :: "entry_header \<Rightarrow> bool" where
  "header_is_base h = (\<not> header_is_delta h)"

text \<open>The bytes the loop of \<^verbatim>\<open>Header::write_to\<close> writes; \<open>c\<close> is the byte not yet written.\<close>

function write_size_loop :: "u64 \<Rightarrow> u8 \<Rightarrow> bytes" where
  "write_size_loop sz c =
     (if sz = 0 then [c] else (c OR 0x80) # write_size_loop (drop_bit 7 sz) (ucast sz AND 0x7f))"
  by pat_completeness auto
termination
proof (relation "measure (\<lambda>(sz, c). unat sz)", goal_cases)
  case (2 sz c)
  then have "0 < unat sz" by (simp add: unat_gt_0)
  then show ?case by (simp add: unat_drop_bit)
qed simp

declare write_size_loop.simps [simp del]

definition header_write_to :: "entry_header \<Rightarrow> u64 \<Rightarrow> bytes \<times> nat" where
  "header_write_to h sz =
     (let pre = write_size_loop (drop_bit 4 sz) (push_bit 4 (as_type_id h) OR (ucast sz AND 0x0f));
          suf = (case h of
              RefDelta oid \<Rightarrow> object_id_as_slice oid
            | OfsDelta base_distance \<Rightarrow> leb64_encode base_distance
            | _ \<Rightarrow> [])
      in (pre @ suf, length pre + length suf))"

definition header_size :: "entry_header \<Rightarrow> u64 \<Rightarrow> nat" where
  "header_size h sz = snd (header_write_to h sz)"

definition entry_header_size :: "pack_entry \<Rightarrow> nat" where
  "entry_header_size e = header_size (entry_header e) (decompressed_size e)"

definition entry_pack_offset :: "pack_entry \<Rightarrow> u64" where
  "entry_pack_offset e = data_offset e - word_of_nat (entry_header_size e)"

definition entry_base_pack_offset :: "pack_entry \<Rightarrow> u64 \<Rightarrow> (u64, 'e) outcome" where
  "entry_base_pack_offset e distance =
     (let pack_offset = data_offset e - word_of_nat (entry_header_size e) in
      if distance \<le> pack_offset then Ok (pack_offset - distance) else Panic)"

text \<open>One iteration of the sz loop of both header parsers; a shift count is taken modulo 64.\<close>

definition size_step :: "u64 \<Rightarrow> nat \<Rightarrow> u8 \<Rightarrow> u64" where
  "size_step sz s c = sz + push_bit (s mod 64) (ucast (c AND 0x7f))"

function parse_header_loop :: "bytes \<Rightarrow> u8 \<Rightarrow> u64 \<Rightarrow> nat \<Rightarrow> nat \<Rightarrow> (u64 \<times> nat) or_panic" where
  "parse_header_loop d c sz i s =
     (if c AND 0x80 = 0 then Some (sz, i)
      else case get_at d i of None \<Rightarrow> None
        | Some c' \<Rightarrow> parse_header_loop d c' (size_step sz s c') (i + 1) (s + 7))"
  by pat_completeness auto
termination
  by (relation "measure (\<lambda>(d, c, sz, i, s). length d - i)") (auto simp: get_at_Some)

declare parse_header_loop.simps [simp del]

definition parse_header_info :: "bytes \<Rightarrow> (u8 \<times> u64 \<times> nat) or_panic" where
  "parse_header_info d =
     (case get_at d 0 of None \<Rightarrow> None
      | Some c \<Rightarrow> (case parse_header_loop d c (ucast c AND 0x0f) 1 4 of None \<Rightarrow> None
        | Some (sz, i) \<Rightarrow> Some (drop_bit 4 c AND 0x07, sz, i)))"

fun streaming_header_loop :: "u8 \<Rightarrow> u64 \<Rightarrow> nat \<Rightarrow> nat \<Rightarrow> bytes \<Rightarrow> ((u64 \<times> nat) \<times> bytes, io_error) outcome" where
  "streaming_header_loop c sz i s [] = (if c AND 0x80 = 0 then Ok ((sz, i), []) else Err UnexpectedEof)"
| "streaming_header_loop c sz i s (c' # r) =
     (if c AND 0x80 = 0 then Ok ((sz, i), c' # r)
      else streaming_header_loop c' (size_step sz s c') (i + 1) (s + 7) r)"

definition streaming_parse_header_info :: "bytes \<Rightarrow> ((u8 \<times> u64 \<times> nat) \<times> bytes, io_error) outcome" where
  "streaming_parse_header_info r =
     and_then (read_byte r) (\<lambda>(c, r).
       and_then (streaming_header_loop c (ucast c AND 0x0f) 1 4 r)
         (\<lambda>((sz, i), r). Ok ((drop_bit 4 c AND 0x07, sz, i), r)))"

definition entry_from_bytes :: "bytes \<Rightarrow> u64 \<Rightarrow> nat \<Rightarrow> (pack_entry, u8) outcome" where
  "entry_from_bytes d pack_offset hash_len =
     and_then (expect (parse_header_info d)) (\<lambda>(type_id, sz, consumed).
     and_then
       (if type_id = OFS_DELTA then
          and_then (expect (leb64 (drop consumed d))) (\<lambda>(distance, leb_bytes). Ok (OfsDelta distance, consumed + leb_bytes))
        else if type_id = REF_DELTA then
          and_then (expect (get_range (drop consumed d) 0 hash_len)) (\<lambda>h.
          and_then (object_id_from_bytes_or_panic h) (\<lambda>base_id. Ok (RefDelta base_id, consumed + hash_len)))
        else if type_id = BLOB then Ok (HBlob, consumed)
        else if type_id = TREE then Ok (HTree, consumed)
        else if type_id = COMMIT then Ok (HCommit, consumed)
        else if type_id = TAG then Ok (HTag, consumed)
        else Err type_id)
       (\<lambda>(object, consumed). Ok \<lparr>entry_header = object, decompressed_size = sz,
          data_offset = pack_offset + word_of_nat consumed\<rparr>))"

definition entry_from_read :: "bytes \<Rightarrow> u64 \<Rightarrow> nat \<Rightarrow> (pack_entry \<times> bytes, io_error) outcome" where
  "entry_from_read r pack_offset hash_len =
     and_then (streaming_parse_header_info r) (\<lambda>((type_id, sz, consumed), r).
     and_then
       (if type_id = OFS_DELTA then
          and_then (leb64_from_read r) (\<lambda>((distance, leb_bytes), r). Ok ((OfsDelta distance, consumed + leb_bytes), r))
        else if type_id = REF_DELTA then
          (if length kind_buf < hash_len then Panic
           else if length r < hash_len then Err UnexpectedEof
           else and_then (object_id_from_bytes_or_panic (take hash_len r)) (\<lambda>base_id.
             Ok ((RefDelta base_id, consumed + hash_len), drop hash_len r)))
        else if type_id = BLOB then Ok ((HBlob, consumed), r)
        else if type_id = TREE then Ok ((HTree, consumed), r)
        else if type_id = COMMIT then Ok ((HCommit, consumed), r)
        else if type_id = TAG then Ok ((HTag, consumed), r)
        else Err (Unsupported type_id))
       (\<lambda>((object, consumed), r). Ok (\<lparr>entry_header = object, decompressed_size = sz,
          data_offset = pack_offset + word_of_nat consumed\<rparr>, r)))"

section \<open>Distances round-trip\<close>

lemma leb64_encode_loop_decodes:
  "unat n < 2 ^ (7 * (k + 1)) \<Longrightarrow> ucast w AND 0x7f = n AND 0x7f \<Longrightarrow>
   \<exists>pre. leb64_encode_loop k n (w # out) = pre @ w # out \<and>
     (\<forall>rest. leb64 (pre @ w # out @ rest) = leb64_loop (pre @ w # out @ rest) w n (length pre + 1))"
proof (induction k arbitrary: n w out)
  case 0
  then have "n = ucast w AND 0x7f" using small_low7 [of n] by simp
  then show ?case by (auto simp: leb64_def)
next
  case (Suc k)
  let ?m = "drop_bit 7 n"
  show ?case
  proof (cases "?m = 0")
    case True
    then have "n = ucast w AND 0x7f" using groups_join [of n] Suc.prems(2) by simp
    then show ?thesis using True by (auto simp: leb64_def)
  next
    case False
    let ?n = "?m - 1" and ?w = "0x80 OR (ucast (?m - 1) AND 0x7f) :: u8"
    have "unat ?n \<le> unat ?m"
      using False by (simp add: unat_minus_one)
    also have "unat ?m = unat n div 2 ^ 7" by (rule unat_drop_bit)
    also have "\<dots> < 2 ^ (7 * (k + 1))"
      using Suc.prems(1) by (simp add: div_less_iff_less_mult power_add mult.commute)
    finally have "unat ?n < 2 ^ (7 * (k + 1))" .
    then obtain pre where pre: "leb64_encode_loop k ?n (?w # w # out) = pre @ ?w # w # out"
      "\<And>rest. leb64 (pre @ ?w # (w # out) @ rest) =
        leb64_loop (pre @ ?w # (w # out) @ rest) ?w ?n (length pre + 1)"
      using Suc.IH [of ?n ?w "w # out"] low7_flagged by blast
    have step: "leb64_step ?n w = n"
      using Suc.prems(2) groups_join [of n] by (simp add: leb64_step_def)
    have "leb64 (pre @ ?w # w # out @ rest) = leb64_loop (pre @ ?w # w # out @ rest) w n (Suc (Suc (length pre)))" for rest
      using pre(2) [of rest] get_at_append_right [of pre "?w # w # out @ rest" 1]
      by (simp add: leb64_loop.simps [of _ ?w] step)
    then show ?thesis
      using False pre(1) by (intro exI [of _ "pre @ [?w]"]) (simp add: Let_def)
  qed
qed

lemma leb64_leb64_encode [simp]:
  "leb64 (leb64_encode n @ rest) = Some (n, length (leb64_encode n))"
proof -
  let ?w = "ucast n AND 0x7f :: u8"
  have "unat n < 2 ^ (7 * (9 + 1))"
    using unsigned_less [where 'a = nat and w = n] by simp
  then obtain pre where pre: "leb64_encode n = pre @ [?w]"
    "leb64 (pre @ ?w # rest) = leb64_loop (pre @ ?w # rest) ?w n (length pre + 1)"
    using leb64_encode_loop_decodes [of n 9 ?w "[]"] unfolding leb64_encode_def
    by (metis append_Nil low7_ucast(1))
  then show ?thesis by (simp add: leb64_loop.simps [of _ ?w])
qed

section \<open>Sizes round-trip\<close>

lemma write_size_loop_hd [simp]:
  "write_size_loop sz c \<noteq> []" "hd (write_size_loop sz c) = (if sz = 0 then c else c OR 0x80)"
  by (subst write_size_loop.simps, simp)+

lemma get_at_hd: "xs \<noteq> [] \<Longrightarrow> get_at (xs @ ys) 0 = Some (hd xs)"
  by (cases xs) auto

lemma parse_header_loop_write:
  fixes a :: u64
  shows "c AND 0x80 = 0 \<Longrightarrow> unat sz * 2 ^ s < 2 ^ 64 \<Longrightarrow>
   parse_header_loop (pre @ write_size_loop sz c @ rest) (hd (write_size_loop sz c)) a (length pre + 1) s
     = Some (a + push_bit s sz, length pre + length (write_size_loop sz c))"
proof (induction sz c arbitrary: pre a s rule: write_size_loop.induct)
  case (1 sz c)
  show ?case
  proof (cases "sz = 0")
    case True
    with "1.prems" show ?thesis
      by (simp add: write_size_loop.simps [of 0] parse_header_loop.simps)
  next
    case False
    let ?sz = "drop_bit 7 sz" and ?c = "ucast sz AND 0x7f :: u8" and ?b = "c OR 0x80"
    let ?w = "write_size_loop ?sz ?c"
    let ?d = "pre @ ?b # ?w @ rest"
    have "2 ^ s * 1 \<le> 2 ^ s * unat sz" using False by (intro mult_le_mono2) (simp add: Suc_leI unat_gt_0)
    then have "(2 :: nat) ^ s < 2 ^ 64"
      using "1.prems"(2) by (metis le_less_trans mult.commute mult.right_neutral)
    then have s: "s < 64" by (rule power_less_imp_less_exp [rotated]) simp
    have "unat ?sz * 2 ^ (s + 7) = (unat sz div 2 ^ 7 * 2 ^ 7) * 2 ^ s"
      by (simp add: unat_drop_bit power_add)
    also have "\<dots> \<le> unat sz * 2 ^ s" by (rule mult_le_mono1) simp
    finally have small: "unat ?sz * 2 ^ (s + 7) < 2 ^ 64" using "1.prems"(2) by simp
    have flag: "hd ?w AND 0x7f = ?c"
      by (simp add: and.assoc)
    have get: "get_at ?d (Suc (length pre)) = Some (hd ?w)"
      using get_at_append_right [of pre "?b # ?w @ rest" 1] get_at_hd [of ?w rest] by simp
    have "push_bit s ((sz AND 0x7f) + push_bit 7 ?sz) = push_bit s sz"
      using groups_join [of sz] by (simp add: add.commute)
    then have sum: "size_step a s (hd ?w) + push_bit (s + 7) ?sz = a + push_bit s sz"
      using s flag by (simp add: size_step_def push_bit_add add.assoc flip: low7_ucast(2))
    have "parse_header_loop ?d ?b a (length pre + 1) s =
        parse_header_loop ?d (hd ?w) (size_step a s (hd ?w)) (length (pre @ [?b]) + 1) (s + 7)"
      using get by (simp add: parse_header_loop.simps [of ?d ?b])
    also have "\<dots> = Some (size_step a s (hd ?w) + push_bit (s + 7) ?sz, length (pre @ [?b]) + length ?w)"
      using "1.IH" [OF False _ small, of "pre @ [?b]"] by simp
    finally show ?thesis
      using False sum by (simp add: write_size_loop.simps [of sz])
  qed
qed

lemma type_bits:
  fixes t :: u8
  assumes "unat t < 8"
  shows "push_bit 4 t AND 0x80 = 0 \<and> push_bit 4 t AND 0x0f = 0 \<and> drop_bit 4 (push_bit 4 t) AND 0x07 = t"
  by (rule byte_cases [where ks = "[0..<8]"]) (code_simp, use assms in simp)

lemma first_byte:
  fixes t :: u8 and sz :: u64
  assumes t: "unat t < 8" and c: "c = push_bit 4 t OR (ucast sz AND 0x0f)" and c': "c' = c \<or> c' = c OR 0x80"
  shows "c AND 0x80 = 0" and "drop_bit 4 c' AND 0x07 = t" and "ucast c' AND 0x0f = sz AND 0x0f"
proof -
  let ?x = "ucast sz AND 0x0f :: u8"
  have x: "drop_bit 4 ?x = 0" "?x AND 0x80 = 0" "?x AND 0x0f = ?x"
    by (rule unsigned_word_eqI [where 'a = nat], simp add: word_nat low_mask del: drop_bit_and) (simp_all add: and.assoc)
  note bits = type_bits [OF t] bit.conj_disj_distrib2
  show "c AND 0x80 = 0" using x by (simp add: c bits)
  show "drop_bit 4 c' AND 0x07 = t"
    using c' x by (auto simp: c bits simp del: drop_bit_and)
  have low: "c' AND 0x0f = ?x" using c' x by (auto simp: c bits)
  have "ucast c' AND (0x0f :: u64) = ucast (c' AND 0x0f)"
    by (auto intro!: bit_word_eqI simp: bit_simps mask7 low_mask)
  also have "\<dots> = sz AND 0x0f"
    unfolding low by (auto intro!: bit_word_eqI simp: bit_simps mask7 low_mask)
  finally show "ucast c' AND 0x0f = sz AND 0x0f" .
qed

lemma parse_header_info_write:
  fixes t :: u8
  assumes t: "unat t < 8" and c: "c = push_bit 4 t OR (ucast sz AND 0x0f)"
  shows "parse_header_info (write_size_loop (drop_bit 4 sz) c @ rest) =
    Some (t, sz, length (write_size_loop (drop_bit 4 sz) c))"
proof -
  let ?w = "write_size_loop (drop_bit 4 sz) c"
  have "unat (drop_bit 4 sz) * 2 ^ 4 \<le> unat sz" by (simp add: unat_drop_bit)
  also have "unat sz < 2 ^ 64" using unsigned_less [where 'a = nat and w = sz] by simp
  finally have "unat (drop_bit 4 sz) * 2 ^ 4 < 2 ^ 64" .
  then have loop: "parse_header_loop (?w @ rest) (hd ?w) a 1 4 =
      Some (a + push_bit 4 (drop_bit 4 sz), length ?w)" for a
    using parse_header_loop_write [where c = c and sz = "drop_bit 4 sz" and s = 4 and pre = "[]"]
      first_byte(1) [OF t c disjI1 [OF refl]] by simp
  have hd: "hd ?w = c \<or> hd ?w = c OR 0x80" by auto
  have "get_at (?w @ rest) 0 = Some (hd ?w)" by (rule get_at_hd) simp
  moreover have "(sz AND 0x0f) + push_bit 4 (drop_bit 4 sz) = sz"
    using bits_ident [of 4 sz] by (simp add: mask7 take_bit_eq_mask add.commute)
  ultimately show ?thesis
    using loop [of "sz AND 0x0f"] first_byte(2,3) [OF t c hd]
    by (simp add: parse_header_info_def)
qed

section \<open>Streaming and slice parsing agree\<close>

lemma leb64_from_read_loop_eq:
  "i \<le> length d \<Longrightarrow> leb64_from_read_loop c v i (drop i d) =
     (case leb64_loop d c v i of Some (v', j) \<Rightarrow> Ok ((v', j), drop j d) | None \<Rightarrow> Err UnexpectedEof)"
proof (induction d c v i rule: leb64_loop.induct)
  case (1 d c v i)
  show ?case
  proof (cases "i < length d")
    case True
    then have "drop i d = d ! i # drop (Suc i) d" by (rule Cons_nth_drop_Suc [symmetric])
    with "1.IH" [of "d ! i"] True show ?thesis
      by (auto simp: leb64_loop.simps [of d c] get_at_def)
  next
    case False
    with "1.prems" show ?thesis by (simp add: leb64_loop.simps [of d c] get_at_def)
  qed
qed

lemma streaming_header_loop_eq:
  "i \<le> length d \<Longrightarrow> streaming_header_loop c sz i s (drop i d) =
     (case parse_header_loop d c sz i s of Some (sz', j) \<Rightarrow> Ok ((sz', j), drop j d)
      | None \<Rightarrow> Err UnexpectedEof)"
proof (induction d c sz i s rule: parse_header_loop.induct)
  case (1 d c sz i s)
  show ?case
  proof (cases "i < length d")
    case True
    then have "drop i d = d ! i # drop (Suc i) d" by (rule Cons_nth_drop_Suc [symmetric])
    with "1.IH" [of "d ! i"] True show ?thesis
      by (auto simp: parse_header_loop.simps [of d c] get_at_def)
  next
    case False
    with "1.prems" show ?thesis by (simp add: parse_header_loop.simps [of d c] get_at_def)
  qed
qed

lemma streaming_parse_header_info_eq:
  "streaming_parse_header_info d =
     (case parse_header_info d of Some (t, sz, j) \<Rightarrow> Ok ((t, sz, j), drop j d)
      | None \<Rightarrow> Err UnexpectedEof)"
proof (cases d)
  case (Cons c r)
  then show ?thesis
    using streaming_header_loop_eq [of 1 d c "ucast c AND 0x0f" 4]
    by (auto simp: streaming_parse_header_info_def parse_header_info_def split: option.splits)
qed (simp add: streaming_parse_header_info_def parse_header_info_def)

lemma leb64_from_read_eq:
  "leb64_from_read d =
     (case leb64 d of Some (v, j) \<Rightarrow> Ok ((v, j), drop j d) | None \<Rightarrow> Err UnexpectedEof)"
proof (cases d)
  case (Cons c r)
  then show ?thesis
    using leb64_from_read_loop_eq [of 1 d c "ucast c AND 0x7f"]
    by (auto simp: leb64_from_read_def leb64_def split: option.splits)
qed (simp add: leb64_from_read_def leb64_def)

lemma leb64_loop_bound: "leb64_loop d c v i = Some (v', j) \<Longrightarrow> i \<le> length d \<Longrightarrow> j \<le> length d"
proof (induction d c v i rule: leb64_loop.induct)
  case (1 d c v i)
  from "1.prems" show ?case
    by (subst (asm) leb64_loop.simps) (auto simp: get_at_Some split: if_splits option.splits dest!: "1.IH")
qed

lemma leb64_bound: "leb64 d = Some (v, j) \<Longrightarrow> j \<le> length d"
  by (cases d) (auto simp: leb64_def dest: leb64_loop_bound)

lemma parse_header_loop_bound: "parse_header_loop d c sz i s = Some (sz', j) \<Longrightarrow> i \<le> length d \<Longrightarrow> j \<le> length d"
proof (induction d c sz i s rule: parse_header_loop.induct)
  case (1 d c sz i s)
  from "1.prems" show ?case
    by (subst (asm) parse_header_loop.simps) (auto simp: get_at_Some split: if_splits option.splits dest!: "1.IH")
qed

lemma parse_header_info_bound: "parse_header_info d = Some (t, sz, j) \<Longrightarrow> j \<le> length d"
  by (cases d) (auto simp: parse_header_info_def dest: parse_header_loop_bound split: option.splits)

section \<open>Properties\<close>

fun wf_header :: "entry_header \<Rightarrow> bool" where
  "wf_header (RefDelta i) = wf_object_id i"
| "wf_header _ = True"

lemma as_type_id_lt: "unat (as_type_id h) < 8"
  by (cases h) (simp_all add: as_type_id_def)

lemma get_range_exact: "length xs = n \<Longrightarrow> get_range (xs @ ys) 0 n = Some xs"
  by (simp add: get_range_def)

lemma entry_from_bytes_write:
  assumes "wf_header h"
  shows "entry_from_bytes (fst (header_write_to h sz) @ rest) off 20 =
    Ok \<lparr>entry_header = h, decompressed_size = sz, data_offset = off + word_of_nat (snd (header_write_to h sz))\<rparr>"
proof -
  let ?w = "write_size_loop (drop_bit 4 sz) (push_bit 4 (as_type_id h) OR (ucast sz AND 0x0f))"
  note info = parse_header_info_write [OF as_type_id_lt [of h] refl, where sz = sz]
  show ?thesis
  proof (cases h)
    case (RefDelta i)
    then obtain b where b: "i = Sha1 b" "length b = 20" using assms by (cases i) auto
    then show ?thesis
      using info [where rest = "b @ rest"] RefDelta get_range_exact [OF b(2), of rest]
      by (simp add: entry_from_bytes_def header_write_to_def as_type_id_def object_id_as_slice_def
          object_id_from_bytes_or_panic_def Let_def)
  next
    case (OfsDelta n)
    then show ?thesis
      using info [where rest = "leb64_encode n @ rest"]
      by (simp add: entry_from_bytes_def header_write_to_def as_type_id_def Let_def)
  qed (use info [where rest = rest] in \<open>simp_all add: entry_from_bytes_def header_write_to_def as_type_id_def Let_def\<close>)
qed

text \<open>
  C21: the header of a pack entry round-trips: whatever kind of entry (a delta with its base id or base
  distance included) and whatever 64-bit size is written with \<^verbatim>\<open>Header::write_to\<close>, reading these bytes back with
  \<^verbatim>\<open>Entry::from_bytes\<close> gives the same header and size, the number of bytes written is the number reported, the
  data starts right behind them, and \<^verbatim>\<open>Entry::pack_offset\<close> recovers the offset at which the entry was read.
\<close>

theorem entry_header_roundtrip:
  assumes "wf_header h"
  shows "snd (header_write_to h sz) = length (fst (header_write_to h sz)) \<and>
    (\<exists>e. entry_from_bytes (fst (header_write_to h sz) @ rest) off 20 = Ok e \<and>
       entry_header e = h \<and> decompressed_size e = sz \<and>
       data_offset e = off + word_of_nat (length (fst (header_write_to h sz))) \<and>
       entry_pack_offset e = off)"
proof
  show len: "snd (header_write_to h sz) = length (fst (header_write_to h sz))"
    by (simp add: header_write_to_def Let_def)
  show "\<exists>e. entry_from_bytes (fst (header_write_to h sz) @ rest) off 20 = Ok e \<and>
       entry_header e = h \<and> decompressed_size e = sz \<and>
       data_offset e = off + word_of_nat (length (fst (header_write_to h sz))) \<and> entry_pack_offset e = off"
    using entry_from_bytes_write [OF assms, of sz rest off] len
    by (simp add: entry_pack_offset_def entry_header_size_def header_size_def)
qed

theorem entry_header_roundtrip_witness:
  "\<exists>e. entry_from_bytes (fst (header_write_to (RefDelta (Sha1 (replicate 20 7))) 0x123456789) @ [1, 2]) 99 20 = Ok e \<and>
     entry_header e = RefDelta (Sha1 (replicate 20 7)) \<and> decompressed_size e = 0x123456789 \<and> entry_pack_offset e = 99"
proof -
  have "wf_header (RefDelta (Sha1 (replicate 20 7)))" by simp
  from entry_header_roundtrip [OF this, of "0x123456789" "[1, 2]" 99] show ?thesis by blast
qed

text \<open>
  The streaming parser \<^verbatim>\<open>Entry::from_read\<close> and the slice parser \<^verbatim>\<open>Entry::from_bytes\<close> agree on every input:
  they accept the same inputs with the same entry, they reject the same unsupported object types, and where the
  slice parser would panic on truncated input the streaming one reports an I/O error.  The reader is left exactly
  behind the header.
\<close>

theorem entry_from_read_agrees:
  assumes len: "length d < 2 ^ 64"
  shows "entry_from_read d off 20 =
    (case entry_from_bytes d off 20 of
       Ok e \<Rightarrow> Ok (e, drop (unat (data_offset e - off)) d)
     | Err t \<Rightarrow> Err (Unsupported t)
     | Panic \<Rightarrow> Err UnexpectedEof)"
proof (cases "parse_header_info d")
  case None
  then show ?thesis
    by (simp add: entry_from_read_def entry_from_bytes_def streaming_parse_header_info_eq)
next
  case (Some r)
  obtain t sz j where r: "r = (t, sz, j)" by (cases r)
  have j: "j \<le> length d" using Some r parse_header_info_bound by simp
  have small [simp]: "unat (word_of_nat n :: u64) = n" if "n \<le> length d" for n
    using that len by (simp add: unsigned_of_nat take_bit_nat_eq_self)
  have hdr: "streaming_parse_header_info d = Ok ((t, sz, j), drop j d)"
    "(expect (parse_header_info d) :: (_, u8) outcome) = Ok (t, sz, j)"
    using Some r by (simp_all add: streaming_parse_header_info_eq)
  consider "t = OFS_DELTA" | "t = REF_DELTA" | "t \<noteq> OFS_DELTA" "t \<noteq> REF_DELTA" by blast
  then show ?thesis
  proof cases
    case 1
    then show ?thesis
    proof (cases "leb64 (drop j d)")
      case (Some q)
      obtain v k where q: "q = (v, k)" by (cases q)
      then have "k + j \<le> length d" using leb64_bound Some j by fastforce
      with 1 Some q show ?thesis
        by (simp add: entry_from_read_def entry_from_bytes_def hdr leb64_from_read_eq add.commute flip: of_nat_add)
    qed (simp add: entry_from_read_def entry_from_bytes_def hdr leb64_from_read_eq)
  next
    case 2
    have "unat (word_of_nat j + 20 :: u64) = j + 20" if "20 \<le> length d - j"
      using small [of "j + 20"] that j by simp
    with 2 show ?thesis
      by (auto simp: entry_from_read_def entry_from_bytes_def hdr get_range_def kind_buf_def hash_defs
          object_id_from_bytes_or_panic_def add.commute)
  next
    case 3
    then show ?thesis using j
      by (simp add: entry_from_read_def entry_from_bytes_def hdr)
  qed
qed

theorem entry_from_read_agrees_witness:
  "entry_from_read [0x95, 0x0a, 0xff] 7 20 = Ok (\<lparr>entry_header = HCommit, decompressed_size = 165, data_offset = 9\<rparr>, [0xff])"
proof -
  have "entry_from_bytes [0x95, 0x0a, 0xff] 7 20 =
      Ok \<lparr>entry_header = HCommit, decompressed_size = 165, data_offset = 9\<rparr>"
    by code_simp
  then show ?thesis
    using entry_from_read_agrees [of "[0x95, 0x0a, 0xff]" 7] by simp
qed

text \<open>
  The twelve-byte header of a pack file round-trips, and decoding accepts nothing but what encoding
  produces: a decoded header is the encoding of its result.
\<close>

theorem pack_header_roundtrip:
  "pack_header_decode (pack_header_encode v n) = Ok (v, n) \<and>
   (pack_header_decode d = Ok (v, n) \<longrightarrow> d = pack_header_encode v n)"
proof
  show "pack_header_decode (pack_header_encode v n) = Ok (v, n)"
    by (cases v) (simp_all add: pack_header_decode_def pack_header_encode_def)
  show "pack_header_decode d = Ok (v, n) \<longrightarrow> d = pack_header_encode v n"
  proof
    assume a: "pack_header_decode d = Ok (v, n)"
    then have len: "length d = 12" and pk: "take 4 d = lit ''PACK''"
      by (auto simp: pack_header_decode_def split: if_splits)
    from a len have "(read_u32 (take 4 (drop 4 d)) :: (_, pack_header_error) outcome) = Ok (case v of PackV2 \<Rightarrow> 2 | PackV3 \<Rightarrow> 3)"
      and "(read_u32 (take 4 (drop 8 d)) :: (_, pack_header_error) outcome) = Ok n"
      by (auto simp: pack_header_decode_def and_then_Ok_iff Let_def split: if_splits)
    then have "take 4 (drop 4 d) = be32 (case v of PackV2 \<Rightarrow> 2 | PackV3 \<Rightarrow> 3)" "take 4 (drop 8 d) = be32 n"
      by (auto dest: be32_read)
    moreover have "d = take 4 d @ take 4 (drop 4 d) @ take 4 (drop 8 d)"
      using len append_take_drop_id [of 4 d] append_take_drop_id [of 4 "drop 4 d"] by simp
    ultimately show "d = pack_header_encode v n"
      using pk by (simp add: pack_header_encode_def)
  qed
qed

theorem pack_header_roundtrip_witness:
  "pack_header_decode (pack_header_encode PackV3 77) = Ok (PackV3, 77)"
  using pack_header_roundtrip [of PackV3 77 "[]"] by simp

end
