(* ===== verification/Gix_Delta.thy ===== *)
theory Gix_Delta
  imports Gix_Prelude
begin

text \<open>
  Pack deltas (\<^verbatim>\<open>src/gix-pack/src/data/delta.rs\<close>): the sizes in front of the instructions and the
  interpreter of the copy and insert instructions.  The interpreter writes into a slice \<^verbatim>\<open>target\<close>; the model
  carries the number of bytes still free in it and the bytes written so far, because
  \<^verbatim>\<open>Write for &mut [u8]\<close> writes what fits and never fails.
\<close>

section \<open>The delta decoder\<close>

fun decode_header_size_loop :: "bytes \<Rightarrow> nat \<Rightarrow> u64 \<Rightarrow> nat \<Rightarrow> u64 \<times> nat" where
  "decode_header_size_loop [] i sz consumed = (sz, consumed)"
| "decode_header_size_loop (cmd # d) i sz consumed =
     (let sz = sz OR push_bit (i mod 64) (ucast cmd AND 0x7f) in
      if cmd AND 0x80 = 0 then (sz, consumed + 1) else decode_header_size_loop d (i + 7) sz (consumed + 1))"

definition decode_header_size :: "bytes \<Rightarrow> u64 \<times> nat" where
  "decode_header_size d = decode_header_size_loop d 0 0 0"

text \<open>One optional argument byte of a copy instruction: \<^verbatim>\<open>if cmd & flag != 0 { acc |= u32::from(data[i]) << s; i += 1; }\<close>\<close>

definition delta_arg :: "u8 \<Rightarrow> u8 \<Rightarrow> nat \<Rightarrow> bytes \<Rightarrow> u32 \<times> nat \<Rightarrow> (u32 \<times> nat) or_panic" where
  "delta_arg cmd flag s data = (\<lambda>(acc, i).
     if cmd AND flag \<noteq> 0
     then map_option (\<lambda>b. (acc OR push_bit s (ucast b), i + 1)) (get_at data i)
     else Some (acc, i))"

definition delta_copy_args :: "u8 \<Rightarrow> bytes \<Rightarrow> nat \<Rightarrow> (u32 \<times> u32 \<times> nat) or_panic" where
  "delta_copy_args cmd data i =
     Option.bind (delta_arg cmd 0x01 0 data (0, i)) (\<lambda>a.
     Option.bind (delta_arg cmd 0x02 8 data a) (\<lambda>a.
     Option.bind (delta_arg cmd 0x04 16 data a) (\<lambda>a.
     Option.bind (delta_arg cmd 0x08 24 data a) (\<lambda>(ofs, i).
     Option.bind (delta_arg cmd 0x10 0 data (0, i)) (\<lambda>a.
     Option.bind (delta_arg cmd 0x20 8 data a) (\<lambda>a.
     Option.bind (delta_arg cmd 0x40 16 data a) (\<lambda>(sz, i).
       Some (ofs, if sz = 0 then 0x10000 else sz, i))))))))"

text \<open>The target slice: free bytes left and what has been written.\<close>

type_synonym target = "nat \<times> bytes"

definition write_target :: "target \<Rightarrow> bytes \<Rightarrow> target" where
  "write_target t src = (case t of (cap, out) \<Rightarrow> (cap - length src, out @ take cap src))"

lemma delta_arg_mono: "delta_arg cmd f s data (acc, i) = Some (acc', j) \<Longrightarrow> i \<le> j"
  by (auto simp: delta_arg_def split: if_splits)

lemma delta_copy_args_mono: "delta_copy_args cmd data i = Some (ofs, sz, j) \<Longrightarrow> i \<le> j"
  by (auto simp: delta_copy_args_def bind_eq_Some_conv dest!: delta_arg_mono)

function delta_apply_loop :: "bytes \<Rightarrow> bytes \<Rightarrow> nat \<Rightarrow> target \<Rightarrow> (nat \<times> target) or_panic" where
  "delta_apply_loop base data i t =
     (case get_at data i of
        None \<Rightarrow> Some (i, t)
      | Some cmd \<Rightarrow>
          if cmd AND 0x80 \<noteq> 0 then
            (case delta_copy_args cmd data (i + 1) of
               None \<Rightarrow> None
             | Some (ofs, sz, j) \<Rightarrow>
                 (case get_range base (unat ofs) (unat ofs + unat sz) of
                    None \<Rightarrow> None
                  | Some src \<Rightarrow> delta_apply_loop base data j (write_target t src)))
          else if cmd = 0 then None
          else
            (case get_range data (i + 1) (i + 1 + unat cmd) of
               None \<Rightarrow> None
             | Some src \<Rightarrow> delta_apply_loop base data (i + 1 + unat cmd) (write_target t src)))"
  by pat_completeness auto
termination
  by (relation "measure (\<lambda>(base, data, i, t). length data - i)")
    (auto simp: get_at_Some dest!: delta_copy_args_mono)

declare delta_apply_loop.simps [simp del]

definition delta_apply :: "bytes \<Rightarrow> nat \<Rightarrow> bytes \<Rightarrow> bytes or_panic" where
  "delta_apply base target_len data =
     (case delta_apply_loop base data 0 (target_len, []) of
        None \<Rightarrow> None
      | Some (i, cap, out) \<Rightarrow> if i = length data \<and> cap = 0 then Some out else None)"

section \<open>Deltas as instruction lists\<close>

text \<open>The instructions a delta is made of, their meaning, and git's encoding of them.\<close>

datatype delta_op = CopyOp u32 u32 | InsertOp bytes

fun delta_op_ok :: "bytes \<Rightarrow> delta_op \<Rightarrow> bool" where
  "delta_op_ok base (CopyOp ofs sz) = (sz \<noteq> 0 \<and> unat sz < 2 ^ 24 \<and> unat ofs + unat sz \<le> length base)"
| "delta_op_ok base (InsertOp xs) = (xs \<noteq> [] \<and> length xs < 128)"

fun delta_op_result :: "bytes \<Rightarrow> delta_op \<Rightarrow> bytes" where
  "delta_op_result base (CopyOp ofs sz) = take (unat sz) (drop (unat ofs) base)"
| "delta_op_result base (InsertOp xs) = xs"

definition opt_byte :: "u8 \<Rightarrow> bytes" where "opt_byte b = (if b = 0 then [] else [b])"

definition copy_flags :: "bool \<Rightarrow> bool \<Rightarrow> bool \<Rightarrow> bool \<Rightarrow> bool \<Rightarrow> bool \<Rightarrow> bool \<Rightarrow> u8" where
  "copy_flags a b c d e f g = 0x80 OR of_bool a OR push_bit 1 (of_bool b) OR push_bit 2 (of_bool c)
     OR push_bit 3 (of_bool d) OR push_bit 4 (of_bool e) OR push_bit 5 (of_bool f) OR push_bit 6 (of_bool g)"

definition byte_of :: "nat \<Rightarrow> u32 \<Rightarrow> u8" where "byte_of s w = ucast (drop_bit s w)"

text \<open>A size of 0x10000 is encoded by leaving all size bytes out.\<close>

definition wire_size :: "u32 \<Rightarrow> u32" where "wire_size sz = (if sz = 0x10000 then 0 else sz)"

fun encode_op :: "delta_op \<Rightarrow> bytes" where
  "encode_op (CopyOp ofs sz) =
     copy_flags (byte_of 0 ofs \<noteq> 0) (byte_of 8 ofs \<noteq> 0) (byte_of 16 ofs \<noteq> 0) (byte_of 24 ofs \<noteq> 0)
       (byte_of 0 (wire_size sz) \<noteq> 0) (byte_of 8 (wire_size sz) \<noteq> 0) (byte_of 16 (wire_size sz) \<noteq> 0)
     # opt_byte (byte_of 0 ofs) @ opt_byte (byte_of 8 ofs) @ opt_byte (byte_of 16 ofs) @ opt_byte (byte_of 24 ofs)
     @ opt_byte (byte_of 0 (wire_size sz)) @ opt_byte (byte_of 8 (wire_size sz)) @ opt_byte (byte_of 16 (wire_size sz))"
| "encode_op (InsertOp xs) = word_of_nat (length xs) # xs"

lemma copy_flags_bits:
  "copy_flags a b c d e f g AND 0x80 \<noteq> 0"
  "copy_flags a b c d e f g AND 0x01 \<noteq> 0 \<longleftrightarrow> a" "copy_flags a b c d e f g AND 0x02 \<noteq> 0 \<longleftrightarrow> b"
  "copy_flags a b c d e f g AND 0x04 \<noteq> 0 \<longleftrightarrow> c" "copy_flags a b c d e f g AND 0x08 \<noteq> 0 \<longleftrightarrow> d"
  "copy_flags a b c d e f g AND 0x10 \<noteq> 0 \<longleftrightarrow> e" "copy_flags a b c d e f g AND 0x20 \<noteq> 0 \<longleftrightarrow> f"
  "copy_flags a b c d e f g AND 0x40 \<noteq> 0 \<longleftrightarrow> g"
  by (cases a; cases b; cases c; cases d; cases e; cases f; cases g; simp add: copy_flags_def)+

lemma delta_arg_opt_byte:
  assumes "cmd AND f \<noteq> 0 \<longleftrightarrow> b \<noteq> 0" and "prefix p d" and "p = pre @ opt_byte b"
  shows "delta_arg cmd f s d (acc, length pre) = Some (acc OR push_bit s (ucast b), length p)"
proof -
  obtain rest where d: "d = pre @ opt_byte b @ rest" using assms(2,3) by (auto simp: prefix_def)
  show ?thesis
    using assms(1,3) get_at_append_right [of pre "opt_byte b @ rest" 0]
    by (auto simp: delta_arg_def opt_byte_def d)
qed

lemma bytes_join32:
  "push_bit 0 (ucast (byte_of 0 w)) OR push_bit 8 (ucast (byte_of 8 w)) OR push_bit 16 (ucast (byte_of 16 w))
     OR push_bit 24 (ucast (byte_of 24 w)) = w" for w :: u32
proof (rule bit_word_eqI)
  fix n assume "n < LENGTH(32)"
  then consider "n < 8" | "8 \<le> n" "n < 16" | "16 \<le> n" "n < 24" | "24 \<le> n" "n < 32" by fastforce
  then show "bit (push_bit 0 (ucast (byte_of 0 w)) OR push_bit 8 (ucast (byte_of 8 w)) OR push_bit 16 (ucast (byte_of 16 w))
     OR push_bit 24 (ucast (byte_of 24 w)) :: u32) n \<longleftrightarrow> bit w n"
    by cases (auto simp: byte_of_def bit_simps)
qed

lemma bytes_join24:
  assumes "unat w < 2 ^ 24"
  shows "push_bit 0 (ucast (byte_of 0 w)) OR push_bit 8 (ucast (byte_of 8 w)) OR push_bit 16 (ucast (byte_of 16 w)) = w"
proof -
  have "drop_bit 24 w = 0"
    using assms by (intro unsigned_word_eqI [where 'a = nat]) (simp add: unat_drop_bit)
  then have "byte_of 24 w = 0" by (simp add: byte_of_def)
  then show ?thesis using bytes_join32 [of w] by simp
qed

lemma delta_copy_args_encode:
  assumes sz: "sz \<noteq> 0" "unat sz < 2 ^ 24" and e: "encode_op (CopyOp ofs sz) = cmd # args"
  shows "delta_copy_args cmd (pre @ args @ rest) (length pre) = Some (ofs, sz, length pre + length args)"
proof -
  have cmd: "cmd = copy_flags (byte_of 0 ofs \<noteq> 0) (byte_of 8 ofs \<noteq> 0) (byte_of 16 ofs \<noteq> 0) (byte_of 24 ofs \<noteq> 0)
       (byte_of 0 (wire_size sz) \<noteq> 0) (byte_of 8 (wire_size sz) \<noteq> 0) (byte_of 16 (wire_size sz) \<noteq> 0)"
    and args: "args = opt_byte (byte_of 0 ofs) @ opt_byte (byte_of 8 ofs) @ opt_byte (byte_of 16 ofs) @ opt_byte (byte_of 24 ofs)
     @ opt_byte (byte_of 0 (wire_size sz)) @ opt_byte (byte_of 8 (wire_size sz)) @ opt_byte (byte_of 16 (wire_size sz))"
    using e by auto
  define p1 where "p1 = pre @ opt_byte (byte_of 0 ofs)"
  define p2 where "p2 = p1 @ opt_byte (byte_of 8 ofs)"
  define p3 where "p3 = p2 @ opt_byte (byte_of 16 ofs)"
  define p4 where "p4 = p3 @ opt_byte (byte_of 24 ofs)"
  define p5 where "p5 = p4 @ opt_byte (byte_of 0 (wire_size sz))"
  define p6 where "p6 = p5 @ opt_byte (byte_of 8 (wire_size sz))"
  define p7 where "p7 = p6 @ opt_byte (byte_of 16 (wire_size sz))"
  define d where "d = p7 @ rest"
  note ps = p1_def p2_def p3_def p4_def p5_def p6_def p7_def
  have d: "d = pre @ args @ rest" by (simp add: d_def ps args)
  have pf: "prefix p1 d" "prefix p2 d" "prefix p3 d" "prefix p4 d" "prefix p5 d" "prefix p6 d" "prefix p7 d"
    by (simp_all add: d_def ps)
  have 1: "delta_arg cmd 0x01 0 d (acc, length pre) = Some (acc OR push_bit 0 (ucast (byte_of 0 ofs)), length p1)"
    and 2: "delta_arg cmd 0x02 8 d (acc, length p1) = Some (acc OR push_bit 8 (ucast (byte_of 8 ofs)), length p2)"
    and 3: "delta_arg cmd 0x04 16 d (acc, length p2) = Some (acc OR push_bit 16 (ucast (byte_of 16 ofs)), length p3)"
    and 4: "delta_arg cmd 0x08 24 d (acc, length p3) = Some (acc OR push_bit 24 (ucast (byte_of 24 ofs)), length p4)"
    and 5: "delta_arg cmd 0x10 0 d (acc, length p4) = Some (acc OR push_bit 0 (ucast (byte_of 0 (wire_size sz))), length p5)"
    and 6: "delta_arg cmd 0x20 8 d (acc, length p5) = Some (acc OR push_bit 8 (ucast (byte_of 8 (wire_size sz))), length p6)"
    and 7: "delta_arg cmd 0x40 16 d (acc, length p6) = Some (acc OR push_bit 16 (ucast (byte_of 16 (wire_size sz))), length p7)" for acc
    unfolding cmd
           apply (rule delta_arg_opt_byte [OF copy_flags_bits(2) _ p1_def], simp add: pf)
          apply (rule delta_arg_opt_byte [OF copy_flags_bits(3) _ p2_def], simp add: pf)
         apply (rule delta_arg_opt_byte [OF copy_flags_bits(4) _ p3_def], simp add: pf)
        apply (rule delta_arg_opt_byte [OF copy_flags_bits(5) _ p4_def], simp add: pf)
       apply (rule delta_arg_opt_byte [OF copy_flags_bits(6) _ p5_def], simp add: pf)
      apply (rule delta_arg_opt_byte [OF copy_flags_bits(7) _ p6_def], simp add: pf)
     apply (rule delta_arg_opt_byte [OF copy_flags_bits(8) _ p7_def], simp add: pf)
    done
  have small: "unat (wire_size sz) < 2 ^ 24" using sz(2) by (simp add: wire_size_def)
  have size: "(if wire_size sz = 0 then 0x10000 else wire_size sz) = sz" using sz(1) by (simp add: wire_size_def)
  have "delta_copy_args cmd d (length pre) = Some (ofs, sz, length p7)"
    using bytes_join32 [of ofs] bytes_join24 [OF small] size
    by (simp add: delta_copy_args_def 1 2 3 4 5 6 7 or.assoc)
  then show ?thesis by (simp add: d ps args)
qed

lemma write_target_append: "write_target (write_target t a) b = write_target t (a @ b)"
  by (cases t) (simp add: write_target_def)

lemma write_target_Nil [simp]: "write_target t [] = t"
  by (cases t) (simp add: write_target_def)

lemma delta_step:
  assumes ok: "delta_op_ok base x"
  shows "delta_apply_loop base (pre @ encode_op x @ rest) (length pre) t =
    delta_apply_loop base (pre @ encode_op x @ rest) (length (pre @ encode_op x)) (write_target t (delta_op_result base x))"
proof (cases x)
  case (CopyOp ofs sz)
  obtain cmd args where e: "encode_op x = cmd # args" using CopyOp by simp
  have "delta_copy_args cmd (pre @ encode_op x @ rest) (Suc (length pre)) =
      Some (ofs, sz, length (pre @ encode_op x))"
    using delta_copy_args_encode [of sz ofs cmd args "pre @ [cmd]" rest] ok CopyOp e by simp
  moreover have "cmd AND 0x80 \<noteq> 0" using CopyOp copy_flags_bits(1) e by auto
  moreover have "get_at (pre @ encode_op x @ rest) (length pre) = Some cmd"
    using get_at_append_right [of pre "encode_op x @ rest" 0] e by simp
  moreover have "get_range base (unat ofs) (unat ofs + unat sz) = Some (delta_op_result base x)"
    using ok CopyOp by (simp add: get_range_def)
  ultimately show ?thesis
    by (subst delta_apply_loop.simps) simp
next
  case (InsertOp xs)
  have n: "unat (word_of_nat (length xs) :: u8) = length xs"
    using ok InsertOp by (simp add: unsigned_of_nat take_bit_nat_eq_self)
  have "(word_of_nat (length xs) :: u8) AND 0x80 = 0"
    by (rule flag_clear) (use n ok InsertOp in simp)
  moreover have "(word_of_nat (length xs) :: u8) \<noteq> 0"
    using n ok InsertOp by auto
  moreover have "get_at (pre @ encode_op x @ rest) (length pre) = Some (word_of_nat (length xs))"
    using get_at_append_right [of pre "encode_op x @ rest" 0] InsertOp by simp
  moreover have "get_range (pre @ encode_op x @ rest) (Suc (length pre)) (Suc (length pre + length xs)) = Some xs"
    using get_range_middle [of _ "pre @ [word_of_nat (length xs)]" _ xs rest] InsertOp by simp
  ultimately show ?thesis
    using n InsertOp by (subst delta_apply_loop.simps) simp
qed

lemma delta_apply_loop_ops:
  assumes "\<forall>x\<in>set ops. delta_op_ok base x"
  shows "delta_apply_loop base (pre @ concat (map encode_op ops)) (length pre) t =
    Some (length (pre @ concat (map encode_op ops)), write_target t (concat (map (delta_op_result base) ops)))"
  using assms
proof (induction ops arbitrary: pre t)
  case Nil
  then show ?case by (subst delta_apply_loop.simps) (simp add: get_at_def)
next
  case (Cons x ops)
  then show ?case
    using delta_step [of base x pre "concat (map encode_op ops)" t]
      Cons.IH [of "pre @ encode_op x"] by (simp add: write_target_append)
qed

section \<open>Sizes\<close>

text \<open>The encoding of a size in front of the instructions: seven bits per byte, least significant group first.\<close>

function encode_size :: "u64 \<Rightarrow> bytes" where
  "encode_size w = (if unat w < 128 then [ucast w] else (0x80 OR ucast w) # encode_size (drop_bit 7 w))"
  by pat_completeness auto
termination
  by (relation "measure unat") (auto simp: unat_drop_bit)

declare encode_size.simps [simp del]

lemma low7_or_high:
  "push_bit i (w AND 0x7f) OR push_bit (i + 7) (drop_bit 7 w) = push_bit i w" for w :: u64
proof -
  have "push_bit i (w AND 0x7f) OR push_bit (i + 7) (drop_bit 7 w) =
      push_bit i (take_bit 7 w OR push_bit 7 (drop_bit 7 w))"
    by (simp add: push_bit_or mask7 take_bit_eq_mask)
  also have "take_bit 7 w OR push_bit 7 (drop_bit 7 w) = w"
    by (auto intro!: bit_word_eqI simp: bit_simps)
  finally show ?thesis .
qed

lemma low7_of_flagged: "ucast (0x80 OR ucast w :: u8) AND 0x7f = w AND (0x7f :: u64)" for w :: u64
proof -
  have "ucast (0x80 OR ucast w :: u8) AND (0x7f :: u64) = ucast ((0x80 OR ucast w :: u8) AND 0x7f) AND 0x7f"
    by (auto intro!: bit_word_eqI simp: bit_simps mask7)
  then show ?thesis by (simp del: low7_ucast(2))
qed

lemma decode_header_size_loop_encode:
  "unat w * 2 ^ i < 2 ^ 64 \<Longrightarrow> i < 64 \<Longrightarrow> decode_header_size_loop (encode_size w @ rest) i sz n =
     (sz OR push_bit i w, n + length (encode_size w))"
proof (induction w arbitrary: i sz n rule: encode_size.induct)
  case (1 w)
  show ?case
  proof (cases "unat w < 128")
    case True
    have "ucast (ucast w :: u8) AND 0x7f = w"
      using True by (intro unsigned_word_eqI [where 'a = nat])
        (simp add: mask7 unat_and_mask unat_ucast_mod)
    moreover have "(ucast w :: u8) AND 0x80 = 0"
      by (rule flag_clear) (use True in \<open>simp add: unat_ucast_mod\<close>)
    ultimately show ?thesis
      using True "1.prems" by (simp add: encode_size.simps [of w])
  next
    case False
    have le: "unat (drop_bit 7 w) * 2 ^ (i + 7) \<le> unat w * 2 ^ i"
      by (simp add: unat_drop_bit power_add)
    then have small: "unat (drop_bit 7 w) * 2 ^ (i + 7) < 2 ^ 64" using "1.prems" by simp
    have "2 ^ (i + 7) \<le> unat w * 2 ^ i" using False by (simp add: power_add)
    then have "(2 :: nat) ^ (i + 7) < 2 ^ 64" using "1.prems"(1) by (rule le_less_trans)
    then have i: "i + 7 < 64" by (rule power_less_imp_less_exp [rotated]) simp
    have "ucast (0x80 OR ucast w :: u8) AND 0x7f = w AND (0x7f :: u64)"
      by (rule low7_of_flagged)
    then show ?thesis
      using False i "1.IH" [OF False small i] low7_or_high [of i w] "1.prems"(2)
      by (simp add: encode_size.simps [of w] Let_def or.assoc)
  qed
qed

section \<open>Properties\<close>

text \<open>
  C25: applying a delta reconstructs the target.  For every list of copy and insert instructions that stay within
  the base object and within the sizes git's encoding can express, the interpreter run on their encoding fills the target
  with the concatenation of what the instructions denote; it stops with a panic exactly if the target is longer
  than that, and a shorter target receives the leading part.
\<close>

theorem delta_apply_encoded:
  assumes "\<forall>x\<in>set ops. delta_op_ok base x"
  shows "delta_apply base n (concat (map encode_op ops)) =
    (let r = concat (map (delta_op_result base) ops) in if n \<le> length r then Some (take n r) else None)"
  using delta_apply_loop_ops [OF assms, of "[]" "(n, [])"]
  by (simp add: delta_apply_def write_target_def Let_def)

theorem delta_apply_encoded_witness:
  "delta_apply [10, 11, 12, 13] 5 (concat (map encode_op [CopyOp 1 3, InsertOp [7, 8]])) = Some [11, 12, 13, 7, 8]"
  using delta_apply_encoded [of "[CopyOp 1 3, InsertOp [7, 8]]" "[10, 11, 12, 13]" 5] by simp

text \<open>
  The two object sizes in front of a delta's instructions are read back as they were encoded, for every 64-bit
  size, and the number of bytes consumed is the length of the encoding.
\<close>

theorem decode_header_size_roundtrip:
  "decode_header_size (encode_size w @ rest) = (w, length (encode_size w))"
proof -
  have "unat w < 2 ^ 64" using unsigned_less [where 'a = nat and w = w] by simp
  then show ?thesis
    using decode_header_size_loop_encode [of w 0 rest 0 0] by (simp add: decode_header_size_def)
qed

end
