(* ===== verification/Gix_Lookup.thy ===== *)
theory Gix_Lookup
  imports Gix_Hash
begin

text \<open>
  Searching a sorted table of object ids through its fan-out table, as \<^verbatim>\<open>src/gix-pack/src/index/access.rs\<close> does
  it for pack indices and multi-pack indices alike (\<^verbatim>\<open>lookup\<close>, \<^verbatim>\<open>lookup_prefix\<close>), and the construction of the fan-out
  table in \<^verbatim>\<open>src/gix-pack/src/index/encode.rs\<close> (\<^verbatim>\<open>fanout\<close>).  Entry indices are 32-bit: the midpoint is computed with
  32-bit arithmetic that wraps.  The locale \<open>oid_table\<close> is the interface between the search and the file formats: what
  the search relies on, and what it gives.
\<close>

section \<open>Bisection\<close>

text \<open>
  The loop shared by \<^verbatim>\<open>lookup\<close> and \<^verbatim>\<open>lookup_prefix\<close>, up to the first entry that compares equal.  The outer option is
  \<open>None\<close> for a loop that never ends, the next one \<open>None\<close> for a panic of the comparison.
\<close>

partial_function (option) bisect ::
    "(u32 \<Rightarrow> ordering or_panic) \<Rightarrow> u32 \<Rightarrow> u32 \<Rightarrow> u32 option or_panic option" where
  "bisect compare lower_bound upper_bound =
     (if lower_bound < upper_bound then
        (let mid = (lower_bound + upper_bound) div 2 in
         case compare mid of
           None \<Rightarrow> Some None
         | Some Less \<Rightarrow> bisect compare lower_bound mid
         | Some Equal \<Rightarrow> Some (Some (Some mid))
         | Some Greater \<Rightarrow> bisect compare (mid + 1) upper_bound)
      else Some (Some None))"

text \<open>The bounds the fan-out table (an array of 256 entries) gives for a first byte.\<close>

definition fan_bounds :: "u32 list \<Rightarrow> u8 \<Rightarrow> u32 \<times> u32" where
  "fan_bounds fan first_byte =
     (if first_byte \<noteq> 0 then fan ! (unat first_byte - 1) else 0, fan ! unat first_byte)"

definition lookup :: "oid \<Rightarrow> u32 list \<Rightarrow> (u32 \<Rightarrow> oid or_panic) \<Rightarrow> u32 option or_panic option" where
  "lookup i fan oid_at_index =
     (case get_at i 0 of
        None \<Rightarrow> Some None
      | Some first_byte \<Rightarrow>
          (case fan_bounds fan first_byte of (lower_bound, upper_bound) \<Rightarrow>
             bisect (\<lambda>mid. map_option (cmp_slice i) (oid_at_index mid)) lower_bound upper_bound))"

section \<open>Looking up a prefix\<close>

datatype prefix_match = UniqueMatch u32 | AmbiguousMatch

definition cmp_at :: "oid_prefix \<Rightarrow> (u32 \<Rightarrow> oid or_panic) \<Rightarrow> u32 \<Rightarrow> ordering or_panic" where
  "cmp_at p oid_at_index idx =
     (case oid_at_index idx of
        None \<Rightarrow> None
      | Some o1 \<Rightarrow> (case (prefix_cmp_oid p o1 :: (ordering, unit) outcome) of Ok r \<Rightarrow> Some r | _ \<Rightarrow> None))"

text \<open>
  \<^verbatim>\<open>((0..mid).rev()).take_while(..).last()\<close> and \<^verbatim>\<open>((mid + 1)..num_objects).take_while(..).last()\<close>; \<open>acc\<close> is the last
  index seen that satisfied the condition.
\<close>

fun first_past_entry :: "(u32 \<Rightarrow> ordering or_panic) \<Rightarrow> nat \<Rightarrow> u32 option \<Rightarrow> u32 option or_panic" where
  "first_past_entry compare 0 acc = Some acc"
| "first_past_entry compare (Suc prev) acc =
     (case compare (word_of_nat prev) of
        None \<Rightarrow> None
      | Some Equal \<Rightarrow> first_past_entry compare prev (Some (word_of_nat prev))
      | Some _ \<Rightarrow> Some acc)"

function last_future_entry :: "(u32 \<Rightarrow> ordering or_panic) \<Rightarrow> nat \<Rightarrow> nat \<Rightarrow> u32 option \<Rightarrow> u32 option or_panic" where
  "last_future_entry compare nxt num_objects acc =
     (if nxt < num_objects then
        (case compare (word_of_nat nxt) of
           None \<Rightarrow> None
         | Some Equal \<Rightarrow> last_future_entry compare (nxt + 1) num_objects (Some (word_of_nat nxt))
         | Some _ \<Rightarrow> Some acc)
      else Some acc)"
  by pat_completeness auto
termination by (relation "measure (\<lambda>(c, n, m, a). m - n)") auto

declare last_future_entry.simps [simp del]

definition candidates_at :: "(u32 \<Rightarrow> ordering or_panic) \<Rightarrow> u32 \<Rightarrow> u32 \<Rightarrow> (u32 \<times> u32) or_panic" where
  "candidates_at compare mid num_objects =
     Option.bind (first_past_entry compare (unat mid) None) (\<lambda>first_past.
     Option.bind (last_future_entry compare (unat (mid + 1)) (unat num_objects) None) (\<lambda>last_future.
     Some (case (first_past, last_future) of
         (Some start, Some stop) \<Rightarrow> (start, stop + 1)
       | (Some start, None) \<Rightarrow> (start, mid + 1)
       | (None, Some stop) \<Rightarrow> (mid, stop + 1)
       | (None, None) \<Rightarrow> (mid, mid + 1))))"

definition unique_at :: "(u32 \<Rightarrow> ordering or_panic) \<Rightarrow> u32 \<Rightarrow> u32 \<Rightarrow> prefix_match or_panic" where
  "unique_at compare mid num_objects =
     (let nxt = mid + 1 in
      Option.bind (if nxt < num_objects then map_option (\<lambda>r. r = Equal) (compare nxt) else Some False) (\<lambda>ambiguous.
      if ambiguous then Some AmbiguousMatch
      else
        Option.bind (if mid \<noteq> 0 then map_option (\<lambda>r. r = Equal) (compare (mid - 1)) else Some False) (\<lambda>ambiguous.
        Some (if ambiguous then AmbiguousMatch else UniqueMatch mid))))"

text \<open>
  The result is the return value and, where the caller passed \<^verbatim>\<open>candidates\<close>, the range written to it.
\<close>

definition lookup_prefix ::
    "oid_prefix \<Rightarrow> bool \<Rightarrow> u32 list \<Rightarrow> (u32 \<Rightarrow> oid or_panic) \<Rightarrow> u32 \<Rightarrow>
     (prefix_match option \<times> (u32 \<times> u32) option) or_panic option" where
  "lookup_prefix p candidates fan oid_at_index num_objects =
     (let compare = cmp_at p oid_at_index in
      case get_at (object_id_as_slice (prefix_bytes p)) 0 of
        None \<Rightarrow> Some None
      | Some first_byte \<Rightarrow>
          (case fan_bounds fan first_byte of (lower_bound, upper_bound) \<Rightarrow>
             (case bisect compare lower_bound upper_bound of
                None \<Rightarrow> None
              | Some None \<Rightarrow> Some None
              | Some (Some None) \<Rightarrow> Some (Some (None, if candidates then Some (0, 0) else None))
              | Some (Some (Some mid)) \<Rightarrow> Some (
                  if candidates then
                    map_option (\<lambda>(start, stop).
                      (Some (if 1 < unat stop - unat start then AmbiguousMatch else UniqueMatch mid), Some (start, stop)))
                      (candidates_at compare mid num_objects)
                  else map_option (\<lambda>r. (Some r, None)) (unique_at compare mid num_objects)))))"

section \<open>The fan-out table\<close>

text \<open>
  The loop of \<^verbatim>\<open>fanout\<close>.  The enumerated iterator is the list of first bytes not yet taken from it with the index of
  the next one; \<open>cur\<close> is \<^verbatim>\<open>idx_and_entry\<close>.
\<close>

fun find_other :: "u8 \<Rightarrow> nat \<times> bytes \<Rightarrow> (nat \<times> u8) option \<times> (nat \<times> bytes)" where
  "find_other byte (i, []) = (None, (i, []))"
| "find_other byte (i, b # bs) = (if b \<noteq> byte then (Some (i, b), (i + 1, bs)) else find_other byte (i + 1, bs))"

fun fanout_loop :: "u8 list \<Rightarrow> u32 \<Rightarrow> (nat \<times> u8) option \<Rightarrow> nat \<times> bytes \<Rightarrow> u32 \<Rightarrow> u32 list or_panic" where
  "fanout_loop [] entries_len cur it upper_bound = Some []"
| "fanout_loop (byte # bs) entries_len cur it upper_bound =
     (case cur of
        None \<Rightarrow> map_option (\<lambda>r. entries_len # r) (fanout_loop bs entries_len cur it upper_bound)
      | Some (_, first_byte) \<Rightarrow>
          (case cmp first_byte byte of
             Less \<Rightarrow> None
           | Greater \<Rightarrow> map_option (\<lambda>r. upper_bound # r) (fanout_loop bs entries_len cur it upper_bound)
           | Equal \<Rightarrow>
               if byte = 255 then map_option (\<lambda>r. entries_len # r) (fanout_loop bs entries_len cur it upper_bound)
               else
                 (case find_other byte it of (cur, it) \<Rightarrow>
                    let upper_bound = (case cur of None \<Rightarrow> entries_len | Some (idx, _) \<Rightarrow> word_of_nat idx) in
                    map_option (\<lambda>r. upper_bound # r) (fanout_loop bs entries_len cur it upper_bound))))"

definition fanout :: "bytes \<Rightarrow> u32 list or_panic" where
  "fanout iter =
     (let entries_len = word_of_nat (length iter) in
      fanout_loop (map word_of_nat [0..<256]) entries_len
        (case iter of [] \<Rightarrow> None | b # _ \<Rightarrow> Some (0, b))
        (case iter of [] \<Rightarrow> (0, []) | _ # bs \<Rightarrow> (1, bs)) 0)"

section \<open>Correctness of the bisection\<close>

text \<open>How a search target relates to the entries of a sorted table: greater, then equal, then less.\<close>

definition sorted_towards :: "(nat \<Rightarrow> ordering) \<Rightarrow> nat \<Rightarrow> bool" where
  "sorted_towards c n \<longleftrightarrow>
     (\<forall>i j. i \<le> j \<longrightarrow> j < n \<longrightarrow> (c i = Less \<longrightarrow> c j = Less) \<and> (c j = Greater \<longrightarrow> c i = Greater))"

lemma sorted_towardsD:
  assumes "sorted_towards c n" "i \<le> j" "j < n"
  shows "c i = Less \<Longrightarrow> c j = Less" and "c j = Greater \<Longrightarrow> c i = Greater"
  using assms by (auto simp: sorted_towards_def)

text \<open>A comparison callback that answers for the entries of a table of size \<open>n\<close> without panicking.\<close>

definition compares :: "(u32 \<Rightarrow> ordering or_panic) \<Rightarrow> (nat \<Rightarrow> ordering) \<Rightarrow> nat \<Rightarrow> bool" where
  "compares compare c n \<longleftrightarrow> (\<forall>w. unat w < n \<longrightarrow> compare w = Some (c (unat w)))"

lemma comparesD: "compares compare c n \<Longrightarrow> unat w < n \<Longrightarrow> compare w = Some (c (unat w))"
  by (simp add: compares_def)

lemma mid_unat:
  fixes lo hi :: u32
  assumes "lo < hi" "unat hi \<le> 2 ^ 31"
  shows "unat ((lo + hi) div 2) = (unat lo + unat hi) div 2"
    and "unat lo \<le> unat ((lo + hi) div 2)" and "unat ((lo + hi) div 2) < unat hi"
    and "unat ((lo + hi) div 2 + 1) = Suc (unat ((lo + hi) div 2))"
proof -
  have lt: "unat lo < unat hi" using assms(1) by (simp add: word_less_nat_alt)
  then have "unat (lo + hi) = unat lo + unat hi"
    using assms(2) by (subst unat_add_lem [symmetric]) simp
  then show m: "unat ((lo + hi) div 2) = (unat lo + unat hi) div 2"
    by (simp add: unat_div)
  with lt show "unat lo \<le> unat ((lo + hi) div 2)" and l: "unat ((lo + hi) div 2) < unat hi"
    by simp_all
  then show "unat ((lo + hi) div 2 + 1) = Suc (unat ((lo + hi) div 2))"
    using assms(2) unat_add_lem [of "(lo + hi) div 2" "1 :: u32"] by simp
qed

lemma bisect_correct:
  assumes "sorted_towards c n" and "unat hi \<le> n" and "unat hi \<le> 2 ^ 31"
    and "compares compare c n"
  shows "\<exists>r. bisect compare lo hi = Some (Some r) \<and>
    (case r of Some m \<Rightarrow> unat lo \<le> unat m \<and> unat m < unat hi \<and> c (unat m) = Equal
     | None \<Rightarrow> \<forall>i. unat lo \<le> i \<longrightarrow> i < unat hi \<longrightarrow> c i \<noteq> Equal)"
  using assms(2,3)
proof (induction "unat hi - unat lo" arbitrary: lo hi rule: less_induct)
  case less
  show ?case
  proof (cases "lo < hi")
    case False
    then show ?thesis by (simp add: bisect.simps word_less_nat_alt)
  next
    case True
    let ?m = "(lo + hi) div 2"
    note m = mid_unat [OF True less.prems(2)]
    have cmp: "compare ?m = Some (c (unat ?m))" using comparesD [OF assms(4)] m(3) less.prems(1) by simp
    have n: "unat ?m < n" using m(3) less.prems(1) by simp
    have dec: "unat ?m - unat lo < unat hi - unat lo" "unat hi - unat (?m + 1) < unat hi - unat lo"
      using m(2-4) by linarith+
    show ?thesis
    proof (cases "c (unat ?m)")
      case Less
      have "bisect compare lo hi = bisect compare lo ?m"
        using True cmp Less by (simp add: bisect.simps [of compare lo hi])
      moreover have "c i \<noteq> Equal" if "unat ?m \<le> i" "i < unat hi" for i
        using sorted_towardsD(1) [OF assms(1) that(1)] that(2) less.prems(1) Less by simp
      moreover obtain r where "bisect compare lo ?m = Some (Some r)"
        "case r of Some k \<Rightarrow> unat lo \<le> unat k \<and> unat k < unat ?m \<and> c (unat k) = Equal
         | None \<Rightarrow> \<forall>i. unat lo \<le> i \<longrightarrow> i < unat ?m \<longrightarrow> c i \<noteq> Equal"
        using less.hyps [of ?m lo] dec n m(3) less.prems(2) by fastforce
      ultimately show ?thesis
        using m(3) by (force split: option.splits)
    next
      case Equal
      then show ?thesis using True cmp m by (simp add: bisect.simps [of compare lo hi])
    next
      case Greater
      have "bisect compare lo hi = bisect compare (?m + 1) hi"
        using True cmp Greater by (simp add: bisect.simps [of compare lo hi])
      moreover have "c i \<noteq> Equal" if "i < unat (?m + 1)" for i
        using sorted_towardsD(2) [OF assms(1) _ n, of i] that m(4) Greater by simp
      moreover obtain r where "bisect compare (?m + 1) hi = Some (Some r)"
        "case r of Some k \<Rightarrow> unat (?m + 1) \<le> unat k \<and> unat k < unat hi \<and> c (unat k) = Equal
         | None \<Rightarrow> \<forall>i. unat (?m + 1) \<le> i \<longrightarrow> i < unat hi \<longrightarrow> c i \<noteq> Equal"
        using less.hyps [of hi "?m + 1"] dec less.prems by blast
      ultimately show ?thesis
        using m(2,4) by (intro exI [of _ r]) (cases r; simp; meson not_less)
    qed
  qed
qed

section \<open>Neighbouring entries\<close>

lemma sorted_towards_between:
  assumes "sorted_towards c n" "i \<le> k" "k \<le> j" "j < n" "c i = Equal" "c j = Equal"
  shows "c k = Equal"
  using sorted_towardsD(1) [OF assms(1,3,4)] sorted_towardsD(2) [OF assms(1,2)] assms(3-6)
  by (cases "c k") auto

lemma first_past_entry_spec:
  assumes "compares compare c n" "n \<le> 2 ^ 31"
  shows "m \<le> n \<Longrightarrow> \<exists>f. f \<le> m \<and> (\<forall>k. f \<le> k \<longrightarrow> k < m \<longrightarrow> c k = Equal) \<and> (f = 0 \<or> c (f - 1) \<noteq> Equal) \<and>
    first_past_entry compare m acc = Some (if f = m then acc else Some (word_of_nat f))"
proof (induction m arbitrary: acc)
  case (Suc m)
  have cm: "compare (word_of_nat m) = Some (c m)"
    using comparesD [OF assms(1), of "word_of_nat m"] assms(2) Suc.prems by (simp add: unsigned_of_nat take_bit_nat_eq_self)
  show ?case
  proof (cases "c m = Equal")
    case True
    from Suc obtain f where f: "f \<le> m" "\<forall>k. f \<le> k \<longrightarrow> k < m \<longrightarrow> c k = Equal" "f = 0 \<or> c (f - 1) \<noteq> Equal"
      "first_past_entry compare m (Some (word_of_nat m)) = Some (if f = m then Some (word_of_nat m) else Some (word_of_nat f))"
      by (meson Suc_leD)
    with cm True show ?thesis by (intro exI [of _ f]) (auto simp: less_Suc_eq)
  next
    case False
    with cm show ?thesis by (intro exI [of _ "Suc m"]) (auto split: ordering.splits)
  qed
qed simp

lemma last_future_entry_spec:
  assumes "compares compare c n" "n \<le> 2 ^ 31"
  shows "m \<le> n \<Longrightarrow> \<exists>l. m \<le> l \<and> l \<le> n \<and> (\<forall>k. m \<le> k \<longrightarrow> k < l \<longrightarrow> c k = Equal) \<and> (l = n \<or> c l \<noteq> Equal) \<and>
    last_future_entry compare m n acc = Some (if l = m then acc else Some (word_of_nat (l - 1)))"
proof (induction "n - m" arbitrary: m acc)
  case 0
  then show ?case by (intro exI [of _ m]) (simp add: last_future_entry.simps)
next
  case (Suc d)
  then have lt: "m < n" by simp
  then have cm: "compare (word_of_nat m) = Some (c m)"
    using comparesD [OF assms(1), of "word_of_nat m"] assms(2) by (simp add: unsigned_of_nat take_bit_nat_eq_self)
  show ?case
  proof (cases "c m = Equal")
    case True
    have "d = n - (m + 1)" "m + 1 \<le> n" using Suc(2) lt by simp_all
    from Suc(1) [OF this] obtain l where l: "m + 1 \<le> l" "l \<le> n" "\<forall>k. m + 1 \<le> k \<longrightarrow> k < l \<longrightarrow> c k = Equal" "l = n \<or> c l \<noteq> Equal"
      "last_future_entry compare (m + 1) n (Some (word_of_nat m)) =
         Some (if l = m + 1 then Some (word_of_nat m) else Some (word_of_nat (l - 1)))"
      by blast
    have "c k = Equal" if "m \<le> k" "k < l" for k
      using that l(3) True by (cases "k = m") auto
    with l cm True lt show ?thesis
      by (intro exI [of _ l]) (auto simp: last_future_entry.simps [of compare m])
  next
    case False
    with cm lt show ?thesis
      by (intro exI [of _ m]) (auto simp: last_future_entry.simps [of compare m] split: ordering.splits)
  qed
qed

lemma word_of_nat_pred: "0 < l \<Longrightarrow> word_of_nat (l - 1) + 1 = (word_of_nat l :: 'a::len word)"
  by (cases l) simp_all

lemma candidates_at_spec:
  assumes cmp: "compares compare c (unat num)" and n: "unat num \<le> 2 ^ 31"
    and s: "sorted_towards c (unat num)" and mid: "unat mid < unat num" "c (unat mid) = Equal"
  shows "\<exists>a b. candidates_at compare mid num = Some (a, b) \<and> unat a \<le> unat mid \<and> unat mid < unat b \<and>
    {k. k < unat num \<and> c k = Equal} = {unat a..<unat b}"
proof -
  have mid1: "unat (mid + 1) = Suc (unat mid)"
    using unat_add_lem [of mid "1 :: u32"] n mid(1) by simp
  obtain f where f: "f \<le> unat mid" "\<forall>k. f \<le> k \<longrightarrow> k < unat mid \<longrightarrow> c k = Equal" "f = 0 \<or> c (f - 1) \<noteq> Equal"
    "first_past_entry compare (unat mid) None = Some (if f = unat mid then None else Some (word_of_nat f))"
    using first_past_entry_spec [OF cmp n, of "unat mid" None] mid(1) by auto
  obtain l where l: "Suc (unat mid) \<le> l" "l \<le> unat num" "\<forall>k. Suc (unat mid) \<le> k \<longrightarrow> k < l \<longrightarrow> c k = Equal"
    "l = unat num \<or> c l \<noteq> Equal"
    "last_future_entry compare (Suc (unat mid)) (unat num) None =
       Some (if l = Suc (unat mid) then None else Some (word_of_nat (l - 1)))"
    using last_future_entry_spec [OF cmp n, of "Suc (unat mid)" None] mid(1) by (auto simp: Suc_le_eq)
  have u: "unat (word_of_nat k :: u32) = k" if "k \<le> unat num" for k
    using that n by (simp add: unsigned_of_nat take_bit_nat_eq_self)
  have r: "candidates_at compare mid num = Some (word_of_nat f, word_of_nat l)"
    using f(4) l(1,5) mid1 word_of_nat_pred [of l, where 'a = 32]
    by (auto simp: candidates_at_def)
  have "c k = Equal \<longleftrightarrow> f \<le> k \<and> k < l" if k: "k < unat num" for k
  proof
    assume e: "c k = Equal"
    show "f \<le> k \<and> k < l"
    proof (rule ccontr)
      assume "\<not> (f \<le> k \<and> k < l)"
      then consider "k \<le> f - 1" "f \<noteq> 0" | "l \<le> k" by fastforce
      then show False
      proof cases
        case 1
        then show False using sorted_towards_between [OF s 1(1) _ mid(1) e mid(2)] f(1,3) by simp
      next
        case 2
        then show False using sorted_towards_between [OF s _ 2 k mid(2) e] l(1,4) k by simp
      qed
    qed
  next
    assume "f \<le> k \<and> k < l"
    then show "c k = Equal" using f(2) l(3) mid(2) by (cases "unat mid" k rule: linorder_cases) auto
  qed
  then have "{k. k < unat num \<and> c k = Equal} = {f..<l}" using l(2) by auto
  with r f(1) l(1,2) u [of f] u [of l] mid(1) show ?thesis by auto
qed

lemma unique_at_spec:
  assumes cmp: "compares compare c (unat num)" and n: "unat num \<le> 2 ^ 31"
    and s: "sorted_towards c (unat num)" and mid: "unat mid < unat num" "c (unat mid) = Equal"
  shows "unique_at compare mid num =
    Some (if {k. k < unat num \<and> c k = Equal} = {unat mid} then UniqueMatch mid else AmbiguousMatch)"
proof -
  let ?E = "{k. k < unat num \<and> c k = Equal}" and ?m = "unat mid"
  have m1: "unat (mid + 1) = Suc ?m"
    using unat_add_lem [of mid "1 :: u32"] n mid(1) by simp
  have m0: "unat (mid - 1) = ?m - 1" if "mid \<noteq> 0" using that by (simp add: unat_minus_one)
  have nxt: "compare (mid + 1) = Some (c (Suc ?m))" if "Suc ?m < unat num"
    using comparesD [OF cmp, of "mid + 1"] that m1 by simp
  have prv: "compare (mid - 1) = Some (c (?m - 1))" if "mid \<noteq> 0"
    using comparesD [OF cmp, of "mid - 1"] that m0 mid(1) by simp
  have z: "mid = 0 \<longleftrightarrow> ?m = 0" by (simp add: unat_eq_0)
  have "?E = {?m} \<longleftrightarrow> \<not> (Suc ?m < unat num \<and> c (Suc ?m) = Equal) \<and> \<not> (?m \<noteq> 0 \<and> c (?m - 1) = Equal)" (is "_ \<longleftrightarrow> ?R")
  proof
    assume E: "?E = {?m}"
    have "Suc ?m \<notin> ?E" "?m \<noteq> 0 \<Longrightarrow> ?m - 1 \<notin> ?E" unfolding E by auto
    then show ?R using mid(1) by auto
  next
    assume R: ?R
    have "k = ?m" if "k \<in> ?E" for k
    proof (rule ccontr)
      assume "k \<noteq> ?m"
      then consider "k \<le> ?m - 1" "?m \<noteq> 0" | "Suc ?m \<le> k" by linarith
      then show False
      proof cases
        case 1
        then show False using sorted_towards_between [OF s 1(1) _ mid(1) _ mid(2)] R that by simp
      next
        case 2
        then show False using sorted_towards_between [OF s _ 2 _ mid(2)] R that by simp
      qed
    qed
    then show "?E = {?m}" using mid by blast
  qed
  then show ?thesis
    using nxt prv m1 z by (auto simp: unique_at_def word_less_nat_alt)
qed

section \<open>Sorted tables of object ids\<close>

text \<open>
  The interface between the search and a file with a sorted table of object ids: the entries, at most \<open>2 ^ 31\<close> of
  them, are strictly ascending, the accessor returns them, and the fan-out table counts how many entries have a
  first byte up to each value.
\<close>

locale oid_table =
  fixes ids :: "oid list" and fan :: "u32 list" and oid_at_index :: "u32 \<Rightarrow> oid or_panic" and num_objects :: u32
  assumes num: "unat num_objects = length ids" and small: "length ids \<le> 2 ^ 31"
    and oid_at: "unat w < length ids \<Longrightarrow> oid_at_index w = Some (ids ! unat w)"
    and ordered: "sorted_wrt (\<lambda>a b. cmp_slice a b = Less) ids"
    and len20: "x \<in> set ids \<Longrightarrow> length x = 20"
    and fan_counts: "unat (fan ! unat (b :: u8)) = length (filter (\<lambda>x. hd x \<le> b) ids)"

lemma count_sorted_prefix:
  fixes f :: "'a \<Rightarrow> 'b::linorder"
  shows "sorted_wrt (\<lambda>a b. f a \<le> f b) xs \<Longrightarrow> k < length xs \<Longrightarrow>
   k < length (filter (\<lambda>x. f x \<le> b) xs) \<longleftrightarrow> f (xs ! k) \<le> b"
proof (induction xs arbitrary: k)
  case (Cons x xs)
  show ?case
  proof (cases "f x \<le> b")
    case True
    with Cons show ?thesis by (cases k) auto
  next
    case False
    then have "filter (\<lambda>x. f x \<le> b) xs = []"
      using Cons.prems(1) by (auto simp: filter_empty_conv dest: order_trans)
    moreover have "\<not> f ((x # xs) ! k) \<le> b"
      using False Cons.prems by (cases k) (auto dest: order_trans)
    ultimately show ?thesis using False by simp
  qed
qed simp

lemma cmp_slice_hd: "cmp_slice xs ys \<noteq> Greater \<Longrightarrow> xs \<noteq> [] \<Longrightarrow> ys \<noteq> [] \<Longrightarrow> hd xs \<le> hd ys"
  by (cases xs; cases ys) (auto simp: cmp_def split: if_splits)

lemma cmp_slice_take:
  assumes "cmp_slice xs ys \<noteq> Greater" "length xs = length ys"
  shows "cmp_slice (take n xs) (take n ys) \<noteq> Greater"
proof -
  have "cmp_slice xs ys = then_cmp (cmp_slice (take n xs) (take n ys)) (cmp_slice (drop n xs) (drop n ys))"
    using cmp_slice_append [of "take n xs" "take n ys" "drop n xs" "drop n ys"] assms(2) by simp
  with assms(1) show ?thesis by (auto simp: then_cmp_Greater_iff)
qed

lemma cmp_slice_le_trans:
  "cmp_slice a b = Less \<Longrightarrow> cmp_slice b c \<noteq> Greater \<Longrightarrow> cmp_slice a c = Less"
  "cmp_slice a b \<noteq> Greater \<Longrightarrow> cmp_slice c b = Greater \<Longrightarrow> cmp_slice c a = Greater"
proof -
  show "cmp_slice a b = Less \<Longrightarrow> cmp_slice b c \<noteq> Greater \<Longrightarrow> cmp_slice a c = Less" for a b c :: "'a list"
    by (cases "cmp_slice b c") (auto dest: cmp_slice_Less_trans)
  show "cmp_slice a b \<noteq> Greater \<Longrightarrow> cmp_slice c b = Greater \<Longrightarrow> cmp_slice c a = Greater"
    by (cases "cmp_slice a b") (auto simp flip: cmp_slice_swap dest: cmp_slice_Less_trans)
qed

lemma sorted_towardsI:
  assumes "\<And>i j. i < j \<Longrightarrow> j < n \<Longrightarrow> cmp_slice (f i) (f j) \<noteq> Greater"
  shows "sorted_towards (\<lambda>k. cmp_slice x (f k)) n"
  unfolding sorted_towards_def
proof (intro allI impI)
  fix i j :: nat assume ij: "i \<le> j" "j < n"
  show "(cmp_slice x (f i) = Less \<longrightarrow> cmp_slice x (f j) = Less) \<and> (cmp_slice x (f j) = Greater \<longrightarrow> cmp_slice x (f i) = Greater)"
  proof (cases "i = j")
    case False
    with ij have "cmp_slice (f i) (f j) \<noteq> Greater" using assms by simp
    then show ?thesis using cmp_slice_le_trans by metis
  qed simp
qed

definition prefix_matches :: "oid_prefix \<Rightarrow> oid \<Rightarrow> bool" where
  "prefix_matches p x \<longleftrightarrow> take (prefix_hex_len p) (nibbles x) = prefix_digits p"

context oid_table
begin

lemma entry_len: "k < length ids \<Longrightarrow> length (ids ! k) = 20"
  using len20 by simp

lemma entries_ascend: "i < j \<Longrightarrow> j < length ids \<Longrightarrow> cmp_slice (ids ! i) (ids ! j) = Less"
  using ordered by (simp add: sorted_wrt_iff_nth_less)

lemma entries_distinct: "i < length ids \<Longrightarrow> j < length ids \<Longrightarrow> ids ! i = ids ! j \<Longrightarrow> i = j"
  using entries_ascend by (metis cmp_slice_refl linorder_neqE_nat ordering.distinct(1))

lemma first_bytes_sorted: "sorted_wrt (\<lambda>a b. hd a \<le> hd b) ids"
  unfolding sorted_wrt_iff_nth_less
proof (intro allI impI)
  fix i j assume ij: "i < j" "j < length ids"
  have "ids ! i \<noteq> []" "ids ! j \<noteq> []" using entry_len [of i] entry_len [of j] ij by auto
  then show "hd (ids ! i) \<le> hd (ids ! j)" using cmp_slice_hd entries_ascend [OF ij] by force
qed

lemma fan_bounds_exact:
  assumes "fan_bounds fan b = (lo, hi)" "k < length ids"
  shows "unat lo \<le> k \<and> k < unat hi \<longleftrightarrow> hd (ids ! k) = b" and "unat hi \<le> length ids"
proof -
  have hi: "k < unat hi \<longleftrightarrow> hd (ids ! k) \<le> b"
    using count_sorted_prefix [OF first_bytes_sorted assms(2), of b] assms(1) fan_counts [of b]
    by (auto simp: fan_bounds_def)
  have lo: "k < unat lo \<longleftrightarrow> hd (ids ! k) < b"
  proof (cases "b = 0")
    case False
    then have pred: "unat (b - 1) = unat b - 1" by (simp add: unat_minus_one)
    then have "x < b \<longleftrightarrow> x \<le> b - 1" for x
      using False unfolding word_less_nat_alt word_le_nat_alt by (auto simp: unat_eq_0 [symmetric] Suc_le_eq)
    then show ?thesis
      using count_sorted_prefix [OF first_bytes_sorted assms(2), of "b - 1"] assms(1) fan_counts [of "b - 1"] pred False
      by (auto simp: fan_bounds_def)
  qed (use assms(1) in \<open>simp add: fan_bounds_def\<close>)
  from hi lo show "unat lo \<le> k \<and> k < unat hi \<longleftrightarrow> hd (ids ! k) = b"
    by (metis antisym not_less order_refl)
  show "unat hi \<le> length ids"
    using assms(1) fan_counts [of b] by (auto simp: fan_bounds_def)
qed

lemma fan_hi_le: "fan_bounds fan b = (lo, hi) \<Longrightarrow> unat hi \<le> length ids"
  using fan_counts [of b] by (auto simp: fan_bounds_def)

lemma lookup_finds:
  assumes i: "length i = 20"
  shows "\<exists>r. lookup i fan oid_at_index = Some (Some r) \<and> (\<forall>k. r = Some k \<longleftrightarrow> unat k < length ids \<and> ids ! unat k = i)"
proof -
  let ?c = "\<lambda>k. cmp_slice i (ids ! k)" and ?cmp = "\<lambda>mid. map_option (cmp_slice i) (oid_at_index mid)"
  obtain b where b: "get_at i 0 = Some b" "hd i = b" using i by (cases i) auto
  obtain lo hi where lh: "fan_bounds fan b = (lo, hi)" by (cases "fan_bounds fan b")
  have hi: "unat hi \<le> length ids" by (rule fan_hi_le [OF lh])
  have s: "sorted_towards ?c (length ids)"
    by (rule sorted_towardsI) (simp add: entries_ascend)
  have c: "compares ?cmp ?c (length ids)" by (simp add: compares_def oid_at)
  obtain r where r: "bisect ?cmp lo hi = Some (Some r)"
    "case r of Some m \<Rightarrow> unat lo \<le> unat m \<and> unat m < unat hi \<and> ?c (unat m) = Equal
     | None \<Rightarrow> \<forall>i. unat lo \<le> i \<longrightarrow> i < unat hi \<longrightarrow> ?c i \<noteq> Equal"
    using bisect_correct [OF s hi _ c] hi small by fastforce
  have "r = Some k \<longleftrightarrow> unat k < length ids \<and> ids ! unat k = i" for k
  proof (cases r)
    case None
    then show ?thesis using r(2) fan_bounds_exact(1) [OF lh, of "unat k"] b(2) by auto
  next
    case (Some m)
    then have m: "unat m < length ids" "ids ! unat m = i" using r(2) hi by auto
    have "m = k" if "unat k < length ids" "ids ! unat k = i"
      using entries_distinct [OF m(1) that(1)] m(2) that(2) by (simp add: word_unat_eq_iff)
    with m Some show ?thesis by blast
  qed
  with r(1) lh b(1) show ?thesis by (auto simp: lookup_def)
qed

lemma prefix_match_first_byte:
  assumes "wf_prefix p" "length x = 20" "prefix_digits p = take (prefix_hex_len p) (nibbles x)"
  shows "get_at (object_id_as_slice (prefix_bytes p)) 0 = Some (hd x)"
proof -
  obtain b where b: "prefix_bytes p = Sha1 b" by (cases "prefix_bytes p")
  have n: "2 \<le> prefix_hex_len p" and len: "length b = 20"
    using assms(1) b by (auto simp: wf_prefix_def MIN_HEX_LEN_def)
  have "take 2 (take (prefix_hex_len p) (nibbles b)) = take 2 (take (prefix_hex_len p) (nibbles x))"
    using assms(3) b by (simp add: prefix_digits_def object_id_as_slice_def)
  then have "take 2 (nibbles b) = take 2 (nibbles x)" using n by (simp add: min_def)
  then have "nibbles (take 1 b) = nibbles (take 1 x)" using take_nibbles_even [of 1] by simp
  then have "take 1 b = take 1 x" by (rule nibbles_inj)
  with len assms(2) b show ?thesis by (cases b; cases x) (auto simp: object_id_as_slice_def)
qed

lemma prefix_matches_iff:
  "cmp_slice (prefix_digits p) (take (prefix_hex_len p) (nibbles x)) = Equal \<longleftrightarrow> prefix_matches p x"
  by (auto simp: prefix_matches_def)

lemma lookup_prefix_finds:
  assumes p: "wf_prefix p"
  shows "\<exists>r cs. lookup_prefix p want fan oid_at_index num_objects = Some (Some (r, cs)) \<and>
    (case r of None \<Rightarrow> {k. k < length ids \<and> prefix_matches p (ids ! k)} = {}
     | Some (UniqueMatch k) \<Rightarrow> {k. k < length ids \<and> prefix_matches p (ids ! k)} = {unat k}
     | Some AmbiguousMatch \<Rightarrow> 1 < card {k. k < length ids \<and> prefix_matches p (ids ! k)}) \<and>
    (case cs of None \<Rightarrow> \<not> want
     | Some (a, b) \<Rightarrow> want \<and> {k. k < length ids \<and> prefix_matches p (ids ! k)} = {unat a..<unat b})"
proof -
  let ?M = "{k. k < length ids \<and> prefix_matches p (ids ! k)}"
  let ?d = "\<lambda>k. take (prefix_hex_len p) (nibbles (ids ! k))"
  let ?c = "\<lambda>k. cmp_slice (prefix_digits p) (?d k)" and ?cmp = "cmp_at p oid_at_index"
  have M: "?M = {k. k < unat num_objects \<and> ?c k = Equal}"
    by (simp only: prefix_matches_iff num)
  obtain b where b: "get_at (object_id_as_slice (prefix_bytes p)) 0 = Some b"
    using p by (cases "prefix_bytes p"; cases "object_id_as_slice (prefix_bytes p)")
      (auto simp: wf_prefix_def object_id_as_slice_def)
  obtain lo hi where lh: "fan_bounds fan b = (lo, hi)" by (cases "fan_bounds fan b")
  have hi: "unat hi \<le> length ids" by (rule fan_hi_le [OF lh])
  have s: "sorted_towards ?c (length ids)"
  proof (rule sorted_towardsI)
    fix i j assume ij: "i < j" "j < length ids"
    then have "cmp_slice (nibbles (ids ! i)) (nibbles (ids ! j)) \<noteq> Greater"
      using entries_ascend [OF ij] by (simp add: cmp_slice_nibbles entry_len)
    then show "cmp_slice (?d i) (?d j) \<noteq> Greater"
      using ij by (intro cmp_slice_take) (simp_all add: entry_len)
  qed
  have c: "compares ?cmp ?c (length ids)"
    by (auto simp: compares_def cmp_at_def oid_at prefix_cmp_digits [OF p] entry_len)
  obtain r where r: "bisect ?cmp lo hi = Some (Some r)"
    "case r of Some m \<Rightarrow> unat lo \<le> unat m \<and> unat m < unat hi \<and> ?c (unat m) = Equal
     | None \<Rightarrow> \<forall>i. unat lo \<le> i \<longrightarrow> i < unat hi \<longrightarrow> ?c i \<noteq> Equal"
    using bisect_correct [OF s hi _ c] hi small by fastforce
  note run = lookup_prefix_def [of p want fan oid_at_index num_objects, simplified b lh r(1) Let_def option.case prod.case]
  show ?thesis
  proof (cases r)
    case None
    have "?c k \<noteq> Equal" if "k < length ids" for k
    proof
      assume e: "?c k = Equal"
      then have "hd (ids ! k) = b"
        using prefix_match_first_byte [OF p entry_len [OF that]] b by simp
      then show False using fan_bounds_exact(1) [OF lh that] None r(2) e by simp
    qed
    then have "?M = {}" by (auto simp: M num)
    with run None show ?thesis by (cases want) auto
  next
    case (Some m)
    then have m: "unat m < unat num_objects" "?c (unat m) = Equal" using r(2) hi num by auto
    note args = c [folded num] small [folded num] s [folded num] m
    show ?thesis
    proof (cases want)
      case False
      have fin: "finite ?M" by simp
      have "unat m \<in> ?M" using m by (simp add: prefix_matches_def num)
      then have "1 < card ?M" if "?M \<noteq> {unat m}"
        using that fin by (metis (no_types, lifting) card_1_singletonE card_eq_0_iff empty_iff insert_iff less_one linorder_neqE_nat)
      with unique_at_spec [OF args] run Some False M show ?thesis by auto
    next
      case True
      from candidates_at_spec [OF args] obtain x y where xy: "candidates_at ?cmp m num_objects = Some (x, y)"
        "unat x \<le> unat m" "unat m < unat y" "?M = {unat x..<unat y}"
        unfolding M by blast
      have "?M = {unat m}" if "\<not> 1 < unat y - unat x" unfolding xy(4) using that xy(2,3) by auto
      with xy run Some True show ?thesis by auto
    qed
  qed
qed

end

section \<open>Correctness of the fan-out table\<close>

lemma fanout_loop_None: "fanout_loop bs n None it ub = Some (replicate (length bs) n)"
  by (induction bs) auto

lemma fanout_loop_later:
  assumes "byte < y"
  shows "fanout_loop (byte # bs) N (Some (n, y)) it ub = map_option (\<lambda>r. ub # r) (fanout_loop bs N (Some (n, y)) it ub)"
  using assms by (auto simp: cmp_def)

lemma find_other_spec:
  "find_other b (n, ys) =
     (case dropWhile (\<lambda>x. x = b) ys of
        [] \<Rightarrow> (None, (n + length ys, []))
      | r # rs \<Rightarrow> (Some (n + length (takeWhile (\<lambda>x. x = b) ys), r), (n + length (takeWhile (\<lambda>x. x = b) ys) + 1, rs)))"
proof (induction ys arbitrary: n)
  case (Cons y ys)
  then show ?case by (cases "dropWhile (\<lambda>x. x = b) ys") (auto simp del: dropWhile_eq_Nil_conv takeWhile_eq_all_conv)
qed simp

lemma sorted_split_eq:
  fixes y :: "'a::linorder"
  assumes "sorted (y # ys)"
  shows "filter (\<lambda>x. x \<le> y) (y # ys) = y # takeWhile (\<lambda>x. x = y) ys"
    and "sorted (dropWhile (\<lambda>x. x = y) ys)" and "\<forall>x\<in>set (dropWhile (\<lambda>x. x = y) ys). y < x"
proof -
  show "sorted (dropWhile (\<lambda>x. x = y) ys)" using assms by (simp add: sorted_dropWhile)
  show "filter (\<lambda>x. x \<le> y) (y # ys) = y # takeWhile (\<lambda>x. x = y) ys"
    using assms
  proof (induction ys)
    case (Cons a ys)
    show ?case
    proof (cases "a = y")
      case False
      then have "filter (\<lambda>x. x \<le> y) ys = []" using Cons.prems by (auto simp: filter_empty_conv)
      with False Cons.prems show ?thesis by auto
    qed (use Cons in simp)
  qed simp
  show "\<forall>x\<in>set (dropWhile (\<lambda>x. x = y) ys). y < x"
    using assms by (induction ys) (auto simp: less_le)
qed

lemma unat_byte: "j < 256 \<Longrightarrow> unat (word_of_nat j :: u8) = j"
  by (simp add: unsigned_of_nat take_bit_nat_eq_self)

lemma fanout_loop_counts:
  assumes "j \<le> 256" "sorted ys" "\<forall>y\<in>set ys. j \<le> unat y"
  shows "fanout_loop (map word_of_nat [j..<256]) (word_of_nat (n + length ys))
      (case ys of [] \<Rightarrow> None | y # _ \<Rightarrow> Some (n, y)) (case ys of [] \<Rightarrow> it | _ # r \<Rightarrow> (n + 1, r)) (word_of_nat n) =
    Some (map (\<lambda>b. word_of_nat (n + length (filter (\<lambda>x. x \<le> word_of_nat b) ys))) [j..<256])"
  using assms
proof (induction "256 - j" arbitrary: j ys n it)
  case 0
  then show ?case by simp
next
  case (Suc d)
  let ?b = "word_of_nat j :: u8"
  have j: "j < 256" and d: "d = 256 - Suc j" using Suc(2) by simp_all
  have upt: "[j..<256] = j # [Suc j..<256]" using j by (rule upt_conv_Cons)
  note IH = Suc(1) [OF d]
  show ?case
  proof (cases ys)
    case Nil
    then show ?thesis by (simp add: fanout_loop_None map_replicate_const)
  next
    case (Cons y r)
    have jy: "j \<le> unat y" using Suc.prems(3) Cons by simp
    show ?thesis
    proof (cases "y = ?b")
      case False
      then have lt: "?b < y" using jy unat_byte [OF j] by (simp add: word_less_nat_alt word_unat_eq_iff)
      have all: "\<forall>x\<in>set ys. Suc j \<le> unat x"
        using Suc.prems(2) Cons lt unat_byte [OF j] by (auto simp: word_less_nat_alt Suc_le_eq word_le_nat_alt)
      then have none: "filter (\<lambda>x. x \<le> ?b) ys = []"
        using unat_byte [OF j] by (force simp: filter_empty_conv word_le_nat_alt)
      have IH': "fanout_loop (map word_of_nat [Suc j..<256]) (word_of_nat (n + length ys)) (Some (n, y)) (n + 1, r)
          (word_of_nat n) = Some (map (\<lambda>b. word_of_nat (n + length (filter (\<lambda>x. x \<le> word_of_nat b) ys))) [Suc j..<256])"
        using IH [OF _ Suc.prems(2) all, of n it] j Cons by simp
      show ?thesis
        using none unfolding upt list.map Cons list.case fanout_loop_later [OF lt]
        by (simp only: IH' [unfolded Cons]) simp
    next
      case True
      let ?t = "takeWhile (\<lambda>x. x = ?b) r" and ?r = "dropWhile (\<lambda>x. x = ?b) r"
      note sp = sorted_split_eq [of y r, OF Suc.prems(2) [unfolded Cons]]
      have split: "length r = length ?t + length ?r" by (metis length_append takeWhile_dropWhile_id)
      have gt: "\<forall>x\<in>set ?r. Suc j \<le> unat x"
        using sp(3) True unat_byte [OF j] by (auto simp: word_less_nat_alt)
      have cnt: "length (filter (\<lambda>x. x \<le> word_of_nat b) ys) =
          Suc (length ?t) + length (filter (\<lambda>x. x \<le> word_of_nat b) ?r)" if "j \<le> b" "b < 256" for b
      proof -
        have "?b \<le> word_of_nat b" using that by (simp add: word_le_nat_alt unat_byte)
        moreover have "r = ?t @ ?r" by simp
        moreover have "filter (\<lambda>x. x \<le> word_of_nat b) ?t = ?t" if "?b \<le> word_of_nat b"
          using that by (auto simp: filter_id_conv dest: set_takeWhileD)
        ultimately show ?thesis
          by (metis (no_types, lifting) Cons True add_Suc filter.simps(2) filter_append length_Cons length_append)
      qed
      have here: "filter (\<lambda>x. x \<le> ?b) ?r = []"
        using gt unat_byte [OF j] by (force simp: filter_empty_conv word_le_nat_alt)
      show ?thesis
      proof (cases "j = 255")
        case j255: True
        have "?r = []"
        proof (rule ccontr)
          assume "?r \<noteq> []"
          then have "256 \<le> unat (hd ?r)" using gt j255 by (metis Suc_eq_plus1 hd_in_set numeral_plus_one semiring_norm(2) semiring_norm(5) semiring_norm(8))
          then show False using unat_lt_256 [of "hd ?r"] by simp
        qed
        then show ?thesis using cnt [of 255] here split Cons True j255 by (simp add: upt)
      next
        case False
        then have nb: "?b \<noteq> 255" using unat_byte [OF j] by auto
        let ?m = "n + Suc (length ?t)"
        have "map (\<lambda>b. word_of_nat (n + length (filter (\<lambda>x. x \<le> word_of_nat b) ys)) :: u32) [Suc j..<256] =
            map (\<lambda>b. word_of_nat (?m + length (filter (\<lambda>x. x \<le> word_of_nat b) ?r))) [Suc j..<256]"
          using cnt by (intro map_cong) simp_all
        moreover have "length (filter (\<lambda>x. x \<le> ?b) ys) = Suc (length ?t)" using cnt [of j] j here by simp
        ultimately show ?thesis
          using IH [of ?r ?m "(Suc n + length r, [])"] j nb sp(2) gt Cons True split
          by (cases ?r) (simp_all add: upt find_other_spec fanout_loop_None map_replicate_const del: dropWhile_eq_Nil_conv)
      qed
    qed
  qed
qed

lemma fanout_counts:
  assumes "sorted bs"
  shows "fanout bs = Some (map (\<lambda>b. word_of_nat (length (filter (\<lambda>x. x \<le> word_of_nat b) bs))) [0..<256])"
  using fanout_loop_counts [of 0 bs 0 "(0, [])"] assms
  by (cases bs) (simp_all add: fanout_def Let_def)

section \<open>Beyond \<open>2 ^ 31\<close> objects\<close>

lemma overflow_mid:
  fixes lo hi :: u32
  assumes "2 ^ 31 < unat hi"
  shows "(lo + hi) div 2 < hi" and "(lo + hi) div 2 + 1 < hi"
proof -
  have "unat (lo + hi) = (unat lo + unat hi) mod 2 ^ 32" by (simp add: unat_word_ariths)
  then have "unat (lo + hi) < 2 ^ 32" by simp
  then have m: "unat ((lo + hi) div 2) < 2 ^ 31" by (simp add: unat_div)
  then show "(lo + hi) div 2 < hi" using assms by (simp add: word_less_nat_alt)
  have "unat ((lo + hi) div 2 + 1) = unat ((lo + hi) div 2) + 1"
    using m unat_add_lem [of "(lo + hi) div 2" "1 :: u32"] by simp
  with m assms show "(lo + hi) div 2 + 1 < hi" by (simp add: word_less_nat_alt)
qed

lemma bisect_never_returns:
  assumes "bisect compare lo hi = Some r"
  shows "\<not> (lo < hi \<and> 2 ^ 31 < unat hi \<and> (\<forall>w<hi. compare w = Some Greater))"
proof (rule bisect.raw_induct
    [where P = "\<lambda>compare lo hi _. \<not> (lo < hi \<and> 2 ^ 31 < unat hi \<and> (\<forall>w<hi. compare w = Some Greater))", OF _ assms])
  fix rec :: "(u32 \<Rightarrow> ordering or_panic) \<Rightarrow> u32 \<Rightarrow> u32 \<Rightarrow> u32 option or_panic option" and compare lo hi r
  assume IH: "\<And>compare lo hi r. rec compare lo hi = Some r \<Longrightarrow>
      \<not> (lo < hi \<and> 2 ^ 31 < unat hi \<and> (\<forall>w<hi. compare w = Some Greater))"
    and step: "(if lo < hi then let mid = (lo + hi) div 2 in case compare mid of None \<Rightarrow> Some None
        | Some Less \<Rightarrow> rec compare lo mid | Some Equal \<Rightarrow> Some (Some (Some mid)) | Some Greater \<Rightarrow> rec compare (mid + 1) hi
      else Some (Some None)) = Some r"
  show "\<not> (lo < hi \<and> 2 ^ 31 < unat hi \<and> (\<forall>w<hi. compare w = Some Greater))"
  proof
    assume a: "lo < hi \<and> 2 ^ 31 < unat hi \<and> (\<forall>w<hi. compare w = Some Greater)"
    then have m: "(lo + hi) div 2 < hi" "(lo + hi) div 2 + 1 < hi" using overflow_mid by blast+
    with a have "compare ((lo + hi) div 2) = Some Greater" by blast
    with a step have "rec compare ((lo + hi) div 2 + 1) hi = Some r" by (simp add: Let_def)
    from IH [OF this] a m(2) show False by blast
  qed
qed

lemma bisect_all_greater:
  assumes "lo < hi" "\<forall>w<hi. compare w = Some Greater"
  shows "bisect compare lo hi = (if unat hi \<le> 2 ^ 31 then Some (Some None) else None)"
proof (cases "unat hi \<le> 2 ^ 31")
  case True
  have "sorted_towards (\<lambda>_. Greater) (unat hi)" by (simp add: sorted_towards_def)
  moreover have "compares compare (\<lambda>_. Greater) (unat hi)" using assms(2) by (simp add: compares_def word_less_nat_alt)
  ultimately obtain r where "bisect compare lo hi = Some (Some r)" "case r of Some m \<Rightarrow> False | None \<Rightarrow> True"
    using bisect_correct [of "\<lambda>_. Greater" "unat hi" hi compare lo] True by (fastforce split: option.splits)
  then show ?thesis using True by (cases r) simp_all
next
  case False
  then show ?thesis using bisect_never_returns [of compare lo hi] assms by (cases "bisect compare lo hi") auto
qed



end
