(* ===== verification/Gix_Pack_Index.thy ===== *)
theory Gix_Pack_Index
  imports Gix_Lookup
begin

text \<open>
  Pack index files (\<^verbatim>\<open>src/gix-pack/src/index/\<close>): opening a file (\<^verbatim>\<open>init.rs\<close>), access to its tables and lookups
  (\<^verbatim>\<open>access.rs\<close>) and writing version 2 (\<^verbatim>\<open>encode.rs\<close>, \<^verbatim>\<open>write_to\<close>).  The memory map is the list of the file's bytes; the
  SHA-1 digest that closes a written file is a parameter.
\<close>

section \<open>Opening an index\<close>

datatype index_version = IndexV1 | IndexV2

datatype index_error = IndexIo | IndexCorrupt nat | IndexUnsupportedVersion u32

record index_file =
  idx_data :: bytes
  idx_version :: index_version
  idx_num_objects :: u32
  idx_fan :: "u32 list"
  idx_hash_len :: nat
  idx_object_hash :: hash_kind

definition FAN_LEN :: nat where "FAN_LEN = 256"
definition N32_SIZE :: nat where "N32_SIZE = 4"
definition N64_SIZE :: nat where "N64_SIZE = 8"
definition V1_HEADER_SIZE :: nat where "V1_HEADER_SIZE = FAN_LEN * N32_SIZE"
definition V2_HEADER_SIZE :: nat where "V2_HEADER_SIZE = N32_SIZE * 2 + FAN_LEN * N32_SIZE"
definition N32_HIGH_BIT :: u32 where "N32_HIGH_BIT = push_bit 31 1"
definition V2_SIGNATURE :: bytes where "V2_SIGNATURE = [0xff, 0x74, 0x4f, 0x63]"

definition index_version_hash :: "index_version \<Rightarrow> hash_kind" where
  "index_version_hash v = (case v of IndexV1 \<Rightarrow> KSha1 | IndexV2 \<Rightarrow> KSha1)"

definition index_version_as_u32 :: "index_version \<Rightarrow> u32" where
  "index_version_as_u32 v = (case v of IndexV1 \<Rightarrow> 1 | IndexV2 \<Rightarrow> 2)"

text \<open>\<^verbatim>\<open>u32::from_be_bytes\<close> of a four-byte chunk.\<close>

definition from_be32 :: "bytes \<Rightarrow> u32" where "from_be32 c = word_of_nat (be_nat c)"

definition read_fan :: "bytes \<Rightarrow> (u32 list \<times> nat) or_panic" where
  "read_fan d =
     (if length d \<ge> FAN_LEN * N32_SIZE
      then Some (map from_be32 (take FAN_LEN (chunks_exact N32_SIZE d)), FAN_LEN * N32_SIZE)
      else None)"

text \<open>\<open>mapped\<close> is the content of the file, \<open>None\<close> if it could not be mapped.\<close>

definition index_at :: "bytes option \<Rightarrow> hash_kind \<Rightarrow> (index_file, index_error) outcome" where
  "index_at mapped object_hash =
     and_then (ok_or mapped IndexIo) (\<lambda>data.
       let idx_len = length data;
           hash_len = kind_len_in_bytes object_hash;
           footer_size = hash_len * 2 in
       if idx_len < FAN_LEN * N32_SIZE + footer_size then Err (IndexCorrupt idx_len)
       else
         let (kind, d) =
           (if take (length V2_SIGNATURE) data = V2_SIGNATURE
            then (IndexV2, drop (length V2_SIGNATURE) data)
            else (IndexV1, data)) in
         and_then
           (if kind = IndexV2 then
              and_then (read_u32 (take N32_SIZE d)) (\<lambda>version.
                if version \<noteq> index_version_as_u32 IndexV2 then Err (IndexUnsupportedVersion version)
                else Ok (drop N32_SIZE d))
            else Ok d)
           (\<lambda>d. and_then (expect (read_fan d)) (\<lambda>(fan, bytes_read).
             Ok \<lparr>idx_data = data, idx_version = kind, idx_num_objects = fan ! (FAN_LEN - 1), idx_fan = fan,
                 idx_hash_len = hash_len, idx_object_hash = object_hash\<rparr>)))"

section \<open>Access\<close>

record index_entry =
  entry_oid :: object_id
  entry_offset :: u64
  entry_crc32 :: "u32 option"

definition num_nat :: "index_file \<Rightarrow> nat" where "num_nat f = unat (idx_num_objects f)"

definition offset_crc32_v2 :: "index_file \<Rightarrow> nat" where
  "offset_crc32_v2 f = V2_HEADER_SIZE + num_nat f * idx_hash_len f"

definition offset_pack_offset_v2 :: "index_file \<Rightarrow> nat" where
  "offset_pack_offset_v2 f = offset_crc32_v2 f + num_nat f * N32_SIZE"

definition offset_pack_offset64_v2 :: "index_file \<Rightarrow> nat" where
  "offset_pack_offset64_v2 f = offset_pack_offset_v2 f + num_nat f * N32_SIZE"

definition read32 :: "bytes \<Rightarrow> u32 or_panic" where
  "read32 b = (if length b = 4 then Some (from_be32 b) else None)"

definition read64 :: "bytes \<Rightarrow> u64 or_panic" where
  "read64 b = (if length b = 8 then Some (word_of_nat (be_nat b)) else None)"

definition pack_offset_from_offset_v2 :: "index_file \<Rightarrow> bytes \<Rightarrow> nat \<Rightarrow> u64 or_panic" where
  "pack_offset_from_offset_v2 f offset pack64_offset =
     Option.bind (read32 offset) (\<lambda>ofs32.
       if ofs32 AND N32_HIGH_BIT = N32_HIGH_BIT then
         (let from = pack64_offset + unat (ofs32 XOR N32_HIGH_BIT) * N64_SIZE in
          Option.bind (get_range (idx_data f) from (from + N64_SIZE)) read64)
       else Some (ucast ofs32))"

definition iter_v1 :: "index_file \<Rightarrow> index_entry list or_panic" where
  "iter_v1 f =
     (case idx_version f of
        IndexV2 \<Rightarrow> None
      | IndexV1 \<Rightarrow>
          if V1_HEADER_SIZE \<le> length (idx_data f) then
            those (map (\<lambda>c. let (ofs, oid) = (take N32_SIZE c, drop N32_SIZE c) in
                Option.bind (case (object_id_from_bytes_or_panic oid :: (object_id, unit) outcome) of Ok i \<Rightarrow> Some i | _ \<Rightarrow> None) (\<lambda>i.
                map_option (\<lambda>o32. \<lparr>entry_oid = i, entry_offset = ucast o32, entry_crc32 = None\<rparr>) (read32 ofs)))
              (take (num_nat f) (chunks_exact (N32_SIZE + idx_hash_len f) (drop V1_HEADER_SIZE (idx_data f)))))
          else None)"

definition iter_v2 :: "index_file \<Rightarrow> index_entry list or_panic" where
  "iter_v2 f =
     (let d = idx_data f; pack64_offset = offset_pack_offset64_v2 f;
          oids = take (num_nat f) (chunks_exact (idx_hash_len f) (drop V2_HEADER_SIZE d));
          crcs = take (num_nat f) (chunks_exact N32_SIZE (drop (offset_crc32_v2 f) d));
          offsets = take (num_nat f) (chunks_exact N32_SIZE (drop (offset_pack_offset_v2 f) d)) in
      if length d < offset_pack_offset_v2 f \<or> length oids \<noteq> length crcs \<or> length crcs \<noteq> length offsets
        \<or> idx_version f \<noteq> IndexV2 then None
      else
        those (map (\<lambda>(oid, crc32, ofs32).
            Option.bind (case (object_id_from_bytes_or_panic oid :: (object_id, unit) outcome) of Ok i \<Rightarrow> Some i | _ \<Rightarrow> None) (\<lambda>i.
            Option.bind (pack_offset_from_offset_v2 f ofs32 pack64_offset) (\<lambda>ofs.
            map_option (\<lambda>crc. \<lparr>entry_oid = i, entry_offset = ofs, entry_crc32 = Some crc\<rparr>) (read32 crc32))))
          (zip oids (zip crcs offsets))))"

definition index_oid_at :: "index_file \<Rightarrow> u32 \<Rightarrow> oid or_panic" where
  "index_oid_at f i =
     (let index = unat i;
          start = (case idx_version f of
              IndexV2 \<Rightarrow> V2_HEADER_SIZE + index * idx_hash_len f
            | IndexV1 \<Rightarrow> V1_HEADER_SIZE + index * (N32_SIZE + idx_hash_len f) + N32_SIZE)
      in get_range (idx_data f) start (start + idx_hash_len f))"

definition pack_offset_at_index :: "index_file \<Rightarrow> u32 \<Rightarrow> u64 or_panic" where
  "pack_offset_at_index f i =
     (let index = unat i in
      case idx_version f of
        IndexV2 \<Rightarrow>
          (let start = offset_pack_offset_v2 f + index * N32_SIZE in
           Option.bind (get_range (idx_data f) start (start + N32_SIZE)) (\<lambda>o32.
             pack_offset_from_offset_v2 f o32 (offset_pack_offset64_v2 f)))
      | IndexV1 \<Rightarrow>
          (let start = V1_HEADER_SIZE + index * (N32_SIZE + idx_hash_len f) in
           Option.bind (get_range (idx_data f) start (start + N32_SIZE)) (\<lambda>o32. map_option ucast (read32 o32))))"

definition crc32_at_index :: "index_file \<Rightarrow> u32 \<Rightarrow> u32 option or_panic" where
  "crc32_at_index f i =
     (let index = unat i in
      case idx_version f of
        IndexV2 \<Rightarrow>
          (let start = offset_crc32_v2 f + index * N32_SIZE in
           Option.bind (get_range (idx_data f) start (start + N32_SIZE)) (\<lambda>c. map_option Some (read32 c)))
      | IndexV1 \<Rightarrow> Some None)"

definition index_lookup :: "index_file \<Rightarrow> oid \<Rightarrow> u32 option or_panic option" where
  "index_lookup f i = lookup i (idx_fan f) (index_oid_at f)"

definition index_lookup_prefix ::
    "index_file \<Rightarrow> oid_prefix \<Rightarrow> bool \<Rightarrow> (prefix_match option \<times> (u32 \<times> u32) option) or_panic option" where
  "index_lookup_prefix f p candidates = lookup_prefix p candidates (idx_fan f) (index_oid_at f) (idx_num_objects f)"

definition index_iter :: "index_file \<Rightarrow> index_entry list or_panic" where
  "index_iter f = (case idx_version f of IndexV2 \<Rightarrow> iter_v2 f | IndexV1 \<Rightarrow> iter_v1 f)"

definition sorted_offsets :: "index_file \<Rightarrow> u64 list or_panic" where
  "sorted_offsets f =
     map_option sort (case idx_version f of
       IndexV1 \<Rightarrow> map_option (map entry_offset) (index_iter f)
     | IndexV2 \<Rightarrow>
         (let offsets32 = take (num_nat f) (chunks_exact N32_SIZE (drop (offset_pack_offset_v2 f) (idx_data f))) in
          if length (idx_data f) < offset_pack_offset_v2 f \<or> num_nat f \<noteq> length offsets32 then None
          else those (map (\<lambda>o32. pack_offset_from_offset_v2 f o32 (offset_pack_offset64_v2 f)) offsets32)))"

section \<open>Writing an index\<close>

record tree_entry =
  te_id :: object_id
  te_crc32 :: u32
  te_offset :: u64

definition LARGE_OFFSET_THRESHOLD :: u64 where "LARGE_OFFSET_THRESHOLD = 0x7fffffff"
definition HIGH_BIT :: u32 where "HIGH_BIT = 0x80000000"

text \<open>The loop over the entries that writes the 32-bit offsets and collects the 64-bit ones.\<close>

fun write_offsets :: "tree_entry list \<Rightarrow> u64 list \<Rightarrow> (bytes \<times> u64 list) or_panic" where
  "write_offsets [] offsets64 = Some ([], offsets64)"
| "write_offsets (e # es) offsets64 =
     (if te_offset e > LARGE_OFFSET_THRESHOLD then
        (if length offsets64 < unat LARGE_OFFSET_THRESHOLD then
           (let offsets64 = offsets64 @ [te_offset e];
                offset = word_of_nat (length offsets64 - 1) OR HIGH_BIT in
            map_option (\<lambda>(out, offs). (be32 offset @ out, offs)) (write_offsets es offsets64))
         else None)
      else map_option (\<lambda>(out, offs). (be32 (ucast (te_offset e)) @ out, offs)) (write_offsets es offsets64))"

definition index_write_to ::
    "(bytes \<Rightarrow> bytes) \<Rightarrow> tree_entry list \<Rightarrow> object_id \<Rightarrow> index_version \<Rightarrow> (bytes \<times> object_id) or_panic" where
  "index_write_to sha1 entries_sorted_by_oid pack_hash kind =
     (if kind \<noteq> IndexV2 \<or> length entries_sorted_by_oid > unat (- 1 :: u32) then None
      else
        Option.bind (those (map (\<lambda>e. get_at (object_id_as_slice (te_id e)) 0) entries_sorted_by_oid)) (\<lambda>first_bytes.
        Option.bind (fanout first_bytes) (\<lambda>fan_out.
        Option.bind (write_offsets entries_sorted_by_oid []) (\<lambda>(offsets, offsets64).
          let out = V2_SIGNATURE @ be32 (index_version_as_u32 kind)
                @ concat (map be32 fan_out)
                @ concat (map (\<lambda>e. object_id_as_slice (te_id e)) entries_sorted_by_oid)
                @ concat (map (\<lambda>e. be32 (te_crc32 e)) entries_sorted_by_oid)
                @ offsets @ concat (map be64 offsets64)
                @ object_id_as_slice pack_hash;
              index_hash = sha1 out
          in Some (out @ index_hash, Sha1 index_hash)))))"

lemmas index_consts = FAN_LEN_def N32_SIZE_def N64_SIZE_def V1_HEADER_SIZE_def V2_HEADER_SIZE_def

section \<open>Reading back what was written\<close>

lemma be_nat_be_bytes_word: "be_nat (be_bytes n (unat w)) = unat w" if "LENGTH('a) \<le> 8 * n" for w :: "'a::len word"
proof -
  have "unat w < 2 ^ LENGTH('a)" by (rule unsigned_less)
  also have "(2 :: nat) ^ LENGTH('a) \<le> 2 ^ (8 * n)" using that by (intro power_increasing) simp_all
  also have "(2 :: nat) ^ (8 * n) = 256 ^ n" by (simp add: power_mult)
  finally show ?thesis by (simp add: be_nat_be_bytes)
qed

lemma from_be32_be32 [simp]: "from_be32 (be32 w) = w"
  by (simp add: from_be32_def be32_def be_nat_be_bytes_word)

lemma read32_be32 [simp]: "read32 (be32 w) = Some w"
  by (simp add: read32_def)

lemma read64_be64 [simp]: "read64 (be64 w) = Some w"
  by (simp add: read64_def be64_def be_nat_be_bytes_word)

text \<open>The 32-bit slots and the table of large offsets that the writer produces.\<close>

definition is_large :: "tree_entry \<Rightarrow> bool" where "is_large e \<longleftrightarrow> te_offset e > LARGE_OFFSET_THRESHOLD"

definition large_offsets :: "tree_entry list \<Rightarrow> u64 list" where
  "large_offsets es = map te_offset (filter is_large es)"

fun offset_slots :: "tree_entry list \<Rightarrow> nat \<Rightarrow> u32 list" where
  "offset_slots [] n = []"
| "offset_slots (e # es) n =
     (if is_large e then (word_of_nat n OR HIGH_BIT) # offset_slots es (Suc n) else ucast (te_offset e) # offset_slots es n)"

lemma length_offset_slots [simp]: "length (offset_slots es n) = length es"
  by (induction es arbitrary: n) auto

lemma write_offsets_eq:
  "length acc + length es \<le> 0x7fffffff \<Longrightarrow>
   write_offsets es acc = Some (concat (map be32 (offset_slots es (length acc))), acc @ large_offsets es)"
  by (induction es arbitrary: acc) (auto simp: large_offsets_def is_large_def LARGE_OFFSET_THRESHOLD_def Let_def)

lemma offset_slot:
  "k < length es \<Longrightarrow>
   (if is_large (es ! k)
    then \<exists>j < length (large_offsets es). offset_slots es n ! k = word_of_nat (n + j) OR HIGH_BIT \<and>
           large_offsets es ! j = te_offset (es ! k)
    else offset_slots es n ! k = ucast (te_offset (es ! k)))"
proof (induction es arbitrary: n k)
  case (Cons e es)
  show ?case
  proof (cases k)
    case 0
    then show ?thesis by (auto simp: large_offsets_def)
  next
    case (Suc i)
    then have i: "i < length es" using Cons.prems by simp
    show ?thesis
    proof (cases "is_large e")
      case True
      show ?thesis
      proof (cases "is_large (es ! i)")
        case large: True
        then obtain j where "j < length (large_offsets es)" "offset_slots es (Suc n) ! i = word_of_nat (Suc n + j) OR HIGH_BIT"
          "large_offsets es ! j = te_offset (es ! i)"
          using Cons.IH [OF i, of "Suc n"] by auto
        with True large Suc show ?thesis
          by (simp del: of_nat_add of_nat_Suc) (rule exI [of _ "Suc j"], simp add: large_offsets_def)
      qed (use Cons.IH [OF i, of "Suc n"] True Suc in simp)
    next
      case False
      then show ?thesis using Cons.IH [OF i, of n] Suc by (auto simp: large_offsets_def)
    qed
  qed
qed simp

lemma high_bit_iff: "bit N32_HIGH_BIT n \<longleftrightarrow> n = 31"
  unfolding N32_HIGH_BIT_def by (subst bit_push_bit_iff) (auto simp: bit_1_iff)

lemma high_bit_marks:
  assumes "m < 2 ^ 31"
  shows "(word_of_nat m OR HIGH_BIT) AND N32_HIGH_BIT = N32_HIGH_BIT"
    and "unat ((word_of_nat m OR HIGH_BIT) XOR N32_HIGH_BIT) = m"
proof -
  have hb: "HIGH_BIT = N32_HIGH_BIT" by (simp add: HIGH_BIT_def N32_HIGH_BIT_def)
  have u: "unat (word_of_nat m :: u32) = m" using assms by (simp add: unsigned_of_nat take_bit_nat_eq_self)
  then have "drop_bit 31 (word_of_nat m :: u32) = 0"
    using assms by (intro unsigned_word_eqI [where 'a = nat]) (simp add: unat_drop_bit)
  then have b: "\<not> bit (word_of_nat m :: u32) 31" by (simp add: bit_iff_odd_drop_bit)
  show "(word_of_nat m OR HIGH_BIT) AND N32_HIGH_BIT = N32_HIGH_BIT" unfolding hb by simp
  have "(word_of_nat m OR N32_HIGH_BIT) XOR N32_HIGH_BIT = word_of_nat m"
  proof (rule bit_word_eqI)
    fix n assume "n < LENGTH(32)"
    then show "bit ((word_of_nat m OR N32_HIGH_BIT) XOR N32_HIGH_BIT) n = bit (word_of_nat m :: u32) n"
      using b by (cases "n = 31") (auto simp: high_bit_iff bit_or_iff bit_xor_iff)
  qed
  then show "unat ((word_of_nat m OR HIGH_BIT) XOR N32_HIGH_BIT) = m" unfolding hb using u by simp
qed

lemma small_offset:
  assumes "\<not> is_large e"
  shows "(ucast (te_offset e) :: u32) AND N32_HIGH_BIT \<noteq> N32_HIGH_BIT"
    and "ucast (ucast (te_offset e) :: u32) = te_offset e"
proof -
  have le: "unat (te_offset e) < 2 ^ 31"
    using assms unfolding is_large_def LARGE_OFFSET_THRESHOLD_def word_less_nat_alt by simp
  then have u: "unat (ucast (te_offset e) :: u32) = unat (te_offset e)" by (simp add: unat_ucast_mod)
  with le have "drop_bit 31 (ucast (te_offset e) :: u32) = 0"
    by (intro unsigned_word_eqI [where 'a = nat]) (simp add: unat_drop_bit)
  then have b: "\<not> bit (ucast (te_offset e) :: u32) 31" by (simp add: bit_iff_odd_drop_bit)
  show "(ucast (te_offset e) :: u32) AND N32_HIGH_BIT \<noteq> N32_HIGH_BIT"
  proof
    assume "(ucast (te_offset e) :: u32) AND N32_HIGH_BIT = N32_HIGH_BIT"
    then have "bit ((ucast (te_offset e) :: u32) AND N32_HIGH_BIT) 31" by (simp add: N32_HIGH_BIT_def)
    with b show False by (simp add: bit_and_iff)
  qed
  show "ucast (ucast (te_offset e) :: u32) = te_offset e"
    using u by (intro unsigned_word_eqI [where 'a = nat]) (use le in \<open>simp add: unat_ucast_mod\<close>)
qed

section \<open>Well-formed indices are sorted tables\<close>

definition index_ids :: "index_file \<Rightarrow> oid list option" where
  "index_ids f = those (map (\<lambda>k. index_oid_at f (word_of_nat k)) [0..<num_nat f])"

definition index_wf :: "index_file \<Rightarrow> bool" where
  "index_wf f \<longleftrightarrow> num_nat f \<le> 2 ^ 31 \<and> idx_hash_len f = 20 \<and>
     (case index_ids f of
        None \<Rightarrow> False
      | Some ids \<Rightarrow> sorted_wrt (\<lambda>a b. cmp_slice a b = Less) ids \<and>
          list_all (\<lambda>b. unat (idx_fan f ! b) = length (filter (\<lambda>x. hd x \<le> word_of_nat b) ids)) [0..<256])"

definition empty_index :: index_file where
  "empty_index = \<lparr>idx_data = V2_SIGNATURE @ be32 2 @ replicate 1064 0, idx_version = IndexV2, idx_num_objects = 0,
     idx_fan = replicate 256 0, idx_hash_len = 20, idx_object_hash = KSha1\<rparr>"

definition checked_index :: "index_file \<Rightarrow> index_file" where
  "checked_index f = (if index_wf f then f else empty_index)"

lemma index_wf_empty: "index_wf empty_index"
  by (simp add: index_wf_def index_ids_def empty_index_def num_nat_def list_all_iff)

lemma index_wf_checked: "index_wf (checked_index f)"
  by (simp add: checked_index_def index_wf_empty)

lemma index_oid_at_length: "index_oid_at f i = Some x \<Longrightarrow> length x = idx_hash_len f"
  by (auto simp: index_oid_at_def get_range_Some Let_def)

lemma index_wf_table:
  assumes "index_wf f"
  shows "oid_table (the (index_ids f)) (idx_fan f) (index_oid_at f) (idx_num_objects f)"
proof -
  from assms obtain ids where ids: "index_ids f = Some ids"
    and wf: "num_nat f \<le> 2 ^ 31" "idx_hash_len f = 20" "sorted_wrt (\<lambda>a b. cmp_slice a b = Less) ids"
      "list_all (\<lambda>b. unat (idx_fan f ! b) = length (filter (\<lambda>x. hd x \<le> word_of_nat b) ids)) [0..<256]"
    by (auto simp: index_wf_def split: option.splits)
  have len: "length ids = num_nat f" using those_length [OF ids [unfolded index_ids_def]] by simp
  have at: "index_oid_at f w = Some (ids ! unat w)" if "unat w < length ids" for w
    using those_nth [OF ids [unfolded index_ids_def], of "unat w"] that len by simp
  have fan: "unat (idx_fan f ! unat b) = length (filter (\<lambda>x. hd x \<le> b) ids)" for b :: u8
    using wf(4) unat_lt_256 [of b] by (auto simp: list_all_iff)
  have l20: "length x = 20" if x: "x \<in> set ids" for x
  proof -
    obtain k where k: "k < length ids" "ids ! k = x" using x by (auto simp: in_set_conv_nth)
    then have "index_oid_at f (word_of_nat k) = Some x"
      using those_nth [OF ids [unfolded index_ids_def], of k] len by simp
    then show ?thesis using index_oid_at_length wf(2) by metis
  qed
  show ?thesis
    using wf len at fan l20 ids by unfold_locales (simp_all add: num_nat_def)
qed

interpretation index_table: oid_table "the (index_ids (checked_index f))" "idx_fan (checked_index f)"
  "index_oid_at (checked_index f)" "idx_num_objects (checked_index f)" for f
  by (rule index_wf_table [OF index_wf_checked])

lemma checked_index_id: "index_wf f \<Longrightarrow> checked_index f = f"
  by (simp add: checked_index_def)

lemma index_ids_nth:
  assumes "index_wf f" "unat k < num_nat f"
  shows "index_oid_at f k = Some (the (index_ids f) ! unat k)" and "length (the (index_ids f)) = num_nat f"
  using index_table.oid_at [of k f] index_table.num [of f] assms by (simp_all add: checked_index_id num_nat_def)

lemma length_index_ids: "index_wf f \<Longrightarrow> length (the (index_ids f)) = num_nat f"
  using index_table.num [of f] by (simp add: checked_index_id num_nat_def)

section \<open>A written index\<close>

abbreviation te_oid :: "tree_entry \<Rightarrow> oid" where "te_oid e \<equiv> object_id_as_slice (te_id e)"

definition wf_entries :: "tree_entry list \<Rightarrow> bool" where
  "wf_entries es \<longleftrightarrow> length es < 2 ^ 31 \<and> list_all (\<lambda>e. wf_object_id (te_id e)) es \<and>
     sorted_wrt (\<lambda>a b. cmp_slice a b = Less) (map te_oid es)"

definition entries_fan :: "tree_entry list \<Rightarrow> u32 list" where
  "entries_fan es =
     map (\<lambda>b. word_of_nat (length (filter (\<lambda>x. hd x \<le> word_of_nat b) (map te_oid es)))) [0..<256]"

definition index_body :: "tree_entry list \<Rightarrow> object_id \<Rightarrow> bytes" where
  "index_body es pack_hash = (V2_SIGNATURE @ be32 2) @ concat (map be32 (entries_fan es)) @ concat (map te_oid es)
     @ concat (map (\<lambda>e. be32 (te_crc32 e)) es) @ concat (map be32 (offset_slots es 0))
     @ concat (map be64 (large_offsets es)) @ object_id_as_slice pack_hash"

definition written_index :: "(bytes \<Rightarrow> bytes) \<Rightarrow> tree_entry list \<Rightarrow> object_id \<Rightarrow> index_file" where
  "written_index sha1 es pack_hash =
     \<lparr>idx_data = index_body es pack_hash @ sha1 (index_body es pack_hash), idx_version = IndexV2,
      idx_num_objects = word_of_nat (length es), idx_fan = entries_fan es, idx_hash_len = 20, idx_object_hash = KSha1\<rparr>"

lemma te_oid_length: "wf_entries es \<Longrightarrow> e \<in> set es \<Longrightarrow> length (te_oid e) = 20"
  by (cases "te_id e") (auto simp: wf_entries_def list_all_iff object_id_as_slice_def)

lemma first_bytes_ascend:
  assumes "wf_entries es"
  shows "sorted (map (\<lambda>e. hd (te_oid e)) es)"
proof -
  have "hd (te_oid (es ! i)) \<le> hd (te_oid (es ! j))" if ij: "i < j" "j < length es" for i j
  proof -
    have "cmp_slice (te_oid (es ! i)) (te_oid (es ! j)) = Less"
      using assms ij by (simp add: wf_entries_def sorted_wrt_iff_nth_less)
    moreover have "te_oid (es ! i) \<noteq> []" "te_oid (es ! j) \<noteq> []"
      using te_oid_length [OF assms, of "es ! i"] te_oid_length [OF assms, of "es ! j"] ij by auto
    ultimately show ?thesis by (intro cmp_slice_hd) simp_all
  qed
  then show ?thesis by (simp add: sorted_wrt_iff_nth_less)
qed

lemma fanout_entries:
  assumes "wf_entries es"
  shows "Option.bind (those (map (\<lambda>e. get_at (te_oid e) 0) es)) fanout = Some (entries_fan es)"
proof -
  have "those (map (\<lambda>e. get_at (te_oid e) 0) es) = Some (map (\<lambda>e. hd (te_oid e)) es)"
  proof (rule those_map_Some)
    fix e assume "e \<in> set es"
    then have "te_oid e \<noteq> []" using te_oid_length [OF assms] by fastforce
    then show "get_at (te_oid e) 0 = Some (hd (te_oid e))" by (cases "te_oid e") auto
  qed
  then show ?thesis
    using fanout_counts [OF first_bytes_ascend [OF assms]] by (simp add: entries_fan_def filter_map comp_def)
qed

lemma index_write_to_eq:
  assumes "wf_entries es"
  shows "index_write_to sha1 es pack_hash IndexV2 =
    Some (idx_data (written_index sha1 es pack_hash), Sha1 (sha1 (index_body es pack_hash)))"
proof -
  have n: "length es \<le> 0x7fffffff" using assms by (simp add: wf_entries_def)
  have max: "unat (- 1 :: u32) = 0xffffffff" by (simp add: unsigned_minus_1_eq_mask mask_eq_exp_minus_1)
  have w: "write_offsets es [] = Some (concat (map be32 (offset_slots es 0)), large_offsets es)"
    using write_offsets_eq [of "[]" es] n by simp
  show ?thesis
    using fanout_entries [OF assms] n w
    by (auto simp: index_write_to_def written_index_def index_body_def max index_version_as_u32_def Let_def
        bind_eq_Some_conv)
qed

lemma length_fan [simp]: "length (entries_fan es) = 256"
  by (simp add: entries_fan_def)

lemma length_fan_bytes: "length (concat (map be32 (entries_fan es))) = 1024"
  using length_concat_const [of "map be32 (entries_fan es)" 4] by simp

lemma index_at_written:
  assumes es: "wf_entries es" and ph: "wf_object_id pack_hash" and d: "\<And>b. length (sha1 b) = 20"
  shows "index_at (Some (idx_data (written_index sha1 es pack_hash))) KSha1 = Ok (written_index sha1 es pack_hash)"
proof -
  define rest where "rest = concat (map te_oid es)
     @ concat (map (\<lambda>e. be32 (te_crc32 e)) es) @ concat (map be32 (offset_slots es 0))
     @ concat (map be64 (large_offsets es)) @ object_id_as_slice pack_hash @ sha1 (index_body es pack_hash)"
  let ?fanb = "concat (map be32 (entries_fan es))"
  have data: "idx_data (written_index sha1 es pack_hash) = V2_SIGNATURE @ be32 2 @ ?fanb @ rest"
    by (simp add: written_index_def index_body_def rest_def)
  have len: "40 \<le> length rest"
    using ph d by (cases pack_hash) (simp add: rest_def object_id_as_slice_def)
  have fan: "read_fan (?fanb @ rest) = Some (entries_fan es, 1024)"
    using chunks_exact_concat [of 4 "map be32 (entries_fan es)" rest]
    by (simp add: read_fan_def index_consts length_fan_bytes comp_def)
  have "filter ((\<lambda>x. hd x \<le> (255 :: u8)) \<circ> te_oid) es = es"
    using unat_lt_256 by (simp add: filter_id_conv word_le_nat_alt less_Suc_eq_le [symmetric])
  then have num: "entries_fan es ! 255 = word_of_nat (length es)"
    by (simp add: entries_fan_def)
  show ?thesis
    unfolding index_at_def data
    using len fan num
    by (simp add: Let_def index_consts V2_SIGNATURE_def length_fan_bytes kind_len_in_bytes_def
        index_version_as_u32_def data [unfolded V2_SIGNATURE_def, symmetric])
      (simp add: written_index_def index_body_def rest_def V2_SIGNATURE_def)
qed

lemma written_tables:
  assumes es: "wf_entries es" and k: "k < length es"
  shows "index_oid_at (written_index sha1 es ph) (word_of_nat k) = Some (te_oid (es ! k))"
    and "crc32_at_index (written_index sha1 es ph) (word_of_nat k) = Some (Some (te_crc32 (es ! k)))"
    and "pack_offset_at_index (written_index sha1 es ph) (word_of_nat k) = Some (te_offset (es ! k))"
proof -
  let ?f = "written_index sha1 es ph" and ?n = "length es"
  have n: "?n < 2 ^ 31" using es by (simp add: wf_entries_def)
  have u [simp]: "unat (word_of_nat j :: u32) = j" if "j \<le> ?n" for j
    using that n by (simp add: unsigned_of_nat take_bit_nat_eq_self)
  define p0 where "p0 = V2_SIGNATURE @ be32 2 @ concat (map be32 (entries_fan es))"
  define p1 where "p1 = p0 @ concat (map te_oid es)"
  define p2 where "p2 = p1 @ concat (map (\<lambda>e. be32 (te_crc32 e)) es)"
  define p3 where "p3 = p2 @ concat (map be32 (offset_slots es 0))"
  define post where "post = object_id_as_slice ph @ sha1 (index_body es ph)"
  note ps = p0_def p1_def p2_def p3_def post_def
  have l0: "length p0 = 1032" by (simp add: p0_def V2_SIGNATURE_def length_fan_bytes)
  have l1: "length p1 = 1032 + ?n * 20"
    using length_concat_const [of "map te_oid es" 20] te_oid_length [OF es] by (simp add: p1_def l0)
  have l2: "length p2 = 1032 + ?n * 20 + ?n * 4"
    using length_concat_const [of "map (\<lambda>e. be32 (te_crc32 e)) es" 4] by (simp add: p2_def l1)
  have l3: "length p3 = 1032 + ?n * 20 + ?n * 4 + ?n * 4"
    using length_concat_const [of "map be32 (offset_slots es 0)" 4] by (simp add: p3_def l2)
  have num: "num_nat ?f = ?n" by (simp add: num_nat_def written_index_def)
  have flds: "idx_version ?f = IndexV2" "idx_hash_len ?f = 20" by (simp_all add: written_index_def)
  have d: "\<exists>r. idx_data ?f = p0 @ concat (map te_oid es) @ r"
    "\<exists>r. idx_data ?f = p1 @ concat (map (\<lambda>e. be32 (te_crc32 e)) es) @ r"
    "\<exists>r. idx_data ?f = p2 @ concat (map be32 (offset_slots es 0)) @ r"
    "idx_data ?f = p3 @ concat (map be64 (large_offsets es)) @ post"
    by (auto simp: written_index_def index_body_def ps)
  note offs = offset_crc32_v2_def offset_pack_offset_v2_def offset_pack_offset64_v2_def num flds index_consts
  show "index_oid_at ?f (word_of_nat k) = Some (te_oid (es ! k))"
    using d(1) get_range_record [of "map te_oid es" 20 k "1032 + k * 20" p0] k te_oid_length [OF es]
    by (auto simp: index_oid_at_def offs l0)
  show "crc32_at_index ?f (word_of_nat k) = Some (Some (te_crc32 (es ! k)))"
    using d(2) get_range_record [of "map (\<lambda>e. be32 (te_crc32 e)) es" 4 k "1032 + ?n * 20 + k * 4" p1] k
    by (auto simp: crc32_at_index_def offs l1)
  have slot: "get_range (idx_data ?f) (1032 + ?n * 20 + ?n * 4 + k * 4) (1032 + ?n * 20 + ?n * 4 + k * 4 + 4)
      = Some (be32 (offset_slots es 0 ! k))"
    using d(3) get_range_record [of "map be32 (offset_slots es 0)" 4 k "1032 + ?n * 20 + ?n * 4 + k * 4" p2] k
    by (auto simp: l2)
  show "pack_offset_at_index ?f (word_of_nat k) = Some (te_offset (es ! k))"
  proof (cases "is_large (es ! k)")
    case True
    then obtain j where j: "j < length (large_offsets es)" "offset_slots es 0 ! k = word_of_nat j OR HIGH_BIT"
      "large_offsets es ! j = te_offset (es ! k)"
      using offset_slot [OF k, of 0] by auto
    have "length (large_offsets es) \<le> ?n" by (simp add: large_offsets_def)
    then have hb: "(word_of_nat j OR HIGH_BIT) AND N32_HIGH_BIT = N32_HIGH_BIT"
      "unat ((word_of_nat j OR HIGH_BIT) XOR N32_HIGH_BIT) = j"
      using high_bit_marks [of j] j(1) n by simp_all
    have "get_range (idx_data ?f) (length p3 + j * 8) (length p3 + j * 8 + 8) = Some (be64 (te_offset (es ! k)))"
      unfolding d(4) using get_range_record [of "map be64 (large_offsets es)" 8 j "length p3 + j * 8" p3] j(1,3) by simp
    then show ?thesis
      using slot k hb by (simp add: pack_offset_at_index_def pack_offset_from_offset_v2_def offs j(2) l3 Let_def)
  next
    case False
    then have s: "offset_slots es 0 ! k = ucast (te_offset (es ! k))" using offset_slot [OF k, of 0] by simp
    show ?thesis
      using slot k small_offset [OF False]
      by (simp add: pack_offset_at_index_def pack_offset_from_offset_v2_def offs s)
  qed
qed

lemma written_index_ids:
  assumes "wf_entries es"
  shows "index_ids (written_index sha1 es ph) = Some (map te_oid es)" and "num_nat (written_index sha1 es ph) = length es"
proof -
  have n: "length es < 2 ^ 31" using assms by (simp add: wf_entries_def)
  then show num: "num_nat (written_index sha1 es ph) = length es"
    by (simp add: num_nat_def written_index_def unsigned_of_nat take_bit_nat_eq_self)
  have "index_ids (written_index sha1 es ph) = Some (map (\<lambda>k. te_oid (es ! k)) [0..<length es])"
    unfolding index_ids_def num by (rule those_map_Some) (simp add: written_tables(1) [OF assms])
  also have "map (\<lambda>k. te_oid (es ! k)) [0..<length es] = map te_oid es" by (auto intro: nth_equalityI)
  finally show "index_ids (written_index sha1 es ph) = Some (map te_oid es)" .
qed

lemma written_index_wf:
  assumes "wf_entries es"
  shows "index_wf (written_index sha1 es ph)"
proof -
  have n: "length es < 2 ^ 31" using assms by (simp add: wf_entries_def)
  have small: "unat (word_of_nat (length (filter P es)) :: u32) = length (filter P es)" for P
  proof -
    have "length (filter P es) < 2 ^ 31" using n length_filter_le [of P es] by (rule le_less_trans [rotated])
    then show ?thesis by (simp add: unsigned_of_nat take_bit_nat_eq_self)
  qed
  have "unat (entries_fan es ! b) = length (filter (\<lambda>x. hd x \<le> word_of_nat b) (map te_oid es))" if "b < 256" for b
    using that by (simp add: entries_fan_def filter_map small)
  moreover have "sorted_wrt (\<lambda>a b. cmp_slice a b = Less) (map te_oid es)" using assms by (simp add: wf_entries_def)
  ultimately show ?thesis
    using n by (simp add: index_wf_def written_index_ids [OF assms] list_all_iff) (simp add: written_index_def)
qed

lemma chunks_of_table:
  assumes "0 < n" "\<forall>x\<in>set xs. length x = n" "data = pre @ concat xs @ post" "a = length pre" "m = length xs"
  shows "take m (chunks_exact n (drop a data)) = xs"
  using chunks_exact_concat [OF assms(1,2), of post] assms(3-5) by simp

lemma index_iter_written:
  assumes es: "wf_entries es"
  shows "index_iter (written_index sha1 es ph) =
    Some (map (\<lambda>e. \<lparr>entry_oid = te_id e, entry_offset = te_offset e, entry_crc32 = Some (te_crc32 e)\<rparr>) es)"
proof -
  let ?f = "written_index sha1 es ph" and ?n = "length es"
  let ?slots = "map be32 (offset_slots es 0)"
  have flds: "idx_version ?f = IndexV2" "idx_hash_len ?f = 20" by (simp_all add: written_index_def)
  note offs = offset_crc32_v2_def offset_pack_offset_v2_def offset_pack_offset64_v2_def written_index_ids(2) [OF es] flds index_consts
  define p0 where "p0 = V2_SIGNATURE @ be32 2 @ concat (map be32 (entries_fan es))"
  define p1 where "p1 = p0 @ concat (map te_oid es)"
  define p2 where "p2 = p1 @ concat (map (\<lambda>e. be32 (te_crc32 e)) es)"
  define p3 where "p3 = concat (map be64 (large_offsets es)) @ object_id_as_slice ph @ sha1 (index_body es ph)"
  note ps = p0_def p1_def p2_def p3_def
  have l0: "length p0 = 1032" by (simp add: p0_def V2_SIGNATURE_def length_fan_bytes)
  have l1: "length p1 = 1032 + ?n * 20"
    using length_concat_const [of "map te_oid es" 20] te_oid_length [OF es] by (simp add: p1_def l0)
  have l2: "length p2 = 1032 + ?n * 20 + ?n * 4"
    using length_concat_const [of "map (\<lambda>e. be32 (te_crc32 e)) es" 4] by (simp add: p2_def l1)
  have d: "idx_data ?f = p0 @ concat (map te_oid es) @ concat (map (\<lambda>e. be32 (te_crc32 e)) es) @ concat ?slots @ p3"
    "idx_data ?f = p1 @ concat (map (\<lambda>e. be32 (te_crc32 e)) es) @ concat ?slots @ p3"
    "idx_data ?f = p2 @ concat ?slots @ p3"
    by (simp_all add: written_index_def index_body_def ps)
  have o: "V2_HEADER_SIZE = length p0" "offset_crc32_v2 ?f = length p1" "offset_pack_offset_v2 ?f = length p2" "num_nat ?f = ?n"
    by (simp_all add: offs l0 l1 l2)
  have oids: "take ?n (chunks_exact 20 (drop (length p0) (idx_data ?f))) = map te_oid es"
    by (rule chunks_of_table [OF _ _ d(1)]) (use te_oid_length [OF es] in auto)
  have crcs: "take ?n (chunks_exact N32_SIZE (drop (length p1) (idx_data ?f))) = map (\<lambda>e. be32 (te_crc32 e)) es"
    by (rule chunks_of_table [OF _ _ d(2)]) (auto simp: N32_SIZE_def)
  have ofs: "take ?n (chunks_exact N32_SIZE (drop (length p2) (idx_data ?f))) = ?slots"
    by (rule chunks_of_table [OF _ _ d(3)]) (auto simp: N32_SIZE_def)
  have len: "\<not> length (idx_data ?f) < length p2" using arg_cong [OF d(3), of length] by simp
  let ?g = "\<lambda>(oid, crc32, ofs32).
            Option.bind (case (object_id_from_bytes_or_panic oid :: (object_id, unit) outcome) of Ok i \<Rightarrow> Some i | _ \<Rightarrow> None) (\<lambda>i.
            Option.bind (pack_offset_from_offset_v2 ?f ofs32 (offset_pack_offset64_v2 ?f)) (\<lambda>ofs.
            map_option (\<lambda>crc. \<lparr>entry_oid = i, entry_offset = ofs, entry_crc32 = Some crc\<rparr>) (read32 crc32)))"
  let ?zs = "zip (map te_oid es) (zip (map (\<lambda>e. be32 (te_crc32 e)) es) ?slots)"
  have run: "index_iter ?f = those (map ?g ?zs)"
    unfolding index_iter_def iter_v2_def Let_def flds index_version.case o oids crcs ofs
    using len by simp
  have nth: "?g (?zs ! k) = Some \<lparr>entry_oid = te_id (es ! k), entry_offset = te_offset (es ! k), entry_crc32 = Some (te_crc32 (es ! k))\<rparr>"
    if k: "k < ?n" for k
  proof -
    have "unat (word_of_nat k :: u32) = k"
      using es k by (intro unat_of_nat_small) (simp add: wf_entries_def)
    then have "pack_offset_from_offset_v2 ?f (?slots ! k) (offset_pack_offset64_v2 ?f) = Some (te_offset (es ! k))"
      using written_tables(3) [OF es k, of sha1 ph] k
        get_range_record [of ?slots 4 k "1032 + ?n * 20 + ?n * 4 + k * 4" p2 _ p3]
      by (simp add: pack_offset_at_index_def offs d(3) l2)
    moreover have "(object_id_from_bytes_or_panic (te_oid (es ! k)) :: (object_id, unit) outcome) = Ok (te_id (es ! k))"
      using te_oid_length [OF es, of "es ! k"] k
      by (cases "te_id (es ! k)") (simp add: object_id_from_bytes_or_panic_def object_id_as_slice_def)
    ultimately show ?thesis using k by simp
  qed
  have "map ?g ?zs = map (\<lambda>e. Some \<lparr>entry_oid = te_id e, entry_offset = te_offset e, entry_crc32 = Some (te_crc32 e)\<rparr>) es"
    by (rule nth_equalityI) (use nth in auto)
  then show ?thesis
    unfolding run by (simp only: those_map_Some)
qed

section \<open>Properties\<close>

definition sample_entries :: "tree_entry list" where
  "sample_entries = [\<lparr>te_id = Sha1 (1 # replicate 19 0), te_crc32 = 5, te_offset = 12\<rparr>,
     \<lparr>te_id = Sha1 (9 # replicate 19 3), te_crc32 = 6, te_offset = 0x123456789\<rparr>]"

definition sample_index :: index_file where
  "sample_index = written_index (\<lambda>_. replicate 20 0) sample_entries (Sha1 (replicate 20 1))"

lemma sample_entries_wf: "wf_entries sample_entries"
  by (simp add: sample_entries_def wf_entries_def object_id_as_slice_def cmp_def)

lemma sample_index_wf: "index_wf sample_index"
  by (simp add: sample_index_def written_index_wf sample_entries_wf)

text \<open>
  Looking up an object id in a well-formed pack index of either version, with at most \<open>2 ^ 31\<close> objects, always
  returns; it returns an index exactly if the id at that index is the one searched for.
\<close>

theorem index_lookup_correct:
  assumes "index_wf f" "length i = 20"
  shows "\<exists>r. index_lookup f i = Some (Some r) \<and>
    (\<forall>k. r = Some k \<longleftrightarrow> unat k < num_nat f \<and> index_oid_at f k = Some i)"
proof -
  have "(unat k < length (the (index_ids f)) \<and> the (index_ids f) ! unat k = i) \<longleftrightarrow>
      (unat k < num_nat f \<and> index_oid_at f k = Some i)" for k
    using index_ids_nth [OF assms(1), of k] length_index_ids [OF assms(1)] by auto
  then show ?thesis
    using index_table.lookup_finds [OF assms(2), of f] assms(1) by (simp add: checked_index_id index_lookup_def)
qed

theorem index_lookup_correct_witness:
  "\<exists>r. index_lookup sample_index (9 # replicate 19 3) = Some (Some r) \<and>
    (\<forall>k. r = Some k \<longleftrightarrow> unat k < num_nat sample_index \<and> index_oid_at sample_index k = Some (9 # replicate 19 3))"
  by (rule index_lookup_correct) (simp_all add: sample_index_wf)

text \<open>
  C24: looking up an abbreviated id always returns, with no match, one match, or an ambiguity exactly as the number
  of entries whose leading hex digits are those of the prefix is zero, one or more, and the range of candidates
  it reports is exactly the set of these entries.
\<close>

theorem index_lookup_prefix_correct:
  assumes "index_wf f" "wf_prefix p"
  shows "\<exists>r cs. index_lookup_prefix f p want = Some (Some (r, cs)) \<and>
    (let matches = {k. k < num_nat f \<and> (\<exists>x. index_oid_at f (word_of_nat k) = Some x \<and> prefix_matches p x)} in
      (case r of None \<Rightarrow> matches = {} | Some (UniqueMatch k) \<Rightarrow> matches = {unat k} | Some AmbiguousMatch \<Rightarrow> 1 < card matches) \<and>
      (case cs of None \<Rightarrow> \<not> want | Some (a, b) \<Rightarrow> want \<and> matches = {unat a..<unat b}))"
proof -
  have n: "num_nat f \<le> 2 ^ 31" using assms(1) by (simp add: index_wf_def)
  have u: "unat (word_of_nat k :: u32) = k" if "k < num_nat f" for k
    using that n by (simp add: unsigned_of_nat take_bit_nat_eq_self)
  have "{k. k < num_nat f \<and> (\<exists>x. index_oid_at f (word_of_nat k) = Some x \<and> prefix_matches p x)} =
      {k. k < length (the (index_ids f)) \<and> prefix_matches p (the (index_ids f) ! k)}"
    using index_ids_nth(1) [OF assms(1)] u by (auto simp: length_index_ids [OF assms(1)])
  then show ?thesis
    using index_table.lookup_prefix_finds [OF assms(2), of want f, unfolded checked_index_id [OF assms(1)]]
    by (simp add: index_lookup_prefix_def Let_def)
qed

theorem index_lookup_prefix_correct_witness:
  "\<exists>r cs. index_lookup_prefix sample_index \<lparr>prefix_bytes = Sha1 (9 # 3 # replicate 18 0), prefix_hex_len = 4\<rparr> True = Some (Some (r, cs))"
proof -
  have "wf_prefix \<lparr>prefix_bytes = Sha1 (9 # 3 # replicate 18 0), prefix_hex_len = 4\<rparr>" by code_simp
  from index_lookup_prefix_correct [OF sample_index_wf this, of True] show ?thesis by blast
qed

text \<open>
  C23: an index written with \<^verbatim>\<open>write_to\<close> serves every object it was written for.  For entries in ascending order of
  their ids, whatever their CRCs and 64-bit pack offsets (the ones beyond 31 bits go through the table of large
  offsets), the written file opens as a version 2 index with that many objects, looking up the id of the \<open>k\<close>-th entry gives \<open>k\<close>,
  the tables give back its pack offset and CRC at \<open>k\<close>, and no other id is found.
\<close>

theorem index_write_then_lookup:
  assumes "wf_entries es" "wf_object_id pack_hash" "\<And>b. length (sha1 b) = 20"
  shows "\<exists>data h f. index_write_to sha1 es pack_hash IndexV2 = Some (data, h) \<and>
    index_at (Some data) KSha1 = Ok f \<and> num_nat f = length es \<and>
    (\<forall>k < length es.
       index_lookup f (object_id_as_slice (te_id (es ! k))) = Some (Some (Some (word_of_nat k))) \<and>
       pack_offset_at_index f (word_of_nat k) = Some (te_offset (es ! k)) \<and>
       crc32_at_index f (word_of_nat k) = Some (Some (te_crc32 (es ! k)))) \<and>
    (\<forall>i. length i = 20 \<longrightarrow> i \<notin> set (map te_oid es) \<longrightarrow> index_lookup f i = Some (Some None))"
proof -
  let ?f = "written_index sha1 es pack_hash"
  note wf = written_index_wf [OF assms(1), of sha1 pack_hash] and ids = written_index_ids [OF assms(1), of sha1 pack_hash]
  have n: "length es < 2 ^ 31" using assms(1) by (simp add: wf_entries_def)
  have found: "\<exists>r. index_lookup ?f i = Some (Some r) \<and> (\<forall>k. r = Some k \<longleftrightarrow> unat k < length es \<and> te_oid (es ! unat k) = i)"
    if "length i = 20" for i
    using index_table.lookup_finds [OF that, of ?f] ids by (auto simp: checked_index_id [OF wf] index_lookup_def)
  have "index_lookup ?f (te_oid (es ! k)) = Some (Some (Some (word_of_nat k)))" if k: "k < length es" for k
  proof -
    have "unat (word_of_nat k :: u32) = k" using k n by (simp add: unsigned_of_nat take_bit_nat_eq_self)
    then show ?thesis using found [of "te_oid (es ! k)"] te_oid_length [OF assms(1), of "es ! k"] k by auto
  qed
  moreover have "index_lookup ?f i = Some (Some None)" if i: "length i = 20" "i \<notin> set (map te_oid es)" for i
  proof -
    obtain r where r: "index_lookup ?f i = Some (Some r)" "\<forall>k. r = Some k \<longleftrightarrow> unat k < length es \<and> te_oid (es ! unat k) = i"
      using found [OF i(1)] by auto
    have "r \<noteq> Some k" for k
      using r(2) i(2) nth_mem [of "unat k" es] by auto
    then have "r = None" by (cases r) auto
    with r(1) show ?thesis by simp
  qed
  ultimately show ?thesis
    using index_write_to_eq [OF assms(1)] index_at_written [OF assms] ids(2) written_tables(2,3) [OF assms(1)]
    by (intro exI conjI) (assumption | rule refl | simp)+
qed

theorem index_write_then_lookup_witness:
  "\<exists>data h f. index_write_to (\<lambda>_. replicate 20 0) sample_entries (Sha1 (replicate 20 1)) IndexV2 = Some (data, h) \<and>
     index_at (Some data) KSha1 = Ok f \<and>
     index_lookup f (9 # replicate 19 3) = Some (Some (Some 1)) \<and> pack_offset_at_index f 1 = Some 0x123456789"
proof -
  from index_write_then_lookup [OF sample_entries_wf, of "Sha1 (replicate 20 1)" "\<lambda>_. replicate 20 0"]
  obtain data h f where w: "index_write_to (\<lambda>_. replicate 20 0) sample_entries (Sha1 (replicate 20 1)) IndexV2 = Some (data, h)"
    "index_at (Some data) KSha1 = Ok f"
    "\<forall>k < length sample_entries.
       index_lookup f (object_id_as_slice (te_id (sample_entries ! k))) = Some (Some (Some (word_of_nat k))) \<and>
       pack_offset_at_index f (word_of_nat k) = Some (te_offset (sample_entries ! k))"
    by auto
  then have "index_lookup f (9 # replicate 19 3) = Some (Some (Some 1)) \<and> pack_offset_at_index f 1 = Some 0x123456789"
    by (elim allE [of _ 1]) (simp add: object_id_as_slice_def sample_entries_def)
  with w show ?thesis by blast
qed

end
