(* ===== verification/Gix_Chunk.thy ===== *)
theory Gix_Chunk
  imports Gix_Prelude
begin

text \<open>
  Chunk files (\<^verbatim>\<open>src/gix-chunk/src/\<close>): planning and writing a table of contents (\<^verbatim>\<open>file/write.rs\<close>), the writer that
  checks the size of each chunk, decoding the table (\<^verbatim>\<open>file/decode.rs\<close>) and finding chunks (\<^verbatim>\<open>file/index.rs\<close>).
  Offsets are 64-bit words; \<^verbatim>\<open>usize\<close> has 64 bits too, so converting an offset never fails.
\<close>

section \<open>The table of contents\<close>

type_synonym chunk_id = bytes

definition SENTINEL :: chunk_id where "SENTINEL = [0, 0, 0, 0]"

record chunk_entry =
  ce_kind :: chunk_id
  ce_start :: u64
  ce_end :: u64

record chunk_index =
  will_write :: bool
  ci_chunks :: "chunk_entry list"

datatype chunk_error =
    EarlySentinelValue
  | MissingSentinelValue chunk_id
  | ChunkSizeOutOfBounds u64 u64
  | NonIncrementalChunkOffsets
  | DuplicateChunk chunk_id
  | TocTooSmall nat nat
  | EmptyToc

datatype offset_by_kind_error = ChunkNotFound chunk_id

definition ENTRY_SIZE :: nat where "ENTRY_SIZE = 4 + 8"
definition EMPTY_SIZE :: nat where "EMPTY_SIZE = ENTRY_SIZE"

definition size_for_entries :: "nat \<Rightarrow> nat" where
  "size_for_entries num_entries = ENTRY_SIZE * (num_entries + 1)"

definition to_kind :: "bytes \<Rightarrow> (chunk_id, 'e) outcome" where
  "to_kind data = expect (get_range data 0 4)"

definition be_u64 :: "bytes \<Rightarrow> (u64, 'e) outcome" where
  "be_u64 data = and_then (expect (get_range data 0 8)) read_u64"

fun toc_loop :: "nat \<Rightarrow> u64 \<Rightarrow> bytes \<Rightarrow> chunk_entry list \<Rightarrow> (chunk_entry list \<times> bytes, chunk_error) outcome" where
  "toc_loop 0 data_len toc_entry chunks = Ok (chunks, toc_entry)"
| "toc_loop (Suc n) data_len toc_entry chunks =
     (if length toc_entry < 4 then Panic
      else
        and_then (to_kind (take 4 toc_entry)) (\<lambda>kind.
        if kind = SENTINEL then Err EarlySentinelValue
        else if list_ex (\<lambda>c. ce_kind c = kind) chunks then Err (DuplicateChunk kind)
        else
          and_then (be_u64 (drop 4 toc_entry)) (\<lambda>offset.
          if offset > data_len then Err (ChunkSizeOutOfBounds offset data_len)
          else if length toc_entry < ENTRY_SIZE then Panic
          else
            let toc_entry = drop ENTRY_SIZE toc_entry in
            if length toc_entry < 4 then Panic
            else
              and_then (be_u64 (drop 4 toc_entry)) (\<lambda>next_offset.
              if next_offset > data_len then Err (ChunkSizeOutOfBounds next_offset data_len)
              else if next_offset \<le> offset then Err NonIncrementalChunkOffsets
              else toc_loop n data_len toc_entry
                (chunks @ [\<lparr>ce_kind = kind, ce_start = offset, ce_end = next_offset\<rparr>])))))"

definition chunk_from_bytes :: "bytes \<Rightarrow> nat \<Rightarrow> u32 \<Rightarrow> (chunk_index, chunk_error) outcome" where
  "chunk_from_bytes data toc_offset num_chunks =
     (if num_chunks = 0 then Err EmptyToc
      else if length data < toc_offset then Panic
      else
        let data_len = word_of_nat (length data);
            toc_entry = drop toc_offset data;
            expected_min_size = (unat num_chunks + 1) * ENTRY_SIZE in
        if length toc_entry < expected_min_size then Err (TocTooSmall (length toc_entry) expected_min_size)
        else
          and_then (toc_loop (unat num_chunks) data_len toc_entry []) (\<lambda>(chunks, toc_entry).
          and_then (expect (get_range toc_entry 0 4)) (\<lambda>s.
          and_then (to_kind s) (\<lambda>sentinel.
          if sentinel \<noteq> SENTINEL then Err (MissingSentinelValue sentinel)
          else Ok \<lparr>will_write = False, ci_chunks = chunks\<rparr>))))"

definition offset_by_id :: "chunk_index \<Rightarrow> chunk_id \<Rightarrow> (u64 \<times> u64, offset_by_kind_error) outcome" where
  "offset_by_id ci kind =
     ok_or (map_option (\<lambda>c. (ce_start c, ce_end c)) (List.find (\<lambda>c. ce_kind c = kind) (ci_chunks ci))) (ChunkNotFound kind)"

definition into_usize :: "u64 \<times> u64 \<Rightarrow> (nat \<times> nat) option" where
  "into_usize r = Some (unat (fst r), unat (snd r))"

definition usize_offset_by_id :: "chunk_index \<Rightarrow> chunk_id \<Rightarrow> (nat \<times> nat, offset_by_kind_error) outcome" where
  "usize_offset_by_id ci kind = and_then (offset_by_id ci kind) (\<lambda>r. expect (into_usize r))"

definition validated_usize_offset_by_id ::
    "chunk_index \<Rightarrow> chunk_id \<Rightarrow> (nat \<times> nat \<Rightarrow> ('t, offset_by_kind_error) outcome) \<Rightarrow> ('t, offset_by_kind_error) outcome" where
  "validated_usize_offset_by_id ci kind validate = and_then (usize_offset_by_id ci kind) validate"

datatype data_by_kind_error = NotFound offset_by_kind_error | FileTooLarge

definition data_by_id :: "chunk_index \<Rightarrow> bytes \<Rightarrow> chunk_id \<Rightarrow> (bytes, data_by_kind_error) outcome" where
  "data_by_id ci data kind =
     and_then (map_err NotFound (offset_by_id ci kind)) (\<lambda>offset.
     and_then (ok_or (into_usize offset) FileTooLarge) (\<lambda>(a, b).
     expect (get_range data a b)))"

definition highest_offset :: "chunk_index \<Rightarrow> u64 or_panic" where
  "highest_offset ci = (if ci_chunks ci = [] then None else Some (ce_end (last (ci_chunks ci))))"

section \<open>Writing\<close>

record chunk_writer =
  cw_todo :: "chunk_entry list"
  cw_inner :: bytes
  cw_next :: "chunk_entry option"
  cw_written :: nat

definition for_writing :: chunk_index where
  "for_writing = \<lparr>will_write = True, ci_chunks = []\<rparr>"

definition plan_chunk :: "chunk_id \<Rightarrow> u64 \<Rightarrow> chunk_index \<Rightarrow> chunk_index or_panic" where
  "plan_chunk chunk exact_size_on_disk ci =
     (if \<not> will_write ci then None
      else if list_ex (\<lambda>e. ce_kind e = chunk) (ci_chunks ci) then None
      else Some (ci\<lparr>ci_chunks := ci_chunks ci @ [\<lparr>ce_kind = chunk, ce_start = 0, ce_end = exact_size_on_disk\<rparr>]\<rparr>))"

definition planned_storage_size :: "chunk_index \<Rightarrow> u64 or_panic" where
  "planned_storage_size ci = (if will_write ci then Some (sum_list (map ce_end (ci_chunks ci))) else None)"

definition num_chunks :: "chunk_index \<Rightarrow> nat" where
  "num_chunks ci = length (ci_chunks ci)"

fun write_toc :: "chunk_entry list \<Rightarrow> u64 \<Rightarrow> bytes" where
  "write_toc [] current_offset = be32 0 @ be64 current_offset"
| "write_toc (e # es) current_offset = ce_kind e @ be64 current_offset @ write_toc es (current_offset + ce_end e)"

definition into_write :: "chunk_index \<Rightarrow> bytes \<Rightarrow> nat \<Rightarrow> chunk_writer or_panic" where
  "into_write ci out current_offset =
     (if \<not> will_write ci then None
      else
        let current_offset = word_of_nat (current_offset + size_for_entries (num_chunks ci)) in
        Some \<lparr>cw_todo = ci_chunks ci, cw_inner = out @ write_toc (ci_chunks ci) current_offset,
              cw_next = None, cw_written = 0\<rparr>)"

definition chunk_write :: "bytes \<Rightarrow> chunk_writer \<Rightarrow> chunk_writer" where
  "chunk_write buf w = w\<lparr>cw_inner := cw_inner w @ buf, cw_written := cw_written w + length buf\<rparr>"

definition next_chunk :: "chunk_writer \<Rightarrow> (chunk_id option \<times> chunk_writer) or_panic" where
  "next_chunk w =
     (if (case cw_next w of None \<Rightarrow> True | Some e \<Rightarrow> ce_end e = word_of_nat (cw_written w)) then
        (case cw_todo w of
           [] \<Rightarrow> Some (None, w\<lparr>cw_written := 0, cw_next := None\<rparr>)
         | e # es \<Rightarrow> Some (Some (ce_kind e), w\<lparr>cw_written := 0, cw_next := Some e, cw_todo := es\<rparr>))
      else None)"

definition into_inner :: "chunk_writer \<Rightarrow> bytes" where
  "into_inner w = cw_inner w"

section \<open>Writing a whole file\<close>

text \<open>
  The protocol a client follows: plan every chunk with its size, write the table, then for every chunk the writer asks
  for write its data, and ask once more after the last one.
\<close>

fun plan_all :: "(chunk_id \<times> bytes) list \<Rightarrow> chunk_index \<Rightarrow> chunk_index or_panic" where
  "plan_all [] ci = Some ci"
| "plan_all ((k, d) # cs) ci = Option.bind (plan_chunk k (word_of_nat (length d)) ci) (plan_all cs)"

lemma next_chunk_todo: "next_chunk w = Some (Some k, w') \<Longrightarrow> length (cw_todo w') < length (cw_todo w)"
  by (auto simp: next_chunk_def split: if_splits list.splits)

lemma chunk_write_todo [simp]: "cw_todo (chunk_write d w) = cw_todo w"
  by (simp add: chunk_write_def)

function write_chunks :: "(chunk_id \<Rightarrow> bytes option) \<Rightarrow> chunk_writer \<Rightarrow> chunk_writer or_panic" where
  "write_chunks content w =
     (case next_chunk w of
        None \<Rightarrow> None
      | Some (None, w') \<Rightarrow> Some w'
      | Some (Some kind, w') \<Rightarrow>
          (case content kind of None \<Rightarrow> None | Some d \<Rightarrow> write_chunks content (chunk_write d w')))"
  by pat_completeness auto
termination
  by (relation "measure (\<lambda>(c, w). length (cw_todo w))") (auto dest: next_chunk_todo)

declare write_chunks.simps [simp del]

definition write_chunk_file :: "bytes \<Rightarrow> (chunk_id \<times> bytes) list \<Rightarrow> bytes or_panic" where
  "write_chunk_file header cs =
     Option.bind (plan_all cs for_writing) (\<lambda>ci.
     Option.bind (into_write ci header (length header)) (\<lambda>w.
     map_option into_inner (write_chunks (map_of cs) w)))"

section \<open>Round trip\<close>

abbreviation planned :: "chunk_id \<times> bytes \<Rightarrow> chunk_entry" where
  "planned c \<equiv> \<lparr>ce_kind = fst c, ce_start = 0, ce_end = word_of_nat (length (snd c))\<rparr>"

definition wf_chunks :: "nat \<Rightarrow> (chunk_id \<times> bytes) list \<Rightarrow> bool" where
  "wf_chunks header_len cs \<longleftrightarrow> cs \<noteq> [] \<and> length cs < 2 ^ 32 \<and> distinct (map fst cs) \<and>
     list_all (\<lambda>(k, d). length k = 4 \<and> k \<noteq> SENTINEL \<and> d \<noteq> []) cs \<and>
     header_len + size_for_entries (length cs) + sum_list (map (length \<circ> snd) cs) < 2 ^ 64"

fun chunk_ranges :: "(chunk_id \<times> bytes) list \<Rightarrow> u64 \<Rightarrow> chunk_entry list" where
  "chunk_ranges [] off = []"
| "chunk_ranges ((k, d) # cs) off =
     \<lparr>ce_kind = k, ce_start = off, ce_end = off + word_of_nat (length d)\<rparr> # chunk_ranges cs (off + word_of_nat (length d))"

lemma plan_all_eq:
  "will_write ci \<Longrightarrow> distinct (map fst cs) \<Longrightarrow> \<forall>e\<in>set (ci_chunks ci). ce_kind e \<notin> fst ` set cs \<Longrightarrow>
   plan_all cs ci = Some (ci\<lparr>ci_chunks := ci_chunks ci @ map planned cs\<rparr>)"
proof (induction cs arbitrary: ci)
  case (Cons c cs)
  obtain k d where c: "c = (k, d)" by (cases c)
  have "plan_chunk k (word_of_nat (length d)) ci = Some (ci\<lparr>ci_chunks := ci_chunks ci @ [planned c]\<rparr>)"
    using Cons.prems c by (auto simp: plan_chunk_def list_ex_iff)
  moreover have "plan_all cs (ci\<lparr>ci_chunks := ci_chunks ci @ [planned c]\<rparr>) =
      Some (ci\<lparr>ci_chunks := ci_chunks ci @ [planned c] @ map planned cs\<rparr>)"
    using Cons.IH [of "ci\<lparr>ci_chunks := ci_chunks ci @ [planned c]\<rparr>"] Cons.prems c by auto
  ultimately show ?case by (simp add: c)
qed simp

lemma write_chunks_run:
  assumes "cw_todo w = map planned cs" "case cw_next w of None \<Rightarrow> True | Some e \<Rightarrow> ce_end e = word_of_nat (cw_written w)"
    and "\<forall>(k, d)\<in>set cs. content k = Some d"
  shows "\<exists>w'. write_chunks content w = Some w' \<and> cw_inner w' = cw_inner w @ concat (map snd cs)"
  using assms
proof (induction cs arbitrary: w)
  case Nil
  then show ?case by (simp add: next_chunk_def write_chunks.simps)
next
  case (Cons c cs)
  let ?w = "chunk_write (snd c) (w\<lparr>cw_written := 0, cw_next := Some (planned c), cw_todo := map planned cs\<rparr>)"
  have "next_chunk w = Some (Some (fst c), w\<lparr>cw_written := 0, cw_next := Some (planned c), cw_todo := map planned cs\<rparr>)"
    using Cons.prems(1,2) by (simp add: next_chunk_def)
  moreover have "content (fst c) = Some (snd c)" using Cons.prems(3) by (cases c) auto
  moreover have "\<exists>w'. write_chunks content ?w = Some w' \<and> cw_inner w' = cw_inner ?w @ concat (map snd cs)"
    using Cons.prems(3) by (intro Cons.IH) (auto simp: chunk_write_def)
  ultimately show ?case by (simp add: chunk_write_def write_chunks.simps [of content w])
qed

lemma write_toc_peek:
  assumes "\<forall>e\<in>set es. length (ce_kind e) = 4"
  shows "12 \<le> length (write_toc es off)" and "get_range (drop 4 (write_toc es off @ rest)) 0 8 = Some (be64 off)"
  using assms by (cases es; auto simp: get_range_def)+

lemma toc_loop_written:
  assumes "list_all (\<lambda>(k, d). length k = 4 \<and> k \<noteq> SENTINEL \<and> d \<noteq> []) cs" "distinct (map fst cs)"
    and "\<forall>e\<in>set acc. ce_kind e \<notin> fst ` set cs"
    and "unat off + sum_list (map (length \<circ> snd) cs) \<le> unat data_len"
  shows "toc_loop (length cs) data_len (write_toc (map planned cs) off @ rest) acc =
    Ok (acc @ chunk_ranges cs off,
      be32 0 @ be64 (off + word_of_nat (sum_list (map (length \<circ> snd) cs))) @ rest)"
  using assms
proof (induction cs arbitrary: off acc)
  case (Cons c cs)
  obtain k d where c: "c = (k, d)" by (cases c)
  let ?off = "off + word_of_nat (length d)"
  let ?t = "write_toc (map planned cs) ?off @ rest"
  have kd: "length k = 4" "k \<noteq> SENTINEL" "0 < length d" using Cons.prems(1) c by auto
  have lt: "unat data_len < 2 ^ 64" using unsigned_less [where 'a = nat and w = data_len] by simp
  have ud: "unat (word_of_nat (length d) :: u64) = length d"
    using Cons.prems(4) c lt by (simp add: unsigned_of_nat take_bit_nat_eq_self)
  then have off: "unat ?off = unat off + length d"
    using Cons.prems(4) c lt by (subst unat_add_lem [THEN iffD1]) auto
  have le: "\<not> data_len < off" "\<not> data_len < ?off" "\<not> ?off \<le> off"
    using off Cons.prems(4) c kd(3) by (auto simp: word_less_nat_alt word_le_nat_alt)
  have kinds: "\<forall>e\<in>set (map planned cs). length (ce_kind e) = 4"
    using Cons.prems(1) by (auto simp: list_all_iff)
  note peek = write_toc_peek [OF kinds, of ?off]
  have new: "\<not> list_ex (\<lambda>e. ce_kind e = k) acc" using Cons.prems(3) c by (auto simp: list_ex_iff)
  let ?acc = "acc @ [\<lparr>ce_kind = k, ce_start = off, ce_end = ?off\<rparr>]"
  have "toc_loop (length (c # cs)) data_len (write_toc (map planned (c # cs)) off @ rest) acc =
      toc_loop (length cs) data_len ?t ?acc"
    using kd le new peek(1) peek(2) [of rest]
    by (simp add: c to_kind_def be_u64_def get_range_def ENTRY_SIZE_def Let_def)
  also have "\<dots> = Ok (?acc @ chunk_ranges cs ?off,
      be32 0 @ be64 (?off + word_of_nat (sum_list (map (length \<circ> snd) cs))) @ rest)"
    using Cons.prems c off by (intro Cons.IH) auto
  finally show ?case by (simp add: c add.assoc comp_def)
qed simp

lemma length_write_toc:
  "\<forall>c\<in>set cs. length (fst c) = 4 \<Longrightarrow> length (write_toc (map planned cs) off) = size_for_entries (length cs)"
  by (induction cs arbitrary: off) (simp_all add: size_for_entries_def ENTRY_SIZE_def)

lemma chunk_range_data:
  assumes "distinct (map fst cs)" "(k, d) \<in> set cs" "unat off = length pre"
    and "length pre + sum_list (map (length \<circ> snd) cs) < 2 ^ 64"
  shows "\<exists>e. List.find (\<lambda>c. ce_kind c = k) (chunk_ranges cs off) = Some e \<and>
    get_range (pre @ concat (map snd cs) @ post) (unat (ce_start e)) (unat (ce_end e)) = Some d"
  using assms
proof (induction cs arbitrary: off pre)
  case (Cons c cs)
  obtain k' d' where c: "c = (k', d')" by (cases c)
  let ?off = "off + word_of_nat (length d')"
  have ud: "unat (word_of_nat (length d') :: u64) = length d'"
    using Cons.prems(4) c by (simp add: unsigned_of_nat take_bit_nat_eq_self)
  then have off: "unat ?off = length (pre @ d')"
    using Cons.prems(3,4) c by (subst unat_add_lem [THEN iffD1]) auto
  show ?case
  proof (cases "k' = k")
    case True
    then have "d' = d" using Cons.prems(1,2) c by (auto simp: rev_image_eqI)
    with True c show ?thesis
      using off Cons.prems(3) get_range_middle [of "length pre" pre "length (pre @ d')" d' "concat (map snd cs) @ post"]
      by auto
  next
    case False
    then have "\<exists>e. List.find (\<lambda>c. ce_kind c = k) (chunk_ranges cs ?off) = Some e \<and>
        get_range ((pre @ d') @ concat (map snd cs) @ post) (unat (ce_start e)) (unat (ce_end e)) = Some d"
      using Cons.prems c off by (intro Cons.IH) auto
    then show ?thesis using c False by simp
  qed
qed simp

lemma write_chunk_file_eq:
  assumes "wf_chunks (length header) cs"
  shows "write_chunk_file header cs =
    Some (header @ write_toc (map planned cs) (word_of_nat (length header + size_for_entries (length cs))) @ concat (map snd cs))"
proof -
  have d: "distinct (map fst cs)" using assms by (simp add: wf_chunks_def)
  have plan: "plan_all cs for_writing = Some \<lparr>will_write = True, ci_chunks = map planned cs\<rparr>"
    using plan_all_eq [of for_writing cs] d by (simp add: for_writing_def)
  let ?toc = "write_toc (map planned cs) (word_of_nat (length header + size_for_entries (length cs)))"
  let ?w = "\<lparr>cw_todo = map planned cs, cw_inner = header @ ?toc, cw_next = None, cw_written = 0\<rparr>"
  have w: "into_write \<lparr>will_write = True, ci_chunks = map planned cs\<rparr> header (length header) = Some ?w"
    by (simp add: into_write_def num_chunks_def)
  have "\<exists>w'. write_chunks (map_of cs) ?w = Some w' \<and> cw_inner w' = cw_inner ?w @ concat (map snd cs)"
    using d by (intro write_chunks_run) auto
  then show ?thesis by (auto simp: write_chunk_file_def plan w into_inner_def)
qed

lemma chunk_ranges_last:
  "cs \<noteq> [] \<Longrightarrow> ce_end (last (chunk_ranges cs off)) = off + word_of_nat (sum_list (map (length \<circ> snd) cs))"
proof (induction cs off rule: chunk_ranges.induct)
  case (2 k d cs off)
  then show ?case by (cases cs) (auto simp: add.assoc)
qed simp

lemma chunk_file_written:
  assumes wf: "wf_chunks (length header) cs"
    and small: "length header + size_for_entries (length cs) + sum_list (map (length \<circ> snd) cs) + length trailer < 2 ^ 64"
  shows "\<exists>data ci. write_chunk_file header cs = Some data \<and>
    chunk_from_bytes (data @ trailer) (length header) (word_of_nat (length cs)) = Ok ci \<and>
    (\<forall>(k, d)\<in>set cs. data_by_id ci (data @ trailer) k = Ok d) \<and>
    highest_offset ci = Some (word_of_nat (length data)) \<and> map ce_kind (ci_chunks ci) = map fst cs"
proof -
  have cs: "list_all (\<lambda>(k, d). length k = 4 \<and> k \<noteq> SENTINEL \<and> d \<noteq> []) cs" "distinct (map fst cs)" "cs \<noteq> []"
    "length cs < 2 ^ 32"
    using wf by (simp_all add: wf_chunks_def)
  let ?n = "length header + size_for_entries (length cs)" and ?sum = "sum_list (map (length \<circ> snd) cs)"
  define off :: u64 where "off = word_of_nat ?n"
  let ?toc = "write_toc (map planned cs) off"
  let ?data = "header @ ?toc @ concat (map snd cs)"
  have k4: "\<forall>c\<in>set cs. length (fst c) = 4" using cs(1) by (auto simp: list_all_iff)
  have ltoc: "length ?toc = size_for_entries (length cs)" by (rule length_write_toc [OF k4])
  have lcat: "length (concat (map snd cs)) = ?sum" by (induction cs) auto
  have un: "unat off = ?n" unfolding off_def by (rule unat_of_nat_small) (use small in simp)
  let ?len = "length (?data @ trailer)"
  have ulen: "unat (word_of_nat ?len :: u64) = ?len"
    by (rule unat_of_nat_small) (use small in \<open>simp add: ltoc lcat\<close>)
  have cnt: "unat (word_of_nat (length cs) :: u32) = length cs" using cs(4) by (simp add: unsigned_of_nat take_bit_nat_eq_self)
  have pos: "(word_of_nat (length cs) :: u32) \<noteq> 0" using cnt cs(3) by auto
  have loop: "toc_loop (length cs) (word_of_nat ?len) (?toc @ concat (map snd cs) @ trailer) [] =
      Ok (chunk_ranges cs off, be32 0 @ be64 (off + word_of_nat ?sum) @ concat (map snd cs) @ trailer)"
    using toc_loop_written [OF cs(1,2), of "[]" off "word_of_nat ?len"] un ulen by (simp add: ltoc lcat)
  have "be32 0 = SENTINEL" by code_simp
  then have dec: "chunk_from_bytes (?data @ trailer) (length header) (word_of_nat (length cs)) =
      Ok \<lparr>will_write = False, ci_chunks = chunk_ranges cs off\<rparr>"
    using loop pos cnt
    by (simp add: chunk_from_bytes_def Let_def ltoc size_for_entries_def ENTRY_SIZE_def to_kind_def get_range_def SENTINEL_def)
  have found: "data_by_id \<lparr>will_write = False, ci_chunks = chunk_ranges cs off\<rparr> (?data @ trailer) k = Ok d" if "(k, d) \<in> set cs" for k d
  proof -
    have "\<exists>e. List.find (\<lambda>c. ce_kind c = k) (chunk_ranges cs off) = Some e \<and>
        get_range ((header @ ?toc) @ concat (map snd cs) @ trailer) (unat (ce_start e)) (unat (ce_end e)) = Some d"
      using small by (intro chunk_range_data [OF cs(2) that]) (simp_all add: un ltoc)
    then show ?thesis by (auto simp: data_by_id_def offset_by_id_def into_usize_def)
  qed
  have "map ce_kind (chunk_ranges cs off) = map fst cs" for off by (induction cs off rule: chunk_ranges.induct) auto
  moreover have "highest_offset \<lparr>will_write = False, ci_chunks = chunk_ranges cs off\<rparr> = Some (word_of_nat (length ?data))"
  proof -
    have dlen: "length ?data = ?n + ?sum" by (simp add: ltoc lcat)
    have "word_of_nat (length ?data) = off + word_of_nat ?sum" by (simp only: dlen) (simp only: off_def of_nat_add)
    moreover have "chunk_ranges cs off \<noteq> []" using cs(3) by (cases cs) auto
    ultimately show ?thesis
      by (simp add: highest_offset_def chunk_ranges_last [OF cs(3)] del: length_append of_nat_add)
  qed
  ultimately show ?thesis using dec found write_chunk_file_eq [OF wf, folded off_def] by (auto intro!: exI)
qed

section \<open>What a decoded table guarantees\<close>

lemma toc_loop_Ok_step:
  assumes "toc_loop (Suc n) data_len toc acc = Ok r"
  shows "\<exists>e. ce_start e < ce_end e \<and> ce_end e \<le> data_len \<and> toc_loop n data_len (drop ENTRY_SIZE toc) (acc @ [e]) = Ok r"
proof -
  from assms obtain kind a b where "a < b" "b \<le> data_len"
    "toc_loop n data_len (drop ENTRY_SIZE toc) (acc @ [\<lparr>ce_kind = kind, ce_start = a, ce_end = b\<rparr>]) = Ok r"
    by (auto simp: and_then_Ok_iff Let_def not_less not_le split: if_splits)
  then show ?thesis by (intro exI [of _ "\<lparr>ce_kind = kind, ce_start = a, ce_end = b\<rparr>"]) simp
qed

lemma toc_loop_bounds:
  assumes "toc_loop n data_len toc acc = Ok (cs, rest)" "\<forall>e\<in>set acc. ce_start e < ce_end e \<and> ce_end e \<le> data_len"
  shows "(\<forall>e\<in>set cs. ce_start e < ce_end e \<and> ce_end e \<le> data_len) \<and> length cs = length acc + n"
  using assms
proof (induction n arbitrary: toc acc)
  case (Suc n)
  from Suc.prems(1) obtain e where e: "ce_start e < ce_end e" "ce_end e \<le> data_len"
    "toc_loop n data_len (drop ENTRY_SIZE toc) (acc @ [e]) = Ok (cs, rest)"
    using toc_loop_Ok_step by blast
  from Suc.IH [OF e(3)] e(1,2) Suc.prems(2) show ?case by auto
qed simp

lemma toc_loop_no_panic:
  assumes "ENTRY_SIZE * (n + 1) \<le> length toc"
  shows "toc_loop n data_len toc acc \<noteq> Panic \<and>
    (\<forall>cs rest. toc_loop n data_len toc acc = Ok (cs, rest) \<longrightarrow> ENTRY_SIZE \<le> length rest)"
  using assms
proof (induction n arbitrary: toc acc)
  case (Suc n)
  have len: "24 \<le> length toc" "12 * (n + 1) \<le> length (drop 12 toc)" using Suc.prems by (simp_all add: ENTRY_SIZE_def)
  define w v :: u64 where "w = word_of_nat (be_nat (take 8 (drop 4 toc)))" and "v = word_of_nat (be_nat (take 8 (drop 16 toc)))"
  have reads: "be_u64 (drop 4 toc) = (Ok w :: (u64, chunk_error) outcome)" "be_u64 (drop 16 toc) = (Ok v :: (u64, chunk_error) outcome)"
    "to_kind (take 4 toc) = (Ok (take 4 toc) :: (bytes, chunk_error) outcome)"
    using len by (auto simp: be_u64_def to_kind_def get_range_def read_u64_def ENTRY_SIZE_def w_def v_def)
  show ?case
    using Suc.IH [of "drop ENTRY_SIZE toc"] len reads by (auto simp: Let_def ENTRY_SIZE_def)
qed simp

lemma chunk_from_bytes_bounds:
  assumes "chunk_from_bytes data toc_offset num = Ok ci" "length data < 2 ^ 64"
  shows "ci_chunks ci \<noteq> []" and "e \<in> set (ci_chunks ci) \<Longrightarrow> unat (ce_start e) < unat (ce_end e) \<and> unat (ce_end e) \<le> length data"
proof -
  from assms(1) obtain cs rest where cs: "toc_loop (unat num) (word_of_nat (length data)) (drop toc_offset data) [] = Ok (cs, rest)"
    "ci_chunks ci = cs" "num \<noteq> 0"
    by (auto simp: chunk_from_bytes_def Let_def and_then_Ok_iff split: if_splits)
  note b = toc_loop_bounds [OF cs(1), simplified]
  have "unat num \<noteq> 0" using cs(3) by (simp add: unat_eq_0)
  then show "ci_chunks ci \<noteq> []" using b cs(2) by auto
  have "unat (word_of_nat (length data) :: u64) = length data" using assms(2) by (intro unat_of_nat_small) simp
  then show "e \<in> set (ci_chunks ci) \<Longrightarrow> unat (ce_start e) < unat (ce_end e) \<and> unat (ce_end e) \<le> length data"
    using b cs(2) by (auto simp: word_less_nat_alt word_le_nat_alt)
qed

lemma chunk_from_bytes_no_panic: "toc_offset \<le> length data \<Longrightarrow> chunk_from_bytes data toc_offset num \<noteq> Panic"
proof
  assume le: "toc_offset \<le> length data" and p: "chunk_from_bytes data toc_offset num = Panic"
  let ?loop = "toc_loop (unat num) (word_of_nat (length data)) (drop toc_offset data) []"
  have enough: "ENTRY_SIZE * (unat num + 1) \<le> length (drop toc_offset data)"
    using p le by (auto simp: chunk_from_bytes_def Let_def mult.commute split: if_splits)
  note np = toc_loop_no_panic [OF enough, of "word_of_nat (length data)" "[]"]
  show False
  proof (cases ?loop)
    case (Ok r)
    obtain cs rest where r: "r = (cs, rest)" by (cases r)
    then have "ENTRY_SIZE \<le> length rest" using np Ok by blast
    then have "4 \<le> length rest" by (simp add: ENTRY_SIZE_def)
    then show False using p le Ok r
      by (auto simp: chunk_from_bytes_def Let_def to_kind_def get_range_def split: if_splits)
  qed (use p le np in \<open>auto simp: chunk_from_bytes_def Let_def split: if_splits\<close>)
qed

lemma offset_by_id_bounds:
  assumes "chunk_from_bytes data toc_offset num = Ok ci" "length data < 2 ^ 64" "usize_offset_by_id ci k = Ok (a, b)"
  shows "a < b \<and> b \<le> length data"
proof -
  from assms(3) obtain e where "List.find (\<lambda>c. ce_kind c = k) (ci_chunks ci) = Some e" "a = unat (ce_start e)" "b = unat (ce_end e)"
    by (auto simp: usize_offset_by_id_def offset_by_id_def into_usize_def ok_or_def split: option.splits)
  moreover from this(1) have "e \<in> set (ci_chunks ci)" by (auto simp: find_Some_iff)
  ultimately show ?thesis using chunk_from_bytes_bounds(2) [OF assms(1,2)] by blast
qed

lemma usize_offset_by_id_no_panic: "usize_offset_by_id ci k \<noteq> Panic"
  by (auto simp: usize_offset_by_id_def offset_by_id_def into_usize_def ok_or_def split: option.splits)

text \<open>
  C26: a chunk file round-trips.  If chunks with distinct non-zero ids and non-empty contents are planned and written
  in order, the file behind any header decodes to a table with these chunks, each chunk's bytes are found under
  its id, the highest offset is the end of the chunks, and whatever follows them is not part of any chunk.
\<close>

theorem chunk_file_roundtrip:
  assumes wf: "wf_chunks (length header) cs"
    and small: "length header + size_for_entries (length cs) + sum_list (map (length \<circ> snd) cs) + length trailer < 2 ^ 64"
  shows "\<exists>data ci. write_chunk_file header cs = Some data \<and>
    chunk_from_bytes (data @ trailer) (length header) (word_of_nat (length cs)) = Ok ci \<and>
    (\<forall>(k, d)\<in>set cs. data_by_id ci (data @ trailer) k = Ok d) \<and>
    highest_offset ci = Some (word_of_nat (length data)) \<and> map ce_kind (ci_chunks ci) = map fst cs"
  by (rule chunk_file_written [OF assms])

theorem chunk_file_roundtrip_witness:
  "\<exists>data ci. write_chunk_file [9] [([79, 73, 68, 70], [1, 2]), ([79, 73, 68, 76], [3])] = Some data \<and>
     chunk_from_bytes (data @ [7]) 1 2 = Ok ci \<and> data_by_id ci (data @ [7]) [79, 73, 68, 76] = Ok [3]"
proof -
  have "wf_chunks (length [9 :: u8]) [([79, 73, 68, 70], [1, 2]), ([79, 73, 68, 76], [3])]"
    by (simp add: wf_chunks_def SENTINEL_def size_for_entries_def ENTRY_SIZE_def)
  from chunk_file_roundtrip [OF this, of "[7]"] show ?thesis
    by (auto simp: size_for_entries_def ENTRY_SIZE_def)
qed

end
