(* ===== verification/Gix_Multi_Index.thy ===== *)
theory Gix_Multi_Index
  imports Gix_Pack_Index Gix_Chunk Gix_External
begin

text \<open>
  The multi-pack index (\<^verbatim>\<open>src/gix-pack/src/multi_index/\<close>): its chunks (\<^verbatim>\<open>chunk.rs\<close>), opening a file (\<^verbatim>\<open>init.rs\<close>), access
  and lookups (\<^verbatim>\<open>access.rs\<close>) and writing one from a set of pack indices (\<^verbatim>\<open>write.rs\<close>).  Paths are the bytes of a Unix path;
  the files and their modification times, the successive answers of the interrupt flag, and the SHA-1 digest are parameters.
\<close>

section \<open>Paths\<close>

text \<open>The components of a path and its order, as \<^verbatim>\<open>std::path::Path\<close> has them.\<close>

datatype path_component = RootDir | CurDir | ParentDir | Normal bytes

definition path_components :: "bytes \<Rightarrow> path_component list" where
  "path_components p =
     (let root = (p \<noteq> [] \<and> hd p = 0x2f);
          parts = split_on 0x2f p;
          cur = (\<not> root \<and> hd parts = [0x2e]) in
      (if root then [RootDir] else if cur then [CurDir] else []) @
      map (\<lambda>c. if c = [0x2e, 0x2e] then ParentDir else Normal c)
        (filter (\<lambda>c. c \<noteq> [] \<and> c \<noteq> [0x2e]) parts))"

fun component_rank :: "path_component \<Rightarrow> nat" where
  "component_rank RootDir = 1" | "component_rank CurDir = 2" | "component_rank ParentDir = 3"
| "component_rank (Normal s) = 4"

fun component_bytes :: "path_component \<Rightarrow> bytes" where
  "component_bytes (Normal s) = s" | "component_bytes _ = []"

definition component_cmp :: "path_component \<Rightarrow> path_component \<Rightarrow> ordering" where
  "component_cmp a b = then_cmp (cmp (component_rank a) (component_rank b)) (cmp_slice (component_bytes a) (component_bytes b))"

definition path_cmp :: "bytes \<Rightarrow> bytes \<Rightarrow> ordering" where
  "path_cmp a b = list_cmp component_cmp (path_components a) (path_components b)"

definition file_name :: "bytes \<Rightarrow> bytes option" where
  "file_name p =
     (case rev (path_components p) of Normal s # _ \<Rightarrow> Some s | _ \<Rightarrow> None)"

section \<open>Chunks\<close>

definition index_names_ID :: chunk_id where "index_names_ID = [0x50, 0x4e, 0x41, 0x4d]"
definition fanout_ID :: chunk_id where "fanout_ID = [0x4f, 0x49, 0x44, 0x46]"
definition lookup_ID :: chunk_id where "lookup_ID = [0x4f, 0x49, 0x44, 0x4c]"
definition offsets_ID :: chunk_id where "offsets_ID = [0x4f, 0x4f, 0x46, 0x46]"
definition large_offsets_ID :: chunk_id where "large_offsets_ID = [0x4c, 0x4f, 0x46, 0x46]"

definition CHUNK_ALIGNMENT :: nat where "CHUNK_ALIGNMENT = 4"

datatype names_error = NotOrderedAlphabetically | MissingNullByte | UnknownTrailerBytes

fun index_names_loop :: "bstr \<Rightarrow> nat \<Rightarrow> bytes \<Rightarrow> bytes list \<Rightarrow> (bytes list \<times> bytes, names_error) outcome" where
  "index_names_loop bs 0 chunk out = Ok (out, chunk)"
| "index_names_loop bs (Suc n) chunk out =
     and_then (ok_or (find_byte bs chunk 0) MissingNullByte) (\<lambda>null_byte_pos.
     and_then (expect (get_range chunk 0 null_byte_pos)) (\<lambda>path.
     if out \<noteq> [] \<and> path_cmp (last out) path \<noteq> Less then Err NotOrderedAlphabetically
     else if length chunk < null_byte_pos + 1 then Panic
     else index_names_loop bs n (drop (null_byte_pos + 1) chunk) (out @ [path])))"

definition index_names_from_bytes :: "bstr \<Rightarrow> bytes \<Rightarrow> u32 \<Rightarrow> (bytes list, names_error) outcome" where
  "index_names_from_bytes bs chunk num_packs =
     and_then (index_names_loop bs (unat num_packs) chunk []) (\<lambda>(out, chunk).
       if chunk \<noteq> [] \<and> \<not> list_all (\<lambda>b. b = 0) chunk then Err UnknownTrailerBytes else Ok out)"

definition names_padding :: "nat \<Rightarrow> nat" where
  "names_padding count =
     (let needed_alignment = CHUNK_ALIGNMENT - count mod CHUNK_ALIGNMENT in
      if needed_alignment < CHUNK_ALIGNMENT then needed_alignment else 0)"

definition index_names_storage_size :: "bytes list \<Rightarrow> nat or_panic" where
  "index_names_storage_size paths =
     (if list_all (\<lambda>p. utf8_valid p \<and> is_ascii p) paths then
        (let count = sum_list (map (\<lambda>p. length p + 1) paths) in Some (count + names_padding count))
      else None)"

definition index_names_write :: "bytes list \<Rightarrow> bytes or_panic" where
  "index_names_write paths =
     (if list_all utf8_valid paths then
        (let written_bytes = sum_list (map (\<lambda>p. length p + 1) paths) in
         Some (concat (map (\<lambda>p. p @ [0]) paths) @ replicate (names_padding written_bytes) 0))
      else None)"

record write_entry =
  we_id :: object_id
  we_pack_index :: u32
  we_pack_offset :: u64
  we_mtime :: int

definition fanout_SIZE :: nat where "fanout_SIZE = 4 * 256"

definition fanout_from_bytes :: "bytes \<Rightarrow> u32 list option" where
  "fanout_from_bytes chunk =
     (if length chunk \<noteq> fanout_SIZE then None else Some (map from_be32 (take 256 (chunks_exact 4 chunk))))"

definition fanout_write :: "write_entry list \<Rightarrow> bytes or_panic" where
  "fanout_write sorted_entries =
     Option.bind (those (map (\<lambda>e. get_at (object_id_as_slice (we_id e)) 0) sorted_entries)) (\<lambda>bytes.
     map_option (\<lambda>fan. concat (map be32 fan)) (fanout bytes))"

definition lookup_storage_size :: "nat \<Rightarrow> hash_kind \<Rightarrow> nat" where
  "lookup_storage_size entries object_hash = entries * kind_len_in_bytes object_hash"

definition lookup_write :: "write_entry list \<Rightarrow> bytes" where
  "lookup_write sorted_entries = concat (map (\<lambda>e. object_id_as_slice (we_id e)) sorted_entries)"

definition lookup_is_valid :: "nat \<times> nat \<Rightarrow> hash_kind \<Rightarrow> u32 \<Rightarrow> bool" where
  "lookup_is_valid offset hash num_objects \<longleftrightarrow> (snd offset - fst offset) div kind_len_in_bytes hash = unat num_objects"

definition offsets_storage_size :: "nat \<Rightarrow> nat" where
  "offsets_storage_size entries = entries * (4 + 4)"

fun offsets_write :: "write_entry list \<Rightarrow> bool \<Rightarrow> u32 \<Rightarrow> bytes or_panic" where
  "offsets_write [] large_offsets_needed num_large_offsets = Some []"
| "offsets_write (e # es) large_offsets_needed num_large_offsets =
     (if large_offsets_needed then
        (if we_pack_offset e > LARGE_OFFSET_THRESHOLD then
           map_option (\<lambda>out. be32 (we_pack_index e) @ be32 (num_large_offsets OR HIGH_BIT) @ out)
             (offsets_write es large_offsets_needed (num_large_offsets + 1))
         else
           map_option (\<lambda>out. be32 (we_pack_index e) @ be32 (ucast (we_pack_offset e)) @ out)
             (offsets_write es large_offsets_needed num_large_offsets))
      else if unat (we_pack_offset e) < 2 ^ 32 then
        map_option (\<lambda>out. be32 (we_pack_index e) @ be32 (ucast (we_pack_offset e)) @ out)
          (offsets_write es large_offsets_needed num_large_offsets)
      else None)"

text \<open>The division by the number of objects panics if there are none.\<close>

definition offsets_is_valid :: "nat \<times> nat \<Rightarrow> u32 \<Rightarrow> bool or_panic" where
  "offsets_is_valid offset num_objects =
     (if num_objects = 0 then None else Some ((snd offset - fst offset) div unat num_objects = 4 + 4))"

definition num_large_offsets :: "write_entry list \<Rightarrow> nat option" where
  "num_large_offsets entries =
     (if list_ex (\<lambda>e. unat (we_pack_offset e) > 2 ^ 32 - 1) entries
      then Some (length (filter (\<lambda>e. we_pack_offset e > LARGE_OFFSET_THRESHOLD) entries)) else None)"

definition large_offsets_is_valid :: "nat \<times> nat \<Rightarrow> bool" where
  "large_offsets_is_valid offset \<longleftrightarrow> (snd offset - fst offset) mod 8 = 0"

definition large_offsets_write :: "write_entry list \<Rightarrow> nat \<Rightarrow> bytes or_panic" where
  "large_offsets_write sorted_entries n =
     (let offs = map we_pack_offset (filter (\<lambda>e. we_pack_offset e > LARGE_OFFSET_THRESHOLD) sorted_entries) in
      if length offs = n then Some (concat (map be64 offs)) else None)"

definition large_offsets_storage_size :: "nat \<Rightarrow> nat" where
  "large_offsets_storage_size n = 8 * n"

section \<open>Opening a file\<close>

datatype midx_error =
    MIo
  | MCorrupt string
  | MUnsupportedVersion u8
  | MUnsupportedObjectHash u8
  | MChunkFileDecode chunk_error
  | MMissingChunk offset_by_kind_error
  | MFileTooLarge data_by_kind_error
  | MMultiPackFanSize
  | MPackNames names_error
  | MInvalidChunkSize chunk_id

record multi_index =
  mi_data :: bytes
  mi_hash_len :: nat
  mi_object_hash :: hash_kind
  mi_num_indices :: u32
  mi_num_objects :: u32
  mi_fan :: "u32 list"
  mi_index_names :: "bytes list"
  mi_lookup_ofs :: nat
  mi_offsets_ofs :: nat
  mi_large_offsets_ofs :: "nat option"

definition MIDX_SIGNATURE :: bytes where "MIDX_SIGNATURE = [0x4d, 0x49, 0x44, 0x58]"
definition HEADER_LEN :: nat where "HEADER_LEN = 4 + 1 + 1 + 1 + 1 + 4"

definition midx_validated ::
    "chunk_index \<Rightarrow> chunk_id \<Rightarrow> (nat \<times> nat \<Rightarrow> bool or_panic) \<Rightarrow> (nat \<times> nat, midx_error) outcome" where
  "midx_validated chunks k is_valid =
     and_then (map_err MMissingChunk (usize_offset_by_id chunks k)) (\<lambda>offset.
     and_then (expect (is_valid offset)) (\<lambda>ok. if ok then Ok offset else Err (MInvalidChunkSize k)))"

definition midx_at :: "bstr \<Rightarrow> bytes option \<Rightarrow> (multi_index, midx_error) outcome" where
  "midx_at bs mapped =
     and_then (ok_or mapped MIo) (\<lambda>data.
     if length data < HEADER_LEN + size_for_entries 4 + fanout_SIZE + kind_len_in_bytes kind_shortest
     then Err (MCorrupt ''multi-index file is truncated and too short'')
     else if take 4 data \<noteq> MIDX_SIGNATURE then Err (MCorrupt ''Invalid signature'')
     else if data ! 4 \<noteq> 1 then Err (MUnsupportedVersion (data ! 4))
     else
       and_then (map_err MUnsupportedObjectHash (kind_try_from (data ! 5))) (\<lambda>object_hash.
       let chunk_count = data ! 6 in
       and_then (read_u32 (take 4 (drop 8 data))) (\<lambda>num_indices.
       and_then (map_err MChunkFileDecode (chunk_from_bytes data HEADER_LEN (ucast chunk_count))) (\<lambda>chunks.
       and_then (map_err MFileTooLarge (data_by_id chunks data index_names_ID)) (\<lambda>names.
       and_then (map_err MPackNames (index_names_from_bytes bs names num_indices)) (\<lambda>index_names.
       and_then (map_err MFileTooLarge (data_by_id chunks data fanout_ID)) (\<lambda>fan.
       and_then (ok_or (fanout_from_bytes fan) MMultiPackFanSize) (\<lambda>fan.
       let num_objects = fan ! 255 in
       and_then (midx_validated chunks lookup_ID (\<lambda>r. Some (lookup_is_valid r object_hash num_objects))) (\<lambda>lookup.
       and_then (midx_validated chunks offsets_ID (\<lambda>r. offsets_is_valid r num_objects)) (\<lambda>offsets.
       and_then
         (case midx_validated chunks large_offsets_ID (\<lambda>r. Some (large_offsets_is_valid r)) of
            Err (MMissingChunk _) \<Rightarrow> Ok None | Err e \<Rightarrow> Err e | Panic \<Rightarrow> Panic | Ok r \<Rightarrow> Ok (Some r)) (\<lambda>large_offsets.
       and_then (expect (highest_offset chunks)) (\<lambda>checksum_offset.
       and_then (expect (get_range data (unat checksum_offset) (length data))) (\<lambda>trailer.
       if length trailer \<noteq> kind_len_in_bytes object_hash
       then Err (MCorrupt ''Trailing checksum did not have the expected size'')
       else Ok \<lparr>mi_data = data, mi_hash_len = kind_len_in_bytes object_hash, mi_object_hash = object_hash,
             mi_num_indices = num_indices, mi_num_objects = num_objects, mi_fan = fan, mi_index_names = index_names,
             mi_lookup_ofs = fst lookup, mi_offsets_ofs = fst offsets,
             mi_large_offsets_ofs = map_option fst large_offsets\<rparr>)))))))))))))"

section \<open>Access\<close>

definition midx_checksum :: "multi_index \<Rightarrow> (object_id, 'e) outcome" where
  "midx_checksum f =
     (if length (mi_data f) < mi_hash_len f then Panic
      else object_id_from_bytes_or_panic (drop (length (mi_data f) - mi_hash_len f) (mi_data f)))"

definition midx_oid_at :: "multi_index \<Rightarrow> u32 \<Rightarrow> oid or_panic" where
  "midx_oid_at f i =
     (let index = unat i; start = mi_lookup_ofs f + index * mi_hash_len f in
      get_range (mi_data f) start (start + mi_hash_len f))"

definition midx_lookup_prefix ::
    "multi_index \<Rightarrow> oid_prefix \<Rightarrow> bool \<Rightarrow> (prefix_match option \<times> (u32 \<times> u32) option) or_panic option" where
  "midx_lookup_prefix f p candidates = lookup_prefix p candidates (mi_fan f) (midx_oid_at f) (mi_num_objects f)"

definition midx_lookup :: "multi_index \<Rightarrow> oid \<Rightarrow> u32 option or_panic option" where
  "midx_lookup f i = lookup i (mi_fan f) (midx_oid_at f)"

definition MIDX_HIGH_BIT :: u32 where "MIDX_HIGH_BIT = push_bit 31 1"

definition pack_id_and_pack_offset_at_index :: "multi_index \<Rightarrow> u32 \<Rightarrow> (u32 \<times> u64) or_panic" where
  "pack_id_and_pack_offset_at_index f i =
     (let index = unat i; start = mi_offsets_ofs f + index * (4 + 4) in
      Option.bind (get_range (mi_data f) start (start + 4)) (\<lambda>p.
      Option.bind (read32 p) (\<lambda>pack_index.
      Option.bind (get_range (mi_data f) (start + 4) (start + 4 + 4)) (\<lambda>offset.
      Option.bind (read32 offset) (\<lambda>ofs32.
      map_option (Pair pack_index)
        (if ofs32 AND MIDX_HIGH_BIT = MIDX_HIGH_BIT then
           (case mi_large_offsets_ofs f of
              Some offsets_64 \<Rightarrow>
                (let from = offsets_64 + unat (ofs32 XOR MIDX_HIGH_BIT) * 8 in
                 Option.bind (get_range (mi_data f) from (from + 8)) read64)
            | None \<Rightarrow> Some (ucast ofs32))
         else Some (ucast ofs32)))))))"

record midx_entry =
  me_oid :: object_id
  me_pack_offset :: u64
  me_pack_index :: u32

definition midx_iter :: "multi_index \<Rightarrow> midx_entry list or_panic" where
  "midx_iter f =
     those (map (\<lambda>k. let idx = word_of_nat k in
       Option.bind (pack_id_and_pack_offset_at_index f idx) (\<lambda>(pack_index, pack_offset).
       Option.bind (midx_oid_at f idx) (\<lambda>o1.
       (case (oid_to_owned o1 :: (object_id, unit) outcome) of
          Ok i \<Rightarrow> Some \<lparr>me_oid = i, me_pack_offset = pack_offset, me_pack_index = pack_index\<rparr> | _ \<Rightarrow> None))))
       [0..<unat (mi_num_objects f)])"

section \<open>Writing from pack indices\<close>

datatype midx_write_error = Interrupted | OpenIndex index_error

text \<open>The loop that collects the entries of all indices; \<open>interrupt n\<close> is the answer of the \<open>n\<close>-th poll of the interrupt flag.\<close>

fun collect_entries ::
    "(bytes \<Rightarrow> bytes option) \<Rightarrow> (bytes \<Rightarrow> int) \<Rightarrow> (nat \<Rightarrow> bool) \<Rightarrow> hash_kind \<Rightarrow> nat \<Rightarrow> bytes list \<Rightarrow>
     (write_entry list, midx_write_error) outcome" where
  "collect_entries fs mtime interrupt object_hash index_id [] = Ok []"
| "collect_entries fs mtime interrupt object_hash index_id (p # ps) =
     and_then (map_err OpenIndex (index_at (fs p) object_hash)) (\<lambda>index.
     and_then (expect (index_iter index)) (\<lambda>es.
     let here = map (\<lambda>e. \<lparr>we_id = entry_oid e, we_pack_index = word_of_nat index_id,
           we_pack_offset = entry_offset e, we_mtime = mtime p\<rparr>) es in
     if interrupt index_id then Err Interrupted
     else
       and_then (collect_entries fs mtime interrupt object_hash (index_id + 1) ps) (\<lambda>rest. Ok (here @ rest))))"

definition we_cmp :: "write_entry \<Rightarrow> write_entry \<Rightarrow> ordering" where
  "we_cmp l r =
     then_cmp (cmp_slice (object_id_as_slice (we_id l)) (object_id_as_slice (we_id r)))
       (then_cmp (reverse_cmp (cmp (we_mtime l) (we_mtime r))) (cmp (we_pack_index l) (we_pack_index r)))"

definition sorted_unique_entries :: "write_entry list \<Rightarrow> write_entry list" where
  "sorted_unique_entries entries = dedup_by_key we_id (sort_by we_cmp entries)"

definition midx_plan :: "bytes list \<Rightarrow> write_entry list \<Rightarrow> hash_kind \<Rightarrow> chunk_index or_panic" where
  "midx_plan index_filenames_sorted entries object_hash =
     Option.bind (index_names_storage_size index_filenames_sorted) (\<lambda>names_size.
     Option.bind (plan_chunk index_names_ID (word_of_nat names_size) for_writing) (\<lambda>cf.
     Option.bind (plan_chunk fanout_ID (word_of_nat fanout_SIZE) cf) (\<lambda>cf.
     Option.bind (plan_chunk lookup_ID (word_of_nat (lookup_storage_size (length entries) object_hash)) cf) (\<lambda>cf.
     Option.bind (plan_chunk offsets_ID (word_of_nat (offsets_storage_size (length entries))) cf) (\<lambda>cf.
     (case num_large_offsets entries of
        Some n \<Rightarrow> plan_chunk large_offsets_ID (word_of_nat (large_offsets_storage_size n)) cf
      | None \<Rightarrow> Some cf))))))"

definition midx_chunk_content :: "bytes list \<Rightarrow> write_entry list \<Rightarrow> chunk_id \<Rightarrow> bytes or_panic" where
  "midx_chunk_content index_filenames_sorted entries chunk_to_write =
     (if chunk_to_write = index_names_ID then index_names_write index_filenames_sorted
      else if chunk_to_write = fanout_ID then fanout_write entries
      else if chunk_to_write = lookup_ID then Some (lookup_write entries)
      else if chunk_to_write = offsets_ID then offsets_write entries (num_large_offsets entries \<noteq> None) 0
      else if chunk_to_write = large_offsets_ID then Option.bind (num_large_offsets entries) (large_offsets_write entries)
      else None)"

definition midx_write_header :: "u8 \<Rightarrow> u32 \<Rightarrow> hash_kind \<Rightarrow> bytes" where
  "midx_write_header chunk_count num_indices object_hash =
     MIDX_SIGNATURE @ [1] @ [kind_as_u8 object_hash] @ [chunk_count] @ [0] @ be32 num_indices"

function midx_write_loop ::
    "(chunk_id \<Rightarrow> bytes or_panic) \<Rightarrow> (nat \<Rightarrow> bool) \<Rightarrow> nat \<Rightarrow> chunk_writer \<Rightarrow> (chunk_writer, midx_write_error) outcome" where
  "midx_write_loop content interrupt poll w =
     (case next_chunk w of
        None \<Rightarrow> Panic
      | Some (None, w') \<Rightarrow> Ok w'
      | Some (Some kind, w') \<Rightarrow>
          (case content kind of
             None \<Rightarrow> Panic
           | Some d \<Rightarrow>
               if interrupt poll then Err Interrupted
               else midx_write_loop content interrupt (poll + 1) (chunk_write d w')))"
  by pat_completeness auto
termination
  by (relation "measure (\<lambda>(c, i, n, w). length (cw_todo w))") (auto dest: next_chunk_todo)

declare midx_write_loop.simps [simp del]

definition write_from_index_paths ::
    "(bytes \<Rightarrow> bytes) \<Rightarrow> (bytes \<Rightarrow> bytes option) \<Rightarrow> (bytes \<Rightarrow> int) \<Rightarrow> (nat \<Rightarrow> bool) \<Rightarrow> bytes list \<Rightarrow> hash_kind \<Rightarrow>
     (bytes \<times> object_id, midx_write_error) outcome" where
  "write_from_index_paths sha1 fs mtime interrupt index_paths object_hash =
     (let index_paths_sorted = sort_by path_cmp index_paths in
      and_then (expect (those (map file_name index_paths_sorted))) (\<lambda>index_filenames_sorted.
      and_then (collect_entries fs mtime interrupt object_hash 0 index_paths_sorted) (\<lambda>entries.
      let entries = sorted_unique_entries entries in
      if interrupt (length index_paths_sorted) then Err Interrupted
      else
        and_then (expect (midx_plan index_filenames_sorted entries object_hash)) (\<lambda>cf.
        let header = midx_write_header (word_of_nat (num_chunks cf)) (word_of_nat (length index_paths_sorted)) object_hash in
        and_then (expect (into_write cf header HEADER_LEN)) (\<lambda>w.
        and_then (midx_write_loop (midx_chunk_content index_filenames_sorted entries) interrupt
            (length index_paths_sorted + 1) w) (\<lambda>w.
        let out = into_inner w; multi_index_checksum = sha1 out in
        Ok (out @ multi_index_checksum, Sha1 multi_index_checksum)))))))"

section \<open>Sorting and deduplication\<close>

abbreviation we_oid :: "write_entry \<Rightarrow> oid" where "we_oid e \<equiv> object_id_as_slice (we_id e)"

interpretation we_order: comparator we_cmp
  unfolding we_cmp_def [abs_def]
  by (rule comparator_then [OF comparator_key [OF cmp_slice.comparator_axioms, where f = we_oid]
      comparator_then [OF comparator_reverse [OF comparator_key [OF cmp.comparator_axioms, where f = we_mtime]]
        comparator_key [OF cmp.comparator_axioms, where f = we_pack_index]]])

lemma component_comparator: "comparator component_cmp"
  unfolding component_cmp_def [abs_def]
  by (rule comparator_then [OF comparator_key [OF cmp.comparator_axioms, where f = component_rank]
      comparator_key [OF cmp_slice.comparator_axioms, where f = component_bytes]])

interpretation path_order: comparator path_cmp
  unfolding path_cmp_def [abs_def]
  by (rule comparator_key [OF comparator_list [OF component_comparator], where f = path_components])

interpretation oid_order: comparator "\<lambda>a b. cmp_slice (we_oid a) (we_oid b)"
  by (rule comparator_key [OF cmp_slice.comparator_axioms])

lemma we_id_eq_iff: "we_id a = we_id b \<longleftrightarrow> cmp_slice (we_oid a) (we_oid b) = Equal"
  by (cases "we_id a"; cases "we_id b") (simp add: object_id_as_slice_def)

lemma sorted_unique_ascending:
  "sorted_wrt (\<lambda>a b. cmp_slice (we_oid a) (we_oid b) = Less) (sorted_unique_entries es)"
  "set (sorted_unique_entries es) \<subseteq> set es"
proof -
  have "sorted_wrt (\<lambda>a b. cmp_slice (we_oid a) (we_oid b) \<noteq> Greater) (sort_by we_cmp es)"
    using we_order.sort_by_sorted [of es]
    by (rule sorted_wrt_mono_rel [rotated]) (auto simp: we_cmp_def then_cmp_Greater_iff)
  from oid_order.dedup_strict [where f = we_id, OF we_id_eq_iff this]
  show "sorted_wrt (\<lambda>a b. cmp_slice (we_oid a) (we_oid b) = Less) (sorted_unique_entries es)"
    "set (sorted_unique_entries es) \<subseteq> set es"
    by (simp_all add: sorted_unique_entries_def)
qed

lemma sorted_unique_preferred:
  "e \<in> set es \<Longrightarrow> \<exists>e'\<in>set (sorted_unique_entries es). we_id e' = we_id e \<and> we_cmp e' e \<noteq> Greater"
  using we_order.dedup_least [OF we_order.sort_by_sorted, of e es we_id] by (simp add: sorted_unique_entries_def)

section \<open>Well-formed multi-pack indices are sorted tables\<close>

definition midx_ids :: "multi_index \<Rightarrow> oid list option" where
  "midx_ids f = those (map (\<lambda>k. midx_oid_at f (word_of_nat k)) [0..<unat (mi_num_objects f)])"

definition midx_wf :: "multi_index \<Rightarrow> bool" where
  "midx_wf f \<longleftrightarrow> unat (mi_num_objects f) \<le> 2 ^ 31 \<and> mi_hash_len f = 20 \<and>
     (case midx_ids f of
        None \<Rightarrow> False
      | Some ids \<Rightarrow> sorted_wrt (\<lambda>a b. cmp_slice a b = Less) ids \<and>
          list_all (\<lambda>b. unat (mi_fan f ! b) = length (filter (\<lambda>x. hd x \<le> word_of_nat b) ids)) [0..<256])"

definition empty_midx :: multi_index where
  "empty_midx = \<lparr>mi_data = [], mi_hash_len = 20, mi_object_hash = KSha1, mi_num_indices = 0, mi_num_objects = 0,
     mi_fan = replicate 256 0, mi_index_names = [], mi_lookup_ofs = 0, mi_offsets_ofs = 0, mi_large_offsets_ofs = None\<rparr>"

definition checked_midx :: "multi_index \<Rightarrow> multi_index" where
  "checked_midx f = (if midx_wf f then f else empty_midx)"

lemma midx_wf_checked: "midx_wf (checked_midx f)"
  by (simp add: checked_midx_def midx_wf_def midx_ids_def empty_midx_def list_all_iff)

lemma midx_wf_table:
  assumes "midx_wf f"
  shows "oid_table (the (midx_ids f)) (mi_fan f) (midx_oid_at f) (mi_num_objects f)"
proof -
  from assms obtain ids where ids: "midx_ids f = Some ids"
    and wf: "unat (mi_num_objects f) \<le> 2 ^ 31" "mi_hash_len f = 20" "sorted_wrt (\<lambda>a b. cmp_slice a b = Less) ids"
      "list_all (\<lambda>b. unat (mi_fan f ! b) = length (filter (\<lambda>x. hd x \<le> word_of_nat b) ids)) [0..<256]"
    by (auto simp: midx_wf_def split: option.splits)
  note nth = those_nth [OF ids [unfolded midx_ids_def]]
  have len: "length ids = unat (mi_num_objects f)" using those_length [OF ids [unfolded midx_ids_def]] by simp
  have at: "midx_oid_at f w = Some (ids ! unat w)" if "unat w < length ids" for w
    using nth [of "unat w"] that len by simp
  have fan: "unat (mi_fan f ! unat b) = length (filter (\<lambda>x. hd x \<le> b) ids)" for b :: u8
    using wf(4) unat_lt_256 [of b] by (auto simp: list_all_iff)
  have l20: "length x = 20" if x: "x \<in> set ids" for x
  proof -
    obtain k where k: "k < length ids" "ids ! k = x" using x by (auto simp: in_set_conv_nth)
    then have "midx_oid_at f (word_of_nat k) = Some x" using nth [of k] len by simp
    then show ?thesis using wf(2) by (auto simp: midx_oid_at_def get_range_Some Let_def)
  qed
  show ?thesis
    using wf len at fan l20 ids by unfold_locales simp_all
qed

interpretation midx_table: oid_table "the (midx_ids (checked_midx f))" "mi_fan (checked_midx f)"
  "midx_oid_at (checked_midx f)" "mi_num_objects (checked_midx f)" for f
  by (rule midx_wf_table [OF midx_wf_checked])

lemma checked_midx_id: "midx_wf f \<Longrightarrow> checked_midx f = f"
  by (simp add: checked_midx_def)

section \<open>The contents of the chunks\<close>

definition names_ok :: "bytes list \<Rightarrow> bool" where
  "names_ok names \<longleftrightarrow> names \<noteq> [] \<and> list_all (\<lambda>p. is_ascii p \<and> 0 \<notin> set p) names \<and>
     sorted_wrt (\<lambda>a b. path_cmp a b = Less) names \<and> sum_list (map (\<lambda>p. length p + 1) names) < 2 ^ 31"

definition names_bytes :: "bytes list \<Rightarrow> bytes" where
  "names_bytes names = concat (map (\<lambda>p. p @ [0]) names) @ replicate (names_padding (sum_list (map (\<lambda>p. length p + 1) names))) 0"

lemma names_padding_less: "names_padding n < 4"
  by (simp add: names_padding_def CHUNK_ALIGNMENT_def Let_def)

lemma names_bytes_size:
  assumes "names_ok names"
  shows "index_names_storage_size names = Some (length (names_bytes names))" and "index_names_write names = Some (names_bytes names)"
    and "names_bytes names \<noteq> []" and "length (names_bytes names) < 2 ^ 32"
proof -
  have u: "list_all utf8_valid names" "list_all (\<lambda>p. utf8_valid p \<and> is_ascii p) names"
    using assms by (auto simp: names_ok_def list_all_iff ascii_utf8_valid)
  have l: "length (concat (map (\<lambda>p. p @ [0 :: u8]) names)) = sum_list (map (\<lambda>p. length p + 1) names)"
    by (induction names) simp_all
  show "index_names_storage_size names = Some (length (names_bytes names))" "index_names_write names = Some (names_bytes names)"
    using u l by (simp_all add: index_names_storage_size_def index_names_write_def names_bytes_def Let_def)
  show "names_bytes names \<noteq> []" using assms by (cases names) (auto simp: names_ok_def names_bytes_def)
  show "length (names_bytes names) < 2 ^ 32"
    using assms l names_padding_less [of "sum_list (map (\<lambda>p. length p + 1) names)"]
    by (simp add: names_ok_def names_bytes_def)
qed

lemma position_terminator: "0 \<notin> set p \<Longrightarrow> position (\<lambda>c. c = (0 :: u8)) (p @ 0 # rest) = Some (length p)"
  by (induction p) auto

lemma index_names_loop_reads:
  assumes bs: "bstr_spec bs"
  shows "list_all (\<lambda>p. 0 \<notin> set p) names \<Longrightarrow> sorted_wrt (\<lambda>a b. path_cmp a b = Less) names \<Longrightarrow>
    (out = [] \<or> (\<forall>p\<in>set names. path_cmp (last out) p = Less)) \<Longrightarrow>
    index_names_loop bs (length names) (concat (map (\<lambda>p. p @ [0]) names) @ rest) out = Ok (out @ names, rest)"
proof (induction names arbitrary: out)
  case (Cons p ps)
  have "find_byte bs (p @ 0 # concat (map (\<lambda>p. p @ [0]) ps) @ rest) 0 = Some (length p)"
    using Cons.prems(1) by (simp add: bstr_spec.find_byte [OF bs] position_terminator)
  moreover have "get_range (p @ 0 # concat (map (\<lambda>p. p @ [0]) ps) @ rest) 0 (length p) = Some p" by simp
  moreover have "index_names_loop bs (length ps) (concat (map (\<lambda>p. p @ [0]) ps) @ rest) (out @ [p]) = Ok ((out @ [p]) @ ps, rest)"
    using Cons.prems by (intro Cons.IH) auto
  ultimately show ?case using Cons.prems(3) by auto
qed simp

lemma index_names_read:
  assumes "bstr_spec bs" "names_ok names"
  shows "index_names_from_bytes bs (names_bytes names) (word_of_nat (length names)) = Ok names"
proof -
  have "length names \<le> sum_list (map (\<lambda>p. length p + 1) names)" by (induction names) simp_all
  then have u: "unat (word_of_nat (length names) :: u32) = length names"
    using assms(2) by (intro unat_of_nat_small) (simp add: names_ok_def)
  have "index_names_loop bs (length names) (names_bytes names) [] =
      Ok (names, replicate (names_padding (sum_list (map (\<lambda>p. length p + 1) names))) 0)"
    using index_names_loop_reads [OF assms(1), of names "[]"] assms(2) by (simp add: names_ok_def names_bytes_def list_all_iff)
  then show ?thesis by (simp add: index_names_from_bytes_def u list_all_iff)
qed

text \<open>The entries as the pack index writer would see them, and the records of the offset chunk.\<close>

definition to_te :: "write_entry \<Rightarrow> tree_entry" where
  "to_te e = \<lparr>te_id = we_id e, te_crc32 = 0, te_offset = we_pack_offset e\<rparr>"

lemma to_te_simps [simp]: "te_id (to_te e) = we_id e" "te_offset (to_te e) = we_pack_offset e"
  by (simp_all add: to_te_def)

definition midx_slots :: "write_entry list \<Rightarrow> u32 list" where
  "midx_slots es = (if num_large_offsets es = None then map (\<lambda>e. ucast (we_pack_offset e)) es else offset_slots (map to_te es) 0)"

definition offset_records :: "write_entry list \<Rightarrow> bytes list" where
  "offset_records es = map2 (\<lambda>e s. be32 (we_pack_index e) @ be32 s) es (midx_slots es)"

lemma length_midx_slots [simp]: "length (midx_slots es) = length es"
  by (simp add: midx_slots_def)

lemma offset_records_shape: "length (offset_records es) = length es" "\<forall>x\<in>set (offset_records es). length x = 8"
  by (auto simp: offset_records_def)

lemma offsets_write_large:
  "offsets_write es True (word_of_nat n) =
     Some (concat (map2 (\<lambda>e s. be32 (we_pack_index e) @ be32 s) es (offset_slots (map to_te es) n)))"
proof (induction es arbitrary: n)
  case (Cons e es)
  have "word_of_nat n + 1 = (word_of_nat (Suc n) :: u32)" by simp
  then show ?case using Cons.IH [of n] Cons.IH [of "Suc n"]
    by (simp add: is_large_def del: of_nat_Suc)
qed simp

lemma offsets_write_small:
  "list_all (\<lambda>e. unat (we_pack_offset e) < 2 ^ 32) es \<Longrightarrow> offsets_write es False n =
     Some (concat (map2 (\<lambda>e s. be32 (we_pack_index e) @ be32 s) es (map (\<lambda>e. ucast (we_pack_offset e)) es)))"
  by (induction es) simp_all

lemma num_large_None: "num_large_offsets es = None \<longleftrightarrow> list_all (\<lambda>e. unat (we_pack_offset e) < 2 ^ 32) es"
  by (force simp: num_large_offsets_def list_ex_iff list_all_iff)

lemma offsets_write_eq: "offsets_write es (num_large_offsets es \<noteq> None) 0 = Some (concat (offset_records es))"
proof (cases "num_large_offsets es")
  case None
  then show ?thesis
    using offsets_write_small [of es 0] num_large_None [of es] by (simp add: offset_records_def midx_slots_def)
next
  case (Some n)
  then show ?thesis
    using offsets_write_large [of es 0] by (simp add: offset_records_def midx_slots_def)
qed

definition wf_write_entries :: "write_entry list \<Rightarrow> bool" where
  "wf_write_entries es \<longleftrightarrow> es \<noteq> [] \<and> wf_entries (map to_te es)"

definition midx_chunks :: "bytes list \<Rightarrow> write_entry list \<Rightarrow> (chunk_id \<times> bytes) list" where
  "midx_chunks names es =
     [(index_names_ID, names_bytes names), (fanout_ID, concat (map be32 (entries_fan (map to_te es)))),
      (lookup_ID, concat (map we_oid es)), (offsets_ID, concat (offset_records es))] @
     (if num_large_offsets es = None then [] else [(large_offsets_ID, concat (map be64 (large_offsets (map to_te es))))])"

lemmas chunk_ids = index_names_ID_def fanout_ID_def lookup_ID_def offsets_ID_def large_offsets_ID_def

lemma large_filter: "map we_pack_offset (filter (\<lambda>e. we_pack_offset e > LARGE_OFFSET_THRESHOLD) es) = large_offsets (map to_te es)"
  by (simp add: large_offsets_def filter_map comp_def is_large_def)

lemma num_large_Some: "num_large_offsets es = Some n \<Longrightarrow> n = length (large_offsets (map to_te es)) \<and> 0 < n"
proof -
  assume a: "num_large_offsets es = Some n"
  then obtain e where e: "e \<in> set es" "unat (we_pack_offset e) > 2 ^ 32 - 1"
    by (auto simp: num_large_offsets_def list_ex_iff split: if_splits)
  then have "is_large (to_te e)"
    by (simp add: is_large_def LARGE_OFFSET_THRESHOLD_def word_less_nat_alt)
  with e(1) have "0 < length (large_offsets (map to_te es))" by (force simp: large_offsets_def filter_empty_conv)
  with a show ?thesis
    by (auto simp: num_large_offsets_def large_offsets_def filter_map comp_def is_large_def split: if_splits)
qed

lemma chunk_sizes:
  assumes "wf_write_entries es"
  shows "length (concat (map be32 (entries_fan (map to_te es)))) = fanout_SIZE"
    and "length (concat (map we_oid es)) = lookup_storage_size (length es) KSha1"
    and "length (concat (offset_records es)) = offsets_storage_size (length es)"
    and "length (concat (map be64 (large_offsets (map to_te es)))) = large_offsets_storage_size (length (large_offsets (map to_te es)))"
proof -
  have "length (we_oid e) = 20" if "e \<in> set es" for e
    using te_oid_length [of "map to_te es" "to_te e"] assms that by (auto simp: wf_write_entries_def)
  then show "length (concat (map we_oid es)) = lookup_storage_size (length es) KSha1"
    using length_concat_const [of "map we_oid es" 20] by (simp add: lookup_storage_size_def kind_len_in_bytes_def)
  show "length (concat (offset_records es)) = offsets_storage_size (length es)"
    using length_concat_const [OF offset_records_shape(2)] by (simp add: offset_records_shape offsets_storage_size_def)
  show "length (concat (map be64 (large_offsets (map to_te es)))) = large_offsets_storage_size (length (large_offsets (map to_te es)))"
    using length_concat_const [of "map be64 (large_offsets (map to_te es))" 8] by (simp add: large_offsets_storage_size_def)
qed (simp add: length_fan_bytes fanout_SIZE_def)

lemma midx_plan_eq:
  assumes "names_ok names" "wf_write_entries es"
  shows "midx_plan names es KSha1 = Some \<lparr>will_write = True, ci_chunks = map planned (midx_chunks names es)\<rparr>"
proof (cases "num_large_offsets es")
  case None
  then show ?thesis
    by (simp add: midx_plan_def names_bytes_size [OF assms(1)] plan_chunk_def for_writing_def chunk_ids midx_chunks_def
        chunk_sizes [OF assms(2)])
next
  case (Some n)
  then show ?thesis
    using num_large_Some [OF Some]
    by (simp add: midx_plan_def names_bytes_size [OF assms(1)] plan_chunk_def for_writing_def chunk_ids midx_chunks_def
        chunk_sizes [OF assms(2)])
qed

lemma fanout_write_eq:
  assumes "wf_write_entries es"
  shows "fanout_write es = Some (concat (map be32 (entries_fan (map to_te es))))"
  using fanout_entries [of "map to_te es"] assms
  by (auto simp: fanout_write_def wf_write_entries_def comp_def bind_eq_Some_conv)

lemma midx_content_eq:
  assumes "names_ok names" "wf_write_entries es" "(k, d) \<in> set (midx_chunks names es)"
  shows "midx_chunk_content names es k = Some d"
proof (cases "num_large_offsets es")
  case None
  then show ?thesis using assms(3) offsets_write_eq [of es]
    by (auto simp: midx_chunks_def midx_chunk_content_def chunk_ids names_bytes_size [OF assms(1)]
        fanout_write_eq [OF assms(2)] lookup_write_def)
next
  case (Some n)
  have "large_offsets_write es n = Some (concat (map be64 (large_offsets (map to_te es))))"
    using num_large_Some [OF Some] by (simp add: large_offsets_write_def large_filter)
  then show ?thesis using assms(3) offsets_write_eq [of es] Some
    by (auto simp: midx_chunks_def midx_chunk_content_def chunk_ids names_bytes_size [OF assms(1)]
        fanout_write_eq [OF assms(2)] lookup_write_def)
qed

lemma midx_chunks_wf:
  assumes names: "names_ok names" and es: "wf_write_entries es"
  shows "wf_chunks 12 (midx_chunks names es)"
    and "12 + size_for_entries (length (midx_chunks names es)) + sum_list (map (length \<circ> snd) (midx_chunks names es)) < 2 ^ 40"
proof -
  have n: "length es < 2 ^ 31" "es \<noteq> []" using es by (simp_all add: wf_write_entries_def wf_entries_def)
  have "length (large_offsets (map to_te es)) \<le> length es"
    using length_filter_le [of is_large "map to_te es"] by (simp add: large_offsets_def)
  then have large: "length (large_offsets (map to_te es)) < 2 ^ 31" using n by simp
  have pos: "0 < length (large_offsets (map to_te es))" if "num_large_offsets es \<noteq> None"
    using num_large_Some that by blast
  note sizes = chunk_sizes [OF es] names_bytes_size(4) [OF names]
  have sum: "sum_list (map (length \<circ> snd) (midx_chunks names es)) =
      length (names_bytes names) + 1024 + length es * 20 + length es * 8 +
      (if num_large_offsets es = None then 0 else 8 * length (large_offsets (map to_te es)))"
    by (simp add: midx_chunks_def sizes fanout_SIZE_def lookup_storage_size_def offsets_storage_size_def
        large_offsets_storage_size_def kind_len_in_bytes_def)
  have cnt: "length (midx_chunks names es) \<le> 5" by (simp add: midx_chunks_def)
  show total: "12 + size_for_entries (length (midx_chunks names es)) + sum_list (map (length \<circ> snd) (midx_chunks names es)) < 2 ^ 40"
    using n(1) large sizes(5) cnt unfolding sum size_for_entries_def ENTRY_SIZE_def by simp
  have nonempty: "xs \<noteq> []" if "length xs = m" "0 < m" for xs :: bytes and m using that by auto
  have ne: "concat (map be32 (entries_fan (map to_te es))) \<noteq> []" "concat (map we_oid es) \<noteq> []" "concat (offset_records es) \<noteq> []"
    by (rule nonempty [OF sizes(1)], simp add: fanout_SIZE_def,
        rule nonempty [OF sizes(2)], use n(2) in \<open>simp add: lookup_storage_size_def kind_len_in_bytes_def\<close>,
        rule nonempty [OF sizes(3)], use n(2) in \<open>simp add: offsets_storage_size_def\<close>)
  have ne4: "concat (map be64 (large_offsets (map to_te es))) \<noteq> []" if "num_large_offsets es \<noteq> None"
    using pos [OF that] by (intro nonempty [OF sizes(4)]) (simp add: large_offsets_storage_size_def)
  have "list_all (\<lambda>(k, d). length k = 4 \<and> k \<noteq> SENTINEL \<and> d \<noteq> []) (midx_chunks names es)"
    using ne ne4 names_bytes_size(3) [OF names] unfolding midx_chunks_def chunk_ids SENTINEL_def
    by (simp del: concat_eq_Nil_conv)
  moreover have "distinct (map fst (midx_chunks names es))" by (simp add: midx_chunks_def chunk_ids)
  ultimately show "wf_chunks 12 (midx_chunks names es)"
    using total cnt by (simp add: wf_chunks_def) (simp add: midx_chunks_def)
qed

section \<open>Writing and opening\<close>

lemma midx_write_loop_uninterrupted:
  "midx_write_loop content (\<lambda>_. False) n w = (case write_chunks content w of None \<Rightarrow> Panic | Some w' \<Rightarrow> Ok w')"
proof (induction content w arbitrary: n rule: write_chunks.induct)
  case (1 content w)
  then show ?case
    by (auto simp: midx_write_loop.simps [of content "\<lambda>_. False" n w] write_chunks.simps [of content w] split: option.splits)
qed

definition midx_header :: "bytes list \<Rightarrow> write_entry list \<Rightarrow> bytes" where
  "midx_header names es = midx_write_header (word_of_nat (length (midx_chunks names es))) (word_of_nat (length names)) KSha1"

lemma length_midx_header [simp]: "length (midx_header names es) = 12"
  by (simp add: midx_header_def midx_write_header_def MIDX_SIGNATURE_def)

lemma write_from_index_paths_eq:
  assumes "those (map file_name (sort_by path_cmp paths)) = Some names" "names_ok names"
    and "collect_entries fs mtime (\<lambda>_. False) KSha1 0 (sort_by path_cmp paths) = Ok es"
    and wf: "wf_write_entries (sorted_unique_entries es)"
    and data: "write_chunk_file (midx_header names (sorted_unique_entries es)) (midx_chunks names (sorted_unique_entries es)) = Some data"
  shows "write_from_index_paths sha1 fs mtime (\<lambda>_. False) paths KSha1 = Ok (data @ sha1 data, Sha1 (sha1 data))"
proof -
  let ?es = "sorted_unique_entries es"
  let ?cs = "midx_chunks names ?es" and ?h = "midx_header names ?es"
  have len: "length names = length paths" using those_length [OF assms(1)] by simp
  define w where "w = \<lparr>cw_todo = map planned ?cs,
    cw_inner = ?h @ write_toc (map planned ?cs) (word_of_nat (12 + size_for_entries (length ?cs))), cw_next = None, cw_written = 0\<rparr>"
  have "\<exists>w'. write_chunks (midx_chunk_content names ?es) w = Some w' \<and> cw_inner w' = cw_inner w @ concat (map snd ?cs)"
    by (rule write_chunks_run) (auto simp: w_def intro: midx_content_eq [OF assms(2) wf])
  then obtain w' where w': "write_chunks (midx_chunk_content names ?es) w = Some w'" "cw_inner w' = cw_inner w @ concat (map snd ?cs)"
    by blast
  have d: "cw_inner w' = data"
    using write_chunk_file_eq [of ?h ?cs] midx_chunks_wf(1) [OF assms(2) wf] data w'(2) by (simp add: w_def)
  have iw: "into_write \<lparr>will_write = True, ci_chunks = map planned ?cs\<rparr> ?h HEADER_LEN = Some w"
    by (simp add: into_write_def num_chunks_def HEADER_LEN_def w_def)
  have h: "midx_write_header (word_of_nat (length ?cs)) (word_of_nat (length paths)) KSha1 = ?h"
    by (simp add: midx_header_def len)
  show ?thesis
    unfolding write_from_index_paths_def Let_def
    by (simp add: assms(1,3) midx_plan_eq [OF assms(2) wf] num_chunks_def midx_write_loop_uninterrupted into_inner_def
        h iw w'(1) d)
qed

lemma get_range_split:
  "get_range xs a b = Some ys \<Longrightarrow> \<exists>pre post. xs = pre @ ys @ post \<and> length pre = a \<and> b = a + length ys"
proof -
  assume "get_range xs a b = Some ys"
  then have h: "a \<le> b" "b \<le> length xs" "ys = take (b - a) (drop a xs)" by (auto simp: get_range_Some)
  then have "xs = take a xs @ ys @ drop (b - a) (drop a xs)" by (simp only: append_take_drop_id)
  moreover have "length (take a xs) = a" "b = a + length ys" using h by simp_all
  ultimately show ?thesis by blast
qed

lemma data_by_id_range:
  assumes "data_by_id ci data k = Ok d"
  shows "\<exists>pre post. usize_offset_by_id ci k = Ok (length pre, length pre + length d) \<and> data = pre @ d @ post"
proof -
  from assms obtain a b where ab: "offset_by_id ci k = Ok (a, b)" "get_range data (unat a) (unat b) = Some d"
    by (cases "offset_by_id ci k") (auto simp: data_by_id_def into_usize_def expect_def split: option.splits)
  from get_range_split [OF ab(2)] obtain pre post where
    "data = pre @ d @ post" "length pre = unat a" "unat b = unat a + length d" by blast
  with ab(1) show ?thesis by (intro exI [of _ pre] exI [of _ post]) (simp add: usize_offset_by_id_def into_usize_def)
qed

lemma no_large_chunk:
  assumes "map ce_kind (ci_chunks ci) = map fst cs" "k \<notin> fst ` set cs"
  shows "usize_offset_by_id ci k = Err (ChunkNotFound k)"
proof -
  have "k \<notin> set (map ce_kind (ci_chunks ci))" using assms by simp
  then have "List.find (\<lambda>c. ce_kind c = k) (ci_chunks ci) = None" by (auto simp: find_None_iff)
  then show ?thesis by (simp add: usize_offset_by_id_def offset_by_id_def)
qed

lemma midx_header_fields:
  assumes "data = midx_header names es @ rest"
  shows "take 4 data = MIDX_SIGNATURE" "data ! 4 = 1" "data ! 5 = 1" "data ! 6 = word_of_nat (length (midx_chunks names es))"
    "(read_u32 (take 4 (drop 8 data)) :: (u32, 'e) outcome) = Ok (word_of_nat (length names))"
  using assms by (simp_all add: midx_header_def midx_write_header_def MIDX_SIGNATURE_def kind_as_u8_def)

definition opens_as :: "multi_index \<Rightarrow> bytes \<Rightarrow> bytes list \<Rightarrow> write_entry list \<Rightarrow> bool" where
  "opens_as f data names es \<longleftrightarrow> mi_data f = data \<and> mi_hash_len f = 20 \<and> mi_object_hash f = KSha1 \<and>
     mi_num_indices f = word_of_nat (length names) \<and> mi_num_objects f = word_of_nat (length es) \<and>
     mi_fan f = entries_fan (map to_te es) \<and> mi_index_names f = names \<and>
     (\<exists>pre post. data = pre @ concat (map we_oid es) @ post \<and> mi_lookup_ofs f = length pre) \<and>
     (\<exists>pre post. data = pre @ concat (offset_records es) @ post \<and> mi_offsets_ofs f = length pre) \<and>
     (if num_large_offsets es = None then mi_large_offsets_ofs f = None
      else \<exists>pre post. data = pre @ concat (map be64 (large_offsets (map to_te es))) @ post \<and> mi_large_offsets_ofs f = Some (length pre))"

lemma midx_at_written:
  assumes bs: "bstr_spec bs" and names: "names_ok names" and es: "wf_write_entries es" and dig: "length dig = 20"
    and data: "write_chunk_file (midx_header names es) (midx_chunks names es) = Some data"
  shows "\<exists>f. midx_at bs (Some (data @ dig)) = Ok f \<and> opens_as f (data @ dig) names es"
proof -
  let ?cs = "midx_chunks names es" and ?d = "data @ dig" and ?n = "length es"
  note wf = midx_chunks_wf [OF names es]
  have n: "?n < 2 ^ 31" "0 < ?n" using es by (auto simp: wf_write_entries_def wf_entries_def)
  have un: "unat (word_of_nat ?n :: u32) = ?n" using n by (intro unat_of_nat_small) simp
  then have nz: "(word_of_nat ?n :: u32) \<noteq> 0" using n(2) by auto
  from chunk_file_written [of "midx_header names es" ?cs dig] wf dig data
  obtain ci where dec: "chunk_from_bytes ?d 12 (word_of_nat (length ?cs)) = Ok ci"
    and by_id: "\<forall>(k, d)\<in>set ?cs. data_by_id ci ?d k = Ok d"
    and hi: "highest_offset ci = Some (word_of_nat (length data))" and kinds: "map ce_kind (ci_chunks ci) = map fst ?cs"
    by auto
  have dlen: "length data = 12 + size_for_entries (length ?cs) + sum_list (map (length \<circ> snd) ?cs)"
  proof -
    have k4: "\<forall>c\<in>set ?cs. length (fst c) = 4" using wf(1) by (auto simp: wf_chunks_def list_all_iff)
    have "length (concat (map snd cs)) = sum_list (map (length \<circ> snd) cs)" for cs :: "(chunk_id \<times> bytes) list"
      by (induction cs) auto
    then show ?thesis using write_chunk_file_eq [of "midx_header names es" ?cs] wf(1) data length_write_toc [OF k4] by simp
  qed
  have ulen: "unat (word_of_nat (length data) :: u64) = length data"
    using wf(2) dlen by (intro unat_of_nat_small) simp
  have long: "\<not> length ?d < HEADER_LEN + size_for_entries 4 + fanout_SIZE + kind_len_in_bytes kind_shortest"
    unfolding length_append dlen dig
    by (simp add: HEADER_LEN_def size_for_entries_def ENTRY_SIZE_def fanout_SIZE_def kind_len_in_bytes_def kind_shortest_def
        midx_chunks_def chunk_sizes [OF es])
  obtain rest where hdr: "?d = midx_header names es @ rest"
    using write_chunk_file_eq [of "midx_header names es" ?cs] wf(1) data by auto
  note fields = midx_header_fields [OF hdr]
  have cnt: "ucast (word_of_nat (length ?cs) :: u8) = (word_of_nat (length ?cs) :: u32)"
    by (simp add: midx_chunks_def)
  have names_d: "data_by_id ci ?d index_names_ID = Ok (names_bytes names)"
    and fan_d: "data_by_id ci ?d fanout_ID = Ok (concat (map be32 (entries_fan (map to_te es))))"
    and oid_d: "data_by_id ci ?d lookup_ID = Ok (concat (map we_oid es))"
    and off_d: "data_by_id ci ?d offsets_ID = Ok (concat (offset_records es))"
    using by_id by (auto simp: midx_chunks_def)
  have fan: "fanout_from_bytes (concat (map be32 (entries_fan (map to_te es)))) = Some (entries_fan (map to_te es))"
    using chunks_exact_concat [of 4 "map be32 (entries_fan (map to_te es))" "[]"]
    by (simp add: fanout_from_bytes_def fanout_SIZE_def length_fan_bytes comp_def)
  have num: "entries_fan (map to_te es) ! 255 = word_of_nat ?n"
  proof -
    have "hd x \<le> (255 :: u8)" for x using unat_lt_256 [of "hd x"] by (simp add: word_le_nat_alt less_Suc_eq_le [symmetric])
    then show ?thesis by (simp add: entries_fan_def)
  qed
  obtain p1 q1 where oid: "usize_offset_by_id ci lookup_ID = Ok (length p1, length p1 + length (concat (map we_oid es)))"
    "?d = p1 @ concat (map we_oid es) @ q1" using data_by_id_range [OF oid_d] by blast
  obtain p2 q2 where off: "usize_offset_by_id ci offsets_ID = Ok (length p2, length p2 + length (concat (offset_records es)))"
    "?d = p2 @ concat (offset_records es) @ q2" using data_by_id_range [OF off_d] by blast
  have v1: "midx_validated ci lookup_ID (\<lambda>r. Some (lookup_is_valid r KSha1 (word_of_nat ?n))) =
      Ok (length p1, length p1 + length (concat (map we_oid es)))"
    by (simp add: midx_validated_def oid(1) lookup_is_valid_def chunk_sizes [OF es] lookup_storage_size_def kind_len_in_bytes_def un)
  have v2: "midx_validated ci offsets_ID (\<lambda>r. offsets_is_valid r (word_of_nat ?n)) =
      Ok (length p2, length p2 + length (concat (offset_records es)))"
    using n(2) by (simp add: midx_validated_def off(1) offsets_is_valid_def nz chunk_sizes [OF es] offsets_storage_size_def un)
  have trailer: "get_range ?d (length data) (length ?d) = Some dig" by (simp add: get_range_def)
  let ?f = "\<lambda>lo. \<lparr>mi_data = ?d, mi_hash_len = 20, mi_object_hash = KSha1, mi_num_indices = word_of_nat (length names),
    mi_num_objects = word_of_nat ?n, mi_fan = entries_fan (map to_te es), mi_index_names = names,
    mi_lookup_ofs = length p1, mi_offsets_ofs = length p2, mi_large_offsets_ofs = lo\<rparr>"
  have run: "midx_at bs (Some ?d) = Ok (?f (map_option fst lo))"
    if "(case midx_validated ci large_offsets_ID (\<lambda>r. Some (large_offsets_is_valid r)) of
            Err (MMissingChunk _) \<Rightarrow> Ok None | Err e \<Rightarrow> Err e | Panic \<Rightarrow> Panic | Ok r \<Rightarrow> Ok (Some r)) = Ok lo" for lo
    unfolding midx_at_def ok_or_simps and_then.simps Let_def
    using long dig
    by (simp add: fields cnt kind_try_from_def HEADER_LEN_def dec names_d index_names_read [OF bs names] fan_d fan num v1 v2 that
        hi ulen trailer kind_len_in_bytes_def del: length_append take_append drop_append)
  have opens: "opens_as (?f lo) ?d names es"
    if "if num_large_offsets es = None then lo = None
        else \<exists>pre post. ?d = pre @ concat (map be64 (large_offsets (map to_te es))) @ post \<and> lo = Some (length pre)" for lo
    unfolding opens_as_def multi_index.select_convs using oid(2) off(2) that by blast
  show ?thesis
  proof (cases "num_large_offsets es")
    case None
    then have "large_offsets_ID \<notin> fst ` set ?cs" by (simp add: midx_chunks_def chunk_ids)
    from no_large_chunk [OF kinds this] have "midx_at bs (Some ?d) = Ok (?f None)"
      using run [of None] by (simp add: midx_validated_def)
    with opens [of None] None show ?thesis by simp
  next
    case (Some m)
    let ?lb = "concat (map be64 (large_offsets (map to_te es)))"
    have "data_by_id ci ?d large_offsets_ID = Ok ?lb" using by_id Some by (auto simp: midx_chunks_def)
    from data_by_id_range [OF this] obtain p3 q3 where
      lo: "usize_offset_by_id ci large_offsets_ID = Ok (length p3, length p3 + length ?lb)" "?d = p3 @ ?lb @ q3" by blast
    then have "midx_at bs (Some ?d) = Ok (?f (Some (length p3)))"
      using run [of "Some (length p3, length p3 + length ?lb)"]
      by (simp add: midx_validated_def large_offsets_is_valid_def chunk_sizes [OF es] large_offsets_storage_size_def)
    moreover have "opens_as (?f (Some (length p3))) ?d names es" using opens [of "Some (length p3)"] lo(2) Some by auto
    ultimately show ?thesis by blast
  qed
qed

section \<open>Access to a written file\<close>

lemma opened_num:
  assumes "wf_write_entries es" "opens_as f data names es"
  shows "unat (mi_num_objects f) = length es" "length es < 2 ^ 31" "k \<le> length es \<Longrightarrow> unat (word_of_nat k :: u32) = k"
proof -
  show n: "length es < 2 ^ 31" using assms(1) by (simp add: wf_write_entries_def wf_entries_def)
  show u: "unat (word_of_nat k :: u32) = k" if "k \<le> length es" for k
    using n that by (intro unat_of_nat_small) simp
  show "unat (mi_num_objects f) = length es" using assms(2) u by (simp add: opens_as_def)
qed

lemma we_oid_length: "wf_write_entries es \<Longrightarrow> e \<in> set es \<Longrightarrow> length (we_oid e) = 20"
  using te_oid_length [of "map to_te es" "to_te e"] by (simp add: wf_write_entries_def)

lemma opened_oid:
  assumes es: "wf_write_entries es" and f: "opens_as f data names es" and k: "k < length es"
  shows "midx_oid_at f (word_of_nat k) = Some (we_oid (es ! k))"
proof -
  obtain pre post where p: "data = pre @ concat (map we_oid es) @ post" "mi_lookup_ofs f = length pre"
    using f by (auto simp: opens_as_def)
  have "get_range data (length pre + k * 20) (length pre + k * 20 + 20) = Some (map we_oid es ! k)"
    unfolding p(1) using k we_oid_length [OF es] by (intro get_range_record) auto
  with f p(2) k opened_num(3) [OF es f, of k] show ?thesis
    by (simp add: midx_oid_at_def opens_as_def)
qed

lemma opened_offset:
  assumes es: "wf_write_entries es" and f: "opens_as f data names es" and k: "k < length es"
  shows "pack_id_and_pack_offset_at_index f (word_of_nat k) = Some (we_pack_index (es ! k), we_pack_offset (es ! k))"
proof -
  let ?s = "midx_slots es ! k"
  have hb: "MIDX_HIGH_BIT = N32_HIGH_BIT" by (simp add: N32_HIGH_BIT_def MIDX_HIGH_BIT_def)
  obtain pre post where p: "data = pre @ concat (offset_records es) @ post" "mi_offsets_ofs f = length pre"
    using f by (auto simp: opens_as_def)
  have r: "get_range data (length pre + k * 8) (length pre + k * 8 + 8) = Some (offset_records es ! k)"
    unfolding p(1) using k by (intro get_range_record) (auto simp: offset_records_shape)
  have rec: "offset_records es ! k = be32 (we_pack_index (es ! k)) @ be32 ?s"
    using k by (simp add: offset_records_def)
  obtain pre' post' where p': "data = pre' @ be32 (we_pack_index (es ! k)) @ be32 ?s @ post'"
    "length pre' = length pre + k * 8"
    using get_range_split [OF r] unfolding rec append_assoc by blast
  have r1: "get_range data (length pre + k * 8) (length pre + k * 8 + 4) = Some (be32 (we_pack_index (es ! k)))"
    unfolding p'(1) by (rule get_range_middle) (simp_all add: p'(2))
  have r2: "get_range data (length pre + k * 8 + 4) (length pre + k * 8 + 4 + 4) = Some (be32 ?s)"
    unfolding p'(1) append_assoc [of pre', symmetric] by (rule get_range_middle) (simp_all add: p'(2))
  have base: "mi_data f = data" "unat (word_of_nat k :: u32) = k" using f k opened_num(3) [OF es f, of k] by (simp_all add: opens_as_def)
  note run = pack_id_and_pack_offset_at_index_def Let_def base p(2) hb
  show ?thesis
  proof (cases "num_large_offsets es")
    case None
    then have s: "?s = ucast (we_pack_offset (es ! k))" and lo: "mi_large_offsets_ofs f = None"
      using k f by (simp_all add: midx_slots_def opens_as_def)
    have "unat (we_pack_offset (es ! k)) < 2 ^ 32" using None num_large_None [of es] k by (simp add: list_all_iff)
    then have "ucast (ucast (we_pack_offset (es ! k)) :: u32) = we_pack_offset (es ! k)"
      by (intro unsigned_word_eqI [where 'a = nat]) (simp add: unat_ucast_mod)
    with r1 r2 lo s show ?thesis by (simp add: run)
  next
    case (Some m)
    then have s: "?s = offset_slots (map to_te es) 0 ! k" by (simp add: midx_slots_def)
    obtain pre3 post3 where lo: "data = pre3 @ concat (map be64 (large_offsets (map to_te es))) @ post3"
      "mi_large_offsets_ofs f = Some (length pre3)"
      using f Some by (auto simp: opens_as_def)
    have kk: "k < length (map to_te es)" using k by simp
    show ?thesis
    proof (cases "is_large (to_te (es ! k))")
      case True
      then obtain j where j: "j < length (large_offsets (map to_te es))" "?s = word_of_nat j OR HIGH_BIT"
        "large_offsets (map to_te es) ! j = we_pack_offset (es ! k)"
        using offset_slot [OF kk, of 0] k s by auto
      have "length (large_offsets (map to_te es)) \<le> length es"
        using length_filter_le [of is_large "map to_te es"] by (simp add: large_offsets_def)
      then have hbs: "(word_of_nat j OR HIGH_BIT) AND N32_HIGH_BIT = N32_HIGH_BIT"
        "unat ((word_of_nat j OR HIGH_BIT) XOR N32_HIGH_BIT) = j"
        using high_bit_marks [of j] j(1) opened_num(2) [OF es f] by simp_all
      have "get_range data (length pre3 + j * 8) (length pre3 + j * 8 + 8) = Some (map be64 (large_offsets (map to_te es)) ! j)"
        unfolding lo(1) using j(1) by (intro get_range_record) auto
      with r1 r2 lo(2) j hbs show ?thesis by (simp add: run)
    next
      case False
      then have "?s = ucast (we_pack_offset (es ! k))" using offset_slot [OF kk, of 0] k s by simp
      with small_offset [OF False] r1 r2 show ?thesis by (simp add: run)
    qed
  qed
qed

lemma opened_wf:
  assumes es: "wf_write_entries es" and f: "opens_as f data names es"
  shows "midx_wf f" and "midx_ids f = Some (map we_oid es)"
proof -
  note n = opened_num [OF es f]
  have "midx_ids f = Some (map (\<lambda>k. we_oid (es ! k)) [0..<length es])"
    unfolding midx_ids_def n(1) by (rule those_map_Some) (simp add: opened_oid [OF es f])
  also have "map (\<lambda>k. we_oid (es ! k)) [0..<length es] = map we_oid es" by (auto intro: nth_equalityI)
  finally show ids: "midx_ids f = Some (map we_oid es)" .
  have wf: "index_wf (written_index (\<lambda>_. []) (map to_te es) (Sha1 []))"
    using es by (intro written_index_wf) (simp add: wf_write_entries_def)
  have "map te_oid (map to_te es) = map we_oid es" by simp
  then show "midx_wf f"
    using wf n f es written_index_ids(1) [of "map to_te es" "\<lambda>_. []" "Sha1 []"]
    by (auto simp: midx_wf_def ids index_wf_def opens_as_def wf_write_entries_def written_index_def comp_def)
qed

section \<open>Properties\<close>

lemma those_image: "those (map g xs) = Some ys \<Longrightarrow> y \<in> set ys \<Longrightarrow> \<exists>x\<in>set xs. g x = Some y"
  by (induction xs arbitrary: ys) (auto split: option.splits)

lemma id_from_bytes_wf: "object_id_from_bytes_or_panic b = Ok i \<Longrightarrow> wf_object_id i"
  by (auto simp: object_id_from_bytes_or_panic_def split: if_splits)

lemma index_iter_wf: "index_iter f = Some es \<Longrightarrow> e \<in> set es \<Longrightarrow> wf_object_id (entry_oid e)"
  by (auto simp: index_iter_def iter_v1_def iter_v2_def Let_def bind_eq_Some_conv
      split: index_version.splits if_splits outcome.splits dest!: those_image id_from_bytes_wf)

lemma collect_entries_wf:
  "collect_entries fs mtime interrupt h n ps = Ok es \<Longrightarrow> e \<in> set es \<Longrightarrow> wf_object_id (we_id e)"
proof (induction ps arbitrary: n es)
  case (Cons p ps)
  then obtain idx es1 es2 where "index_iter idx = Some es1" "collect_entries fs mtime interrupt h (n + 1) ps = Ok es2"
    and es: "es = map (\<lambda>e. \<lparr>we_id = entry_oid e, we_pack_index = word_of_nat n, we_pack_offset = entry_offset e, we_mtime = mtime p\<rparr>) es1 @ es2"
    by (auto simp: and_then_Ok_iff expect_def Let_def split: if_splits option.splits)
  with Cons.IH [of "n + 1" es2] Cons.prems(2) index_iter_wf [of idx es1] show ?case by auto
qed simp

lemma length_dedup_by_key: "length (dedup_by_key f xs) \<le> length xs"
  by (induction f xs rule: dedup_by_key.induct) auto

lemma sorted_unique_wf:
  assumes "es \<noteq> []" "length es < 2 ^ 31" "\<And>e. e \<in> set es \<Longrightarrow> wf_object_id (we_id e)"
  shows "wf_write_entries (sorted_unique_entries es)"
proof -
  note u = sorted_unique_ascending [of es]
  have "length (sorted_unique_entries es) \<le> length es"
    using length_dedup_by_key [of we_id "sort_by we_cmp es"] by (simp add: sorted_unique_entries_def)
  moreover have "sorted_unique_entries es \<noteq> []"
    using sorted_unique_preferred [of "hd es" es] assms(1) by auto
  ultimately show ?thesis
    using u assms(2,3) by (auto simp: wf_write_entries_def wf_entries_def list_all_iff sorted_wrt_map)
qed



end
