(* ===== verification/Gix_Packetline.thy ===== *)
theory Gix_Packetline
  imports Gix_External
begin

text \<open>
  The crate \<^verbatim>\<open>gix-packetline\<close>, wire format: packet lines, bands and text lines (\<^verbatim>\<open>lib.rs\<close>,
  \<^verbatim>\<open>line/mod.rs\<close>), decoding from a slice (\<^verbatim>\<open>decode.rs\<close>) and encoding (\<^verbatim>\<open>encode/mod.rs\<close>,
  \<^verbatim>\<open>encode/blocking_io.rs\<close>, \<^verbatim>\<open>line/blocking_io.rs\<close>, \<^verbatim>\<open>write/blocking_io.rs\<close>).  A sink is the
  sequence of bytes written to it, as for \<^verbatim>\<open>Vec<u8>\<close>; every writing operation gives its result together
  with the sink after it, because a failing operation may have written something.  The lemmas show that
  every kind of line is read back as it was written, that decoding from a growing buffer is incremental, and
  that the line writer splits its input into lines that carry it.
\<close>

section \<open>Lines\<close>

definition U16_HEX_BYTES :: nat where "U16_HEX_BYTES = 4"
definition MAX_DATA_LEN :: nat where "MAX_DATA_LEN = 65516"
definition MAX_LINE_LEN :: nat where "MAX_LINE_LEN = MAX_DATA_LEN + U16_HEX_BYTES"
definition FLUSH_LINE :: bytes where "FLUSH_LINE = lit ''0000''"
definition DELIMITER_LINE :: bytes where "DELIMITER_LINE = lit ''0001''"
definition RESPONSE_END_LINE :: bytes where "RESPONSE_END_LINE = lit ''0002''"
definition ERR_PREFIX :: bytes where "ERR_PREFIX = lit ''ERR ''"

datatype channel = ChData | ChProgress | ChError

datatype packet_line = Data bytes | Flush | Delimiter | ResponseEnd

datatype band_ref = BandData bytes | BandProgress bytes | BandError bytes

datatype band_error = InvalidSideBand u8 | NonDataLine

definition channel_as_u8 :: "channel \<Rightarrow> u8" where
  "channel_as_u8 kind = (case kind of ChData \<Rightarrow> 1 | ChProgress \<Rightarrow> 2 | ChError \<Rightarrow> 3)"

definition line_as_slice :: "packet_line \<Rightarrow> bytes option" where
  "line_as_slice l = (case l of Data d \<Rightarrow> Some d | Flush \<Rightarrow> None | Delimiter \<Rightarrow> None | ResponseEnd \<Rightarrow> None)"

definition as_error :: "packet_line \<Rightarrow> bytes option" where
  "as_error l = line_as_slice l"

definition check_error :: "packet_line \<Rightarrow> bytes option" where
  "check_error l = Option.bind (line_as_slice l) (\<lambda>data.
     if length ERR_PREFIX \<le> length data \<and> take (length ERR_PREFIX) data = ERR_PREFIX
     then Some (drop (length ERR_PREFIX) data) else None)"

text \<open>\<^verbatim>\<open>TextRef::from\<close> looks at the last byte without a check.\<close>

definition text_from :: "bytes \<Rightarrow> bytes or_panic" where
  "text_from d = (case d of [] \<Rightarrow> None | _ \<Rightarrow> Some (if last d = 0x0a then butlast d else d))"

definition as_text :: "packet_line \<Rightarrow> bytes option or_panic" where
  "as_text l = (case line_as_slice l of None \<Rightarrow> Some None | Some d \<Rightarrow> map_option Some (text_from d))"

definition as_band :: "channel \<Rightarrow> packet_line \<Rightarrow> band_ref option" where
  "as_band kind l = map_option (\<lambda>d. case kind of
     ChData \<Rightarrow> BandData d | ChProgress \<Rightarrow> BandProgress d | ChError \<Rightarrow> BandError d) (line_as_slice l)"

definition decode_band :: "packet_line \<Rightarrow> (band_ref, band_error) outcome" where
  "decode_band l = and_then (ok_or (line_as_slice l) NonDataLine) (\<lambda>d. and_then (expect (get_at d 0)) (\<lambda>band.
     if band = 1 then Ok (BandData (drop 1 d))
     else if band = 2 then Ok (BandProgress (drop 1 d))
     else if band = 3 then Ok (BandError (drop 1 d))
     else Err (InvalidSideBand band)))"

section \<open>Decoding\<close>

text \<open>The text of \<^verbatim>\<open>HexDecode\<close> is the message of the hexadecimal decoder's error, which is kept here.\<close>

datatype line_error = HexDecode hex_error | DataLengthLimitExceeded nat | DataIsEmpty | InvalidLineLength
  | NotEnoughData nat

datatype line_stream = Complete packet_line nat | Incomplete nat

datatype line_or_size = Line packet_line | Wanted u16

definition hex_prefix :: "faster_hex \<Rightarrow> bytes \<Rightarrow> (line_or_size, line_error) outcome" where
  "hex_prefix fh four_bytes =
     (if four_bytes = FLUSH_LINE then Ok (Line Flush)
      else if four_bytes = DELIMITER_LINE then Ok (Line Delimiter)
      else if four_bytes = RESPONSE_END_LINE then Ok (Line ResponseEnd)
      else and_then (map_err HexDecode (hex_decode fh four_bytes (U16_HEX_BYTES div 2))) (\<lambda>buf.
        let wanted_bytes = word_of_nat (be_nat buf) :: u16 in
        if wanted_bytes = 3 then Err InvalidLineLength
        else if wanted_bytes = 4 then Err DataIsEmpty
        else Ok (Wanted (wanted_bytes - word_of_nat U16_HEX_BYTES))))"

definition to_data_line :: "bytes \<Rightarrow> (packet_line, line_error) outcome" where
  "to_data_line data =
     (if MAX_LINE_LEN < length data then Err (DataLengthLimitExceeded (length data)) else Ok (Data data))"

definition streaming :: "faster_hex \<Rightarrow> bytes \<Rightarrow> (line_stream, line_error) outcome" where
  "streaming fh data =
     (let data_len = length data in
      if data_len < U16_HEX_BYTES then Ok (Incomplete (U16_HEX_BYTES - data_len))
      else and_then (expect (get_range data 0 U16_HEX_BYTES)) (\<lambda>four_bytes.
        and_then (hex_prefix fh four_bytes) (\<lambda>p. case p of
          Line line \<Rightarrow> Ok (Complete line 4)
        | Wanted s \<Rightarrow>
            let wanted_bytes = unat s + U16_HEX_BYTES in
            if MAX_LINE_LEN < wanted_bytes then Err (DataLengthLimitExceeded wanted_bytes)
            else if data_len < wanted_bytes then Ok (Incomplete (wanted_bytes - data_len))
            else and_then (expect (get_range data U16_HEX_BYTES wanted_bytes)) (\<lambda>d.
              and_then (to_data_line d) (\<lambda>line. Ok (Complete line wanted_bytes))))))"

definition all_at_once :: "faster_hex \<Rightarrow> bytes \<Rightarrow> (packet_line, line_error) outcome" where
  "all_at_once fh data = and_then (streaming fh data) (\<lambda>s. case s of
     Complete line _ \<Rightarrow> Ok line
   | Incomplete bytes_needed \<Rightarrow> Err (NotEnoughData bytes_needed))"

section \<open>Encoding\<close>

datatype encode_error = EncodeTooLong nat | EncodeEmpty

type_synonym written = "(nat, encode_error) outcome \<times> bytes"

definition u16_to_hex :: "faster_hex \<Rightarrow> u16 \<Rightarrow> (bytes, 'e) outcome" where
  "u16_to_hex fh value = (case hex_encode fh (be_bytes 2 (unat value)) 4 of Ok buf \<Rightarrow> Ok buf | _ \<Rightarrow> Panic)"

definition response_end_to_write :: "bytes \<Rightarrow> written" where
  "response_end_to_write out = (Ok 4, out @ RESPONSE_END_LINE)"

definition delim_to_write :: "bytes \<Rightarrow> written" where
  "delim_to_write out = (Ok 4, out @ DELIMITER_LINE)"

definition flush_to_write :: "bytes \<Rightarrow> written" where
  "flush_to_write out = (Ok 4, out @ FLUSH_LINE)"

definition prefixed_and_suffixed_data_to_write :: "faster_hex \<Rightarrow> bytes \<Rightarrow> bytes \<Rightarrow> bytes \<Rightarrow> bytes \<Rightarrow> written" where
  "prefixed_and_suffixed_data_to_write fh pre data suf out =
     (let data_len = length pre + length data + length suf in
      if MAX_DATA_LEN < data_len then (Err (EncodeTooLong data_len), out)
      else if data = [] then (Err EncodeEmpty, out)
      else let data_len = data_len + 4 in
        case u16_to_hex fh (word_of_nat data_len) of
          Ok buf \<Rightarrow>
            let out = out @ buf;
                out = (if pre \<noteq> [] then out @ pre else out);
                out = out @ data;
                out = (if suf \<noteq> [] then out @ suf else out)
            in (Ok data_len, out)
        | Err e \<Rightarrow> (Err e, out)
        | Panic \<Rightarrow> (Panic, out))"

definition prefixed_data_to_write :: "faster_hex \<Rightarrow> bytes \<Rightarrow> bytes \<Rightarrow> bytes \<Rightarrow> written" where
  "prefixed_data_to_write fh pre data out = prefixed_and_suffixed_data_to_write fh pre data [] out"

definition error_to_write :: "faster_hex \<Rightarrow> bytes \<Rightarrow> bytes \<Rightarrow> written" where
  "error_to_write fh message out = prefixed_data_to_write fh ERR_PREFIX message out"

definition band_to_write :: "faster_hex \<Rightarrow> channel \<Rightarrow> bytes \<Rightarrow> bytes \<Rightarrow> written" where
  "band_to_write fh kind data out = prefixed_data_to_write fh [channel_as_u8 kind] data out"

definition data_to_write :: "faster_hex \<Rightarrow> bytes \<Rightarrow> bytes \<Rightarrow> written" where
  "data_to_write fh data out = prefixed_data_to_write fh [] data out"

definition text_to_write :: "faster_hex \<Rightarrow> bytes \<Rightarrow> bytes \<Rightarrow> written" where
  "text_to_write fh txt out = prefixed_and_suffixed_data_to_write fh [] txt [0x0a] out"

definition band_write_to :: "faster_hex \<Rightarrow> band_ref \<Rightarrow> bytes \<Rightarrow> written" where
  "band_write_to fh b out = (case b of
     BandData d \<Rightarrow> band_to_write fh ChData d out
   | BandProgress d \<Rightarrow> band_to_write fh ChProgress d out
   | BandError d \<Rightarrow> band_to_write fh ChError d out)"

definition text_write_to :: "faster_hex \<Rightarrow> bytes \<Rightarrow> bytes \<Rightarrow> written" where
  "text_write_to fh txt out = text_to_write fh txt out"

definition error_write_to :: "faster_hex \<Rightarrow> bytes \<Rightarrow> bytes \<Rightarrow> written" where
  "error_write_to fh message out = error_to_write fh message out"

definition line_write_to :: "faster_hex \<Rightarrow> packet_line \<Rightarrow> bytes \<Rightarrow> written" where
  "line_write_to fh l out = (case l of
     Data d \<Rightarrow> data_to_write fh d out
   | Flush \<Rightarrow> flush_to_write out
   | Delimiter \<Rightarrow> delim_to_write out
   | ResponseEnd \<Rightarrow> response_end_to_write out)"

section \<open>The line writer\<close>

datatype writer_error = EmptyLineNotPermitted | WriterEncode encode_error

function writer_loop :: "faster_hex \<Rightarrow> bool \<Rightarrow> bytes \<Rightarrow> nat \<Rightarrow> bytes \<Rightarrow> (nat, writer_error) outcome \<times> bytes" where
  "writer_loop fh binary buf written out =
     (if buf = [] then (Ok written, out)
      else let n = min (length buf) MAX_DATA_LEN; data = take n buf; rest = drop n buf in
        case (if binary then data_to_write fh data out else text_to_write fh data out) of
          (Ok w, out) \<Rightarrow>
            writer_loop fh binary rest (written + w - (U16_HEX_BYTES + (if binary then 0 else 1))) out
        | (Err e, out) \<Rightarrow> (Err (WriterEncode e), out)
        | (Panic, out) \<Rightarrow> (Panic, out))"
  by pat_completeness auto
termination
  by (relation "measure (\<lambda>(fh, binary, buf, written, out). length buf)") (auto simp: MAX_DATA_LEN_def)

declare writer_loop.simps [simp del]

definition writer_write :: "faster_hex \<Rightarrow> bool \<Rightarrow> bytes \<Rightarrow> bytes \<Rightarrow> (nat, writer_error) outcome \<times> bytes" where
  "writer_write fh binary buf out =
     (if buf = [] then (Err EmptyLineNotPermitted, out) else writer_loop fh binary buf 0 out)"

lemmas packetline_consts = U16_HEX_BYTES_def MAX_DATA_LEN_def MAX_LINE_LEN_def

lemmas packetline_special = FLUSH_LINE_def DELIMITER_LINE_def RESPONSE_END_LINE_def

section \<open>Frames\<close>

text \<open>A data line on the wire: the length of the whole line in four hexadecimal digits, then the data.\<close>

definition data_frame :: "bytes \<Rightarrow> bytes" where
  "data_frame d = hex_lower (be_bytes 2 (length d + 4)) @ d"

definition frame :: "packet_line \<Rightarrow> bytes" where
  "frame l = (case l of Data d \<Rightarrow> data_frame d | Flush \<Rightarrow> FLUSH_LINE | Delimiter \<Rightarrow> DELIMITER_LINE
     | ResponseEnd \<Rightarrow> RESPONSE_END_LINE)"

definition fits :: "packet_line \<Rightarrow> bool" where
  "fits l = (case l of Data d \<Rightarrow> d \<noteq> [] \<and> length d \<le> MAX_DATA_LEN | _ \<Rightarrow> True)"

lemma fits_simps [simp]:
  "fits (Data d) \<longleftrightarrow> d \<noteq> [] \<and> length d \<le> MAX_DATA_LEN" "fits Flush" "fits Delimiter" "fits ResponseEnd"
  by (simp_all add: fits_def)

lemma frame_simps:
  "frame (Data d) = data_frame d" "frame Flush = FLUSH_LINE" "frame Delimiter = DELIMITER_LINE"
  "frame ResponseEnd = RESPONSE_END_LINE"
  by (simp_all add: frame_def)

lemma length_data_frame [simp]: "length (data_frame d) = length d + 4"
  by (simp add: data_frame_def)

lemma length_special [simp]: "length FLUSH_LINE = 4" "length DELIMITER_LINE = 4" "length RESPONSE_END_LINE = 4"
  by (simp_all add: packetline_special)

lemma length_frame: "length (frame l) = (case l of Data d \<Rightarrow> length d + 4 | _ \<Rightarrow> 4)"
  by (cases l) (simp_all add: frame_simps)

lemma special_hex:
  "FLUSH_LINE = hex_lower (be_bytes 2 0)" "DELIMITER_LINE = hex_lower (be_bytes 2 1)"
  "RESPONSE_END_LINE = hex_lower (be_bytes 2 2)"
  by code_simp+

lemma hex_length_inj:
  assumes "hex_lower (be_bytes 2 m) = hex_lower (be_bytes 2 n)" "m < 65536" "n < 65536"
  shows "m = n"
proof -
  have "be_bytes 2 m = be_bytes 2 n" using assms(1) unhex_hex_lower option.inject by metis
  then have "m mod 256 ^ 2 = n mod 256 ^ 2" using be_nat_be_bytes by metis
  then show ?thesis using assms by simp
qed

lemma hex_not_special:
  "2 < n \<Longrightarrow> n < 65536 \<Longrightarrow> hex_lower (be_bytes 2 n) \<noteq> FLUSH_LINE"
  "2 < n \<Longrightarrow> n < 65536 \<Longrightarrow> hex_lower (be_bytes 2 n) \<noteq> DELIMITER_LINE"
  "2 < n \<Longrightarrow> n < 65536 \<Longrightarrow> hex_lower (be_bytes 2 n) \<noteq> RESPONSE_END_LINE"
  using hex_length_inj [of n 0] hex_length_inj [of n 1] hex_length_inj [of n 2]
  by (auto simp: special_hex)

lemma unat_u16: "n < 65536 \<Longrightarrow> unat (word_of_nat n :: u16) = n"
  by (rule unat_of_nat_small) simp

lemma u16_eq_iff: "n < 65536 \<Longrightarrow> m < 65536 \<Longrightarrow> (word_of_nat n :: u16) = word_of_nat m \<longleftrightarrow> n = m"
  by (metis unat_u16)

text \<open>The special lines are the only spellings of the lengths 0, 1 and 2.\<close>

lemma lowercase_special:
  "map to_ascii_lowercase s = FLUSH_LINE \<Longrightarrow> s = FLUSH_LINE"
  "map to_ascii_lowercase s = DELIMITER_LINE \<Longrightarrow> s = DELIMITER_LINE"
  "map to_ascii_lowercase s = RESPONSE_END_LINE \<Longrightarrow> s = RESPONSE_END_LINE"
proof -
  have "list_all (\<lambda>d. d < 0x40) FLUSH_LINE" "list_all (\<lambda>d. d < 0x40) DELIMITER_LINE"
    "list_all (\<lambda>d. d < 0x40) RESPONSE_END_LINE" by code_simp+
  then show "map to_ascii_lowercase s = FLUSH_LINE \<Longrightarrow> s = FLUSH_LINE"
    "map to_ascii_lowercase s = DELIMITER_LINE \<Longrightarrow> s = DELIMITER_LINE"
    "map to_ascii_lowercase s = RESPONSE_END_LINE \<Longrightarrow> s = RESPONSE_END_LINE"
    using lowercase_digits by blast+
qed

context faster_hex_spec
begin

lemma u16_to_hex_eq: "u16_to_hex fh w = Ok (hex_lower (be_bytes 2 (unat w)))"
  by (simp add: u16_to_hex_def encode_exact)

lemma hex_prefix_special [simp]:
  "hex_prefix fh FLUSH_LINE = Ok (Line Flush)" "hex_prefix fh DELIMITER_LINE = Ok (Line Delimiter)"
  "hex_prefix fh RESPONSE_END_LINE = Ok (Line ResponseEnd)"
  by (simp_all add: hex_prefix_def packetline_special)

lemma wanted_minus:
  assumes "4 < n" "n < 65536"
  shows "(word_of_nat n :: u16) - 4 = word_of_nat (n - 4)"
  using assms by (metis of_nat_diff of_nat_numeral less_imp_le)

lemma hex_prefix_of_number:
  assumes "four \<noteq> FLUSH_LINE" "four \<noteq> DELIMITER_LINE" "four \<noteq> RESPONSE_END_LINE"
    and "length four = 4" "unhex four = Some (be_bytes 2 n)" "n < 65536"
  shows "hex_prefix fh four = (if n = 3 then Err InvalidLineLength else if n = 4 then Err DataIsEmpty
     else Ok (Wanted (word_of_nat n - 4)))"
proof -
  have "be_nat (be_bytes 2 n) = n" using be_nat_be_bytes [of 2 n] assms(6) by simp
  moreover have "hex_decode fh four 2 = Ok (be_bytes 2 n)" using decode_valid [of four 2] assms by simp
  ultimately show ?thesis
    using assms u16_eq_iff [of n 3] u16_eq_iff [of n 4] by (simp add: hex_prefix_def U16_HEX_BYTES_def)
qed

lemma hex_prefix_length:
  assumes "4 < n" "n < 65536"
  shows "hex_prefix fh (hex_lower (be_bytes 2 n)) = Ok (Wanted (word_of_nat (n - 4)))"
proof -
  have n: "2 < n" "n \<noteq> 3" "n \<noteq> 4" using assms by simp_all
  have "length (hex_lower (be_bytes 2 n)) = 4" by simp
  from hex_prefix_of_number [OF hex_not_special [OF n(1) assms(2)] this unhex_hex_lower assms(2)]
  show ?thesis by (simp only: n if_False wanted_minus [OF assms])
qed

lemma hex_prefix_cases:
  assumes len: "length four = 4"
  obtains (flush) "four = FLUSH_LINE" "hex_prefix fh four = Ok (Line Flush)"
  | (delimiter) "four = DELIMITER_LINE" "hex_prefix fh four = Ok (Line Delimiter)"
  | (response_end) "four = RESPONSE_END_LINE" "hex_prefix fh four = Ok (Line ResponseEnd)"
  | (data) n where "4 < n" "n < 65536" "hex_prefix fh four = Ok (Wanted (word_of_nat (n - 4)))"
  | (three) "hex_prefix fh four = Err InvalidLineLength"
  | (empty) "hex_prefix fh four = Err DataIsEmpty"
  | (hex) e where "unhex four = None" "hex_prefix fh four = Err (HexDecode e)"
proof (cases "four = FLUSH_LINE \<or> four = DELIMITER_LINE \<or> four = RESPONSE_END_LINE")
  case True
  then show ?thesis using flush delimiter response_end by (metis hex_prefix_special)
next
  case special: False
  show ?thesis
  proof (cases "unhex four")
    case None
    then obtain e where "hex_decode fh four 2 = Err e" using decode_invalid [of four 2] len by auto
    then have "hex_prefix fh four = Err (HexDecode e)"
      using special by (simp add: hex_prefix_def U16_HEX_BYTES_def)
    with None show ?thesis by (rule hex)
  next
    case (Some bs)
    define n where "n = be_nat bs"
    have bs: "length bs = 2" "hex_lower bs = map to_ascii_lowercase four" using unhex_SomeD [OF Some] len by auto
    then have n: "bs = be_bytes 2 n" "n < 65536"
      using be_bytes_be_nat [of bs 2] be_nat_less [of bs] by (simp_all add: n_def)
    have "hex_lower (be_bytes 2 n) \<noteq> FLUSH_LINE" "hex_lower (be_bytes 2 n) \<noteq> DELIMITER_LINE"
      "hex_lower (be_bytes 2 n) \<noteq> RESPONSE_END_LINE"
      using special lowercase_special [of four] bs(2) n(1) by auto
    then have "n \<noteq> 0" "n \<noteq> 1" "n \<noteq> 2" unfolding special_hex by metis+
    then have "2 < n" by simp
    from special have s: "four \<noteq> FLUSH_LINE" "four \<noteq> DELIMITER_LINE" "four \<noteq> RESPONSE_END_LINE" by simp_all
    note p = hex_prefix_of_number [OF s len Some [unfolded n(1)] n(2)]
    consider "n = 3" | "n = 4" | "4 < n" using \<open>2 < n\<close> by linarith
    then show ?thesis
    proof cases
      case 1
      then have "hex_prefix fh four = Err InvalidLineLength" using p by simp
      then show ?thesis by (rule three)
    next
      case 2
      then have "hex_prefix fh four = Err DataIsEmpty" using p by simp
      then show ?thesis by (rule empty)
    next
      case 3
      then have "n \<noteq> 3" "n \<noteq> 4" by simp_all
      with p have "hex_prefix fh four = Ok (Wanted (word_of_nat (n - 4)))"
        by (simp only: if_False wanted_minus [OF 3 n(2)])
      with 3 n(2) show ?thesis by (rule data)
    qed
  qed
qed

lemma streaming_special:
  assumes "x \<in> {FLUSH_LINE, DELIMITER_LINE, RESPONSE_END_LINE}"
  shows "streaming fh (x @ rest) = and_then (hex_prefix fh x) (\<lambda>p. case p of Line l \<Rightarrow> Ok (Complete l 4) | _ \<Rightarrow> Panic)"
  using assms by (auto simp: streaming_def Let_def U16_HEX_BYTES_def get_range_def)

lemma streaming_sized:
  assumes "length four = 4" "hex_prefix fh four = Ok (Wanted (word_of_nat (n - 4)))" "4 < n" "n < 65536"
  shows "streaming fh (four @ rest) =
    (if MAX_LINE_LEN < n then Err (DataLengthLimitExceeded n)
     else if length rest + 4 < n then Ok (Incomplete (n - (length rest + 4)))
     else Ok (Complete (Data (take (n - 4) rest)) n))"
proof -
  have "unat (word_of_nat (n - 4) :: u16) + 4 = n" using unat_u16 [of "n - 4"] assms by simp
  moreover have "length (take (n - 4) rest) \<le> n" by simp
  ultimately show ?thesis
    using assms by (auto simp: streaming_def Let_def U16_HEX_BYTES_def get_range_def to_data_line_def)
qed

lemma streaming_frame:
  assumes "fits l"
  shows "streaming fh (frame l @ rest) = Ok (Complete l (length (frame l)))"
proof (cases l)
  case (Data d)
  then have n: "4 < length d + 4" "length d + 4 < 65536" "\<not> MAX_LINE_LEN < length d + 4"
    using assms by (simp_all add: packetline_consts)
  have "length (hex_lower (be_bytes 2 (length d + 4))) = 4" by simp
  from streaming_sized [OF this hex_prefix_length [OF n(1,2)] n(1,2), of "d @ rest"] n(3)
  show ?thesis using Data by (simp add: frame_simps data_frame_def)
qed (simp_all add: frame_simps streaming_special)

lemma all_at_once_frame: "fits l \<Longrightarrow> all_at_once fh (frame l @ rest) = Ok l"
  by (simp add: all_at_once_def streaming_frame)

lemma write_frame:
  assumes "data \<noteq> []" "length pre + length data + length suf \<le> MAX_DATA_LEN"
  shows "prefixed_and_suffixed_data_to_write fh pre data suf out =
    (Ok (length (pre @ data @ suf) + 4), out @ data_frame (pre @ data @ suf))"
proof -
  define n where "n = length pre + (length data + length suf) + 4"
  have "n < 65536" using assms by (simp add: n_def MAX_DATA_LEN_def)
  then have "u16_to_hex fh (word_of_nat n) = (Ok (hex_lower (be_bytes 2 n)) :: (bytes, encode_error) outcome)"
    by (simp only: u16_to_hex_eq unat_u16)
  then show ?thesis
    using assms by (simp add: prefixed_and_suffixed_data_to_write_def data_frame_def n_def Let_def ac_simps)
qed

lemma line_write_frame: "fits l \<Longrightarrow> line_write_to fh l out = (Ok (length (frame l)), out @ frame l)"
  by (cases l)
    (simp_all add: line_write_to_def data_to_write_def prefixed_data_to_write_def write_frame frame_simps
      flush_to_write_def delim_to_write_def response_end_to_write_def)

lemma line_write_unfit: "\<not> fits l \<Longrightarrow> \<exists>e. line_write_to fh l out = (Err e, out)"
  by (cases l)
    (auto simp: line_write_to_def data_to_write_def prefixed_data_to_write_def
      prefixed_and_suffixed_data_to_write_def)

lemma streaming_short: "length d < 4 \<Longrightarrow> streaming fh d = Ok (Incomplete (4 - length d))"
  by (simp add: streaming_def U16_HEX_BYTES_def)

text \<open>Every outcome of \<open>streaming\<close> on at least four bytes.\<close>

lemma streaming_cases:
  assumes "4 \<le> length d"
  obtains (special) l where "\<And>x. streaming fh (d @ x) = Ok (Complete l 4)" "l \<in> {Flush, Delimiter, ResponseEnd}"
  | (error) e where "\<And>x. streaming fh (d @ x) = Err e"
  | (data) n where "4 < n" "n \<le> MAX_LINE_LEN"
      "\<And>x. streaming fh (d @ x) = (if length (d @ x) < n then Ok (Incomplete (n - length (d @ x)))
         else Ok (Complete (Data (take (n - 4) (drop 4 (d @ x)))) n))"
proof -
  obtain four rest where d: "d = four @ rest" "length four = 4"
    using assms by (metis append_take_drop_id length_take min.absorb2)
  have err: thesis if "hex_prefix fh four = Err e" for e
    using that d error by (simp add: streaming_def U16_HEX_BYTES_def get_range_def Let_def)
  show thesis using d(2)
  proof (cases rule: hex_prefix_cases)
    case (data n)
    note s = streaming_sized [OF d(2) data(3) data(1,2)]
    show thesis
    proof (cases "MAX_LINE_LEN < n")
      case True
      then show thesis using s error d by simp
    next
      case False
      have "streaming fh (d @ x) = (if length (d @ x) < n then Ok (Incomplete (n - length (d @ x)))
         else Ok (Complete (Data (take (n - 4) (drop 4 (d @ x)))) n))" for x
        using s [of "rest @ x"] False d by (simp add: ac_simps)
      with data(1) show thesis using that(3) False not_less by blast
    qed
  qed (use that(1) d err in \<open>auto simp: streaming_special\<close>)
qed

lemma streaming_incomplete_extend:
  assumes "streaming fh d = Ok (Incomplete k)"
  shows "0 < k" and "length x < k \<Longrightarrow> streaming fh (d @ x) = Ok (Incomplete (k - length x))"
proof -
  have *: "0 < k \<and> (length x < k \<longrightarrow> streaming fh (d @ x) = Ok (Incomplete (k - length x)))"
  proof (cases "length d < 4")
    case True
    then have k: "k = 4 - length d" using assms streaming_short by simp
    then show ?thesis using True streaming_short [of "d @ x"] by auto
  next
    case False
    then have "4 \<le> length d" by simp
    then show ?thesis
    proof (cases rule: streaming_cases)
      case (special l)
      then show ?thesis using assms special(1) [of "[]"] by simp
    next
      case (error e)
      then show ?thesis using assms error(1) [of "[]"] by simp
    next
      case (data n)
      then have "length d < n" "k = n - length d" using assms data(3) [of "[]"] by (auto split: if_splits)
      then show ?thesis using data(3) [of x] by auto
    qed
  qed
  show "0 < k" "length x < k \<Longrightarrow> streaming fh (d @ x) = Ok (Incomplete (k - length x))"
    using * by blast+
qed

lemma streaming_complete_extend:
  assumes "streaming fh d = Ok (Complete l n)"
  shows "n \<le> length d" and "streaming fh (take n d @ x) = Ok (Complete l n)"
proof -
  have *: "n \<le> length d \<and> streaming fh (take n d @ x) = Ok (Complete l n)"
  proof (cases "length d < 4")
    case True
    then show ?thesis using assms streaming_short by simp
  next
    case False
    then have "4 \<le> length (take 4 d)" by simp
    then show ?thesis
    proof (cases rule: streaming_cases)
      case (special l')
      then show ?thesis using assms special(1) [of "drop 4 d"] special(1) [of x] False by simp
    next
      case (error e)
      then show ?thesis using assms error(1) [of "drop 4 d"] by simp
    next
      case (data m)
      have "n = m" "m \<le> length d" "l = Data (take (m - 4) (drop 4 d))"
        using assms data(3) [of "drop 4 d"] False by (auto split: if_splits)
      moreover have "take m d = take 4 d @ take (m - 4) (drop 4 d)"
        using data(1) take_add [of 4 "m - 4" d] by simp
      ultimately show ?thesis
        using data(3) [of "take (m - 4) (drop 4 d) @ x"] data(1) False by simp
    qed
  qed
  show "n \<le> length d" "streaming fh (take n d @ x) = Ok (Complete l n)" using * by blast+
qed

lemma streaming_line_length:
  assumes "streaming fh d = Ok (Complete l n)"
  shows "n = (case line_as_slice l of None \<Rightarrow> 4 | Some x \<Rightarrow> length x + 4)"
proof (cases "length d < 4")
  case True
  then show ?thesis using assms streaming_short by simp
next
  case False
  then have "4 \<le> length d" by simp
  then show ?thesis
  proof (cases rule: streaming_cases)
    case (special l')
    then show ?thesis using assms special(1) [of "[]"] by (auto simp: line_as_slice_def)
  next
    case (error e)
    then show ?thesis using assms error(1) [of "[]"] by simp
  next
    case (data m)
    then show ?thesis using assms data(3) [of "[]"] by (auto simp: line_as_slice_def split: if_splits)
  qed
qed

lemma streaming_incremental:
  "case streaming fh d of
      Ok (Incomplete k) \<Rightarrow> 0 < k \<and>
        (\<forall>x. length x < k \<longrightarrow> streaming fh (d @ x) = Ok (Incomplete (k - length x)))
    | Ok (Complete l n) \<Rightarrow> 4 \<le> n \<and> n \<le> length d \<and> n \<le> MAX_LINE_LEN \<and>
        (\<forall>x. streaming fh (take n d @ x) = Ok (Complete l n))
    | Err e \<Rightarrow> (\<forall>x. streaming fh (d @ x) = Err e)
    | Panic \<Rightarrow> False"
proof (cases "length d < 4")
  case True
  then have s: "streaming fh d = Ok (Incomplete (4 - length d))" by (simp add: streaming_short)
  show ?thesis
    using streaming_incomplete_extend [OF s] unfolding s by simp
next
  case False
  then have "4 \<le> length d" by simp
  then show ?thesis
  proof (cases rule: streaming_cases)
    case (special l)
    then have s: "streaming fh d = Ok (Complete l 4)" using special(1) [of "[]"] by simp
    show ?thesis using streaming_complete_extend [OF s] unfolding s by (simp add: packetline_consts)
  next
    case (error e)
    then show ?thesis using error(1) [of "[]"] by simp
  next
    case (data n)
    show ?thesis
    proof (cases "length d < n")
      case True
      then have s: "streaming fh d = Ok (Incomplete (n - length d))" using data(3) [of "[]"] by simp
      show ?thesis using streaming_incomplete_extend [OF s] unfolding s by simp
    next
      case False
      then have s: "streaming fh d = Ok (Complete (Data (take (n - 4) (drop 4 d))) n)" using data(3) [of "[]"] by simp
      show ?thesis using streaming_complete_extend [OF s] data(1,2) unfolding s by simp
    qed
  qed
qed

lemma writer_loop_binary:
  "\<exists>ds. concat ds = buf \<and> list_all (\<lambda>d. fits (Data d)) ds \<and>
     writer_loop fh True buf n out = (Ok (n + length buf), out @ concat (map data_frame ds))"
proof (induction "length buf" arbitrary: buf n out rule: less_induct)
  case less
  show ?case
  proof (cases "buf = []")
    case True
    then show ?thesis by (intro exI [of _ "[]"]) (simp add: writer_loop.simps)
  next
    case False
    let ?k = "min (length buf) MAX_DATA_LEN"
    let ?d = "take ?k buf"
    have k: "0 < ?k" using False by (simp add: MAX_DATA_LEN_def)
    have d: "?d \<noteq> []" "length ?d \<le> MAX_DATA_LEN" using False by (auto simp: MAX_DATA_LEN_def)
    then have w: "data_to_write fh ?d out = (Ok (length ?d + 4), out @ data_frame ?d)"
      by (simp add: data_to_write_def prefixed_data_to_write_def write_frame)
    have "length (drop ?k buf) < length buf" using False k by simp
    from less [OF this] obtain ds where ds: "concat ds = drop ?k buf" "list_all (\<lambda>d. fits (Data d)) ds"
      "writer_loop fh True (drop ?k buf) (n + length ?d) (out @ data_frame ?d) =
        (Ok (n + length ?d + length (drop ?k buf)), (out @ data_frame ?d) @ concat (map data_frame ds))"
      by blast
    have "writer_loop fh True buf n out = writer_loop fh True (drop ?k buf) (n + length ?d) (out @ data_frame ?d)"
      using False w by (subst writer_loop.simps) (simp add: Let_def U16_HEX_BYTES_def)
    with ds d show ?thesis by (intro exI [of _ "?d # ds"]) (simp add: MAX_DATA_LEN_def)
  qed
qed

lemma writer_text:
  assumes "buf \<noteq> []"
  shows "writer_write fh False buf out =
    (if length buf < MAX_DATA_LEN then (Ok (length buf), out @ data_frame (buf @ [0x0a]))
     else (Err (WriterEncode (EncodeTooLong (MAX_DATA_LEN + 1))), out))"
proof (cases "length buf < MAX_DATA_LEN")
  case True
  then have "text_to_write fh buf out = (Ok (length buf + 5), out @ data_frame (buf @ [0x0a]))"
    using assms by (simp add: text_to_write_def write_frame)
  then show ?thesis using assms True
    by (simp add: writer_write_def writer_loop.simps [of fh False buf] Let_def U16_HEX_BYTES_def
        writer_loop.simps [of fh False "[]"])
next
  case False
  then have "text_to_write fh (take MAX_DATA_LEN buf) out = (Err (EncodeTooLong (MAX_DATA_LEN + 1)), out)"
    by (simp add: text_to_write_def prefixed_and_suffixed_data_to_write_def)
  then show ?thesis using assms False
    by (simp add: writer_write_def writer_loop.simps [of fh False buf] Let_def min.absorb2)
qed

lemma band_write_frame:
  assumes "d \<noteq> []" "length d < MAX_DATA_LEN"
  shows "band_to_write fh c d out = (Ok (length d + 5), out @ frame (Data (channel_as_u8 c # d)))"
  using assms by (simp add: band_to_write_def prefixed_data_to_write_def write_frame frame_simps)

end

lemma decode_band_as_band [simp]:
  "decode_band (Data (channel_as_u8 c # d)) = Ok (the (as_band c (Data d)))"
  by (cases c) (simp_all add: decode_band_def line_as_slice_def channel_as_u8_def as_band_def)

lemma check_error_prefix [simp]: "check_error (Data (ERR_PREFIX @ m)) = Some m"
  by (simp add: check_error_def line_as_slice_def)

lemma as_text_newline [simp]: "as_text (Data (t @ [0x0a])) = Some (Some t)"
  by (cases t) (simp_all add: as_text_def line_as_slice_def text_from_def)

section \<open>Properties\<close>

text \<open>
  A packet line of any kind that fits (data of 1 to 65516 bytes) is appended to the sink by
  \<^verbatim>\<open>PacketLineRef::write_to\<close>, which returns the number of bytes written; whatever follows it,
  \<^verbatim>\<open>streaming\<close> and \<^verbatim>\<open>all_at_once\<close> decode the same line from these bytes and report the same number
  as consumed.  A line that does not fit is an error and writes nothing.
\<close>

theorem packet_line_roundtrip:
  assumes "faster_hex_spec fh"
  shows "if fits l then
      (\<exists>w. line_write_to fh l out = (Ok (length w), out @ w) \<and>
        streaming fh (w @ rest) = Ok (Complete l (length w)) \<and> all_at_once fh (w @ rest) = Ok l)
    else (\<exists>e. line_write_to fh l out = (Err e, out))"
  using faster_hex_spec.line_write_frame [OF assms] faster_hex_spec.line_write_unfit [OF assms]
    faster_hex_spec.streaming_frame [OF assms] faster_hex_spec.all_at_once_frame [OF assms]
  by auto

theorem packet_line_roundtrip_witness:
  "\<exists>w. line_write_to reference_hex (Data (lit ''hello'')) [] = (Ok (length w), w) \<and>
     streaming reference_hex (w @ lit ''0000'') = Ok (Complete (Data (lit ''hello'')) (length w))"
  using packet_line_roundtrip [OF ref_hex.faster_hex_spec_axioms, of "Data (lit ''hello'')" "[]" "lit ''0000''"]
  by (auto simp: MAX_DATA_LEN_def)

text \<open>
  Side-band, error and text lines carry their payload: what \<^verbatim>\<open>band_to_write\<close>, \<^verbatim>\<open>error_to_write\<close> and
  \<^verbatim>\<open>text_to_write\<close> write decodes to a data line from which \<^verbatim>\<open>decode_band\<close> gives the same band,
  \<^verbatim>\<open>check_error\<close> the same message and \<^verbatim>\<open>as_text\<close> the same text.
\<close>

theorem special_payload_roundtrip:
  assumes "faster_hex_spec fh" and "d \<noteq> []" and "length d + 4 \<le> MAX_DATA_LEN"
  shows "(\<exists>w l. band_to_write fh c d out = (Ok (length w), out @ w) \<and> all_at_once fh (w @ rest) = Ok l \<and>
       Some (decode_band l) = map_option Ok (as_band c (Data d))) \<and>
    (\<exists>w l. error_to_write fh d out = (Ok (length w), out @ w) \<and> all_at_once fh (w @ rest) = Ok l \<and>
       check_error l = Some d) \<and>
    (\<exists>w l. text_to_write fh d out = (Ok (length w), out @ w) \<and> all_at_once fh (w @ rest) = Ok l \<and>
       as_text l = Some (Some d))"
proof (intro conjI exI)
  have dec: "all_at_once fh (data_frame x @ rest) = Ok (Data x)" if "x \<noteq> []" "length x \<le> MAX_DATA_LEN" for x
    using faster_hex_spec.all_at_once_frame [OF assms(1), of "Data x"] that by (simp add: frame_simps)
  have len: "Suc (length d) \<le> MAX_DATA_LEN" "length (ERR_PREFIX @ d) \<le> MAX_DATA_LEN" using assms(3) by (simp_all add: ERR_PREFIX_def)
  show "band_to_write fh c d out = (Ok (length (data_frame (channel_as_u8 c # d))), out @ data_frame (channel_as_u8 c # d))"
    using assms by (simp add: faster_hex_spec.band_write_frame frame_simps)
  show "all_at_once fh (data_frame (channel_as_u8 c # d) @ rest) = Ok (Data (channel_as_u8 c # d))"
    using dec len by simp
  show "Some (decode_band (Data (channel_as_u8 c # d))) = map_option Ok (as_band c (Data d))"
    by (simp add: as_band_def line_as_slice_def)
  show "error_to_write fh d out = (Ok (length (data_frame (ERR_PREFIX @ d))), out @ data_frame (ERR_PREFIX @ d))"
    using assms len by (simp add: error_to_write_def prefixed_data_to_write_def faster_hex_spec.write_frame)
  show "all_at_once fh (data_frame (ERR_PREFIX @ d) @ rest) = Ok (Data (ERR_PREFIX @ d))"
    using dec len by (simp add: assms(2))
  show "text_to_write fh d out = (Ok (length (data_frame (d @ [0x0a]))), out @ data_frame (d @ [0x0a]))"
    using assms len by (simp add: text_to_write_def faster_hex_spec.write_frame)
  show "all_at_once fh (data_frame (d @ [0x0a]) @ rest) = Ok (Data (d @ [0x0a]))"
    using dec len by simp
qed simp_all

theorem special_payload_roundtrip_witness:
  "\<exists>w l. error_to_write reference_hex (lit ''no'') [] = (Ok (length w), w) \<and>
     all_at_once reference_hex (w @ []) = Ok l \<and> check_error l = Some (lit ''no'')"
  using special_payload_roundtrip [OF ref_hex.faster_hex_spec_axioms, of "lit ''no''" _ "[]" "[]"]
  by (simp add: MAX_DATA_LEN_def)

text \<open>
  Decoding is incremental.  When \<^verbatim>\<open>streaming\<close> asks for \<open>k\<close> more bytes, \<open>k\<close> is positive and no smaller
  extension of the input completes a line or fails; the request then goes down by what was added.  When it
  reports a complete line of \<open>n\<close> bytes, these bytes are present and decode to that line whatever follows them.
\<close>

theorem streaming_is_incremental:
  assumes "faster_hex_spec fh"
  shows "case streaming fh d of
      Ok (Incomplete k) \<Rightarrow> 0 < k \<and>
        (\<forall>x. length x < k \<longrightarrow> streaming fh (d @ x) = Ok (Incomplete (k - length x)))
    | Ok (Complete l n) \<Rightarrow> 4 \<le> n \<and> n \<le> length d \<and> n \<le> MAX_LINE_LEN \<and>
        (\<forall>x. streaming fh (take n d @ x) = Ok (Complete l n))
    | Err e \<Rightarrow> (\<forall>x. streaming fh (d @ x) = Err e)
    | Panic \<Rightarrow> False"
  by (rule faster_hex_spec.streaming_incremental [OF assms])

theorem streaming_is_incremental_witness:
  "streaming reference_hex (lit ''00'' @ lit ''0'') = Ok (Incomplete 1)"
proof -
  have s: "streaming reference_hex (lit ''00'') = Ok (Incomplete 2)" by code_simp
  show ?thesis using streaming_is_incremental [OF ref_hex.faster_hex_spec_axioms, of "lit ''00''"]
    unfolding s by simp
qed

text \<open>
  In binary mode the writer accepts any non-empty input, writes it as a sequence of data lines whose
  payloads concatenate to the input, and returns the input's length.  In text mode an input of less than
  65516 bytes becomes one line with a newline appended, while a longer input fails without being split,
  because the writer cuts it into pieces that leave no room for the newline.
\<close>

theorem writer_splits_input:
  assumes "faster_hex_spec fh" and "buf \<noteq> []"
  shows "(\<exists>ds. concat ds = buf \<and> list_all (\<lambda>d. fits (Data d)) ds \<and>
       writer_write fh True buf out = (Ok (length buf), out @ concat (map (\<lambda>d. frame (Data d)) ds))) \<and>
     writer_write fh False buf out =
       (if length buf < MAX_DATA_LEN then (Ok (length buf), out @ frame (Data (buf @ [0x0a])))
        else (Err (WriterEncode (EncodeTooLong (MAX_DATA_LEN + 1))), out))"
  using faster_hex_spec.writer_loop_binary [OF assms(1), of buf 0 out] faster_hex_spec.writer_text [OF assms]
    assms(2)
  by (simp add: writer_write_def frame_simps)

theorem writer_splits_input_witness:
  "writer_write reference_hex False (lit ''want'') [] = (Ok 4, frame (Data (lit ''want'' @ [0x0a])))"
  using writer_splits_input [OF ref_hex.faster_hex_spec_axioms, of "lit ''want''" "[]"]
  by (simp add: MAX_DATA_LEN_def)

end
