(* ===== verification/Gix_Packetline_Read.thy ===== *)
theory Gix_Packetline_Read
  imports Gix_Packetline
begin

text \<open>
  The crate \<^verbatim>\<open>gix-packetline\<close>, reading side: \<^verbatim>\<open>StreamingPeekableIter\<close> (\<^verbatim>\<open>lib.rs\<close>, \<^verbatim>\<open>read/mod.rs\<close>,
  \<^verbatim>\<open>read/blocking_io.rs\<close>) and the side-band reader \<^verbatim>\<open>WithSidebands\<close> on top of it
  (\<^verbatim>\<open>read/sidebands/blocking_io.rs\<close>).  The underlying reader is the sequence of bytes it still has to
  deliver; at its end \<^verbatim>\<open>read_exact\<close> fails after having consumed what was left.  The internal buffers keep
  their real lengths because decoding looks at them again after a read.  The lemmas show that peeking does not
  change what is read, that the iterator delivers exactly the lines in front of the next delimiter and then
  stops there, and that the side-band reader separates data from progress messages.
\<close>

section \<open>The iterator\<close>

datatype read_error = UnexpectedEnd | ErrLine bytes | LineDecode line_error | BandDecode band_error | Interrupted
  | NonDataLineInData

type_synonym line_result = "read_error + (line_error + packet_line)"

record line_iter =
  rd :: bytes
  peek_buf :: bytes
  line_buf :: bytes
  fail_on_err_lines :: bool
  delimiters :: "packet_line list"
  is_done :: bool
  stopped_at :: "packet_line option"

definition line_iter_new :: "bytes \<Rightarrow> packet_line list \<Rightarrow> line_iter" where
  "line_iter_new read delims =
     \<lparr>rd = read, peek_buf = [], line_buf = replicate MAX_LINE_LEN 0, fail_on_err_lines = False,
      delimiters = delims, is_done = False, stopped_at = None\<rparr>"

definition peek_buffer_replace_and_truncate :: "faster_hex \<Rightarrow> nat \<Rightarrow> u8 \<Rightarrow> line_iter \<Rightarrow> line_iter or_panic" where
  "peek_buffer_replace_and_truncate fh pos replace_with s =
     (let pos = pos + U16_HEX_BYTES in
      if length (peek_buf s) \<le> pos then None
      else let buf = (peek_buf s)[pos := replace_with]; new_len = pos + 1; buf = take new_len buf in
        case u16_to_hex fh (word_of_nat new_len) :: (bytes, unit) outcome of
          Ok hex \<Rightarrow> Some (s\<lparr>peek_buf := hex @ drop 4 buf\<rparr>)
        | _ \<Rightarrow> None)"

definition reset_with :: "packet_line list \<Rightarrow> line_iter \<Rightarrow> line_iter" where
  "reset_with delims s = s\<lparr>delimiters := delims, is_done := False, stopped_at := None\<rparr>"

definition reset :: "line_iter \<Rightarrow> line_iter" where
  "reset s = reset_with (delimiters s) s"

definition set_fail_on_err_lines :: "bool \<Rightarrow> line_iter \<Rightarrow> line_iter" where
  "set_fail_on_err_lines value s = s\<lparr>fail_on_err_lines := value\<rparr>"

definition replace_reader :: "bytes \<Rightarrow> line_iter \<Rightarrow> bytes \<times> line_iter" where
  "replace_reader read s = (rd s, (reset (s\<lparr>rd := read\<rparr>))\<lparr>fail_on_err_lines := False\<rparr>)"

text \<open>\<^verbatim>\<open>Read::read_exact\<close>: success, the destination afterwards, and the reader.\<close>

definition read_exact :: "bytes \<Rightarrow> bytes \<Rightarrow> bool \<times> bytes \<times> bytes" where
  "read_exact r dst =
     (if length dst \<le> length r then (True, take (length dst) r, drop (length dst) r)
      else (False, r @ drop (length r) dst, []))"

definition read_line_inner :: "faster_hex \<Rightarrow> bytes \<Rightarrow> bytes \<Rightarrow> (line_result \<times> bytes \<times> bytes) or_panic" where
  "read_line_inner fh reader buf =
     (if length buf < 4 then None
      else let (ok, hex_bytes, reader) = read_exact reader (take 4 buf); data_bytes = drop 4 buf in
        if \<not> ok then Some (Inl UnexpectedEnd, reader, hex_bytes @ data_bytes)
        else case hex_prefix fh hex_bytes of
          Ok (Line line) \<Rightarrow> Some (Inr (Inr line), reader, hex_bytes @ data_bytes)
        | Err err \<Rightarrow> Some (Inr (Inl err), reader, hex_bytes @ data_bytes)
        | Panic \<Rightarrow> None
        | Ok (Wanted additional_bytes) \<Rightarrow>
            let num_data_bytes = unat additional_bytes in
            if length data_bytes < num_data_bytes then None
            else let tail = drop num_data_bytes data_bytes;
                     (ok, data_bytes, reader) = read_exact reader (take num_data_bytes data_bytes);
                     buf = hex_bytes @ data_bytes @ tail in
              if \<not> ok then Some (Inl UnexpectedEnd, reader, buf)
              else case to_data_line data_bytes of
                Ok line \<Rightarrow> Some (Inr (Inr line), reader, buf)
              | Err err \<Rightarrow> Some (Inr (Inl err), reader, buf)
              | Panic \<Rightarrow> None)"

text \<open>\<^verbatim>\<open>Vec::resize(len, 0)\<close>\<close>

definition resize :: "nat \<Rightarrow> bytes \<Rightarrow> bytes" where
  "resize n buf = take n buf @ replicate (n - length buf) 0"

definition read_line_inner_exhaustive ::
    "faster_hex \<Rightarrow> bytes \<Rightarrow> bytes \<Rightarrow> packet_line list \<Rightarrow> bool \<Rightarrow> bool \<Rightarrow>
     ((bool \<times> packet_line option \<times> line_result option) \<times> bytes \<times> bytes) or_panic" where
  "read_line_inner_exhaustive fh reader buf delims fail_on_err buf_resize =
     Option.bind (read_line_inner fh reader buf) (\<lambda>(res, reader, buf). case res of
       Inr (Inr line) \<Rightarrow>
         if line \<in> set delims then
           Some ((True, find (\<lambda>l. l = line) delims, None), reader, [])
         else (case (if fail_on_err then check_error line else None) of
           Some err \<Rightarrow> Some ((True, None, Some (Inl (ErrLine err))), reader, [])
         | None \<Rightarrow>
             let len = (case line_as_slice line of None \<Rightarrow> U16_HEX_BYTES | Some s \<Rightarrow> length s + U16_HEX_BYTES);
                 buf = (if buf_resize then resize len buf else buf) in
             case all_at_once fh buf of
               Ok line \<Rightarrow> Some ((False, None, Some (Inr (Inr line))), reader, buf)
             | _ \<Rightarrow> None)
     | Inr (Inl err) \<Rightarrow> Some ((False, None, Some (Inr (Inl err))), reader, [])
     | Inl err \<Rightarrow> Some ((False, None, Some (Inl err)), reader, []))"

definition read_line :: "faster_hex \<Rightarrow> line_iter \<Rightarrow> (line_result option \<times> line_iter) or_panic" where
  "read_line fh s =
     (if is_done s then Some (None, s)
      else if peek_buf s \<noteq> [] then
        (let s = s\<lparr>line_buf := peek_buf s, peek_buf := []\<rparr> in
         case all_at_once fh (line_buf s) of Ok l \<Rightarrow> Some (Some (Inr (Inr l)), s) | _ \<Rightarrow> None)
      else
        (let buf = (if length (line_buf s) \<noteq> MAX_LINE_LEN then resize MAX_LINE_LEN (line_buf s) else line_buf s) in
         map_option (\<lambda>((done, stopped, res), reader, buf).
             (res, s\<lparr>rd := reader, line_buf := buf, is_done := done, stopped_at := stopped\<rparr>))
           (read_line_inner_exhaustive fh (rd s) buf (delimiters s) (fail_on_err_lines s) False)))"

definition peek_line :: "faster_hex \<Rightarrow> line_iter \<Rightarrow> (line_result option \<times> line_iter) or_panic" where
  "peek_line fh s =
     (if is_done s then Some (None, s)
      else if peek_buf s = [] then
        map_option (\<lambda>((done, stopped, res), reader, buf).
            (res, s\<lparr>rd := reader, peek_buf := buf, is_done := done, stopped_at := stopped\<rparr>))
          (read_line_inner_exhaustive fh (rd s) (resize MAX_LINE_LEN (peek_buf s)) (delimiters s)
             (fail_on_err_lines s) True)
      else (case all_at_once fh (peek_buf s) of Ok l \<Rightarrow> Some (Some (Inr (Inr l)), s) | _ \<Rightarrow> None))"

section \<open>Side bands\<close>

datatype progress_action = Continue | Interrupt

text \<open>
  A progress handler is a closure: it has a state of its own, and tells whether to go on.  The reader's
  \<^verbatim>\<open>parent\<close> is the iterator it borrows.
\<close>

type_synonym 'h handler = "'h \<Rightarrow> bool \<Rightarrow> bytes \<Rightarrow> progress_action \<times> 'h"

record sidebands =
  parent :: line_iter
  sb_pos :: nat
  sb_cap :: nat

definition sidebands_new :: "line_iter \<Rightarrow> sidebands" where
  "sidebands_new p = \<lparr>parent = p, sb_pos = 0, sb_cap = 0\<rparr>"

definition sidebands_drop :: "sidebands \<Rightarrow> line_iter" where
  "sidebands_drop w = reset (parent w)"

definition peek_data_line :: "faster_hex \<Rightarrow> sidebands \<Rightarrow> ((read_error + (line_error + bytes)) option \<times> sidebands) or_panic" where
  "peek_data_line fh w = map_option (\<lambda>(res, p).
     (case res of
        Some (Inr (Inr (Data line))) \<Rightarrow> Some (Inr (Inr line))
      | Some (Inr (Inl err)) \<Rightarrow> Some (Inr (Inl err))
      | Some (Inl err) \<Rightarrow> Some (Inl err)
      | _ \<Rightarrow> None, w\<lparr>parent := p\<rparr>)) (peek_line fh (parent w))"

definition read_data_line :: "faster_hex \<Rightarrow> sidebands \<Rightarrow> (line_result option \<times> sidebands) or_panic" where
  "read_data_line fh w =
     (if sb_cap w \<noteq> 0 then None
      else map_option (\<lambda>(res, p). (res, w\<lparr>parent := p\<rparr>)) (read_line fh (parent w)))"

text \<open>
  One run of the body of the loop in \<^verbatim>\<open>fill_buf\<close> on a line: it breaks with an offset and a length, fails,
  or continues.  The handler's new state comes with it.
\<close>

datatype band_step = Break nat nat | Fail read_error | Next

definition fill_buf_line :: "'h handler option \<Rightarrow> packet_line \<Rightarrow> 'h \<Rightarrow> (band_step \<times> 'h) or_panic" where
  "fill_buf_line handle_progress line h = (case handle_progress of
     Some handle \<Rightarrow> (case decode_band line of
         Panic \<Rightarrow> None
       | Err err \<Rightarrow> Some (Fail (BandDecode err), h)
       | Ok (BandData d) \<Rightarrow> Some (if d = [] then Next else Break (U16_HEX_BYTES + 1) (length d), h)
       | Ok (BandProgress d) \<Rightarrow> Option.bind (text_from d) (\<lambda>txt.
           case handle h False txt of (Continue, h) \<Rightarrow> Some (Next, h) | (Interrupt, h) \<Rightarrow> Some (Fail Interrupted, h))
       | Ok (BandError d) \<Rightarrow> Option.bind (text_from d) (\<lambda>txt.
           case handle h True txt of (Continue, h) \<Rightarrow> Some (Next, h) | (Interrupt, h) \<Rightarrow> Some (Fail Interrupted, h)))
   | None \<Rightarrow> (case line_as_slice line of
         Some d \<Rightarrow> Some (Break U16_HEX_BYTES (length d), h)
       | None \<Rightarrow> Some (Fail NonDataLineInData, h)))"

lemma read_line_inner_shrinks:
  "read_line_inner fh r buf = Some (Inr x, r', buf') \<Longrightarrow> length r' < length r"
  by (auto simp: read_line_inner_def read_exact_def Let_def split: if_splits outcome.splits line_or_size.splits)

lemma exhaustive_shrinks:
  assumes "read_line_inner_exhaustive fh r buf ds f z = Some ((d, st, Some (Inr (Inr l))), r', buf')"
  shows "length r' < length r"
proof -
  obtain res r1 b1 where i: "read_line_inner fh r buf = Some (res, r1, b1)"
    using assms by (auto simp: read_line_inner_exhaustive_def bind_eq_Some_conv)
  show ?thesis
  proof (cases res)
    case (Inl e)
    then show ?thesis using assms i by (simp add: read_line_inner_exhaustive_def)
  next
    case (Inr x)
    then have "r1 = r'"
      using assms i
      by (cases x) (auto simp: read_line_inner_exhaustive_def Let_def split: if_splits outcome.splits option.splits)
    then show ?thesis using i Inr read_line_inner_shrinks by blast
  qed
qed

lemma read_line_shrinks:
  assumes "read_line fh s = Some (Some (Inr (Inr l)), s')"
  shows "length (rd s') + length (peek_buf s') < length (rd s) + length (peek_buf s)"
  using assms by (auto simp: read_line_def Let_def dest!: exhaustive_shrinks split: if_splits outcome.splits)

function fill_buf_loop :: "faster_hex \<Rightarrow> 'h handler option \<Rightarrow> line_iter \<Rightarrow> 'h \<Rightarrow>
    ((read_error + nat \<times> nat) \<times> line_iter \<times> 'h) or_panic" where
  "fill_buf_loop fh handle_progress p h =
     (case read_line fh p of
        None \<Rightarrow> None
      | Some (None, p) \<Rightarrow> Some (Inr (0, 0), p, h)
      | Some (Some (Inl err), p) \<Rightarrow> Some (Inl err, p, h)
      | Some (Some (Inr (Inl err)), p) \<Rightarrow> Some (Inl (LineDecode err), p, h)
      | Some (Some (Inr (Inr line)), p) \<Rightarrow>
          (case fill_buf_line handle_progress line h of
             None \<Rightarrow> None
           | Some (Break ofs cap, h) \<Rightarrow> Some (Inr (ofs, cap), p, h)
           | Some (Fail err, h) \<Rightarrow> Some (Inl err, p, h)
           | Some (Next, h) \<Rightarrow> fill_buf_loop fh handle_progress p h))"
  by pat_completeness auto
termination
  by (relation "measure (\<lambda>(fh, hp, p, h). length (rd p) + length (peek_buf p))") (auto dest: read_line_shrinks)

declare fill_buf_loop.simps [simp del]

definition fill_buf :: "faster_hex \<Rightarrow> 'h handler option \<Rightarrow> sidebands \<Rightarrow> 'h \<Rightarrow>
    ((read_error + bytes) \<times> sidebands \<times> 'h) or_panic" where
  "fill_buf fh handle_progress w h =
     Option.bind
       (if sb_cap w \<le> sb_pos w then
          map_option (\<lambda>(res, p, h). case res of
              Inl err \<Rightarrow> (Some err, w\<lparr>parent := p\<rparr>, h)
            | Inr (ofs, cap) \<Rightarrow> (None, w\<lparr>parent := p, sb_cap := cap + ofs, sb_pos := ofs\<rparr>, h))
            (fill_buf_loop fh handle_progress (parent w) h)
        else Some (None, w, h))
       (\<lambda>(err, w, h). case err of
          Some e \<Rightarrow> Some (Inl e, w, h)
        | None \<Rightarrow> map_option (\<lambda>d. (Inr d, w, h)) (get_range (line_buf (parent w)) (sb_pos w) (sb_cap w)))"

definition consume :: "nat \<Rightarrow> sidebands \<Rightarrow> sidebands" where
  "consume amt w = w\<lparr>sb_pos := min (sb_pos w + amt) (sb_cap w)\<rparr>"

text \<open>\<^verbatim>\<open>Read::read\<close> into a buffer of \<open>n\<close> bytes: the bytes it writes there.\<close>

definition sidebands_read :: "faster_hex \<Rightarrow> 'h handler option \<Rightarrow> nat \<Rightarrow> sidebands \<Rightarrow> 'h \<Rightarrow>
    ((read_error + bytes) \<times> sidebands \<times> 'h) or_panic" where
  "sidebands_read fh handle_progress n w h =
     map_option (\<lambda>(res, w, h). case res of
         Inl err \<Rightarrow> (Inl err, w, h)
       | Inr rem \<Rightarrow> let nread = take n rem in (Inr nread, consume (length nread) w, h))
       (fill_buf fh handle_progress w h)"

text \<open>\<^verbatim>\<open>read_line_to_string\<close>: \<open>Inr None\<close> stands for a line that is no UTF-8, which leaves the capacity as it is.\<close>

definition read_line_to_string :: "faster_hex \<Rightarrow> 'h handler option \<Rightarrow> sidebands \<Rightarrow> 'h \<Rightarrow>
    ((read_error + bytes option) \<times> sidebands \<times> 'h) or_panic" where
  "read_line_to_string fh handle_progress w h =
     (if sb_cap w \<noteq> 0 then None
      else map_option (\<lambda>(res, w, h). case res of
          Inl err \<Rightarrow> (Inl err, w, h)
        | Inr line \<Rightarrow> if utf8_valid line then (Inr (Some line), w\<lparr>sb_cap := 0\<rparr>, h) else (Inr None, w, h))
        (fill_buf fh handle_progress w h))"

section \<open>The reader and the slice decoder\<close>

lemma drop_take_drop: "i \<le> n \<Longrightarrow> drop i (take n xs) @ drop n xs = drop i xs"
  using drop_append [of i "take n xs" "drop n xs"] by (simp add: min_def split: if_splits)

lemma drop_take_drop_add: "i \<le> n \<Longrightarrow> drop i (take n (drop k xs)) @ drop (n + k) xs = drop (i + k) xs"
  using drop_take_drop [of i n "drop k xs"] by simp

context faster_hex_spec
begin

lemma read_line_inner_streaming:
  assumes buf: "length buf = MAX_LINE_LEN"
  shows "read_line_inner fh r buf = (case streaming fh r of
      Ok (Complete l n) \<Rightarrow> Some (Inr (Inr l), drop n r, take n r @ drop n buf)
    | Ok (Incomplete k) \<Rightarrow> Some (Inl UnexpectedEnd, [], r @ drop (length r) buf)
    | Err (DataLengthLimitExceeded n) \<Rightarrow> None
    | Err e \<Rightarrow> Some (Inr (Inl e), drop 4 r, take 4 r @ drop 4 buf)
    | Panic \<Rightarrow> None)"
proof (cases "length r < 4")
  case True
  have "take 4 buf \<noteq> []" "length (take 4 buf) = 4" "4 \<le> length buf" using buf by (auto simp: packetline_consts)
  then show ?thesis using True by (simp add: read_line_inner_def read_exact_def streaming_short drop_take_drop)
next
  case False
  then obtain four rest where r: "r = four @ rest" "length four = 4"
    by (metis append_take_drop_id length_take min.absorb2 not_less)
  have b: "length (take 4 buf) = 4" "\<not> length buf < 4" "length (drop 4 buf) = MAX_DATA_LEN"
    using buf by (simp_all add: packetline_consts)
  have inner: "read_line_inner fh r buf = (case hex_prefix fh four of
      Ok (Line line) \<Rightarrow> Some (Inr (Inr line), rest, four @ drop 4 buf)
    | Err err \<Rightarrow> Some (Inr (Inl err), rest, four @ drop 4 buf)
    | Panic \<Rightarrow> None
    | Ok (Wanted w) \<Rightarrow>
        if MAX_DATA_LEN < unat w then None
        else if length rest < unat w then Some (Inl UnexpectedEnd, [], r @ drop (length r) buf)
        else Some (Inr (Inr (Data (take (unat w) rest))), drop (unat w) rest,
          four @ take (unat w) rest @ drop (unat w + 4) buf))"
    unfolding read_line_inner_def using b r
    by (auto simp: read_exact_def Let_def to_data_line_def MAX_LINE_LEN_def add.commute drop_take_drop_add
        split: outcome.split line_or_size.split)
  show ?thesis using r(2)
  proof (cases rule: hex_prefix_cases)
    case (data n)
    have u: "unat (word_of_nat (n - 4) :: u16) = n - 4" using unat_u16 [of "n - 4"] data by simp
    note s = streaming_sized [OF r(2) data(3) data(1,2), of rest, folded r(1)]
    show ?thesis unfolding inner data(3) outcome.case line_or_size.case u s
      using data(1) r by (auto simp: packetline_consts)
  qed (unfold inner, simp_all add: r streaming_special streaming_def U16_HEX_BYTES_def get_range_def)
qed

end

text \<open>
  What the next line of an input means for an iterator with the given delimiters: whether the iteration
  is over, the delimiter that ended it, the result handed out, and the rest of the input.
\<close>

definition next_line :: "faster_hex \<Rightarrow> packet_line list \<Rightarrow> bool \<Rightarrow> bytes \<Rightarrow>
    ((bool \<times> packet_line option \<times> line_result option) \<times> bytes) or_panic" where
  "next_line fh delims fail_on_err r = (case streaming fh r of
      Ok (Complete l n) \<Rightarrow>
        if l \<in> set delims then Some ((True, Some l, None), drop n r)
        else (case (if fail_on_err then check_error l else None) of
          Some e \<Rightarrow> Some ((True, None, Some (Inl (ErrLine e))), drop n r)
        | None \<Rightarrow> Some ((False, None, Some (Inr (Inr l))), drop n r))
    | Ok (Incomplete k) \<Rightarrow> Some ((False, None, Some (Inl UnexpectedEnd)), [])
    | Err (DataLengthLimitExceeded n) \<Rightarrow> None
    | Err e \<Rightarrow> Some ((False, None, Some (Inr (Inl e))), drop 4 r)
    | Panic \<Rightarrow> None)"

text \<open>The buffer that holds the line handed out, and an empty one in every other case.\<close>

definition kept_line :: "bool \<times> packet_line option \<times> line_result option \<Rightarrow> bytes \<Rightarrow> bytes" where
  "kept_line o1 b = (case o1 of (_, _, Some (Inr (Inr l))) \<Rightarrow> b | _ \<Rightarrow> [])"

lemma find_eq: "l \<in> set ds \<Longrightarrow> find (\<lambda>x. x = l) ds = Some l"
  by (induction ds) auto

lemma length_resize [simp]: "length (resize n b) = n"
  by (simp add: resize_def)

context faster_hex_spec
begin

lemma exhaustive_next_line:
  assumes buf: "length buf = MAX_LINE_LEN"
  shows "read_line_inner_exhaustive fh r buf ds f z =
    map_option (\<lambda>(o1, r'). (o1, r', kept_line o1
        (take (length r - length r') r @ (if z then [] else drop (length r - length r') buf))))
      (next_line fh ds f r)"
proof (cases "streaming fh r")
  case (Ok st)
  show ?thesis
  proof (cases st)
    case (Complete l n)
    then have s: "streaming fh r = Ok (Complete l n)" using Ok by simp
    have n: "n \<le> length r" and a: "\<And>x. all_at_once fh (take n r @ x) = Ok l"
      using streaming_complete_extend [OF s] by (simp_all add: all_at_once_def)
    have len: "(case line_as_slice l of None \<Rightarrow> U16_HEX_BYTES | Some d \<Rightarrow> length d + U16_HEX_BYTES) = n"
      using streaming_line_length [OF s] by (simp add: U16_HEX_BYTES_def split: option.split)
    have rs: "resize n (take n r @ drop n buf) = take n r"
      using n buf by (simp add: resize_def)
    have e: "read_line_inner_exhaustive fh r buf ds f z =
        (if l \<in> set ds then Some ((True, Some l, None), drop n r, [])
         else (case (if f then check_error l else None) of
           Some err \<Rightarrow> Some ((True, None, Some (Inl (ErrLine err))), drop n r, [])
         | None \<Rightarrow> Some ((False, None, Some (Inr (Inr l))), drop n r,
             if z then take n r else take n r @ drop n buf)))"
      using a [of "[]"] a [of "drop n buf"]
      by (simp add: read_line_inner_exhaustive_def read_line_inner_streaming [OF buf] s find_eq Let_def len rs
          cong: option.case_cong)
    have "length r - (length r - n) = n" using n by simp
    then show ?thesis unfolding e next_line_def s by (simp add: kept_line_def split: option.split)
  qed (simp add: read_line_inner_exhaustive_def read_line_inner_streaming [OF buf] next_line_def Ok kept_line_def)
qed (auto simp: read_line_inner_exhaustive_def read_line_inner_streaming [OF buf] next_line_def kept_line_def
      split: line_error.split)

end

section \<open>The iterator as a function of its input\<close>

text \<open>
  Everything of an iterator's state but the scratch buffer, and the invariant of its operations: a peeked
  line is complete and is neither a delimiter nor an error line to stop at, and only a finished iteration
  has a line it stopped at.
\<close>

definition observe :: "line_iter \<Rightarrow> bytes \<times> bytes \<times> bool \<times> packet_line list \<times> bool \<times> packet_line option" where
  "observe s = (rd s, peek_buf s, fail_on_err_lines s, delimiters s, is_done s, stopped_at s)"

definition peeked :: "faster_hex \<Rightarrow> packet_line list \<Rightarrow> bool \<Rightarrow> bytes \<Rightarrow> bool" where
  "peeked fh ds f b = (case streaming fh b of
     Ok (Complete l n) \<Rightarrow> n = length b \<and> l \<notin> set ds \<and> (f \<longrightarrow> check_error l = None)
   | _ \<Rightarrow> False)"

definition iter_ok :: "faster_hex \<Rightarrow> line_iter \<Rightarrow> bool" where
  "iter_ok fh s \<longleftrightarrow>
     (peek_buf s \<noteq> [] \<longrightarrow> \<not> is_done s \<and> peeked fh (delimiters s) (fail_on_err_lines s) (peek_buf s)) \<and>
     (\<not> is_done s \<longrightarrow> stopped_at s = None)"

text \<open>The input still to be delivered: a peeked line comes first.\<close>

definition pending :: "line_iter \<Rightarrow> bytes" where
  "pending s = peek_buf s @ rd s"

lemma iter_ok_new: "iter_ok fh (line_iter_new r ds)"
  by (simp add: iter_ok_def line_iter_new_def)

lemma next_line_going_on:
  "next_line fh ds f r = Some ((d, st, res), r') \<Longrightarrow> \<not> d \<longrightarrow> st = None"
  by (auto simp: next_line_def split: outcome.splits line_stream.splits if_splits option.splits line_error.splits)

context faster_hex_spec
begin

lemma peekedE:
  assumes "peeked fh ds f b"
  obtains l where "streaming fh b = Ok (Complete l (length b))" "l \<notin> set ds" "f \<longrightarrow> check_error l = None"
    "all_at_once fh b = Ok l" "\<And>r. next_line fh ds f (b @ r) = Some ((False, None, Some (Inr (Inr l))), r)"
proof -
  obtain l where l: "streaming fh b = Ok (Complete l (length b))" "l \<notin> set ds" "f \<longrightarrow> check_error l = None"
    using assms by (auto simp: peeked_def split: outcome.splits line_stream.splits)
  moreover have "streaming fh (b @ r) = Ok (Complete l (length b))" for r
    using streaming_complete_extend(2) [OF l(1), of r] by simp
  ultimately show thesis using that [of l] by (auto simp: all_at_once_def next_line_def)
qed

lemma next_line_peeked:
  assumes "next_line fh ds f r = Some ((d, st, Some (Inr (Inr l))), r')"
  shows "\<not> d" "st = None" "\<exists>b. r = b @ r' \<and> b \<noteq> [] \<and> peeked fh ds f b \<and> all_at_once fh b = Ok l"
proof -
  obtain n where s: "streaming fh r = Ok (Complete l n)" "l \<notin> set ds" "f \<longrightarrow> check_error l = None"
    and r: "\<not> d" "st = None" "r' = drop n r"
    using assms by (auto simp: next_line_def split: outcome.splits line_stream.splits if_splits option.splits line_error.splits)
  from r show "\<not> d" "st = None" by simp_all
  have e: "n \<le> length r" "streaming fh (take n r) = Ok (Complete l n)"
    using streaming_complete_extend(1) [OF s(1)] streaming_complete_extend(2) [OF s(1), of "[]"] by simp_all
  moreover have "take n r \<noteq> []"
  proof
    assume "take n r = []"
    with e(2) streaming_short [of "[]"] show False by simp
  qed
  ultimately show "\<exists>b. r = b @ r' \<and> b \<noteq> [] \<and> peeked fh ds f b \<and> all_at_once fh b = Ok l"
    using s r by (intro exI [of _ "take n r"]) (simp add: peeked_def all_at_once_def)
qed

lemma read_line_pending:
  assumes "iter_ok fh s" "\<not> is_done s"
  shows "map_option (\<lambda>(res, s'). (res, observe s')) (read_line fh s) =
    map_option (\<lambda>((d, st, res), r). (res, r, [], fail_on_err_lines s, delimiters s, d, st))
      (next_line fh (delimiters s) (fail_on_err_lines s) (pending s))"
proof (cases "peek_buf s = []")
  case True
  define b where "b = (if length (line_buf s) \<noteq> MAX_LINE_LEN then resize MAX_LINE_LEN (line_buf s) else line_buf s)"
  have "length b = MAX_LINE_LEN" by (simp add: b_def)
  from exhaustive_next_line [OF this] show ?thesis
    using True assms(2)
    by (auto simp: read_line_def Let_def b_def [symmetric] pending_def observe_def option.map_comp comp_def
        intro!: map_option_cong split: prod.split)
next
  case False
  with assms have p: "peeked fh (delimiters s) (fail_on_err_lines s) (peek_buf s)" "stopped_at s = None"
    by (simp_all add: iter_ok_def)
  from p(1) obtain l where "all_at_once fh (peek_buf s) = Ok l"
    "next_line fh (delimiters s) (fail_on_err_lines s) (peek_buf s @ rd s) = Some ((False, None, Some (Inr (Inr l))), rd s)"
    by (auto elim: peekedE)
  then show ?thesis using False assms(2) p(2) by (simp add: read_line_def pending_def observe_def)
qed

lemma peek_line_fresh:
  assumes "\<not> is_done s" "peek_buf s = []"
  shows "peek_line fh s = map_option (\<lambda>((d, st, res), r').
      (res, s\<lparr>rd := r', peek_buf := kept_line (d, st, res) (take (length (rd s) - length r') (rd s)),
        is_done := d, stopped_at := st\<rparr>))
    (next_line fh (delimiters s) (fail_on_err_lines s) (rd s))"
  using assms exhaustive_next_line [of "resize MAX_LINE_LEN []" "rd s" "delimiters s" "fail_on_err_lines s" True]
  by (auto simp: peek_line_def option.map_comp comp_def intro!: map_option_cong split: prod.split)

lemma peek_line_again:
  assumes "iter_ok fh s" "peek_buf s \<noteq> []"
  obtains l where "peek_line fh s = Some (Some (Inr (Inr l)), s)"
    "\<exists>s'. read_line fh s = Some (Some (Inr (Inr l)), s')"
proof -
  from assms have p: "peeked fh (delimiters s) (fail_on_err_lines s) (peek_buf s)" "\<not> is_done s"
    by (simp_all add: iter_ok_def)
  from p(1) obtain l where "all_at_once fh (peek_buf s) = Ok l" by (auto elim: peekedE)
  then show thesis using p(2) assms(2) that [of l] by (simp add: peek_line_def read_line_def)
qed

lemma peek_fresh_line:
  assumes "iter_ok fh s" "\<not> is_done s" "peek_buf s = []"
    and n: "next_line fh (delimiters s) (fail_on_err_lines s) (rd s) = Some ((d, st, Some (Inr (Inr l))), r')"
  defines "s1 \<equiv> s\<lparr>rd := r', peek_buf := take (length (rd s) - length r') (rd s), is_done := d, stopped_at := st\<rparr>"
  shows "iter_ok fh s1" "peek_line fh s1 = Some (Some (Inr (Inr l)), s1)"
    "\<exists>s3. read_line fh s1 = Some (Some (Inr (Inr l)), s3) \<and>
       observe s3 = (r', [], fail_on_err_lines s, delimiters s, d, st)"
proof -
  obtain b where b: "rd s = b @ r'" "b \<noteq> []" "peeked fh (delimiters s) (fail_on_err_lines s) b" "\<not> d" "st = None"
    using next_line_peeked [OF n] by blast
  have k: "peek_buf s1 = b" using b by (simp add: s1_def)
  show ok: "iter_ok fh s1" using b k by (simp add: iter_ok_def s1_def)
  have nl: "next_line fh (delimiters s1) (fail_on_err_lines s1) (pending s1) = Some ((d, st, Some (Inr (Inr l))), r')"
    using n b k by (simp add: pending_def s1_def)
  have "\<not> is_done s1" using b by (simp add: s1_def)
  from read_line_pending [OF ok this] nl
  obtain s3 where s3: "read_line fh s1 = Some (Some (Inr (Inr l)), s3)"
    "observe s3 = (r', [], fail_on_err_lines s, delimiters s, d, st)"
    by (auto simp: s1_def)
  then show "\<exists>s3. read_line fh s1 = Some (Some (Inr (Inr l)), s3) \<and>
    observe s3 = (r', [], fail_on_err_lines s, delimiters s, d, st)" by blast
  obtain l' where "peek_line fh s1 = Some (Some (Inr (Inr l')), s1)" "\<exists>s'. read_line fh s1 = Some (Some (Inr (Inr l')), s')"
    using ok k b(2) peek_line_again by blast
  then show "peek_line fh s1 = Some (Some (Inr (Inr l)), s1)" using s3 by auto
qed

lemma peek_then_read:
  assumes "iter_ok fh s"
  shows "case peek_line fh s of
      None \<Rightarrow> read_line fh s = None
    | Some (res, s1) \<Rightarrow> iter_ok fh s1 \<and>
        (\<exists>s2. read_line fh s = Some (res, s2) \<and>
          (if (\<exists>l. res = Some (Inr (Inr l)))
           then peek_line fh s1 = Some (res, s1) \<and>
             (\<exists>s3. read_line fh s1 = Some (res, s3) \<and> observe s3 = observe s2)
           else observe s1 = observe s2))"
proof (cases "is_done s \<or> peek_buf s \<noteq> []")
  case True
  then show ?thesis
  proof (cases "is_done s")
    case d: True
    then show ?thesis using assms by (simp add: peek_line_def read_line_def)
  next
    case False
    with True have "peek_buf s \<noteq> []" by simp
    with assms obtain l where "peek_line fh s = Some (Some (Inr (Inr l)), s)"
      "\<exists>s'. read_line fh s = Some (Some (Inr (Inr l)), s')" by (rule peek_line_again)
    then show ?thesis using assms by auto
  qed
next
  case False
  then have s: "\<not> is_done s" "peek_buf s = []" "stopped_at s = None" using assms by (auto simp: iter_ok_def)
  note rl = read_line_pending [OF assms s(1)] and pl = peek_line_fresh [OF s(1,2)]
  have pend: "pending s = rd s" using s(2) by (simp add: pending_def)
  show ?thesis
  proof (cases "next_line fh (delimiters s) (fail_on_err_lines s) (rd s)")
    case None
    then show ?thesis using rl pl pend by simp
  next
    case (Some x)
    obtain d st res r' where x: "x = ((d, st, res), r')" by (metis prod.collapse)
    define s1 where "s1 = s\<lparr>rd := r', peek_buf := kept_line (d, st, res) (take (length (rd s) - length r') (rd s)),
        is_done := d, stopped_at := st\<rparr>"
    have p1: "peek_line fh s = Some (res, s1)" using pl Some x by (simp add: s1_def)
    obtain s2 where s2: "read_line fh s = Some (res, s2)"
      "observe s2 = (r', [], fail_on_err_lines s, delimiters s, d, st)"
      using rl Some x pend by auto
    show ?thesis
    proof (cases "\<exists>l. res = Some (Inr (Inr l))")
      case True
      then obtain l where l: "res = Some (Inr (Inr l))" by blast
      have s1: "s1 = s\<lparr>rd := r', peek_buf := take (length (rd s) - length r') (rd s), is_done := d, stopped_at := st\<rparr>"
        using l by (simp add: s1_def kept_line_def)
      show ?thesis
        using peek_fresh_line [OF assms s(1,2) Some [unfolded x l], folded s1] p1 s2 l by auto
    next
      case False
      then have k: "peek_buf s1 = []" by (simp add: s1_def kept_line_def split: option.split sum.split)
      have "\<not> d \<longrightarrow> st = None"
        using Some x next_line_going_on by simp
      then have "iter_ok fh s1" using k by (simp add: iter_ok_def s1_def)
      then show ?thesis using False p1 s2 k by (simp add: observe_def s1_def)
    qed
  qed
qed

lemma read_line_iter_ok:
  assumes "iter_ok fh s" "read_line fh s = Some (res, s')"
  shows "iter_ok fh s'"
proof (cases "is_done s")
  case True
  then show ?thesis using assms by (simp add: read_line_def)
next
  case False
  from read_line_pending [OF assms(1) this] assms(2) obtain d st r where
    n: "next_line fh (delimiters s) (fail_on_err_lines s) (pending s) = Some ((d, st, res), r)"
    and o: "observe s' = (r, [], fail_on_err_lines s, delimiters s, d, st)"
    by (auto simp: map_option_case split: option.splits)
  have "\<not> d \<longrightarrow> st = None"
    using n next_line_going_on by simp
  with o show ?thesis by (simp add: iter_ok_def observe_def)
qed

end

section \<open>Reading to the end\<close>

text \<open>
  The loops of a client: reading lines until there are none, and \<^verbatim>\<open>Read::read_to_end\<close> on the side-band
  reader with a buffer of \<open>n\<close> bytes.  The result is what was delivered, the error that ended the loop if any,
  and the reader afterwards.
\<close>

function collect_lines :: "faster_hex \<Rightarrow> line_iter \<Rightarrow> (packet_line list \<times> line_result option \<times> line_iter) or_panic" where
  "collect_lines fh s = (case read_line fh s of
     None \<Rightarrow> None
   | Some (Some (Inr (Inr l)), s') \<Rightarrow> map_option (\<lambda>(ls, e, s). (l # ls, e, s)) (collect_lines fh s')
   | Some (res, s') \<Rightarrow> Some ([], res, s'))"
  by pat_completeness auto
termination
  by (relation "measure (\<lambda>(fh, p). length (rd p) + length (peek_buf p))") (auto dest: read_line_shrinks)

declare collect_lines.simps [simp del]

lemma fill_buf_loop_shrinks:
  "fill_buf_loop fh hp p h = Some (Inr (ofs, cap), p', h') \<Longrightarrow>
   ofs = 0 \<and> cap = 0 \<or> length (rd p') + length (peek_buf p') < length (rd p) + length (peek_buf p)"
proof (induction fh hp p h rule: fill_buf_loop.induct)
  case (1 fh hp p h)
  note prem = "1.prems" [unfolded fill_buf_loop.simps [of fh hp p h]]
  show ?case
  proof (cases "\<exists>l p1. read_line fh p = Some (Some (Inr (Inr l)), p1)")
    case True
    then obtain l p1 where r: "read_line fh p = Some (Some (Inr (Inr l)), p1)" by blast
    obtain st h1 where f: "fill_buf_line hp l h = Some (st, h1)"
      using prem r by (auto split: option.splits)
    show ?thesis
    proof (cases st)
      case (Break o1 c1)
      then show ?thesis
        using prem r f read_line_shrinks [OF r] by simp
    next
      case (Fail e)
      then show ?thesis using prem r f by simp
    next
      case Next
      then have "fill_buf_loop fh hp p1 h1 = Some (Inr (ofs, cap), p', h')"
        using prem r f by simp
      from "1.IH" [OF r refl refl refl refl f refl Next this] show ?thesis
        using read_line_shrinks [OF r] by auto
    qed
  next
    case False
    then show ?thesis using prem by (auto split: option.splits sum.splits)
  qed
qed

lemma fill_buf_drained:
  "sb_cap w \<le> sb_pos w \<Longrightarrow> fill_buf fh hp w h = (case fill_buf_loop fh hp (parent w) h of
     None \<Rightarrow> None
   | Some (Inl e, p, h) \<Rightarrow> Some (Inl e, w\<lparr>parent := p\<rparr>, h)
   | Some (Inr (ofs, cap), p, h) \<Rightarrow>
       map_option (\<lambda>d. (Inr d, w\<lparr>parent := p, sb_cap := cap + ofs, sb_pos := ofs\<rparr>, h))
         (get_range (line_buf p) ofs (cap + ofs)))"
  by (simp add: fill_buf_def split: option.split sum.split prod.split)

lemma sidebands_read_shrinks:
  assumes "sidebands_read fh hp n w h = Some (Inr (x # xs), w', h')"
  shows "(w', w) \<in> (\<lambda>w. length (rd (parent w)) + length (peek_buf (parent w))) <*mlex*> measure (\<lambda>w. sb_cap w - sb_pos w)"
proof (cases "sb_cap w \<le> sb_pos w")
  case True
  obtain res w1 h1 where "fill_buf fh hp w h = Some (res, w1, h1)"
    using assms by (auto simp: sidebands_read_def)
  with assms obtain rem where f: "fill_buf fh hp w h = Some (Inr rem, w1, h')" and t: "take n rem = x # xs"
    and w': "w' = consume (length (take n rem)) w1"
    by (cases res) (auto simp: sidebands_read_def Let_def simp del: length_take)
  from f True have "\<exists>ofs cap p. fill_buf_loop fh hp (parent w) h = Some (Inr (ofs, cap), p, h') \<and>
      w1 = w\<lparr>parent := p, sb_cap := cap + ofs, sb_pos := ofs\<rparr> \<and> get_range (line_buf p) ofs (cap + ofs) = Some rem"
    by (auto simp: fill_buf_drained split: option.splits sum.splits)
  then obtain ofs cap p where l: "fill_buf_loop fh hp (parent w) h = Some (Inr (ofs, cap), p, h')"
    and w1: "w1 = w\<lparr>parent := p, sb_cap := cap + ofs, sb_pos := ofs\<rparr>"
    and g: "get_range (line_buf p) ofs (cap + ofs) = Some rem"
    by blast
  have "\<not> (ofs = 0 \<and> cap = 0)" using g t by (auto simp: get_range_Some)
  with fill_buf_loop_shrinks [OF l] w1 w' show ?thesis by (auto simp: consume_def intro: mlex_less)
next
  case False
  from assms obtain rem where "get_range (line_buf (parent w)) (sb_pos w) (sb_cap w) = Some rem" "take n rem = x # xs"
    "w' = consume (length (take n rem)) w"
    using False by (auto simp: sidebands_read_def fill_buf_def Let_def simp del: length_take)
  then show ?thesis using False by (auto simp: consume_def intro!: mlex_leq)
qed

function read_to_end :: "faster_hex \<Rightarrow> 'h handler option \<Rightarrow> nat \<Rightarrow> sidebands \<Rightarrow> 'h \<Rightarrow>
    (bytes \<times> read_error option \<times> sidebands \<times> 'h) or_panic" where
  "read_to_end fh hp n w h = (case sidebands_read fh hp n w h of
     None \<Rightarrow> None
   | Some (Inl e, w, h) \<Rightarrow> Some ([], Some e, w, h)
   | Some (Inr [], w, h) \<Rightarrow> Some ([], None, w, h)
   | Some (Inr (x # xs), w, h) \<Rightarrow> map_option (\<lambda>(d, r). (x # xs @ d, r)) (read_to_end fh hp n w h))"
  by pat_completeness auto
termination
proof (relation "inv_image ((\<lambda>w. length (rd (parent w)) + length (peek_buf (parent w))) <*mlex*>
    measure (\<lambda>w. sb_cap w - sb_pos w)) (\<lambda>(fh, hp, n, w, h). w)", goal_cases)
  case 1
  show ?case by (intro wf_inv_image wf_mlex) simp
next
  case (2 fh hp n w h x2 a b aa ba x2a x21 x22)
  then show ?case using sidebands_read_shrinks [of fh hp n w h] by auto
qed

declare read_to_end.simps [simp del]

section \<open>What is delivered\<close>

text \<open>Bands on the wire, the data they carry, and what the progress handler is told.\<close>

definition band_frame :: "channel \<times> bytes \<Rightarrow> bytes" where
  "band_frame b = frame (Data (channel_as_u8 (fst b) # snd b))"

definition band_fits :: "channel \<times> bytes \<Rightarrow> bool" where
  "band_fits b \<longleftrightarrow> length (snd b) < MAX_DATA_LEN \<and> (fst b = ChData \<or> snd b \<noteq> [])"

definition bands_data :: "(channel \<times> bytes) list \<Rightarrow> bytes" where
  "bands_data bs = concat (map snd (filter (\<lambda>b. fst b = ChData) bs))"

definition notify :: "'h handler \<Rightarrow> channel \<times> bytes \<Rightarrow> 'h \<Rightarrow> 'h" where
  "notify handle b h = (if fst b = ChData then h else snd (handle h (fst b = ChError) (the (text_from (snd b)))))"

definition passes :: "line_iter \<Rightarrow> packet_line \<Rightarrow> bool" where
  "passes s l \<longleftrightarrow> fits l \<and> l \<notin> set (delimiters s) \<and> (fail_on_err_lines s \<longrightarrow> check_error l = None)"

context faster_hex_spec
begin

lemma read_line_frame:
  assumes "iter_ok fh s" "\<not> is_done s" "pending s = frame l @ rest" "passes s l"
  shows "\<exists>s'. read_line fh s = Some (Some (Inr (Inr l)), s') \<and>
    observe s' = (rest, [], fail_on_err_lines s, delimiters s, False, None)"
proof -
  have "next_line fh (delimiters s) (fail_on_err_lines s) (pending s) = Some ((False, None, Some (Inr (Inr l))), rest)"
    using assms streaming_frame [of l rest] by (simp add: passes_def next_line_def)
  with read_line_pending [OF assms(1,2)] show ?thesis by auto
qed

lemma read_line_stop:
  assumes "iter_ok fh s" "\<not> is_done s" "pending s = frame l @ rest" "fits l" "l \<in> set (delimiters s)"
  shows "\<exists>s'. read_line fh s = Some (None, s') \<and>
    observe s' = (rest, [], fail_on_err_lines s, delimiters s, True, Some l)"
proof -
  have "next_line fh (delimiters s) (fail_on_err_lines s) (pending s) = Some ((True, Some l, None), rest)"
    using assms streaming_frame [of l rest] by (simp add: next_line_def)
  with read_line_pending [OF assms(1,2)] show ?thesis by auto
qed

text \<open>The line handed out stays at the start of the scratch buffer.\<close>

lemma read_line_buffer:
  assumes ok: "iter_ok fh s" "\<not> is_done s" and p: "pending s = frame l @ rest" and l: "fits l"
    and r: "read_line fh s = Some (Some (Inr (Inr l)), s')"
  shows "\<exists>x. line_buf s' = frame l @ x"
proof (cases "peek_buf s = []")
  case True
  define b where "b = (if length (line_buf s) \<noteq> MAX_LINE_LEN then resize MAX_LINE_LEN (line_buf s) else line_buf s)"
  have "length b = MAX_LINE_LEN" by (simp add: b_def)
  from exhaustive_next_line [OF this] r show ?thesis
    using True ok streaming_frame [OF l, of rest] p
    by (auto simp: read_line_def Let_def b_def [symmetric] pending_def next_line_def kept_line_def
        split: if_splits option.splits)
next
  case False
  with ok have "peeked fh (delimiters s) (fail_on_err_lines s) (peek_buf s)" by (simp add: iter_ok_def)
  then obtain l' where "streaming fh (peek_buf s) = Ok (Complete l' (length (peek_buf s)))" by (auto elim: peekedE)
  then have "streaming fh (peek_buf s @ rd s) = Ok (Complete l' (length (peek_buf s)))"
    using streaming_complete_extend(2) by fastforce
  moreover have "streaming fh (peek_buf s @ rd s) = Ok (Complete l (length (frame l)))"
    using streaming_frame [OF l, of rest] p by (simp add: pending_def)
  ultimately have "length (peek_buf s) = length (frame l)" by auto
  then have "peek_buf s = frame l" using p by (simp add: pending_def)
  then show ?thesis using False ok(2) r by (auto simp: read_line_def Let_def split: outcome.splits)
qed

lemma observe_pending: "observe s = (r, [], f, ds, d, st) \<Longrightarrow> pending s = r"
  by (simp add: observe_def pending_def)

lemma collect_frames:
  assumes "iter_ok fh s" "\<not> is_done s" "pending s = concat (map frame ls) @ frame d @ rest"
    and "list_all (passes s) ls" "fits d" "d \<in> set (delimiters s)"
  shows "\<exists>s'. collect_lines fh s = Some (ls, None, s') \<and>
    observe s' = (rest, [], fail_on_err_lines s, delimiters s, True, Some d)"
  using assms
proof (induction ls arbitrary: s)
  case Nil
  then obtain s' where "read_line fh s = Some (None, s')"
    "observe s' = (rest, [], fail_on_err_lines s, delimiters s, True, Some d)"
    using read_line_stop [of s d rest] by auto
  then show ?case by (simp add: collect_lines.simps [of fh s])
next
  case (Cons l ls)
  then obtain s1 where s1: "read_line fh s = Some (Some (Inr (Inr l)), s1)"
    "observe s1 = (concat (map frame ls) @ frame d @ rest, [], fail_on_err_lines s, delimiters s, False, None)"
    using read_line_frame [of s l "concat (map frame ls) @ frame d @ rest"] by auto
  have same: "passes s1 = passes s" using s1(2) by (auto simp: passes_def observe_def)
  have "iter_ok fh s1" using read_line_iter_ok Cons.prems(1) s1(1) by blast
  with Cons s1(2) obtain s' where "collect_lines fh s1 = Some (ls, None, s')"
    "observe s' = (rest, [], fail_on_err_lines s, delimiters s, True, Some d)"
    using Cons.IH [of s1] observe_pending [OF s1(2)] same by (auto simp: observe_def)
  then show ?case using s1(1) by (simp add: collect_lines.simps [of fh s])
qed

text \<open>A reader whose buffered data is used up.\<close>

lemma fill_line_data: "fill_buf_line (Some handle) (Data (1 # d)) h = Some (if d = [] then Next else Break 5 (length d), h)"
  by (simp add: fill_buf_line_def decode_band_def line_as_slice_def U16_HEX_BYTES_def)

lemma passes_band:
  assumes "set (delimiters s) \<subseteq> {Flush, Delimiter, ResponseEnd}" "length d < MAX_DATA_LEN"
  shows "passes s (Data (channel_as_u8 c # d))"
  using assms by (cases c) (auto simp: passes_def check_error_def line_as_slice_def channel_as_u8_def ERR_PREFIX_def)

lemma fill_loop_line:
  assumes "iter_ok fh p" "\<not> is_done p" "pending p = frame l @ rest" "passes p l"
    and "fill_buf_line hp l h = Some (st, h1)"
  obtains p1 where "iter_ok fh p1"
    "observe p1 = (rest, [], fail_on_err_lines p, delimiters p, False, None)" "\<exists>x. line_buf p1 = frame l @ x"
    "fill_buf_loop fh hp p h = (case st of Break ofs cap \<Rightarrow> Some (Inr (ofs, cap), p1, h1)
      | Fail err \<Rightarrow> Some (Inl err, p1, h1) | Next \<Rightarrow> fill_buf_loop fh hp p1 h1)"
proof -
  obtain p1 where p1: "read_line fh p = Some (Some (Inr (Inr l)), p1)"
    "observe p1 = (rest, [], fail_on_err_lines p, delimiters p, False, None)"
    using read_line_frame [OF assms(1-4)] by auto
  moreover have "fits l" using assms(4) by (simp add: passes_def)
  ultimately have "\<exists>x. line_buf p1 = frame l @ x" using read_line_buffer [OF assms(1-3)] by blast
  moreover have "iter_ok fh p1" using read_line_iter_ok [OF assms(1) p1(1)] .
  ultimately show thesis
    using that [of p1] p1 assms(5) by (simp add: fill_buf_loop.simps [of fh hp p h] split: band_step.split)
qed

lemma read_to_end_buffered:
  assumes "get_range (line_buf (parent w)) (sb_pos w) (sb_cap w) = Some d" "0 < n"
  shows "d \<noteq> [] \<Longrightarrow> read_to_end fh hp n w h =
    map_option (\<lambda>(x, r). (d @ x, r)) (read_to_end fh hp n (w\<lparr>sb_pos := sb_cap w\<rparr>) h)"
  using assms(1)
proof (induction "length d" arbitrary: d w rule: less_induct)
  case less
  have pc: "sb_pos w \<le> sb_cap w" "sb_cap w \<le> length (line_buf (parent w))"
    and d: "d = take (sb_cap w - sb_pos w) (drop (sb_pos w) (line_buf (parent w)))"
    using less.prems(2) by (auto simp: get_range_Some)
  then have ld: "length d = sb_cap w - sb_pos w" by simp
  then have lt: "sb_pos w < sb_cap w" using less.prems(1) by (metis length_greater_0_conv zero_less_diff)
  obtain x xs where t: "take n d = x # xs" using less.prems(1) assms(2) by (cases d; cases n) auto
  let ?w = "w\<lparr>sb_pos := sb_pos w + length (take n d)\<rparr>"
  have "min (sb_pos w + length (take n d)) (sb_cap w) = sb_pos w + length (take n d)" using ld lt by simp
  then have "sidebands_read fh hp n w h = Some (Inr (take n d), ?w, h)"
    using lt less.prems(2) by (simp add: sidebands_read_def fill_buf_def consume_def Let_def)
  then have r: "read_to_end fh hp n w h = map_option (\<lambda>(y, r). (take n d @ y, r)) (read_to_end fh hp n ?w h)"
    using t by (simp add: read_to_end.simps [of fh hp n w h])
  show ?case
  proof (cases "drop n d = []")
    case True
    then have "take n d = d" by simp
    then have "?w = w\<lparr>sb_pos := sb_cap w\<rparr>" using ld lt by simp
    then show ?thesis using r \<open>take n d = d\<close> by simp
  next
    case False
    then have n: "n < sb_cap w - sb_pos w" using ld by simp
    then have "length (take n d) = n" using ld by simp
    then have g: "get_range (line_buf (parent ?w)) (sb_pos ?w) (sb_cap ?w) = Some (drop n d)"
      using pc n by (simp add: get_range_Some d drop_take add.commute del: length_take)
    have "length (drop n d) < length d" using less.prems(1) assms(2) by simp
    from less.hyps [OF this False g]
    show ?thesis unfolding r
      by (cases "read_to_end fh hp n (w\<lparr>sb_pos := sb_cap w\<rparr>) h") (auto simp: append_assoc [symmetric] simp del: append_assoc)
  qed
qed

lemma read_to_end_cong:
  assumes "fill_buf fh hp w h = fill_buf fh hp w2 h2"
  shows "read_to_end fh hp n w h = read_to_end fh hp n w2 h2"
  using assms by (simp add: read_to_end.simps [of fh hp n w h] read_to_end.simps [of fh hp n w2 h2] sidebands_read_def)

lemma fill_line_notify:
  assumes "band_fits b" "\<And>h e t. fst (handle h e t) = Continue" "fst b \<noteq> ChData \<or> snd b = []"
  shows "fill_buf_line (Some handle) (Data (channel_as_u8 (fst b) # snd b)) h = Some (Next, notify handle b h)"
proof (cases "fst b")
  case ChData
  then show ?thesis using assms by (simp add: channel_as_u8_def fill_line_data notify_def)
next
  case ChProgress
  then obtain t where "text_from (snd b) = Some t" using assms(1) by (cases "snd b") (auto simp: band_fits_def text_from_def)
  then show ?thesis using ChProgress assms(2) [of h False t]
    by (cases "handle h False t") (simp add: fill_buf_line_def as_band_def line_as_slice_def notify_def)
next
  case ChError
  then obtain t where "text_from (snd b) = Some t" using assms(1) by (cases "snd b") (auto simp: band_fits_def text_from_def)
  then show ?thesis using ChError assms(2) [of h True t]
    by (cases "handle h True t") (simp add: fill_buf_line_def as_band_def line_as_slice_def notify_def)
qed

lemma read_to_end_stop:
  assumes "iter_ok fh (parent w)" "\<not> is_done (parent w)" "pending (parent w) = frame l @ rest" "fits l"
    and "l \<in> set (delimiters (parent w))" "sb_cap w \<le> sb_pos w"
  shows "\<exists>w'. read_to_end fh hp n w h = Some ([], None, w', h) \<and>
    observe (parent w') = (rest, [], fail_on_err_lines (parent w), delimiters (parent w), True, Some l)"
proof -
  obtain p1 where "read_line fh (parent w) = Some (None, p1)"
    and o: "observe p1 = (rest, [], fail_on_err_lines (parent w), delimiters (parent w), True, Some l)"
    using read_line_stop [OF assms(1-5)] by auto
  then have "fill_buf_loop fh hp (parent w) h = Some (Inr (0, 0), p1, h)" by (simp add: fill_buf_loop.simps [of fh hp "parent w"])
  then have "fill_buf fh hp w h = Some (Inr [], w\<lparr>parent := p1, sb_cap := 0, sb_pos := 0\<rparr>, h)"
    using assms(6) by (simp add: fill_buf_drained get_range_def)
  then show ?thesis using o by (simp add: read_to_end.simps [of fh hp n w h] sidebands_read_def consume_def)
qed

lemma read_to_end_bands:
  assumes "iter_ok fh (parent w)" "\<not> is_done (parent w)" "sb_cap w \<le> sb_pos w" "0 < n"
    and "pending (parent w) = concat (map band_frame bs) @ frame stop @ rest" "list_all band_fits bs"
    and "fits stop" "stop \<in> set (delimiters (parent w))" "set (delimiters (parent w)) \<subseteq> {Flush, Delimiter, ResponseEnd}"
    and cont: "\<And>h e t. fst (handle h e t) = Continue"
  shows "\<exists>w'. read_to_end fh (Some handle) n w h = Some (bands_data bs, None, w', fold (notify handle) bs h) \<and>
    observe (parent w') = (rest, [], fail_on_err_lines (parent w), delimiters (parent w), True, Some stop)"
  using assms(1-9)
proof (induction bs arbitrary: w h)
  case Nil
  then show ?case using read_to_end_stop [of w stop rest "Some handle" n h] by (simp add: bands_data_def)
next
  case (Cons b bs)
  let ?l = "Data (channel_as_u8 (fst b) # snd b)" and ?rest = "concat (map band_frame bs) @ frame stop @ rest"
  have p: "pending (parent w) = frame ?l @ ?rest" using Cons.prems(5) by (simp add: band_frame_def [of b])
  have pass: "passes (parent w) ?l" using Cons.prems(6,9) by (intro passes_band) (auto simp: band_fits_def)
  have bf: "band_fits b" "list_all band_fits bs" using Cons.prems(6) by simp_all
  show ?case
  proof (cases "fst b \<noteq> ChData \<or> snd b = []")
    case True
    note f = fill_line_notify [of b handle h, OF bf(1) cont True]
    obtain p1 where p1: "iter_ok fh p1"
      "observe p1 = (?rest, [], fail_on_err_lines (parent w), delimiters (parent w), False, None)"
      "fill_buf_loop fh (Some handle) (parent w) h = fill_buf_loop fh (Some handle) p1 (notify handle b h)"
      using fill_loop_line [OF Cons.prems(1,2) p pass f] by auto
    let ?w = "w\<lparr>parent := p1\<rparr>"
    have "fill_buf fh (Some handle) w h = fill_buf fh (Some handle) ?w (notify handle b h)"
      using Cons.prems(3) p1(3) by (simp add: fill_buf_drained split: option.split sum.split prod.split)
    from read_to_end_cong [OF this, of n] show ?thesis
      using Cons.IH [of ?w "notify handle b h"] Cons.prems p1 True bf observe_pending [OF p1(2)]
      by (auto simp: bands_data_def observe_def)
  next
    case False
    then have b: "channel_as_u8 (fst b) = 1" "fst b = ChData" "snd b \<noteq> []" by (auto simp: channel_as_u8_def)
    have f: "fill_buf_line (Some handle) ?l h = Some (Break 5 (length (snd b)), h)"
      using b by (simp add: fill_line_data)
    obtain p1 where p1: "iter_ok fh p1"
      "observe p1 = (?rest, [], fail_on_err_lines (parent w), delimiters (parent w), False, None)"
      "\<exists>x. line_buf p1 = frame ?l @ x"
      "fill_buf_loop fh (Some handle) (parent w) h = Some (Inr (5, length (snd b)), p1, h)"
      using fill_loop_line [OF Cons.prems(1,2) p pass f] by auto
    then obtain x where x: "line_buf p1 = frame ?l @ x" by blast
    let ?w = "w\<lparr>parent := p1, sb_cap := length (snd b) + 5, sb_pos := 5\<rparr>"
    have g: "get_range (line_buf p1) 5 (length (snd b) + 5) = Some (snd b)"
      by (simp add: x get_range_def frame_simps data_frame_def)
    have "fill_buf fh (Some handle) w h = Some (Inr (snd b), ?w, h)"
      using Cons.prems(3) p1(4) g by (simp add: fill_buf_drained)
    moreover have "fill_buf fh (Some handle) ?w h = Some (Inr (snd b), ?w, h)"
      using b(3) g by (simp add: fill_buf_def)
    ultimately have "read_to_end fh (Some handle) n w h = read_to_end fh (Some handle) n ?w h"
      by (intro read_to_end_cong) simp
    then show ?thesis
      using read_to_end_buffered [of ?w "snd b" n "Some handle" h] Cons.IH [of "?w\<lparr>sb_pos := sb_cap ?w\<rparr>" h]
        Cons.prems p1 b g bf observe_pending [OF p1(2)]
      by (auto simp: bands_data_def observe_def notify_def)
  qed
qed

end

section \<open>Properties\<close>

text \<open>
  C29: Peeking is invisible.  \<^verbatim>\<open>peek_line\<close> returns what \<^verbatim>\<open>read_line\<close> would return; when that is a line, peeking
  again gives the same line and changes nothing, and the following \<^verbatim>\<open>read_line\<close> gives it and leaves
  the iterator as if there had been no peek; when it is the end of the iteration or an error,
  the iterator is where \<^verbatim>\<open>read_line\<close> would have left it.  Peeking panics exactly when reading does.
\<close>

theorem peek_is_invisible:
  assumes "faster_hex_spec fh" and "iter_ok fh s"
  shows "case peek_line fh s of
      None \<Rightarrow> read_line fh s = None
    | Some (res, s1) \<Rightarrow> iter_ok fh s1 \<and>
        (\<exists>s2. read_line fh s = Some (res, s2) \<and> iter_ok fh s2 \<and>
          (if (\<exists>l. res = Some (Inr (Inr l)))
           then peek_line fh s1 = Some (res, s1) \<and>
             (\<exists>s3. read_line fh s1 = Some (res, s3) \<and> observe s3 = observe s2)
           else observe s1 = observe s2))"
  using faster_hex_spec.peek_then_read [OF assms] faster_hex_spec.read_line_iter_ok [OF assms]
  by (auto split: option.splits)

theorem peek_is_invisible_witness:
  "case peek_line reference_hex (line_iter_new (lit ''0007hi0000'') [Flush]) of
     None \<Rightarrow> read_line reference_hex (line_iter_new (lit ''0007hi0000'') [Flush]) = None
   | Some (res, s1) \<Rightarrow> iter_ok reference_hex s1"
  using peek_is_invisible [OF ref_hex.faster_hex_spec_axioms iter_ok_new, of "lit ''0007hi0000''" "[Flush]"]
  by (auto split: option.splits)

text \<open>
  On an input that consists of lines followed by a delimiter, reading lines until there are none
  delivers exactly these lines in order, ends without an error, reports the delimiter in \<^verbatim>\<open>stopped_at\<close>,
  consumes nothing behind it, and \<^verbatim>\<open>reset\<close> makes the iterator ready for what follows.
\<close>

theorem read_line_delivers_until_delimiter:
  assumes "faster_hex_spec fh" and "iter_ok fh s" and "\<not> is_done s"
    and "pending s = concat (map frame ls) @ frame d @ rest"
    and "list_all (passes s) ls" and "fits d" and "d \<in> set (delimiters s)"
  shows "\<exists>s'. collect_lines fh s = Some (ls, None, s') \<and> is_done s' \<and> stopped_at s' = Some d \<and> pending s' = rest \<and>
    read_line fh s' = Some (None, s') \<and>
    iter_ok fh (reset s') \<and> \<not> is_done (reset s') \<and> pending (reset s') = rest \<and> delimiters (reset s') = delimiters s"
  using faster_hex_spec.collect_frames [OF assms]
  by (auto simp: observe_def pending_def reset_def reset_with_def iter_ok_def read_line_def)

theorem read_line_delivers_until_delimiter_witness:
  "\<exists>s'. collect_lines reference_hex (line_iter_new (frame (Data (lit ''a'')) @ frame Delimiter @ frame Flush @ lit ''rest'') [Flush]) =
       Some ([Data (lit ''a''), Delimiter], None, s') \<and> stopped_at s' = Some Flush \<and> pending s' = lit ''rest''"
proof -
  let ?s = "line_iter_new (frame (Data (lit ''a'')) @ frame Delimiter @ frame Flush @ lit ''rest'') [Flush]"
  have "\<not> is_done ?s" "pending ?s = concat (map frame [Data (lit ''a''), Delimiter]) @ frame Flush @ lit ''rest''"
    "list_all (passes ?s) [Data (lit ''a''), Delimiter]" "fits Flush" "Flush \<in> set (delimiters ?s)"
    by (simp_all add: line_iter_new_def pending_def passes_def MAX_DATA_LEN_def)
  from read_line_delivers_until_delimiter [OF ref_hex.faster_hex_spec_axioms iter_ok_new this] show ?thesis by blast
qed

text \<open>
  C28: The side-band reader separates the channels.  Reading it to the end, with a buffer of any positive
  size, delivers exactly the concatenated payloads of the data band in order; the progress handler is
  called once for every progress and error message, in order, with the text and the right kind; and the
  reader stops at the delimiter without consuming what follows it, ready to go on after it is dropped.
\<close>

theorem sidebands_separate_channels:
  assumes "faster_hex_spec fh" and "iter_ok fh p" and "\<not> is_done p" and "0 < n"
    and "pending p = concat (map band_frame bs) @ frame stop @ rest" and "list_all band_fits bs"
    and "fits stop" and "stop \<in> set (delimiters p)" and "set (delimiters p) \<subseteq> {Flush, Delimiter, ResponseEnd}"
    and "\<forall>h e t. fst (handle h e t) = Continue"
  shows "\<exists>w. read_to_end fh (Some handle) n (sidebands_new p) h =
      Some (bands_data bs, None, w, fold (notify handle) bs h) \<and>
    stopped_at (parent w) = Some stop \<and> pending (parent w) = rest \<and>
    iter_ok fh (sidebands_drop w) \<and> \<not> is_done (sidebands_drop w) \<and> pending (sidebands_drop w) = rest"
proof -
  have "\<exists>w'. read_to_end fh (Some handle) n (sidebands_new p) h = Some (bands_data bs, None, w', fold (notify handle) bs h) \<and>
      observe (parent w') = (rest, [], fail_on_err_lines p, delimiters p, True, Some stop)"
    using faster_hex_spec.read_to_end_bands [OF assms(1), of "sidebands_new p" n bs stop rest handle h] assms
    by (simp add: sidebands_new_def)
  then show ?thesis
    by (auto simp: observe_def pending_def sidebands_drop_def reset_def reset_with_def iter_ok_def)
qed

theorem sidebands_separate_channels_witness:
  "\<exists>w. read_to_end reference_hex (Some (\<lambda>h e t. (Continue, h @ [(e, t)]))) 3 (sidebands_new (line_iter_new
       (concat (map band_frame [(ChData, lit ''pack''), (ChProgress, lit ''50%''), (ChData, lit ''data'')]) @
        frame Flush @ []) [Flush])) [] =
     Some (lit ''packdata'', None, w, [(False, lit ''50%'')])"
proof -
  let ?bs = "[(ChData, lit ''pack''), (ChProgress, lit ''50%''), (ChData, lit ''data'')]"
  let ?p = "line_iter_new (concat (map band_frame ?bs) @ frame Flush @ []) [Flush]"
  have "\<not> is_done ?p" "0 < (3 :: nat)" "pending ?p = concat (map band_frame ?bs) @ frame Flush @ []" "list_all band_fits ?bs"
    "fits Flush" "Flush \<in> set (delimiters ?p)" "set (delimiters ?p) \<subseteq> {Flush, Delimiter, ResponseEnd}"
    by (simp_all add: line_iter_new_def pending_def band_fits_def MAX_DATA_LEN_def)
  note * = sidebands_separate_channels [OF ref_hex.faster_hex_spec_axioms iter_ok_new this,
      of "\<lambda>h e t. (Continue, h @ [(e, t)])" "[]"]
  have "bands_data ?bs = lit ''packdata''"
    "fold (notify (\<lambda>h e t. (Continue, h @ [(e, t)]))) ?bs [] = [(False, lit ''50%'')]"
    by code_simp+
  with * show ?thesis by auto
qed

text \<open>
  C30: On a stream, \<^verbatim>\<open>read_line_inner\<close> agrees with decoding a slice: it delivers the line \<^verbatim>\<open>streaming\<close> finds
  at the start of the input and consumes just its bytes, passes on the same decoding errors, and
  fails with an I/O error when the input ends early.  The exception is a line that announces more than
  65520 bytes, for which the slice decoder returns an error while the reader panics.
\<close>

theorem reader_agrees_with_slice_decoder:
  assumes "faster_hex_spec fh" and "length buf = MAX_LINE_LEN"
  shows "map_option (\<lambda>(res, r', b). (res, r')) (read_line_inner fh r buf) = (case streaming fh r of
      Ok (Complete l n) \<Rightarrow> Some (Inr (Inr l), drop n r)
    | Ok (Incomplete k) \<Rightarrow> Some (Inl UnexpectedEnd, [])
    | Err (DataLengthLimitExceeded n) \<Rightarrow> None
    | Err e \<Rightarrow> Some (Inr (Inl e), drop 4 r)
    | Panic \<Rightarrow> None)"
  unfolding faster_hex_spec.read_line_inner_streaming [OF assms]
  by (simp split: outcome.split line_stream.split line_error.split)

theorem reader_agrees_with_slice_decoder_witness:
  "map_option (\<lambda>(res, r', b). (res, r')) (read_line_inner reference_hex (lit ''fff5x'') (replicate MAX_LINE_LEN 0)) = None"
proof -
  have "hex_decode reference_hex (lit ''fff5'') 2 = Ok [0xff, 0xf5]" "lit ''fff5'' \<noteq> FLUSH_LINE"
    "lit ''fff5'' \<noteq> DELIMITER_LINE" "lit ''fff5'' \<noteq> RESPONSE_END_LINE" by code_simp+
  then have h: "hex_prefix reference_hex (lit ''fff5'') = Ok (Wanted 0xfff1)"
    by (simp only: hex_prefix_def) (simp add: be_nat_def U16_HEX_BYTES_def)
  have "streaming reference_hex (lit ''fff5'' @ lit ''x'') = Err (DataLengthLimitExceeded 0xfff5)"
    using h by (simp add: streaming_def get_range_def packetline_consts)
  then have s: "streaming reference_hex (lit ''fff5x'') = Err (DataLengthLimitExceeded 0xfff5)" by simp
  show ?thesis
    using reader_agrees_with_slice_decoder [OF ref_hex.faster_hex_spec_axioms, of "replicate MAX_LINE_LEN 0" "lit ''fff5x''"]
    unfolding s by simp
qed

end
