(* ===== verification/Gix_Validate_Name.thy ===== *)
theory Gix_Validate_Name
  imports Gix_External
begin

text \<open>
  The crate \<^verbatim>\<open>gix-validate\<close>, names: tag names (\<^verbatim>\<open>tag.rs\<close>), reference names and their sanitizer
  (\<^verbatim>\<open>reference.rs\<close>) and submodule names (\<^verbatim>\<open>submodule.rs\<close>).  \<open>valid_name\<close> states the rules of git for
  reference names without reference to an algorithm; the lemmas show that validation accepts exactly these
  names and that sanitizing gives such a name, leaves valid names alone, and when it panics.
\<close>

section \<open>Tag names\<close>

datatype tag_error = InvalidByte bytes | StartsWithSlash | RepeatedSlash | RepeatedDot | LockFileSuffix | ReflogPortion
  | Asterisk | StartsWithDot | EndsWithDot | EndsWithSlash | Empty

datatype name_mode = Sanitize | Validate

abbreviation SLASH :: u8 where "SLASH \<equiv> 0x2f"
abbreviation DOT :: u8 where "DOT \<equiv> 0x2e"
abbreviation DASH :: u8 where "DASH \<equiv> 0x2d"

definition lock_suffix :: bytes where "lock_suffix = lit ''.lock''"

definition is_invalid_byte :: "u8 \<Rightarrow> bool" where
  "is_invalid_byte b \<longleftrightarrow> b \<in> {0x5c, 0x5e, 0x3a, 0x5b, 0x3f, 0x20, 0x7e} \<or> b \<le> 0x1f \<or> b = 0x7f"

text \<open>\<^verbatim>\<open>while out.ends_with(b".lock") { out.truncate(..) }\<close>\<close>

function strip_lock :: "bytes \<Rightarrow> bytes" where
  "strip_lock out = (if suffix lock_suffix out then strip_lock (take (length out - 5) out) else out)"
  by pat_completeness auto
termination
  by (relation "measure length") (auto simp: suffix_def lock_suffix_def)

declare strip_lock.simps [simp del]

text \<open>
  The loop over the bytes of the input.  \<open>name_byte\<close> is its body for the byte \<open>c\<close> at \<open>byte_pos\<close>: from the start of
  the current component and the sanitized output, which is absent when validating, to their new values.
\<close>

definition push_dash :: "nat \<Rightarrow> bytes option \<Rightarrow> tag_error \<Rightarrow> (nat \<times> bytes option, tag_error) outcome" where
  "push_dash component_end out err =
     (case out of Some o1 \<Rightarrow> Ok (component_end, Some (o1 @ [DASH])) | None \<Rightarrow> Err err)"

definition skip_byte :: "nat \<Rightarrow> bytes option \<Rightarrow> tag_error \<Rightarrow> (nat \<times> bytes option, tag_error) outcome" where
  "skip_byte component_end out err = (case out of Some o1 \<Rightarrow> Ok (component_end, out) | None \<Rightarrow> Err err)"

definition check_lock :: "bstr \<Rightarrow> bytes \<Rightarrow> bytes option \<Rightarrow> (bytes option, tag_error) outcome" where
  "check_lock bs component out =
     (if ends_with_str bs component lock_suffix then
        (case out of Some o1 \<Rightarrow> Ok (Some (strip_lock o1)) | None \<Rightarrow> Err LockFileSuffix)
      else Ok out)"

definition other_byte :: "bstr \<Rightarrow> bytes \<Rightarrow> nat \<Rightarrow> u8 \<Rightarrow> nat \<Rightarrow> bytes option \<Rightarrow> (nat \<times> bytes option, tag_error) outcome" where
  "other_byte bs input byte_pos c component_end out =
     and_then
       (if c = SLASH then
          and_then (expect (get_range input component_end byte_pos)) (\<lambda>component.
            and_then (check_lock bs component out) (\<lambda>out. Ok (byte_pos, out)))
        else Ok (component_end, out))
       (\<lambda>(component_end, out).
         let out = map_option (\<lambda>o1. o1 @ [c]) out in
         if byte_pos = length input - 1 then
           and_then (expect (get_range input (component_end + 1) (length input))) (\<lambda>component.
             and_then (check_lock bs component out) (\<lambda>out. Ok (component_end, out)))
         else Ok (component_end, out))"

definition name_byte :: "bstr \<Rightarrow> bytes \<Rightarrow> nat \<Rightarrow> u8 \<Rightarrow> u8 \<Rightarrow> nat \<Rightarrow> bytes option \<Rightarrow> (nat \<times> bytes option, tag_error) outcome" where
  "name_byte bs input byte_pos c previous component_end out =
     (if is_invalid_byte c then push_dash component_end out (InvalidByte [c])
      else if c = 0x2a then push_dash component_end out Asterisk
      else if c = DOT \<and> previous = DOT then skip_byte component_end out RepeatedDot
      else if c = DOT \<and> previous = SLASH then push_dash component_end out StartsWithDot
      else if c = 0x7b \<and> previous = 0x40 then push_dash component_end out ReflogPortion
      else if c = SLASH \<and> previous = SLASH then skip_byte component_end out RepeatedSlash
      else other_byte bs input byte_pos c component_end out)"

fun name_loop :: "bstr \<Rightarrow> bytes \<Rightarrow> nat \<Rightarrow> bytes \<Rightarrow> u8 \<Rightarrow> nat \<Rightarrow> bytes option \<Rightarrow> (bytes option, tag_error) outcome" where
  "name_loop bs input byte_pos [] previous component_end out = Ok out"
| "name_loop bs input byte_pos (c # rest) previous component_end out =
     and_then (name_byte bs input byte_pos c previous component_end out) (\<lambda>(component_end, out).
       name_loop bs input (byte_pos + 1) rest c component_end out)"

text \<open>Popping trailing slashes and removing leading ones.\<close>

definition trim_slashes :: "bytes \<Rightarrow> bytes" where
  "trim_slashes out = dropWhile (\<lambda>c. c = SLASH) (rev (dropWhile (\<lambda>c. c = SLASH) (rev out)))"

definition name_inner :: "bstr \<Rightarrow> bytes \<Rightarrow> name_mode \<Rightarrow> (bytes option, tag_error) outcome" where
  "name_inner bs input mode =
     (let out = (case mode of Sanitize \<Rightarrow> Some [] | Validate \<Rightarrow> None) in
      if input = [] then (case out of Some o1 \<Rightarrow> Ok (Some (o1 @ [DASH])) | None \<Rightarrow> Err Empty)
      else if last input = SLASH \<and> out = None then Err EndsWithSlash
      else if hd input = SLASH \<and> out = None then Err StartsWithSlash
      else and_then (name_loop bs input 0 input 0 0 out) (\<lambda>out.
        let out = map_option trim_slashes out in
        and_then (expect (get_at (case out of Some o1 \<Rightarrow> o1 | None \<Rightarrow> input) 0)) (\<lambda>first.
          and_then
            (if first = DOT then (case out of Some o1 \<Rightarrow> Ok (Some (o1[0 := DASH])) | None \<Rightarrow> Err StartsWithDot)
             else Ok out)
            (\<lambda>out.
              let b = (case out of Some o1 \<Rightarrow> o1 | None \<Rightarrow> input); last1 = length b - 1 in
              and_then (expect (get_at b last1)) (\<lambda>final.
                if final = DOT then
                  (case out of Some o1 \<Rightarrow> Ok (Some (o1[length o1 - 1 := DASH])) | None \<Rightarrow> Err EndsWithDot)
                else Ok out)))))"

definition tag_name :: "bstr \<Rightarrow> bytes \<Rightarrow> (bytes, tag_error) outcome" where
  "tag_name bs input = and_then (name_inner bs input Validate) (\<lambda>r. case r of None \<Rightarrow> Ok input | Some _ \<Rightarrow> Panic)"

section \<open>Reference names\<close>

datatype ref_name_error = Tag tag_error | SomeLowercase

datatype ref_mode = ModeComplete | ModePartial | ModePartialSanitize

definition ref_validate :: "bstr \<Rightarrow> bytes \<Rightarrow> ref_mode \<Rightarrow> (bytes option, ref_name_error) outcome" where
  "ref_validate bs path mode =
     and_then (map_err Tag (name_inner bs path
         (case mode of ModeComplete \<Rightarrow> Validate | ModePartial \<Rightarrow> Validate | ModePartialSanitize \<Rightarrow> Sanitize))) (\<lambda>out.
       if mode = ModeComplete then
         let input = (case out of Some b \<Rightarrow> b | None \<Rightarrow> path); saw_slash = (find_byte bs input SLASH \<noteq> None) in
         if \<not> saw_slash \<and> \<not> list_all (\<lambda>c. is_ascii_uppercase c \<or> c = 0x5f) input then Err SomeLowercase else Ok out
       else Ok out)"

definition ref_name :: "bstr \<Rightarrow> bytes \<Rightarrow> (bytes, ref_name_error) outcome" where
  "ref_name bs path = and_then (ref_validate bs path ModeComplete) (\<lambda>r. case r of None \<Rightarrow> Ok path | Some _ \<Rightarrow> Panic)"

definition ref_name_partial :: "bstr \<Rightarrow> bytes \<Rightarrow> (bytes, ref_name_error) outcome" where
  "ref_name_partial bs path = and_then (ref_validate bs path ModePartial) (\<lambda>r. case r of None \<Rightarrow> Ok path | Some _ \<Rightarrow> Panic)"

definition name_partial_or_sanitize :: "bstr \<Rightarrow> bytes \<Rightarrow> bytes or_panic" where
  "name_partial_or_sanitize bs path = (case ref_validate bs path ModePartialSanitize of Ok (Some out) \<Rightarrow> Some out | _ \<Rightarrow> None)"

section \<open>Submodule names\<close>

datatype submodule_error = SubmoduleEmpty | ParentComponent

definition submodule_name :: "bstr \<Rightarrow> bytes \<Rightarrow> (bytes, submodule_error) outcome" where
  "submodule_name bs name =
     (if name = [] then Err SubmoduleEmpty
      else case find_str bs name (lit ''..'') of
        Some pos \<Rightarrow> and_then (ok_or (get_at name (pos + 2)) ParentComponent) (\<lambda>b.
          if b = SLASH \<or> b = 0x5c then Err ParentComponent else Ok name)
      | None \<Rightarrow> Ok name)"

section \<open>The rules for names\<close>

definition ok_byte :: "u8 \<Rightarrow> bool" where
  "ok_byte b \<longleftrightarrow> \<not> is_invalid_byte b \<and> b \<noteq> 0x2a"

definition ok_pair :: "u8 \<Rightarrow> u8 \<Rightarrow> bool" where
  "ok_pair a b \<longleftrightarrow> \<not> (a = DOT \<and> b = DOT) \<and> \<not> (a = SLASH \<and> b = DOT) \<and> \<not> (a = 0x40 \<and> b = 0x7b) \<and> \<not> (a = SLASH \<and> b = SLASH)"

definition valid_name :: "bytes \<Rightarrow> bool" where
  "valid_name n \<longleftrightarrow> n \<noteq> [] \<and> hd n \<notin> {SLASH, DOT} \<and> last n \<notin> {SLASH, DOT} \<and>
     list_all ok_byte n \<and> successively ok_pair n \<and>
     \<not> suffix lock_suffix n \<and> \<not> sublist (lock_suffix @ [SLASH]) n"

section \<open>Components that end in the lock suffix\<close>

lemma slash_not_in_lock: "SLASH \<notin> set lock_suffix"
  by code_simp

lemma length_lock [simp]: "length lock_suffix = 5"
  by (simp add: lock_suffix_def)

lemma suffix_lock_drop:
  assumes "ce = 0 \<or> ce < length s \<and> s ! ce = SLASH"
  shows "suffix lock_suffix (drop ce s) \<longleftrightarrow> suffix lock_suffix s"
proof
  assume "suffix lock_suffix s"
  then obtain x where s: "s = x @ lock_suffix" by (auto simp: suffix_def)
  have "ce \<le> length x"
  proof (rule ccontr)
    assume "\<not> ce \<le> length x"
    then have "s ! ce = lock_suffix ! (ce - length x)" "ce - length x < length lock_suffix"
      using assms s by (auto simp: nth_append)
    then have "s ! ce \<in> set lock_suffix" by (metis nth_mem)
    with assms \<open>\<not> ce \<le> length x\<close> slash_not_in_lock show False by auto
  qed
  then show "suffix lock_suffix (drop ce s)" using s by (simp add: suffix_def)
qed (metis suffix_drop suffix_order.trans)

lemma suffix_lock_drop_Suc:
  assumes "ce < length s" "ce = 0 \<or> s ! ce = SLASH"
  shows "suffix lock_suffix (drop (ce + 1) s) \<longleftrightarrow> suffix lock_suffix s \<and> s \<noteq> lock_suffix"
proof
  assume a: "suffix lock_suffix (drop (ce + 1) s)"
  then have "length lock_suffix \<le> length (drop (ce + 1) s)" by (rule suffix_length_le)
  moreover have "suffix (drop (ce + 1) s) s" by (rule suffix_drop)
  ultimately show "suffix lock_suffix s \<and> s \<noteq> lock_suffix"
    using a assms(1) suffix_order.trans by fastforce
next
  assume "suffix lock_suffix s \<and> s \<noteq> lock_suffix"
  then obtain x where s: "s = x @ lock_suffix" "x \<noteq> []" by (auto simp: suffix_def)
  have "ce < length x"
  proof (rule ccontr)
    assume "\<not> ce < length x"
    then have "s ! ce = lock_suffix ! (ce - length x)" "ce - length x < length lock_suffix"
      using assms s by (auto simp: nth_append)
    then have "s ! ce \<in> set lock_suffix" by (metis nth_mem)
    with assms \<open>\<not> ce < length x\<close> s slash_not_in_lock show False by auto
  qed
  then show "suffix lock_suffix (drop (ce + 1) s)" using s by (simp add: suffix_def)
qed

lemma sublist_lock_iff:
  "sublist (lock_suffix @ [SLASH]) n \<longleftrightarrow> (\<exists>i<length n. n ! i = SLASH \<and> suffix lock_suffix (take i n))"
proof
  assume "sublist (lock_suffix @ [SLASH]) n"
  then obtain a b where n: "n = a @ (lock_suffix @ [SLASH]) @ b" by (auto simp: sublist_def)
  then show "\<exists>i<length n. n ! i = SLASH \<and> suffix lock_suffix (take i n)"
    by (intro exI [of _ "length (a @ lock_suffix)"]) (auto simp: nth_append suffix_def)
next
  assume "\<exists>i<length n. n ! i = SLASH \<and> suffix lock_suffix (take i n)"
  then obtain i x where i: "i < length n" "n ! i = SLASH" "take i n = x @ lock_suffix" by (auto simp: suffix_def)
  then have "n = x @ (lock_suffix @ [SLASH]) @ drop (Suc i) n"
    using id_take_nth_drop [of i n] by simp
  then show "sublist (lock_suffix @ [SLASH]) n" unfolding sublist_def by blast
qed

section \<open>One step of the loop\<close>

definition comp_ok :: "bytes \<Rightarrow> bytes \<Rightarrow> nat \<Rightarrow> bool" where
  "comp_ok input pre ce \<longleftrightarrow> ce = 0 \<or> ce < length pre \<and> pre ! ce = SLASH"

text \<open>Whether the last component of the whole input ends in the lock suffix, as the code tests it.\<close>

definition end_lock :: "bytes \<Rightarrow> bytes \<Rightarrow> bool" where
  "end_lock input rest \<longleftrightarrow> rest = [] \<and> suffix lock_suffix input \<and> input \<noteq> lock_suffix"

context bstr_spec
begin

lemma mid_component:
  assumes "input = pre @ rem" "comp_ok input pre ce"
  shows "get_range input ce (length pre) = Some (drop ce pre)"
    "ends_with_str bs (drop ce pre) lock_suffix \<longleftrightarrow> suffix lock_suffix pre"
  using assms suffix_lock_drop [of ce pre] by (auto simp: comp_ok_def get_range_def ends_with_str)

lemma last_component:
  assumes "input = pre @ [c]" "comp_ok input pre ce"
  defines "ce' \<equiv> (if c = SLASH then length pre else ce)"
  shows "get_range input (ce' + 1) (length input) = Some (drop (ce' + 1) input)"
    "ends_with_str bs (drop (ce' + 1) input) lock_suffix \<longleftrightarrow> end_lock input []"
proof -
  have "ce' < length input" "ce' = 0 \<or> input ! ce' = SLASH"
    using assms by (auto simp: comp_ok_def nth_append)
  then show "get_range input (ce' + 1) (length input) = Some (drop (ce' + 1) input)"
    "ends_with_str bs (drop (ce' + 1) input) lock_suffix \<longleftrightarrow> end_lock input []"
    using suffix_lock_drop_Suc [of ce' input] by (auto simp: get_range_def ends_with_str end_lock_def)
qed

lemma name_byte_plain:
  assumes i: "input = pre @ c # rest" and ce: "comp_ok input pre ce" and ok: "ok_byte c" "ok_pair prev c"
  shows "name_byte bs input (length pre) c prev ce out =
    (if out = None \<and> (c = SLASH \<and> suffix lock_suffix pre \<or> end_lock input rest) then Err LockFileSuffix
     else let out = (if c = SLASH \<and> suffix lock_suffix pre then map_option strip_lock out else out);
              out = map_option (\<lambda>o1. o1 @ [c]) out;
              out = (if end_lock input rest then map_option strip_lock out else out)
          in Ok (if c = SLASH then length pre else ce, out))"
proof -
  define k where "k = (if c = SLASH then length pre else ce)"
  have last: "(length pre = length input - 1) = (rest = [])" using i by simp
  note mid = mid_component [OF i ce]
  have l: "get_range input (k + 1) (length input) = Some (drop (k + 1) input)"
    "ends_with_str bs (drop (k + 1) input) lock_suffix = end_lock input []" if "rest = []"
    unfolding k_def using last_component [of input pre c ce] i ce that by simp_all
  have plain: "name_byte bs input (length pre) c prev ce out = other_byte bs input (length pre) c ce out"
  proof -
    have "\<not> is_invalid_byte c" "c \<noteq> 0x2a" "\<not> (c = DOT \<and> prev = DOT)" "\<not> (c = DOT \<and> prev = SLASH)"
      "\<not> (c = 0x7b \<and> prev = 0x40)" "\<not> (c = SLASH \<and> prev = SLASH)"
      using ok unfolding ok_byte_def ok_pair_def by blast+
    then show ?thesis by (simp only: name_byte_def if_False)
  qed
  have first: "(if c = SLASH then
        and_then (expect (get_range input ce (length pre))) (\<lambda>component.
          and_then (check_lock bs component out) (\<lambda>out. Ok (length pre, out)))
      else Ok (ce, out)) =
    (if c = SLASH \<and> suffix lock_suffix pre \<and> out = None then Err LockFileSuffix
     else Ok (k, if c = SLASH \<and> suffix lock_suffix pre then map_option strip_lock out else out))"
    by (cases out) (simp_all add: mid check_lock_def k_def)
  have el: "end_lock input rest \<longleftrightarrow> rest = [] \<and> end_lock input []" by (auto simp: end_lock_def)
  have second: "(if rest = [] then
        and_then (expect (get_range input (k + 1) (length input))) (\<lambda>component.
          and_then (check_lock bs component o2) (\<lambda>out. Ok (k, out)))
      else Ok (k, o2)) =
    (if o2 = None \<and> end_lock input rest then Err LockFileSuffix
     else Ok (k, if end_lock input rest then map_option strip_lock o2 else o2))" for o2
  proof (cases "rest = []")
    case True
    show ?thesis unfolding el check_lock_def l(1) [OF True] expect_simps and_then.simps l(2) [OF True]
      using True by (cases o2) simp_all
  qed (simp add: el)
  show ?thesis
    unfolding plain other_byte_def first last Let_def
    by (cases "c = SLASH \<and> suffix lock_suffix pre \<and> out = None") (auto simp: second k_def [symmetric])
qed

lemma name_byte_special:
  assumes "\<not> (ok_byte c \<and> ok_pair prev c)"
  shows "\<exists>e. name_byte bs input n c prev ce None = Err e"
    "name_byte bs input n c prev ce (Some o1) = Ok (ce,
       Some (if ok_byte c \<and> (c = DOT \<and> prev = DOT \<or> c = SLASH \<and> prev = SLASH) then o1 else o1 @ [DASH]))"
  using assms unfolding name_byte_def ok_byte_def ok_pair_def push_dash_def skip_byte_def
  by (auto split: if_splits)

end

section \<open>Validation\<close>

text \<open>The slashes of \<open>rem\<close> that do not follow the lock suffix, behind \<open>pre\<close>.\<close>

definition no_lock_components :: "bytes \<Rightarrow> bytes \<Rightarrow> bool" where
  "no_lock_components pre rem \<longleftrightarrow> (\<forall>i<length rem. rem ! i = SLASH \<longrightarrow> \<not> suffix lock_suffix (pre @ take i rem))"

lemma no_lock_Cons:
  "no_lock_components pre (c # rem) \<longleftrightarrow> \<not> (c = SLASH \<and> suffix lock_suffix pre) \<and> no_lock_components (pre @ [c]) rem"
  by (auto simp: no_lock_components_def less_Suc_eq_0_disj)

lemma no_lock_Nil [simp]: "no_lock_components pre []"
  by (simp add: no_lock_components_def)

lemma comp_ok_next: "comp_ok input pre ce \<Longrightarrow> comp_ok input (pre @ [c]) (if c = SLASH then length pre else ce)"
  by (auto simp: comp_ok_def nth_append)

lemma no_lock_sublist: "no_lock_components [] n \<longleftrightarrow> \<not> sublist (lock_suffix @ [SLASH]) n"
  by (auto simp: no_lock_components_def sublist_lock_iff)

lemma valid_not_lock: "valid_name n \<Longrightarrow> n \<noteq> lock_suffix"
  by (auto simp: valid_name_def lock_suffix_def)

lemma pair_zero: "ok_pair 0 c"
  by (simp add: ok_pair_def)

lemma successively_zero: "successively ok_pair (0 # n) \<longleftrightarrow> successively ok_pair n"
  by (cases n) (simp_all add: pair_zero)

context bstr_spec
begin

lemma validate_loop:
  assumes "input = pre @ rem" "comp_ok input pre ce"
  shows "if list_all ok_byte rem \<and> successively ok_pair (prev # rem) \<and> no_lock_components pre rem \<and>
      \<not> (rem \<noteq> [] \<and> suffix lock_suffix input \<and> input \<noteq> lock_suffix)
    then name_loop bs input (length pre) rem prev ce None = Ok None
    else \<exists>e. name_loop bs input (length pre) rem prev ce None = Err e"
  using assms
proof (induction rem arbitrary: pre prev ce)
  case (Cons c rest)
  show ?case
  proof (cases "ok_byte c \<and> ok_pair prev c \<and> \<not> (c = SLASH \<and> suffix lock_suffix pre) \<and> \<not> end_lock input rest")
    case True
    then have "name_byte bs input (length pre) c prev ce None = Ok (if c = SLASH then length pre else ce, None)"
      using name_byte_plain [OF Cons.prems(1,2), of prev None] by (simp add: Let_def)
    then have l: "name_loop bs input (length pre) (c # rest) prev ce None =
        name_loop bs input (length (pre @ [c])) rest c (if c = SLASH then length pre else ce) None"
      by simp
    have eq: "(list_all ok_byte (c # rest) \<and> successively ok_pair (prev # c # rest) \<and> no_lock_components pre (c # rest) \<and>
        \<not> (c # rest \<noteq> [] \<and> suffix lock_suffix input \<and> input \<noteq> lock_suffix)) =
      (list_all ok_byte rest \<and> successively ok_pair (c # rest) \<and> no_lock_components (pre @ [c]) rest \<and>
        \<not> (rest \<noteq> [] \<and> suffix lock_suffix input \<and> input \<noteq> lock_suffix))"
      using True by (cases "rest = []") (auto simp: no_lock_Cons end_lock_def)
    have "input = (pre @ [c]) @ rest" using Cons.prems(1) by simp
    then show ?thesis unfolding l eq by (rule Cons.IH [OF _ comp_ok_next [OF Cons.prems(2)]])
  next
    case False
    have "\<exists>e. name_byte bs input (length pre) c prev ce None = Err e"
    proof (cases "ok_byte c \<and> ok_pair prev c")
      case True
      with False show ?thesis using name_byte_plain [OF Cons.prems(1,2), of prev None] by auto
    qed (rule name_byte_special)
    then have "\<exists>e. name_loop bs input (length pre) (c # rest) prev ce None = Err e" by auto
    moreover have "\<not> (list_all ok_byte (c # rest) \<and> successively ok_pair (prev # c # rest) \<and> no_lock_components pre (c # rest) \<and>
      \<not> (c # rest \<noteq> [] \<and> suffix lock_suffix input \<and> input \<noteq> lock_suffix))"
      using False by (auto simp: no_lock_Cons end_lock_def)
    ultimately show ?thesis by (simp only: if_False)
  qed
qed simp

lemma name_inner_Validate:
  "if valid_name input then name_inner bs input Validate = Ok None else \<exists>e. name_inner bs input Validate = Err e"
proof (cases "input = [] \<or> last input = SLASH \<or> hd input = SLASH")
  case True
  then show ?thesis by (auto simp: name_inner_def valid_name_def)
next
  case False
  then have ne: "input \<noteq> []" "last input \<noteq> SLASH" "hd input \<noteq> SLASH" by simp_all
  define good where "good \<longleftrightarrow> list_all ok_byte input \<and> successively ok_pair input \<and> no_lock_components [] input \<and>
      \<not> (suffix lock_suffix input \<and> input \<noteq> lock_suffix)"
  have loop: "if good then name_loop bs input 0 input 0 0 None = Ok None else \<exists>e. name_loop bs input 0 input 0 0 None = Err e"
    using validate_loop [of input "[]" input 0 0] ne(1) unfolding good_def
    by (auto simp: comp_ok_def successively_zero split: if_splits)
  have ends: "get_at input 0 = Some (hd input)" "get_at input (length input - 1) = Some (last input)"
    using ne(1) by (simp_all add: get_at_def hd_conv_nth last_conv_nth)
  have v: "valid_name input \<longleftrightarrow> good \<and> hd input \<noteq> DOT \<and> last input \<noteq> DOT"
    using ne by (auto simp: valid_name_def good_def no_lock_sublist lock_suffix_def)
  show ?thesis
  proof (cases good)
    case True
    then have "name_loop bs input 0 input 0 0 None = Ok None" using loop by simp
    then show ?thesis using ne ends True unfolding v by (simp add: name_inner_def Let_def)
  next
    case False
    then obtain e where "name_loop bs input 0 input 0 0 None = Err e" using loop by auto
    then show ?thesis using ne False unfolding v by (simp add: name_inner_def Let_def)
  qed
qed

end

section \<open>Sanitizing\<close>

definition prev_of :: "bytes \<Rightarrow> u8" where
  "prev_of pre = (if pre = [] then 0 else last pre)"

text \<open>What holds of the output at every moment, and of the output in relation to the input seen so far.\<close>

definition clean :: "bytes \<Rightarrow> bool" where
  "clean out \<longleftrightarrow> list_all ok_byte out \<and> successively ok_pair out \<and> \<not> sublist (lock_suffix @ [SLASH]) out"

definition tracks :: "bytes \<Rightarrow> bytes \<Rightarrow> bool" where
  "tracks pre out \<longleftrightarrow> length out \<le> length pre \<and>
     (out \<noteq> [] \<and> last out \<in> {DOT, SLASH, 0x40} \<longrightarrow> prev_of pre = last out) \<and>
     (\<forall>p. p \<noteq> [] \<and> prefix p lock_suffix \<and> suffix p out \<longrightarrow> suffix p pre)"

lemma sublist_lock_snoc:
  "sublist (lock_suffix @ [SLASH]) (o1 @ [c]) \<longleftrightarrow> sublist (lock_suffix @ [SLASH]) o1 \<or> c = SLASH \<and> suffix lock_suffix o1"
  unfolding sublist_snoc by (auto dest: suffix_imp_sublist) 

lemma clean_snoc:
  "clean (o1 @ [c]) \<longleftrightarrow> clean o1 \<and> ok_byte c \<and> (o1 \<noteq> [] \<longrightarrow> ok_pair (last o1) c) \<and> \<not> (c = SLASH \<and> suffix lock_suffix o1)"
  by (auto simp: clean_def sublist_lock_snoc successively_append_iff)

lemma clean_prefix: "clean out \<Longrightarrow> prefix p out \<Longrightarrow> clean p"
  by (auto simp: clean_def prefix_def successively_append_iff) (metis sublist_append_rightI sublist_order.order.trans)

lemma strip_lock_prefix: "prefix (strip_lock out) out"
proof (induction out rule: strip_lock.induct)
  case (1 out)
  then show ?case
    by (subst strip_lock.simps) (auto intro: prefix_order.trans take_is_prefix)
qed

lemma strip_lock_not_suffix: "\<not> suffix lock_suffix (strip_lock out)"
proof (induction out rule: strip_lock.induct)
  case (1 out)
  then show ?case by (subst strip_lock.simps) simp
qed

lemma strip_lock_last:
  assumes "successively ok_pair out" "out = [] \<or> last out \<noteq> SLASH"
  shows "strip_lock out = [] \<or> last (strip_lock out) \<noteq> SLASH"
  using assms
proof (induction out rule: strip_lock.induct)
  case (1 out)
  show ?case
  proof (cases "suffix lock_suffix out")
    case True
    then obtain t where t: "out = t @ lock_suffix" by (auto simp: suffix_def)
    then have "successively ok_pair t" "t = [] \<or> last t \<noteq> SLASH"
      using "1.prems"(1) by (auto simp: successively_append_iff lock_suffix_def ok_pair_def)
    then have "strip_lock t = [] \<or> last (strip_lock t) \<noteq> SLASH" using 1 True t by simp
    then show ?thesis using True t by (subst (1 2) strip_lock.simps) simp
  next
    case False
    then show ?thesis using "1.prems" by (simp add: strip_lock.simps [of out])
  qed
qed

lemma dash_facts: "ok_byte DASH" "ok_pair x DASH" "ok_pair DASH x" "DASH \<notin> set lock_suffix"
  by (simp_all add: ok_byte_def is_invalid_byte_def ok_pair_def lock_suffix_def)

lemma suffix_snocD: "suffix p (xs @ [c]) \<Longrightarrow> p \<noteq> [] \<Longrightarrow> last p = c"
  by (auto simp: suffix_def append_eq_append_conv2 Cons_eq_append_conv)

lemma prefix_last_in: "p \<noteq> [] \<Longrightarrow> prefix p l \<Longrightarrow> last p \<in> set l"
  by (auto simp: prefix_def)

lemma tracks_other:
  assumes "length o1 \<le> length pre" "d \<notin> set lock_suffix" "d \<in> {DOT, SLASH, 0x40} \<longrightarrow> d = c"
  shows "tracks (pre @ [c]) (o1 @ [d])"
proof -
  have "\<not> (p \<noteq> [] \<and> prefix p lock_suffix \<and> suffix p (o1 @ [d]))" for p
    using suffix_snocD [of p o1 d] prefix_last_in [of p lock_suffix] assms(2) by blast
  moreover have "last (o1 @ [d]) = d" "prev_of (pre @ [c]) = c" by (simp_all add: prev_of_def)
  moreover have "length (o1 @ [d]) \<le> length (pre @ [c])" using assms(1) by simp
  ultimately show ?thesis using assms(3) unfolding tracks_def by (metis)
qed

lemma tracks_push:
  assumes "tracks pre o1"
  shows "tracks (pre @ [c]) (o1 @ [c])"
  unfolding tracks_def
proof (intro conjI allI impI)
  fix p assume p: "p \<noteq> [] \<and> prefix p lock_suffix \<and> suffix p (o1 @ [c])"
  then obtain q where q: "p = q @ [c]" "suffix q o1" by (metis append_butlast_last_id suffix_snocD snoc_suffix_snoc)
  then have "prefix q lock_suffix" using p append_prefixD by blast
  then have "suffix q pre" using assms q(2) by (cases "q = []") (auto simp: tracks_def)
  then show "suffix p (pre @ [c])" using q(1) by simp
qed (use assms in \<open>auto simp: tracks_def prev_of_def\<close>)

definition done_ok :: "bytes \<Rightarrow> bool" where
  "done_ok out \<longleftrightarrow> clean out \<and> (suffix lock_suffix out \<longrightarrow> out = lock_suffix)"

lemma lock_last: "end_lock input [] \<Longrightarrow> last input = 0x6b \<and> ok_byte 0x6b \<and> ok_pair p 0x6b"
  by (auto simp: end_lock_def suffix_def lock_suffix_def ok_byte_def is_invalid_byte_def ok_pair_def)

lemma prefix_lock_dot: "p \<noteq> [] \<Longrightarrow> prefix p lock_suffix \<Longrightarrow> last p = DOT \<Longrightarrow> p = [DOT]"
  by (auto simp: lock_suffix_def prefix_Cons split: if_splits)

lemma tracks_skip:
  assumes t: "tracks pre o1" and c: "prev_of pre = c" "c \<in> {DOT, SLASH}"
  shows "tracks (pre @ [c]) o1"
proof -
  have pre: "pre \<noteq> []" "last pre = c" using c by (auto simp: prev_of_def split: if_splits)
  have suf: "suffix p (pre @ [c])" if p: "p \<noteq> []" "prefix p lock_suffix" "suffix p o1" for p
  proof -
    have "suffix p pre" using t p by (simp add: tracks_def)
    then have "last p = c" using pre p(1) by (auto simp: suffix_def)
    then have "c = DOT" using c(2) prefix_last_in [OF p(1,2)] slash_not_in_lock by auto
    then have "p = [DOT]" using prefix_lock_dot [OF p(1,2)] \<open>last p = c\<close> by simp
    then show ?thesis using \<open>c = DOT\<close> by simp
  qed
  have "length o1 \<le> length (pre @ [c])" "prev_of (pre @ [c]) = prev_of pre"
    using t c(1) by (simp_all add: tracks_def prev_of_def)
  then show ?thesis using t suf unfolding tracks_def by metis
qed

lemma clean_push:
  assumes "clean o1" "tracks pre o1" "ok_byte c" "ok_pair (prev_of pre) c" "c \<noteq> SLASH"
  shows "clean (o1 @ [c])"
proof -
  have "ok_pair (last o1) c" if "o1 \<noteq> []"
  proof (cases "last o1 \<in> {DOT, SLASH, 0x40}")
    case True
    then show ?thesis using assms that by (simp add: tracks_def)
  qed (auto simp: ok_pair_def)
  then show ?thesis using assms by (simp add: clean_snoc)
qed

lemma clean_push_slash:
  assumes "clean o1" "tracks pre o1" "ok_pair (prev_of pre) SLASH"
  defines "o2 \<equiv> (if suffix lock_suffix pre then strip_lock o1 else o1)"
  shows "clean (o2 @ [SLASH])" and "tracks (pre @ [SLASH]) (o2 @ [SLASH])"
proof -
  have "o1 = [] \<or> last o1 \<noteq> SLASH" using assms(2,3) by (auto simp: tracks_def ok_pair_def)
  then have "o2 = [] \<or> last o2 \<noteq> SLASH" using strip_lock_last [of o1] assms(1) by (simp add: o2_def clean_def)
  moreover have "\<not> suffix lock_suffix o2"
    using assms(2) strip_lock_not_suffix [of o1] by (auto simp: o2_def tracks_def lock_suffix_def)
  moreover have p: "prefix o2 o1" using strip_lock_prefix by (simp add: o2_def)
  moreover have "ok_byte SLASH" by (simp add: ok_byte_def is_invalid_byte_def)
  ultimately show "clean (o2 @ [SLASH])"
    using clean_prefix [OF assms(1)] by (auto simp: clean_snoc ok_pair_def)
  have "length o2 \<le> length pre" using prefix_length_le [OF p] assms(2) by (simp add: tracks_def)
  then show "tracks (pre @ [SLASH]) (o2 @ [SLASH])" using slash_not_in_lock by (intro tracks_other) auto
qed

lemma clean_strip: "clean o1 \<Longrightarrow> done_ok (strip_lock o1)"
  using clean_prefix [OF _ strip_lock_prefix] strip_lock_not_suffix by (auto simp: done_ok_def)

context bstr_spec
begin

lemma sanitize_step:
  assumes i: "input = pre @ c # rest" and ce: "comp_ok input pre ce" and out: "clean out" "tracks pre out"
  shows "\<exists>ce' out'. name_byte bs input (length pre) c (prev_of pre) ce (Some out) = Ok (ce', Some out') \<and>
    comp_ok input (pre @ [c]) ce' \<and>
    (clean out' \<and> tracks (pre @ [c]) out' \<and> \<not> end_lock input rest \<or> rest = [] \<and> done_ok out')"
proof (cases "ok_byte c \<and> ok_pair (prev_of pre) c")
  case True
  define o2 where "o2 = (if c = SLASH \<and> suffix lock_suffix pre then strip_lock out else out)"
  have "clean (o2 @ [c])" "tracks (pre @ [c]) (o2 @ [c])"
    using clean_push_slash [of out pre] clean_push [of out pre c] tracks_push [of pre out c] out True
    by (cases "c = SLASH"; simp add: o2_def)+
  moreover have "name_byte bs input (length pre) c (prev_of pre) ce (Some out) =
      Ok (if c = SLASH then length pre else ce, Some (if end_lock input rest then strip_lock (o2 @ [c]) else o2 @ [c]))"
    using name_byte_plain [OF i ce, of "prev_of pre" "Some out"] True by (simp add: o2_def)
  ultimately show ?thesis
    using comp_ok_next [OF ce, of c] clean_strip [of "o2 @ [c]"] by (auto simp: end_lock_def)
next
  case False
  define o2 where "o2 = (if ok_byte c \<and> (c = DOT \<and> prev_of pre = DOT \<or> c = SLASH \<and> prev_of pre = SLASH) then out else out @ [DASH])"
  have "clean o2" "tracks (pre @ [c]) o2"
    using out dash_facts tracks_skip [OF out(2), of c] tracks_other [of out pre DASH c]
    by (auto simp: o2_def clean_snoc tracks_def)
  moreover have "\<not> end_lock input rest"
    using lock_last [of input "prev_of pre"] False i by (cases "rest = []") (auto simp: end_lock_def)
  moreover have "comp_ok input (pre @ [c]) ce" using ce by (auto simp: comp_ok_def nth_append)
  ultimately show ?thesis using name_byte_special(2) [OF False, of input "length pre" ce out] by (simp add: o2_def)
qed

lemma sanitize_loop:
  assumes "input = pre @ rem" "comp_ok input pre ce" "clean out" "tracks pre out" "rem = [] \<longrightarrow> \<not> end_lock input []"
  shows "\<exists>out'. name_loop bs input (length pre) rem (prev_of pre) ce (Some out) = Ok (Some out') \<and> done_ok out'"
  using assms
proof (induction rem arbitrary: pre ce out)
  case Nil
  have "out = lock_suffix" if "suffix lock_suffix out"
  proof -
    have "suffix lock_suffix pre" using that Nil.prems(4) by (simp add: tracks_def lock_suffix_def)
    then have "pre = lock_suffix" using Nil.prems(1,5) by (simp add: end_lock_def)
    then have "length out \<le> 5" using Nil.prems(4) by (simp add: tracks_def)
    with that show ?thesis by (auto simp: suffix_def)
  qed
  then show ?case using Nil by (simp add: done_ok_def)
next
  case (Cons c rest)
  from sanitize_step [OF Cons.prems(1-4)] obtain ce' out' where
    n: "name_byte bs input (length pre) c (prev_of pre) ce (Some out) = Ok (ce', Some out')" and
    s: "comp_ok input (pre @ [c]) ce'"
      "clean out' \<and> tracks (pre @ [c]) out' \<and> \<not> end_lock input rest \<or> rest = [] \<and> done_ok out'" by blast
  have p: "prev_of (pre @ [c]) = c" by (simp add: prev_of_def)
  from s(2) show ?case
  proof
    assume a: "clean out' \<and> tracks (pre @ [c]) out' \<and> \<not> end_lock input rest"
    then have "rest = [] \<longrightarrow> \<not> end_lock input []" by (cases "rest = []") simp_all
    moreover have "input = (pre @ [c]) @ rest" using Cons.prems(1) by simp
    ultimately have "\<exists>o3. name_loop bs input (length (pre @ [c])) rest (prev_of (pre @ [c])) ce' (Some out') = Ok (Some o3) \<and> done_ok o3"
      using Cons.IH s(1) a by blast
    then show ?case using n p by simp
  next
    assume "rest = [] \<and> done_ok out'"
    then show ?case using n by simp
  qed
qed

end

section \<open>Finishing the sanitized name\<close>

lemma trim_split:
  obtains a b where "out = a @ trim_slashes out @ b" "set a \<subseteq> {SLASH}" "set b \<subseteq> {SLASH}"
proof -
  let ?P = "\<lambda>c. c = SLASH"
  have r: "out = rev (dropWhile ?P (rev out)) @ rev (takeWhile ?P (rev out))"
    by (metis rev_append rev_rev_ident takeWhile_dropWhile_id)
  have "out = takeWhile ?P (rev (dropWhile ?P (rev out))) @ trim_slashes out @ rev (takeWhile ?P (rev out))"
    using r unfolding trim_slashes_def by (metis append.assoc takeWhile_dropWhile_id)
  then show thesis by (rule that) (auto dest: set_takeWhileD)
qed

lemma trim_ends: "trim_slashes out \<noteq> [] \<Longrightarrow> hd (trim_slashes out) \<noteq> SLASH \<and> last (trim_slashes out) \<noteq> SLASH"
proof -
  assume ne: "trim_slashes out \<noteq> []"
  let ?P = "\<lambda>c. c = SLASH" and ?r = "dropWhile (\<lambda>c. c = SLASH) (rev out)"
  have "?r \<noteq> []"
  proof
    assume "?r = []"
    with ne show False by (simp only: trim_slashes_def rev.simps dropWhile.simps)
  qed
  then have "last (rev ?r) \<noteq> SLASH" using hd_dropWhile [of ?P "rev out"] by (simp add: last_rev)
  moreover have "last (trim_slashes out) = last (rev ?r)"
    using ne takeWhile_dropWhile_id [of ?P "rev ?r"] by (metis last_appendR trim_slashes_def)
  moreover have "hd (trim_slashes out) \<noteq> SLASH" 
    using hd_dropWhile [of ?P "rev ?r"] ne unfolding trim_slashes_def by blast
  ultimately show ?thesis by simp
qed

lemma clean_sublist: "clean out \<Longrightarrow> sublist s out \<Longrightarrow> clean s"
proof -
  assume c: "clean out" and s: "sublist s out"
  obtain a b where "out = a @ s @ b" using s by (auto simp: sublist_def)
  then have "list_all ok_byte s" "successively ok_pair s" using c by (auto simp: clean_def successively_append_iff)
  moreover have "\<not> sublist (lock_suffix @ [SLASH]) s" using c s sublist_order.order_trans by (auto simp: clean_def)
  ultimately show ?thesis by (simp add: clean_def)
qed

lemma trim_done_ok: "done_ok out \<Longrightarrow> done_ok (trim_slashes out)"
proof -
  assume d: "done_ok out"
  obtain a b where o: "out = a @ trim_slashes out @ b" "set a \<subseteq> {SLASH}" "set b \<subseteq> {SLASH}" by (rule trim_split)
  have "sublist (trim_slashes out) out" using o(1) by (metis sublist_appendI)
  then have c: "clean (trim_slashes out)" using d clean_sublist by (auto simp: done_ok_def)
  have "trim_slashes out = lock_suffix" if s: "suffix lock_suffix (trim_slashes out)"
  proof (cases b)
    case Nil
    then have "suffix lock_suffix out" using s o(1) by (metis append_Nil2 suffix_appendI)
    then have "out = lock_suffix" using d by (simp add: done_ok_def)
    moreover have "trim_slashes lock_suffix = lock_suffix" by code_simp
    ultimately show ?thesis by simp
  next
    case (Cons x b')
    then have "x = SLASH" using o(3) by simp
    obtain t where "trim_slashes out = t @ lock_suffix" using s by (auto simp: suffix_def)
    then have "out = (a @ t) @ (lock_suffix @ [SLASH]) @ b'" using o(1) Cons \<open>x = SLASH\<close> by simp
    then have "sublist (lock_suffix @ [SLASH]) out" by (metis sublist_appendI)
    then show ?thesis using d by (simp add: done_ok_def clean_def)
  qed
  with c show ?thesis by (simp add: done_ok_def)
qed

definition fix_first :: "bytes \<Rightarrow> bytes" where
  "fix_first t = (if hd t = DOT then t[0 := DASH] else t)"

definition fix_last :: "bytes \<Rightarrow> bytes" where
  "fix_last t = (if last t = DOT then t[length t - 1 := DASH] else t)"

lemma fix_first_ok:
  assumes "done_ok t" "t \<noteq> []"
  shows "clean (fix_first t)" "\<not> suffix lock_suffix (fix_first t)" "hd (fix_first t) \<noteq> DOT"
proof -
  obtain x r where t: "t = x # r" using assms(2) by (cases t) auto
  have lock: "lock_suffix = DOT # lit ''lock''" by (simp add: lock_suffix_def)
  have c: "clean t" using assms(1) by (simp add: done_ok_def)
  then have r: "clean r" using clean_sublist [of t r] t by (metis sublist_Cons_right sublist_order.order_refl)
  have cd: "clean (DASH # r)"
    using r dash_facts by (cases r) (auto simp: clean_def sublist_Cons_right lock)
  have sd: "\<not> suffix lock_suffix (DASH # r)" if "x = DOT"
  proof
    assume "suffix lock_suffix (DASH # r)"
    then have "suffix lock_suffix r" by (auto simp: suffix_Cons lock)
    then have "length lock_suffix \<le> length r" "suffix lock_suffix t" by (auto simp: t suffix_Cons dest: suffix_length_le)
    then have "length t \<noteq> length lock_suffix" using t by simp
    then have "t \<noteq> lock_suffix" by auto
    with \<open>suffix lock_suffix t\<close> have "suffix lock_suffix t" "t \<noteq> lock_suffix" by simp_all
    then show False using assms(1) by (simp add: done_ok_def)
  qed
  have "\<not> suffix lock_suffix t" if "x \<noteq> DOT"
    using that assms(1) by (auto simp: done_ok_def t lock)
  then show "clean (fix_first t)" "\<not> suffix lock_suffix (fix_first t)" "hd (fix_first t) \<noteq> DOT"
    using c cd sd by (auto simp: fix_first_def t)
qed

lemma fix_last_valid:
  assumes "clean t" "\<not> suffix lock_suffix t" "t \<noteq> []" "hd t \<noteq> DOT" "hd t \<noteq> SLASH" "last t \<noteq> SLASH"
  shows "valid_name (fix_last t)"
proof (cases "last t = DOT")
  case True
  obtain b where t: "t = b @ [DOT]" using True assms(3) by (metis append_butlast_last_id)
  have f: "fix_last t = b @ [DASH]" using True by (simp add: fix_last_def t)
  have "clean (b @ [DASH])" using assms(1) dash_facts by (simp add: t clean_snoc)
  moreover have "\<not> suffix lock_suffix (b @ [DASH])" using suffix_snocD [of lock_suffix b DASH] by (auto simp: lock_suffix_def)
  moreover have "hd (b @ [DASH]) \<notin> {SLASH, DOT}" using assms t by (cases b) auto
  ultimately show ?thesis by (simp add: valid_name_def f clean_def)
next
  case False
  then show ?thesis using assms by (simp add: valid_name_def fix_last_def clean_def)
qed

lemma finish_valid:
  assumes "done_ok out" "trim_slashes out \<noteq> []"
  shows "valid_name (fix_last (fix_first (trim_slashes out)))"
proof -
  let ?t = "trim_slashes out"
  have e: "hd ?t \<noteq> SLASH" "last ?t \<noteq> SLASH" using trim_ends [OF assms(2)] by simp_all
  then have "fix_first ?t \<noteq> []" "hd (fix_first ?t) \<noteq> SLASH" "last (fix_first ?t) \<noteq> SLASH"
    using assms(2) by (cases ?t; auto simp: fix_first_def)+
  then show ?thesis using fix_first_ok [OF trim_done_ok [OF assms(1)] assms(2)] by (intro fix_last_valid)
qed

section \<open>Bytes that survive sanitizing\<close>

definition lock_bytes :: "u8 set" where
  "lock_bytes = insert SLASH (set lock_suffix)"

lemma strip_lock_keeps: "b \<in> set out \<Longrightarrow> b \<notin> lock_bytes \<Longrightarrow> b \<in> set (strip_lock out)"
proof (induction out rule: strip_lock.induct)
  case (1 out)
  show ?case
  proof (cases "suffix lock_suffix out")
    case True
    then obtain t where t: "out = t @ lock_suffix" by (auto simp: suffix_def)
    then have "b \<in> set t" using "1.prems" by (auto simp: lock_bytes_def)
    then show ?thesis using 1 True t by (subst strip_lock.simps) simp
  next
    case False
    then show ?thesis using "1.prems" by (simp add: strip_lock.simps [of out])
  qed
qed

lemma trim_keeps: "b \<in> set out \<Longrightarrow> b \<notin> lock_bytes \<Longrightarrow> b \<in> set (trim_slashes out)"
proof -
  obtain x y where o: "out = x @ trim_slashes out @ y" "set x \<subseteq> {SLASH}" "set y \<subseteq> {SLASH}" by (rule trim_split)
  assume "b \<in> set out" "b \<notin> lock_bytes"
  moreover have "set out = set x \<union> set (trim_slashes out) \<union> set y" by (subst o(1)) auto
  ultimately show ?thesis using o(2,3) by (auto simp: lock_bytes_def)
qed

lemma strip_lock_valid: "\<not> suffix lock_suffix out \<Longrightarrow> strip_lock out = out"
  by (simp add: strip_lock.simps)

lemma trim_valid: "out \<noteq> [] \<Longrightarrow> hd out \<noteq> SLASH \<Longrightarrow> last out \<noteq> SLASH \<Longrightarrow> trim_slashes out = out"
  by (simp add: trim_slashes_def dropWhile_eq_self_iff [THEN iffD2] hd_rev)

context bstr_spec
begin

lemma name_byte_Some:
  fixes out :: bytes
  assumes i: "input = pre @ c # rest" and ce: "comp_ok input pre ce" and ok: "ok_byte c" "ok_pair prev c"
  defines "o2 \<equiv> (if c = SLASH \<and> suffix lock_suffix pre then strip_lock out else out) @ [c]"
  shows "name_byte bs input (length pre) c prev ce (Some out) =
    Ok (if c = SLASH then length pre else ce, Some (if end_lock input rest then strip_lock o2 else o2))"
  using name_byte_plain [OF i ce ok, of "Some out"] by (simp add: o2_def)

lemma name_byte_sanitizes:
  assumes i: "input = pre @ c # rest" and ce: "comp_ok input pre ce"
  obtains ce' out' where "name_byte bs input (length pre) c prev ce (Some out) = Ok (ce', Some out')"
    "comp_ok input (pre @ [c]) ce'"
proof (cases "ok_byte c \<and> ok_pair prev c")
  case True
  then show thesis using name_byte_Some [OF i ce, of prev out] comp_ok_next [OF ce, of c] that by blast
next
  case False
  moreover have "comp_ok input (pre @ [c]) ce" using ce by (auto simp: comp_ok_def nth_append)
  ultimately show thesis using name_byte_special(2) [OF False] that by blast
qed

lemma name_byte_keeps:
  assumes i: "input = pre @ c # rest" and ce: "comp_ok input pre ce"
    and n: "name_byte bs input (length pre) c prev ce (Some out) = Ok (ce', Some out')"
    and b: "\<exists>b\<in>set out \<union> {c}. b \<notin> lock_bytes"
  shows "\<exists>b\<in>set out'. b \<notin> lock_bytes"
proof (cases "ok_byte c \<and> ok_pair prev c")
  case True
  define o2 where "o2 = (if c = SLASH \<and> suffix lock_suffix pre then strip_lock out else out)"
  have "out' = (if end_lock input rest then strip_lock (o2 @ [c]) else o2 @ [c])"
    using name_byte_Some [OF i ce, of prev out] True n by (simp add: o2_def)
  moreover have "\<exists>b\<in>set (o2 @ [c]). b \<notin> lock_bytes" using b strip_lock_keeps [of _ out] by (auto simp: o2_def)
  ultimately show ?thesis using strip_lock_keeps [of _ "o2 @ [c]"] by auto
next
  case False
  have "DASH \<notin> lock_bytes" "DOT \<in> lock_bytes" "SLASH \<in> lock_bytes" by (simp_all add: lock_bytes_def lock_suffix_def)
  then show ?thesis
    using name_byte_special(2) [OF False, of input "length pre" ce out] n b by (auto split: if_splits)
qed

lemma name_loop_keeps:
  assumes "input = pre @ rem" "comp_ok input pre ce" "\<exists>b\<in>set out \<union> set rem. b \<notin> lock_bytes"
    and "name_loop bs input (length pre) rem prev ce (Some out) = Ok (Some out')"
  shows "\<exists>b\<in>set out'. b \<notin> lock_bytes"
  using assms
proof (induction rem arbitrary: pre prev ce out)
  case (Cons c rest)
  obtain ce1 o1 where n: "name_byte bs input (length pre) c prev ce (Some out) = Ok (ce1, Some o1)"
    and ce1: "comp_ok input (pre @ [c]) ce1"
    using name_byte_sanitizes [OF Cons.prems(1,2)] by blast
  then have l: "name_loop bs input (length (pre @ [c])) rest c ce1 (Some o1) = Ok (Some out')" using Cons.prems(4) by simp
  have i: "input = (pre @ [c]) @ rest" using Cons.prems(1) by simp
  show ?case
  proof (cases "\<exists>b\<in>set out \<union> {c}. b \<notin> lock_bytes")
    case True
    from name_byte_keeps [OF Cons.prems(1,2) n True] show ?thesis using Cons.IH [OF i ce1 _ l] by blast
  next
    case False
    then have "\<exists>b\<in>set rest. b \<notin> lock_bytes" using Cons.prems(3) by auto
    then show ?thesis using Cons.IH [OF i ce1 _ l] by blast
  qed
qed simp

lemma keep_loop:
  assumes "input = pre @ rem" "comp_ok input pre ce"
    and "list_all ok_byte rem" "successively ok_pair (prev # rem)" "no_lock_components pre rem" "\<not> suffix lock_suffix input"
  shows "name_loop bs input (length pre) rem prev ce (Some pre) = Ok (Some input)"
  using assms
proof (induction rem arbitrary: pre prev ce)
  case (Cons c rest)
  have "\<not> (c = SLASH \<and> suffix lock_suffix pre)" "\<not> end_lock input rest" "ok_byte c" "ok_pair prev c"
    using Cons.prems by (auto simp: no_lock_Cons end_lock_def)
  then have "name_byte bs input (length pre) c prev ce (Some pre) = Ok (if c = SLASH then length pre else ce, Some (pre @ [c]))"
    using name_byte_Some [OF Cons.prems(1,2), of prev pre] by auto
  moreover have "name_loop bs input (length (pre @ [c])) rest c (if c = SLASH then length pre else ce) (Some (pre @ [c])) = Ok (Some input)"
    using Cons.prems by (intro Cons.IH comp_ok_next) (auto simp: no_lock_Cons)
  ultimately show ?case by simp
qed simp

lemma name_inner_Sanitize:
  assumes "input \<noteq> []"
  obtains out where "done_ok out" "name_loop bs input 0 input 0 0 (Some []) = Ok (Some out)"
    "name_inner bs input Sanitize =
      (if trim_slashes out = [] then Panic else Ok (Some (fix_last (fix_first (trim_slashes out)))))"
proof -
  have "clean []" "tracks [] []" "comp_ok input [] 0" by (simp_all add: clean_def tracks_def comp_ok_def)
  then obtain out where o: "done_ok out" "name_loop bs input 0 input 0 0 (Some []) = Ok (Some out)"
    using sanitize_loop [of input "[]" input 0 "[]"] assms by (auto simp: prev_of_def)
  have "name_inner bs input Sanitize =
      (if trim_slashes out = [] then Panic else Ok (Some (fix_last (fix_first (trim_slashes out)))))"
  proof (cases "trim_slashes out")
    case (Cons x r)
    then have "get_at (trim_slashes out) 0 = Some (hd (trim_slashes out))" by simp
    moreover have "fix_first (trim_slashes out) \<noteq> []" using Cons by (simp add: fix_first_def)
    then have "get_at (fix_first (trim_slashes out)) (length (fix_first (trim_slashes out)) - 1) =
        Some (last (fix_first (trim_slashes out)))" by (simp add: get_at_def last_conv_nth)
    ultimately show ?thesis
      using assms o(2) Cons unfolding name_inner_def by (auto simp: Let_def fix_first_def fix_last_def)
  qed (use assms o(2) in \<open>simp add: name_inner_def\<close>)
  with o show thesis by (rule that)
qed

end

section \<open>Properties\<close>

text \<open>
  C31: Validation accepts exactly the names that follow git's rules: a tag name and a partial reference name are
  accepted, unchanged, if and only if they are valid names, and a full reference name in addition
  contains a slash or consists of uppercase letters and underscores.  Every other name is an error;
  validation never panics.
\<close>

theorem name_validation_accepts_exactly_valid_names:
  assumes "bstr_spec bs"
  shows "(if valid_name n then tag_name bs n = Ok n else (\<exists>e. tag_name bs n = Err e)) \<and>
    (if valid_name n then ref_name_partial bs n = Ok n else (\<exists>e. ref_name_partial bs n = Err (Tag e))) \<and>
    (if valid_name n \<and> (SLASH \<in> set n \<or> list_all (\<lambda>c. is_ascii_uppercase c \<or> c = 0x5f) n)
     then ref_name bs n = Ok n else (\<exists>e. ref_name bs n = Err e))"
proof -
  have f: "find_byte bs n SLASH \<noteq> None \<longleftrightarrow> SLASH \<in> set n" using bstr_spec.find_byte_None [OF assms] by auto
  show ?thesis
  proof (cases "valid_name n")
    case True
    then have "name_inner bs n Validate = Ok None" using bstr_spec.name_inner_Validate [OF assms, of n] by simp
    then show ?thesis using True f by (auto simp: tag_name_def ref_name_partial_def ref_name_def ref_validate_def Let_def)
  next
    case False
    then obtain e where "name_inner bs n Validate = Err e" using bstr_spec.name_inner_Validate [OF assms, of n] by auto
    then show ?thesis using False by (simp add: tag_name_def ref_name_partial_def ref_name_def ref_validate_def)
  qed
qed

theorem name_validation_accepts_exactly_valid_names_witness:
  "ref_name reference_bstr (lit ''refs/heads/main'') = Ok (lit ''refs/heads/main'') \<and>
   (\<exists>e. tag_name reference_bstr (lit ''a.lock/b'') = Err e)"
proof -
  have "valid_name (lit ''refs/heads/main'')" "SLASH \<in> set (lit ''refs/heads/main'')"
    "\<not> valid_name (lit ''a.lock/b'')" by code_simp+
  then show ?thesis
    using name_validation_accepts_exactly_valid_names [OF ref_bstr.bstr_spec_axioms, of "lit ''refs/heads/main''"]
      name_validation_accepts_exactly_valid_names [OF ref_bstr.bstr_spec_axioms, of "lit ''a.lock/b''"]
    by (simp only: if_True if_False simp_thms)
qed

text \<open>
  What \<^verbatim>\<open>name_partial_or_sanitize\<close> returns is always a valid name, and a valid name is returned
  unchanged.  It does return a name for every input that is empty or contains a byte other than a slash, a
  dot and the letters of the lock suffix.
\<close>

theorem sanitized_names_are_valid:
  assumes "bstr_spec bs"
  shows "(\<forall>out. name_partial_or_sanitize bs path = Some out \<longrightarrow> valid_name out) \<and>
    (valid_name path \<longrightarrow> name_partial_or_sanitize bs path = Some path) \<and>
    (path = [] \<or> (\<exists>b\<in>set path. b \<notin> set (lit ''/.lock'')) \<longrightarrow> (\<exists>out. name_partial_or_sanitize bs path = Some out))"
proof (cases "path = []")
  case True
  have "valid_name [DASH]" "\<not> valid_name []" by code_simp+
  then show ?thesis using True by (simp add: name_partial_or_sanitize_def ref_validate_def name_inner_def)
next
  case False
  obtain out where o: "done_ok out" "name_loop bs path 0 path 0 0 (Some []) = Ok (Some out)"
    "name_inner bs path Sanitize =
      (if trim_slashes out = [] then Panic else Ok (Some (fix_last (fix_first (trim_slashes out)))))"
    using bstr_spec.name_inner_Sanitize [OF assms False] by blast
  then have r: "name_partial_or_sanitize bs path =
      (if trim_slashes out = [] then None else Some (fix_last (fix_first (trim_slashes out))))"
    by (simp add: name_partial_or_sanitize_def ref_validate_def)
  have "name_partial_or_sanitize bs path = Some path" if v: "valid_name path"
  proof -
    have "list_all ok_byte path" "successively ok_pair (0 # path)" "no_lock_components [] path" "\<not> suffix lock_suffix path"
      using v by (simp_all add: valid_name_def successively_zero no_lock_sublist)
    then have "out = path"
      using bstr_spec.keep_loop [OF assms, of path "[]" path 0 0] o(2) by (simp add: comp_ok_def)
    then show ?thesis using r v by (simp add: valid_name_def trim_valid fix_first_def fix_last_def)
  qed
  moreover have "trim_slashes out \<noteq> []" if "\<exists>b\<in>set path. b \<notin> set (lit ''/.lock'')"
  proof -
    have "set (lit ''/.lock'') = lock_bytes" by (simp add: lock_bytes_def lock_suffix_def)
    then have "\<exists>b\<in>set out. b \<notin> lock_bytes"
      using bstr_spec.name_loop_keeps [OF assms, of path "[]" path 0 "[]" 0 out] o(2) that by (simp add: comp_ok_def)
    then show ?thesis using trim_keeps by fastforce
  qed
  ultimately show ?thesis using r False finish_valid [OF o(1)] by auto
qed

theorem sanitized_names_are_valid_witness:
  "name_partial_or_sanitize reference_bstr (lit ''main'') = Some (lit ''main'') \<and>
   (\<exists>out. name_partial_or_sanitize reference_bstr (lit ''..a b.lock'') = Some out \<and> valid_name out)"
proof -
  have "valid_name (lit ''main'')" "\<exists>b\<in>set (lit ''..a b.lock''). b \<notin> set (lit ''/.lock'')" by code_simp+
  then show ?thesis
    using sanitized_names_are_valid [OF ref_bstr.bstr_spec_axioms, of "lit ''main''"]
      sanitized_names_are_valid [OF ref_bstr.bstr_spec_axioms, of "lit ''..a b.lock''"] by blast
qed

text \<open>
  The sanitizer, documented as infallible, panics when nothing is left of the input: on a single slash, on
  slashes only, and on names made of the lock suffix such as \<^verbatim>\<open>..lock\<close>.
\<close>

theorem sanitizer_panics:
  "name_partial_or_sanitize reference_bstr (lit ''/'') = None \<and>
   name_partial_or_sanitize reference_bstr (lit ''///'') = None \<and>
   name_partial_or_sanitize reference_bstr (lit ''..lock'') = None \<and>
   name_partial_or_sanitize reference_bstr (lit ''.lock/'') = None"
  by code_simp

text \<open>
  A submodule name is accepted exactly if it is not empty and its first occurrence of two dots, if there is one,
  is followed by a byte that is no path separator.  Later occurrences are not looked at: a name whose
  first two dots are harmless is accepted with any parent component behind them.
\<close>

theorem submodule_name_checks_first_dots_only:
  assumes "bstr_spec bs" and "x \<noteq> SLASH" and "x \<noteq> 0x5c"
    and "find_sub (lit ''..'') (pre @ lit ''..'') = Some (length pre)"
  shows "submodule_name bs [] = Err SubmoduleEmpty \<and>
    submodule_name bs (pre @ lit ''..'') = Err ParentComponent \<and>
    submodule_name bs (pre @ lit ''..'' @ SLASH # rest) = Err ParentComponent \<and>
    submodule_name bs (pre @ lit ''..'' @ 0x5c # rest) = Err ParentComponent \<and>
    submodule_name bs (pre @ lit ''..'' @ x # rest) = Ok (pre @ lit ''..'' @ x # rest)"
proof -
  have f: "find_str bs (pre @ lit ''..'' @ s) (lit ''..'') = Some (length pre)" for s
    using assms(4) find_sub_append [OF assms(4), of s]
    by (simp add: bstr_spec.find_str [OF assms(1)])
  have g: "get_at (pre @ lit ''..'' @ s) (length pre + 2) = get_at s 0" for s
    using get_at_append_right [of "pre @ lit ''..''" s 0] by simp
  show ?thesis
    using f [of "[]"] f [of "SLASH # rest"] f [of "0x5c # rest"] f [of "x # rest"]
      g [of "[]"] g [of "SLASH # rest"] g [of "0x5c # rest"] g [of "x # rest"] assms(2,3)
    by (simp add: submodule_name_def)
qed

theorem submodule_name_checks_first_dots_only_witness:
  "submodule_name reference_bstr (lit ''a..b/../c'') = Ok (lit ''a..b/../c'')"
proof -
  have "find_sub (lit ''..'') (lit ''a'' @ lit ''..'') = Some (length (lit ''a''))" by code_simp
  from submodule_name_checks_first_dots_only [OF ref_bstr.bstr_spec_axioms _ _ this, where x = "0x62" and rest = "lit ''/../c''"]
  show ?thesis by simp
qed

end
