(* ===== verification/Gix_Validate_Path.thy ===== *)
theory Gix_Validate_Path
  imports Gix_External
begin

text \<open>
  The crate \<^verbatim>\<open>gix-validate\<close>, path components (\<^verbatim>\<open>path.rs\<close>): the check of a tree entry's name before it is
  used as a file name, with the protections for Windows, HFS+ and NTFS.  The lemmas characterise the three
  notions of a disguised \<^verbatim>\<open>.git\<close> and the device names, and state exactly which components are accepted.
\<close>

section \<open>The check\<close>

datatype component_error = ComponentEmpty | PathSeparator | WindowsPathPrefix | WindowsReservedName | WindowsIllegalCharacter
  | DotGitDir | SymlinkedGitModules

record component_options =
  protect_windows :: bool
  protect_hfs :: bool
  protect_ntfs :: bool

definition default_options :: component_options where
  "default_options = \<lparr>protect_windows = True, protect_hfs = True, protect_ntfs = True\<rparr>"

datatype component_mode = Symlink

definition is_symlink :: "component_mode option \<Rightarrow> bool" where
  "is_symlink mode = (case mode of None \<Rightarrow> False | Some m \<Rightarrow> m = Symlink)"

text \<open>\<^verbatim>\<open>input.get(n..)\<close> is absent when \<open>n\<close> lies behind the end.\<close>

definition get_from :: "bytes \<Rightarrow> nat \<Rightarrow> bytes option" where
  "get_from input n = get_range input n (length input)"

definition matches_at :: "bytes \<Rightarrow> nat \<Rightarrow> nat \<Rightarrow> bytes \<Rightarrow> bool" where
  "matches_at input a b s = (case get_range input a b of None \<Rightarrow> False | Some x \<Rightarrow> eq_ignore_ascii_case x s)"

fun done_ntfs_loop :: "bytes \<Rightarrow> bool" where
  "done_ntfs_loop [] = True"
| "done_ntfs_loop (b # rest) =
     (if b = 0x3a then True else if b \<noteq> 0x20 \<and> b \<noteq> 0x2e then False else done_ntfs_loop rest)"

definition is_done_ntfs :: "bytes option \<Rightarrow> bool" where
  "is_done_ntfs input = (case input of None \<Rightarrow> True | Some b \<Rightarrow> done_ntfs_loop b)"

definition is_done_windows :: "bytes option \<Rightarrow> bool" where
  "is_done_windows input = (case input of
     None \<Rightarrow> True
   | Some b \<Rightarrow>
       let skip = length (takeWhile (\<lambda>c. c = 0x20) b) in
       case get_at b skip of None \<Rightarrow> True | Some next \<Rightarrow> next = 0x2e \<or> next = 0x3a)"

definition is_win_device :: "bytes \<Rightarrow> bool" where
  "is_win_device input = (case get_range input 0 3 of
     None \<Rightarrow> False
   | Some in3 \<Rightarrow>
       if eq_ignore_ascii_case in3 (lit ''AUX'') \<and> is_done_windows (get_from input 3) then True
       else if eq_ignore_ascii_case in3 (lit ''NUL'') \<and> is_done_windows (get_from input 3) then True
       else if eq_ignore_ascii_case in3 (lit ''PRN'') \<and> is_done_windows (get_from input 3) then True
       else if eq_ignore_ascii_case in3 (lit ''COM'') \<and>
         (case get_at input 3 of None \<Rightarrow> False | Some n \<Rightarrow> n \<ge> 0x31 \<and> n \<le> 0x39) \<and> is_done_windows (get_from input 4) then True
       else if eq_ignore_ascii_case in3 (lit ''LPT'') \<and>
         (case get_at input 3 of None \<Rightarrow> False | Some n \<Rightarrow> is_ascii_digit n) \<and> is_done_windows (get_from input 4) then True
       else if eq_ignore_ascii_case in3 (lit ''CON'') \<and>
         (is_done_windows (get_from input 3) \<or>
          matches_at input 3 6 (lit ''IN$'') \<and> is_done_windows (get_from input 6) \<or>
          matches_at input 3 7 (lit ''OUT$'') \<and> is_done_windows (get_from input 7)) then True
       else False)"

definition component_is_windows_device :: "bytes \<Rightarrow> bool" where
  "component_is_windows_device input = is_win_device input"

definition check_win_devices_and_illegal_characters :: "bytes \<Rightarrow> component_error option" where
  "check_win_devices_and_illegal_characters input =
     (if is_win_device input then Some WindowsReservedName
      else if list_ex (\<lambda>b. b < 0x20 \<or> b \<in> set (lit '':<>|?*'') \<or> b = 0x22) input then Some WindowsIllegalCharacter
      else if suffix [0x2e] input \<or> suffix [0x20] input then Some WindowsIllegalCharacter
      else None)"

definition hfs_ignorable :: "u32 \<Rightarrow> bool" where
  "hfs_ignorable c \<longleftrightarrow> c \<in> {0x200c, 0x200d, 0x200e, 0x200f, 0x202a, 0x202b, 0x202c, 0x202d, 0x202e,
     0x206a, 0x206b, 0x206c, 0x206d, 0x206e, 0x206f, 0xfeff}"

text \<open>\<^verbatim>\<open>char::eq_ignore_ascii_case\<close>\<close>

definition lower_char :: "u32 \<Rightarrow> u32" where
  "lower_char c = (if 0x41 \<le> c \<and> c \<le> 0x5a then c + 0x20 else c)"

fun dot_hfs_loop :: "u32 list \<Rightarrow> u32 list \<Rightarrow> bool" where
  "dot_hfs_loop (a # as) (b # bs) = (if lower_char a \<noteq> lower_char b then False else dot_hfs_loop as bs)"
| "dot_hfs_loop [] [] = True"
| "dot_hfs_loop _ _ = False"

definition is_dot_hfs :: "bstr \<Rightarrow> bytes \<Rightarrow> bytes \<Rightarrow> bool" where
  "is_dot_hfs bs input search_case_insensitive =
     (case filter (\<lambda>c. \<not> hfs_ignorable c) (bchars bs input) of
        [] \<Rightarrow> False
      | c # rest \<Rightarrow> if c \<noteq> 0x2e then False else dot_hfs_loop (map ucast search_case_insensitive) rest)"

definition is_dot_git_ntfs :: "bytes \<Rightarrow> bool" where
  "is_dot_git_ntfs input =
     (if matches_at input 0 4 (lit ''.git'') then is_done_ntfs (get_from input 4)
      else if matches_at input 0 5 (lit ''git~1'') then is_done_ntfs (get_from input 5)
      else False)"

text \<open>
  The loop over the short name: the position, whether a tilde was seen, and what is left of the eight
  positions.  \<open>None\<close> is an early return of \<^verbatim>\<open>false\<close>, otherwise the position after the loop.
\<close>

function short_name_loop :: "bytes \<Rightarrow> bytes \<Rightarrow> nat \<Rightarrow> bool \<Rightarrow> nat option" where
  "short_name_loop input short pos saw_tilde =
     (if pos < 8 then
        (case get_at input pos of
           None \<Rightarrow> None
         | Some b \<Rightarrow>
             if saw_tilde then
               if \<not> is_ascii_digit b then None else short_name_loop input short (pos + 1) saw_tilde
             else if b = 0x7e then
               (case get_at input (pos + 1) of
                  None \<Rightarrow> None
                | Some b \<Rightarrow>
                    if \<not> (0x31 \<le> b \<and> b \<le> 0x39) then None
                    else short_name_loop input short (pos + 1 + 1) True)
             else if pos \<ge> 6 \<or> b AND 0x80 = 0x80 \<or>
               (case get_at short pos of None \<Rightarrow> True | Some ob \<Rightarrow> to_ascii_lowercase b \<noteq> to_ascii_lowercase ob) then None
             else short_name_loop input short (pos + 1) saw_tilde)
      else Some pos)"
  by pat_completeness auto
termination
  by (relation "measure (\<lambda>(input, short, pos, saw_tilde). 10 - pos)") auto

declare short_name_loop.simps [simp del]

definition is_dot_ntfs :: "bytes \<Rightarrow> bytes \<Rightarrow> bytes \<Rightarrow> bool" where
  "is_dot_ntfs input search_case_insensitive ntfs_shortname_prefix =
     (if get_at input 0 = Some 0x2e then
        let end_pos = 1 + length search_case_insensitive in
        if matches_at input 1 end_pos search_case_insensitive then is_done_ntfs (get_from input end_pos) else False
      else if (case (get_range search_case_insensitive 0 6, get_range input 0 6) of
          (Some ntfs_prefix, Some first_6_of_input) \<Rightarrow>
            eq_ignore_ascii_case first_6_of_input ntfs_prefix \<and> get_at input 6 = Some 0x7e \<and>
            (case get_at input 7 of None \<Rightarrow> False | Some num \<Rightarrow> 0x31 \<le> num \<and> num \<le> 0x34)
        | _ \<Rightarrow> False) then is_done_ntfs (get_from input 8)
      else (case short_name_loop input ntfs_shortname_prefix 0 False of
          None \<Rightarrow> False
        | Some pos \<Rightarrow> is_done_ntfs (get_from input pos)))"

definition component :: "bstr \<Rightarrow> bytes \<Rightarrow> component_mode option \<Rightarrow> component_options \<Rightarrow> (bytes, component_error) outcome" where
  "component bs input mode opts =
     (if input = [] then Err ComponentEmpty
      else if protect_windows opts \<and> find_byteset bs input [0x2f, 0x5c] \<noteq> None then Err PathSeparator
      else if protect_windows opts \<and> get_at (bchars bs input) 1 = Some 0x3a then Err WindowsPathPrefix
      else if \<not> protect_windows opts \<and> find_byte bs input 0x2f \<noteq> None then Err PathSeparator
      else if protect_hfs opts \<and> is_dot_hfs bs input (lit ''git'') then Err DotGitDir
      else if protect_hfs opts \<and> is_symlink mode \<and> is_dot_hfs bs input (lit ''gitmodules'') then Err SymlinkedGitModules
      else if protect_ntfs opts \<and> is_dot_git_ntfs input then Err DotGitDir
      else if protect_ntfs opts \<and> is_symlink mode \<and> is_dot_ntfs input (lit ''gitmodules'') (lit ''gi7eba'') then Err SymlinkedGitModules
      else (case (if protect_ntfs opts \<and> protect_windows opts then check_win_devices_and_illegal_characters input else None) of
          Some err \<Rightarrow> Err err
        | None \<Rightarrow>
            if \<not> (protect_hfs opts \<or> protect_ntfs opts) \<and> eq_ignore_ascii_case input (lit ''.git'') then Err DotGitDir
            else if \<not> (protect_hfs opts \<or> protect_ntfs opts) \<and> is_symlink mode \<and> eq_ignore_ascii_case input (lit ''.gitmodules'')
              then Err SymlinkedGitModules
            else Ok input))"

section \<open>Names that differ in case only\<close>

lemma lowercase_non_ascii: "\<not> b < 0x80 \<Longrightarrow> to_ascii_lowercase b = b"
  by (simp add: to_ascii_lowercase_def is_ascii_uppercase_def word_less_nat_alt word_le_nat_alt)

lemma lowercase_ascii: "b < 0x80 \<Longrightarrow> to_ascii_lowercase b < 0x80"
proof -
  assume "b < 0x80"
  then have "unat b \<in> set [0..<128]" by (simp add: word_less_nat_alt)
  then show ?thesis by (rule byte_cases [where ks = "[0..<128]", rotated]) code_simp
qed

lemma eq_ignore_case_ascii: "eq_ignore_ascii_case a s \<Longrightarrow> is_ascii s \<Longrightarrow> is_ascii a"
proof (induction a arbitrary: s)
  case (Cons x a)
  then obtain y s' where s: "s = y # s'" "to_ascii_lowercase x = to_ascii_lowercase y" "eq_ignore_ascii_case a s'"
    by (cases s) (auto simp: eq_ignore_ascii_case_def)
  then have "is_ascii a" using Cons by (auto simp: is_ascii_def)
  moreover have "x < 0x80" using s Cons.prems(2) lowercase_ascii [of y] lowercase_non_ascii [of x] by (auto simp: is_ascii_def)
  ultimately show ?case by (simp add: is_ascii_def)
qed (simp add: is_ascii_def)

lemma eq_ignore_case_length: "eq_ignore_ascii_case a s \<Longrightarrow> length a = length s"
  unfolding eq_ignore_ascii_case_def by (metis length_map)

lemma lower_char_ascii: "b < 0x80 \<Longrightarrow> lower_char (ucast b) = ucast (to_ascii_lowercase b)"
proof -
  assume "b < 0x80"
  then have "unat b \<in> set [0..<128]" by (simp add: word_less_nat_alt)
  then show ?thesis by (rule byte_cases [where ks = "[0..<128]", rotated]) code_simp
qed

lemma hfs_ignorable_large: "hfs_ignorable c \<Longrightarrow> 0x2000 \<le> unat c"
  unfolding hfs_ignorable_def by (elim insertE emptyE) simp_all

lemma ascii_not_ignorable: "b < 0x80 \<Longrightarrow> \<not> hfs_ignorable (ucast b)" for b :: u8
proof
  assume "hfs_ignorable (ucast b)"
  then have "0x2000 \<le> unat (ucast b :: u32)" by (rule hfs_ignorable_large)
  then show False using unat_lt_256 [of b] by (simp add: unat_ucast_mod del: unat_lt_256)
qed

lemma map_lower_char_ascii: "is_ascii s \<Longrightarrow> map lower_char (map ucast s) = map ucast (map to_ascii_lowercase s)"
  by (induction s) (simp_all add: is_ascii_def lower_char_ascii)

lemma filter_ascii: "is_ascii s \<Longrightarrow> filter (\<lambda>c. \<not> hfs_ignorable c) (map ucast s) = map ucast s"
  by (induction s) (simp_all add: is_ascii_def ascii_not_ignorable)

section \<open>Disguises of a name\<close>

lemma dot_hfs_loop_iff: "dot_hfs_loop a b \<longleftrightarrow> map lower_char a = map lower_char b"
  by (induction a b rule: dot_hfs_loop.induct) auto

lemma lower_char_dot: "lower_char c = 0x2e \<longleftrightarrow> c = 0x2e"
proof (cases "0x41 \<le> c \<and> c \<le> 0x5a")
  case True
  then have "unat c \<in> set [0x41..<0x5b]" unfolding set_upt by (auto simp: word_le_nat_alt)
  then have "unat c + 0x20 < 2 ^ 32" "unat c + 0x20 \<noteq> 0x2e" unfolding set_upt by auto
  then have "unat (c + 0x20) \<noteq> 0x2e" by (simp add: unat_word_ariths(1))
  then have "c + 0x20 \<noteq> 0x2e" by auto
  moreover have "c \<noteq> 0x2e" using True by (auto simp: word_le_nat_alt)
  ultimately show ?thesis using True by (simp add: lower_char_def)
next
  case False
  then show ?thesis unfolding lower_char_def by (simp only: if_False)
qed

text \<open>On HFS+ a name is compared without its ignorable characters and without regard to case.\<close>

lemma is_dot_hfs_iff:
  "is_dot_hfs bs input s \<longleftrightarrow>
     map lower_char (filter (\<lambda>c. \<not> hfs_ignorable c) (bchars bs input)) = 0x2e # map lower_char (map ucast s)"
  by (auto simp: is_dot_hfs_def dot_hfs_loop_iff lower_char_dot split: list.split)

text \<open>On NTFS trailing spaces and dots, and anything behind a colon, do not change the name.\<close>

definition ntfs_tail :: "bytes \<Rightarrow> bool" where
  "ntfs_tail t \<longleftrightarrow> (let r = dropWhile (\<lambda>b. b = 0x20 \<or> b = 0x2e) t in r = [] \<or> hd r = 0x3a)"

lemma done_ntfs_loop_iff: "done_ntfs_loop t \<longleftrightarrow> ntfs_tail t"
  by (induction t) (auto simp: ntfs_tail_def)

lemma matches_at_append: "length x = n \<Longrightarrow> matches_at (x @ t) 0 n s \<longleftrightarrow> eq_ignore_ascii_case x s"
  by (auto simp: matches_at_def get_range_def)

lemma get_from_append: "length x = n \<Longrightarrow> get_from (x @ t) n = Some t"
  by (auto simp: get_from_def get_range_def)

lemma is_dot_git_ntfs_iff:
  "is_dot_git_ntfs input \<longleftrightarrow>
     (\<exists>x t. input = x @ t \<and> (eq_ignore_ascii_case x (lit ''.git'') \<or> eq_ignore_ascii_case x (lit ''git~1'')) \<and> ntfs_tail t)"
proof
  assume "is_dot_git_ntfs input"
  then show "\<exists>x t. input = x @ t \<and> (eq_ignore_ascii_case x (lit ''.git'') \<or> eq_ignore_ascii_case x (lit ''git~1'')) \<and> ntfs_tail t"
    unfolding is_dot_git_ntfs_def matches_at_def get_from_def is_done_ntfs_def get_range_def
    by (auto simp: done_ntfs_loop_iff split: if_splits) (metis append_take_drop_id)+
next
  assume "\<exists>x t. input = x @ t \<and> (eq_ignore_ascii_case x (lit ''.git'') \<or> eq_ignore_ascii_case x (lit ''git~1'')) \<and> ntfs_tail t"
  then obtain x t where i: "input = x @ t" "ntfs_tail t"
    "eq_ignore_ascii_case x (lit ''.git'') \<or> eq_ignore_ascii_case x (lit ''git~1'')" by blast
  from i(3) show "is_dot_git_ntfs input"
  proof
    assume e: "eq_ignore_ascii_case x (lit ''.git'')"
    then have "length x = 4" using eq_ignore_case_length by fastforce
    then show ?thesis using e i
      by (simp add: is_dot_git_ntfs_def matches_at_append get_from_append is_done_ntfs_def done_ntfs_loop_iff)
  next
    assume e: "eq_ignore_ascii_case x (lit ''git~1'')"
    then have l: "length x = 5" using eq_ignore_case_length by fastforce
    obtain a r where x: "x = a # r" using l by (cases x) auto
    have "to_ascii_lowercase a = to_ascii_lowercase 0x67" using e x by (simp add: eq_ignore_ascii_case_def)
    moreover have "to_ascii_lowercase 0x67 \<noteq> to_ascii_lowercase 0x2e" by code_simp
    ultimately have "\<not> matches_at input 0 4 (lit ''.git'')"
      using i(1) x l by (auto simp: matches_at_def get_range_def eq_ignore_ascii_case_def)
    then show ?thesis using e i l
      by (simp add: is_dot_git_ntfs_def matches_at_append get_from_append is_done_ntfs_def done_ntfs_loop_iff)
  qed
qed

text \<open>A name at the start of the input, without regard to case.\<close>

definition starts_named :: "bytes \<Rightarrow> bytes \<Rightarrow> bool" where
  "starts_named input s \<longleftrightarrow> length s \<le> length input \<and> eq_ignore_ascii_case (take (length s) input) s"

lemma starts_named_split: "(\<exists>x t. input = x @ t \<and> eq_ignore_ascii_case x s \<and> P t) \<longleftrightarrow> starts_named input s \<and> P (drop (length s) input)"
proof
  assume "\<exists>x t. input = x @ t \<and> eq_ignore_ascii_case x s \<and> P t"
  then obtain x t where x: "input = x @ t" "eq_ignore_ascii_case x s" "P t" by blast
  then have "length x = length s" using eq_ignore_case_length by blast
  with x show "starts_named input s \<and> P (drop (length s) input)" by (auto simp: starts_named_def)
next
  assume "starts_named input s \<and> P (drop (length s) input)"
  then show "\<exists>x t. input = x @ t \<and> eq_ignore_ascii_case x s \<and> P t"
    by (intro exI [of _ "take (length s) input"] exI [of _ "drop (length s) input"]) (simp add: starts_named_def)
qed

lemma eq_ignore_case_append:
  "length x = length a \<Longrightarrow> eq_ignore_ascii_case (x @ y) (a @ b) \<longleftrightarrow> eq_ignore_ascii_case x a \<and> eq_ignore_ascii_case y b"
  by (auto simp: eq_ignore_ascii_case_def)

lemma starts_named_append:
  "starts_named input (a @ b) \<longleftrightarrow> starts_named input a \<and> starts_named (drop (length a) input) b"
proof (cases "length a + length b \<le> length input")
  case True
  have "take (length a + length b) input = take (length a) input @ take (length b) (drop (length a) input)" by (simp add: take_add)
  with True show ?thesis by (auto simp: starts_named_def eq_ignore_case_append)
qed (auto simp: starts_named_def)

lemma lowercase_small: "k < 0x40 \<Longrightarrow> to_ascii_lowercase k = k"
  by (simp add: to_ascii_lowercase_def is_ascii_uppercase_def word_less_nat_alt word_le_nat_alt)

lemma starts_named_byte: "k < 0x40 \<Longrightarrow> starts_named input [k] \<longleftrightarrow> get_at input 0 = Some k"
  by (cases input) (simp_all add: starts_named_def eq_ignore_ascii_case_def lowercase_small, metis lowercase_digit lowercase_small)

lemma matches_at_named: "length s = b - a \<Longrightarrow> a \<le> b \<Longrightarrow> a \<le> length input \<Longrightarrow> matches_at input a b s \<longleftrightarrow> starts_named (drop a input) s"
  by (auto simp: matches_at_def get_range_def starts_named_def)

text \<open>
  The device names of Windows, in any mix of cases; spaces, and anything behind a dot or a colon, do not change the device that
  is meant.
\<close>

definition device_name :: "bytes \<Rightarrow> bool" where
  "device_name d \<longleftrightarrow>
     d \<in> {lit ''AUX'', lit ''NUL'', lit ''PRN'', lit ''CON'', lit ''CONIN$'', lit ''CONOUT$''} \<or>
     (\<exists>k\<in>set (lit ''123456789''). d = lit ''COM'' @ [k]) \<or> (\<exists>k\<in>set (lit ''0123456789''). d = lit ''LPT'' @ [k])"

definition windows_tail :: "bytes \<Rightarrow> bool" where
  "windows_tail t \<longleftrightarrow> (let r = dropWhile (\<lambda>b. b = 0x20) t in r = [] \<or> hd r \<in> {0x2e, 0x3a})"

definition windows_device :: "bytes \<Rightarrow> bool" where
  "windows_device input \<longleftrightarrow> (\<exists>d. device_name d \<and> (\<exists>x t. input = x @ t \<and> eq_ignore_ascii_case x d \<and> windows_tail t))"

lemma is_done_windows_iff: "k \<le> length input \<Longrightarrow> is_done_windows (get_from input k) \<longleftrightarrow> windows_tail (drop k input)"
proof -
  have "(case get_at b (length (takeWhile (\<lambda>c. c = 0x20) b)) of None \<Rightarrow> True | Some next \<Rightarrow> next = 0x2e \<or> next = 0x3a) \<longleftrightarrow> windows_tail b" for b
    by (induction b) (auto simp: windows_tail_def)
  then show "k \<le> length input \<Longrightarrow> ?thesis" by (simp add: is_done_windows_def get_from_def get_range_def Let_def)
qed

lemma digit_bytes:
  "(0x31 \<le> b \<and> b \<le> 0x39) \<longleftrightarrow> b \<in> set (lit ''123456789'')" "is_ascii_digit b \<longleftrightarrow> b \<in> set (lit ''0123456789'')" for b :: u8
proof -
  have "b \<in> set (lit ''123456789'')" if "0x31 \<le> b \<and> b \<le> 0x39"
  proof -
    have "unat b \<in> set [0x31..<0x3a]" using that unfolding set_upt by (auto simp: word_le_nat_alt)
    then show ?thesis by (rule byte_cases [where ks = "[0x31..<0x3a]", rotated]) code_simp
  qed
  then show "(0x31 \<le> b \<and> b \<le> 0x39) \<longleftrightarrow> b \<in> set (lit ''123456789'')" by auto
  have "b \<in> set (lit ''0123456789'')" if "is_ascii_digit b"
  proof -
    have "unat b \<in> set [0x30..<0x3a]" using that unfolding set_upt by (auto simp: is_ascii_digit_def word_le_nat_alt)
    then show ?thesis by (rule byte_cases [where ks = "[0x30..<0x3a]", rotated]) code_simp
  qed
  then show "is_ascii_digit b \<longleftrightarrow> b \<in> set (lit ''0123456789'')" by (auto simp: is_ascii_digit_def)
qed

lemma ex_device_name:
  "(\<exists>d. device_name d \<and> P d) \<longleftrightarrow>
     P (lit ''AUX'') \<or> P (lit ''NUL'') \<or> P (lit ''PRN'') \<or> P (lit ''CON'') \<or> P (lit ''CONIN$'') \<or> P (lit ''CONOUT$'') \<or>
     (\<exists>k\<in>set (lit ''123456789''). P (lit ''COM'' @ [k])) \<or> (\<exists>k\<in>set (lit ''0123456789''). P (lit ''LPT'' @ [k]))"
  unfolding device_name_def by blast

lemma device_name_length: "device_name d \<Longrightarrow> 3 \<le> length d"
  by (auto simp: device_name_def)

lemma numbered_device:
  assumes "list_all (\<lambda>k. k < 0x40) ks" "length s = 3"
  shows "(\<exists>k\<in>set ks. starts_named input (s @ [k]) \<and> windows_tail (drop 4 input)) \<longleftrightarrow>
    starts_named input s \<and> (case get_at input 3 of None \<Rightarrow> False | Some n \<Rightarrow> n \<in> set ks) \<and> is_done_windows (get_from input 4)"
proof (cases "3 < length input")
  case True
  have "starts_named input (s @ [k]) \<longleftrightarrow> starts_named input s \<and> input ! 3 = k" if "k \<in> set ks" for k
    using assms that True by (simp add: starts_named_append starts_named_byte list_all_iff get_at_def)
  with True show ?thesis by (auto simp: is_done_windows_iff get_at_def)
qed (use assms(2) in \<open>auto simp: starts_named_def get_at_def\<close>)

lemma is_win_device_iff: "is_win_device input \<longleftrightarrow> windows_device input"
proof (cases "3 \<le> length input")
  case True
  have n: "eq_ignore_ascii_case (take 3 input) s \<longleftrightarrow> starts_named input s" if "length s = 3" for s
    using True that by (simp add: starts_named_def)
  have t: "is_done_windows (get_from input 3) \<longleftrightarrow> windows_tail (drop 3 input)" using True by (rule is_done_windows_iff)
  have c: "matches_at input 3 b s \<and> is_done_windows (get_from input b) \<longleftrightarrow> starts_named (drop 3 input) s \<and> windows_tail (drop b input)"
    if "length s = b - 3" "3 \<le> b" for s b
    using that True by (auto simp: matches_at_named is_done_windows_iff starts_named_def)
  have com: "(\<exists>k\<in>set (lit ''123456789''). starts_named input (lit ''COM'' @ [k]) \<and> windows_tail (drop 4 input)) \<longleftrightarrow>
      starts_named input (lit ''COM'') \<and> (case get_at input 3 of None \<Rightarrow> False | Some n \<Rightarrow> n \<ge> 0x31 \<and> n \<le> 0x39) \<and>
      is_done_windows (get_from input 4)"
    unfolding digit_bytes(1) by (rule numbered_device) code_simp+
  have lpt: "(\<exists>k\<in>set (lit ''0123456789''). starts_named input (lit ''LPT'' @ [k]) \<and> windows_tail (drop 4 input)) \<longleftrightarrow>
      starts_named input (lit ''LPT'') \<and> (case get_at input 3 of None \<Rightarrow> False | Some n \<Rightarrow> is_ascii_digit n) \<and>
      is_done_windows (get_from input 4)"
    unfolding digit_bytes(2) by (rule numbered_device) code_simp+
  have con: "starts_named input (lit ''CONIN$'') \<longleftrightarrow> starts_named input (lit ''CON'') \<and> starts_named (drop 3 input) (lit ''IN$'')"
    "starts_named input (lit ''CONOUT$'') \<longleftrightarrow> starts_named input (lit ''CON'') \<and> starts_named (drop 3 input) (lit ''OUT$'')"
    using starts_named_append [of input "lit ''CON''" "lit ''IN$''"] starts_named_append [of input "lit ''CON''" "lit ''OUT$''"]
    by (simp_all add: numeral_3_eq_3)
  have len: "length (lit ''AUX'') = 3" "length (lit ''NUL'') = 3" "length (lit ''PRN'') = 3" "length (lit ''CON'') = 3"
    "length (lit ''CONIN$'') = 6" "length (lit ''CONOUT$'') = 7" "\<And>k. length (lit ''COM'' @ [k]) = 4" "\<And>k. length (lit ''LPT'' @ [k]) = 4"
    by simp_all
  have "windows_device input \<longleftrightarrow> (\<exists>d. device_name d \<and> starts_named input d \<and> windows_tail (drop (length d) input))"
    unfolding windows_device_def starts_named_split ..
  also have "\<dots> \<longleftrightarrow> is_win_device input"
    unfolding ex_device_name len com lpt con is_win_device_def using True by (simp add: get_range_def n t c) blast
  finally show ?thesis by simp
next
  case False
  then show ?thesis
    unfolding windows_device_def starts_named_split
    by (auto simp: is_win_device_def get_range_def starts_named_def dest: device_name_length)
qed

text \<open>
  A generated short name of eight bytes: the beginning of the given prefix, a tilde, and a number without a leading zero that
  fills the rest.
\<close>

definition generated_name :: "bytes \<Rightarrow> bytes \<Rightarrow> bool" where
  "generated_name short x \<longleftrightarrow> length x = 8 \<and>
     (\<exists>a d ds p. x = a @ 0x7e # d # ds \<and> eq_ignore_ascii_case a (take p short) \<and>
        d \<in> set (lit ''123456789'') \<and> set ds \<subseteq> set (lit ''0123456789''))"

definition ntfs_dot_gitmodules :: "bytes \<Rightarrow> bool" where
  "ntfs_dot_gitmodules input \<longleftrightarrow> (\<exists>x t. input = x @ t \<and> ntfs_tail t \<and>
     (eq_ignore_ascii_case x (lit ''.gitmodules'') \<or>
      (\<exists>k\<in>set (lit ''1234''). eq_ignore_ascii_case x (lit ''gitmod~'' @ [k])) \<or>
      generated_name (lit ''gi7eba'') x))"

lemma interval_step: "a < b \<Longrightarrow> (\<forall>k. a \<le> k \<and> k < b \<longrightarrow> P k) \<longleftrightarrow> P a \<and> (\<forall>k. a + 1 \<le> k \<and> k < b \<longrightarrow> P k)" for a b :: nat
proof -
  have "k = a \<or> a + 1 \<le> k" if "a \<le> k" for k using that by linarith
  then show "a < b \<Longrightarrow> ?thesis" by (auto dest: Suc_leD)
qed

lemma short_name_digits:
  "pos \<le> 8 \<Longrightarrow> short_name_loop input short pos True =
     (if 8 \<le> length input \<and> (\<forall>k. pos \<le> k \<and> k < 8 \<longrightarrow> is_ascii_digit (input ! k)) \<or> pos = 8 then Some 8 else None)"
proof (induction "8 - pos" arbitrary: pos)
  case 0
  then show ?case by (simp add: short_name_loop.simps)
next
  case (Suc n)
  then have p: "pos < 8" by simp
  have step: "(\<forall>k. pos \<le> k \<and> k < 8 \<longrightarrow> is_ascii_digit (input ! k)) \<longleftrightarrow>
      is_ascii_digit (input ! pos) \<and> (\<forall>k. pos + 1 \<le> k \<and> k < 8 \<longrightarrow> is_ascii_digit (input ! k))"
    using p by (rule interval_step)
  have "n = 8 - (pos + 1)" "pos + 1 \<le> 8" using Suc(2) p by simp_all
  note ih = Suc(1) [OF this]
  have "short_name_loop input short pos True =
      (if pos < length input \<and> is_ascii_digit (input ! pos) then short_name_loop input short (pos + 1) True else None)"
    using p by (subst short_name_loop.simps) (simp add: get_at_def)
  moreover have "8 \<le> length input \<Longrightarrow> pos < length input" "pos + 1 = 8 \<Longrightarrow> 8 \<le> length input \<longleftrightarrow> pos < length input" using p by linarith+
  ultimately show ?case unfolding step ih using p by (cases "pos + 1 = 8") auto
qed

text \<open>The letters before the tilde are those of the prefix.\<close>

definition tilde_at :: "bytes \<Rightarrow> bytes \<Rightarrow> nat \<Rightarrow> nat \<Rightarrow> bool" where
  "tilde_at input short pos p \<longleftrightarrow> pos \<le> p \<and> p \<le> 6 \<and> p + 1 < length input \<and>
     (\<forall>k. pos \<le> k \<and> k < p \<longrightarrow> to_ascii_lowercase (input ! k) = to_ascii_lowercase (short ! k)) \<and>
     input ! p = 0x7e \<and> 0x31 \<le> input ! (p + 1) \<and> input ! (p + 1) \<le> 0x39 \<and>
     8 \<le> length input \<and> (\<forall>k. p + 2 \<le> k \<and> k < 8 \<longrightarrow> is_ascii_digit (input ! k))"

lemma high_bit: "b AND 0x80 = 0x80 \<longleftrightarrow> \<not> b < 0x80" for b :: u8
proof -
  have "unat b \<in> set [0..<256]" by simp
  then show ?thesis by (rule byte_cases [where ks = "[0..<256]", rotated]) code_simp
qed

lemma short_name_letters:
  assumes "length short = 6" "is_ascii short" "0x7e \<notin> to_ascii_lowercase ` set short"
  shows "pos \<le> 6 \<Longrightarrow> short_name_loop input short pos False = (if \<exists>p. tilde_at input short pos p then Some 8 else None)"
proof (induction "6 - pos" arbitrary: pos)
  case 0
  then have "pos = 6" by simp
  then have "(\<exists>p. tilde_at input short pos p) \<longleftrightarrow> tilde_at input short 6 6" by (auto simp: tilde_at_def)
  then show ?case using \<open>pos = 6\<close> short_name_digits [of 8 input short]
    by (subst short_name_loop.simps) (auto simp: tilde_at_def get_at_def)
next
  case (Suc n)
  then have p: "pos < 6" by simp
  show ?case
  proof (cases "get_at input pos = Some 0x7e")
    case True
    have "tilde_at input short pos q \<longleftrightarrow> q = pos \<and> tilde_at input short pos pos" for q
    proof -
      have "to_ascii_lowercase 0x7e = 0x7e" by code_simp
      then have "to_ascii_lowercase (input ! pos) \<noteq> to_ascii_lowercase (short ! pos)"
        using True assms(1,3) p by (auto simp: get_at_Some image_iff)
      then have "\<not> (pos \<le> pos \<and> pos < q \<longrightarrow> to_ascii_lowercase (input ! pos) = to_ascii_lowercase (short ! pos)) \<or> q \<le> pos" by auto
      then have "tilde_at input short pos q \<Longrightarrow> q = pos" unfolding tilde_at_def by (metis le_antisym)
      then show ?thesis by blast
    qed
    then have e: "(\<exists>q. tilde_at input short pos q) \<longleftrightarrow> tilde_at input short pos pos" by blast
    show ?thesis unfolding e using True p short_name_digits [of "pos + 2" input short]
      by (subst short_name_loop.simps) (auto simp: tilde_at_def get_at_def)
  next
    case False
    have step: "tilde_at input short pos q \<longleftrightarrow> pos < length input \<and>
        to_ascii_lowercase (input ! pos) = to_ascii_lowercase (short ! pos) \<and> tilde_at input short (pos + 1) q" for q
    proof (cases "q = pos")
      case True
      then show ?thesis using False by (auto simp: tilde_at_def get_at_def)
    next
      case False
      show ?thesis
      proof (cases "pos < q")
        case True
        then show ?thesis unfolding tilde_at_def interval_step [OF True] by auto
      qed (use False in \<open>auto simp: tilde_at_def\<close>)
    qed
    have ih: "short_name_loop input short (pos + 1) False = (if \<exists>q. tilde_at input short (pos + 1) q then Some 8 else None)"
      using Suc p by simp
    have "\<not> b < 0x80 \<Longrightarrow> to_ascii_lowercase b \<noteq> to_ascii_lowercase (short ! pos)" for b
      using lowercase_non_ascii [of b] lowercase_ascii [of "short ! pos"] assms(1,2) p by (auto simp: is_ascii_def list_all_iff)
    then show ?thesis using False p assms(1)
      by (subst short_name_loop.simps) (auto simp: step ih [simplified] high_bit get_at_def)
  qed
qed

lemma tilde_at_generated:
  assumes "length short = 6"
  shows "(\<exists>p. tilde_at input short 0 p) \<longleftrightarrow> 8 \<le> length input \<and> generated_name short (take 8 input)"
proof
  assume "\<exists>p. tilde_at input short 0 p"
  then obtain p where p: "tilde_at input short 0 p" by blast
  let ?x = "take 8 input"
  have l: "8 \<le> length input" "p \<le> 6" using p by (simp_all add: tilde_at_def)
  have "?x = take p ?x @ drop p ?x" by (rule append_take_drop_id [symmetric])
  also have "drop p ?x = ?x ! p # ?x ! (p + 1) # drop (p + 2) ?x"
    using l Cons_nth_drop_Suc [of p ?x] Cons_nth_drop_Suc [of "Suc p" ?x] by simp
  finally have x: "?x = take p ?x @ 0x7e # input ! (p + 1) # drop (p + 2) ?x" using p l by (simp add: tilde_at_def)
  have "map to_ascii_lowercase (take p ?x) = map to_ascii_lowercase (take p short)"
    using p l assms by (intro nth_equalityI) (auto simp: tilde_at_def)
  then have a: "eq_ignore_ascii_case (take p ?x) (take p short)" by (simp only: eq_ignore_ascii_case_def)
  have d: "is_ascii_digit c" if c: "c \<in> set (drop (p + 2) ?x)" for c
  proof -
    obtain i where "i < length (drop (p + 2) ?x)" "c = drop (p + 2) ?x ! i" using c by (auto simp: in_set_conv_nth)
    then have "p + 2 + i < 8" "c = input ! (p + 2 + i)" using l by simp_all
    then show ?thesis using p by (auto simp: tilde_at_def)
  qed
  then have ds: "set (drop (p + 2) ?x) \<subseteq> set (lit ''0123456789'')" unfolding digit_bytes by blast
  have "0x31 \<le> input ! (p + 1) \<and> input ! (p + 1) \<le> 0x39" using p by (simp add: tilde_at_def)
  then have b: "input ! (p + 1) \<in> set (lit ''123456789'')" unfolding digit_bytes .
  have "length ?x = 8" using l by simp
  with x a b ds show "8 \<le> length input \<and> generated_name short ?x" unfolding generated_name_def using l(1) by blast
next
  assume g: "8 \<le> length input \<and> generated_name short (take 8 input)"
  then obtain a d ds p where x: "take 8 input = a @ 0x7e # d # ds" "eq_ignore_ascii_case a (take p short)"
    "d \<in> set (lit ''123456789'')" "set ds \<subseteq> set (lit ''0123456789'')" unfolding generated_name_def by blast
  let ?n = "length a"
  have len: "length (a @ 0x7e # d # ds) = 8" using g x(1) by (metis length_take min.absorb2)
  have at: "input ! k = (a @ 0x7e # d # ds) ! k" if "k < 8" for k using x(1) that by (metis nth_take)
  have n: "?n \<le> 6" using len by simp
  have "?n = min 6 p" using eq_ignore_case_length [OF x(2)] assms by simp
  then have "take p short = take ?n short" using assms by (cases "p \<le> 6") simp_all
  then have "map to_ascii_lowercase a = map to_ascii_lowercase (take ?n short)" using x(2) by (simp add: eq_ignore_ascii_case_def)
  then have "to_ascii_lowercase (a ! k) = to_ascii_lowercase (short ! k)" if "k < ?n" for k
    using that n assms by (metis (no_types, lifting) length_map length_take nth_map nth_take)
  moreover have "is_ascii_digit (input ! k)" if "?n + 2 \<le> k" "k < 8" for k
  proof -
    have "input ! k = ds ! (k - (?n + 2))" using at [OF that(2)] that(1) by (simp add: nth_append nth_Cons' numeral_2_eq_2)
    moreover have "k - (?n + 2) < length ds" using that len by simp
    ultimately have "input ! k \<in> set ds" by simp
    then show ?thesis unfolding digit_bytes using x(4) by blast
  qed
  moreover have "input ! ?n = 0x7e" "input ! (?n + 1) = d" using at n by (simp_all add: nth_append)
  ultimately have "tilde_at input short 0 ?n"
    using x(3) g n at unfolding tilde_at_def digit_bytes(1) [symmetric] by (auto simp: nth_append)
  then show "\<exists>p. tilde_at input short 0 p" ..
qed

lemma lowercase_tilde: "to_ascii_lowercase c = 0x7e \<longleftrightarrow> c = 0x7e"
proof (cases "is_ascii_uppercase c")
  case True
  then have "unat c \<in> set [0x41..<0x5b]" unfolding set_upt by (auto simp: is_ascii_uppercase_def word_le_nat_alt)
  then show ?thesis by (rule byte_cases [where ks = "[0x41..<0x5b]", rotated]) code_simp
qed (simp add: to_ascii_lowercase_def)

lemma starts_named_tilde: "starts_named input [0x7e] \<longleftrightarrow> get_at input 0 = Some 0x7e"
proof -
  have "to_ascii_lowercase 0x7e = 0x7e" by code_simp
  then have "to_ascii_lowercase c = to_ascii_lowercase 0x7e \<longleftrightarrow> c = 0x7e" for c using lowercase_tilde [of c] by (simp only:)
  then show ?thesis by (cases input) (simp_all add: starts_named_def eq_ignore_ascii_case_def)
qed

lemma small_digit_bytes: "(0x31 \<le> b \<and> b \<le> 0x34) \<longleftrightarrow> b \<in> set (lit ''1234'')" for b :: u8
proof -
  have "b \<in> set (lit ''1234'')" if "0x31 \<le> b \<and> b \<le> 0x34"
  proof -
    have "unat b \<in> set [0x31..<0x35]" using that unfolding set_upt by (auto simp: word_le_nat_alt)
    then show ?thesis by (rule byte_cases [where ks = "[0x31..<0x35]", rotated]) code_simp
  qed
  then show ?thesis by auto
qed

lemma numbered_gitmod:
  "(case (get_range (lit ''gitmodules'') 0 6, get_range input 0 6) of
      (Some ntfs_prefix, Some first_6_of_input) \<Rightarrow>
        eq_ignore_ascii_case first_6_of_input ntfs_prefix \<and> get_at input 6 = Some 0x7e \<and>
        (case get_at input 7 of None \<Rightarrow> False | Some num \<Rightarrow> 0x31 \<le> num \<and> num \<le> 0x34)
    | _ \<Rightarrow> False) \<longleftrightarrow> (\<exists>k\<in>set (lit ''1234''). starts_named input (lit ''gitmod~'' @ [k]))"
proof -
  have p: "get_range (lit ''gitmodules'') 0 6 = Some (lit ''gitmod'')" by code_simp
  have "lit ''gitmod~'' = lit ''gitmod'' @ [0x7e]" by simp
  moreover have six: "length (lit ''gitmod'') = 6" and "length (lit ''gitmod'' @ [0x7e]) = 7" by simp_all
  ultimately have "starts_named input (lit ''gitmod~'' @ [k]) \<longleftrightarrow>
      (starts_named input (lit ''gitmod'') \<and> starts_named (drop 6 input) [0x7e]) \<and> starts_named (drop 7 input) [k]" for k
    by (simp only: starts_named_append)
  moreover have "get_at (drop n input) 0 = get_at input n" for n by (simp add: get_at_def)
  ultimately have "starts_named input (lit ''gitmod~'' @ [k]) \<longleftrightarrow>
      starts_named input (lit ''gitmod'') \<and> get_at input 6 = Some 0x7e \<and> get_at input 7 = Some k" if "k < 0x40" for k
    using that by (simp only: starts_named_tilde starts_named_byte conj_assoc)
  moreover have "k < 0x40" if "k \<in> set (lit ''1234'')" for k :: u8 using that by auto
  moreover have "(case get_range input 0 6 of Some x \<Rightarrow> eq_ignore_ascii_case x (lit ''gitmod'') | None \<Rightarrow> False) \<longleftrightarrow> starts_named input (lit ''gitmod'')"
    unfolding starts_named_def six by (simp add: get_range_def)
  ultimately show ?thesis unfolding p small_digit_bytes
    by (cases "get_range input 0 6"; cases "get_at input 7") auto
qed

lemma is_dot_ntfs_iff: "is_dot_ntfs input (lit ''gitmodules'') (lit ''gi7eba'') \<longleftrightarrow> ntfs_dot_gitmodules input"
proof -
  let ?mod = "(\<exists>k\<in>set (lit ''1234''). starts_named input (lit ''gitmod~'' @ [k])) \<and> ntfs_tail (drop 8 input)"
  let ?gen = "8 \<le> length input \<and> generated_name (lit ''gi7eba'') (take 8 input) \<and> ntfs_tail (drop 8 input)"
  have tail: "k \<le> length input \<Longrightarrow> is_done_ntfs (get_from input k) \<longleftrightarrow> ntfs_tail (drop k input)" for k
    by (simp add: is_done_ntfs_def get_from_def get_range_def done_ntfs_loop_iff)
  have eleven: "1 + length (lit ''gitmodules'') = 11" by simp
  have lens: "length (lit ''.gitmodules'') = 11" "\<And>k. length (lit ''gitmod~'' @ [k]) = 8" by simp_all
  have gen: "(\<exists>x t. input = x @ t \<and> ntfs_tail t \<and> generated_name (lit ''gi7eba'') x) \<longleftrightarrow> ?gen"
  proof
    assume "\<exists>x t. input = x @ t \<and> ntfs_tail t \<and> generated_name (lit ''gi7eba'') x"
    then obtain x t where x: "input = x @ t" "ntfs_tail t" "generated_name (lit ''gi7eba'') x" by blast
    then have "length x = 8" by (simp add: generated_name_def)
    with x show ?gen by simp
  qed (metis append_take_drop_id)
  have "ntfs_dot_gitmodules input \<longleftrightarrow> (\<exists>x t. input = x @ t \<and> eq_ignore_ascii_case x (lit ''.gitmodules'') \<and> ntfs_tail t) \<or>
      (\<exists>k\<in>set (lit ''1234''). \<exists>x t. input = x @ t \<and> eq_ignore_ascii_case x (lit ''gitmod~'' @ [k]) \<and> ntfs_tail t) \<or>
      (\<exists>x t. input = x @ t \<and> ntfs_tail t \<and> generated_name (lit ''gi7eba'') x)"
    unfolding ntfs_dot_gitmodules_def by blast
  then have spec: "ntfs_dot_gitmodules input \<longleftrightarrow>
      starts_named input (lit ''.gitmodules'') \<and> ntfs_tail (drop 11 input) \<or> ?mod \<or> ?gen"
    unfolding starts_named_split gen lens bex_simps .
  have dots: "starts_named input (lit ''.gitmodules'') \<longleftrightarrow> get_at input 0 = Some 0x2e \<and> starts_named (drop 1 input) (lit ''gitmodules'')"
    using starts_named_append [of input "[0x2e]" "lit ''gitmodules''"] starts_named_byte [of "0x2e" input] by simp
  show ?thesis
  proof (cases "get_at input 0 = Some 0x2e")
    case True
    then obtain r where r: "input = 0x2e # r" by (cases input) auto
    have low: "to_ascii_lowercase 0x2e = 0x2e" "to_ascii_lowercase 0x67 = 0x67" by code_simp+
    have "\<not> starts_named input (lit ''gitmod~'' @ [k])" for k
      using r low by (auto simp: starts_named_def eq_ignore_ascii_case_def)
    moreover have "\<not> generated_name (lit ''gi7eba'') (take 8 input)"
    proof
      assume "generated_name (lit ''gi7eba'') (take 8 input)"
      then obtain a d ds p where "take 8 input = a @ 0x7e # d # ds" "eq_ignore_ascii_case a (take p (lit ''gi7eba''))"
        unfolding generated_name_def by blast
      then show False using r low by (cases a; cases p) (auto simp: eq_ignore_ascii_case_def)
    qed
    moreover have "matches_at input 1 11 (lit ''gitmodules'') \<longleftrightarrow> starts_named (drop 1 input) (lit ''gitmodules'')"
      using r by (intro matches_at_named) simp_all
    moreover have "starts_named (drop 1 input) (lit ''gitmodules'') \<Longrightarrow> 11 \<le> length input" using r by (auto simp: starts_named_def)
    moreover have "is_dot_ntfs input (lit ''gitmodules'') (lit ''gi7eba'') \<longleftrightarrow>
        matches_at input 1 11 (lit ''gitmodules'') \<and> is_done_ntfs (get_from input 11)"
      unfolding is_dot_ntfs_def Let_def eleven if_P [OF True] by (simp only: if_bool_eq_conj) blast
    ultimately show ?thesis unfolding spec dots using True tail [of 11] by blast
  next
    case False
    have mod: "(case (get_range (lit ''gitmodules'') 0 6, get_range input 0 6) of
          (Some ntfs_prefix, Some first_6_of_input) \<Rightarrow>
            eq_ignore_ascii_case first_6_of_input ntfs_prefix \<and> get_at input 6 = Some 0x7e \<and>
            (case get_at input 7 of None \<Rightarrow> False | Some num \<Rightarrow> 0x31 \<le> num \<and> num \<le> 0x34)
        | _ \<Rightarrow> False) \<longleftrightarrow> (\<exists>k\<in>set (lit ''1234''). starts_named input (lit ''gitmod~'' @ [k]))"
      by (rule numbered_gitmod)
    have choice: "(if m then D 8 else case (if e \<and> g then Some 8 else None) of None \<Rightarrow> False | Some pos \<Rightarrow> D pos) \<longleftrightarrow>
        (if m then D 8 else e \<and> g \<and> D 8)" for m e g and D :: "nat \<Rightarrow> bool"
      by auto
    have "starts_named input (lit ''gitmod~'' @ [k]) \<Longrightarrow> 8 \<le> length input" for k by (simp add: starts_named_def)
    then have eight: "\<exists>k\<in>set (lit ''1234''). starts_named input (lit ''gitmod~'' @ [k]) \<Longrightarrow> 8 \<le> length input" by blast
    have merge: "(e \<Longrightarrow> d = t) \<Longrightarrow> (m \<Longrightarrow> e) \<Longrightarrow> (if m then d else e \<and> g \<and> d) \<longleftrightarrow> (False \<and> n) \<and> u \<or> m \<and> t \<or> e \<and> g \<and> t" for m d e g t n u
      by auto
    have loop: "short_name_loop input (lit ''gi7eba'') 0 False = (if 8 \<le> length input \<and> generated_name (lit ''gi7eba'') (take 8 input) then Some 8 else None)"
    proof -
      have g: "length (lit ''gi7eba'') = 6" "is_ascii (lit ''gi7eba'')" "0x7e \<notin> to_ascii_lowercase ` set (lit ''gi7eba'')" by code_simp+
      show ?thesis using short_name_letters [OF g, of 0 input] unfolding tilde_at_generated [OF g(1)] by simp
    qed
    have "is_dot_ntfs input (lit ''gitmodules'') (lit ''gi7eba'') \<longleftrightarrow>
        (if \<exists>k\<in>set (lit ''1234''). starts_named input (lit ''gitmod~'' @ [k]) then is_done_ntfs (get_from input 8)
         else 8 \<le> length input \<and> generated_name (lit ''gi7eba'') (take 8 input) \<and> is_done_ntfs (get_from input 8))"
      unfolding is_dot_ntfs_def if_not_P [OF False] mod loop
      by (rule choice [where D = "\<lambda>pos. is_done_ntfs (get_from input pos)"])
    also have "\<dots> \<longleftrightarrow> ntfs_dot_gitmodules input"
      unfolding spec dots eq_False [THEN iffD2, OF False] using tail [of 8] eight by (rule merge)
    finally show ?thesis .
  qed
qed

lemma eq_ignore_case_refl: "eq_ignore_ascii_case s s"
  by (simp add: eq_ignore_ascii_case_def)

lemma dot_names_ascii: "is_ascii (lit ''git'')" "is_ascii (lit ''gitmodules'')"
  by code_simp+

text \<open>A plain spelling of a dotted name is found under every protection.\<close>

lemma dot_name_parts:
  assumes "eq_ignore_ascii_case input (0x2e # s)"
  obtains r where "input = 0x2e # r" "eq_ignore_ascii_case r s"
proof -
  obtain c r where i: "input = c # r" "to_ascii_lowercase c = to_ascii_lowercase 0x2e" "eq_ignore_ascii_case r s"
    using assms by (cases input) (auto simp: eq_ignore_ascii_case_def)
  have "to_ascii_lowercase 0x2e = 0x2e" "(0x2e :: u8) < 0x40" by code_simp+
  then have "c = 0x2e" using lowercase_digit [of c "0x2e"] i(2) by simp
  with i show thesis using that by blast
qed

context bstr_spec
begin

lemma dot_hfs_plain:
  assumes "eq_ignore_ascii_case input (0x2e # s)" "is_ascii s"
  shows "is_dot_hfs bs input s"
proof -
  obtain r where i: "input = 0x2e # r" "eq_ignore_ascii_case r s" using assms(1) by (rule dot_name_parts)
  have a: "is_ascii r" "is_ascii input" using eq_ignore_case_ascii [OF i(2) assms(2)] i(1) by (simp_all add: is_ascii_def)
  have "map lower_char (map ucast r) = map lower_char (map ucast s)"
    unfolding map_lower_char_ascii [OF a(1)] map_lower_char_ascii [OF assms(2)]
    using i(2) by (simp only: eq_ignore_ascii_case_def)
  then show ?thesis
    unfolding is_dot_hfs_iff chars_of_ascii [OF a(2)] filter_ascii [OF a(2)]
    using i(1) by (simp add: lower_char_dot)
qed

end

lemma dot_ntfs_plain:
  assumes "eq_ignore_ascii_case input (0x2e # s)"
  shows "is_dot_ntfs input s short"
proof -
  obtain r where i: "input = 0x2e # r" "eq_ignore_ascii_case r s" using assms by (rule dot_name_parts)
  then have "length r = length s" using eq_ignore_case_length by blast
  then show ?thesis using i
    by (simp add: is_dot_ntfs_def matches_at_def get_from_def get_range_def is_done_ntfs_def)
qed

lemma dot_git_ntfs_plain: "eq_ignore_ascii_case input (lit ''.git'') \<Longrightarrow> is_dot_git_ntfs input"
  unfolding is_dot_git_ntfs_iff by (intro exI [of _ input] exI [of _ "[]"]) (simp add: ntfs_tail_def)

lemma is_symlink_Some: "is_symlink (Some Symlink)"
  by (simp add: is_symlink_def)

text \<open>The characters that HFS+ ignores in a name: joiners and marks of direction, embeddings, shaping controls, the byte order mark.\<close>

definition invisible :: "u32 \<Rightarrow> bool" where
  "invisible c \<longleftrightarrow> 0x200c \<le> unat c \<and> unat c \<le> 0x200f \<or> 0x202a \<le> unat c \<and> unat c \<le> 0x202e \<or>
     0x206a \<le> unat c \<and> unat c \<le> 0x206f \<or> unat c = 0xfeff"

lemma invisible_iff: "hfs_ignorable c \<longleftrightarrow> invisible c"
proof
  assume "hfs_ignorable c"
  then show "invisible c" unfolding hfs_ignorable_def by (elim insertE emptyE) (simp_all add: invisible_def)
next
  assume "invisible c"
  then have "unat c \<in> {0x200c, 0x200d, 0x200e, 0x200f, 0x202a, 0x202b, 0x202c, 0x202d, 0x202e,
     0x206a, 0x206b, 0x206c, 0x206d, 0x206e, 0x206f, 0xfeff}" unfolding invisible_def insert_iff empty_iff by arith
  then have "word_of_nat (unat c) \<in> (word_of_nat :: nat \<Rightarrow> u32) ` {0x200c, 0x200d, 0x200e, 0x200f, 0x202a, 0x202b, 0x202c, 0x202d, 0x202e,
     0x206a, 0x206b, 0x206c, 0x206d, 0x206e, 0x206f, 0xfeff}" by (rule imageI)
  then show "hfs_ignorable c" by (simp add: hfs_ignorable_def)
qed

definition hfs_name :: "bstr \<Rightarrow> bytes \<Rightarrow> u32 list" where
  "hfs_name bs input = map lower_char (filter (\<lambda>c. \<not> invisible c) (bchars bs input))"

lemma is_dot_hfs_name:
  "is_dot_hfs bs input (lit ''git'') \<longleftrightarrow> hfs_name bs input = map ucast (lit ''.git'')"
  "is_dot_hfs bs input (lit ''gitmodules'') \<longleftrightarrow> hfs_name bs input = map ucast (lit ''.gitmodules'')"
proof -
  have "0x2e # map lower_char (map ucast (lit ''git'')) = map ucast (lit ''.git'')"
    "0x2e # map lower_char (map ucast (lit ''gitmodules'')) = map ucast (lit ''.gitmodules'')" by code_simp+
  then show "is_dot_hfs bs input (lit ''git'') \<longleftrightarrow> hfs_name bs input = map ucast (lit ''.git'')"
    "is_dot_hfs bs input (lit ''gitmodules'') \<longleftrightarrow> hfs_name bs input = map ucast (lit ''.gitmodules'')"
    unfolding is_dot_hfs_iff hfs_name_def invisible_iff by (simp_all only:)
qed

lemma check_win_None:
  assumes "input \<noteq> []"
  shows "check_win_devices_and_illegal_characters input = None \<longleftrightarrow>
    \<not> windows_device input \<and> (\<forall>b\<in>set input. 0x20 \<le> b \<and> b \<notin> set (lit '':<>|?*'') \<and> b \<noteq> 0x22) \<and> last input \<notin> {0x2e, 0x20}"
proof -
  have "suffix [b] input \<longleftrightarrow> last input = b" for b
    using assms by (metis append_butlast_last_id last_snoc suffix_def)
  moreover have "list_ex (\<lambda>b. b < 0x20 \<or> b \<in> set (lit '':<>|?*'') \<or> b = 0x22) input \<longleftrightarrow>
      \<not> (\<forall>b\<in>set input. 0x20 \<le> b \<and> b \<notin> set (lit '':<>|?*'') \<and> b \<noteq> 0x22)"
    unfolding list_ex_iff not_less [symmetric] by blast
  moreover have "(if a then Some x else if b then Some y else if c then Some z else None) = None \<longleftrightarrow> \<not> a \<and> \<not> b \<and> \<not> c"
    for a b c and x y z :: component_error
    by simp
  ultimately show ?thesis unfolding check_win_devices_and_illegal_characters_def is_win_device_iff by simp
qed

text \<open>A component that git may use as a file name, whatever its platform is protected against.\<close>

definition safe_component :: "bstr \<Rightarrow> bytes \<Rightarrow> component_mode option \<Rightarrow> component_options \<Rightarrow> bool" where
  "safe_component bs input mode opts \<longleftrightarrow>
     input \<noteq> [] \<and> 0x2f \<notin> set input \<and> \<not> eq_ignore_ascii_case input (lit ''.git'') \<and>
     (mode = Some Symlink \<longrightarrow> \<not> eq_ignore_ascii_case input (lit ''.gitmodules'')) \<and>
     (protect_windows opts \<longrightarrow> 0x5c \<notin> set input \<and> get_at (bchars bs input) 1 \<noteq> Some 0x3a) \<and>
     (protect_hfs opts \<longrightarrow> hfs_name bs input \<noteq> map ucast (lit ''.git'') \<and>
        (mode = Some Symlink \<longrightarrow> hfs_name bs input \<noteq> map ucast (lit ''.gitmodules''))) \<and>
     (protect_ntfs opts \<longrightarrow>
        \<not> (\<exists>x t. input = x @ t \<and> (eq_ignore_ascii_case x (lit ''.git'') \<or> eq_ignore_ascii_case x (lit ''git~1'')) \<and> ntfs_tail t) \<and>
        (mode = Some Symlink \<longrightarrow> \<not> ntfs_dot_gitmodules input)) \<and>
     (protect_windows opts \<and> protect_ntfs opts \<longrightarrow>
        \<not> windows_device input \<and> (\<forall>b\<in>set input. 0x20 \<le> b \<and> b \<notin> set (lit '':<>|?*'') \<and> b \<noteq> 0x22) \<and> last input \<notin> {0x2e, 0x20})"

section \<open>Properties\<close>

text \<open>
  C32: A component is accepted, and then returned unchanged, exactly if it is safe to use as a file name: it is not empty, has
  no slash, is not \<^verbatim>\<open>.git\<close> in any mix of cases, and is not \<^verbatim>\<open>.gitmodules\<close> in any mix of cases if it is a symbolic link,
  whatever protections are chosen.  With the protection for Windows it has no backslash and no colon as its second character.
  With the one for HFS+ it is neither name with invisible characters mixed in.  With the one for NTFS it is neither
  \<^verbatim>\<open>.git\<close> nor \<^verbatim>\<open>git~1\<close>, and as a symbolic link neither \<^verbatim>\<open>.gitmodules\<close>, nor \<^verbatim>\<open>gitmod~1\<close> to \<^verbatim>\<open>gitmod~4\<close>, nor a
  prefix of \<^verbatim>\<open>gi7eba\<close> filled up to eight characters by a tilde and a number, each of them also followed by spaces and dots or
  by a stream name.  With those for Windows and NTFS it is none of the listed device names, also not with spaces, an extension
  or a stream name, has no control or otherwise forbidden character and does not end in a dot or a space.  (The hypothesis is the
  documented behaviour of the byte string library.)
\<close>

theorem accepted_component_is_safe:
  assumes "bstr_spec bs"
  shows "component bs input mode opts = Ok r \<longleftrightarrow> r = input \<and> safe_component bs input mode opts"
proof -
  have sym: "is_symlink mode \<longleftrightarrow> mode = Some Symlink" by (cases mode) (simp_all add: is_symlink_def)
  have sep: "find_byteset bs input [0x2f, 0x5c] = None \<longleftrightarrow> 0x2f \<notin> set input \<and> 0x5c \<notin> set input"
    "find_byte bs input 0x2f = None \<longleftrightarrow> 0x2f \<notin> set input"
    using bstr_spec.find_byte_None [OF assms, of input "0x2f"] bstr_spec.find_byteset [OF assms, of input "[0x2f, 0x5c]"] by auto
  have win: "(if protect_ntfs opts \<and> protect_windows opts then check_win_devices_and_illegal_characters input else None) = None \<longleftrightarrow>
      (protect_windows opts \<and> protect_ntfs opts \<longrightarrow> check_win_devices_and_illegal_characters input = None)" by auto
  have lits: "lit ''.git'' = 0x2e # lit ''git''" "lit ''.gitmodules'' = 0x2e # lit ''gitmodules''" by simp_all
  note plain = bstr_spec.dot_hfs_plain [OF assms _ dot_names_ascii(1), folded lits] bstr_spec.dot_hfs_plain [OF assms _ dot_names_ascii(2), folded lits]
    dot_git_ntfs_plain dot_ntfs_plain [of input "lit ''gitmodules''" "lit ''gi7eba''", folded lits]
  have "component bs input mode opts = Ok r \<longleftrightarrow> r = input \<and> input \<noteq> [] \<and> 0x2f \<notin> set input \<and>
      (protect_windows opts \<longrightarrow> 0x5c \<notin> set input \<and> get_at (bchars bs input) 1 \<noteq> Some 0x3a) \<and>
      (protect_hfs opts \<longrightarrow> \<not> is_dot_hfs bs input (lit ''git'') \<and> (mode = Some Symlink \<longrightarrow> \<not> is_dot_hfs bs input (lit ''gitmodules''))) \<and>
      (protect_ntfs opts \<longrightarrow> \<not> is_dot_git_ntfs input \<and>
        (mode = Some Symlink \<longrightarrow> \<not> is_dot_ntfs input (lit ''gitmodules'') (lit ''gi7eba''))) \<and>
      (protect_windows opts \<and> protect_ntfs opts \<longrightarrow> check_win_devices_and_illegal_characters input = None) \<and>
      (\<not> protect_hfs opts \<and> \<not> protect_ntfs opts \<longrightarrow> \<not> eq_ignore_ascii_case input (lit ''.git'') \<and>
        (mode = Some Symlink \<longrightarrow> \<not> eq_ignore_ascii_case input (lit ''.gitmodules'')))"
    unfolding component_def early_return_Ok sym sep win by (simp only: outcome.inject) blast
  then show ?thesis
    unfolding safe_component_def is_dot_hfs_name [symmetric] is_dot_git_ntfs_iff [symmetric] is_dot_ntfs_iff [symmetric]
    using plain check_win_None [of input] by blast
qed

theorem accepted_component_is_safe_witness:
  "safe_component reference_bstr (lit ''main.rs'') None default_options \<and>
   \<not> safe_component reference_bstr (lit ''Com7 .txt'') None default_options \<and>
   \<not> safe_component reference_bstr (lit ''GI7~1234'') (Some Symlink) default_options"
proof -
  have "component reference_bstr (lit ''main.rs'') None default_options = Ok (lit ''main.rs'')"
    "component reference_bstr (lit ''Com7 .txt'') None default_options \<noteq> Ok (lit ''Com7 .txt'')"
    "component reference_bstr (lit ''GI7~1234'') (Some Symlink) default_options \<noteq> Ok (lit ''GI7~1234'')" by code_simp+
  then show ?thesis
    unfolding accepted_component_is_safe [OF ref_bstr.bstr_spec_axioms] by blast
qed

text \<open>Without the protection for Windows the parent directory is an acceptable component.\<close>

lemma component_accepts_parent_directory:
  "component reference_bstr (lit ''..'') None \<lparr>protect_windows = False, protect_hfs = True, protect_ntfs = True\<rparr> = Ok (lit ''..'')"
  by code_simp

end
