(* ===== verification/Gix_Binary_Search.thy ===== *)
theory Gix_Binary_Search
  imports Gix_Prelude
begin

text \<open>
  \<^verbatim>\<open>slice::binary_search_by\<close> of the standard library, with \<^verbatim>\<open>Ok(index)\<close> for a match and
  \<^verbatim>\<open>Err(index)\<close> for the place where a matching element could be inserted, and the two other operations on
  vectors its callers combine it with: \<^verbatim>\<open>insert\<close> and \<^verbatim>\<open>remove\<close> at an index.  The lemmas state what the search
  finds in a list whose elements compare in order, and what insertion at the reported place keeps of that order.
\<close>

section \<open>The search\<close>

function binary_search_loop :: "('a \<Rightarrow> ordering) \<Rightarrow> 'a list \<Rightarrow> nat \<Rightarrow> nat \<Rightarrow> (nat, nat) outcome" where
  "binary_search_loop f xs left right =
     (if left < right then
        let mid = left + (right - left) div 2 in
        case f (xs ! mid) of
          Less \<Rightarrow> binary_search_loop f xs (mid + 1) right
        | Greater \<Rightarrow> binary_search_loop f xs left mid
        | Equal \<Rightarrow> Ok mid
      else Err left)"
  by pat_completeness auto
termination
  by (relation "measure (\<lambda>(f, xs, left, right). right - left)") auto

declare binary_search_loop.simps [simp del]

definition binary_search_by :: "('a \<Rightarrow> ordering) \<Rightarrow> 'a list \<Rightarrow> (nat, nat) outcome" where
  "binary_search_by f xs = binary_search_loop f xs 0 (length xs)"

definition vec_insert :: "'a list \<Rightarrow> nat \<Rightarrow> 'a \<Rightarrow> 'a list" where
  "vec_insert xs i x = take i xs @ x # drop i xs"

definition vec_remove :: "'a list \<Rightarrow> nat \<Rightarrow> 'a list" where
  "vec_remove xs i = take i xs @ drop (Suc i) xs"

section \<open>What it finds\<close>

text \<open>The elements of \<open>xs\<close> compare as \<open>Less\<close>, then \<open>Equal\<close>, then \<open>Greater\<close>.\<close>

definition bisectable :: "('a \<Rightarrow> ordering) \<Rightarrow> 'a list \<Rightarrow> bool" where
  "bisectable f xs = sorted_wrt (\<lambda>x y. (f x = Greater \<longrightarrow> f y = Greater) \<and> (f y = Less \<longrightarrow> f x = Less)) xs"

lemma bisectable_nth:
  assumes "bisectable f xs" "i \<le> j" "j < length xs"
  shows "f (xs ! i) = Greater \<Longrightarrow> f (xs ! j) = Greater" and "f (xs ! j) = Less \<Longrightarrow> f (xs ! i) = Less"
  using assms sorted_wrt_nth_less [of _ xs i j] by (cases "i = j"; fastforce simp: bisectable_def)+

lemma binary_search_loop_result:
  assumes "bisectable f xs" "left \<le> right" "right \<le> length xs"
    and "\<And>i. i < left \<Longrightarrow> f (xs ! i) = Less" and "\<And>i. right \<le> i \<Longrightarrow> i < length xs \<Longrightarrow> f (xs ! i) = Greater"
  shows "case binary_search_loop f xs left right of
      Ok i \<Rightarrow> i < length xs \<and> f (xs ! i) = Equal
    | Err i \<Rightarrow> i \<le> length xs \<and> (\<forall>j<i. f (xs ! j) = Less) \<and> (\<forall>j\<ge>i. j < length xs \<longrightarrow> f (xs ! j) = Greater)
    | Panic \<Rightarrow> False"
  using assms
proof (induction f xs left right rule: binary_search_loop.induct)
  case (1 f xs left right)
  let ?mid = "left + (right - left) div 2"
  show ?case
  proof (cases "left < right")
    case False
    then show ?thesis using 1 by (simp add: binary_search_loop.simps)
  next
    case True
    then have mid: "left \<le> ?mid" "?mid < right" "?mid < length xs" using "1.prems"(3) by auto
    show ?thesis
    proof (cases "f (xs ! ?mid)")
      case Less
      have "f (xs ! i) = Less" if "i < ?mid + 1" for i
        using bisectable_nth(2) [OF "1.prems"(1), of i ?mid] that mid Less by simp
      then show ?thesis using "1.IH"(1) [OF True refl Less] "1.prems" mid True Less
        by (subst binary_search_loop.simps) (simp add: Let_def)
    next
      case Greater
      have "f (xs ! i) = Greater" if "?mid \<le> i" "i < length xs" for i
        using bisectable_nth(1) [OF "1.prems"(1), of ?mid i] that Greater by simp
      then show ?thesis using "1.IH"(2) [OF True refl Greater] "1.prems" mid True Greater
        by (subst binary_search_loop.simps) (simp add: Let_def)
    next
      case Equal
      then show ?thesis using mid True by (subst binary_search_loop.simps) (simp add: Let_def)
    qed
  qed
qed

lemma binary_search_cases:
  assumes "bisectable f xs"
  obtains (found) i where "binary_search_by f xs = Ok i" "i < length xs" "f (xs ! i) = Equal"
  | (missing) i where "binary_search_by f xs = Err i" "i \<le> length xs"
      "\<And>x. x \<in> set (take i xs) \<Longrightarrow> f x = Less" "\<And>x. x \<in> set (drop i xs) \<Longrightarrow> f x = Greater"
proof -
  have r: "case binary_search_by f xs of
      Ok i \<Rightarrow> i < length xs \<and> f (xs ! i) = Equal
    | Err i \<Rightarrow> i \<le> length xs \<and> (\<forall>j<i. f (xs ! j) = Less) \<and> (\<forall>j\<ge>i. j < length xs \<longrightarrow> f (xs ! j) = Greater)
    | Panic \<Rightarrow> False"
    unfolding binary_search_by_def by (rule binary_search_loop_result) (use assms in simp_all)
  show ?thesis
  proof (cases "binary_search_by f xs")
    case (Ok i)
    then show ?thesis using r found by simp
  next
    case (Err i)
    then have i: "i \<le> length xs" "\<And>j. j < i \<Longrightarrow> f (xs ! j) = Less"
      "\<And>j. i \<le> j \<Longrightarrow> j < length xs \<Longrightarrow> f (xs ! j) = Greater" using r by auto
    show ?thesis
    proof (rule missing [OF Err i(1)])
      show "f x = Less" if "x \<in> set (take i xs)" for x using that i by (auto simp: in_set_conv_nth)
      show "f x = Greater" if "x \<in> set (drop i xs)" for x using that i by (auto simp: in_set_conv_nth)
    qed
  qed (use r in simp)
qed

lemma binary_search_Ok:
  assumes "bisectable f xs" "binary_search_by f xs = Ok i"
  shows "i < length xs" "f (xs ! i) = Equal"
  using assms by (auto elim: binary_search_cases)

lemma binary_search_Err:
  assumes "bisectable f xs" "binary_search_by f xs = Err i"
  shows "i \<le> length xs" "\<And>x. x \<in> set (take i xs) \<Longrightarrow> f x = Less" "\<And>x. x \<in> set (drop i xs) \<Longrightarrow> f x = Greater"
    "\<And>x. x \<in> set xs \<Longrightarrow> f x \<noteq> Equal"
proof -
  show a: "i \<le> length xs" "\<And>x. x \<in> set (take i xs) \<Longrightarrow> f x = Less" "\<And>x. x \<in> set (drop i xs) \<Longrightarrow> f x = Greater"
    using assms by (auto elim: binary_search_cases)
  fix x assume "x \<in> set xs"
  then have "x \<in> set (take i xs) \<or> x \<in> set (drop i xs)"
    by (metis Un_iff append_take_drop_id set_append)
  then show "f x \<noteq> Equal" using a by fastforce
qed

lemma binary_search_not_Panic: "binary_search_by f xs \<noteq> Panic"
proof -
  have "binary_search_loop f xs l r \<noteq> Panic" for l r
  proof (induction f xs l r rule: binary_search_loop.induct)
    case (1 f xs left right)
    then show ?case by (subst binary_search_loop.simps) (simp add: Let_def split: ordering.split)
  qed
  then show ?thesis by (simp add: binary_search_by_def)
qed

section \<open>Insertion and removal in a sorted vector\<close>

lemma set_vec_insert [simp]: "set (vec_insert xs i x) = insert x (set xs)"
proof -
  have "set xs = set (take i xs) \<union> set (drop i xs)" by (metis append_take_drop_id set_append)
  then show ?thesis by (auto simp: vec_insert_def)
qed

lemma sorted_wrt_vec_insert:
  assumes "sorted_wrt R xs" "\<And>y. y \<in> set (take i xs) \<Longrightarrow> R y x" "\<And>y. y \<in> set (drop i xs) \<Longrightarrow> R x y"
  shows "sorted_wrt R (vec_insert xs i x)"
proof -
  have "sorted_wrt R (take i xs @ drop i xs)" using assms(1) by simp
  then show ?thesis using assms(2,3) unfolding vec_insert_def sorted_wrt_append by simp
qed

lemma vec_remove_split:
  assumes "i < length xs"
  shows "xs = take i xs @ xs ! i # drop (Suc i) xs" and "vec_remove xs i = take i xs @ drop (Suc i) xs"
  using assms by (simp_all add: vec_remove_def id_take_nth_drop)

lemma sorted_wrt_vec_remove:
  assumes "sorted_wrt R xs"
  shows "sorted_wrt R (vec_remove xs i)"
proof (cases "i < length xs")
  case True
  then show ?thesis
    using vec_remove_split [OF True] assms by (metis sorted_wrt_append sorted_wrt.simps(2) list.set_intros(2))
qed (simp add: vec_remove_def assms)

lemma set_vec_remove: "distinct xs \<Longrightarrow> i < length xs \<Longrightarrow> set (vec_remove xs i) = set xs - {xs ! i}"
proof -
  assume a: "distinct xs" "i < length xs"
  note s = vec_remove_split [OF a(2)]
  have "distinct (take i xs @ xs ! i # drop (Suc i) xs)" using a(1) s(1) by simp
  moreover have "set xs = set (take i xs @ xs ! i # drop (Suc i) xs)" using s(1) by simp
  ultimately show ?thesis unfolding s(2) by auto
qed

end
