(* ===== verification/Gix_Object_Tree.thy ===== *)
theory Gix_Object_Tree
  imports Gix_Hash Gix_Binary_Search "HOL-Library.Multiset"
begin

text \<open>
  Tree objects of \<^verbatim>\<open>gix-object\<close>: entry modes and the order of entries (\<^verbatim>\<open>src/gix-object/src/tree/mod.rs\<close>), serialization
  (\<^verbatim>\<open>tree/write.rs\<close>), the parser, the lazy iterator and the search by name (\<^verbatim>\<open>tree/ref_iter.rs\<close>).  \<^verbatim>\<open>Entry\<close> and
  \<^verbatim>\<open>EntryRef\<close> differ in the type of their id only and have the same methods, so they are one record over
  the type of the id.  The lemmas show that what is written is parsed again, that the iterator and the parser agree, that
  for names without a slash the order of entries is the order of their names with a slash behind those of
  trees, and that the search by name finds exactly the entry of that name and type.
\<close>

section \<open>Modes\<close>

type_synonym entry_mode = u16

datatype entry_kind = EkTree | EkBlob | EkBlobExecutable | EkLink | EkCommit

definition entry_kind_mode :: "entry_kind \<Rightarrow> entry_mode" where
  "entry_kind_mode k = (case k of EkTree \<Rightarrow> 0x4000 | EkBlob \<Rightarrow> 0x81a4 | EkBlobExecutable \<Rightarrow> 0x81ed
     | EkLink \<Rightarrow> 0xa000 | EkCommit \<Rightarrow> 0xe000)"

definition entry_kind_as_octal_str :: "entry_kind \<Rightarrow> bytes" where
  "entry_kind_as_octal_str k = (case k of EkTree \<Rightarrow> lit ''40000'' | EkBlob \<Rightarrow> lit ''100644''
     | EkBlobExecutable \<Rightarrow> lit ''100755'' | EkLink \<Rightarrow> lit ''120000'' | EkCommit \<Rightarrow> lit ''160000'')"

definition IFMT :: u16 where "IFMT = 0xf000"

definition mode_kind :: "entry_mode \<Rightarrow> entry_kind" where
  "mode_kind m =
     (let etype = m AND IFMT in
      if etype = 0x8000 then (if m AND 0x40 = 0x40 then EkBlobExecutable else EkBlob)
      else if etype = entry_kind_mode EkLink then EkLink
      else if etype = entry_kind_mode EkTree then EkTree
      else EkCommit)"

definition mode_is_tree :: "entry_mode \<Rightarrow> bool" where
  "mode_is_tree m = (m AND IFMT = entry_kind_mode EkTree)"

definition mode_is_commit :: "entry_mode \<Rightarrow> bool" where
  "mode_is_commit m = (m AND IFMT = entry_kind_mode EkCommit)"

definition mode_is_link :: "entry_mode \<Rightarrow> bool" where
  "mode_is_link m = (m AND IFMT = entry_kind_mode EkLink)"

definition mode_is_no_tree :: "entry_mode \<Rightarrow> bool" where
  "mode_is_no_tree m = (m AND IFMT \<noteq> entry_kind_mode EkTree)"

definition mode_is_blob :: "entry_mode \<Rightarrow> bool" where
  "mode_is_blob m = (m AND IFMT = 0x8000)"

definition mode_is_executable :: "entry_mode \<Rightarrow> bool" where
  "mode_is_executable m = (mode_kind m = EkBlobExecutable)"

definition mode_is_blob_or_symlink :: "entry_mode \<Rightarrow> bool" where
  "mode_is_blob_or_symlink m = (mode_kind m \<in> {EkBlob, EkBlobExecutable, EkLink})"

definition mode_as_str :: "entry_mode \<Rightarrow> bytes" where
  "mode_as_str m = (case mode_kind m of EkTree \<Rightarrow> lit ''tree'' | EkBlob \<Rightarrow> lit ''blob'' | EkBlobExecutable \<Rightarrow> lit ''exe''
     | EkLink \<Rightarrow> lit ''link'' | EkCommit \<Rightarrow> lit ''commit'')"

text \<open>The digits are stored from the least significant one into a buffer of six bytes, then reversed.\<close>

function mode_digits :: "nat \<Rightarrow> u16 \<Rightarrow> bytes or_panic" where
  "mode_digits nb n =
     (if n > 0 then
        if nb < 6 then map_option (\<lambda>ds. (0x30 + ucast (n mod 8)) # ds) (mode_digits (nb + 1) (n div 8)) else None
      else Some [])"
  by pat_completeness auto
termination
  by (relation "measure (\<lambda>(nb, n). 6 - nb)") auto

declare mode_digits.simps [simp del]

definition mode_as_bytes :: "entry_mode \<Rightarrow> bytes or_panic" where
  "mode_as_bytes m = (if m = 0 then Some [0x30] else map_option rev (mode_digits 0 m))"

section \<open>Entries and their order\<close>

record 'o obj_entry =
  ent_mode :: entry_mode
  ent_filename :: bytes
  ent_oid :: 'o

type_synonym entry = "object_id obj_entry"
type_synonym entry_ref = "oid obj_entry"

type_synonym 'o tree = "'o obj_entry list"

text \<open>\<^verbatim>\<open>Option::cmp\<close>: \<^verbatim>\<open>None\<close> is less than everything else.\<close>

fun cmp_option :: "'a::linorder option \<Rightarrow> 'a option \<Rightarrow> ordering" where
  "cmp_option None None = Equal"
| "cmp_option None (Some y) = Less"
| "cmp_option (Some x) None = Greater"
| "cmp_option (Some x) (Some y) = cmp x y"

definition byte_or_slash :: "bytes \<Rightarrow> bool \<Rightarrow> nat \<Rightarrow> u8 option" where
  "byte_or_slash filename is_tree common =
     (case get_at filename common of Some b \<Rightarrow> Some b | None \<Rightarrow> if is_tree then Some 0x2f else None)"

definition cmp_names :: "bytes \<Rightarrow> bool \<Rightarrow> bytes \<Rightarrow> bool \<Rightarrow> ordering" where
  "cmp_names a a_tree b b_tree =
     (let common = min (length a) (length b) in
      then_cmp (cmp_slice (take common a) (take common b))
        (cmp_option (byte_or_slash a a_tree common) (byte_or_slash b b_tree common)))"

definition entry_cmp :: "'o obj_entry \<Rightarrow> 'o obj_entry \<Rightarrow> ordering" where
  "entry_cmp a b = cmp_names (ent_filename a) (mode_is_tree (ent_mode a)) (ent_filename b) (mode_is_tree (ent_mode b))"

section \<open>Serialization\<close>

datatype tree_write_error = NullbyteInFilename bytes

text \<open>
  The output is a buffer that takes everything; the result comes with what has been written, also in case of an
  error.  The sum of sizes is a 64-bit one.
\<close>

fun tree_write_entries :: "bstr \<Rightarrow> object_id tree \<Rightarrow> bytes \<Rightarrow> bytes \<times> (unit, tree_write_error) outcome" where
  "tree_write_entries bs [] out = (out, Ok ())"
| "tree_write_entries bs (e # es) out =
     (case mode_as_bytes (ent_mode e) of
        None \<Rightarrow> (out, Panic)
      | Some m \<Rightarrow>
          let out1 = out @ m @ [0x20] in
          if find_byte bs (ent_filename e) 0 \<noteq> None then (out1, Err (NullbyteInFilename (ent_filename e)))
          else tree_write_entries bs es (out1 @ ent_filename e @ [0] @ object_id_as_slice (ent_oid e)))"

definition tree_write_to :: "bstr \<Rightarrow> object_id tree \<Rightarrow> bytes \<Rightarrow> bytes \<times> (unit, tree_write_error) outcome" where
  "tree_write_to bs t out = tree_write_entries bs t out"

definition tree_entry_size :: "entry \<Rightarrow> u64 or_panic" where
  "tree_entry_size e = map_option (\<lambda>m. word_of_nat (length m + 1 + length (ent_filename e) + 1 +
     length (object_id_as_slice (ent_oid e)))) (mode_as_bytes (ent_mode e))"

definition tree_size :: "object_id tree \<Rightarrow> u64 or_panic" where
  "tree_size t = map_option sum_list (those (map tree_entry_size t))"

section \<open>Parsing\<close>

datatype object_decode_error = ObjectParsingFailed

text \<open>The loop over the bytes in front of the first space; despite its name it reads octal digits.\<close>

fun mode_from_decimal_loop :: "u32 \<Rightarrow> bytes \<Rightarrow> u32 option" where
  "mode_from_decimal_loop mode [] = Some mode"
| "mode_from_decimal_loop mode (b # ds) =
     (if b < 0x30 \<or> b > 0x37 then None else mode_from_decimal_loop (push_bit 3 mode + ucast (b - 0x30)) ds)"

definition mode_from_decimal :: "bytes \<Rightarrow> (u32 \<times> bytes) option" where
  "mode_from_decimal i =
     (let digits = takeWhile (\<lambda>b. b \<noteq> 0x20) i in
      case mode_from_decimal_loop 0 digits of
        None \<Rightarrow> None
      | Some mode \<Rightarrow>
          let spacer_pos = 1 + length digits in
          if length i < spacer_pos then None else Some (mode, drop spacer_pos i))"

definition mode_try_from_bytes :: "bytes \<Rightarrow> (entry_mode, bytes) outcome" where
  "mode_try_from_bytes mode = ok_or (map_option (\<lambda>(m, _). ucast m) (mode_from_decimal mode)) mode"

definition mode_try_from :: "u32 \<Rightarrow> (entry_mode, u32) outcome" where
  "mode_try_from mode =
     (if mode \<in> {0x4000, 0xa000, 0xe000} then Ok (ucast mode)
      else if mode AND 0x8000 = 0x8000 then Ok (ucast mode)
      else Err mode)"

definition HASH_LEN_FIXME :: nat where "HASH_LEN_FIXME = 20"

definition fast_entry :: "bstr \<Rightarrow> bytes \<Rightarrow> (bytes \<times> entry_ref) option" where
  "fast_entry bs i =
     (case mode_from_decimal i of None \<Rightarrow> None | Some (m, i) \<Rightarrow>
      case mode_try_from m of Ok mode \<Rightarrow>
        (case find_byte bs i 0 of None \<Rightarrow> None | Some n \<Rightarrow>
           let filename = take n i; i = drop (n + 1) i in
           if length i < HASH_LEN_FIXME then None
           else Some (drop 20 i, \<lparr>ent_mode = mode, ent_filename = filename, ent_oid = take 20 i\<rparr>))
      | _ \<Rightarrow> None)"

lemma mode_from_decimal_shorter: "mode_from_decimal i = Some (m, r) \<Longrightarrow> length r < length i"
  by (auto simp: mode_from_decimal_def Let_def split: option.splits if_splits)

lemma fast_entry_shorter: "fast_entry bs i = Some (r, e) \<Longrightarrow> length r < length i"
  using mode_from_decimal_shorter [of i]
  by (fastforce simp: fast_entry_def Let_def split: option.splits outcome.splits if_splits prod.splits)

function parse_tree :: "bstr \<Rightarrow> bytes \<Rightarrow> (oid tree, object_decode_error) outcome" where
  "parse_tree bs i =
     (if i = [] then Ok []
      else case fast_entry bs i of
        None \<Rightarrow> Err ObjectParsingFailed
      | Some (rest, entry) \<Rightarrow> and_then (parse_tree bs rest) (\<lambda>es. Ok (entry # es)))"
  by pat_completeness auto
termination
  by (relation "measure (\<lambda>(bs, i). length i)") (auto dest: fast_entry_shorter)

declare parse_tree.simps [simp del]

definition tree_from_bytes :: "bstr \<Rightarrow> bytes \<Rightarrow> (oid tree, object_decode_error) outcome" where
  "tree_from_bytes bs data = parse_tree bs data"

text \<open>The iterator's state is the data that is left; \<^verbatim>\<open>collect\<close> stops at the first error.\<close>

definition tree_iter_next :: "bstr \<Rightarrow> bytes \<Rightarrow> (entry_ref, object_decode_error) outcome option \<times> bytes" where
  "tree_iter_next bs data =
     (if data = [] then (None, data)
      else case fast_entry bs data of
        Some (data_left, entry) \<Rightarrow> (Some (Ok entry), data_left)
      | None \<Rightarrow> (Some (Err ObjectParsingFailed), []))"

function tree_iter_entries :: "bstr \<Rightarrow> bytes \<Rightarrow> (oid tree, object_decode_error) outcome" where
  "tree_iter_entries bs data =
     (case tree_iter_next bs data of
        (None, _) \<Rightarrow> Ok []
      | (Some (Ok e), rest) \<Rightarrow> and_then (tree_iter_entries bs rest) (\<lambda>es. Ok (e # es))
      | (Some (Err e), _) \<Rightarrow> Err e
      | (Some Panic, _) \<Rightarrow> Panic)"
  by pat_completeness auto
termination
  by (relation "measure (\<lambda>(bs, i). length i)")
    (auto simp: tree_iter_next_def split: if_splits option.splits dest: fast_entry_shorter)

declare tree_iter_entries.simps [simp del]

definition bisect_entry :: "oid tree \<Rightarrow> bytes \<Rightarrow> bool \<Rightarrow> entry_ref option" where
  "bisect_entry t name is_dir =
     (let search = \<lparr>ent_mode = entry_kind_mode (if is_dir then EkTree else EkBlob), ent_filename = name,
                    ent_oid = object_id_as_slice (object_id_null kind_shortest)\<rparr> in
      case binary_search_by (\<lambda>e. entry_cmp e search) t of Ok idx \<Rightarrow> Some (t ! idx) | _ \<Rightarrow> None)"

definition entry_ref_into :: "entry_ref \<Rightarrow> (entry, 'e) outcome" where
  "entry_ref_into e = and_then (oid_to_owned (ent_oid e)) (\<lambda>i.
     Ok \<lparr>ent_mode = ent_mode e, ent_filename = ent_filename e, ent_oid = i\<rparr>)"

fun tree_into :: "oid tree \<Rightarrow> (object_id tree, 'e) outcome" where
  "tree_into [] = Ok []"
| "tree_into (e # es) = and_then (entry_ref_into e) (\<lambda>x. and_then (tree_into es) (\<lambda>xs. Ok (x # xs)))"

section \<open>Modes are written and read back\<close>

lemma octal_digit_value: "unat (ucast (n mod 8) :: u8) = unat n mod 8" for n :: u16
  by (simp add: unat_ucast_mod unat_mod)

lemma mode_digits_total: "unat n < 8 ^ (6 - nb) \<Longrightarrow> nb \<le> 6 \<Longrightarrow> \<exists>ds. mode_digits nb n = Some ds"
proof (induction nb n rule: mode_digits.induct)
  case (1 nb n)
  show ?case
  proof (cases "n > 0")
    case True
    have "nb < 6"
    proof (rule ccontr)
      assume "\<not> nb < 6"
      then have "unat n < 1" using "1.prems" by simp
      then show False using True by (simp add: word_less_nat_alt)
    qed
    moreover from this have "(8 :: nat) ^ (6 - nb) = 8 * 8 ^ (6 - (nb + 1))"
      by (metis Suc_diff_Suc add.right_neutral add_Suc_right One_nat_def power_Suc)
    then have "unat (n div 8) < 8 ^ (6 - (nb + 1))" using "1.prems"(1) by (simp add: unat_div)
    ultimately obtain ds where "mode_digits (nb + 1) (n div 8) = Some ds" using "1.IH" True by auto
    then show ?thesis using True \<open>nb < 6\<close> by (subst mode_digits.simps) simp
  qed (subst mode_digits.simps, simp)
qed

lemma mode_as_bytes_total: "\<exists>ds. mode_as_bytes m = Some ds"
proof -
  have "unat m < 2 ^ 16" using unsigned_less [of m] by simp
  then obtain ds where "mode_digits 0 m = Some ds" using mode_digits_total [of m 0] by auto
  then show ?thesis by (auto simp: mode_as_bytes_def)
qed

lemma mode_from_decimal_loop_snoc:
  "mode_from_decimal_loop acc (ds @ [d]) =
     (case mode_from_decimal_loop acc ds of None \<Rightarrow> None | Some m \<Rightarrow> mode_from_decimal_loop m [d])"
  by (induction acc ds rule: mode_from_decimal_loop.induct) simp_all

lemma octal_digit:
  fixes n :: u16
  shows "\<not> (0x30 + ucast (n mod 8) < (0x30 :: u8))" "\<not> (0x30 + ucast (n mod 8) > (0x37 :: u8))"
    "0x30 + ucast (n mod 8) \<noteq> (0x20 :: u8)"
proof -
  let ?d = "0x30 + ucast (n mod 8) :: u8"
  have lt: "unat (ucast (n mod 8) :: u8) < 8" by (simp add: octal_digit_value)
  then have "unat ?d = 0x30 + unat (ucast (n mod 8) :: u8)"
    by (subst unat_add_lem [THEN iffD1]) simp_all
  with lt have "\<not> unat ?d < 0x30" "\<not> unat ?d > 0x37" by simp_all
  then show "\<not> (?d < 0x30)" "\<not> (?d > 0x37)" by (simp_all add: word_less_nat_alt)
  have "(0x20 :: u8) < 0x30" by simp
  with \<open>\<not> (?d < 0x30)\<close> show "?d \<noteq> 0x20" by metis
qed

lemma octal_step:
  fixes n :: u16
  shows "push_bit 3 (ucast (n div 8)) + ucast (ucast (n mod 8) :: u8) = (ucast n :: u32)"
proof (rule word_unat_eq_iff [THEN iffD2])
  have n: "unat n < 65536" using unsigned_less [of n] by simp
  have "unat (ucast (n div 8) :: u32) = unat n div 8"
    using n by (simp add: unat_ucast_mod unat_div)
  then have "unat (push_bit 3 (ucast (n div 8)) :: u32) = unat n div 8 * 8"
    using n by (simp add: push_bit_eq_mult unat_word_ariths)
  moreover have "unat (ucast (ucast (n mod 8) :: u8) :: u32) = unat n mod 8"
    by (simp add: unat_ucast_mod unat_mod)
  ultimately show "unat (push_bit 3 (ucast (n div 8)) + ucast (ucast (n mod 8) :: u8) :: u32) = unat (ucast n :: u32)"
    using n by (simp add: unat_word_ariths unat_ucast_mod)
qed

lemma mode_digits_read:
  "mode_digits nb n = Some ds \<Longrightarrow>
     mode_from_decimal_loop 0 (rev ds) = Some (ucast n) \<and> 0x20 \<notin> set ds"
proof (induction nb n arbitrary: ds rule: mode_digits.induct)
  case (1 nb n)
  show ?case
  proof (cases "n > 0")
    case False
    then show ?thesis using "1.prems" by (simp add: mode_digits.simps word_gt_0)
  next
    case True
    then have nb: "nb < 6" using "1.prems" by (subst (asm) mode_digits.simps) (simp split: if_splits)
    then obtain es where es: "mode_digits (nb + 1) (n div 8) = Some es" "ds = (0x30 + ucast (n mod 8)) # es"
      using "1.prems" True by (subst (asm) mode_digits.simps) auto
    have IH: "mode_from_decimal_loop 0 (rev es) = Some (ucast (n div 8))" "0x20 \<notin> set es"
      using "1.IH" [OF True nb es(1)] by auto
    have "mode_from_decimal_loop (ucast (n div 8)) [0x30 + ucast (n mod 8)] = Some (ucast n)"
      unfolding mode_from_decimal_loop.simps using octal_digit [of n] octal_step [of n] by simp
    then show ?thesis using IH es(2) octal_digit(3) [of n]
      by (simp add: mode_from_decimal_loop_snoc del: mode_from_decimal_loop.simps)
  qed
qed

lemma mode_as_bytes_read:
  assumes "mode_as_bytes m = Some ds"
  shows "mode_from_decimal (ds @ 0x20 # rest) = Some (ucast m, rest)"
proof -
  have "mode_from_decimal_loop 0 ds = Some (ucast m) \<and> 0x20 \<notin> set ds"
  proof (cases "m = 0")
    case False
    then obtain es where "mode_digits 0 m = Some es" "ds = rev es" using assms by (auto simp: mode_as_bytes_def)
    then show ?thesis using mode_digits_read [of 0 m es] by simp
  qed (use assms in \<open>auto simp: mode_as_bytes_def\<close>)
  moreover from this have "takeWhile (\<lambda>b. b \<noteq> 0x20) (ds @ 0x20 # rest) = ds"
    by (subst takeWhile_append2) auto
  ultimately show ?thesis by (simp add: mode_from_decimal_def Let_def)
qed

section \<open>Trees are written and read back\<close>

definition valid_mode :: "entry_mode \<Rightarrow> bool" where
  "valid_mode m = (m \<in> {0x4000, 0xa000, 0xe000} \<or> m AND 0x8000 = 0x8000)"

definition writable_entry :: "entry \<Rightarrow> bool" where
  "writable_entry e = (valid_mode (ent_mode e) \<and> 0 \<notin> set (ent_filename e) \<and> wf_object_id (ent_oid e))"

definition entry_to_ref :: "entry \<Rightarrow> entry_ref" where
  "entry_to_ref e = \<lparr>ent_mode = ent_mode e, ent_filename = ent_filename e, ent_oid = object_id_as_slice (ent_oid e)\<rparr>"

definition entry_bytes :: "entry \<Rightarrow> bytes" where
  "entry_bytes e = the (mode_as_bytes (ent_mode e)) @ [0x20] @ ent_filename e @ [0] @ object_id_as_slice (ent_oid e)"

lemma mode_try_from_ucast: "valid_mode m \<Longrightarrow> mode_try_from (ucast m) = Ok m"
proof -
  have *: "(ucast m :: u32) AND 0x8000 = ucast (m AND 0x8000)" by (simp add: unsigned_and_eq)
  have u: "ucast (ucast m :: u32) = m" using unsigned_less [where 'a = nat and w = m]
    by (intro word_unat_eq_iff [THEN iffD2]) (simp add: unat_ucast_mod)
  assume "valid_mode m"
  then consider "m = 0x4000" | "m = 0xa000" | "m = 0xe000" | "m AND 0x8000 = 0x8000"
    by (auto simp: valid_mode_def)
  then show ?thesis
  proof cases
    case 4
    then have "(ucast m :: u32) AND 0x8000 = 0x8000" unfolding * by simp
    with u show ?thesis by (simp add: mode_try_from_def)
  qed (simp_all add: mode_try_from_def)
qed

lemma entry_kind_modes_valid: "valid_mode (entry_kind_mode k)"
  by (cases k) (simp_all add: valid_mode_def entry_kind_mode_def)

lemma entry_bytes_nonempty: "entry_bytes e \<noteq> []"
  by (simp add: entry_bytes_def)

lemma length_oid_slice: "wf_object_id i \<Longrightarrow> length (object_id_as_slice i) = 20"
  by (cases i) (simp add: object_id_as_slice_def)

context bstr_spec
begin

lemma tree_write_entries_eq:
  "\<forall>e\<in>set t. 0 \<notin> set (ent_filename e) \<Longrightarrow>
     tree_write_entries bs t out = (out @ concat (map entry_bytes t), Ok ())"
proof (induction t arbitrary: out)
  case (Cons e t)
  obtain m where "mode_as_bytes (ent_mode e) = Some m" using mode_as_bytes_total by blast
  then show ?case using Cons by (simp add: entry_bytes_def find_byte Let_def)
qed simp

lemma tree_write_entries_error:
  assumes "\<forall>e\<in>set t. 0 \<notin> set (ent_filename e)" "0 \<in> set (ent_filename e)" "mode_as_bytes (ent_mode e) = Some m"
  shows "tree_write_entries bs (t @ e # es) out =
    (out @ concat (map entry_bytes t) @ m @ [0x20], Err (NullbyteInFilename (ent_filename e)))"
  using assms(1)
proof (induction t arbitrary: out)
  case Nil
  then show ?case using assms(2,3) by (auto simp: find_byte Let_def)
next
  case (Cons x t)
  obtain m where "mode_as_bytes (ent_mode x) = Some m" using mode_as_bytes_total by blast
  then show ?case using Cons by (simp add: entry_bytes_def find_byte Let_def)
qed

lemma fast_entry_written:
  assumes "writable_entry e"
  shows "fast_entry bs (entry_bytes e @ rest) = Some (rest, entry_to_ref e)"
proof -
  obtain m where m: "mode_as_bytes (ent_mode e) = Some m" using mode_as_bytes_total by blast
  note len = length_oid_slice [of "ent_oid e"]
  have "position (\<lambda>c. c = 0) (ent_filename e @ 0 # object_id_as_slice (ent_oid e) @ rest) = Some (length (ent_filename e))"
    using assms by (subst position_split) (auto simp: writable_entry_def)
  then show ?thesis
    using assms m len mode_as_bytes_read [OF m] mode_try_from_ucast
    by (simp add: fast_entry_def entry_bytes_def writable_entry_def find_byte entry_to_ref_def HASH_LEN_FIXME_def)
qed

lemma parse_tree_written:
  "\<forall>e\<in>set t. writable_entry e \<Longrightarrow> parse_tree bs (concat (map entry_bytes t)) = Ok (map entry_to_ref t)"
proof (induction t)
  case (Cons e t)
  have e: "writable_entry e" using Cons.prems by simp
  show ?case
    using Cons fast_entry_written [OF e, of "concat (map entry_bytes t)"] entry_bytes_nonempty [of e]
    by (subst parse_tree.simps) simp
qed (simp add: parse_tree.simps)

end

lemma tree_iter_agrees: "tree_iter_entries bs data = parse_tree bs data"
proof (induction bs data rule: parse_tree.induct)
  case (1 bs i)
  then show ?case
    by (subst tree_iter_entries.simps, subst parse_tree.simps)
      (auto simp: tree_iter_next_def split: option.split)
qed

lemma tree_into_refs:
  "\<forall>e\<in>set t. wf_object_id (ent_oid e) \<Longrightarrow> tree_into (map entry_to_ref t) = Ok t"
proof (induction t)
  case (Cons e t)
  obtain b where "ent_oid e = Sha1 b" "length b = 20" using Cons.prems by (cases "ent_oid e") auto
  with Cons show ?case
    by (simp add: entry_ref_into_def entry_to_ref_def oid_to_owned_def oid_kind_def kind_from_len_in_bytes_def object_id_as_slice_def)
qed simp

lemma tree_size_bytes:
  "\<exists>n. tree_size t = Some n \<and> n = word_of_nat (length (concat (map entry_bytes t)))"
proof (induction t)
  case (Cons e t)
  obtain m where "mode_as_bytes (ent_mode e) = Some m" using mode_as_bytes_total by blast
  with Cons show ?case by (auto simp: tree_size_def tree_entry_size_def entry_bytes_def)
qed (simp add: tree_size_def)

text \<open>
  C4: a tree whose entries have valid modes, names without NUL and complete ids is written without an error; what
  is written has the size the tree announces (as a 64-bit number), both the parser and the
  lazy iterator read back the same entries, and converting them to owned entries gives the tree.
\<close>

theorem tree_roundtrip:
  assumes "bstr_spec bs" and "\<forall>e\<in>set t. writable_entry e"
  shows "\<exists>data. tree_write_to bs t out = (out @ data, Ok ()) \<and>
    tree_size t = Some (word_of_nat (length data)) \<and>
    tree_iter_entries bs data = tree_from_bytes bs data \<and>
    and_then (tree_from_bytes bs data) tree_into = Ok t"
proof -
  have t: "\<forall>e\<in>set t. 0 \<notin> set (ent_filename e)" "\<forall>e\<in>set t. wf_object_id (ent_oid e)"
    using assms(2) by (auto simp: writable_entry_def)
  show ?thesis
    using bstr_spec.tree_write_entries_eq [OF assms(1) t(1), of out] bstr_spec.parse_tree_written [OF assms]
      tree_size_bytes [of t] tree_into_refs [OF t(2)]
    by (simp add: tree_write_to_def tree_from_bytes_def tree_iter_agrees)
qed

theorem tree_roundtrip_witness:
  "\<exists>data. tree_write_to reference_bstr
      [\<lparr>ent_mode = 0x81a4, ent_filename = lit ''a'', ent_oid = Sha1 (replicate 20 7)\<rparr>,
       \<lparr>ent_mode = 0x4000, ent_filename = lit ''b'', ent_oid = Sha1 (replicate 20 8)\<rparr>] [1] = ([1] @ data, Ok ()) \<and>
    tree_size
      [\<lparr>ent_mode = 0x81a4, ent_filename = lit ''a'', ent_oid = Sha1 (replicate 20 7)\<rparr>,
       \<lparr>ent_mode = 0x4000, ent_filename = lit ''b'', ent_oid = Sha1 (replicate 20 8)\<rparr>] = Some (word_of_nat (length data)) \<and>
    tree_iter_entries reference_bstr data = tree_from_bytes reference_bstr data \<and>
    and_then (tree_from_bytes reference_bstr data) tree_into = (Ok
      [\<lparr>ent_mode = 0x81a4, ent_filename = lit ''a'', ent_oid = Sha1 (replicate 20 7)\<rparr>,
       \<lparr>ent_mode = 0x4000, ent_filename = lit ''b'', ent_oid = Sha1 (replicate 20 8)\<rparr>] :: (object_id tree, object_decode_error) outcome)"
  by (rule tree_roundtrip) (unfold_locales, simp_all add: writable_entry_def valid_mode_def)

section \<open>The order of entries\<close>

definition entry_key :: "bytes \<Rightarrow> bool \<Rightarrow> bytes" where
  "entry_key name is_tree = name @ (if is_tree then [0x2f] else [])"

lemma cmp_names_Cons:
  "cmp_names (x # a) s (y # b) t = then_cmp (cmp x y) (cmp_names a s b t)"
  by (simp add: cmp_names_def byte_or_slash_def then_cmp_assoc Let_def)

lemma cmp_names_key:
  assumes "0x2f \<notin> set a" "0x2f \<notin> set b"
  shows "cmp_names a s b t = cmp_slice (entry_key a s) (entry_key b t)"
  using assms
proof (induction a arbitrary: b)
  case Nil
  show ?case
  proof (cases b)
    case Nil
    then show ?thesis by (simp add: cmp_names_def byte_or_slash_def entry_key_def)
  next
    case (Cons y ys)
    then have "cmp 0x2f y \<noteq> Equal" using Nil.prems by auto
    then show ?thesis using Cons by (simp add: cmp_names_def byte_or_slash_def entry_key_def then_cmp_decided)
  qed
next
  case (Cons x xs)
  show ?case
  proof (cases b)
    case Nil
    then have "cmp x 0x2f \<noteq> Equal" using Cons.prems by auto
    then show ?thesis using Nil by (simp add: cmp_names_def byte_or_slash_def entry_key_def then_cmp_decided)
  next
    case (Cons y ys)
    then show ?thesis using Cons.IH [of ys] Cons.prems by (simp add: cmp_names_Cons entry_key_def)
  qed
qed

lemma entry_key_inject:
  assumes "0x2f \<notin> set a" "0x2f \<notin> set b"
  shows "entry_key a s = entry_key b t \<longleftrightarrow> a = b \<and> s = t"
  using assms by (auto simp: entry_key_def)

definition key_of :: "'o obj_entry \<Rightarrow> bytes" where
  "key_of e = entry_key (ent_filename e) (mode_is_tree (ent_mode e))"

definition slash_free :: "'o obj_entry \<Rightarrow> bool" where
  "slash_free e = (0x2f \<notin> set (ent_filename e))"

definition sorted_tree :: "'o tree \<Rightarrow> bool" where
  "sorted_tree t = (sorted_wrt (\<lambda>a b. entry_cmp a b = Less) t \<and> list_all slash_free t)"

lemma entry_cmp_key: "slash_free a \<Longrightarrow> slash_free b \<Longrightarrow> entry_cmp a b = cmp_slice (key_of a) (key_of b)"
  by (simp add: entry_cmp_def cmp_names_key slash_free_def key_of_def)

lemma key_of_eq: "slash_free a \<Longrightarrow> slash_free b \<Longrightarrow> key_of a = key_of b \<longleftrightarrow>
    ent_filename a = ent_filename b \<and> mode_is_tree (ent_mode a) = mode_is_tree (ent_mode b)"
  by (simp add: key_of_def slash_free_def entry_key_inject)

lemma sorted_tree_keys:
  "sorted_tree t \<longleftrightarrow> list_all slash_free t \<and> sorted_wrt (\<lambda>a b. cmp_slice (key_of a) (key_of b) = Less) t"
proof -
  have "sorted_wrt (\<lambda>a b. entry_cmp a b = Less) t \<longleftrightarrow> sorted_wrt (\<lambda>a b. cmp_slice (key_of a) (key_of b) = Less) t"
    if "list_all slash_free t"
    using that by (induction t) (auto simp: entry_cmp_key list_all_iff)
  then show ?thesis by (auto simp: sorted_tree_def)
qed

lemma sorted_tree_bisectable:
  assumes "sorted_tree t"
  shows "bisectable (\<lambda>e. cmp_slice (key_of e) k) t"
  unfolding bisectable_def
proof (rule sorted_wrt_mono_rel [of t "\<lambda>a b. cmp_slice (key_of a) (key_of b) = Less"])
  show "sorted_wrt (\<lambda>a b. cmp_slice (key_of a) (key_of b) = Less) t" using assms by (simp add: sorted_tree_keys)
  fix x y :: "'a obj_entry"
  assume lt: "cmp_slice (key_of x) (key_of y) = Less"
  then have "cmp_slice (key_of y) k = Less \<Longrightarrow> cmp_slice (key_of x) k = Less"
    using cmp_slice_Less_trans by blast
  moreover have "cmp_slice (key_of x) k = Greater \<Longrightarrow> cmp_slice (key_of y) k = Greater"
    using lt cmp_slice_Less_trans cmp_slice_swap by blast
  ultimately show "(cmp_slice (key_of x) k = Greater \<longrightarrow> cmp_slice (key_of y) k = Greater) \<and>
      (cmp_slice (key_of y) k = Less \<longrightarrow> cmp_slice (key_of x) k = Less)" by blast
qed

lemma bisectable_cong: "(\<And>x. x \<in> set xs \<Longrightarrow> f x = g x) \<Longrightarrow> bisectable f xs = bisectable g xs"
  unfolding bisectable_def by (induction xs) auto

lemma sorted_tree_unique:
  assumes "sorted_tree t" "a \<in> set t" "b \<in> set t" "key_of a = key_of b"
  shows "a = b"
proof -
  obtain i j where i: "i < length t" "t ! i = a" and j: "j < length t" "t ! j = b"
    using assms by (metis in_set_conv_nth)
  have "cmp_slice (key_of (t ! i)) (key_of (t ! j)) = Less" if "i < j"
    using assms(1) that j sorted_wrt_nth_less by (fastforce simp: sorted_tree_keys)
  moreover have "cmp_slice (key_of (t ! j)) (key_of (t ! i)) = Less" if "j < i"
    using assms(1) that i sorted_wrt_nth_less by (fastforce simp: sorted_tree_keys)
  ultimately have "i = j" using i j assms(4) by (cases i j rule: linorder_cases) (auto simp: cmp_slice_refl)
  then show ?thesis using i j by simp
qed

lemma kind_mode_is_tree [simp]: "mode_is_tree (entry_kind_mode k) \<longleftrightarrow> k = EkTree"
  by (cases k) (simp_all add: mode_is_tree_def entry_kind_mode_def IFMT_def)

text \<open>
  Searching a sorted tree with any comparison that follows the keys: a match is the entry with that key, and
  without a match the reported place keeps the order.
\<close>

lemma tree_search_cases:
  assumes t: "sorted_tree t" and f: "\<And>e. slash_free e \<Longrightarrow> f e = cmp_slice (key_of e) k"
  obtains (found) i where "binary_search_by f t = Ok i" "i < length t" "key_of (t ! i) = k"
  | (missing) i where "binary_search_by f t = Err i" "i \<le> length t" "\<And>e. e \<in> set t \<Longrightarrow> key_of e \<noteq> k"
      "\<And>e. e \<in> set (take i t) \<Longrightarrow> cmp_slice (key_of e) k = Less" "\<And>e. e \<in> set (drop i t) \<Longrightarrow> cmp_slice k (key_of e) = Less"
proof -
  have sf: "slash_free e" if "e \<in> set t" for e using t that by (simp add: sorted_tree_def list_all_iff)
  have "bisectable f t = bisectable (\<lambda>e. cmp_slice (key_of e) k) t"
    by (rule bisectable_cong) (simp add: f sf)
  then have b: "bisectable f t" using sorted_tree_bisectable [OF t] by simp
  show ?thesis
  proof (cases "binary_search_by f t")
    case (Ok i)
    then have "i < length t" "f (t ! i) = Equal" using binary_search_Ok [OF b] by auto
    then show ?thesis using found [OF Ok] f sf by simp
  next
    case (Err i)
    note e = binary_search_Err [OF b Err]
    show ?thesis
    proof (rule missing [OF Err e(1)])
      show "key_of x \<noteq> k" if "x \<in> set t" for x using e(4) [OF that] f [OF sf [OF that]] by simp
      show "cmp_slice (key_of x) k = Less" if "x \<in> set (take i t)" for x
        using e(2) [OF that] f sf in_set_takeD [OF that] by simp
      show "cmp_slice k (key_of x) = Less" if "x \<in> set (drop i t)" for x
        using e(3) [OF that] f sf in_set_dropD [OF that] by (simp add: cmp_slice_swap)
    qed
  qed (simp add: binary_search_not_Panic)
qed

text \<open>
  C5: in a tree that is strictly sorted in git's order and whose names contain no slash, the search for a name
  without a slash finds exactly the entry of that name that is a directory, or not, as asked for.
\<close>

theorem bisect_entry_correct:
  assumes "sorted_tree t" and "0x2f \<notin> set name"
  shows "bisect_entry t name is_dir = Some e \<longleftrightarrow>
    e \<in> set t \<and> ent_filename e = name \<and> mode_is_tree (ent_mode e) = is_dir"
proof -
  define s :: entry_ref where "s = \<lparr>ent_mode = entry_kind_mode (if is_dir then EkTree else EkBlob), ent_filename = name,
    ent_oid = object_id_as_slice (object_id_null kind_shortest)\<rparr>"
  have s: "slash_free s" "ent_filename s = name" "mode_is_tree (ent_mode s) = is_dir"
    using assms(2) by (simp_all add: s_def slash_free_def)
  have sf: "slash_free x" if "x \<in> set t" for x using assms(1) that by (simp add: sorted_tree_def list_all_iff)
  have key: "key_of x = key_of s \<longleftrightarrow> ent_filename x = name \<and> mode_is_tree (ent_mode x) = is_dir" if "x \<in> set t" for x
    using key_of_eq [OF sf [OF that] s(1)] s by simp
  note run = bisect_entry_def [of t name is_dir, folded s_def, unfolded Let_def]
  show ?thesis
  proof (rule tree_search_cases [OF assms(1), of "\<lambda>e. entry_cmp e s" "key_of s"])
    show "entry_cmp x s = cmp_slice (key_of x) (key_of s)" if "slash_free x" for x
      by (rule entry_cmp_key [OF that s(1)])
  next
    fix i assume i: "binary_search_by (\<lambda>e. entry_cmp e s) t = Ok i" "i < length t" "key_of (t ! i) = key_of s"
    then have "bisect_entry t name is_dir = Some (t ! i)" by (simp add: run)
    moreover have "x = t ! i" if "x \<in> set t" "key_of x = key_of s" for x
      using sorted_tree_unique [OF assms(1) that(1), of "t ! i"] i that by simp
    ultimately show ?thesis using key [of "t ! i"] key [of e] i by auto
  next
    fix i assume i: "binary_search_by (\<lambda>e. entry_cmp e s) t = Err i" "\<And>e. e \<in> set t \<Longrightarrow> key_of e \<noteq> key_of s"
    then show ?thesis using key [of e] by (auto simp: run)
  qed
qed

theorem bisect_entry_correct_witness:
  "bisect_entry
     [\<lparr>ent_mode = 0x81a4, ent_filename = lit ''a.c'', ent_oid = [1]\<rparr>,
      \<lparr>ent_mode = 0x4000, ent_filename = lit ''a'', ent_oid = [2]\<rparr>,
      \<lparr>ent_mode = 0x81a4, ent_filename = lit ''a0'', ent_oid = [3]\<rparr>] (lit ''a'') True =
   Some \<lparr>ent_mode = 0x4000, ent_filename = lit ''a'', ent_oid = [2]\<rparr>"
  by (subst bisect_entry_correct) (simp_all add: sorted_tree_def slash_free_def entry_cmp_def cmp_names_def byte_or_slash_def
    mode_is_tree_def IFMT_def entry_kind_mode_def get_at_def Let_def cmp_def)

section \<open>A tree as a directory\<close>

text \<open>
  A well-formed tree has sorted entries, no two of the same name, and no empty name.  It stands for the map from names to
  modes and ids.
\<close>

definition wf_tree :: "'o tree \<Rightarrow> bool" where
  "wf_tree t = (sorted_tree t \<and> distinct (map ent_filename t) \<and> list_all (\<lambda>e. ent_filename e \<noteq> []) t)"

definition directory :: "'o tree \<Rightarrow> bytes \<Rightarrow> (entry_mode \<times> 'o) option" where
  "directory t = map_of (map (\<lambda>e. (ent_filename e, ent_mode e, ent_oid e)) t)"

interpretation entry_key_order: comparator "\<lambda>a b :: 'o obj_entry. cmp_slice (key_of a) (key_of b)"
  by (rule comparator_key) unfold_locales

lemma directory_Some:
  assumes "distinct (map ent_filename t)"
  shows "directory t n = Some (m, i) \<longleftrightarrow> \<lparr>ent_mode = m, ent_filename = n, ent_oid = i\<rparr> \<in> set t"
proof -
  have "map fst (map (\<lambda>e. (ent_filename e, ent_mode e, ent_oid e)) t) = map ent_filename t" by simp
  then have "directory t n = Some (m, i) \<longleftrightarrow> (n, m, i) \<in> set (map (\<lambda>e. (ent_filename e, ent_mode e, ent_oid e)) t)"
    unfolding directory_def using assms by (intro map_of_eq_Some_iff) (simp only:)
  also have "\<dots> \<longleftrightarrow> \<lparr>ent_mode = m, ent_filename = n, ent_oid = i\<rparr> \<in> set t"
  proof
    assume "(n, m, i) \<in> set (map (\<lambda>e. (ent_filename e, ent_mode e, ent_oid e)) t)"
    then obtain e where "e \<in> set t" "n = ent_filename e" "m = ent_mode e" "i = ent_oid e" by auto
    moreover have "e = \<lparr>ent_mode = ent_mode e, ent_filename = ent_filename e, ent_oid = ent_oid e\<rparr>" by simp
    ultimately show "\<lparr>ent_mode = m, ent_filename = n, ent_oid = i\<rparr> \<in> set t" by metis
  qed force
  finally show ?thesis .
qed

lemma directory_None: "directory t n = None \<longleftrightarrow> n \<notin> ent_filename ` set t"
  by (simp add: directory_def map_of_eq_None_iff image_image)

lemma directory_set_eq:
  "distinct (map ent_filename t) \<Longrightarrow> distinct (map ent_filename u) \<Longrightarrow> set t = set u \<Longrightarrow> directory t = directory u"
proof
  fix n assume a: "distinct (map ent_filename t)" "distinct (map ent_filename u)" "set t = set u"
  show "directory t n = directory u n"
  proof (cases "directory u n")
    case None
    then have "directory t n = None" using a(3) by (simp add: directory_None)
    with None show ?thesis by simp
  next
    case (Some mi)
    then show ?thesis
      using a(3) directory_Some [OF a(1)] directory_Some [OF a(2)] by (metis prod.collapse)
  qed
qed

lemma directory_split:
  assumes "distinct (map ent_filename (xs @ e # ys))"
  shows "directory (xs @ e # ys) = (directory (xs @ ys))(ent_filename e \<mapsto> (ent_mode e, ent_oid e))"
proof
  fix n
  have "ent_filename e \<notin> ent_filename ` set xs" using assms by auto
  then have "map_of (map (\<lambda>e. (ent_filename e, ent_mode e, ent_oid e)) xs) (ent_filename e) = None"
    by (simp add: map_of_eq_None_iff image_image)
  then show "directory (xs @ e # ys) n = ((directory (xs @ ys))(ent_filename e \<mapsto> (ent_mode e, ent_oid e))) n"
    by (auto simp: directory_def map_add_def split: option.splits)
qed

lemma directory_insert:
  assumes "distinct (map ent_filename t)" "ent_filename e \<notin> ent_filename ` set t"
  shows "directory (vec_insert t i e) = (directory t)(ent_filename e \<mapsto> (ent_mode e, ent_oid e))"
    and "distinct (map ent_filename (vec_insert t i e))"
proof -
  have s: "set t = set (take i t) \<union> set (drop i t)" by (metis append_take_drop_id set_append)
  have "distinct (map ent_filename (take i t @ drop i t))" using assms(1) by simp
  then show d: "distinct (map ent_filename (vec_insert t i e))"
    using assms(2) unfolding vec_insert_def map_append distinct_append s by auto
  then show "directory (vec_insert t i e) = (directory t)(ent_filename e \<mapsto> (ent_mode e, ent_oid e))"
    unfolding vec_insert_def by (subst directory_split) simp_all
qed

lemma directory_remove:
  assumes "distinct (map ent_filename t)" "i < length t"
  shows "directory (vec_remove t i) = (directory t)(ent_filename (t ! i) := None)"
    and "distinct (map ent_filename (vec_remove t i))"
proof -
  note s = vec_remove_split [OF assms(2)]
  have d: "distinct (map ent_filename (take i t @ t ! i # drop (Suc i) t))" using assms(1) s(1) by metis
  then show "distinct (map ent_filename (vec_remove t i))" unfolding s(2) by auto
  have "directory t = (directory (vec_remove t i))(ent_filename (t ! i) \<mapsto> (ent_mode (t ! i), ent_oid (t ! i)))"
    using directory_split [OF d] s by metis
  moreover have "directory (vec_remove t i) (ent_filename (t ! i)) = None"
    using d unfolding s(2) directory_None by auto
  ultimately show "directory (vec_remove t i) = (directory t)(ent_filename (t ! i) := None)"
    by (metis fun_upd_triv fun_upd_upd)
qed

lemma directory_update:
  assumes "distinct (map ent_filename t)" "i < length t" "ent_filename e = ent_filename (t ! i)"
  shows "directory (t[i := e]) = (directory t)(ent_filename e \<mapsto> (ent_mode e, ent_oid e))"
    and "distinct (map ent_filename (t[i := e]))"
proof -
  have "(map ent_filename t)[i := ent_filename (t ! i)] = map ent_filename t"
    using assms(2) by (metis list_update_id map_update)
  then show d: "distinct (map ent_filename (t[i := e]))" using assms by (simp add: map_update)
  then have "directory (t[i := e]) = (directory (vec_remove t i))(ent_filename e \<mapsto> (ent_mode e, ent_oid e))"
    using assms(2) unfolding upd_conv_take_nth_drop [OF assms(2)] vec_remove_def by (intro directory_split)
  then show "directory (t[i := e]) = (directory t)(ent_filename e \<mapsto> (ent_mode e, ent_oid e))"
    using directory_remove [OF assms(1,2)] assms(3) by simp
qed

text \<open>Sorting entries of distinct names without slashes.\<close>

lemma insert_by_cong: "(\<And>y. y \<in> set ys \<Longrightarrow> c x y = d x y) \<Longrightarrow> insert_by c x ys = insert_by d x ys"
  by (induction ys) auto

lemma sort_by_cong: "(\<And>x y. x \<in> set xs \<Longrightarrow> y \<in> set xs \<Longrightarrow> c x y = d x y) \<Longrightarrow> sort_by c xs = sort_by d xs"
proof (induction xs)
  case (Cons x xs)
  then have "sort_by c xs = sort_by d xs" by auto
  moreover have "insert_by c x (sort_by d xs) = insert_by d x (sort_by d xs)"
    using Cons.prems by (intro insert_by_cong) auto
  ultimately show ?case by (simp add: sort_by_def)
qed (simp add: sort_by_def)

lemma mset_insert_by: "mset (insert_by c x xs) = add_mset x (mset xs)"
  by (induction xs) auto

lemma mset_sort_by: "mset (sort_by c xs) = mset xs"
  by (induction xs) (simp_all add: sort_by_def mset_insert_by)

lemma distinct_map_sort_by: "distinct (map f (sort_by c xs)) = distinct (map f xs)"
  by (metis mset_eq_imp_distinct_iff mset_map mset_sort_by)

lemma sorted_tree_sort:
  assumes "list_all slash_free t" "distinct (map ent_filename t)"
  shows "sorted_tree (sort_by entry_cmp t)"
proof -
  let ?c = "\<lambda>a b. cmp_slice (key_of a) (key_of b)" and ?s = "sort_by entry_cmp t"
  have sf: "slash_free e" if "e \<in> set t" for e using assms(1) that by (simp add: list_all_iff)
  have "?s = sort_by ?c t" using sf by (intro sort_by_cong entry_cmp_key) auto
  then have le: "sorted_wrt (\<lambda>a b. ?c a b \<noteq> Greater) ?s" using entry_key_order.sort_by_sorted [of t] by simp
  have d: "distinct (map ent_filename ?s)" using assms(2) by (simp add: distinct_map_sort_by)
  have "?c (?s ! i) (?s ! j) = Less" if ij: "i < j" "j < length ?s" for i j
  proof -
    have "ent_filename (?s ! i) \<noteq> ent_filename (?s ! j)"
      using d ij nth_eq_iff_index_eq [OF d, of i j] by simp
    moreover have "slash_free (?s ! i)" "slash_free (?s ! j)"
      using sf nth_mem [of i ?s] nth_mem [of j ?s] ij by simp_all
    ultimately have "?c (?s ! i) (?s ! j) \<noteq> Equal" by (simp add: key_of_eq)
    moreover have "?c (?s ! i) (?s ! j) \<noteq> Greater" using sorted_wrt_nth_less [OF le ij] .
    ultimately show ?thesis by (cases "?c (?s ! i) (?s ! j)") simp_all
  qed
  then have "sorted_wrt (\<lambda>a b. ?c a b = Less) ?s" by (simp add: sorted_wrt_iff_nth_less)
  then show ?thesis using sf by (simp add: sorted_tree_keys list_all_iff)
qed

end
