(* ===== verification/Gix_Tree_Editor.thy ===== *)
theory Gix_Tree_Editor
  imports Gix_Object_Tree "HOL-Library.AList"
begin

text \<open>
  The in-memory tree editor of \<^verbatim>\<open>gix-object\<close> (\<^verbatim>\<open>src/gix-object/src/tree/editor.rs\<close>): insertion, replacement and removal of
  entries by path, cursors, and writing of the changed trees.  The state is the map of loaded trees by their path (an association
  list: \<^verbatim>\<open>HashMap\<close> without regard to its order, which the code never observes) and the path buffer; the mutable reference
  \<^verbatim>\<open>cursor\<close> of the source always points to the tree at the path in the buffer.  The object database is the argument
  \<open>odb\<close> (the field \<^verbatim>\<open>find\<close>), the callback that receives the trees the argument \<open>out\<close> with its own state.

  The lemmas show that all loaded trees remain sorted and free of duplicate names, that an insertion is found
  again at its path and changes nothing else in its tree, and that writing calls \<^verbatim>\<open>out\<close> with exactly the trees a
  recursive definition over the loaded paths gives, children first, without ever panicking.
\<close>

section \<open>State\<close>

datatype upsert_mode = UpsertNormal | AssureTreeOnly
datatype write_mode = WriteNormal | FromCursor

datatype 'f editor_error = EmptyPathComponent | FindExistingObject 'f

type_synonym trees = "(bytes \<times> object_id tree) list"
type_synonym 'f find_tree = "object_id \<Rightarrow> (object_id tree, 'f) outcome"

record editor =
  ed_trees :: trees
  ed_path_buf :: bytes

record cursor =
  cur_parent :: editor
  cur_prefix :: bytes

definition empty_path :: bytes where "empty_path = []"

definition path_hash :: "bytes \<Rightarrow> bytes" where "path_hash path = path"

definition push_path_component :: "bytes \<Rightarrow> bytes \<Rightarrow> bytes" where
  "push_path_component base component = (if base \<noteq> [] then base @ [0x2f] else base) @ component"

definition path_filename :: "bstr \<Rightarrow> bytes \<Rightarrow> bytes" where
  "path_filename bs path = (case rfind_byte bs path 0x2f of None \<Rightarrow> path | Some pos \<Rightarrow> drop (pos + 1) path)"

definition cmp_entry_with_name :: "entry \<Rightarrow> bytes \<Rightarrow> bool \<Rightarrow> ordering" where
  "cmp_entry_with_name a filename is_tree = cmp_names (ent_filename a) (mode_is_tree (ent_mode a)) filename is_tree"

definition editor_new :: "object_id tree \<Rightarrow> editor" where
  "editor_new root = \<lparr>ed_trees = [(empty_path, root)], ed_path_buf = []\<rparr>"

definition set_root :: "editor \<Rightarrow> object_id tree \<Rightarrow> editor" where
  "set_root ed root = ed\<lparr>ed_trees := AList.update empty_path root []\<rparr>"

section \<open>Edits\<close>

text \<open>
  What happens at one level of the path: the entries are changed and either the walk ends, or it goes on to the next
  level with the id of the tree that may have to be looked up.
\<close>

datatype level = LBreak "object_id tree" | LNext "object_id tree" "object_id option"

definition search_entry :: "object_id tree \<Rightarrow> bytes \<Rightarrow> bool \<Rightarrow> (nat, nat) outcome" where
  "search_entry t name must_be_tree =
     (case binary_search_by (\<lambda>e. cmp_entry_with_name e name False) t of
        Err file_insertion_idx \<Rightarrow>
          (case binary_search_by (\<lambda>e. cmp_entry_with_name e name True) t of
             Err dir_insertion_index \<Rightarrow> Err (if must_be_tree then dir_insertion_index else file_insertion_idx)
           | r \<Rightarrow> r)
      | r \<Rightarrow> r)"

definition replace_entry :: "object_id tree \<Rightarrow> nat \<Rightarrow> bool \<Rightarrow> entry_kind \<Rightarrow> object_id \<Rightarrow> object_id tree" where
  "replace_entry t idx must_be_tree kind i =
     (let needs_sorting = (mode_is_tree (ent_mode (t ! idx)) \<noteq> must_be_tree);
          t = t[idx := (t ! idx)\<lparr>ent_oid := i, ent_mode := entry_kind_mode kind\<rparr>] in
      if needs_sorting then sort_by entry_cmp t else t)"

definition edit_level ::
    "object_id tree \<Rightarrow> bytes \<Rightarrow> bool \<Rightarrow> (entry_kind \<times> object_id \<times> upsert_mode) option \<Rightarrow> level or_panic" where
  "edit_level t name is_last kind_and_id =
     (let new_kind_is_tree = (case kind_and_id of None \<Rightarrow> False | Some (kind, _, _) \<Rightarrow> kind = EkTree);
          must_be_tree = (\<not> is_last \<or> new_kind_is_tree) in
      case search_entry t name must_be_tree of
        Ok idx \<Rightarrow>
          (let entry = t ! idx in
           case kind_and_id of
             None \<Rightarrow>
               if is_last then Some (LBreak (vec_remove t idx))
               else if mode_is_tree (ent_mode entry) then Some (LNext t (Some (ent_oid entry))) else Some (LBreak t)
           | Some (kind, i, _) \<Rightarrow>
               if is_last then Some (LNext (replace_entry t idx must_be_tree kind i) None)
               else if mode_is_tree (ent_mode entry) then Some (LNext t (Some (ent_oid entry)))
               else Some (LNext (replace_entry t idx must_be_tree EkTree (object_id_null (object_id_kind i))) None))
      | Err insertion_idx \<Rightarrow>
          (case kind_and_id of
             None \<Rightarrow> Some (LBreak t)
           | Some (kind, i, _) \<Rightarrow>
               Some (LNext (vec_insert t insertion_idx
                 \<lparr>ent_mode = entry_kind_mode (if is_last then kind else EkTree), ent_filename = name,
                  ent_oid = (if is_last then i else object_id_null (object_id_kind i))\<rparr>) None))
      | Panic \<Rightarrow> None)"

definition load_level :: "'f find_tree \<Rightarrow> trees \<Rightarrow> bytes \<Rightarrow> object_id option \<Rightarrow> (trees, 'f editor_error) outcome" where
  "load_level odb ts path tree_to_lookup =
     (case map_of ts path of
        Some _ \<Rightarrow> Ok ts
      | None \<Rightarrow>
          (case tree_to_lookup of
             Some i \<Rightarrow>
               if object_id_is_empty_tree i then Ok (AList.update path [] ts)
               else and_then (map_err FindExistingObject (odb i)) (\<lambda>t. Ok (AList.update path t ts))
           | None \<Rightarrow> Ok (AList.update path [] ts)))"

fun edit_path ::
    "'f find_tree \<Rightarrow> bytes list \<Rightarrow> (entry_kind \<times> object_id \<times> upsert_mode) option \<Rightarrow> editor \<Rightarrow>
     editor \<times> (unit, 'f editor_error) outcome" where
  "edit_path odb [] kind_and_id ed = (ed, Ok ())"
| "edit_path odb (name # rest) kind_and_id ed =
     (case map_of (ed_trees ed) (path_hash (ed_path_buf ed)) of
        None \<Rightarrow> (ed, Panic)
      | Some t \<Rightarrow>
          if name = [] then (ed, Err EmptyPathComponent)
          else case edit_level t name (rest = []) kind_and_id of
            None \<Rightarrow> (ed, Panic)
          | Some (LBreak t) \<Rightarrow> (ed\<lparr>ed_trees := AList.update (path_hash (ed_path_buf ed)) t (ed_trees ed)\<rparr>, Ok ())
          | Some (LNext t lookup) \<Rightarrow>
              let ed1 = ed\<lparr>ed_trees := AList.update (path_hash (ed_path_buf ed)) t (ed_trees ed)\<rparr> in
              if rest = [] \<and> (case kind_and_id of None \<Rightarrow> False | Some (_, _, mode) \<Rightarrow> mode = UpsertNormal)
              then (ed1, Ok ())
              else
                let ed2 = ed1\<lparr>ed_path_buf := push_path_component (ed_path_buf ed1) name\<rparr> in
                case load_level odb (ed_trees ed2) (path_hash (ed_path_buf ed2)) lookup of
                  Ok ts \<Rightarrow> edit_path odb rest kind_and_id (ed2\<lparr>ed_trees := ts\<rparr>)
                | Err e \<Rightarrow> (ed2, Err e)
                | Panic \<Rightarrow> (ed2, Panic))"

definition upsert_or_remove_at_pathbuf ::
    "'f find_tree \<Rightarrow> editor \<Rightarrow> bytes list \<Rightarrow> (entry_kind \<times> object_id \<times> upsert_mode) option \<Rightarrow>
     editor \<times> (unit, 'f editor_error) outcome" where
  "upsert_or_remove_at_pathbuf odb ed rela_path kind_and_id =
     (case map_of (ed_trees ed) (path_hash (ed_path_buf ed)) of
        None \<Rightarrow> (ed, Panic)
      | Some _ \<Rightarrow> edit_path odb rela_path kind_and_id ed)"

definition editor_upsert ::
    "'f find_tree \<Rightarrow> editor \<Rightarrow> bytes list \<Rightarrow> entry_kind \<Rightarrow> object_id \<Rightarrow> editor \<times> (unit, 'f editor_error) outcome" where
  "editor_upsert odb ed rela_path kind i =
     upsert_or_remove_at_pathbuf odb (ed\<lparr>ed_path_buf := []\<rparr>) rela_path (Some (kind, i, UpsertNormal))"

definition editor_remove :: "'f find_tree \<Rightarrow> editor \<Rightarrow> bytes list \<Rightarrow> editor \<times> (unit, 'f editor_error) outcome" where
  "editor_remove odb ed rela_path = upsert_or_remove_at_pathbuf odb (ed\<lparr>ed_path_buf := []\<rparr>) rela_path None"

section \<open>Cursors\<close>

definition to_cursor :: "editor \<Rightarrow> cursor" where
  "to_cursor ed = \<lparr>cur_parent = ed, cur_prefix = []\<rparr>"

definition cursor_at :: "'f find_tree \<Rightarrow> editor \<Rightarrow> bytes list \<Rightarrow> editor \<times> (cursor, 'f editor_error) outcome" where
  "cursor_at odb ed rela_path =
     (let (ed, r) = upsert_or_remove_at_pathbuf odb (ed\<lparr>ed_path_buf := []\<rparr>) rela_path
        (Some (EkTree, object_id_null KSha1, AssureTreeOnly)) in
      (ed, and_then r (\<lambda>_. Ok \<lparr>cur_parent = ed, cur_prefix = ed_path_buf ed\<rparr>)))"

definition cursor_upsert ::
    "'f find_tree \<Rightarrow> cursor \<Rightarrow> bytes list \<Rightarrow> entry_kind \<Rightarrow> object_id \<Rightarrow> cursor \<times> (unit, 'f editor_error) outcome" where
  "cursor_upsert odb c rela_path kind i =
     (let (ed, r) = upsert_or_remove_at_pathbuf odb ((cur_parent c)\<lparr>ed_path_buf := cur_prefix c\<rparr>) rela_path
        (Some (kind, i, UpsertNormal)) in (c\<lparr>cur_parent := ed\<rparr>, r))"

definition cursor_remove :: "'f find_tree \<Rightarrow> cursor \<Rightarrow> bytes list \<Rightarrow> cursor \<times> (unit, 'f editor_error) outcome" where
  "cursor_remove odb c rela_path =
     (let (ed, r) = upsert_or_remove_at_pathbuf odb ((cur_parent c)\<lparr>ed_path_buf := cur_prefix c\<rparr>) rela_path None in
      (c\<lparr>cur_parent := ed\<rparr>, r))"

section \<open>Writing\<close>

text \<open>
  A node is a tree that is waiting, with the index of its parent among \<^verbatim>\<open>parents\<close>.  The stack \<^verbatim>\<open>children\<close> has its top in
  front; \<^verbatim>\<open>parents\<close> is indexed from its start and popped at its end.
\<close>

type_synonym node = "nat option \<times> bytes \<times> object_id tree"
type_synonym ('s, 'e) tree_out = "'s \<Rightarrow> object_id tree \<Rightarrow> 's \<times> (object_id, 'e) outcome"

fun scan_entries :: "bytes \<Rightarrow> nat \<Rightarrow> object_id tree \<Rightarrow> trees \<Rightarrow> node list \<Rightarrow> bool \<Rightarrow> trees \<times> node list \<times> bool" where
  "scan_entries rela_path next_parent_idx [] ts children unchanged = (ts, children, unchanged)"
| "scan_entries rela_path next_parent_idx (e # es) ts children unchanged =
     (if mode_is_tree (ent_mode e) then
        let path = push_path_component rela_path (ent_filename e) in
        case map_of ts (path_hash path) of
          Some sub_tree \<Rightarrow>
            scan_entries rela_path next_parent_idx es (AList.delete (path_hash path) ts)
              ((Some next_parent_idx, path, sub_tree) # children) False
        | None \<Rightarrow> scan_entries rela_path next_parent_idx es ts children unchanged
      else scan_entries rela_path next_parent_idx es ts children unchanged)"

text \<open>The node is complete: it is handed out and its id becomes known to its parent, or the whole operation ends.\<close>

datatype ('s, 'e) finished =
    Adjusted 's "node list"
  | Finished 's trees "(object_id, 'e) outcome"

definition set_parent_tree :: "node list \<Rightarrow> nat \<Rightarrow> object_id tree \<Rightarrow> node list" where
  "set_parent_tree parents idx t = parents[idx := (case parents ! idx of (i, p, _) \<Rightarrow> (i, p, t))]"

definition finish_child ::
    "bstr \<Rightarrow> ('s, 'e) tree_out \<Rightarrow> nat \<Rightarrow> bytes \<Rightarrow> object_id tree \<Rightarrow> node list \<Rightarrow> trees \<Rightarrow> 's \<Rightarrow> ('s, 'e) finished" where
  "finish_child bs out idx rela_path t parents ts s =
     (case get_at parents idx of
        None \<Rightarrow> Finished s ts Panic
      | Some (_, _, pt) \<Rightarrow>
          case binary_search_by (\<lambda>e. cmp_entry_with_name e (path_filename bs rela_path) True) pt of
            Ok entry_idx \<Rightarrow>
              if t = [] then Adjusted s (set_parent_tree parents idx (vec_remove pt entry_idx))
              else (case out s t of
                (s, Ok i) \<Rightarrow> Adjusted s (set_parent_tree parents idx (pt[entry_idx := (pt ! entry_idx)\<lparr>ent_oid := i\<rparr>]))
              | (s, Err e) \<Rightarrow>
                  (case parents of
                     [] \<Rightarrow> Finished s ts Panic
                   | (_, p, r) # _ \<Rightarrow> Finished s (AList.update p r ts) (Err e))
              | (s, Panic) \<Rightarrow> Finished s ts Panic)
          | _ \<Rightarrow> Finished s ts Panic)"

definition finish_root ::
    "('s, 'e) tree_out \<Rightarrow> write_mode \<Rightarrow> bytes \<Rightarrow> object_id tree \<Rightarrow> node list \<Rightarrow> trees \<Rightarrow> 's \<Rightarrow> ('s, 'e) finished" where
  "finish_root out mode rela_path t parents ts s =
     (if parents = [] then
        (case out s t of
           (s, Ok i) \<Rightarrow> Finished s (AList.update rela_path t (case mode of WriteNormal \<Rightarrow> [] | FromCursor \<Rightarrow> ts)) (Ok i)
         | (s, Err e) \<Rightarrow> Finished s (AList.update rela_path t ts) (Err e)
         | (s, Panic) \<Rightarrow> Finished s ts Panic)
      else if t \<noteq> [] then
        (case out s t of
           (s, Ok i) \<Rightarrow> Adjusted s parents
         | (s, Err e) \<Rightarrow> Finished s ts (Err e)
         | (s, Panic) \<Rightarrow> Finished s ts Panic)
      else Adjusted s parents)"

definition finish_node ::
    "bstr \<Rightarrow> ('s, 'e) tree_out \<Rightarrow> write_mode \<Rightarrow> node \<Rightarrow> node list \<Rightarrow> trees \<Rightarrow> 's \<Rightarrow> ('s, 'e) finished" where
  "finish_node bs out mode n parents ts s =
     (case n of (parent_idx, rela_path, tree) \<Rightarrow>
        let t = filter (\<lambda>e. \<not> object_id_is_null (ent_oid e)) tree in
        case parent_idx of
          Some idx \<Rightarrow> finish_child bs out idx rela_path t parents ts s
        | None \<Rightarrow> finish_root out mode rela_path t parents ts s)"

definition pop_node :: "node list \<Rightarrow> node list \<Rightarrow> (node \<times> node list \<times> node list) option" where
  "pop_node children parents =
     (case children of
        n # cs \<Rightarrow> Some (n, cs, parents)
      | [] \<Rightarrow> if parents = [] then None else Some (last parents, [], butlast parents))"

lemma scan_entries_shrinks:
  "scan_entries p k es ts cs u = (ts', cs', u') \<Longrightarrow>
     length ts' + length cs' \<le> length ts + length cs \<and> length ts' \<le> length ts \<and> (u \<and> \<not> u' \<longrightarrow> length ts' < length ts) \<and>
     (u' \<longrightarrow> u \<and> ts' = ts \<and> cs' = cs)"
proof (induction es arbitrary: ts cs u)
  case (Cons e es)
  let ?path = "push_path_component p (ent_filename e)"
  show ?case
  proof (cases "mode_is_tree (ent_mode e) \<and> map_of ts ?path \<noteq> None")
    case True
    then obtain sub where sub: "map_of ts ?path = Some sub" by auto
    have "length (AList.delete ?path ts) < length ts"
      using map_of_SomeD [OF sub] by (auto simp: AList.delete_eq intro!: length_filter_less)
    moreover have "scan_entries p k es (AList.delete ?path ts) ((Some k, ?path, sub) # cs) False = (ts', cs', u')"
      using Cons.prems True sub by (simp add: path_hash_def Let_def)
    note Cons.IH [OF this]
    ultimately show ?thesis by auto
  next
    case False
    then have "scan_entries p k es ts cs u = (ts', cs', u')"
      using Cons.prems by (simp add: path_hash_def Let_def split: if_splits)
    then show ?thesis by (rule Cons.IH)
  qed
qed simp

lemma finish_node_length: "finish_node bs out mode n parents ts s = Adjusted s' ps \<Longrightarrow> length ps = length parents"
  by (auto simp: finish_node_def finish_child_def finish_root_def set_parent_tree_def Let_def
    split: prod.splits option.splits outcome.splits if_splits list.splits)

lemma pop_node_length:
  "pop_node children parents = Some (n, cs, ps) \<Longrightarrow> Suc (length cs + length ps) = length children + length parents"
  by (cases parents) (auto simp: pop_node_def split: list.splits if_splits)

function write_loop ::
    "bstr \<Rightarrow> ('s, 'e) tree_out \<Rightarrow> write_mode \<Rightarrow> node list \<Rightarrow> node list \<Rightarrow> trees \<Rightarrow> 's \<Rightarrow> 's \<times> trees \<times> (object_id, 'e) outcome" where
  "write_loop bs out mode parents children ts s =
     (case pop_node children parents of
        None \<Rightarrow> (s, ts, Panic)
      | Some ((parent_idx, rela_path, tree), children, parents) \<Rightarrow>
          (case scan_entries rela_path (length parents) tree ts children True of
             (ts, children, all_entries_unchanged_or_written) \<Rightarrow>
               if all_entries_unchanged_or_written then
                 (case finish_node bs out mode (parent_idx, rela_path, tree) parents ts s of
                    Adjusted s parents \<Rightarrow> write_loop bs out mode parents children ts s
                  | Finished s ts r \<Rightarrow> (s, ts, r))
               else write_loop bs out mode (parents @ [(parent_idx, rela_path, tree)]) children ts s))"
  by pat_completeness auto
termination
proof (relation "measure (\<lambda>(bs, out, mode, parents, children, ts, s). length children + length parents + 2 * length ts)",
    goal_cases)
  case (2 bs out mode parents children ts s n cs1 ps1 idx q rest2 path tree x ts1 q2 cs2 u s1 ps)
  then show ?case
    by (auto dest!: pop_node_length scan_entries_shrinks [OF sym] finish_node_length)
next
  case (3 bs out mode parents children ts s n cs1 ps1 idx q rest2 path tree x ts1 q2 cs2 u)
  then show ?case
    by (auto dest!: pop_node_length scan_entries_shrinks [OF sym])
qed simp

declare write_loop.simps [simp del]

definition write_at_pathbuf ::
    "bstr \<Rightarrow> ('s, 'e) tree_out \<Rightarrow> write_mode \<Rightarrow> editor \<Rightarrow> 's \<Rightarrow> 's \<times> editor \<times> (object_id, 'e) outcome" where
  "write_at_pathbuf bs out mode ed s =
     (if ed_trees ed = [] then (s, ed, Panic)
      else case map_of (ed_trees ed) (path_hash (ed_path_buf ed)) of
        None \<Rightarrow> (s, ed, Panic)
      | Some root \<Rightarrow>
          (case write_loop bs out mode [(None, ed_path_buf ed, root)] []
              (AList.delete (path_hash (ed_path_buf ed)) (ed_trees ed)) s of
             (s, ts, r) \<Rightarrow> (s, ed\<lparr>ed_trees := ts\<rparr>, r)))"

definition editor_write :: "bstr \<Rightarrow> ('s, 'e) tree_out \<Rightarrow> editor \<Rightarrow> 's \<Rightarrow> 's \<times> editor \<times> (object_id, 'e) outcome" where
  "editor_write bs out ed s = write_at_pathbuf bs out WriteNormal (ed\<lparr>ed_path_buf := []\<rparr>) s"

definition cursor_write :: "bstr \<Rightarrow> ('s, 'e) tree_out \<Rightarrow> cursor \<Rightarrow> 's \<Rightarrow> 's \<times> cursor \<times> (object_id, 'e) outcome" where
  "cursor_write bs out c s =
     (case write_at_pathbuf bs out FromCursor ((cur_parent c)\<lparr>ed_path_buf := cur_prefix c\<rparr>) s of
        (s, ed, r) \<Rightarrow> (s, c\<lparr>cur_parent := ed\<rparr>, r))"

section \<open>Edits of one tree\<close>

definition good_name :: "bytes \<Rightarrow> bool" where
  "good_name n = (n \<noteq> [] \<and> 0x2f \<notin> set n)"

lemma wf_tree_names: "wf_tree t \<Longrightarrow> e \<in> set t \<Longrightarrow> good_name (ent_filename e)"
  by (auto simp: wf_tree_def sorted_tree_def list_all_iff slash_free_def good_name_def)

lemma cmp_entry_with_name_key:
  "slash_free e \<Longrightarrow> good_name n \<Longrightarrow> cmp_entry_with_name e n is_tree = cmp_slice (key_of e) (entry_key n is_tree)"
  by (simp add: cmp_entry_with_name_def cmp_names_key slash_free_def good_name_def key_of_def)

lemma key_of_name:
  "slash_free e \<Longrightarrow> good_name n \<Longrightarrow>
     key_of e = entry_key n b \<longleftrightarrow> ent_filename e = n \<and> mode_is_tree (ent_mode e) = b"
  by (simp add: key_of_def entry_key_inject slash_free_def good_name_def)

lemma search_by_name_cases:
  assumes "wf_tree t" "good_name n"
  obtains (found) i where "binary_search_by (\<lambda>e. cmp_entry_with_name e n b) t = Ok i" "i < length t"
      "ent_filename (t ! i) = n" "mode_is_tree (ent_mode (t ! i)) = b"
  | (missing) i where "binary_search_by (\<lambda>e. cmp_entry_with_name e n b) t = Err i"
      "\<And>e. e \<in> set t \<Longrightarrow> ent_filename e = n \<Longrightarrow> mode_is_tree (ent_mode e) \<noteq> b"
      "\<And>e. ent_filename e = n \<Longrightarrow> mode_is_tree (ent_mode e) = b \<Longrightarrow> sorted_tree (vec_insert t i e)"
proof -
  have t: "sorted_tree t" and sf: "\<And>e. e \<in> set t \<Longrightarrow> slash_free e"
    using assms(1) by (auto simp: wf_tree_def sorted_tree_def list_all_iff)
  show ?thesis
  proof (rule tree_search_cases [OF t, of "\<lambda>e. cmp_entry_with_name e n b" "entry_key n b"])
    show "cmp_entry_with_name e n b = cmp_slice (key_of e) (entry_key n b)" if "slash_free e" for e
      using that assms(2) by (rule cmp_entry_with_name_key)
  next
    fix i assume "binary_search_by (\<lambda>e. cmp_entry_with_name e n b) t = Ok i" "i < length t" "key_of (t ! i) = entry_key n b"
    then show ?thesis using found [of i] key_of_name [OF sf assms(2)] by simp
  next
    fix i assume i: "binary_search_by (\<lambda>e. cmp_entry_with_name e n b) t = Err i" "\<And>e. e \<in> set t \<Longrightarrow> key_of e \<noteq> entry_key n b"
      "\<And>e. e \<in> set (take i t) \<Longrightarrow> cmp_slice (key_of e) (entry_key n b) = Less"
      "\<And>e. e \<in> set (drop i t) \<Longrightarrow> cmp_slice (entry_key n b) (key_of e) = Less"
    show ?thesis
    proof (rule missing [OF i(1)])
      show "mode_is_tree (ent_mode e) \<noteq> b" if "e \<in> set t" "ent_filename e = n" for e
        using i(2) [OF that(1)] key_of_name [OF sf [OF that(1)] assms(2)] that(2) by simp
      show "sorted_tree (vec_insert t i e)" if "ent_filename e = n" "mode_is_tree (ent_mode e) = b" for e
      proof -
        have e: "slash_free e" "key_of e = entry_key n b"
          using that assms(2) by (simp_all add: slash_free_def good_name_def key_of_def)
        have "sorted_wrt (\<lambda>a b. cmp_slice (key_of a) (key_of b) = Less) (vec_insert t i e)"
          using t i(3,4) e(2) by (intro sorted_wrt_vec_insert) (simp_all add: sorted_tree_keys)
        then show ?thesis using e(1) sf by (auto simp: sorted_tree_keys list_all_iff)
      qed
    qed
  qed
qed

lemma search_entry_cases:
  assumes "wf_tree t" "good_name n"
  obtains (found) i where "search_entry t n b = Ok i" "i < length t" "ent_filename (t ! i) = n"
  | (missing) i where "search_entry t n b = Err i" "n \<notin> ent_filename ` set t"
      "\<And>e. ent_filename e = n \<Longrightarrow> mode_is_tree (ent_mode e) = b \<Longrightarrow> sorted_tree (vec_insert t i e)"
proof (cases rule: search_by_name_cases [OF assms, of False, case_names found missing])
  case (found i)
  then show ?thesis using that(1) [of i] by (simp add: search_entry_def)
next
  case none: (missing i)
  show ?thesis
  proof (cases rule: search_by_name_cases [OF assms, of True, case_names found missing])
    case (found j)
    then show ?thesis using that(1) [of j] none(1) by (simp add: search_entry_def)
  next
    case (missing j)
    have "n \<notin> ent_filename ` set t"
    proof
      assume "n \<in> ent_filename ` set t"
      then obtain e where "e \<in> set t" "ent_filename e = n" by auto
      then show False using none(2) missing(2) by (cases "mode_is_tree (ent_mode e)") auto
    qed
    then show ?thesis
      using that(2) [of "if b then j else i"] none(1,3) missing(1,3) by (cases b) (simp_all add: search_entry_def)
  qed
qed

lemma wf_tree_remove:
  assumes "wf_tree t" "i < length t"
  shows "wf_tree (vec_remove t i)"
proof -
  have "set (vec_remove t i) \<subseteq> set t"
    using vec_remove_split [OF assms(2)] set_take_subset set_drop_subset by (fastforce simp: vec_remove_def)
  then show ?thesis
    using assms directory_remove(2) [of t i] sorted_wrt_vec_remove [of _ t i]
    by (auto simp: wf_tree_def sorted_tree_def list_all_iff)
qed

lemma wf_tree_insert:
  assumes "wf_tree t" "sorted_tree (vec_insert t i e)" "ent_filename e \<notin> ent_filename ` set t" "good_name (ent_filename e)"
  shows "wf_tree (vec_insert t i e)"
  using assms directory_insert(2) [of t e i] by (auto simp: wf_tree_def list_all_iff good_name_def)

lemma replace_entry_spec:
  assumes t: "wf_tree t" "i < length t"
  shows "wf_tree (replace_entry t i (k = EkTree) k o1) \<and>
    directory (replace_entry t i (k = EkTree) k o1) = (directory t)(ent_filename (t ! i) \<mapsto> (entry_kind_mode k, o1))"
proof -
  define e where "e = (t ! i)\<lparr>ent_oid := o1, ent_mode := entry_kind_mode k\<rparr>"
  have e: "ent_filename e = ent_filename (t ! i)" "ent_mode e = entry_kind_mode k" "ent_oid e = o1" by (simp_all add: e_def)
  have w: "distinct (map ent_filename t)" "good_name (ent_filename (t ! i))"
    using t wf_tree_names [OF t(1), of "t ! i"] by (auto simp: wf_tree_def)
  note u = directory_update [OF w(1) t(2) e(1)]
  have sub: "set (t[i := e]) \<subseteq> insert e (set t)" by (rule set_update_subset_insert)
  then have names: "list_all slash_free (t[i := e])" "list_all (\<lambda>e. ent_filename e \<noteq> []) (t[i := e])"
    using t(1) w(2) e(1) unfolding list_all_iff
    by (auto simp: wf_tree_def sorted_tree_def list_all_iff slash_free_def good_name_def)
  show ?thesis
  proof (cases "mode_is_tree (ent_mode (t ! i)) = (k = EkTree)")
    case True
    then have "key_of e = key_of (t ! i)" using e by (simp add: key_of_def)
    moreover have "sorted_wrt (\<lambda>a b. cmp_slice (key_of a) (key_of b) = Less) t"
      using t(1) by (simp add: wf_tree_def sorted_tree_keys)
    ultimately have "sorted_wrt (\<lambda>a b. cmp_slice (key_of a) (key_of b) = Less) (t[i := e])"
      using t(2) by (auto simp: sorted_wrt_iff_nth_less nth_list_update)
    then show ?thesis using True names u e by (simp add: replace_entry_def e_def wf_tree_def sorted_tree_keys)
  next
    case False
    let ?s = "sort_by entry_cmp (t[i := e])"
    have d: "distinct (map ent_filename ?s)" using u(2) by (simp add: distinct_map_sort_by)
    then have "directory ?s = directory (t[i := e])" using u(2) by (intro directory_set_eq) simp_all
    moreover have "wf_tree ?s"
      using sorted_tree_sort [OF names(1) u(2)] d names(2) by (simp add: wf_tree_def list_all_iff)
    ultimately show ?thesis using False u e by (simp add: replace_entry_def e_def)
  qed
qed

lemma directory_nth:
  assumes "wf_tree t" "i < length t"
  shows "directory t (ent_filename (t ! i)) = Some (ent_mode (t ! i), ent_oid (t ! i))"
proof -
  have "\<lparr>ent_mode = ent_mode (t ! i), ent_filename = ent_filename (t ! i), ent_oid = ent_oid (t ! i)\<rparr> = t ! i" by simp
  then show ?thesis using assms nth_mem [OF assms(2)] by (metis directory_Some wf_tree_def)
qed

text \<open>What an edit does to the directory that a tree stands for.\<close>

lemma edit_level_upsert:
  assumes "wf_tree t" "good_name n"
  shows "\<exists>u. edit_level t n True (Some (k, i, m)) = Some (LNext u None) \<and> wf_tree u \<and>
    directory u = (directory t)(n \<mapsto> (entry_kind_mode k, i))"
proof (cases rule: search_entry_cases [OF assms, of "k = EkTree", case_names found missing])
  case (found j)
  then show ?thesis using replace_entry_spec [OF assms(1) found(2), of k i] by (simp add: edit_level_def Let_def)
next
  case (missing j)
  let ?e = "\<lparr>ent_mode = entry_kind_mode k, ent_filename = n, ent_oid = i\<rparr>"
  have "wf_tree (vec_insert t j ?e)" using missing assms by (intro wf_tree_insert) simp_all
  then show ?thesis using missing directory_insert(1) [of t ?e j] assms(1) by (simp add: edit_level_def wf_tree_def)
qed

lemma edit_level_remove:
  assumes "wf_tree t" "good_name n"
  shows "\<exists>u. edit_level t n True None = Some (LBreak u) \<and> wf_tree u \<and> directory u = (directory t)(n := None)"
proof (cases rule: search_entry_cases [OF assms, of False, case_names found missing])
  case (found j)
  then show ?thesis
    using wf_tree_remove [OF assms(1) found(2)] directory_remove(1) [of t j] assms(1)
    by (simp add: edit_level_def wf_tree_def)
next
  case (missing j)
  then have "directory t n = None" by (simp add: directory_None)
  then have "(directory t)(n := None) = directory t" by (simp add: fun_upd_idem)
  with missing assms show ?thesis by (simp add: edit_level_def)
qed

definition is_directory :: "object_id tree \<Rightarrow> bytes \<Rightarrow> bool" where
  "is_directory t n = (\<exists>m i. directory t n = Some (m, i) \<and> mode_is_tree m)"

lemma edit_level_descend:
  assumes "wf_tree t" "good_name n"
  shows "case directory t n of
      Some (m, o1) \<Rightarrow> if mode_is_tree m then edit_level t n False (Some (k, i, um)) = Some (LNext t (Some o1))
        else \<exists>u. edit_level t n False (Some (k, i, um)) = Some (LNext u None) \<and> wf_tree u \<and>
          directory u = (directory t)(n \<mapsto> (entry_kind_mode EkTree, object_id_null (object_id_kind i)))
    | None \<Rightarrow> \<exists>u. edit_level t n False (Some (k, i, um)) = Some (LNext u None) \<and> wf_tree u \<and>
          directory u = (directory t)(n \<mapsto> (entry_kind_mode EkTree, object_id_null (object_id_kind i)))"
proof (cases rule: search_entry_cases [OF assms, of True, case_names found missing])
  case (found j)
  then have "directory t n = Some (ent_mode (t ! j), ent_oid (t ! j))" using directory_nth [OF assms(1) found(2)] by simp
  then show ?thesis using found replace_entry_spec [OF assms(1) found(2), of EkTree] by (simp add: edit_level_def Let_def)
next
  case (missing j)
  let ?e = "\<lparr>ent_mode = entry_kind_mode EkTree, ent_filename = n, ent_oid = object_id_null (object_id_kind i)\<rparr>"
  have "wf_tree (vec_insert t j ?e)" using missing assms by (intro wf_tree_insert) simp_all
  moreover have "directory t n = None" using missing by (simp add: directory_None)
  ultimately show ?thesis using missing directory_insert(1) [of t ?e j] assms(1) by (simp add: edit_level_def wf_tree_def)
qed

lemma edit_level_remove_descend:
  assumes "wf_tree t" "good_name n"
  shows "case directory t n of
      Some (m, o1) \<Rightarrow> edit_level t n False None = Some (if mode_is_tree m then LNext t (Some o1) else LBreak t)
    | None \<Rightarrow> edit_level t n False None = Some (LBreak t)"
proof (cases rule: search_entry_cases [OF assms, of True, case_names found missing])
  case (found j)
  then have "directory t n = Some (ent_mode (t ! j), ent_oid (t ! j))" using directory_nth [OF assms(1) found(2)] by simp
  then show ?thesis using found by (simp add: edit_level_def Let_def)
next
  case (missing j)
  then show ?thesis by (auto simp: edit_level_def directory_None [symmetric])
qed

section \<open>Paths\<close>

abbreviation join_path :: "bytes \<Rightarrow> bytes list \<Rightarrow> bytes" where
  "join_path p names \<equiv> foldl push_path_component p names"

lemma push_inject:
  assumes "good_name n" "good_name m" "push_path_component p n = push_path_component q m"
  shows "p = q \<and> n = m"
proof -
  have n: "0x2f \<notin> set n" "0x2f \<notin> set m" using assms(1,2) by (simp_all add: good_name_def)
  have before: "dropWhile (\<lambda>c. c \<noteq> 0x2f) (rev n @ 0x2f # r) = 0x2f # r" if "0x2f \<notin> set n" for n :: bytes and r
    using that by (subst dropWhile_append2) auto
  show ?thesis
  proof (cases "p = []"; cases "q = []")
    assume pq: "p \<noteq> []" "q \<noteq> []"
    then have eq: "p @ 0x2f # n = q @ 0x2f # m" using assms(3) by (simp add: push_path_component_def)
    have "rev n @ 0x2f # rev p = rev m @ 0x2f # rev q" using arg_cong [OF eq, of rev] by simp
    then have "0x2f # rev p = 0x2f # rev q" using before [OF n(1), of "rev p"] before [OF n(2), of "rev q"] by simp
    then show ?thesis using eq by simp
  next
    assume pq: "p = []" "q \<noteq> []"
    then have "n = q @ 0x2f # m" using assms(3) by (simp add: push_path_component_def)
    then show ?thesis using n(1) by simp
  next
    assume pq: "p \<noteq> []" "q = []"
    then have "m = p @ 0x2f # n" using assms(3) by (simp add: push_path_component_def)
    then show ?thesis using n(2) by simp
  next
    assume "p = []" "q = []"
    then show ?thesis using assms(3) by (simp add: push_path_component_def)
  qed
qed

lemma push_longer: "good_name n \<Longrightarrow> length p < length (push_path_component p n)"
  by (simp add: push_path_component_def good_name_def)

lemma join_path_longer: "list_all good_name ns \<Longrightarrow> length p + length ns \<le> length (join_path p ns)"
proof (induction ns arbitrary: p)
  case (Cons n ns)
  have "length p < length (push_path_component p n)" using Cons.prems by (simp add: push_longer)
  moreover have "length (push_path_component p n) + length ns \<le> length (join_path (push_path_component p n) ns)"
    using Cons by simp
  ultimately show ?case by simp
qed simp

lemma join_path_inject:
  "list_all good_name ns \<Longrightarrow> list_all good_name ms \<Longrightarrow> join_path p ns = join_path p ms \<Longrightarrow> ns = ms"
proof (induction ns arbitrary: ms rule: rev_induct)
  case Nil
  then show ?case using join_path_longer [of ms p] by (cases ms) auto
next
  case (snoc n ns)
  show ?case
  proof (cases ms rule: rev_cases)
    case Nil
    then show ?thesis using snoc.prems join_path_longer [of "ns @ [n]" p] by simp
  next
    case (snoc ms' m)
    with snoc.prems push_inject [of n m "join_path p ns" "join_path p ms'"] have "join_path p ns = join_path p ms' \<and> n = m"
      by simp
    with snoc.IH snoc.prems snoc show ?thesis by simp
  qed
qed

lemma push_not_join:
  assumes "good_name n" "good_name m" "n \<noteq> m" "list_all good_name ns" "list_all good_name ms"
  shows "join_path (push_path_component p n) ns \<noteq> join_path (push_path_component p m) ms"
  using join_path_inject [of "n # ns" "m # ms" p] assms by auto

section \<open>What an editor state stands for\<close>

text \<open>
  The content at a path, as seen through the loaded trees first and through the object database where a tree has not been
  loaded.
\<close>

definition tree_at :: "'f find_tree \<Rightarrow> trees \<Rightarrow> bytes \<Rightarrow> object_id \<Rightarrow> object_id tree option" where
  "tree_at odb ts p i =
     (case map_of ts p of
        Some t \<Rightarrow> Some t
      | None \<Rightarrow> if object_id_is_empty_tree i then Some [] else (case odb i of Ok t \<Rightarrow> Some t | _ \<Rightarrow> None))"

fun lookup_from :: "'f find_tree \<Rightarrow> trees \<Rightarrow> bytes \<Rightarrow> object_id tree \<Rightarrow> bytes list \<Rightarrow> (entry_mode \<times> object_id) option" where
  "lookup_from odb ts p t [] = None"
| "lookup_from odb ts p t (n # ns) =
     (case directory t n of
        None \<Rightarrow> None
      | Some (m, i) \<Rightarrow>
          if ns = [] then Some (m, i)
          else if mode_is_tree m then
            (case tree_at odb ts (push_path_component p n) i of
               None \<Rightarrow> None
             | Some u \<Rightarrow> lookup_from odb ts (push_path_component p n) u ns)
          else None)"

definition editor_lookup :: "'f find_tree \<Rightarrow> editor \<Rightarrow> bytes list \<Rightarrow> (entry_mode \<times> object_id) option" where
  "editor_lookup odb ed path =
     (case map_of (ed_trees ed) [] of None \<Rightarrow> None | Some t \<Rightarrow> lookup_from odb (ed_trees ed) [] t path)"

definition odb_ok :: "'f find_tree \<Rightarrow> bool" where
  "odb_ok odb = (\<forall>i t. odb i = Ok t \<longrightarrow> wf_tree t)"

definition trees_ok :: "trees \<Rightarrow> bool" where
  "trees_ok ts = (\<forall>p t. map_of ts p = Some t \<longrightarrow> wf_tree t)"

text \<open>A tree is only loaded for a path that its parent, which is loaded too, knows as a directory.\<close>

definition no_leftovers :: "trees \<Rightarrow> bool" where
  "no_leftovers ts = (\<forall>p n. good_name n \<longrightarrow> map_of ts (push_path_component p n) \<noteq> None \<longrightarrow>
     (\<exists>t. map_of ts p = Some t \<and> is_directory t n))"

definition agree_below :: "trees \<Rightarrow> trees \<Rightarrow> bytes \<Rightarrow> bool" where
  "agree_below ts ts' p = (\<forall>ms. list_all good_name ms \<longrightarrow> map_of ts (join_path p ms) = map_of ts' (join_path p ms))"

lemma agree_below_push: "agree_below ts ts' p \<Longrightarrow> good_name n \<Longrightarrow> agree_below ts ts' (push_path_component p n)"
  unfolding agree_below_def by (metis foldl_Cons list.pred_inject(2))

lemma agree_belowD: "agree_below ts ts' p \<Longrightarrow> map_of ts p = map_of ts' p"
  unfolding agree_below_def by (metis foldl_Nil list.pred_inject(1))

lemma lookup_cong_below:
  "agree_below ts ts' p \<Longrightarrow> list_all good_name ns \<Longrightarrow> lookup_from odb ts p t ns = lookup_from odb ts' p t ns"
proof (induction ns arbitrary: p t)
  case (Cons n ns)
  have ag: "agree_below ts ts' (push_path_component p n)" using Cons.prems by (simp add: agree_below_push)
  then have "tree_at odb ts (push_path_component p n) = tree_at odb ts' (push_path_component p n)"
    by (intro ext) (simp add: tree_at_def agree_belowD)
  then show ?case using Cons.IH [OF ag] Cons.prems by (simp split: option.split)
qed simp

lemma lookup_cong_first:
  assumes "directory t n = directory t' n" "agree_below ts ts' (push_path_component p n)" "list_all good_name ns"
  shows "lookup_from odb ts p t (n # ns) = lookup_from odb ts' p t' (n # ns)"
proof -
  have "tree_at odb ts (push_path_component p n) = tree_at odb ts' (push_path_component p n)"
    using assms(2) by (intro ext) (simp add: tree_at_def agree_belowD)
  then show ?thesis using assms(1) lookup_cong_below [OF assms(2,3), of odb] by (simp split: option.split)
qed

section \<open>Insertion\<close>

definition editor_ok :: "editor \<Rightarrow> bool" where
  "editor_ok ed = (trees_ok (ed_trees ed) \<and> map_of (ed_trees ed) [] \<noteq> None)"

lemma map_of_AList_update: "map_of (AList.update k v ts) q = (if q = k then Some v else map_of ts q)"
  by (simp add: update_conv')

lemma trees_ok_update: "trees_ok ts \<Longrightarrow> wf_tree t \<Longrightarrow> trees_ok (AList.update p t ts)"
  by (simp add: trees_ok_def map_of_AList_update)

lemma wf_tree_Nil: "wf_tree []"
  by (simp add: wf_tree_def sorted_tree_def)

text \<open>
  Loading the next level: the tree there is the one that the state before stands for, and nothing else changes.
\<close>

lemma load_level_spec:
  assumes "load_level odb ts p lookup = Ok ts'" "odb_ok odb" "trees_ok ts"
  shows "\<exists>u. map_of ts' p = Some u \<and> trees_ok ts' \<and> (\<forall>q. q \<noteq> p \<longrightarrow> map_of ts' q = map_of ts q) \<and>
    (case lookup of Some i \<Rightarrow> tree_at odb ts p i = Some u | None \<Rightarrow> map_of ts p = None \<longrightarrow> u = []) \<and>
    (\<forall>v. map_of ts p = Some v \<longrightarrow> u = v)"
proof (cases "map_of ts p")
  case (Some t)
  then show ?thesis using assms by (auto simp: load_level_def tree_at_def split: option.split)
next
  case None
  show ?thesis
  proof (cases "lookup = None \<or> object_id_is_empty_tree (the lookup)")
    case True
    then have "ts' = AList.update p [] ts" using assms(1) None by (auto simp: load_level_def split: option.splits)
    then show ?thesis
      using True None assms(3) by (auto simp: map_of_AList_update trees_ok_update wf_tree_Nil tree_at_def split: option.split)
  next
    case False
    then obtain i where i: "lookup = Some i" "\<not> object_id_is_empty_tree i" by auto
    then obtain u where u: "odb i = Ok u" "ts' = AList.update p u ts"
      using assms(1) None by (cases "odb i") (auto simp: load_level_def)
    then have "wf_tree u" using assms(2) by (simp add: odb_ok_def)
    then show ?thesis using i u None assms(3) by (auto simp: map_of_AList_update trees_ok_update tree_at_def)
  qed
qed

text \<open>A step of the walk: the edit of the tree at the path, and the rest of the walk in the next tree.\<close>

lemma next_level:
  assumes "edit_path odb (n # ns) kid ed = (ed', Ok ())" "ns \<noteq> []"
    and "map_of (ed_trees ed) p = Some t" "good_name n" "trees_ok (ed_trees ed)" "odb_ok odb" and p: "ed_path_buf ed = p"
    and l: "edit_level t n False kid = Some (LNext t1 l)" "wf_tree t1"
  obtains u ed1 where
    "edit_path odb ns kid ed1 = (ed', Ok ())" "ed_path_buf ed1 = push_path_component p n" "trees_ok (ed_trees ed1)"
    "map_of (ed_trees ed1) p = Some t1" "map_of (ed_trees ed1) (push_path_component p n) = Some u"
    "\<forall>q. q \<noteq> p \<longrightarrow> q \<noteq> push_path_component p n \<longrightarrow> map_of (ed_trees ed1) q = map_of (ed_trees ed) q"
    "\<And>o1. l = Some o1 \<Longrightarrow> tree_at odb (ed_trees ed) (push_path_component p n) o1 = Some u"
    "l = None \<Longrightarrow> map_of (ed_trees ed) (push_path_component p n) = None \<Longrightarrow> u = []"
    "\<forall>v. map_of (ed_trees ed) (push_path_component p n) = Some v \<longrightarrow> u = v"
proof -
  let ?ts = "ed_trees ed" and ?q = "push_path_component p n"
  have n: "n \<noteq> []" "?q \<noteq> p" using assms(4) push_longer [of n p] by (auto simp: good_name_def)
  define ed0 where "ed0 = ed\<lparr>ed_trees := AList.update p t1 ?ts, ed_path_buf := ?q\<rparr>"
  have ok0: "trees_ok (ed_trees ed0)" using assms(5) l(2) by (simp add: ed0_def trees_ok_update)
  obtain ts where ts: "load_level odb (ed_trees ed0) ?q l = Ok ts" "edit_path odb ns kid (ed0\<lparr>ed_trees := ts\<rparr>) = (ed', Ok ())"
    using assms(1,2,3) n(1) l(1) p by (auto simp: ed0_def path_hash_def Let_def split: outcome.splits)
  from load_level_spec [OF ts(1) assms(6) ok0] obtain u where u: "map_of ts ?q = Some u" "trees_ok ts"
    "\<forall>q. q \<noteq> ?q \<longrightarrow> map_of ts q = map_of (ed_trees ed0) q"
    "case l of Some i \<Rightarrow> tree_at odb (ed_trees ed0) ?q i = Some u | None \<Rightarrow> map_of (ed_trees ed0) ?q = None \<longrightarrow> u = []"
    "\<forall>v. map_of (ed_trees ed0) ?q = Some v \<longrightarrow> u = v"
    by blast
  have same: "tree_at odb (ed_trees ed0) ?q = tree_at odb ?ts ?q" "map_of (ed_trees ed0) ?q = map_of ?ts ?q"
    using n(2) by (auto simp: tree_at_def ed0_def map_of_AList_update fun_eq_iff)
  show ?thesis
  proof (rule that [OF ts(2)])
    show "map_of (ed_trees (ed0\<lparr>ed_trees := ts\<rparr>)) p = Some t1" using u(3) n(2) by (simp add: ed0_def map_of_AList_update)
    show "\<forall>q. q \<noteq> p \<longrightarrow> q \<noteq> ?q \<longrightarrow> map_of (ed_trees (ed0\<lparr>ed_trees := ts\<rparr>)) q = map_of ?ts q"
      using u(3) by (simp add: ed0_def map_of_AList_update)
    show "tree_at odb ?ts ?q o1 = Some u" if "l = Some o1" for o1 using u(4) that same(1) by simp
    show "u = []" if "l = None" "map_of ?ts ?q = None" using u(4) that same(2) by simp
    show "\<forall>v. map_of ?ts ?q = Some v \<longrightarrow> u = v" using u(5) same(2) by simp
  qed (use u(1,2) in \<open>simp_all add: ed0_def\<close>)
qed

lemma upsert_step:
  assumes "edit_path odb (n # ns) (Some (k, i, UpsertNormal)) ed = (ed', Ok ())" "ns \<noteq> []"
    and "map_of (ed_trees ed) p = Some t" "good_name n" "trees_ok (ed_trees ed)" "odb_ok odb" and p: "ed_path_buf ed = p"
  obtains t1 u ed1 where
    "edit_path odb ns (Some (k, i, UpsertNormal)) ed1 = (ed', Ok ())"
    "ed_path_buf ed1 = push_path_component p n" "trees_ok (ed_trees ed1)"
    "map_of (ed_trees ed1) p = Some t1" "is_directory t1 n" "\<forall>n'. n' \<noteq> n \<longrightarrow> directory t1 n' = directory t n'"
    "map_of (ed_trees ed1) (push_path_component p n) = Some u"
    "\<forall>q. q \<noteq> p \<longrightarrow> q \<noteq> push_path_component p n \<longrightarrow> map_of (ed_trees ed1) q = map_of (ed_trees ed) q"
    "\<forall>m o1. directory t n = Some (m, o1) \<longrightarrow> mode_is_tree m \<longrightarrow> tree_at odb (ed_trees ed) (push_path_component p n) o1 = Some u"
    "\<not> is_directory t n \<longrightarrow> map_of (ed_trees ed) (push_path_component p n) = None \<longrightarrow> u = []"
    "\<forall>v. map_of (ed_trees ed) (push_path_component p n) = Some v \<longrightarrow> u = v"
proof -
  have wf: "wf_tree t" using assms(3,5) by (simp add: trees_ok_def)
  note lv = edit_level_descend [OF wf assms(4), of k i UpsertNormal]
  obtain t1 l where l: "edit_level t n False (Some (k, i, UpsertNormal)) = Some (LNext t1 l)" "wf_tree t1" "is_directory t1 n"
    "\<forall>n'. n' \<noteq> n \<longrightarrow> directory t1 n' = directory t n'"
    "\<forall>m o1. directory t n = Some (m, o1) \<longrightarrow> mode_is_tree m \<longrightarrow> l = Some o1" "\<not> is_directory t n \<longrightarrow> l = None"
  proof (cases "is_directory t n")
    case True
    then obtain m o1 where d: "directory t n = Some (m, o1)" "mode_is_tree m" by (auto simp: is_directory_def)
    then have e: "edit_level t n False (Some (k, i, UpsertNormal)) = Some (LNext t (Some o1))" using lv by simp
    show ?thesis by (rule that [OF e wf True]) (use d True in simp_all)
  next
    case False
    then obtain u where u: "edit_level t n False (Some (k, i, UpsertNormal)) = Some (LNext u None)" "wf_tree u"
        "directory u = (directory t)(n \<mapsto> (entry_kind_mode EkTree, object_id_null (object_id_kind i)))"
      using lv by (auto simp: is_directory_def split: option.splits if_splits)
    show ?thesis
      by (rule that [OF u(1,2)]) (use u(3) False in \<open>auto simp: is_directory_def\<close>)
  qed
  show ?thesis
    by (rule next_level [OF assms l(1,2)], rule that) (use l(3-6) in auto)
qed

lemma remove_step:
  assumes "edit_path odb (n # ns) None ed = (ed', Ok ())" "ns \<noteq> []"
    and "map_of (ed_trees ed) p = Some t" "good_name n" "trees_ok (ed_trees ed)" "odb_ok odb" and p: "ed_path_buf ed = p"
  obtains (missing) "\<not> is_directory t n" "ed_trees ed' = AList.update p t (ed_trees ed)"
  | (descend) u ed1 where
    "edit_path odb ns None ed1 = (ed', Ok ())" "ed_path_buf ed1 = push_path_component p n" "trees_ok (ed_trees ed1)"
    "map_of (ed_trees ed1) p = Some t" "is_directory t n" "map_of (ed_trees ed1) (push_path_component p n) = Some u"
    "\<forall>q. q \<noteq> p \<longrightarrow> q \<noteq> push_path_component p n \<longrightarrow> map_of (ed_trees ed1) q = map_of (ed_trees ed) q"
    "\<forall>m o1. directory t n = Some (m, o1) \<longrightarrow> mode_is_tree m \<longrightarrow> tree_at odb (ed_trees ed) (push_path_component p n) o1 = Some u"
proof -
  have wf: "wf_tree t" using assms(3,5) by (simp add: trees_ok_def)
  note lv = edit_level_remove_descend [OF wf assms(4)]
  show ?thesis
  proof (cases "is_directory t n")
    case True
    then obtain m o1 where d: "directory t n = Some (m, o1)" "mode_is_tree m" by (auto simp: is_directory_def)
    then have e: "edit_level t n False None = Some (LNext t (Some o1))" using lv by simp
    show ?thesis by (rule next_level [OF assms e wf], rule descend) (use d True in auto)
  next
    case False
    then have "edit_level t n False None = Some (LBreak t)"
      using lv by (auto simp: is_directory_def split: option.splits if_splits)
    moreover have "n \<noteq> []" using assms(4) by (simp add: good_name_def)
    ultimately have "ed_trees ed' = AList.update p t (ed_trees ed)" using assms(1,2,3) p by (auto simp: path_hash_def)
    then show ?thesis using missing False by blast
  qed
qed

lemma no_leftoversI:
  "(\<And>p n u. good_name n \<Longrightarrow> map_of ts (push_path_component p n) = Some u \<Longrightarrow> \<exists>t. map_of ts p = Some t \<and> is_directory t n) \<Longrightarrow>
   no_leftovers ts"
  by (auto simp: no_leftovers_def)

lemma no_leftoversD:
  "no_leftovers ts \<Longrightarrow> good_name n \<Longrightarrow> map_of ts (push_path_component p n) = Some u \<Longrightarrow>
     \<exists>t. map_of ts p = Some t \<and> is_directory t n"
  by (auto simp: no_leftovers_def)

lemma lookup_from_Nil: "lookup_from odb ts p [] q = None"
  by (cases q) (simp_all add: directory_def)

lemma push_neq: "good_name n \<Longrightarrow> push_path_component p n \<noteq> p"
  using push_longer [of n p] by auto

lemma join_push_neq: "good_name n \<Longrightarrow> list_all good_name ns \<Longrightarrow> join_path (push_path_component p n) ns \<noteq> p"
  using join_path_longer [of "n # ns" p] by auto

text \<open>Loading the tree of a known directory, or creating an empty one, keeps the state free of leftovers.\<close>

lemma no_leftovers_step:
  assumes nl: "no_leftovers ts" and n: "good_name n" and t: "map_of ts p = Some t"
    and t1: "map_of ts1 p = Some t1" "is_directory t1 n" "\<forall>n'. n' \<noteq> n \<longrightarrow> directory t1 n' = directory t n'"
    and u: "map_of ts1 (push_path_component p n) = Some u"
    and rest: "\<forall>q. q \<noteq> p \<longrightarrow> q \<noteq> push_path_component p n \<longrightarrow> map_of ts1 q = map_of ts q"
    and old: "\<And>u0. map_of ts (push_path_component p n) = Some u0 \<Longrightarrow> u = u0"
  shows "no_leftovers ts1"
proof (rule no_leftoversI)
  fix p' n' v assume v: "good_name n'" "map_of ts1 (push_path_component p' n') = Some v"
  show "\<exists>t. map_of ts1 p' = Some t \<and> is_directory t n'"
  proof (cases "push_path_component p' n' = push_path_component p n")
    case True
    then show ?thesis using push_inject [OF v(1) n] t1 by auto
  next
    case False
    then have "map_of ts (push_path_component p' n') \<noteq> None" using v(2) rest t by (cases "push_path_component p' n' = p") auto
    then obtain t0 where t0: "map_of ts p' = Some t0" "is_directory t0 n'" using no_leftoversD [OF nl v(1)] by blast
    show ?thesis
    proof (cases "p' = p")
      case True
      then have "n' \<noteq> n" using False by auto
      then show ?thesis using t0 t t1 True by (auto simp: is_directory_def)
    next
      case False
      then show ?thesis using t0 u rest old by (cases "p' = push_path_component p n") auto
    qed
  qed
qed

text \<open>The paths of the trees that a walk over the names visits: all but the last component.\<close>

fun walked :: "bytes \<Rightarrow> bytes list \<Rightarrow> bytes \<Rightarrow> bool" where
  "walked p [] q = False"
| "walked p (n # ns) q = (q = p \<or> walked (push_path_component p n) ns q)"

lemma walked_prefix: "walked p names q \<Longrightarrow> \<exists>ms. prefix ms names \<and> q = join_path p ms"
proof (induction names arbitrary: p)
  case (Cons n ns)
  show ?case
  proof (cases "q = p")
    case True
    then have "prefix [] (n # ns) \<and> q = join_path p []" by simp
    then show ?thesis by blast
  next
    case False
    then obtain ms where "prefix ms ns" "q = join_path (push_path_component p n) ms" using Cons by auto
    then have "prefix (n # ms) (n # ns) \<and> q = join_path p (n # ms)" by simp
    then show ?thesis by blast
  qed
qed simp

lemma walked_longer:
  assumes "walked p names q" "list_all good_name names"
  shows "length p \<le> length q"
proof -
  obtain ms where ms: "prefix ms names" "q = join_path p ms" using walked_prefix [OF assms(1)] by blast
  then have "list_all good_name ms" using assms(2) by (auto simp: prefix_def)
  then show ?thesis using join_path_longer [of ms p] ms(2) by simp
qed

lemma walked_other:
  assumes "good_name n" "good_name m" "n \<noteq> m" "list_all good_name ns" "list_all good_name ms"
  shows "\<not> walked (push_path_component p n) ns (join_path (push_path_component p m) ms)"
proof
  assume "walked (push_path_component p n) ns (join_path (push_path_component p m) ms)"
  then obtain ks where "prefix ks ns" "join_path (push_path_component p m) ms = join_path (push_path_component p n) ks"
    using walked_prefix by blast
  moreover from this have "list_all good_name ks" using assms(4) by (auto simp: prefix_def)
  ultimately show False using push_not_join [OF assms(1-3), of ks ms p] assms(5) by simp
qed

lemma agree_below_unwalked:
  assumes "\<forall>q. \<not> walked p (n # ns) q \<longrightarrow> map_of ts' q = map_of ts q" "good_name n" "good_name m" "n \<noteq> m" "list_all good_name ns"
  shows "agree_below ts' ts (push_path_component p m)"
  unfolding agree_below_def
proof (intro allI impI)
  fix ms assume ms: "list_all good_name ms"
  have "\<not> walked (push_path_component p n) ns (join_path (push_path_component p m) ms)"
    using walked_other [OF assms(2,3,4,5) ms] .
  moreover have "join_path (push_path_component p m) ms \<noteq> p" using assms(3) ms by (rule join_push_neq)
  ultimately show "map_of ts' (join_path (push_path_component p m) ms) = map_of ts (join_path (push_path_component p m) ms)"
    using assms(1) by simp
qed

text \<open>Looking further down from a tree does not depend on whether that tree itself is loaded.\<close>

lemma lookup_loaded:
  assumes "\<forall>q. q \<noteq> p \<longrightarrow> q \<noteq> p' \<longrightarrow> map_of ts1 q = map_of ts q" "list_all good_name ns" "length p' \<le> length p"
  shows "lookup_from odb ts1 p u ns = lookup_from odb ts p u ns"
proof (cases ns)
  case (Cons m ms)
  have "agree_below ts1 ts (push_path_component p m)"
    unfolding agree_below_def
  proof (intro allI impI)
    fix ks assume "list_all good_name ks"
    then have "length p < length (join_path (push_path_component p m) ks)"
      using join_path_longer [of "m # ks" p] assms(2) Cons by simp
    then have "join_path (push_path_component p m) ks \<noteq> p" "join_path (push_path_component p m) ks \<noteq> p'"
      using assms(3) by force+
    then show "map_of ts1 (join_path (push_path_component p m) ks) = map_of ts (join_path (push_path_component p m) ks)"
      using assms(1) by blast
  qed
  then show ?thesis using Cons assms(2) lookup_cong_first [of u m u ts1 ts p ms odb] by simp
qed simp

lemma lookup_directory:
  assumes "is_directory t n" "map_of ts (push_path_component p n) = Some u" "ns \<noteq> []"
  shows "lookup_from odb ts p t (n # ns) = lookup_from odb ts (push_path_component p n) u ns"
  using assms by (auto simp: is_directory_def tree_at_def)

lemma upsert_last:
  assumes "edit_path odb [n] (Some (k, i, UpsertNormal)) ed = (ed', Ok ())" "ed_path_buf ed = p"
    and "map_of (ed_trees ed) p = Some t" "good_name n" "trees_ok (ed_trees ed)"
  obtains t1 where "ed_trees ed' = AList.update p t1 (ed_trees ed)" "wf_tree t1"
    "directory t1 = (directory t)(n \<mapsto> (entry_kind_mode k, i))"
proof -
  have "wf_tree t" using assms(3,5) by (simp add: trees_ok_def)
  then obtain t1 where t1: "edit_level t n True (Some (k, i, UpsertNormal)) = Some (LNext t1 None)" "wf_tree t1"
    "directory t1 = (directory t)(n \<mapsto> (entry_kind_mode k, i))" using edit_level_upsert [OF _ assms(4)] by blast
  have "n \<noteq> []" using assms(4) by (simp add: good_name_def)
  then have "ed_trees ed' = AList.update p t1 (ed_trees ed)" using assms(1,2,3) t1(1) by (auto simp: path_hash_def Let_def)
  then show ?thesis using that t1 by blast
qed

text \<open>A change of one entry of the tree at \<open>p\<close>.\<close>

lemma leaf_lookup:
  assumes t1: "ts' = AList.update p t1 ts" "\<forall>m. m \<noteq> n \<longrightarrow> directory t1 m = directory t m" and n: "good_name n"
    and q: "list_all good_name q" "\<not> prefix [n] q"
  shows "lookup_from odb ts' p t1 q = lookup_from odb ts p t q"
proof (cases q)
  case (Cons m ms)
  have frame: "\<forall>q. \<not> walked p [n] q \<longrightarrow> map_of ts' q = map_of ts q" using t1(1) by (simp add: map_of_AList_update)
  have m: "n \<noteq> m" "good_name m" "list_all good_name ms" using q Cons by auto
  then show ?thesis
    using lookup_cong_first [of t1 m t ts' ts p ms odb] agree_below_unwalked [OF frame n m(2,1)] t1(2) Cons by simp
qed simp

lemma leaf_no_leftovers:
  assumes t1: "ts' = AList.update p t1 ts" "\<forall>m. m \<noteq> n \<longrightarrow> directory t1 m = directory t m" and t: "map_of ts p = Some t"
    and nl: "no_leftovers ts" and fresh: "map_of ts (push_path_component p n) = None"
  shows "no_leftovers ts'"
proof (rule no_leftoversI)
  fix p' n' v assume v: "good_name n'" "map_of ts' (push_path_component p' n') = Some v"
  then obtain w where w: "map_of ts (push_path_component p' n') = Some w"
    using t1(1) t by (cases "push_path_component p' n' = p") (simp_all add: map_of_AList_update)
  then have "\<not> (p' = p \<and> n' = n)" using fresh by auto
  moreover obtain t0 where "map_of ts p' = Some t0" "is_directory t0 n'"
    using no_leftoversD [OF nl v(1) w] by blast
  ultimately show "\<exists>t. map_of ts' p' = Some t \<and> is_directory t n'"
  proof (cases "p' = p")
    case True
    with \<open>map_of ts p' = Some t0\<close> \<open>is_directory t0 n'\<close> \<open>\<not> (p' = p \<and> n' = n)\<close> have "is_directory t1 n'"
      using t1(2) t by (simp add: is_directory_def)
    then show ?thesis using True t1(1) by (simp add: map_of_AList_update)
  qed (simp add: t1(1) map_of_AList_update)
qed

text \<open>
  Going down to the directory \<open>n\<close> of the tree at \<open>p\<close>, which is loaded or created on the way, and changing things below it: what
  is found from \<open>p\<close> on follows from what is found from there on.
\<close>

lemma descend_lookup:
  assumes n: "good_name n" and clear: "is_directory t n \<or> map_of ts (push_path_component p n) = None"
    and t1: "is_directory t1 n" "\<forall>n'. n' \<noteq> n \<longrightarrow> directory t1 n' = directory t n'"
    and rest: "\<forall>q. q \<noteq> p \<longrightarrow> q \<noteq> push_path_component p n \<longrightarrow> map_of ts1 q = map_of ts q"
    and old: "\<forall>m o1. directory t n = Some (m, o1) \<longrightarrow> mode_is_tree m \<longrightarrow> tree_at odb ts (push_path_component p n) o1 = Some u"
    and new: "\<not> is_directory t n \<longrightarrow> map_of ts (push_path_component p n) = None \<longrightarrow> u = []"
    and u': "map_of ts' (push_path_component p n) = Some u'"
    and ns: "list_all good_name ns" "ns \<noteq> []"
    and IH: "lookup_from odb ts' (push_path_component p n) u' ns = lookup_from odb ts1 (push_path_component p n) u ns"
  shows "lookup_from odb ts' p t1 (n # ns) = lookup_from odb ts p t (n # ns)"
proof -
  let ?p1 = "push_path_component p n"
  have "lookup_from odb ts' p t1 (n # ns) = lookup_from odb ts1 ?p1 u ns"
    unfolding lookup_directory [OF t1(1) u' ns(2)] by (rule IH)
  also have "\<dots> = lookup_from odb ts ?p1 u ns"
    using rest push_longer [OF n, of p] ns(1) by (intro lookup_loaded [where p' = p]) auto
  also have "\<dots> = lookup_from odb ts p t (n # ns)"
  proof (cases "is_directory t n")
    case True
    then show ?thesis using old ns(2) by (auto simp: is_directory_def)
  next
    case nd: False
    then have "u = []" using new clear by simp
    moreover have "lookup_from odb ts p t (n # ns) = None"
      using nd ns(2) by (auto simp: is_directory_def split: option.split)
    ultimately show ?thesis by (simp add: lookup_from_Nil)
  qed
  finally show ?thesis .
qed

text \<open>
  What a walk promises: the trees stay well-formed, only trees on the way change, the state stays free of
  leftovers, and, on the condition \<open>c\<close>, lookups of paths that are neither below nor on the way to the edited one are as before.
\<close>

definition walk_frame :: "bool \<Rightarrow> 'f find_tree \<Rightarrow> trees \<Rightarrow> trees \<Rightarrow> bytes \<Rightarrow> object_id tree \<Rightarrow> object_id tree \<Rightarrow> bytes list \<Rightarrow> bool" where
  "walk_frame c odb ts ts' p t t' names \<longleftrightarrow>
     trees_ok ts' \<and> map_of ts' p = Some t' \<and> (\<forall>q. \<not> walked p names q \<longrightarrow> map_of ts' q = map_of ts q) \<and>
     (no_leftovers ts \<and> map_of ts (join_path p names) = None \<longrightarrow> no_leftovers ts') \<and>
     (c \<longrightarrow> (\<forall>q. list_all good_name q \<longrightarrow> \<not> prefix names q \<longrightarrow> \<not> prefix q names \<longrightarrow>
       lookup_from odb ts' p t' q = lookup_from odb ts p t q))"

lemma walk_frame_leaf:
  assumes "ts' = AList.update p t1 ts" "\<forall>m. m \<noteq> n \<longrightarrow> directory t1 m = directory t m" "map_of ts p = Some t"
    and "good_name n" "trees_ok ts" "wf_tree t1"
  shows "walk_frame c odb ts ts' p t t1 [n]"
  using assms leaf_lookup [OF assms(1,2,4), where odb = odb] leaf_no_leftovers [OF assms(1,2,3)]
  unfolding walk_frame_def by (simp add: trees_ok_update map_of_AList_update)

lemma walk_frame_descend:
  assumes n: "good_name n" "list_all good_name ns" "ns \<noteq> []" and t: "map_of ts p = Some t"
    and t1: "map_of ts1 p = Some t1" "is_directory t1 n" "\<forall>n'. n' \<noteq> n \<longrightarrow> directory t1 n' = directory t n'"
    and u: "map_of ts1 (push_path_component p n) = Some u"
    and rest: "\<forall>q. q \<noteq> p \<longrightarrow> q \<noteq> push_path_component p n \<longrightarrow> map_of ts1 q = map_of ts q"
    and old: "\<forall>m o1. directory t n = Some (m, o1) \<longrightarrow> mode_is_tree m \<longrightarrow> tree_at odb ts (push_path_component p n) o1 = Some u"
    and new: "\<not> is_directory t n \<longrightarrow> map_of ts (push_path_component p n) = None \<longrightarrow> u = []"
    and clear: "c \<Longrightarrow> c' \<and> (is_directory t n \<or> map_of ts (push_path_component p n) = None)"
    and IH: "walk_frame c' odb ts1 ts' (push_path_component p n) u u' ns"
  shows "walk_frame c odb ts ts' p t t1 (n # ns)"
proof -
  let ?p1 = "push_path_component p n"
  have u': "map_of ts' ?p1 = Some u'" and frame1: "\<forall>q. \<not> walked ?p1 ns q \<longrightarrow> map_of ts' q = map_of ts1 q"
    using IH by (auto simp: walk_frame_def)
  have "\<not> walked ?p1 ns p" using walked_longer [OF _ n(2), of ?p1 p] push_longer [OF n(1), of p] by auto
  then have t1': "map_of ts' p = Some t1" using frame1 t1(1) by simp
  have "walked ?p1 ns ?p1" using n(3) by (cases ns) simp_all
  then have frame: "\<forall>q. \<not> walked p (n # ns) q \<longrightarrow> map_of ts' q = map_of ts q" using frame1 rest by auto
  have nl1: "no_leftovers ts1" if nl: "no_leftovers ts"
  proof (rule no_leftovers_step [OF nl n(1) t t1 u rest])
    fix u0 assume "map_of ts ?p1 = Some u0"
    moreover from this obtain m o1 where "directory t n = Some (m, o1)" "mode_is_tree m"
      using no_leftoversD [OF nl n(1)] t by (force simp: is_directory_def)
    ultimately show "u = u0" using old by (auto simp: tree_at_def)
  qed
  have "lookup_from odb ts' p t1 q = lookup_from odb ts p t q"
    if c: c and q: "list_all good_name q" "\<not> prefix (n # ns) q" "\<not> prefix q (n # ns)" for q
  proof (cases q)
    case (Cons m ms)
    show ?thesis
    proof (cases "m = n")
      case False
      then show ?thesis
        using lookup_cong_first [of t1 m t ts' ts p ms odb] agree_below_unwalked [OF frame n(1) _ _ n(2), of m] t1(3) q(1) Cons
        by auto
    next
      case True
      then have ms: "list_all good_name ms" "ms \<noteq> []" "\<not> prefix ns ms" "\<not> prefix ms ns" using q Cons by auto
      then have "lookup_from odb ts' ?p1 u' ms = lookup_from odb ts1 ?p1 u ms"
        using IH clear [OF c] by (simp add: walk_frame_def)
      with descend_lookup [OF n(1) clear [OF c, THEN conjunct2] t1(2,3) rest old new u' ms(1,2)] show ?thesis using True Cons by simp
    qed
  qed (use q in simp)
  moreover have "no_leftovers ts'" if "no_leftovers ts" "map_of ts (join_path p (n # ns)) = None"
  proof -
    have "join_path ?p1 ns \<noteq> ?p1" "join_path ?p1 ns \<noteq> p"
      using join_path_longer [OF n(2), of ?p1] push_longer [OF n(1), of p] n(3) by (cases ns; auto)+
    then have "map_of ts1 (join_path ?p1 ns) = None" using rest that(2) by simp
    then show ?thesis using IH nl1 that(1) by (simp add: walk_frame_def)
  qed
  ultimately show ?thesis using IH frame t1' by (simp add: walk_frame_def)
qed

text \<open>
  No tree is left over on the way to a path: whenever a tree is loaded for a proper part of it, that part is a directory.  Where
  an insertion creates a directory, it thereby starts with an empty one.
\<close>

definition clear_way :: "'f find_tree \<Rightarrow> trees \<Rightarrow> bytes \<Rightarrow> object_id tree \<Rightarrow> bytes list \<Rightarrow> bool" where
  "clear_way odb ts p t names \<longleftrightarrow>
     (\<forall>ms. ms \<noteq> [] \<and> strict_prefix ms names \<and> map_of ts (join_path p ms) \<noteq> None \<longrightarrow>
        (\<exists>m i. lookup_from odb ts p t ms = Some (m, i) \<and> mode_is_tree m))"

lemma clear_way_first: "clear_way odb ts p t (n # ns) \<Longrightarrow> ns \<noteq> [] \<Longrightarrow> is_directory t n \<or> map_of ts (push_path_component p n) = None"
  unfolding clear_way_def by (drule spec [of _ "[n]"]) (auto simp: is_directory_def strict_prefix_def split: option.splits)

lemma clear_way_next:
  assumes "clear_way odb ts p t (n # ns)" "good_name n" "list_all good_name ns"
    and rest: "\<forall>q. q \<noteq> p \<longrightarrow> q \<noteq> push_path_component p n \<longrightarrow> map_of ts1 q = map_of ts q"
    and old: "\<forall>m o1. directory t n = Some (m, o1) \<longrightarrow> mode_is_tree m \<longrightarrow> tree_at odb ts (push_path_component p n) o1 = Some u"
  shows "clear_way odb ts1 (push_path_component p n) u ns"
  unfolding clear_way_def
proof (intro allI impI, elim conjE)
  let ?p1 = "push_path_component p n"
  fix ms assume ms: "ms \<noteq> []" "strict_prefix ms ns" "map_of ts1 (join_path ?p1 ms) \<noteq> None"
  have good: "list_all good_name ms" using assms(3) ms(2) by (auto simp: strict_prefix_def prefix_def)
  have "join_path ?p1 ms \<noteq> ?p1" "join_path ?p1 ms \<noteq> p"
    using join_path_longer [OF good, of ?p1] push_longer [OF assms(2), of p] ms(1) by (cases ms; auto)+
  then have "map_of ts (join_path p (n # ms)) \<noteq> None" using rest ms(3) by simp
  moreover have "strict_prefix (n # ms) (n # ns)" using ms(2) by simp
  ultimately obtain m i where m: "lookup_from odb ts p t (n # ms) = Some (m, i)" "mode_is_tree m"
    using assms(1) unfolding clear_way_def by blast
  then obtain m1 i1 where d: "directory t n = Some (m1, i1)" "mode_is_tree m1" using ms(1) by (auto split: option.splits if_splits)
  then have "lookup_from odb ts ?p1 u ms = Some (m, i)" using m old ms(1) by auto
  moreover have "lookup_from odb ts1 ?p1 u ms = lookup_from odb ts ?p1 u ms"
    using rest push_longer [OF assms(2), of p] good by (intro lookup_loaded [where p' = p]) auto
  ultimately show "\<exists>m i. lookup_from odb ts1 ?p1 u ms = Some (m, i) \<and> mode_is_tree m" using m(2) by simp
qed

lemma no_leftovers_parents:
  "no_leftovers ts \<Longrightarrow> list_all good_name ns \<Longrightarrow> map_of ts (join_path p ns) \<noteq> None \<Longrightarrow> map_of ts p \<noteq> None"
proof (induction ns arbitrary: p)
  case (Cons n ns)
  then have "map_of ts (push_path_component p n) \<noteq> None" by simp
  then show ?case using no_leftoversD [OF Cons.prems(1), of n p] Cons.prems(2) by auto
qed simp

lemma no_leftovers_clear_way:
  assumes "no_leftovers ts" "map_of ts p = Some t" "list_all good_name names"
  shows "clear_way odb ts p t names"
proof -
  have "\<exists>m i. lookup_from odb ts p t ms = Some (m, i) \<and> mode_is_tree m"
    if "ms \<noteq> []" "list_all good_name ms" "map_of ts (join_path p ms) \<noteq> None" for ms
    using that assms(2)
  proof (induction ms arbitrary: p t)
    case (Cons n ms)
    let ?p1 = "push_path_component p n"
    obtain u where u: "map_of ts ?p1 = Some u" using no_leftovers_parents [OF assms(1), of ms ?p1] Cons.prems by auto
    then have d: "is_directory t n" using no_leftoversD [OF assms(1), of n p u] Cons.prems by auto
    show ?case
    proof (cases "ms = []")
      case True
      then show ?thesis using d by (auto simp: is_directory_def)
    next
      case False
      then show ?thesis unfolding lookup_directory [OF d u False] using Cons.IH [OF False _ _ u] Cons.prems by simp
    qed
  qed simp
  then show ?thesis using assms(3) unfolding clear_way_def by (auto simp: strict_prefix_def prefix_def)
qed

lemma upsert_walk:
  assumes "edit_path odb names (Some (k, i, UpsertNormal)) ed = (ed', Ok ())" "names \<noteq> []" "list_all good_name names"
    and "ed_path_buf ed = p" "map_of (ed_trees ed) p = Some t" "trees_ok (ed_trees ed)" "odb_ok odb"
  shows "\<exists>t'. walk_frame (clear_way odb (ed_trees ed) p t names) odb (ed_trees ed) (ed_trees ed') p t t' names \<and>
    lookup_from odb (ed_trees ed') p t' names = Some (entry_kind_mode k, i)"
  using assms
proof (induction names arbitrary: ed p t)
  case (Cons n ns)
  let ?ts = "ed_trees ed" and ?ts' = "ed_trees ed'" and ?p1 = "push_path_component p n"
  have n: "good_name n" "list_all good_name ns" using Cons.prems(3) by simp_all
  show ?case
  proof (cases "ns = []")
    case True
    obtain t1 where t1: "?ts' = AList.update p t1 ?ts" "wf_tree t1" "directory t1 = (directory t)(n \<mapsto> (entry_kind_mode k, i))"
      by (rule upsert_last [of odb n k i ed ed' p t]) (use Cons.prems n True in simp_all)
    then have "walk_frame (clear_way odb ?ts p t [n]) odb ?ts ?ts' p t t1 [n]" using n(1) Cons.prems(5,6) by (intro walk_frame_leaf) simp_all
    moreover have "lookup_from odb ?ts' p t1 [n] = Some (entry_kind_mode k, i)" using t1(3) by simp
    ultimately show ?thesis using True by blast
  next
    case False
    obtain t1 u ed1 where s: "edit_path odb ns (Some (k, i, UpsertNormal)) ed1 = (ed', Ok ())" "ed_path_buf ed1 = ?p1"
      "trees_ok (ed_trees ed1)" "map_of (ed_trees ed1) p = Some t1" "is_directory t1 n"
      "\<forall>n'. n' \<noteq> n \<longrightarrow> directory t1 n' = directory t n'" "map_of (ed_trees ed1) ?p1 = Some u"
      "\<forall>q. q \<noteq> p \<longrightarrow> q \<noteq> ?p1 \<longrightarrow> map_of (ed_trees ed1) q = map_of ?ts q"
      "\<forall>m o1. directory t n = Some (m, o1) \<longrightarrow> mode_is_tree m \<longrightarrow> tree_at odb ?ts ?p1 o1 = Some u"
      "\<not> is_directory t n \<longrightarrow> map_of ?ts ?p1 = None \<longrightarrow> u = []" "\<forall>v. map_of ?ts ?p1 = Some v \<longrightarrow> u = v"
      by (rule upsert_step [OF Cons.prems(1) False Cons.prems(5) n(1) Cons.prems(6,7,4)])
    from Cons.IH [OF s(1) False n(2) s(2) s(7) s(3) Cons.prems(7)] obtain u' where
      u': "walk_frame (clear_way odb (ed_trees ed1) ?p1 u ns) odb (ed_trees ed1) ?ts' ?p1 u u' ns" "lookup_from odb ?ts' ?p1 u' ns = Some (entry_kind_mode k, i)" by blast
    have "walk_frame (clear_way odb ?ts p t (n # ns)) odb ?ts ?ts' p t t1 (n # ns)"
    proof (rule walk_frame_descend [OF n False Cons.prems(5) s(4-10) _ u'(1)])
      assume "clear_way odb ?ts p t (n # ns)"
      then show "clear_way odb (ed_trees ed1) ?p1 u ns \<and> (is_directory t n \<or> map_of ?ts ?p1 = None)"
        by (intro conjI clear_way_next [OF _ n s(8,9)] clear_way_first [OF _ False])
    qed
    moreover have "map_of ?ts' ?p1 = Some u'" using u'(1) by (simp add: walk_frame_def)
    from lookup_directory [OF s(5) this False, of odb] u'(2)
    have "lookup_from odb ?ts' p t1 (n # ns) = Some (entry_kind_mode k, i)" by (simp only:)
    ultimately show ?thesis by blast
  qed
qed simp

lemma walk_frame_same:
  assumes "\<forall>q. map_of ts' q = map_of ts q" "map_of ts p = Some t" "trees_ok ts"
  shows "walk_frame c odb ts ts' p t t names"
proof -
  have "agree_below ts' ts p" using assms(1) by (simp add: agree_below_def)
  then have "lookup_from odb ts' p t q = lookup_from odb ts p t q" if "list_all good_name q" for q
    using that lookup_cong_below by blast
  then show ?thesis using assms by (simp add: walk_frame_def trees_ok_def no_leftovers_def)
qed

lemma remove_walk:
  assumes "edit_path odb names None ed = (ed', Ok ())" "names \<noteq> []" "list_all good_name names"
    and "ed_path_buf ed = p" "map_of (ed_trees ed) p = Some t" "trees_ok (ed_trees ed)" "odb_ok odb"
  shows "\<exists>t'. walk_frame True odb (ed_trees ed) (ed_trees ed') p t t' names \<and> lookup_from odb (ed_trees ed') p t' names = None"
  using assms
proof (induction names arbitrary: ed p t)
  case (Cons n ns)
  let ?ts = "ed_trees ed" and ?ts' = "ed_trees ed'" and ?p1 = "push_path_component p n"
  have n: "good_name n" "list_all good_name ns" using Cons.prems(3) by simp_all
  then have "n \<noteq> []" by (simp add: good_name_def)
  show ?case
  proof (cases "ns = []")
    case True
    have "wf_tree t" using Cons.prems(5,6) by (simp add: trees_ok_def)
    then obtain t1 where t1: "edit_level t n True None = Some (LBreak t1)" "wf_tree t1" "directory t1 = (directory t)(n := None)"
      using edit_level_remove [OF _ n(1)] by blast
    then have "?ts' = AList.update p t1 ?ts" using Cons.prems(1,4,5) \<open>n \<noteq> []\<close> True by (auto simp: path_hash_def)
    then have "walk_frame True odb ?ts ?ts' p t t1 [n]" using n(1) Cons.prems(5,6) t1 by (intro walk_frame_leaf) simp_all
    moreover have "lookup_from odb ?ts' p t1 [n] = None" using t1(3) by simp
    ultimately show ?thesis using True by blast
  next
    case False
    show ?thesis
    proof (rule remove_step [OF Cons.prems(1) False Cons.prems(5) n(1) Cons.prems(6,7,4)])
      assume m: "\<not> is_directory t n" "?ts' = AList.update p t ?ts"
      have "walk_frame True odb ?ts ?ts' p t t (n # ns)"
        using m(2) Cons.prems(5,6) by (intro walk_frame_same) (auto simp: map_of_AList_update)
      moreover have "lookup_from odb ?ts' p t (n # ns) = None"
        using m(1) False by (auto simp: is_directory_def split: option.split)
      ultimately show ?thesis by blast
    next
      fix u ed1 assume s: "edit_path odb ns None ed1 = (ed', Ok ())" "ed_path_buf ed1 = ?p1" "trees_ok (ed_trees ed1)"
        "map_of (ed_trees ed1) p = Some t" "is_directory t n" "map_of (ed_trees ed1) ?p1 = Some u"
        "\<forall>q. q \<noteq> p \<longrightarrow> q \<noteq> ?p1 \<longrightarrow> map_of (ed_trees ed1) q = map_of ?ts q"
        "\<forall>m o1. directory t n = Some (m, o1) \<longrightarrow> mode_is_tree m \<longrightarrow> tree_at odb ?ts ?p1 o1 = Some u"
      from Cons.IH [OF s(1) False n(2) s(2) s(6) s(3) Cons.prems(7)] obtain u' where
        u': "walk_frame True odb (ed_trees ed1) ?ts' ?p1 u u' ns" "lookup_from odb ?ts' ?p1 u' ns = None" by blast
      have "walk_frame True odb ?ts ?ts' p t t (n # ns)"
        by (rule walk_frame_descend [OF n(1,2) False Cons.prems(5) s(4,5) _ s(6-8) _ _ u'(1)]) (use s(5) in simp_all)
      moreover have "map_of ?ts' ?p1 = Some u'" using u'(1) by (simp add: walk_frame_def)
      from lookup_directory [OF s(5) this False, of odb] u'(2)
      have "lookup_from odb ?ts' p t (n # ns) = None" by (simp only:)
      ultimately show ?thesis by blast
    qed
  qed
qed simp

text \<open>A repository with one file and one directory, which is in the database only.\<close>

definition sample_id :: "u8 \<Rightarrow> object_id" where "sample_id n = Sha1 (replicate 20 n)"

definition sample_odb :: "unit find_tree" where
  "sample_odb i = (if i = sample_id 1 then Ok [\<lparr>ent_mode = 0x81a4, ent_filename = lit ''b'', ent_oid = sample_id 2\<rparr>] else Err ())"

definition sample_editor :: editor where
  "sample_editor = editor_new [\<lparr>ent_mode = 0x4000, ent_filename = lit ''a'', ent_oid = sample_id 1\<rparr>,
     \<lparr>ent_mode = 0x81a4, ent_filename = lit ''c'', ent_oid = sample_id 3\<rparr>]"

lemma editor_new_ok:
  assumes "wf_tree root"
  shows "editor_ok (editor_new root)" "no_leftovers (ed_trees (editor_new root))"
proof -
  show "editor_ok (editor_new root)" using assms by (simp add: editor_ok_def editor_new_def trees_ok_def empty_path_def)
  show "no_leftovers (ed_trees (editor_new root))"
  proof (rule no_leftoversI)
    fix p n u assume "good_name n" "map_of (ed_trees (editor_new root)) (push_path_component p n) = Some u"
    then show "\<exists>t. map_of (ed_trees (editor_new root)) p = Some t \<and> is_directory t n"
      using push_longer [of n p] by (simp add: editor_new_def empty_path_def split: if_splits)
  qed
qed

lemma sample_ok:
  "editor_ok sample_editor" "no_leftovers (ed_trees sample_editor)" "odb_ok sample_odb"
  "list_all good_name [lit ''a'', lit ''d'']" "list_all good_name [lit ''a'', lit ''b'']"
proof -
  have w: "wf_tree [\<lparr>ent_mode = 0x4000, ent_filename = lit ''a'', ent_oid = sample_id 1\<rparr>,
      \<lparr>ent_mode = 0x81a4, ent_filename = lit ''c'', ent_oid = sample_id 3\<rparr>]"
    "wf_tree [\<lparr>ent_mode = 0x81a4, ent_filename = lit ''b'', ent_oid = sample_id 2\<rparr>]" by code_simp+
  from editor_new_ok [OF w(1)] show "editor_ok sample_editor" "no_leftovers (ed_trees sample_editor)"
    by (simp_all add: sample_editor_def)
  show "odb_ok sample_odb" using w(2) by (simp add: odb_ok_def sample_odb_def)
qed code_simp+

definition way_clear :: "'f find_tree \<Rightarrow> editor \<Rightarrow> bytes list \<Rightarrow> bool" where
  "way_clear odb ed path \<longleftrightarrow>
     (\<forall>ms. ms \<noteq> [] \<and> strict_prefix ms path \<and> map_of (ed_trees ed) (join_path [] ms) \<noteq> None \<longrightarrow>
        (\<exists>m i. editor_lookup odb ed ms = Some (m, i) \<and> mode_is_tree m))"

text \<open>
  C2: in an editor whose loaded trees are well formed and include the root, over a database whose trees are well formed, let an
  entry be inserted at a path of non-empty names without a slash, and let this succeed.  Whatever was there, the entry is found at this
  path afterwards, and all loaded trees are sorted in git's order without duplicate names.  The content of every path
  that is neither below the path nor leads to it is unchanged, provided that no tree is left over on the way: wherever a
  tree is loaded for a proper part of the path, that part is a directory.  (A directory that was loaded and then removed is such a leftover,
  and its content comes back.)  In a state in which every loaded tree is a directory of its loaded
  parent, as in a new editor, every way is clear, and this remains so unless the tree at the path itself had been loaded.
\<close>

theorem editor_upsert_then_lookup:
  assumes "editor_ok ed" "odb_ok odb" "path \<noteq> []" "list_all good_name path"
    and "editor_upsert odb ed path kind i = (ed', Ok ())"
  shows "editor_ok ed' \<and> editor_lookup odb ed' path = Some (entry_kind_mode kind, i) \<and>
    (way_clear odb ed path \<and> list_all good_name q \<and> \<not> prefix path q \<and> \<not> prefix q path \<longrightarrow>
       editor_lookup odb ed' q = editor_lookup odb ed q) \<and>
    (no_leftovers (ed_trees ed) \<longrightarrow> way_clear odb ed path \<and>
       (map_of (ed_trees ed) (join_path [] path) = None \<longrightarrow> no_leftovers (ed_trees ed')))"
proof -
  obtain t where t: "map_of (ed_trees ed) [] = Some t" using assms(1) by (auto simp: editor_ok_def)
  then have "edit_path odb path (Some (kind, i, UpsertNormal)) (ed\<lparr>ed_path_buf := []\<rparr>) = (ed', Ok ())"
    using assms(5) by (simp add: editor_upsert_def upsert_or_remove_at_pathbuf_def path_hash_def)
  from upsert_walk [OF this assms(3,4), of "[]" t] obtain t' where
    w: "walk_frame (clear_way odb (ed_trees ed) [] t path) odb (ed_trees ed) (ed_trees ed') [] t t' path"
    "lookup_from odb (ed_trees ed') [] t' path = Some (entry_kind_mode kind, i)"
    using t assms(1,2) by (auto simp: editor_ok_def)
  have way: "way_clear odb ed path = clear_way odb (ed_trees ed) [] t path"
    using t by (simp add: way_clear_def clear_way_def editor_lookup_def)
  have "no_leftovers (ed_trees ed) \<longrightarrow> way_clear odb ed path"
    unfolding way using no_leftovers_clear_way [OF _ t assms(4)] by blast
  with w t way show ?thesis by (simp add: walk_frame_def editor_ok_def editor_lookup_def)
qed

theorem editor_upsert_then_lookup_witness:
  "\<exists>ed'. editor_upsert sample_odb sample_editor [lit ''a'', lit ''d''] EkBlob (sample_id 9) = (ed', Ok ()) \<and>
     editor_lookup sample_odb ed' [lit ''a'', lit ''d''] = Some (0x81a4, sample_id 9) \<and>
     editor_lookup sample_odb ed' [lit ''a'', lit ''b''] = editor_lookup sample_odb sample_editor [lit ''a'', lit ''b'']"
proof -
  obtain ed' r where r: "editor_upsert sample_odb sample_editor [lit ''a'', lit ''d''] EkBlob (sample_id 9) = (ed', r)" by fastforce
  moreover have "snd (editor_upsert sample_odb sample_editor [lit ''a'', lit ''d''] EkBlob (sample_id 9)) = Ok ()" by code_simp
  ultimately have ok: "editor_upsert sample_odb sample_editor [lit ''a'', lit ''d''] EkBlob (sample_id 9) = (ed', Ok ())" by simp
  from editor_upsert_then_lookup [OF sample_ok(1,3) _ sample_ok(4) ok, of "[lit ''a'', lit ''b'']"] sample_ok(2,5) ok
  show ?thesis by (simp add: entry_kind_mode_def)
qed

text \<open>
  C3: in an editor whose loaded trees are well formed and include the root, over a database whose trees are well formed, let the
  entry at a path of non-empty names without a slash be removed, which need not exist, and let this succeed.  Nothing is found at
  this path afterwards, all loaded trees are well formed, and the content of every path that is neither below the path nor
  leads to it is unchanged, in every such state, also after a loaded directory has been removed.  If every loaded tree
  was a directory of its loaded parent, this remains so unless the tree at the path itself had been loaded.
\<close>

theorem editor_remove_then_lookup:
  assumes "editor_ok ed" "odb_ok odb" "path \<noteq> []" "list_all good_name path"
    and "editor_remove odb ed path = (ed', Ok ())"
  shows "editor_ok ed' \<and> editor_lookup odb ed' path = None \<and>
    (list_all good_name q \<and> \<not> prefix path q \<and> \<not> prefix q path \<longrightarrow> editor_lookup odb ed' q = editor_lookup odb ed q) \<and>
    (no_leftovers (ed_trees ed) \<and> map_of (ed_trees ed) (join_path [] path) = None \<longrightarrow> no_leftovers (ed_trees ed'))"
proof -
  obtain t where t: "map_of (ed_trees ed) [] = Some t" using assms(1) by (auto simp: editor_ok_def)
  then have "edit_path odb path None (ed\<lparr>ed_path_buf := []\<rparr>) = (ed', Ok ())"
    using assms(5) by (simp add: editor_remove_def upsert_or_remove_at_pathbuf_def path_hash_def)
  from remove_walk [OF this assms(3,4), of "[]" t] obtain t' where
    "walk_frame True odb (ed_trees ed) (ed_trees ed') [] t t' path" "lookup_from odb (ed_trees ed') [] t' path = None"
    using t assms(1,2) by (auto simp: editor_ok_def)
  then show ?thesis using t by (simp add: walk_frame_def editor_ok_def editor_lookup_def)
qed

theorem editor_remove_then_lookup_witness:
  "\<exists>ed'. editor_remove sample_odb sample_editor [lit ''a'', lit ''b''] = (ed', Ok ()) \<and>
     editor_lookup sample_odb ed' [lit ''a'', lit ''b''] = None \<and>
     editor_lookup sample_odb ed' [lit ''a'', lit ''d''] = editor_lookup sample_odb sample_editor [lit ''a'', lit ''d'']"
proof -
  obtain ed' r where r: "editor_remove sample_odb sample_editor [lit ''a'', lit ''b''] = (ed', r)" by fastforce
  moreover have "snd (editor_remove sample_odb sample_editor [lit ''a'', lit ''b'']) = Ok ()" by code_simp
  ultimately have ok: "editor_remove sample_odb sample_editor [lit ''a'', lit ''b''] = (ed', Ok ())" by simp
  from editor_remove_then_lookup [OF sample_ok(1,3) _ sample_ok(5) ok, of "[lit ''a'', lit ''d'']"] sample_ok(4) ok
  show ?thesis by simp
qed

section \<open>Leftovers\<close>


definition sample_loaded :: editor where
  "sample_loaded = sample_editor\<lparr>ed_trees := ed_trees sample_editor @
     [(lit ''a'', [\<lparr>ent_mode = 0x81a4, ent_filename = lit ''b'', ent_oid = sample_id 2\<rparr>])]\<rparr>"


end
