(* ===== verification/Gix_Tree_Write.thy ===== *)
theory Gix_Tree_Write
  imports Gix_Tree_Editor
begin

text \<open>
  Writing the trees of an editor (\<^verbatim>\<open>Editor::write\<close>, \<^verbatim>\<open>Cursor::write\<close> of \<^verbatim>\<open>src/gix-object/src/tree/editor.rs\<close>; the definitions are in
  \<open>Gix_Tree_Editor\<close>).  The loop of the source works with two stacks; here it is shown to implement a recursive definition:
  in the tree at a path, the entry of every directory that has been loaded gets the id of its written tree or disappears
  when that tree is empty, and placeholders are dropped.  The invariant of the loop says that every waiting
  tree has this form already for the directories that are finished.
\<close>

section \<open>What is to be written\<close>

definition keep_ids :: "object_id tree \<Rightarrow> object_id tree" where
  "keep_ids t = filter (\<lambda>e. \<not> object_id_is_null (ent_oid e)) t"

definition longest_path :: "trees \<Rightarrow> nat" where
  "longest_path ts = fold max (map (length \<circ> fst) ts) 0"

lemma longest_path: "map_of ts q = Some t \<Longrightarrow> length q \<le> longest_path ts"
proof -
  have "a \<le> fold max xs a \<and> (\<forall>x\<in>set xs. x \<le> fold max xs a)" for xs and a :: nat
  proof (induction xs arbitrary: a)
    case (Cons x xs)
    from Cons [of "max x a"] show ?case by auto
  qed simp
  then have bound: "\<forall>x\<in>set (map (length \<circ> fst) ts). x \<le> longest_path ts" unfolding longest_path_def by blast
  assume "map_of ts q = Some t"
  then have "length q \<in> set (map (length \<circ> fst) ts)" by (force dest: map_of_SomeD)
  with bound show ?thesis by blast
qed

text \<open>The recursion goes to longer paths of loaded trees only.\<close>

function written :: "(object_id tree \<Rightarrow> object_id) \<Rightarrow> trees \<Rightarrow> bytes \<Rightarrow> object_id tree" where
  "written h ts p =
     (case map_of ts p of
        None \<Rightarrow> []
      | Some t \<Rightarrow> keep_ids (concat (map (\<lambda>e.
          let q = push_path_component p (ent_filename e) in
          if mode_is_tree (ent_mode e) \<and> map_of ts q \<noteq> None \<and> length p < length q then
            (case written h ts q of [] \<Rightarrow> [] | s \<Rightarrow> [e\<lparr>ent_oid := h s\<rparr>])
          else [e]) t)))"
  by pat_completeness auto
termination
  by (relation "measure (\<lambda>(h, ts, p). Suc (longest_path ts) - length p)")
    (auto dest!: longest_path)

declare written.simps [simp del]

text \<open>The tree at \<open>p\<close> while the trees at the paths in \<open>U\<close> are not finished.\<close>

definition finished_dir :: "trees \<Rightarrow> bytes set \<Rightarrow> bytes \<Rightarrow> entry \<Rightarrow> bool" where
  "finished_dir ts U p e =
     (mode_is_tree (ent_mode e) \<and> map_of ts (push_path_component p (ent_filename e)) \<noteq> None \<and>
      push_path_component p (ent_filename e) \<notin> U)"

definition update_dir ::
    "(object_id tree \<Rightarrow> object_id) \<Rightarrow> trees \<Rightarrow> bytes set \<Rightarrow> bytes \<Rightarrow> entry \<Rightarrow> object_id tree" where
  "update_dir h ts U p e =
     (if finished_dir ts U p e then
        (case written h ts (push_path_component p (ent_filename e)) of [] \<Rightarrow> [] | s \<Rightarrow> [e\<lparr>ent_oid := h s\<rparr>])
      else [e])"

definition partial ::
    "(object_id tree \<Rightarrow> object_id) \<Rightarrow> trees \<Rightarrow> bytes set \<Rightarrow> bytes \<Rightarrow> object_id tree \<Rightarrow> object_id tree" where
  "partial h ts U p t = concat (map (update_dir h ts U p) t)"

lemma written_partial:
  assumes "map_of ts p = Some t" "wf_tree t"
  shows "written h ts p = keep_ids (partial h ts {} p t)"
proof -
  have "(let q = push_path_component p (ent_filename e) in
      if mode_is_tree (ent_mode e) \<and> map_of ts q \<noteq> None \<and> length p < length q then
        (case written h ts q of [] \<Rightarrow> [] | s \<Rightarrow> [e\<lparr>ent_oid := h s\<rparr>]) else [e]) = update_dir h ts {} p e"
    if "e \<in> set t" for e
    using push_longer [OF wf_tree_names [OF assms(2) that], of p] by (simp add: update_dir_def finished_dir_def Let_def)
  then have "map (\<lambda>e. let q = push_path_component p (ent_filename e) in
      if mode_is_tree (ent_mode e) \<and> map_of ts q \<noteq> None \<and> length p < length q then
        (case written h ts q of [] \<Rightarrow> [] | s \<Rightarrow> [e\<lparr>ent_oid := h s\<rparr>]) else [e]) t = map (update_dir h ts {} p) t"
    by (intro map_cong refl)
  then show ?thesis using assms(1) by (subst written.simps) (simp only: option.case partial_def)
qed

lemma update_dir_cases: "update_dir h ts U p e = [] \<or> (\<exists>i. update_dir h ts U p e = [e\<lparr>ent_oid := i\<rparr>])"
proof -
  have "\<exists>i. e = e\<lparr>ent_oid := i\<rparr>" by (rule exI [of _ "ent_oid e"]) simp
  then show ?thesis by (auto simp: update_dir_def split: list.split)
qed

lemma set_partial:
  assumes "x \<in> set (partial h ts U p t)"
  obtains e i where "e \<in> set t" "x = e\<lparr>ent_oid := i\<rparr>"
proof -
  obtain e where e: "e \<in> set t" "x \<in> set (update_dir h ts U p e)" using assms by (auto simp: partial_def)
  then show ?thesis using update_dir_cases [of h ts U p e] that by auto
qed

lemma partial_append [simp]: "partial h ts U p (xs @ ys) = partial h ts U p xs @ partial h ts U p ys"
  by (simp add: partial_def)

lemma partial_simps: "partial h ts U p [] = []" "partial h ts U p (e # es) = update_dir h ts U p e @ partial h ts U p es"
  by (simp_all add: partial_def)

lemma partial_unchanged: "(\<And>e. e \<in> set t \<Longrightarrow> update_dir h ts U p e = [e]) \<Longrightarrow> partial h ts U p t = t"
  by (induction t) (simp_all add: partial_simps)

text \<open>The names and the order of the entries remain.\<close>

lemma partial_sorted:
  "sorted_wrt (\<lambda>a b. R (key_of a) (key_of b) \<and> S (ent_filename a) (ent_filename b)) t \<Longrightarrow>
   sorted_wrt (\<lambda>a b. R (key_of a) (key_of b) \<and> S (ent_filename a) (ent_filename b)) (partial h ts U p t)"
proof (induction t)
  case (Cons e t)
  have "R (key_of e) (key_of x) \<and> S (ent_filename e) (ent_filename x)" if x: "x \<in> set (partial h ts U p t)" for x
  proof -
    obtain e' i where "e' \<in> set t" "x = e'\<lparr>ent_oid := i\<rparr>" by (rule set_partial [OF x])
    with Cons.prems show ?thesis by (simp add: key_of_def)
  qed
  with Cons update_dir_cases [of h ts U p e] show ?case by (auto simp: partial_simps key_of_def)
qed (simp add: partial_simps)

lemma distinct_sorted_wrt: "distinct (map f t) \<longleftrightarrow> sorted_wrt (\<lambda>a b. f a \<noteq> f b) t"
  by (induction t) auto

lemma sorted_wrt_conj: "sorted_wrt (\<lambda>a b. P a b \<and> Q a b) xs \<longleftrightarrow> sorted_wrt P xs \<and> sorted_wrt Q xs"
  by (induction xs) auto

lemma partial_wf:
  assumes "wf_tree t"
  shows "wf_tree (partial h ts U p t)"
proof -
  have "sorted_wrt (\<lambda>a b. cmp_slice (key_of a) (key_of b) = Less \<and> ent_filename a \<noteq> ent_filename b) t"
    using assms by (simp add: wf_tree_def sorted_tree_keys sorted_wrt_conj distinct_sorted_wrt)
  then have "sorted_wrt (\<lambda>a b. cmp_slice (key_of a) (key_of b) = Less \<and> ent_filename a \<noteq> ent_filename b) (partial h ts U p t)"
    by (rule partial_sorted [where R = "\<lambda>x y. cmp_slice x y = Less" and S = "\<lambda>x y. x \<noteq> y"])
  moreover have "slash_free x \<and> ent_filename x \<noteq> []" if x: "x \<in> set (partial h ts U p t)" for x
  proof -
    obtain e i where "e \<in> set t" "x = e\<lparr>ent_oid := i\<rparr>" by (rule set_partial [OF x])
    with assms show ?thesis by (auto simp: wf_tree_def sorted_tree_def list_all_iff slash_free_def)
  qed
  ultimately show ?thesis
    by (simp add: wf_tree_def sorted_tree_keys sorted_wrt_conj distinct_sorted_wrt list_all_iff)
qed

lemma keep_ids_wf: "wf_tree t \<Longrightarrow> wf_tree (keep_ids t)"
  by (auto simp: wf_tree_def sorted_tree_def keep_ids_def sorted_wrt_filter list_all_iff distinct_map_filter)

lemma partial_cong:
  "(\<And>e. e \<in> set t \<Longrightarrow> mode_is_tree (ent_mode e) \<Longrightarrow>
      push_path_component p (ent_filename e) \<in> U \<longleftrightarrow> push_path_component p (ent_filename e) \<in> V) \<Longrightarrow>
   partial h ts U p t = partial h ts V p t"
  unfolding partial_def by (intro arg_cong [where f = concat] map_cong refl) (auto simp: update_dir_def finished_dir_def)

section \<open>Finishing one directory\<close>

context bstr_spec
begin

lemma path_filename_push: "good_name n \<Longrightarrow> path_filename bs (push_path_component p n) = n"
proof -
  assume n: "good_name n"
  show ?thesis
  proof (cases "p = []")
    case True
    have "rposition (\<lambda>c. c = 0x2f) n = None" using n by (auto simp: good_name_def)
    with True show ?thesis by (simp add: path_filename_def push_path_component_def rfind_byte del: rposition_None)
  next
    case False
    have "rposition (\<lambda>c. c = 0x2f) (p @ 0x2f # n) = Some (length p)"
      using n by (intro rposition_last) (auto simp: good_name_def)
    with False show ?thesis by (simp add: path_filename_def push_path_component_def rfind_byte)
  qed
qed

end

text \<open>The entry of a directory that is not finished stands in its parent unchanged, at the place where the search finds it.\<close>

lemma unfinished_entry:
  assumes t: "wf_tree t" "e \<in> set t" and q: "push_path_component p (ent_filename e) = q" "q \<in> U"
  obtains xs ys where "t = xs @ e # ys" "partial h ts U p t = partial h ts U p xs @ e # partial h ts U p ys"
    "partial h ts (U - {q}) p xs = partial h ts U p xs" "partial h ts (U - {q}) p ys = partial h ts U p ys"
proof -
  obtain xs ys where s: "t = xs @ e # ys" using t(2) by (meson split_list)
  have "push_path_component p (ent_filename e') \<noteq> q" if "e' \<in> set (xs @ ys)" for e'
  proof
    assume "push_path_component p (ent_filename e') = q"
    then have "ent_filename e' = ent_filename e"
      using q(1) push_inject [of "ent_filename e'" "ent_filename e" p p] wf_tree_names [OF t(1)] that s by auto
    then show False using t(1) that s by (auto simp: wf_tree_def image_iff)
  qed
  then have "partial h ts (U - {q}) p xs = partial h ts U p xs" "partial h ts (U - {q}) p ys = partial h ts U p ys"
    by (auto intro!: partial_cong)
  moreover have "update_dir h ts U p e = [e]" using q by (simp add: update_dir_def finished_dir_def)
  ultimately show ?thesis using that [of xs ys] s by (simp add: partial_simps)
qed

lemma search_unfinished:
  assumes t: "wf_tree t" "e \<in> set t" "mode_is_tree (ent_mode e)" and q: "push_path_component p (ent_filename e) = q" "q \<in> U"
    and loaded: "map_of ts q \<noteq> None"
  obtains idx where "binary_search_by (\<lambda>x. cmp_entry_with_name x (ent_filename e) True) (partial h ts U p t) = Ok idx"
    "written h ts q = [] \<Longrightarrow> vec_remove (partial h ts U p t) idx = partial h ts (U - {q}) p t"
    "written h ts q \<noteq> [] \<Longrightarrow> (partial h ts U p t)[idx := (partial h ts U p t ! idx)\<lparr>ent_oid := h (written h ts q)\<rparr>] =
       partial h ts (U - {q}) p t"
proof -
  let ?t = "partial h ts U p t"
  have n: "good_name (ent_filename e)" by (rule wf_tree_names [OF t(1,2)])
  have wf: "wf_tree ?t" by (rule partial_wf [OF t(1)])
  obtain xs ys where s: "t = xs @ e # ys" "?t = partial h ts U p xs @ e # partial h ts U p ys"
    "partial h ts (U - {q}) p xs = partial h ts U p xs" "partial h ts (U - {q}) p ys = partial h ts U p ys"
    by (rule unfinished_entry [OF t(1,2) q])
  let ?k = "length (partial h ts U p xs)"
  have k: "?k < length ?t" "?t ! ?k = e" using s(2) by simp_all
  have e: "update_dir h ts (U - {q}) p e =
      (case written h ts q of [] \<Rightarrow> [] | s \<Rightarrow> [e\<lparr>ent_oid := h s\<rparr>])"
    using q t(3) loaded by (simp add: update_dir_def finished_dir_def)
  show ?thesis
  proof (cases rule: search_by_name_cases [OF wf n, of True, case_names found missing])
    case (found i)
    have "distinct (map ent_filename ?t)" using wf by (simp add: wf_tree_def)
    then have "i = ?k" using nth_eq_iff_index_eq [of "map ent_filename ?t" i ?k] found k by simp
    show ?thesis
    proof (rule that [OF found(1)])
      show "vec_remove ?t i = partial h ts (U - {q}) p t" if "written h ts q = []"
        using that s e \<open>i = ?k\<close> by (simp add: vec_remove_def partial_simps)
      show "?t[i := (?t ! i)\<lparr>ent_oid := h (written h ts q)\<rparr>] = partial h ts (U - {q}) p t" if "written h ts q \<noteq> []"
        using that s e \<open>i = ?k\<close> k(2) by (simp add: partial_simps split: list.splits)
    qed
  next
    case (missing i)
    then show ?thesis using nth_mem [OF k(1)] k(2) t(3) by auto
  qed
qed

section \<open>Looking for loaded directories\<close>

definition node_path :: "node \<Rightarrow> bytes" where "node_path n = fst (snd n)"

lemma scan_entries_spec:
  assumes "scan_entries p k es ts cs u = (ts', cs', u')" "sorted_wrt (\<lambda>a b. ent_filename a \<noteq> ent_filename b) es"
    "\<forall>e\<in>set es. good_name (ent_filename e)"
  obtains new where "cs' = new @ cs" "distinct (map node_path new)"
    "map_of ts' = (\<lambda>q. if q \<in> node_path ` set new then None else map_of ts q)"
    "\<forall>n\<in>set new. \<exists>e x. e \<in> set es \<and> mode_is_tree (ent_mode e) \<and>
       n = (Some k, push_path_component p (ent_filename e), x) \<and> map_of ts (push_path_component p (ent_filename e)) = Some x"
    "\<forall>e\<in>set es. mode_is_tree (ent_mode e) \<longrightarrow> map_of ts' (push_path_component p (ent_filename e)) = None"
  using assms
proof (induction es arbitrary: ts cs u thesis)
  case Nil
  show ?case by (rule Nil(1) [of "[]"]) (use Nil in simp_all)
next
  case (Cons e es)
  let ?q = "push_path_component p (ent_filename e)"
  have es: "sorted_wrt (\<lambda>a b. ent_filename a \<noteq> ent_filename b) es" "\<forall>e\<in>set es. good_name (ent_filename e)"
    using Cons.prems by simp_all
  have other: "push_path_component p (ent_filename x) \<noteq> ?q" if "x \<in> set es" for x
    using push_inject [of "ent_filename x" "ent_filename e" p p] Cons.prems(3,4) that by auto
  show ?case
  proof (cases "mode_is_tree (ent_mode e) \<and> map_of ts ?q \<noteq> None")
    case True
    then obtain x where x: "map_of ts ?q = Some x" by auto
    have "scan_entries p k es (AList.delete ?q ts) ((Some k, ?q, x) # cs) False = (ts', cs', u')"
      using Cons.prems(2) True x by (simp add: path_hash_def Let_def)
    then obtain new where new: "cs' = new @ (Some k, ?q, x) # cs" "distinct (map node_path new)"
      "map_of ts' = (\<lambda>q. if q \<in> node_path ` set new then None else map_of (AList.delete ?q ts) q)"
      "\<forall>n\<in>set new. \<exists>e x. e \<in> set es \<and> mode_is_tree (ent_mode e) \<and>
         n = (Some k, push_path_component p (ent_filename e), x) \<and>
         map_of (AList.delete ?q ts) (push_path_component p (ent_filename e)) = Some x"
      "\<forall>e\<in>set es. mode_is_tree (ent_mode e) \<longrightarrow> map_of ts' (push_path_component p (ent_filename e)) = None"
      by (rule Cons.IH [rotated]) (use es in simp_all)
    have del: "map_of (AList.delete ?q ts) y = (if y = ?q then None else map_of ts y)" for y by (simp add: delete_conv')
    show ?thesis
    proof (rule Cons.prems(1) [of "new @ [(Some k, ?q, x)]"])
      have "?q \<notin> node_path ` set new" using new(4) other by (fastforce simp: node_path_def)
      then show "distinct (map node_path (new @ [(Some k, ?q, x)]))" using new(2) by (simp add: node_path_def image_iff)
      show "map_of ts' = (\<lambda>q. if q \<in> node_path ` set (new @ [(Some k, ?q, x)]) then None else map_of ts q)"
        using new(3) del by (auto simp: node_path_def fun_eq_iff)
      show "\<forall>n\<in>set (new @ [(Some k, ?q, x)]). \<exists>e' x. e' \<in> set (e # es) \<and> mode_is_tree (ent_mode e') \<and>
          n = (Some k, push_path_component p (ent_filename e'), x) \<and> map_of ts (push_path_component p (ent_filename e')) = Some x"
        using new(4) True x other del by (fastforce simp: if_splits)
      show "\<forall>e'\<in>set (e # es). mode_is_tree (ent_mode e') \<longrightarrow> map_of ts' (push_path_component p (ent_filename e')) = None"
        using new(3,5) del by auto
    qed (use new(1) in simp)
  next
    case False
    then have "scan_entries p k es ts cs u = (ts', cs', u')"
      using Cons.prems(2) by (simp add: path_hash_def Let_def split: if_splits)
    then obtain new where new: "cs' = new @ cs" "distinct (map node_path new)"
      "map_of ts' = (\<lambda>q. if q \<in> node_path ` set new then None else map_of ts q)"
      "\<forall>n\<in>set new. \<exists>e x. e \<in> set es \<and> mode_is_tree (ent_mode e) \<and>
         n = (Some k, push_path_component p (ent_filename e), x) \<and> map_of ts (push_path_component p (ent_filename e)) = Some x"
      "\<forall>e\<in>set es. mode_is_tree (ent_mode e) \<longrightarrow> map_of ts' (push_path_component p (ent_filename e)) = None"
      by (rule Cons.IH [rotated]) (use es in simp_all)
    show ?thesis
    proof (rule Cons.prems(1) [OF new(1,2,3)])
      show "\<forall>n\<in>set new. \<exists>e' x. e' \<in> set (e # es) \<and> mode_is_tree (ent_mode e') \<and>
          n = (Some k, push_path_component p (ent_filename e'), x) \<and> map_of ts (push_path_component p (ent_filename e')) = Some x"
        using new(4) by (meson list.set_intros(2))
      show "\<forall>e'\<in>set (e # es). mode_is_tree (ent_mode e') \<longrightarrow> map_of ts' (push_path_component p (ent_filename e')) = None"
        using new(3,5) False by auto
    qed
  qed
qed

section \<open>The invariant of the loop\<close>

text \<open>The paths of the loaded trees that can be reached through the directories of loaded trees.\<close>

inductive reached :: "trees \<Rightarrow> bytes \<Rightarrow> bytes \<Rightarrow> bool" for ts0 r where
  reached_root: "reached ts0 r r"
| reached_dir: "reached ts0 r p \<Longrightarrow> map_of ts0 p = Some t \<Longrightarrow> e \<in> set t \<Longrightarrow> mode_is_tree (ent_mode e) \<Longrightarrow>
    map_of ts0 (push_path_component p (ent_filename e)) \<noteq> None \<Longrightarrow> reached ts0 r (push_path_component p (ent_filename e))"

definition unfinished :: "node list \<Rightarrow> trees \<Rightarrow> bytes set" where
  "unfinished nodes ts = node_path ` set nodes \<union> dom (map_of ts)"

text \<open>
  The content of the waiting nodes and of the trees that have not been reached, relative to the trees \<open>ts0\<close> at
  the start: every waiting tree is updated for its finished directories, everything else is unchanged; a finished tree
  has been handed out unless it is empty, and its own directories are finished as well.  The paths \<open>qs\<close> of the trees that
  have been handed out are distinct and finished, and no path comes before one that is reached from it: directories are handed
  out before the trees that hold them.
\<close>

definition content :: "(object_id tree \<Rightarrow> object_id) \<Rightarrow> trees \<Rightarrow> node list \<Rightarrow> trees \<Rightarrow> bytes list \<Rightarrow> bool" where
  "content h ts0 nodes ts qs \<longleftrightarrow>
     distinct (map node_path nodes) \<and> node_path ` set nodes \<inter> dom (map_of ts) = {} \<and>
     (\<forall>i p t. (i, p, t) \<in> set nodes \<longrightarrow> (\<exists>t0. map_of ts0 p = Some t0 \<and> t = partial h ts0 (unfinished nodes ts) p t0)) \<and>
     (\<forall>q x. map_of ts q = Some x \<longrightarrow> map_of ts0 q = Some x) \<and>
     (\<forall>q x e. map_of ts q = Some x \<longrightarrow> e \<in> set x \<longrightarrow> mode_is_tree (ent_mode e) \<longrightarrow>
        map_of ts0 (push_path_component q (ent_filename e)) \<noteq> None \<longrightarrow>
        push_path_component q (ent_filename e) \<in> unfinished nodes ts) \<and>
     (\<forall>q x. map_of ts0 q = Some x \<longrightarrow> q \<notin> unfinished nodes ts \<longrightarrow> (written h ts0 q = [] \<or> q \<in> set qs) \<and>
        (\<forall>e\<in>set x. mode_is_tree (ent_mode e) \<longrightarrow> push_path_component q (ent_filename e) \<notin> unfinished nodes ts)) \<and>
     distinct qs \<and> sorted_wrt (\<lambda>a b. \<not> reached ts0 a b) qs \<and>
     (\<forall>q\<in>set qs. written h ts0 q \<noteq> [] \<and> map_of ts0 q \<noteq> None \<and> q \<notin> unfinished nodes ts)"

text \<open>A node knows its parent by the index, and its path is the parent's path with the name of one of its directories.\<close>

definition linked :: "trees \<Rightarrow> node list \<Rightarrow> node \<Rightarrow> bool" where
  "linked ts0 ps n = (\<exists>j e t0. fst n = Some j \<and> j < length ps \<and> map_of ts0 (node_path (ps ! j)) = Some t0 \<and> e \<in> set t0 \<and>
     mode_is_tree (ent_mode e) \<and> node_path n = push_path_component (node_path (ps ! j)) (ent_filename e))"

definition linked_parents :: "trees \<Rightarrow> bytes \<Rightarrow> node list \<Rightarrow> bool" where
  "linked_parents ts0 r ps =
     (\<forall>k<length ps. if k = 0 then fst (ps ! 0) = None \<and> node_path (ps ! 0) = r else linked ts0 (take k ps) (ps ! k))"

definition write_inv ::
    "(object_id tree \<Rightarrow> object_id) \<Rightarrow> trees \<Rightarrow> bytes \<Rightarrow> node list \<Rightarrow> node list \<Rightarrow> trees \<Rightarrow> bytes list \<Rightarrow> bool" where
  "write_inv h ts0 r ps cs ts qs \<longleftrightarrow>
     ps \<noteq> [] \<and> content h ts0 (cs @ ps) ts qs \<and> linked_parents ts0 r ps \<and> list_all (linked ts0 ps) cs \<and> list_all (reached ts0 r) qs"

definition popped_inv ::
    "(object_id tree \<Rightarrow> object_id) \<Rightarrow> trees \<Rightarrow> bytes \<Rightarrow> node \<Rightarrow> node list \<Rightarrow> node list \<Rightarrow> trees \<Rightarrow> bytes list \<Rightarrow> bool" where
  "popped_inv h ts0 r n ps cs ts qs \<longleftrightarrow>
     content h ts0 (n # cs @ ps) ts qs \<and> linked_parents ts0 r ps \<and> list_all (linked ts0 ps) cs \<and> list_all (reached ts0 r) qs \<and>
     (if fst n = None then node_path n = r \<and> ps = [] \<and> cs = [] else linked ts0 ps n)"

lemma content_perm:
  assumes "content h ts0 nodes ts qs" "mset nodes = mset nodes'"
  shows "content h ts0 nodes' ts qs"
proof -
  have "set nodes' = set nodes" "distinct (map node_path nodes') = distinct (map node_path nodes)"
    using assms(2) by (metis set_mset_mset) (metis assms(2) mset_eq_imp_distinct_iff mset_map)
  with assms(1) show ?thesis by (simp add: content_def unfinished_def)
qed

lemma linked_mono: "linked ts0 (take k ps) n \<Longrightarrow> linked ts0 ps n"
  by (auto simp: linked_def)

lemma linked_append: "linked ts0 ps n \<Longrightarrow> linked ts0 (ps @ qs) n"
  using linked_mono [of ts0 "length ps" "ps @ qs" n] by simp

lemma linked_parents_snoc:
  "linked_parents ts0 r (ps @ [n]) \<longleftrightarrow> linked_parents ts0 r ps \<and>
     (if ps = [] then fst n = None \<and> node_path n = r else linked ts0 ps n)"
  by (auto simp: linked_parents_def nth_append less_Suc_eq)

lemma write_inv_pop:
  assumes "write_inv h ts0 r ps cs ts qs"
  obtains n cs' ps' where "pop_node cs ps = Some (n, cs', ps')" "popped_inv h ts0 r n ps' cs' ts qs"
proof (cases cs)
  case (Cons c cs')
  then have "linked ts0 ps c" using assms by (simp add: write_inv_def)
  then have "popped_inv h ts0 r c ps cs' ts qs"
    using assms Cons by (auto simp: write_inv_def popped_inv_def linked_def)
  then show ?thesis using that [of c cs' ps] Cons by (simp add: pop_node_def)
next
  case Nil
  have ps: "ps = butlast ps @ [last ps]" using assms by (simp add: write_inv_def)
  then have "linked_parents ts0 r (butlast ps @ [last ps])" using assms by (simp add: write_inv_def)
  note l = this [unfolded linked_parents_snoc]
  have m: "mset ps = add_mset (last ps) (mset (butlast ps))" using arg_cong [OF ps, of mset] by simp
  have "content h ts0 (cs @ ps) ts qs" using assms by (simp add: write_inv_def)
  then have "content h ts0 (last ps # [] @ butlast ps) ts qs"
    by (rule content_perm) (simp only: Nil append_Nil mset.simps m)
  then have "popped_inv h ts0 r (last ps) (butlast ps) [] ts qs"
    using l assms by (auto simp: popped_inv_def write_inv_def linked_def split: if_splits)
  moreover have "pop_node cs ps = Some (last ps, [], butlast ps)" using assms Nil by (simp add: pop_node_def write_inv_def)
  ultimately show ?thesis using that by blast
qed

subsection \<open>A node with loaded directories waits for them\<close>

lemma content_node:
  assumes "content h ts0 nodes ts qs" "(i, p, t) \<in> set nodes" "trees_ok ts0"
  obtains t0 where "map_of ts0 p = Some t0" "wf_tree t0" "t = partial h ts0 (unfinished nodes ts) p t0" "wf_tree t"
proof -
  have "\<forall>i p t. (i, p, t) \<in> set nodes \<longrightarrow> (\<exists>t0. map_of ts0 p = Some t0 \<and> t = partial h ts0 (unfinished nodes ts) p t0)"
    using assms(1) by (simp add: content_def)
  with assms(2) obtain t0 where t0: "map_of ts0 p = Some t0" "t = partial h ts0 (unfinished nodes ts) p t0" by blast
  moreover have "wf_tree t0" using assms(3) t0(1) by (simp add: trees_ok_def)
  ultimately show ?thesis using that [OF t0(1)] partial_wf by simp
qed

lemma wf_tree_scan:
  "wf_tree t \<Longrightarrow> sorted_wrt (\<lambda>a b. ent_filename a \<noteq> ent_filename b) t \<and> (\<forall>e\<in>set t. good_name (ent_filename e))"
  by (auto simp: wf_tree_names) (simp add: wf_tree_def distinct_sorted_wrt)

text \<open>Trees that are taken out of the map become nodes with the same content.\<close>

lemma content_move:
  assumes c: "content h ts0 nodes ts qs"
    and new: "distinct (map node_path new)" "map_of ts' = (\<lambda>q. if q \<in> node_path ` set new then None else map_of ts q)"
      "\<forall>n\<in>set new. map_of ts (node_path n) = Some (snd (snd n))"
  shows "content h ts0 (new @ nodes) ts' qs"
proof -
  have sub: "node_path ` set new \<subseteq> dom (map_of ts)" using new(3) by auto
  have U: "unfinished (new @ nodes) ts' = unfinished nodes ts"
    using new(2) sub by (auto simp: unfinished_def dom_def)
  have "partial h ts0 (unfinished nodes ts) p t = t" if "map_of ts p = Some t" for p t
    using c that unfolding content_def by (intro partial_unchanged) (auto simp: update_dir_def finished_dir_def)
  then have news: "\<exists>t0. map_of ts0 p = Some t0 \<and> t = partial h ts0 (unfinished nodes ts) p t0" if "(i, p, t) \<in> set new" for i p t
    using new(3) that c unfolding content_def node_path_def by fastforce
  have disj: "node_path ` set nodes \<inter> dom (map_of ts) = {}" using c by (simp add: content_def)
  have "distinct (map node_path (new @ nodes))" "node_path ` set (new @ nodes) \<inter> dom (map_of ts') = {}"
    using c new(1,2) sub disj by (auto simp: content_def dom_def)
  moreover have "map_of ts q = Some x" if "map_of ts' q = Some x" for q x using that new(2) by (auto split: if_splits)
  ultimately show ?thesis
    using c news unfolding content_def U by (auto simp: image_Un)
qed

lemma popped_inv_scan:
  assumes inv: "popped_inv h ts0 r (i, p, t) ps cs ts qs" and ok: "trees_ok ts0"
    and scan: "scan_entries p (length ps) t ts cs True = (ts', cs', u)"
  shows "write_inv h ts0 r (ps @ [(i, p, t)]) cs' ts' qs"
proof -
  have c: "content h ts0 ((i, p, t) # cs @ ps) ts qs" using inv by (simp add: popped_inv_def)
  obtain t0 where t0: "map_of ts0 p = Some t0" "wf_tree t0" "t = partial h ts0 (unfinished ((i, p, t) # cs @ ps) ts) p t0" "wf_tree t"
    by (rule content_node [OF c, of i p t, OF _ ok]) simp
  obtain new where new: "cs' = new @ cs" "distinct (map node_path new)"
    "map_of ts' = (\<lambda>q. if q \<in> node_path ` set new then None else map_of ts q)"
    "\<forall>n\<in>set new. \<exists>e x. e \<in> set t \<and> mode_is_tree (ent_mode e) \<and> n = (Some (length ps), push_path_component p (ent_filename e), x) \<and>
       map_of ts (push_path_component p (ent_filename e)) = Some x"
    "\<forall>e\<in>set t. mode_is_tree (ent_mode e) \<longrightarrow> map_of ts' (push_path_component p (ent_filename e)) = None"
    by (rule scan_entries_spec [OF scan wf_tree_scan [OF t0(4), THEN conjunct1] wf_tree_scan [OF t0(4), THEN conjunct2]])
  have "content h ts0 (new @ (i, p, t) # cs @ ps) ts' qs"
    using new(4) by (intro content_move [OF c new(2,3)]) (fastforce simp: node_path_def)
  then have "content h ts0 (cs' @ ps @ [(i, p, t)]) ts' qs" by (rule content_perm) (simp add: new(1))
  moreover have "linked ts0 (ps @ [(i, p, t)]) n" if n: "n \<in> set new" for n
  proof -
    obtain e x where e: "e \<in> set t" "mode_is_tree (ent_mode e)" "n = (Some (length ps), push_path_component p (ent_filename e), x)"
      using new(4) n by blast
    obtain e0 j where "e0 \<in> set t0" "e = e0\<lparr>ent_oid := j\<rparr>" using e(1) t0(3) by (metis set_partial)
    then show ?thesis using e t0(1) by (auto simp: linked_def node_path_def)
  qed
  moreover have "linked_parents ts0 r (ps @ [(i, p, t)])"
    using inv by (auto simp: popped_inv_def linked_parents_snoc linked_def split: if_splits)
  ultimately show ?thesis
    using inv new(1) by (auto simp: write_inv_def popped_inv_def list_all_iff intro: linked_append)
qed

subsection \<open>A node without loaded directories is finished\<close>

lemma linked_longer:
  assumes "linked ts0 ps n" "trees_ok ts0" "\<forall>k<length ps. length r \<le> length (node_path (ps ! k))"
  shows "length r < length (node_path n)"
proof -
  from assms(1) obtain j e t0 where j: "j < length ps" "map_of ts0 (node_path (ps ! j)) = Some t0" "e \<in> set t0"
    "node_path n = push_path_component (node_path (ps ! j)) (ent_filename e)" unfolding linked_def by blast
  have "wf_tree t0" using assms(2) j(2) by (simp add: trees_ok_def)
  then have "good_name (ent_filename e)" using j(3) by (rule wf_tree_names)
  then show ?thesis using push_longer [of "ent_filename e" "node_path (ps ! j)"] assms(3) j(1,4) by fastforce
qed

lemma linked_parents_root: "linked_parents ts0 r ps \<Longrightarrow> 0 < length ps \<Longrightarrow> fst (ps ! 0) = None \<and> node_path (ps ! 0) = r"
  unfolding linked_parents_def by (drule spec [of _ 0]) simp

lemma linked_parents_nth: "linked_parents ts0 r ps \<Longrightarrow> 0 < k \<Longrightarrow> k < length ps \<Longrightarrow> linked ts0 (take k ps) (ps ! k)"
  unfolding linked_parents_def by (drule spec [of _ k]) simp

lemma linked_parents_longer:
  assumes "linked_parents ts0 r ps" "trees_ok ts0"
  shows "k < length ps \<Longrightarrow> length r \<le> length (node_path (ps ! k)) \<and> (0 < k \<longrightarrow> length r < length (node_path (ps ! k)))"
proof (induction k rule: less_induct)
  case (less k)
  show ?case
  proof (cases "k = 0")
    case True
    then show ?thesis using linked_parents_root [OF assms(1)] less.prems by simp
  next
    case False
    then have "linked ts0 (take k ps) (ps ! k)" using assms(1) less.prems by (simp add: linked_parents_def)
    then have "length r < length (node_path (ps ! k))"
      by (rule linked_longer [OF _ assms(2)]) (use less in auto)
    then show ?thesis by simp
  qed
qed

text \<open>A waiting node is never a directory of a node that is not waiting any more.\<close>

lemma linked_not_below:
  assumes "linked ts0 ps m" "trees_ok ts0" "p \<notin> node_path ` set ps" "good_name n"
  shows "node_path m \<noteq> push_path_component p n"
proof
  assume eq: "node_path m = push_path_component p n"
  from assms(1) obtain j e t0 where j: "j < length ps" "map_of ts0 (node_path (ps ! j)) = Some t0" "e \<in> set t0"
    "node_path m = push_path_component (node_path (ps ! j)) (ent_filename e)" unfolding linked_def by blast
  have "wf_tree t0" using assms(2) j(2) by (simp add: trees_ok_def)
  then have "good_name (ent_filename e)" using j(3) by (rule wf_tree_names)
  then have "p = node_path (ps ! j)" using push_inject [OF assms(4)] eq j(4) by metis
  then show False using assms(3) j(1) by simp
qed

lemma popped_dirs_finished:
  assumes inv: "popped_inv h ts0 r (i, p, t) ps cs ts qs" and ok: "trees_ok ts0"
    and t0: "map_of ts0 p = Some t0" "wf_tree t0" "t = partial h ts0 (unfinished ((i, p, t) # cs @ ps) ts) p t0"
    and none: "\<forall>e\<in>set t. mode_is_tree (ent_mode e) \<longrightarrow> map_of ts (push_path_component p (ent_filename e)) = None"
    and e: "e \<in> set t0" "mode_is_tree (ent_mode e)"
  shows "push_path_component p (ent_filename e) \<notin> unfinished ((i, p, t) # cs @ ps) ts"
proof
  let ?U = "unfinished ((i, p, t) # cs @ ps) ts" and ?q = "push_path_component p (ent_filename e)"
  assume q: "?q \<in> ?U"
  have n: "good_name (ent_filename e)" using t0(2) e(1) by (rule wf_tree_names)
  have dist: "p \<notin> node_path ` set ps" using inv by (auto simp: popped_inv_def content_def node_path_def)
  have links: "linked_parents ts0 r ps" using inv by (simp add: popped_inv_def)
  have "update_dir h ts0 ?U p e = [e]" using q by (simp add: update_dir_def finished_dir_def)
  then have "e \<in> set (partial h ts0 ?U p t0)" using e(1) by (force simp: partial_def)
  then have "?q \<notin> dom (map_of ts)" using none e(2) t0(3) by auto
  moreover have "?q \<noteq> p" by (rule push_neq [OF n])
  moreover have "?U = insert p (node_path ` set (cs @ ps)) \<union> dom (map_of ts)" by (simp add: unfinished_def node_path_def)
  ultimately have "?q \<in> node_path ` set (cs @ ps)" using q by blast
  then obtain m where "?q = node_path m" "m \<in> set (cs @ ps)" by (rule imageE)
  then have m: "m \<in> set cs \<or> m \<in> set ps" "node_path m = ?q" by simp_all
  have nl: "\<not> linked ts0 ps m" using linked_not_below [OF _ ok dist n, of m] m(2) by blast
  moreover have "\<forall>c\<in>set cs. linked ts0 ps c" using inv by (simp add: popped_inv_def list_all_iff)
  ultimately have "m \<in> set ps \<and> \<not> linked ts0 ps m" using m(1) by blast
  then obtain k where k: "k < length ps" "m = ps ! k" "\<not> linked ts0 ps (ps ! k)" by (auto simp: in_set_conv_nth)
  then have "k = 0" using linked_parents_nth [OF links, of k] linked_mono [of ts0 k ps "ps ! k"] by (cases "k = 0") simp_all
  then have "node_path m = r" using linked_parents_root [OF links] k(1,2) by simp
  moreover have "linked ts0 ps (i, p, t)" using inv k(1) by (auto simp: popped_inv_def split: if_splits)
  then have "length r < length p"
    using linked_longer [of ts0 ps "(i, p, t)" r] ok linked_parents_longer [OF links ok] by (simp add: node_path_def)
  ultimately show False using m(2) push_longer [OF n, of p] by simp
qed

lemma popped_written:
  assumes inv: "popped_inv h ts0 r (i, p, t) ps cs ts qs" and ok: "trees_ok ts0"
    and none: "\<forall>e\<in>set t. mode_is_tree (ent_mode e) \<longrightarrow> map_of ts (push_path_component p (ent_filename e)) = None"
  obtains t0 where "map_of ts0 p = Some t0" "keep_ids t = written h ts0 p"
    "\<forall>e\<in>set t0. mode_is_tree (ent_mode e) \<longrightarrow> push_path_component p (ent_filename e) \<notin> unfinished ((i, p, t) # cs @ ps) ts"
proof -
  have c: "content h ts0 ((i, p, t) # cs @ ps) ts qs" using inv by (simp add: popped_inv_def)
  obtain t0 where t0: "map_of ts0 p = Some t0" "wf_tree t0" "t = partial h ts0 (unfinished ((i, p, t) # cs @ ps) ts) p t0" "wf_tree t"
    by (rule content_node [OF c, of i p t, OF _ ok]) simp
  note d = popped_dirs_finished [OF inv ok t0(1-3) none]
  have "partial h ts0 (unfinished ((i, p, t) # cs @ ps) ts) p t0 = partial h ts0 {} p t0"
    using d by (intro partial_cong) simp
  then have "keep_ids t = written h ts0 p" using written_partial [OF t0(1,2)] t0(3) by simp
  then show ?thesis using that t0(1) d by blast
qed

lemma node_path_set_parent [simp]: "map node_path (set_parent_tree ps j t) = map node_path ps"
proof (cases "j < length ps")
  case True
  have "node_path (case ps ! j of (i, p, _) \<Rightarrow> (i, p, t)) = node_path (ps ! j)" by (simp add: node_path_def split: prod.split)
  then have "(map node_path ps)[j := node_path (case ps ! j of (i, p, _) \<Rightarrow> (i, p, t))] = map node_path ps"
    using True by (metis list_update_id nth_map)
  then show ?thesis by (simp add: set_parent_tree_def map_update)
qed (simp add: set_parent_tree_def list_update_beyond)

text \<open>Finishing the tree at \<open>p\<close>, a directory of the tree at \<open>q\<close>, changes no other tree.\<close>

lemma partial_finish_other:
  assumes "p = push_path_component q n" "good_name n" "x \<noteq> q" "wf_tree t"
  shows "partial h ts0 (U - {p}) x t = partial h ts0 U x t"
proof (rule partial_cong)
  fix e assume "e \<in> set t"
  then have "good_name (ent_filename e)" using assms(4) wf_tree_names by blast
  then have "push_path_component x (ent_filename e) \<noteq> p" using push_inject [of "ent_filename e" n x q] assms(1-3) by auto
  then show "push_path_component x (ent_filename e) \<in> U - {p} \<longleftrightarrow> push_path_component x (ent_filename e) \<in> U" by simp
qed

lemma finish_nodes:
  assumes c: "content h ts0 ((i, p, t) # cs @ ps) ts qs" and ok: "trees_ok ts0"
    and j: "j < length ps" "ps ! j = (i', q, tq)" "map_of ts0 q = Some tq0" "p = push_path_component q n" "good_name n"
    and U: "U = unfinished ((i, p, t) # cs @ ps) ts"
    and m: "(k, x, tx) \<in> set (cs @ set_parent_tree ps j (partial h ts0 (U - {p}) q tq0))"
  shows "\<exists>t0. map_of ts0 x = Some t0 \<and> tx = partial h ts0 (U - {p}) x t0"
proof (cases "x = q")
  case True
  let ?ps = "set_parent_tree ps j (partial h ts0 (U - {p}) q tq0)"
  have at: "?ps ! j = (i', q, partial h ts0 (U - {p}) q tq0)" using j(1,2) by (simp add: set_parent_tree_def)
  have "distinct (map node_path (cs @ ps))" using c by (simp add: content_def)
  then have "distinct (map node_path (cs @ ?ps))" by (simp only: map_append node_path_set_parent)
  then have "inj_on node_path (set (cs @ ?ps))" by (simp only: distinct_map)
  moreover have "j < length ?ps" using j(1) by (simp add: set_parent_tree_def)
  then have "?ps ! j \<in> set (cs @ ?ps)" using nth_mem by fastforce
  moreover have "node_path (k, x, tx) = node_path (?ps ! j)" using True at by (simp add: node_path_def)
  ultimately have "(k, x, tx) = ?ps ! j" using m by (simp only: inj_on_def)
  then show ?thesis using at j(3) by simp
next
  case False
  then have m': "(k, x, tx) \<in> set ((i, p, t) # cs @ ps)"
    using m j(1,2) by (auto simp: set_parent_tree_def dest: set_update_subset_insert [THEN subsetD])
  obtain t1 where "map_of ts0 x = Some t1" "wf_tree t1" "tx = partial h ts0 U x t1" "wf_tree tx"
    unfolding U by (rule content_node [OF c m' ok])
  then show ?thesis using partial_finish_other [OF j(4,5) False, of t1] ok by (simp add: trees_ok_def)
qed

text \<open>Whatever is reached from a finished tree is finished.\<close>

lemma content_closed:
  assumes "content h ts0 nodes ts qs" "reached ts0 a q" "map_of ts0 a \<noteq> None" "a \<notin> unfinished nodes ts"
  shows "map_of ts0 q \<noteq> None \<and> q \<notin> unfinished nodes ts"
  using assms(2)
proof (induction rule: reached.induct)
  case (reached_dir p x e)
  then have "\<forall>e\<in>set x. mode_is_tree (ent_mode e) \<longrightarrow> push_path_component p (ent_filename e) \<notin> unfinished nodes ts"
    using assms(1) unfolding content_def by blast
  with reached_dir show ?case by blast
qed (use assms in simp)

text \<open>Taking the finished tree at \<open>p\<close> away, with its parent, at \<open>q\<close>, among the nodes that are left.\<close>

lemma content_finish:
  assumes c: "content h ts0 ((i, p, t) # nodes) ts qs" and ok: "trees_ok ts0" and t0: "map_of ts0 p = Some t0"
    and q: "q \<in> node_path ` set nodes" "p = push_path_component q n" "good_name n"
    and U: "U = unfinished ((i, p, t) # nodes) ts"
    and nodes': "map node_path nodes' = map node_path nodes"
      "\<And>k x tx. (k, x, tx) \<in> set nodes' \<Longrightarrow> \<exists>t0. map_of ts0 x = Some t0 \<and> tx = partial h ts0 (U - {p}) x t0"
    and log: "qs' = (if written h ts0 p = [] then qs else qs @ [p])"
    and dirs: "\<forall>e\<in>set t0. mode_is_tree (ent_mode e) \<longrightarrow> push_path_component p (ent_filename e) \<notin> U"
  shows "content h ts0 nodes' ts qs'"
proof -
  have dist: "distinct (map node_path nodes)" "p \<notin> node_path ` set nodes" "p \<notin> dom (map_of ts)"
    "node_path ` set nodes \<inter> dom (map_of ts) = {}" using c by (auto simp: content_def node_path_def)
  have set_paths: "node_path ` set nodes' = node_path ` set nodes" using nodes'(1) by (metis set_map)
  have U': "unfinished nodes' ts = U - {p}"
    unfolding U unfinished_def set_paths using dist(2,3) by (simp add: node_path_def insert_Diff_if)
  have waiting: "push_path_component y (ent_filename e) \<in> U - {p}"
    if y: "map_of ts y = Some x" "e \<in> set x" "mode_is_tree (ent_mode e)" "map_of ts0 (push_path_component y (ent_filename e)) \<noteq> None"
    for y x e
  proof -
    have "map_of ts0 y = Some x" using c y(1) by (simp add: content_def)
    then have "good_name (ent_filename e)" using ok y(2) wf_tree_names by (auto simp: trees_ok_def)
    moreover have "y \<noteq> q" using q(1) y(1) dist(4) by blast
    ultimately have "push_path_component y (ent_filename e) \<noteq> p" using push_inject [of "ent_filename e" n y q] q(2,3) by auto
    then show ?thesis using c y unfolding content_def U by blast
  qed
  have finished: "(written h ts0 y = [] \<or> y \<in> set qs') \<and>
      (\<forall>e\<in>set x. mode_is_tree (ent_mode e) \<longrightarrow> push_path_component y (ent_filename e) \<notin> U - {p})"
    if y: "map_of ts0 y = Some x" "y \<notin> U - {p}" for y x
  proof (cases "y = p")
    case True
    then show ?thesis using y(1) t0 log dirs by auto
  next
    case False
    then have "(written h ts0 y = [] \<or> y \<in> set qs) \<and>
        (\<forall>e\<in>set x. mode_is_tree (ent_mode e) \<longrightarrow> push_path_component y (ent_filename e) \<notin> U)"
      using c y unfolding content_def U by blast
    then show ?thesis using log by auto
  qed
  have old: "distinct qs" "sorted_wrt (\<lambda>a b. \<not> reached ts0 a b) qs"
      "\<forall>q\<in>set qs. written h ts0 q \<noteq> [] \<and> map_of ts0 q \<noteq> None \<and> q \<notin> U"
    using c unfolding content_def U by blast+
  have p: "p \<in> U" by (simp add: U unfinished_def node_path_def)
  have "\<not> reached ts0 a p" if "a \<in> set qs" for a
    using content_closed [OF c, folded U, of a p] that old(3) p by blast
  then have "distinct qs'" "sorted_wrt (\<lambda>a b. \<not> reached ts0 a b) qs'"
      "\<forall>q\<in>set qs'. written h ts0 q \<noteq> [] \<and> map_of ts0 q \<noteq> None \<and> q \<notin> U - {p}"
    using log t0 old p by (auto simp: sorted_wrt_append)
  moreover have "distinct (map node_path nodes')" "node_path ` set nodes' \<inter> dom (map_of ts) = {}"
    "\<forall>q x. map_of ts q = Some x \<longrightarrow> map_of ts0 q = Some x"
    using nodes'(1) set_paths dist(1,4) c by (simp_all add: content_def)
  ultimately show ?thesis using nodes'(2) waiting finished unfolding content_def U' by blast
qed

text \<open>The waiting nodes are reached from the root.\<close>

lemma linked_reached:
  assumes "linked ts0 ps n" "map_of ts0 (node_path n) \<noteq> None" "\<forall>k<length ps. reached ts0 r (node_path (ps ! k))"
  shows "reached ts0 r (node_path n)"
proof -
  from assms(1) obtain j e t0 where j: "j < length ps" "map_of ts0 (node_path (ps ! j)) = Some t0" "e \<in> set t0"
    "mode_is_tree (ent_mode e)" "node_path n = push_path_component (node_path (ps ! j)) (ent_filename e)" unfolding linked_def by blast
  have "reached ts0 r (push_path_component (node_path (ps ! j)) (ent_filename e))"
    by (rule reached_dir [OF _ j(2,3,4)]) (use assms(2,3) j(1,5) in auto)
  then show ?thesis using j(5) by simp
qed

lemma linked_parents_reached:
  assumes "linked_parents ts0 r ps" "\<forall>n\<in>set ps. map_of ts0 (node_path n) \<noteq> None"
  shows "k < length ps \<Longrightarrow> reached ts0 r (node_path (ps ! k))"
proof (induction k rule: less_induct)
  case (less k)
  show ?case
  proof (cases "k = 0")
    case True
    then show ?thesis using linked_parents_root [OF assms(1)] less.prems reached_root by simp
  next
    case False
    then have "linked ts0 (take k ps) (ps ! k)" using linked_parents_nth [OF assms(1)] less.prems by simp
    then show ?thesis by (rule linked_reached) (use assms(2) less in auto)
  qed
qed

lemma popped_reached:
  assumes inv: "popped_inv h ts0 r (Some j, p, t) ps cs ts qs" and ok: "trees_ok ts0"
  shows "reached ts0 r p"
proof -
  have c: "content h ts0 ((Some j, p, t) # cs @ ps) ts qs" and l: "linked_parents ts0 r ps" "linked ts0 ps (Some j, p, t)"
    using inv by (simp_all add: popped_inv_def)
  have loaded: "map_of ts0 (node_path n) \<noteq> None" if "n \<in> set ((Some j, p, t) # cs @ ps)" for n
  proof (cases n)
    case (fields i q x)
    show ?thesis by (rule content_node [OF c, of i q x, OF _ ok]) (use that fields in \<open>simp_all add: node_path_def\<close>)
  qed
  have "\<forall>k<length ps. reached ts0 r (node_path (ps ! k))" using linked_parents_reached [OF l(1)] loaded by simp
  from linked_reached [OF l(2) _ this] show ?thesis using loaded [of "(Some j, p, t)"] by (simp add: node_path_def)
qed

subsection \<open>The loop\<close>

text \<open>The callback records the trees it is given and names them with \<open>h\<close>.\<close>

definition recording :: "(object_id tree \<Rightarrow> object_id) \<Rightarrow> (object_id tree list, 'e) tree_out" where
  "recording h s t = (s @ [t], Ok (h t))"

lemma linked_cong:
  assumes "map node_path ps = map node_path qs" "fst m = fst n" "node_path m = node_path n"
  shows "linked ts0 ps m = linked ts0 qs n"
proof -
  have len: "length ps = length qs" using assms(1) by (rule map_eq_imp_length_eq)
  have "node_path (ps ! j) = node_path (qs ! j)" if "j < length qs" for j
    using that len assms(1) by (metis nth_map)
  then show ?thesis unfolding linked_def using assms(2,3) len by auto
qed

lemma linked_parents_cong:
  assumes "map (\<lambda>n. (fst n, node_path n)) ps = map (\<lambda>n. (fst n, node_path n)) qs"
  shows "linked_parents ts0 r ps = linked_parents ts0 r qs"
proof -
  have len: "length ps = length qs" using assms by (rule map_eq_imp_length_eq)
  have "map snd (map (\<lambda>n. (fst n, node_path n)) ps) = map snd (map (\<lambda>n. (fst n, node_path n)) qs)" using assms by simp
  then have paths: "map node_path ps = map node_path qs" by (simp add: comp_def)
  have "fst (ps ! k) = fst (qs ! k) \<and> node_path (ps ! k) = node_path (qs ! k)" if "k < length qs" for k
    using arg_cong [OF assms, of "\<lambda>l. l ! k"] that len by simp
  moreover have "map node_path (take k ps) = map node_path (take k qs)" for k using paths by (metis take_map)
  ultimately show ?thesis unfolding linked_parents_def using len linked_cong by (metis (no_types, lifting) length_greater_0_conv)
qed

lemma set_parent_tree_alike:
  "map (\<lambda>n. (fst n, node_path n)) (set_parent_tree ps j t) = map (\<lambda>n. (fst n, node_path n)) ps"
proof (cases "j < length ps")
  case True
  have "(\<lambda>n. (fst n, node_path n)) (case ps ! j of (i, p, _) \<Rightarrow> (i, p, t)) = (\<lambda>n. (fst n, node_path n)) (ps ! j)"
    by (simp add: node_path_def split: prod.split)
  then have eq: "(\<lambda>n. (fst n, node_path n)) (case ps ! j of (i, p, _) \<Rightarrow> (i, p, t)) = map (\<lambda>n. (fst n, node_path n)) ps ! j"
    using True by simp
  show ?thesis unfolding set_parent_tree_def map_update eq by (rule list_update_id)
qed (simp add: set_parent_tree_def list_update_beyond)

context bstr_spec
begin

lemma finish_child_step:
  assumes inv: "popped_inv h ts0 r (Some j, p, t) ps cs ts qs" and ok: "trees_ok ts0"
    and none: "\<forall>e\<in>set t. mode_is_tree (ent_mode e) \<longrightarrow> map_of ts (push_path_component p (ent_filename e)) = None"
  obtains qs' ps' where "finish_node bs (recording h :: (object_id tree list, 'e) tree_out) mode (Some j, p, t) ps ts (s @ map (written h ts0) qs) =
      Adjusted (s @ map (written h ts0) qs') ps'"
    "write_inv h ts0 r ps' cs ts qs'"
proof -
  let ?U = "unfinished ((Some j, p, t) # cs @ ps) ts"
  have c: "content h ts0 ((Some j, p, t) # cs @ ps) ts qs" and links: "linked_parents ts0 r ps" "list_all (linked ts0 ps) cs"
    using inv by (simp_all add: popped_inv_def)
  obtain t0 where t0: "map_of ts0 p = Some t0" "keep_ids t = written h ts0 p"
    "\<forall>e\<in>set t0. mode_is_tree (ent_mode e) \<longrightarrow> push_path_component p (ent_filename e) \<notin> ?U"
    by (rule popped_written [OF inv ok none])
  have "linked ts0 ps (Some j, p, t)" using inv by (simp add: popped_inv_def)
  then obtain e q0 where e: "j < length ps" "map_of ts0 (node_path (ps ! j)) = Some q0" "e \<in> set q0" "mode_is_tree (ent_mode e)"
    "p = push_path_component (node_path (ps ! j)) (ent_filename e)" by (auto simp: linked_def node_path_def)
  obtain i' q tq where q: "ps ! j = (i', q, tq)" by (cases "ps ! j")
  then have qp: "node_path (ps ! j) = q" by (simp add: node_path_def)
  have wf: "wf_tree q0" using ok e(2) by (simp add: trees_ok_def)
  have n: "good_name (ent_filename e)" using wf e(3) by (rule wf_tree_names)
  have "(i', q, tq) \<in> set ((Some j, p, t) # cs @ ps)" using q e(1) nth_mem [of j ps] by simp
  from content_node [OF c this ok] have tq: "tq = partial h ts0 ?U q q0" using e(2) qp by auto
  have U: "p \<in> ?U" by (simp add: unfinished_def node_path_def)
  obtain idx where idx: "binary_search_by (\<lambda>x. cmp_entry_with_name x (ent_filename e) True) tq = Ok idx"
    "written h ts0 p = [] \<Longrightarrow> vec_remove tq idx = partial h ts0 (?U - {p}) q q0"
    "written h ts0 p \<noteq> [] \<Longrightarrow> tq[idx := (tq ! idx)\<lparr>ent_oid := h (written h ts0 p)\<rparr>] = partial h ts0 (?U - {p}) q q0"
    by (rule search_unfinished [OF wf e(3,4) e(5) [unfolded qp, symmetric] U, where h = h and ts = ts0, folded tq])
      (use t0(1) in simp_all)
  let ?ps = "set_parent_tree ps j (partial h ts0 (?U - {p}) q q0)"
  let ?qs = "if written h ts0 p = [] then qs else qs @ [p]"
  have "path_filename bs p = ent_filename e" using e(5) path_filename_push [OF n] by simp
  then have run: "finish_node bs (recording h :: (object_id tree list, 'e) tree_out) mode (Some j, p, t) ps ts (s @ map (written h ts0) qs) =
      Adjusted (s @ map (written h ts0) ?qs) ?ps"
    using idx q e(1) t0(2) [unfolded keep_ids_def]
    by (simp add: finish_node_def finish_child_def get_at_def recording_def)
  have "q \<in> node_path ` set (cs @ ps)" using qp e(1) by (metis image_eqI nth_mem set_append UnCI)
  then have "content h ts0 (cs @ ?ps) ts ?qs"
    by (rule content_finish [OF c ok t0(1) _ e(5) [unfolded qp] n refl])
      (use finish_nodes [OF c ok e(1) q e(2) [unfolded qp] e(5) [unfolded qp] n refl] t0(3) in simp_all)
  moreover have "linked_parents ts0 r ?ps" using links(1) linked_parents_cong [OF set_parent_tree_alike] by simp
  moreover have "list_all (linked ts0 ?ps) cs"
    using links(2) linked_cong [OF node_path_set_parent refl refl] by (simp add: list_all_iff)
  moreover have "list_all (reached ts0 r) ?qs" using inv popped_reached [OF inv ok] by (simp add: popped_inv_def)
  moreover have "?ps \<noteq> []" using e(1) by (auto simp: set_parent_tree_def)
  ultimately have "write_inv h ts0 r ?ps cs ts ?qs" by (simp only: write_inv_def simp_thms)
  then show ?thesis by (rule that [OF run])
qed

end

text \<open>
  The trees handed out before the one at the root \<open>r\<close>: one for each loaded path below the root that is reached and whose tree is
  not empty, each path once, and no path before one that is reached from it.
\<close>

definition handed_out :: "(object_id tree \<Rightarrow> object_id) \<Rightarrow> trees \<Rightarrow> bytes \<Rightarrow> object_id tree list \<Rightarrow> bool" where
  "handed_out h ts0 r log \<longleftrightarrow>
     (\<exists>qs. log = map (written h ts0) qs \<and> distinct qs \<and> set qs = {q. reached ts0 r q \<and> q \<noteq> r \<and> written h ts0 q \<noteq> []} \<and>
        sorted_wrt (\<lambda>a b. \<not> reached ts0 a b) qs)"

lemma root_handed_out:
  assumes c: "content h ts0 [(i, r, t)] ts qs" and r: "map_of ts0 r = Some t0" and reach: "list_all (reached ts0 r) qs"
    and dirs: "\<forall>e\<in>set t0. mode_is_tree (ent_mode e) \<longrightarrow> push_path_component r (ent_filename e) \<notin> unfinished [(i, r, t)] ts"
  shows "handed_out h ts0 r (map (written h ts0) qs)"
proof -
  let ?U = "unfinished [(i, r, t)] ts"
  have fin: "(written h ts0 q = [] \<or> q \<in> set qs) \<and>
      (\<forall>e\<in>set x. mode_is_tree (ent_mode e) \<longrightarrow> push_path_component q (ent_filename e) \<notin> ?U)"
    if "map_of ts0 q = Some x" "q \<notin> ?U" for q x using c that unfolding content_def by blast
  have "q = r \<or> map_of ts0 q \<noteq> None \<and> q \<notin> ?U" if "reached ts0 r q" for q
    using that
  proof (induction rule: reached.induct)
    case (reached_dir p x e)
    then show ?case using fin [of p x] dirs r by auto
  qed simp
  then have "q = r \<or> written h ts0 q = [] \<or> q \<in> set qs" if "reached ts0 r q" for q
    using that fin by blast
  moreover have "r \<in> ?U" by (simp add: unfinished_def node_path_def)
  moreover have "distinct qs" "sorted_wrt (\<lambda>a b. \<not> reached ts0 a b) qs" "\<forall>q\<in>set qs. written h ts0 q \<noteq> [] \<and> q \<notin> ?U"
    using c by (simp_all add: content_def)
  moreover have "\<forall>q\<in>set qs. reached ts0 r q" using reach by (simp add: list_all_iff)
  ultimately show ?thesis unfolding handed_out_def by (intro exI [of _ qs]) blast
qed

context bstr_spec
begin

lemma write_loop_correct:
  assumes "write_inv h ts0 r ps cs ts qs" "trees_ok ts0"
  shows "\<exists>log' ts'. write_loop bs (recording h :: (object_id tree list, 'e) tree_out) mode ps cs ts (s @ map (written h ts0) qs) =
      (s @ log' @ [written h ts0 r],
       AList.update r (written h ts0 r) (case mode of WriteNormal \<Rightarrow> [] | FromCursor \<Rightarrow> ts'), Ok (h (written h ts0 r))) \<and>
    handed_out h ts0 r log' \<and> (\<forall>q. map_of ts' q = None \<or> map_of ts' q = map_of ts0 q)"
  using assms(1)
proof (induction "length cs + length ps + 2 * length ts" arbitrary: ps cs ts qs rule: less_induct)
  case less
  obtain n cs1 ps1 where pop: "pop_node cs ps = Some (n, cs1, ps1)" "popped_inv h ts0 r n ps1 cs1 ts qs"
    by (rule write_inv_pop [OF less.prems])
  obtain i p t where n: "n = (i, p, t)" by (cases n)
  note inv = pop(2) [unfolded n]
  obtain ts1 cs2 u where scan: "scan_entries p (length ps1) t ts cs1 True = (ts1, cs2, u)" by (metis prod_cases3)
  note run = write_loop.simps [of bs "recording h :: (object_id tree list, 'e) tree_out" mode ps cs ts "s @ map (written h ts0) qs"]
  have smaller: "length cs1 + length ps1 + 2 * length ts < length cs + length ps + 2 * length ts"
    using pop_node_length [OF pop(1)] by simp
  show ?case
  proof (cases u)
    case False
    have "length cs2 + length (ps1 @ [n]) + 2 * length ts1 < length cs + length ps + 2 * length ts"
      using scan_entries_shrinks [OF scan] pop_node_length [OF pop(1)] False by simp
    from less.hyps [OF this] popped_inv_scan [OF inv assms(2) scan]
    show ?thesis using run pop(1) n scan False by simp
  next
    case True
    then have same: "ts1 = ts" "cs2 = cs1" using scan_entries_shrinks [OF scan] by simp_all
    have c: "content h ts0 ((i, p, t) # cs1 @ ps1) ts qs" using inv by (simp add: popped_inv_def)
    have "wf_tree t" by (rule content_node [OF c, of i p t, OF _ assms(2)]) simp_all
    note w = wf_tree_scan [OF this]
    have none: "\<forall>e\<in>set t. mode_is_tree (ent_mode e) \<longrightarrow> map_of ts (push_path_component p (ent_filename e)) = None"
      by (rule scan_entries_spec [OF scan w [THEN conjunct1] w [THEN conjunct2]]) (simp add: same)
    show ?thesis
    proof (cases i)
      case (Some j)
      obtain qs1 ps2 where fin: "finish_node bs (recording h :: (object_id tree list, 'e) tree_out) mode (Some j, p, t) ps1 ts
          (s @ map (written h ts0) qs) = Adjusted (s @ map (written h ts0) qs1) ps2" "write_inv h ts0 r ps2 cs1 ts qs1"
        by (rule finish_child_step [OF inv [unfolded Some] assms(2) none])
      have "length cs1 + length ps2 + 2 * length ts < length cs + length ps + 2 * length ts"
        using finish_node_length [OF fin(1)] smaller by simp
      from less.hyps [OF this fin(2)] show ?thesis using run pop(1) n scan True same fin(1) Some by simp
    next
      case None
      then have root: "p = r" "ps1 = []" "cs1 = []" using inv by (simp_all add: popped_inv_def node_path_def)
      obtain t0 where t0: "map_of ts0 p = Some t0" "keep_ids t = written h ts0 p"
        "\<forall>e\<in>set t0. mode_is_tree (ent_mode e) \<longrightarrow> push_path_component p (ent_filename e) \<notin> unfinished ((i, p, t) # cs1 @ ps1) ts"
        by (rule popped_written [OF inv assms(2) none])
      have "finish_node bs (recording h :: (object_id tree list, 'e) tree_out) mode (i, p, t) ps1 ts (s @ map (written h ts0) qs) =
          Finished (s @ map (written h ts0) qs @ [written h ts0 r]) (AList.update r (written h ts0 r) (case mode of WriteNormal \<Rightarrow> [] | FromCursor \<Rightarrow> ts))
            (Ok (h (written h ts0 r)))"
        using None root t0(2) [unfolded keep_ids_def] by (simp add: finish_node_def finish_root_def recording_def Let_def)
      moreover have "handed_out h ts0 r (map (written h ts0) qs)"
        using root_handed_out [of h ts0 i r t ts qs t0] c t0 root inv by (simp add: popped_inv_def)
      moreover have "\<forall>q. map_of ts q = None \<or> map_of ts q = map_of ts0 q"
      proof
        fix q
        have "map_of ts q = Some x \<longrightarrow> map_of ts0 q = Some x" for x using c by (simp add: content_def)
        then show "map_of ts q = None \<or> map_of ts q = map_of ts0 q" by (cases "map_of ts q") simp_all
      qed
      ultimately show ?thesis using run pop(1) n scan True same by auto
    qed
  qed
qed

end

lemma write_inv_start:
  assumes "map_of ts0 r = Some t"
  shows "write_inv h ts0 r [(None, r, t)] [] (AList.delete r ts0) []"
proof -
  have m: "map_of (AList.delete r ts0) q = (if q = r then None else map_of ts0 q)" for q by (simp add: delete_conv')
  have U: "unfinished [(None, r, t)] (AList.delete r ts0) = dom (map_of ts0)"
    using assms m by (auto simp: unfinished_def node_path_def dom_def)
  have "update_dir h ts0 (dom (map_of ts0)) r e = [e]" for e by (auto simp: update_dir_def finished_dir_def)
  then have "partial h ts0 (dom (map_of ts0)) r t = t" by (intro partial_unchanged)
  then have "content h ts0 [(None, r, t)] (AList.delete r ts0) []"
    using assms m unfolding content_def U by (auto simp: node_path_def dom_def split: if_splits)
  then show ?thesis by (simp add: write_inv_def linked_parents_def node_path_def)
qed

lemma written_wf:
  assumes "trees_ok ts"
  shows "wf_tree (written h ts p) \<and> (\<forall>e\<in>set (written h ts p). \<not> object_id_is_null (ent_oid e))"
proof (cases "map_of ts p")
  case None
  then show ?thesis by (subst (1 2) written.simps) (simp add: wf_tree_Nil)
next
  case (Some t)
  then have "wf_tree t" using assms by (simp add: trees_ok_def)
  then show ?thesis
    unfolding written_partial [OF Some \<open>wf_tree t\<close>] using keep_ids_wf [OF partial_wf] by (simp add: keep_ids_def)
qed

text \<open>
  C1: writing an editor whose loaded trees are well formed and include the root, with a callback that accepts every tree, never
  panics.  The trees handed out are those the recursive definition gives: in every loaded tree the entries of loaded directories
  carry the ids of their written trees, directories that became empty and placeholders are gone.  Before the root, they are
  exactly the non-empty trees at the loaded paths that are reached from the root through directories: one for each of these paths, none
  twice, none for a loaded path that is not reached, and every directory before the trees that hold it.  The root comes last, and its id is
  the result.  All of them are sorted, without duplicate names and without null ids, and afterwards the editor holds
  the root as it was written and nothing else.
\<close>

theorem editor_write_refines_recursive_write:
  assumes "bstr_spec bs" and "editor_ok ed"
  shows "\<exists>log. editor_write bs (recording h :: (object_id tree list, 'e) tree_out) ed s =
      (s @ log @ [written h (ed_trees ed) []],
       ed\<lparr>ed_path_buf := [], ed_trees := [([], written h (ed_trees ed) [])]\<rparr>, Ok (h (written h (ed_trees ed) []))) \<and>
    handed_out h (ed_trees ed) [] log \<and>
    (\<forall>t\<in>set (log @ [written h (ed_trees ed) []]). wf_tree t \<and> (\<forall>e\<in>set t. \<not> object_id_is_null (ent_oid e)))"
proof -
  have ok: "trees_ok (ed_trees ed)" using assms(2) by (simp add: editor_ok_def)
  obtain t where t: "map_of (ed_trees ed) [] = Some t" using assms(2) by (auto simp: editor_ok_def)
  then have ne: "ed_trees ed \<noteq> []" by auto
  from bstr_spec.write_loop_correct [OF assms(1) write_inv_start [OF t] ok, where s = s and mode = WriteNormal and h = h and ?'e = 'e]
  obtain log where log: "write_loop bs (recording h :: (object_id tree list, 'e) tree_out) WriteNormal [(None, [], t)] []
        (AList.delete [] (ed_trees ed)) s =
      (s @ log @ [written h (ed_trees ed) []], [([], written h (ed_trees ed) [])], Ok (h (written h (ed_trees ed) [])))"
    "handed_out h (ed_trees ed) [] log" by auto
  have "wf_tree x \<and> (\<forall>e\<in>set x. \<not> object_id_is_null (ent_oid e))" if "x \<in> set (log @ [written h (ed_trees ed) []])" for x
    using that log(2) written_wf [OF ok] unfolding handed_out_def by auto
  with log t ne show ?thesis
    by (intro exI [of _ log]) (simp add: editor_write_def write_at_pathbuf_def path_hash_def)
qed

theorem editor_write_refines_recursive_write_witness:
  "\<exists>log. editor_write reference_bstr (recording (\<lambda>t. sample_id (word_of_nat (length t))) :: (object_id tree list, unit) tree_out)
        sample_loaded [] =
      (log @ [written (\<lambda>t. sample_id (word_of_nat (length t))) (ed_trees sample_loaded) []],
       sample_loaded\<lparr>ed_path_buf := [],
         ed_trees := [([], written (\<lambda>t. sample_id (word_of_nat (length t))) (ed_trees sample_loaded) [])]\<rparr>,
       Ok (sample_id 2)) \<and>
    handed_out (\<lambda>t. sample_id (word_of_nat (length t))) (ed_trees sample_loaded) [] log"
proof -
  have "wf_tree [\<lparr>ent_mode = 0x81a4, ent_filename = lit ''b'', ent_oid = sample_id 2\<rparr>]" by code_simp
  then have ok: "editor_ok sample_loaded"
    using sample_ok(1) by (auto simp: editor_ok_def sample_loaded_def trees_ok_def map_add_def split: option.splits)
  have "length (written (\<lambda>t. sample_id (word_of_nat (length t))) (ed_trees sample_loaded) []) = 2" by code_simp
  with editor_write_refines_recursive_write [OF ref_bstr.bstr_spec_axioms ok,
    of "\<lambda>t. sample_id (word_of_nat (length t))" "[]", where ?'e = unit]
  show ?thesis by auto
qed

end
