(* ===== verification/Gix_Numbers.thy ===== *)
theory Gix_Numbers
  imports Gix_External
begin

text \<open>
  Numbers in byte strings: the parser of \<^verbatim>\<open>gix-utils\<close> (\<^verbatim>\<open>src/gix-utils/src/btoi.rs\<close>), which is generic over the integer type it
  produces, and the exponential back-off of \<^verbatim>\<open>src/gix-utils/src/backoff.rs\<close>.  An integer type is its range, a value of
  it an \<open>int\<close> in that range, and the checked operations of the trait \<^verbatim>\<open>MinNumTraits\<close> give \<open>None\<close> outside.  The lemmas
  characterize exactly which byte strings are accepted and with which value.

  The decimal notation is what the crate \<^verbatim>\<open>itoa\<close> writes; it is an argument of the definitions that use it,
  with \<open>itoa_spec\<close> as its documented behaviour.
\<close>

section \<open>Integer types\<close>

record int_type =
  int_min :: int
  int_max :: int

definition u8_type :: int_type where "u8_type = \<lparr>int_min = 0, int_max = 2 ^ 8 - 1\<rparr>"
definition u64_type :: int_type where "u64_type = \<lparr>int_min = 0, int_max = 2 ^ 64 - 1\<rparr>"
definition usize_type :: int_type where "usize_type = \<lparr>int_min = 0, int_max = 2 ^ 64 - 1\<rparr>"
definition i32_type :: int_type where "i32_type = \<lparr>int_min = - (2 ^ 31), int_max = 2 ^ 31 - 1\<rparr>"
definition i64_type :: int_type where "i64_type = \<lparr>int_min = - (2 ^ 63), int_max = 2 ^ 63 - 1\<rparr>"

definition checked :: "int_type \<Rightarrow> int \<Rightarrow> int option" where
  "checked I n = (if int_min I \<le> n \<and> n \<le> int_max I then Some n else None)"

definition from_u32 :: "int_type \<Rightarrow> int \<Rightarrow> int option" where "from_u32 I n = checked I n"
definition checked_mul :: "int_type \<Rightarrow> int \<Rightarrow> int \<Rightarrow> int option" where "checked_mul I a b = checked I (a * b)"
definition checked_add :: "int_type \<Rightarrow> int \<Rightarrow> int \<Rightarrow> int option" where "checked_add I a b = checked I (a + b)"
definition checked_sub :: "int_type \<Rightarrow> int \<Rightarrow> int \<Rightarrow> int option" where "checked_sub I a b = checked I (a - b)"

section \<open>Parsing\<close>

datatype parse_integer_error = IntEmpty | IntInvalidDigit | IntOverflow | IntUnderflow

text \<open>\<^verbatim>\<open>char::to_digit\<close>.\<close>

definition to_digit :: "u8 \<Rightarrow> nat \<Rightarrow> nat option" where
  "to_digit c radix =
     (let d = (if is_ascii_digit c then Some (unat (c - 0x30))
               else if is_ascii_lowercase c then Some (unat (c - 0x61) + 10)
               else if is_ascii_uppercase c then Some (unat (c - 0x41) + 10) else None) in
      case d of Some n \<Rightarrow> if n < radix then Some n else None | None \<Rightarrow> None)"

definition digit_in :: "int_type \<Rightarrow> nat \<Rightarrow> u8 \<Rightarrow> int option" where
  "digit_in I radix c = (case to_digit c radix of None \<Rightarrow> None | Some d \<Rightarrow> from_u32 I (int d))"

fun to_unsigned_loop :: "int_type \<Rightarrow> nat \<Rightarrow> int \<Rightarrow> int \<Rightarrow> bytes \<Rightarrow> (int, parse_integer_error) outcome" where
  "to_unsigned_loop I radix base result [] = Ok result"
| "to_unsigned_loop I radix base result (c # cs) =
     (case digit_in I radix c of
        None \<Rightarrow> Err IntInvalidDigit
      | Some x \<Rightarrow>
          (case checked_mul I result base of
             None \<Rightarrow> Err IntOverflow
           | Some result \<Rightarrow>
               (case checked_add I result x of
                  None \<Rightarrow> Err IntOverflow
                | Some result \<Rightarrow> to_unsigned_loop I radix base result cs)))"

definition to_unsigned_with_radix :: "int_type \<Rightarrow> bytes \<Rightarrow> nat \<Rightarrow> (int, parse_integer_error) outcome" where
  "to_unsigned_with_radix I bytes radix =
     (if \<not> (2 \<le> radix \<and> radix \<le> 36) then Panic
      else case from_u32 I (int radix) of
        None \<Rightarrow> Panic
      | Some base \<Rightarrow> if bytes = [] then Err IntEmpty else to_unsigned_loop I radix base 0 bytes)"

definition to_unsigned :: "int_type \<Rightarrow> bytes \<Rightarrow> (int, parse_integer_error) outcome" where
  "to_unsigned I bytes = to_unsigned_with_radix I bytes 10"

fun to_signed_loop :: "int_type \<Rightarrow> nat \<Rightarrow> int \<Rightarrow> int \<Rightarrow> bytes \<Rightarrow> (int, parse_integer_error) outcome" where
  "to_signed_loop I radix base result [] = Ok result"
| "to_signed_loop I radix base result (c # cs) =
     (case digit_in I radix c of
        None \<Rightarrow> Err IntInvalidDigit
      | Some x \<Rightarrow>
          (case checked_mul I result base of
             None \<Rightarrow> Err IntUnderflow
           | Some result \<Rightarrow>
               (case checked_sub I result x of
                  None \<Rightarrow> Err IntUnderflow
                | Some result \<Rightarrow> to_signed_loop I radix base result cs)))"

definition to_signed_with_radix :: "int_type \<Rightarrow> bytes \<Rightarrow> nat \<Rightarrow> (int, parse_integer_error) outcome" where
  "to_signed_with_radix I bytes radix =
     (if \<not> (2 \<le> radix \<and> radix \<le> 36) then Panic
      else case from_u32 I (int radix) of
        None \<Rightarrow> Panic
      | Some base \<Rightarrow>
          (case bytes of
             [] \<Rightarrow> Err IntEmpty
           | c # cs \<Rightarrow>
               if c = 0x2b then to_unsigned_with_radix I cs radix
               else if c = 0x2d then (if cs = [] then Err IntEmpty else to_signed_loop I radix base 0 cs)
               else to_unsigned_with_radix I bytes radix))"

definition to_signed :: "int_type \<Rightarrow> bytes \<Rightarrow> (int, parse_integer_error) outcome" where
  "to_signed I bytes = to_signed_with_radix I bytes 10"

section \<open>Back-off\<close>

text \<open>
  Durations are milliseconds; \<^verbatim>\<open>usize\<close> arithmetic stays far from overflow because the multiplier is capped after
  every step.  The transformation of the wait may differ from call to call: \<open>randomize r\<close> is the call for which the
  random number generator gave \<open>r\<close>, a number from 750 to 1250.
\<close>

definition randomize :: "nat \<Rightarrow> nat \<Rightarrow> nat" where
  "randomize r backoff_ms = (let new_value = (r * backoff_ms) div 1000 in if new_value = 0 then backoff_ms else new_value)"

record exponential =
  multiplier :: nat
  max_multiplier :: nat
  exponent :: nat

definition exponential_default :: exponential where
  "exponential_default = \<lparr>multiplier = 1, max_multiplier = 1000, exponent = 1\<rparr>"

definition exponential_next :: "(nat \<Rightarrow> nat) \<Rightarrow> exponential \<Rightarrow> nat \<times> exponential" where
  "exponential_next transform s =
     (let wait = transform (multiplier s);
          s = s\<lparr>multiplier := multiplier s + (2 * exponent s + 1)\<rparr> in
      (wait, if multiplier s > max_multiplier s then s\<lparr>multiplier := max_multiplier s\<rparr> else s\<lparr>exponent := exponent s + 1\<rparr>))"

text \<open>The iterator with its captured variables: the time that has elapsed and whether to stop.\<close>

definition until_no_remaining_next ::
    "(nat \<Rightarrow> nat) \<Rightarrow> nat \<Rightarrow> exponential \<times> nat \<times> bool \<Rightarrow> nat option \<times> exponential \<times> nat \<times> bool" where
  "until_no_remaining_next transform time st =
     (case st of (s, elapsed, stop_next_iteration) \<Rightarrow>
        let (d, s) = exponential_next transform s in
        if stop_next_iteration then (None, s, elapsed, stop_next_iteration)
        else (Some d, s, elapsed + d, elapsed + d > time))"

text \<open>
  All durations of the iterator, from its \<open>k\<close>-th call on; \<open>transform k\<close> is the transformation in the \<open>k\<close>-th call.
  \<open>None\<close> means that the iterator did not end within \<open>fuel\<close> calls.
\<close>

fun until_no_remaining ::
    "nat \<Rightarrow> (nat \<Rightarrow> nat \<Rightarrow> nat) \<Rightarrow> nat \<Rightarrow> nat \<Rightarrow> exponential \<times> nat \<times> bool \<Rightarrow> nat list option" where
  "until_no_remaining 0 transform time k st = None"
| "until_no_remaining (Suc fuel) transform time k st =
     (case until_no_remaining_next (transform k) time st of
        (None, _) \<Rightarrow> Some []
      | (Some d, st) \<Rightarrow> map_option (Cons d) (until_no_remaining fuel transform time (Suc k) st))"

section \<open>Decimal notation\<close>

fun decimal :: "nat \<Rightarrow> bytes" where
  "decimal n = (if n < 10 then [0x30 + word_of_nat n] else decimal (n div 10) @ [0x30 + word_of_nat (n mod 10)])"

declare decimal.simps [simp del]

locale itoa_spec =
  fixes itoa :: "u64 \<Rightarrow> bytes"
  assumes itoa: "itoa n = decimal (unat n)"

definition reference_itoa :: "u64 \<Rightarrow> bytes" where "reference_itoa n = decimal (unat n)"

interpretation ref_itoa: itoa_spec reference_itoa
  by unfold_locales (simp add: reference_itoa_def)

section \<open>What is accepted\<close>

definition digit_values :: "nat \<Rightarrow> bytes \<Rightarrow> nat list option" where
  "digit_values radix cs = those (map (\<lambda>c. to_digit c radix) cs)"

definition value_from :: "nat \<Rightarrow> int \<Rightarrow> nat list \<Rightarrow> int" where
  "value_from radix acc ds = foldl (\<lambda>a d. a * int radix + int d) acc ds"

definition wf_int_type :: "int_type \<Rightarrow> bool" where
  "wf_int_type I = (int_min I \<le> 0 \<and> 36 \<le> int_max I)"

lemma int_types_wf:
  "wf_int_type u8_type" "wf_int_type u64_type" "wf_int_type usize_type" "wf_int_type i32_type" "wf_int_type i64_type"
  by (simp_all add: wf_int_type_def u8_type_def u64_type_def usize_type_def i32_type_def i64_type_def)

lemma value_from_simps [simp]:
  "value_from radix acc [] = acc" "value_from radix acc (d # ds) = value_from radix (acc * int radix + int d) ds"
  by (simp_all add: value_from_def)

lemma value_from_mono: "0 \<le> acc \<Longrightarrow> 0 < radix \<Longrightarrow> acc \<le> value_from radix acc ds"
proof (induction ds arbitrary: acc)
  case (Cons d ds)
  have "acc \<le> acc * int radix" using mult_left_mono [of 1 "int radix" acc] Cons.prems by simp
  then have "acc \<le> acc * int radix + int d" by simp
  also have "\<dots> \<le> value_from radix (acc * int radix + int d) ds" using Cons by simp
  finally show ?case by simp
qed simp

lemma digit_values_simps [simp]:
  "digit_values radix [] = Some []"
  "digit_values radix (c # cs) =
     (case to_digit c radix of None \<Rightarrow> None | Some d \<Rightarrow> map_option ((#) d) (digit_values radix cs))"
  by (simp_all add: digit_values_def split: option.split)

lemma to_digit_less: "to_digit c radix = Some d \<Longrightarrow> d < radix"
  by (auto simp: to_digit_def Let_def split: option.splits if_splits)

lemma digit_in_type:
  assumes "wf_int_type I" "radix \<le> 36"
  shows "digit_in I radix c = map_option int (to_digit c radix)"
proof (cases "to_digit c radix")
  case (Some d)
  then have "d < radix" by (rule to_digit_less)
  with Some assms show ?thesis by (simp add: digit_in_def from_u32_def checked_def wf_int_type_def)
qed (simp add: digit_in_def)

lemma checked_sign:
  assumes "wf_int_type I" "0 \<le> n"
  shows "checked I n = (if n \<le> int_max I then Some n else None)" "checked I (- n) = (if int_min I \<le> - n then Some (- n) else None)"
  using assms by (auto simp: checked_def wf_int_type_def)

lemma unsigned_step:
  assumes "wf_int_type I" "radix \<le> 36" "to_digit c radix = Some d" "0 \<le> acc"
  shows "to_unsigned_loop I radix (int radix) acc (c # cs) =
    (if acc * int radix + int d \<le> int_max I then to_unsigned_loop I radix (int radix) (acc * int radix + int d) cs
     else Err IntOverflow)"
proof -
  have n: "0 \<le> acc * int radix" using assms(4) by simp
  show ?thesis
    unfolding to_unsigned_loop.simps digit_in_type [OF assms(1,2)] assms(3) checked_mul_def checked_add_def
    using checked_sign(1) [OF assms(1) n] checked_sign(1) [OF assms(1), of "acc * int radix + int d"] n by simp
qed

lemma signed_step:
  assumes "wf_int_type I" "radix \<le> 36" "to_digit c radix = Some d" "0 \<le> acc"
  shows "to_signed_loop I radix (int radix) (- acc) (c # cs) =
    (if int_min I \<le> - (acc * int radix + int d) then to_signed_loop I radix (int radix) (- (acc * int radix + int d)) cs
     else Err IntUnderflow)"
proof -
  have n: "0 \<le> acc * int radix" using assms(4) by simp
  have sub: "- (acc * int radix) - int d = - (acc * int radix + int d)" by simp
  show ?thesis
    unfolding to_signed_loop.simps digit_in_type [OF assms(1,2)] assms(3) checked_mul_def checked_sub_def mult_minus_left
      checked_sign(2) [OF assms(1) n]
    using checked_sign(2) [OF assms(1), of "acc * int radix + int d"] n unfolding sub [symmetric] by simp
qed

lemma to_unsigned_loop_Ok:
  assumes "wf_int_type I" "0 < radix" "radix \<le> 36"
  shows "0 \<le> acc \<Longrightarrow> acc \<le> int_max I \<Longrightarrow> to_unsigned_loop I radix (int radix) acc cs = Ok v \<longleftrightarrow>
    (\<exists>ds. digit_values radix cs = Some ds \<and> v = value_from radix acc ds \<and> v \<le> int_max I)"
proof (induction cs arbitrary: acc)
  case (Cons c cs)
  show ?case
  proof (cases "to_digit c radix")
    case None
    then show ?thesis using assms by (simp add: digit_in_type)
  next
    case (Some d)
    let ?n = "acc * int radix + int d"
    have pos: "0 \<le> acc * int radix" "0 \<le> ?n" using Cons.prems by simp_all
    show ?thesis
    proof (cases "?n \<le> int_max I")
      case True
      then have step: "to_unsigned_loop I radix (int radix) acc (c # cs) = to_unsigned_loop I radix (int radix) ?n cs"
        by (subst unsigned_step [OF assms(1,3) Some Cons.prems(1)]) simp
      show ?thesis
        unfolding step Cons.IH [OF pos(2) True] using Some by (cases "digit_values radix cs") simp_all
    next
      case False
      then have "to_unsigned_loop I radix (int radix) acc (c # cs) = Err IntOverflow"
        by (subst unsigned_step [OF assms(1,3) Some Cons.prems(1)]) simp
      moreover have "\<not> value_from radix ?n ds \<le> int_max I" for ds
        using value_from_mono [OF pos(2) assms(2), of ds] False by simp
      ultimately show ?thesis using Some by (cases "digit_values radix cs") simp_all
    qed
  qed
qed auto

lemma to_signed_loop_Ok:
  assumes "wf_int_type I" "0 < radix" "radix \<le> 36"
  shows "0 \<le> acc \<Longrightarrow> int_min I \<le> - acc \<Longrightarrow> to_signed_loop I radix (int radix) (- acc) cs = Ok v \<longleftrightarrow>
    (\<exists>ds. digit_values radix cs = Some ds \<and> v = - value_from radix acc ds \<and> int_min I \<le> v)"
proof (induction cs arbitrary: acc)
  case (Cons c cs)
  show ?case
  proof (cases "to_digit c radix")
    case None
    then show ?thesis using assms by (simp add: digit_in_type)
  next
    case (Some d)
    let ?n = "acc * int radix + int d"
    have pos: "0 \<le> acc * int radix" "0 \<le> ?n" using Cons.prems by simp_all
    show ?thesis
    proof (cases "int_min I \<le> - ?n")
      case True
      then have step: "to_signed_loop I radix (int radix) (- acc) (c # cs) = to_signed_loop I radix (int radix) (- ?n) cs"
        by (subst signed_step [OF assms(1,3) Some Cons.prems(1)]) simp
      show ?thesis
        unfolding step Cons.IH [OF pos(2) True] using Some by (cases "digit_values radix cs") simp_all
    next
      case False
      then have "to_signed_loop I radix (int radix) (- acc) (c # cs) = Err IntUnderflow"
        by (subst signed_step [OF assms(1,3) Some Cons.prems(1)]) simp
      moreover have "\<not> int_min I \<le> - value_from radix ?n ds" for ds
        using value_from_mono [OF pos(2) assms(2), of ds] False by simp
      ultimately show ?thesis using Some by (cases "digit_values radix cs") simp_all
    qed
  qed
qed auto

lemma to_unsigned_with_radix_Ok:
  assumes "wf_int_type I" "2 \<le> radix" "radix \<le> 36"
  shows "to_unsigned_with_radix I bytes radix = Ok v \<longleftrightarrow>
    bytes \<noteq> [] \<and> (\<exists>ds. digit_values radix bytes = Some ds \<and> v = value_from radix 0 ds \<and> v \<le> int_max I)"
proof -
  have "from_u32 I (int radix) = Some (int radix)" using assms by (simp add: from_u32_def checked_def wf_int_type_def)
  moreover have "0 \<le> int_max I" "0 < radix" using assms by (simp_all add: wf_int_type_def)
  ultimately show ?thesis using assms to_unsigned_loop_Ok [OF assms(1) _ assms(3), of 0]
    by (simp add: to_unsigned_with_radix_def)
qed

lemma sign_no_digit: "to_digit 0x2b radix = None" "to_digit 0x2d radix = None"
  by (simp_all add: to_digit_def is_ascii_digit_def is_ascii_lowercase_def is_ascii_uppercase_def)

lemma unsigned_loop_not_Panic: "to_unsigned_loop I radix base acc cs \<noteq> Panic"
  by (induction I radix base acc cs rule: to_unsigned_loop.induct) (auto split: option.split)

lemma signed_loop_not_Panic: "to_signed_loop I radix base acc cs \<noteq> Panic"
  by (induction I radix base acc cs rule: to_signed_loop.induct) (auto split: option.split)

lemma to_signed_with_radix_not_Panic:
  assumes "wf_int_type I" "2 \<le> radix" "radix \<le> 36"
  shows "to_signed_with_radix I bytes radix \<noteq> Panic"
proof -
  have "from_u32 I (int radix) = Some (int radix)" using assms by (simp add: from_u32_def checked_def wf_int_type_def)
  then show ?thesis
    using assms unsigned_loop_not_Panic signed_loop_not_Panic
    by (auto simp: to_signed_with_radix_def to_unsigned_with_radix_def
      simp del: to_unsigned_loop.simps to_signed_loop.simps split: list.split)
qed

lemma to_signed_with_radix_Ok:
  assumes "wf_int_type I" "2 \<le> radix" "radix \<le> 36"
  shows "to_signed_with_radix I bytes radix = Ok v \<longleftrightarrow>
    (case bytes of [] \<Rightarrow> False | c # cs \<Rightarrow>
       if c = 0x2b then to_unsigned_with_radix I cs radix = Ok v
       else if c = 0x2d then cs \<noteq> [] \<and> (\<exists>ds. digit_values radix cs = Some ds \<and> v = - value_from radix 0 ds \<and> int_min I \<le> v)
       else to_unsigned_with_radix I bytes radix = Ok v)"
proof -
  have "from_u32 I (int radix) = Some (int radix)" using assms by (simp add: from_u32_def checked_def wf_int_type_def)
  moreover have "int_min I \<le> 0" "0 < radix" using assms by (simp_all add: wf_int_type_def)
  ultimately show ?thesis using assms to_signed_loop_Ok [OF assms(1) _ assms(3), of 0]
    by (simp add: to_signed_with_radix_def split: list.split)
qed

text \<open>
  C33: for each of the integer types the parser is used with, and every radix from 2 to 36, \<^verbatim>\<open>to_signed_with_radix\<close> accepts
  exactly an optional sign followed by at least one digit of the radix whose value is in the range of the type, with that value, and it never
  panics; no intermediate result is rejected when the number itself fits.
\<close>

theorem number_parser_accepts_exactly_representable:
  assumes "I \<in> {u8_type, u64_type, usize_type, i32_type, i64_type}" "2 \<le> radix" "radix \<le> 36"
  shows "(to_signed_with_radix I bytes radix = Ok v \<longleftrightarrow>
      (\<exists>sign cs ds. bytes = sign @ cs \<and> cs \<noteq> [] \<and> digit_values radix cs = Some ds \<and>
         (sign \<in> {[], [0x2b]} \<and> v = value_from radix 0 ds \<or> sign = [0x2d] \<and> v = - value_from radix 0 ds) \<and>
         int_min I \<le> v \<and> v \<le> int_max I)) \<and>
    to_signed_with_radix I bytes radix \<noteq> Panic"
proof -
  have wf: "wf_int_type I" using assms(1) int_types_wf by auto
  note Ok = to_signed_with_radix_Ok [OF wf assms(2,3)] and unsigned = to_unsigned_with_radix_Ok [OF wf assms(2,3)]
  have pos: "0 \<le> value_from radix 0 ds" for ds using value_from_mono [of 0 radix ds] assms(2) by simp
  have I: "int_min I \<le> 0" "0 \<le> int_max I" using wf by (simp_all add: wf_int_type_def)
  have "to_signed_with_radix I bytes radix = Ok v \<longleftrightarrow>
      (\<exists>sign cs ds. bytes = sign @ cs \<and> cs \<noteq> [] \<and> digit_values radix cs = Some ds \<and>
         (sign \<in> {[], [0x2b]} \<and> v = value_from radix 0 ds \<or> sign = [0x2d] \<and> v = - value_from radix 0 ds) \<and>
         int_min I \<le> v \<and> v \<le> int_max I)" (is "?l \<longleftrightarrow> ?r")
  proof
    assume l: ?l
    then obtain c cs where b: "bytes = c # cs" by (cases bytes) (simp_all add: Ok)
    consider "c = 0x2b" | "c = 0x2d" | "c \<noteq> 0x2b" "c \<noteq> 0x2d" by blast
    then show ?r
    proof cases
      case 1
      then show ?thesis using l b I pos by (intro exI [of _ "[c]"] exI [of _ cs]) (auto simp: Ok unsigned intro: order_trans)
    next
      case 2
      then obtain ds where "cs \<noteq> []" "digit_values radix cs = Some ds" "v = - value_from radix 0 ds" "int_min I \<le> v"
        using l b by (auto simp: Ok)
      then show ?thesis using 2 b I pos [of ds] by (intro exI [of _ "[c]"] exI [of _ cs] exI [of _ ds]) auto
    next
      case 3
      then obtain ds where "digit_values radix bytes = Some ds" "v = value_from radix 0 ds" "v \<le> int_max I"
        using l b by (auto simp: Ok unsigned simp del: digit_values_simps)
      then show ?thesis using b I pos [of ds] by (intro exI [of _ "[]"] exI [of _ bytes] exI [of _ ds]) (auto simp del: digit_values_simps)
    qed
  next
    assume ?r
    then obtain sign cs ds where r: "bytes = sign @ cs" "cs \<noteq> []" "digit_values radix cs = Some ds"
      "sign \<in> {[], [0x2b]} \<and> v = value_from radix 0 ds \<or> sign = [0x2d] \<and> v = - value_from radix 0 ds"
      "int_min I \<le> v" "v \<le> int_max I" by blast
    have "hd cs \<noteq> 0x2b" "hd cs \<noteq> 0x2d" using r(2,3) sign_no_digit by (cases cs; auto)+
    then show ?l using r by (cases cs) (auto simp: Ok unsigned simp del: digit_values_simps)
  qed
  then show ?thesis using to_signed_with_radix_not_Panic [OF wf assms(2,3)] by blast
qed

theorem number_parser_accepts_exactly_representable_witness:
  "to_signed_with_radix i32_type (lit ''-2147483648'') 10 = Ok (- 2147483648)"
proof -
  have "digit_values 10 (lit ''2147483648'') = Some [2,1,4,7,4,8,3,6,4,8]" by code_simp
  moreover have "- value_from 10 0 [2,1,4,7,4,8,3,6,4,8] = - 2147483648" by simp
  ultimately have "\<exists>sign cs ds. lit ''-2147483648'' = sign @ cs \<and> cs \<noteq> [] \<and> digit_values 10 cs = Some ds \<and>
      (sign \<in> {[], [0x2b]} \<and> - 2147483648 = value_from 10 0 ds \<or> sign = [0x2d] \<and> - 2147483648 = - value_from 10 0 ds) \<and>
      int_min i32_type \<le> - 2147483648 \<and> - 2147483648 \<le> int_max i32_type"
    by (intro exI [of _ "[0x2d]"] exI [of _ "lit ''2147483648''"] exI [of _ "[2,1,4,7,4,8,3,6,4,8]"])
      (simp_all add: i32_type_def)
  moreover have "i32_type \<in> {u8_type, u64_type, usize_type, i32_type, i64_type}" by simp
  ultimately show ?thesis
    using number_parser_accepts_exactly_representable [of i32_type 10 "lit ''-2147483648''" "- 2147483648"] by simp
qed

section \<open>Decimal notation is read back\<close>

lemma decimal_digit:
  assumes "d < 10"
  shows "to_digit (0x30 + word_of_nat d) 10 = Some d"
proof -
  have "list_all (\<lambda>d. to_digit (0x30 + word_of_nat d) 10 = Some d) [0..<10]" by code_simp
  then show ?thesis using assms by (simp add: list_all_iff)
qed

lemma digit_values_append:
  "digit_values radix (xs @ ys) =
     (case digit_values radix xs of None \<Rightarrow> None | Some a \<Rightarrow> map_option ((@) a) (digit_values radix ys))"
proof (induction xs)
  case Nil
  show ?case by (cases "digit_values radix ys") simp_all
next
  case (Cons x xs)
  then show ?case
    by (cases "to_digit x radix"; cases "digit_values radix xs"; cases "digit_values radix ys") simp_all
qed

lemma decimal_values: "\<exists>ds. digit_values 10 (decimal n) = Some ds \<and> value_from 10 0 ds = int n \<and> decimal n \<noteq> []"
proof (induction n rule: decimal.induct)
  case (1 n)
  show ?case
  proof (cases "n < 10")
    case True
    then show ?thesis by (subst (1 2) decimal.simps) (simp add: decimal_digit)
  next
    case False
    then obtain ds where ds: "digit_values 10 (decimal (n div 10)) = Some ds" "value_from 10 0 ds = int (n div 10)" using 1 by blast
    have "value_from 10 0 (ds @ [n mod 10]) = int (n div 10) * 10 + int (n mod 10)" using ds(2) by (simp add: value_from_def)
    also have "\<dots> = int n" by presburger
    finally show ?thesis using False ds(1)
      by (subst (1 2) decimal.simps) (simp add: digit_values_append decimal_digit)
  qed
qed

lemma to_signed_decimal:
  assumes "wf_int_type I" "int n \<le> int_max I"
  shows "to_signed I (decimal n) = Ok (int n)"
proof -
  obtain ds where ds: "digit_values 10 (decimal n) = Some ds" "value_from 10 0 ds = int n" "decimal n \<noteq> []"
    using decimal_values by blast
  then have u: "to_unsigned_with_radix I (decimal n) 10 = Ok (int n)" using assms by (simp add: to_unsigned_with_radix_Ok)
  obtain c cs where c: "decimal n = c # cs" using ds(3) by (cases "decimal n") auto
  then have "c \<noteq> 0x2b" "c \<noteq> 0x2d" using ds(1) sign_no_digit by auto
  then show ?thesis using u assms(1) c by (simp add: to_signed_def to_signed_with_radix_Ok)
qed

lemma decimal_no_nul: "c \<in> set (decimal n) \<Longrightarrow> c \<noteq> 0 \<and> c \<noteq> 0x20"
proof -
  have z: "to_digit 0 10 = None" "to_digit 0x20 10 = None"
    by (simp_all add: to_digit_def is_ascii_digit_def is_ascii_lowercase_def is_ascii_uppercase_def)
  obtain ds where "digit_values 10 (decimal n) = Some ds" using decimal_values by blast
  moreover have "digit_values 10 cs = Some ds \<Longrightarrow> \<forall>c\<in>set cs. to_digit c 10 \<noteq> None" for cs ds
    by (induction cs arbitrary: ds) (auto split: option.splits)
  ultimately have "\<forall>c\<in>set (decimal n). to_digit c 10 \<noteq> None" by blast
  then show "c \<in> set (decimal n) \<Longrightarrow> c \<noteq> 0 \<and> c \<noteq> 0x20" using z by metis
qed

section \<open>The back-off ends\<close>

lemma randomize_pos: "0 < m \<Longrightarrow> 0 < randomize r m"
  by (simp add: randomize_def Let_def)

text \<open>The multipliers are the squares up to the maximum.\<close>

definition backoff_state :: "nat \<Rightarrow> exponential" where
  "backoff_state k = \<lparr>multiplier = min ((k + 1) ^ 2) 1000, max_multiplier = 1000, exponent = min (k + 1) 31\<rparr>"

lemma backoff_state_0: "exponential_default = backoff_state 0"
  by (simp add: exponential_default_def backoff_state_def)

lemma square_le_1000: "(k :: nat) ^ 2 \<le> 1000 \<longleftrightarrow> k \<le> 31"
proof
  assume k: "k ^ 2 \<le> 1000"
  show "k \<le> 31"
  proof (rule ccontr)
    assume "\<not> k \<le> 31"
    then have "32 ^ 2 \<le> k ^ 2" by (intro power_mono) auto
    then show False using k by simp
  qed
next
  assume "k \<le> 31"
  then have "k ^ 2 \<le> 31 ^ 2" by (intro power_mono) auto
  then show "k ^ 2 \<le> 1000" by simp
qed

lemma exponential_next_state: "exponential_next t (backoff_state k) = (t (min ((k + 1) ^ 2) 1000), backoff_state (Suc k))"
proof (cases "k + 1 \<le> 31")
  case True
  then have k: "min ((k + 1) ^ 2) 1000 = (k + 1) ^ 2" "min (k + 1) 31 = k + 1" using square_le_1000 [of "k + 1"] by simp_all
  have sq: "(k + 1) ^ 2 + (2 * (k + 1) + 1) = (Suc k + 1) ^ 2" by (simp add: power2_eq_square)
  show ?thesis
  proof (cases "Suc k + 1 \<le> 31")
    case True
    then have "min ((Suc k + 1) ^ 2) 1000 = (Suc k + 1) ^ 2" "\<not> (Suc k + 1) ^ 2 > 1000"
      using square_le_1000 [of "Suc k + 1"] by simp_all
    then show ?thesis using k sq True by (simp add: exponential_next_def backoff_state_def Let_def del: power2_eq_square)
  next
    case False
    then have "k = 30" using \<open>k + 1 \<le> 31\<close> by simp
    then show ?thesis by (simp add: exponential_next_def backoff_state_def Let_def)
  qed
next
  case False
  then have "min ((k + 1) ^ 2) 1000 = 1000" "min ((Suc k + 1) ^ 2) 1000 = 1000"
    using square_le_1000 [of "k + 1"] square_le_1000 [of "Suc k + 1"] by simp_all
  then show ?thesis using False by (simp add: exponential_next_def backoff_state_def Let_def)
qed

lemma until_no_remaining_run:
  assumes pos: "\<And>k m. 0 < m \<Longrightarrow> 0 < transform k m" and "elapsed \<le> time" "time - elapsed + 1 < fuel"
  shows "\<exists>n. until_no_remaining fuel transform time k (backoff_state k, elapsed, False) =
       Some (map (\<lambda>i. transform i (min ((i + 1) ^ 2) 1000)) [k..<k + Suc n]) \<and>
     elapsed + (\<Sum>i\<leftarrow>[k..<k + n]. transform i (min ((i + 1) ^ 2) 1000)) \<le> time \<and>
     time < elapsed + (\<Sum>i\<leftarrow>[k..<k + Suc n]. transform i (min ((i + 1) ^ 2) 1000))"
  using assms(2,3)
proof (induction fuel arbitrary: k elapsed)
  case (Suc fuel)
  let ?t = "\<lambda>i. transform i (min ((i + 1) ^ 2) 1000)"
  have d: "0 < ?t k" by (rule pos) simp
  have nx: "until_no_remaining_next (transform k) time (backoff_state k, elapsed, False) =
      (Some (?t k), backoff_state (Suc k), elapsed + ?t k, elapsed + ?t k > time)"
    by (simp add: until_no_remaining_next_def exponential_next_state)
  show ?case
  proof (cases "elapsed + ?t k > time")
    case True
    obtain f where f: "fuel = Suc f" using Suc.prems by (cases fuel) auto
    have "until_no_remaining fuel transform time (Suc k) (backoff_state (Suc k), elapsed + ?t k, True) = Some []"
      by (simp add: f until_no_remaining_next_def exponential_next_state)
    then show ?thesis using True nx Suc.prems by (intro exI [of _ 0]) simp
  next
    case False
    then have "time - (elapsed + ?t k) + 1 < fuel" using d Suc.prems by linarith
    then obtain n where n: "until_no_remaining fuel transform time (Suc k) (backoff_state (Suc k), elapsed + ?t k, False) =
        Some (map ?t [Suc k..<Suc k + Suc n])"
      "elapsed + ?t k + (\<Sum>i\<leftarrow>[Suc k..<Suc k + n]. ?t i) \<le> time"
      "time < elapsed + ?t k + (\<Sum>i\<leftarrow>[Suc k..<Suc k + Suc n]. ?t i)"
      using Suc.IH [of "elapsed + ?t k" "Suc k"] False by auto
    have upt: "[k..<k + Suc m] = k # [Suc k..<Suc k + m]" for m by (simp add: upt_rec)
    have False': "\<not> time < elapsed + ?t k" using False by simp
    have "until_no_remaining (Suc fuel) transform time k (backoff_state k, elapsed, False) =
        Some (map ?t (k # [Suc k..<Suc k + Suc n]))"
      by (simp only: until_no_remaining.simps nx False' prod.case option.case n(1) list.map option.map)
    then show ?thesis using n(2,3)
      by (intro exI [of _ "Suc n"]) (simp only: upt list.map sum_list.Cons add.assoc simp_thms)
  qed
qed simp

text \<open>
  C34: the back-off iterator ends.  Whatever the transformation of the waits, as long as it never makes a positive wait
  zero (the randomization does not), the iteration from the default state stops after at most \<open>time + 1\<close> waits; the waits are the transformed
  squares capped at one second, in order, all but the last fit into the time, and the last one uses it up.
\<close>

theorem backoff_iteration_ends:
  assumes "\<forall>k m. 0 < m \<longrightarrow> 0 < transform k m" "time + 1 < fuel"
  shows "\<exists>n. until_no_remaining fuel transform time 0 (exponential_default, 0, False) =
       Some (map (\<lambda>i. transform i (min ((i + 1) ^ 2) 1000)) [0..<Suc n]) \<and>
     (\<Sum>i\<leftarrow>[0..<n]. transform i (min ((i + 1) ^ 2) 1000)) \<le> time \<and>
     time < (\<Sum>i\<leftarrow>[0..<Suc n]. transform i (min ((i + 1) ^ 2) 1000))"
  using until_no_remaining_run [of transform 0 time fuel 0] assms by (simp add: backoff_state_0)

theorem backoff_iteration_ends_witness:
  "\<exists>n. until_no_remaining 1002 (\<lambda>k. randomize (750 + k mod 501)) 1000 0 (exponential_default, 0, False) =
       Some (map (\<lambda>i. randomize (750 + i mod 501) (min ((i + 1) ^ 2) 1000)) [0..<Suc n]) \<and>
     (\<Sum>i\<leftarrow>[0..<n]. randomize (750 + i mod 501) (min ((i + 1) ^ 2) 1000)) \<le> 1000 \<and>
     1000 < (\<Sum>i\<leftarrow>[0..<Suc n]. randomize (750 + i mod 501) (min ((i + 1) ^ 2) 1000))"
  by (rule backoff_iteration_ends) (simp_all add: randomize_pos)

end
