(* ===== verification/Gix_Quote.thy ===== *)
theory Gix_Quote
  imports Gix_Numbers
begin

text \<open>
  Quoting of strings (\<^verbatim>\<open>src/gix-quote\<close>): wrapping into single quotes for Bourne shells and reading C-style quoted strings as git
  writes them.  The shell's reading of quotes and the grammar of quoted strings are the two specifications; what \<^verbatim>\<open>single\<close>
  writes is one shell word with the value, and \<^verbatim>\<open>ansi_c::undo\<close> accepts exactly the strings of the grammar.
\<close>

section \<open>single.rs\<close>

function single_loop :: "bstr \<Rightarrow> bytes \<Rightarrow> bytes \<Rightarrow> bytes or_panic" where
  "single_loop bs quoted value =
     (case find_byteset bs value [0x27, 0x21] of
        None \<Rightarrow> Some (quoted @ value @ [0x27])
      | Some pos \<Rightarrow>
          if pos < length value then
            single_loop bs (quoted @ take pos value @ [0x27, 0x5c] @ [value ! pos] @ [0x27]) (drop (pos + 1) value)
          else None)"
  by pat_completeness auto
termination by (relation "measure (\<lambda>(bs, quoted, value). length value)") auto

declare single_loop.simps [simp del]

definition single :: "bstr \<Rightarrow> bytes \<Rightarrow> bytes or_panic" where
  "single bs value = single_loop bs [0x27] value"

section \<open>ansi\_c.rs\<close>

datatype undo_message = SurroundedByQuotes | UnexpectedEnd | UnexpectedEndOctal | NumberMessage parse_integer_error

datatype undo_error = UndoInvalidInput undo_message bytes | UnsupportedEscapeByte u8 bytes

definition consume_one_past :: "bytes \<Rightarrow> nat \<Rightarrow> (u8 \<times> bytes, undo_error) outcome" where
  "consume_one_past input pos =
     (case get_range input (pos + 1) (length input) of
        None \<Rightarrow> Err (UndoInvalidInput UnexpectedEnd input)
      | Some input \<Rightarrow>
          (case input of
             [] \<Rightarrow> Err (UndoInvalidInput UnexpectedEnd input)
           | n # rest \<Rightarrow> Ok (n, rest)))"

text \<open>The escapes of one letter.\<close>

definition escape_byte :: "u8 \<Rightarrow> u8 option" where
  "escape_byte n =
     (if n = 0x6e then Some 0x0a
      else if n = 0x72 then Some 0x0d
      else if n = 0x74 then Some 0x09
      else if n = 0x61 then Some 7
      else if n = 0x62 then Some 8
      else if n = 0x76 then Some 0x0b
      else if n = 0x66 then Some 0x0c
      else if n = 0x22 then Some 0x22
      else if n = 0x5c then Some 0x5c
      else None)"

text \<open>An escape, behind its backslash: the byte it stands for, the rest of the input, and how many bytes more were consumed.\<close>

definition undo_escape :: "bytes \<Rightarrow> u8 \<Rightarrow> bytes \<Rightarrow> (u8 \<times> bytes \<times> nat, undo_error) outcome" where
  "undo_escape original n input =
     (case escape_byte n of
        Some b \<Rightarrow> Ok (b, input, 0)
      | None \<Rightarrow>
          if n \<in> {0x30, 0x31, 0x32, 0x33} then
            (case get_range input 0 2 of
               None \<Rightarrow> Err (UndoInvalidInput UnexpectedEndOctal input)
             | Some two \<Rightarrow>
                 and_then (map_err (\<lambda>e. UndoInvalidInput (NumberMessage e) original) (to_unsigned_with_radix u8_type (n # two) 8))
                   (\<lambda>byte. Ok (word_of_int byte, drop 2 input, 2)))
          else Err (UnsupportedEscapeByte n original))"

function undo_loop :: "bstr \<Rightarrow> bytes \<Rightarrow> bytes \<Rightarrow> nat \<Rightarrow> bytes \<Rightarrow> (bytes \<times> nat, undo_error) outcome" where
  "undo_loop bs original input consumed out =
     (case find_byteset bs input [0x22, 0x5c] of
        None \<Rightarrow> Ok (out @ input, consumed + length input)
      | Some pos \<Rightarrow>
          if pos < length input then
            (let out = out @ take pos input;
                 consumed = consumed + pos + 1 in
             if input ! pos = 0x22 then Ok (out, consumed)
             else if input ! pos = 0x5c then
               (case consume_one_past input pos of
                  Ok (n, rest) \<Rightarrow>
                    (case undo_escape original n rest of
                       Ok (b, rest, extra) \<Rightarrow>
                         if length rest < length input then undo_loop bs original rest (consumed + 1 + extra) (out @ [b]) else Panic
                     | Err e \<Rightarrow> Err e
                     | Panic \<Rightarrow> Panic)
                | Err e \<Rightarrow> Err e
                | Panic \<Rightarrow> Panic)
             else Panic)
          else Panic)"
  by pat_completeness auto
termination by (relation "measure (\<lambda>(bs, original, input, consumed, out). length input)") auto

declare undo_loop.simps [simp del]

text \<open>
  The comparison of lengths in \<open>undo_loop\<close> always succeeds (\<open>undo_escape_shorter\<close>); it makes the recursion evidently finite.
\<close>

definition undo :: "bstr \<Rightarrow> bytes \<Rightarrow> (bytes \<times> nat, undo_error) outcome" where
  "undo bs input =
     (if \<not> prefix [0x22] input then Ok (input, length input)
      else if length input < 2 then Err (UndoInvalidInput SurroundedByQuotes input)
      else undo_loop bs input (drop 1 input) 1 [])"

section \<open>Shell words\<close>

text \<open>
  What a Bourne shell makes of a word: outside of quotes only a quote or a backslash with the byte behind it may occur, as anything else could
  be expanded; inside, everything up to the next quote is literal, but an exclamation mark there starts a history expansion
  in some shells.
\<close>

fun shell_word :: "bool \<Rightarrow> bytes \<Rightarrow> bytes option" where
  "shell_word quoted [] = (if quoted then None else Some [])"
| "shell_word True (c # cs) =
     (if c = 0x27 then shell_word False cs else if c = 0x21 then None else map_option (Cons c) (shell_word True cs))"
| "shell_word False (c # cs) =
     (if c = 0x27 then shell_word True cs
      else if c = 0x5c then (case cs of [] \<Rightarrow> None | d # ds \<Rightarrow> map_option (Cons d) (shell_word False ds))
      else None)"

lemma shell_word_plain:
  "\<forall>c\<in>set xs. c \<notin> {0x27, 0x21} \<Longrightarrow> shell_word True (xs @ ys) = map_option ((@) xs) (shell_word True ys)"
proof (induction xs)
  case (Cons x xs)
  then show ?case by (cases "shell_word True ys") auto
qed (cases "shell_word True ys", simp_all)

context bstr_spec
begin

lemma single_loop_word: "\<exists>w. single_loop bs quoted val = Some (quoted @ w) \<and> shell_word True w = Some val"
proof (induction val arbitrary: quoted rule: length_induct)
  case (1 val)
  show ?case
  proof (cases "find_byteset bs val [0x27, 0x21]")
    case None
    then have "\<forall>c\<in>set val. c \<notin> {0x27, 0x21}" by (simp add: find_byteset)
    then have "shell_word True (val @ [0x27]) = Some val" by (simp add: shell_word_plain)
    then show ?thesis using None by (intro exI [of _ "val @ [0x27]"]) (simp add: single_loop.simps)
  next
    case (Some pos)
    then obtain ys y zs where v: "val = ys @ y # zs" "length ys = pos" "y \<in> {0x27, 0x21}" "\<forall>c\<in>set ys. c \<notin> {0x27, 0x21}"
      by (auto simp: find_byteset_Some)
    obtain w where w: "single_loop bs (quoted @ ys @ [0x27, 0x5c, y, 0x27]) zs = Some ((quoted @ ys @ [0x27, 0x5c, y, 0x27]) @ w)"
      "shell_word True w = Some zs" using 1 [rule_format, of zs] v(1) by fastforce
    have "single_loop bs quoted val = Some (quoted @ ys @ [0x27, 0x5c, y, 0x27] @ w)"
      using w(1) v(1,2) Some by (subst single_loop.simps) (simp add: nth_append)
    moreover have "shell_word True (ys @ [0x27, 0x5c, y, 0x27] @ w) = Some val"
      unfolding shell_word_plain [OF v(4)] using w(2) by (simp add: v(1))
    ultimately show ?thesis by blast
  qed
qed

end

text \<open>
  C35: for every value, quoting for the shell gives a word that the shell reads as exactly this value, with nothing outside of quotes that could be
  expanded and no exclamation mark inside of them; so no value can break out of its quotes.
\<close>

theorem single_quotes_for_shell:
  assumes "bstr_spec bs"
  shows "\<exists>word. single bs value = Some word \<and> shell_word False word = Some value"
  using bstr_spec.single_loop_word [OF assms, of "[0x27]" "value"] by (auto simp: single_def)

theorem single_quotes_for_shell_witness:
  "\<exists>word. single reference_bstr (lit ''it!'' @ [0x27, 0x3b]) = Some word \<and> shell_word False word = Some (lit ''it!'' @ [0x27, 0x3b])"
  by (rule single_quotes_for_shell) (rule ref_bstr.bstr_spec_axioms)

section \<open>Quoted strings\<close>

text \<open>The grammar: a body, and the bytes it stands for.\<close>

inductive ansi_body :: "bytes \<Rightarrow> bytes \<Rightarrow> bool" where
  ansi_empty: "ansi_body [] []"
| ansi_plain: "b \<notin> {0x22, 0x5c} \<Longrightarrow> ansi_body body v \<Longrightarrow> ansi_body (b # body) (b # v)"
| ansi_escape: "escape_byte e = Some b \<Longrightarrow> ansi_body body v \<Longrightarrow> ansi_body (0x5c # e # body) (b # v)"
| ansi_octal: "a \<in> {0x30, 0x31, 0x32, 0x33} \<Longrightarrow> digit_values 8 [a, b, c] = Some [x, y, z] \<Longrightarrow> ansi_body body v \<Longrightarrow>
    ansi_body (0x5c # a # b # c # body) (word_of_nat (64 * x + 8 * y + z) # v)"

lemma octal_no_escape: "a \<in> {0x30, 0x31, 0x32, 0x33} \<Longrightarrow> escape_byte a = None"
  by (auto simp: escape_byte_def)

lemma octal_value:
  assumes "a \<in> {0x30, 0x31, 0x32, 0x33}"
  shows "to_unsigned_with_radix u8_type [a, b, c] 8 = Ok k \<longleftrightarrow>
    (\<exists>x y z. digit_values 8 [a, b, c] = Some [x, y, z] \<and> k = int (64 * x + 8 * y + z))" (is "?l \<longleftrightarrow> ?r")
proof -
  have a: "to_digit a 8 = Some x \<Longrightarrow> x < 4" for x using assms by (auto simp: to_digit_def is_ascii_digit_def)
  have "value_from 8 0 [x, y, z] \<le> int_max u8_type" if "digit_values 8 [a, b, c] = Some [x, y, z]" for x y z
  proof -
    have "x < 4" "y < 8" "z < 8" using that a to_digit_less [of b 8] to_digit_less [of c 8] by (auto split: option.splits)
    then show ?thesis by (simp add: u8_type_def)
  qed
  moreover have "\<exists>x y z. ds = [x, y, z]" if "digit_values 8 [a, b, c] = Some ds" for ds
    using that by (auto split: option.splits)
  ultimately show ?thesis
    by (subst to_unsigned_with_radix_Ok) (auto simp: int_types_wf simp del: digit_values_simps)
qed

lemma undo_escape_Ok:
  "undo_escape original n rest = Ok (b, rest', k) \<longleftrightarrow>
     escape_byte n = Some b \<and> rest' = rest \<and> k = 0 \<or>
     n \<in> {0x30, 0x31, 0x32, 0x33} \<and> k = 2 \<and>
       (\<exists>c d x y z. rest = c # d # rest' \<and> digit_values 8 [n, c, d] = Some [x, y, z] \<and> b = word_of_nat (64 * x + 8 * y + z))"
proof (cases "n \<in> {0x30, 0x31, 0x32, 0x33}")
  case True
  note esc = octal_no_escape [OF True]
  show ?thesis
  proof (cases "\<exists>c d r. rest = c # d # r")
    case True
    then obtain c d r where r: "rest = c # d # r" by blast
    have "undo_escape original n rest = and_then (map_err (\<lambda>e. UndoInvalidInput (NumberMessage e) original)
        (to_unsigned_with_radix u8_type [n, c, d] 8)) (\<lambda>byte. Ok (word_of_int byte, r, 2))"
      using \<open>n \<in> _\<close> esc by (simp add: undo_escape_def r get_range_def numeral_2_eq_2)
    moreover have "map_err f m = Ok x \<longleftrightarrow> m = Ok x" for f :: "parse_integer_error \<Rightarrow> undo_error" and m and x :: int by (cases m) simp_all
    ultimately show ?thesis using esc \<open>n \<in> _\<close> r by (auto simp: and_then_Ok_iff octal_value simp del: digit_values_simps)
  next
    case False
    then have "length rest < 2" by (cases rest; cases "tl rest") auto
    then show ?thesis using \<open>n \<in> _\<close> esc False by (auto simp: undo_escape_def get_range_def)
  qed
qed (auto simp: undo_escape_def split: option.splits)

lemma undo_escape_shorter: "undo_escape original n rest = Ok (b, rest', k) \<Longrightarrow> length rest' \<le> length rest"
  by (auto simp: undo_escape_Ok)

lemma consume_one_past_shorter: "consume_one_past input p = Ok (n, rest) \<Longrightarrow> length rest < length input"
proof -
  assume "consume_one_past input p = Ok (n, rest)"
  then have "drop (p + 1) input = n # rest"
    by (auto simp: consume_one_past_def get_range_def split: list.splits if_splits)
  then have "length (drop (p + 1) input) = Suc (length rest)" by simp
  then show ?thesis by simp
qed

lemma undo_escape_not_Panic: "undo_escape original n rest \<noteq> Panic"
proof -
  have "to_unsigned_with_radix u8_type cs 8 \<noteq> Panic" for cs
    by (simp add: to_unsigned_with_radix_def from_u32_def checked_def u8_type_def unsigned_loop_not_Panic)
  moreover have "and_then (map_err f m) (\<lambda>x. Ok (g x)) = Panic \<longleftrightarrow> m = Panic"
    for f :: "parse_integer_error \<Rightarrow> undo_error" and m and g :: "int \<Rightarrow> u8 \<times> bytes \<times> nat" by (cases m) simp_all
  ultimately show ?thesis by (simp add: undo_escape_def split: option.split)
qed

context bstr_spec
begin

lemma undo_loop_Nil: "undo_loop bs original [] consumed out = Ok (out, consumed)"
  by (simp add: undo_loop.simps find_byteset)

lemma undo_loop_quote: "undo_loop bs original (0x22 # input) consumed out = Ok (out, consumed + 1)"
  by (simp add: undo_loop.simps find_byteset)

lemma undo_loop_escape:
  "undo_loop bs original (0x5c # input) consumed out =
     (case input of
        [] \<Rightarrow> Err (UndoInvalidInput UnexpectedEnd [])
      | n # rest \<Rightarrow>
          (case undo_escape original n rest of
             Ok (b, rest, k) \<Rightarrow> undo_loop bs original rest (consumed + 2 + k) (out @ [b])
           | Err e \<Rightarrow> Err e
           | Panic \<Rightarrow> Panic))"
  by (subst undo_loop.simps)
    (auto simp: find_byteset consume_one_past_def get_range_def dest: undo_escape_shorter split: list.split outcome.split)

lemma undo_loop_plain:
  assumes "b \<notin> {0x22, 0x5c}"
  shows "undo_loop bs original (b # input) consumed out = undo_loop bs original input (consumed + 1) (out @ [b])"
proof (cases "position (\<lambda>c. c \<in> {0x22, 0x5c}) input")
  case None
  then show ?thesis using assms by (simp add: undo_loop.simps find_byteset del: position_None)
next
  case (Some p)
  then have p: "p < length input" by (simp add: position_Some)
  then have c: "consume_one_past (b # input) (Suc p) = consume_one_past input p" "p < length input"
    by (simp_all add: consume_one_past_def get_range_def)
  have short: "length rest' < length input" if "consume_one_past input p = Ok (n, rest)" "undo_escape original n rest = Ok (e, rest', k)"
    for n rest e rest' k
    using consume_one_past_shorter [OF that(1)] undo_escape_shorter [OF that(2)] by simp
  have set: "set [0x22, 0x5c] = {0x22, 0x5c :: u8}" by simp
  have pos: "find_byteset bs input [0x22, 0x5c] = Some p" "find_byteset bs (b # input) [0x22, 0x5c] = Some (Suc p)"
    using Some assms by (simp_all only: find_byteset position.simps set) simp
  show ?thesis
    by (subst (1 2) undo_loop.simps, cases "consume_one_past input p")
      (use short in \<open>auto simp: pos p c Let_def less_SucI split: outcome.split\<close>)
qed

end

context bstr_spec
begin

lemma undo_loop_complete:
  assumes "ansi_body body v"
  shows "undo_loop bs original (body @ tail) consumed out = undo_loop bs original tail (consumed + length body) (out @ v)"
  using assms
proof (induction arbitrary: consumed out)
  case (ansi_plain b body v)
  then show ?case by (simp add: undo_loop_plain)
next
  case (ansi_escape e b body v)
  then have "undo_escape original e (body @ tail) = Ok (b, body @ tail, 0)" by (simp add: undo_escape_Ok)
  then show ?case using ansi_escape.IH by (simp add: undo_loop_escape)
next
  case (ansi_octal a b c x y z body v)
  then have "undo_escape original a (b # c # body @ tail) = Ok (word_of_nat (64 * x + 8 * y + z), body @ tail, 2)"
    unfolding undo_escape_Ok by blast
  then show ?case using ansi_octal.IH by (simp add: undo_loop_escape)
qed simp

lemma undo_loop_sound:
  assumes "undo_loop bs original input consumed out = Ok (r, n)"
  shows "\<exists>body v tail. ansi_body body v \<and> input = body @ tail \<and> (tail = [] \<or> (\<exists>t. tail = 0x22 # t))"
  using assms
proof (induction input arbitrary: consumed out rule: length_induct)
  case (1 input)
  show ?case
  proof (cases input)
    case Nil
    then show ?thesis using ansi_empty by blast
  next
    case (Cons b rest)
    consider "b = 0x22" | "b = 0x5c" | "b \<notin> {0x22, 0x5c}" by blast
    then show ?thesis
    proof cases
      case 1
      then show ?thesis using Cons ansi_empty by (metis append_Nil)
    next
      case 2
      then obtain e rest1 where r: "rest = e # rest1"
        using "1.prems" Cons by (cases rest) (simp_all add: undo_loop_escape)
      then obtain c rest2 k where c: "undo_escape original e rest1 = Ok (c, rest2, k)"
        "undo_loop bs original rest2 (consumed + 2 + k) (out @ [c]) = Ok (r, n)"
        using "1.prems" Cons 2 by (cases "undo_escape original e rest1") (auto simp: undo_loop_escape)
      have "length rest2 < length input" using undo_escape_shorter [OF c(1)] Cons r by simp
      then obtain body v tail where body: "ansi_body body v" "rest2 = body @ tail" "tail = [] \<or> (\<exists>t. tail = 0x22 # t)"
        using "1.IH" c(2) by blast
      show ?thesis using c(1) unfolding undo_escape_Ok
      proof (elim disjE conjE exE)
        assume "escape_byte e = Some c" "rest2 = rest1"
        then show ?thesis using ansi_escape [OF _ body(1)] body 2 Cons r by (metis append_Cons)
      next
        fix x y a b z assume "e \<in> {0x30, 0x31, 0x32, 0x33}" "rest1 = x # y # rest2" "digit_values 8 [e, x, y] = Some [a, b, z]"
        then show ?thesis using ansi_octal [OF _ _ body(1)] body 2 Cons r by (metis append_Cons)
      qed
    next
      case 3
      then have "undo_loop bs original rest (consumed + 1) (out @ [b]) = Ok (r, n)"
        using "1.prems" Cons by (simp add: undo_loop_plain)
      then obtain body v tail where "ansi_body body v" "rest = body @ tail" "tail = [] \<or> (\<exists>t. tail = 0x22 # t)"
        using "1.IH" Cons by (metis length_Cons lessI)
      then show ?thesis using ansi_plain [OF 3] Cons by (metis append_Cons)
    qed
  qed
qed

lemma undo_loop_Ok:
  "undo_loop bs original input consumed out = Ok (r, n) \<longleftrightarrow>
     (\<exists>body v tail. ansi_body body v \<and> input = body @ tail \<and> r = out @ v \<and>
       (tail = [] \<and> n = consumed + length body \<or> (\<exists>t. tail = 0x22 # t) \<and> n = consumed + length body + 1))" (is "?l \<longleftrightarrow> ?r")
proof
  assume l: ?l
  obtain body v tail where b: "ansi_body body v" "input = body @ tail" "tail = [] \<or> (\<exists>t. tail = 0x22 # t)"
    using undo_loop_sound [OF l] by blast
  have "undo_loop bs original tail (consumed + length body) (out @ v) = Ok (r, n)"
    using l undo_loop_complete [OF b(1)] b(2) by simp
  then show ?r using b
    by (intro exI [of _ body] exI [of _ v] exI [of _ tail]) (auto simp: undo_loop_Nil undo_loop_quote)
next
  assume ?r
  then obtain body v tail where b: "ansi_body body v" "input = body @ tail" "r = out @ v"
    "tail = [] \<and> n = consumed + length body \<or> (\<exists>t. tail = 0x22 # t) \<and> n = consumed + length body + 1" by blast
  show ?l unfolding b(2,3) undo_loop_complete [OF b(1)] using b(4) by (auto simp: undo_loop_Nil undo_loop_quote)
qed

lemma undo_loop_not_Panic: "undo_loop bs original input consumed out \<noteq> Panic"
proof (induction input arbitrary: consumed out rule: length_induct)
  case (1 input)
  show ?case
  proof (cases input)
    case (Cons b rest)
    consider "b = 0x22" | "b = 0x5c" | "b \<notin> {0x22, 0x5c}" by blast
    then show ?thesis
    proof cases
      case 2
      have "undo_loop bs original rest2 consumed' out' \<noteq> Panic"
        if "rest = e # rest1" "undo_escape original e rest1 = Ok (c, rest2, k)" for e rest1 c rest2 k consumed' out'
        using 1 Cons that undo_escape_shorter [OF that(2)] by simp
      then show ?thesis using 2 Cons undo_escape_not_Panic
        by (auto simp: undo_loop_escape split: list.split outcome.split)
    qed (use 1 Cons in \<open>auto simp: undo_loop_quote undo_loop_plain\<close>)
  qed (simp add: undo_loop_Nil)
qed

end

text \<open>
  C36: \<^verbatim>\<open>undo\<close> accepts exactly the strings of the grammar.  An input with a leading quote is accepted with a value and a
  count precisely when it is a body of the grammar for this value behind the quote, and the body is ended by a quote, which is counted, or by the end of the
  input; whatever follows the closing quote plays no role, input without a leading quote is returned as it is, and there is no panic.
\<close>

theorem undo_accepts_exactly_quoted:
  assumes "bstr_spec bs"
  shows "(undo bs (0x22 # input) = Ok (v, n) \<longleftrightarrow>
      input \<noteq> [] \<and> (\<exists>body tail. ansi_body body v \<and> input = body @ tail \<and>
        (tail = [] \<and> n = length body + 1 \<or> (\<exists>t. tail = 0x22 # t) \<and> n = length body + 2))) \<and>
    (plain \<noteq> [] \<longrightarrow> hd plain \<noteq> 0x22 \<longrightarrow> undo bs plain = Ok (plain, length plain)) \<and>
    undo bs any \<noteq> Panic"
proof (intro conjI impI)
  show "undo bs (0x22 # input) = Ok (v, n) \<longleftrightarrow>
      input \<noteq> [] \<and> (\<exists>body tail. ansi_body body v \<and> input = body @ tail \<and>
        (tail = [] \<and> n = length body + 1 \<or> (\<exists>t. tail = 0x22 # t) \<and> n = length body + 2))"
    using bstr_spec.undo_loop_Ok [OF assms, of "0x22 # input" "input" 1 "[]" v n]
    by (cases input) (simp_all add: undo_def, blast)
  show "undo bs plain = Ok (plain, length plain)" if "plain \<noteq> []" "hd plain \<noteq> 0x22" using that by (cases plain) (simp_all add: undo_def)
  show "undo bs any \<noteq> Panic" using bstr_spec.undo_loop_not_Panic [OF assms] by (simp add: undo_def)
qed

theorem undo_accepts_exactly_quoted_witness:
  "undo reference_bstr (0x22 # lit ''a'' @ [0x5c] @ lit ''n'' @ [0x5c] @ lit ''101'' @ 0x22 # lit '' rest'') = Ok ([0x61, 0x0a, 0x41], 9)"
proof -
  have "digit_values 8 (lit ''101'') = Some [1, 0, 1]" by code_simp
  then have "ansi_body (0x5c # 0x31 # 0x30 # 0x31 # []) (word_of_nat (64 * 1 + 8 * 0 + 1) # [])"
    by (intro ansi_octal ansi_empty) simp_all
  then have "ansi_body (lit ''a'' @ [0x5c] @ lit ''n'' @ [0x5c] @ lit ''101'') [0x61, 0x0a, 0x41]"
    by (auto intro!: ansi_plain ansi_escape simp: escape_byte_def)
  then have "\<exists>body tail. ansi_body body [0x61, 0x0a, 0x41] \<and>
      lit ''a'' @ [0x5c] @ lit ''n'' @ [0x5c] @ lit ''101'' @ 0x22 # lit '' rest'' = body @ tail \<and>
      (tail = [] \<and> 9 = length body + 1 \<or> (\<exists>t. tail = 0x22 # t) \<and> 9 = length body + 2)"
    by (intro exI [of _ "lit ''a'' @ [0x5c] @ lit ''n'' @ [0x5c] @ lit ''101''"] exI [of _ "0x22 # lit '' rest''"]) simp
  then show ?thesis
    using undo_accepts_exactly_quoted [OF ref_bstr.bstr_spec_axioms, of "lit ''a'' @ [0x5c] @ lit ''n'' @ [0x5c] @ lit ''101'' @ 0x22 # lit '' rest''"
      "[0x61, 0x0a, 0x41]" 9 "[]" "[]"] by blast
qed

end
