(* ===== verification/Gix_Bitmap.thy ===== *)
theory Gix_Bitmap
  imports Gix_Prelude
begin

text \<open>
  EWAH bitmaps (\<^verbatim>\<open>src/gix-bitmap\<close>): decoding and the visit of the set bits.  A bitmap is a sequence of run-length words,
  each with a run of equal bits and the number of literal words behind it.  \<open>ewah_bits\<close> is the sequence of bits
  such words stand for; the visit calls its function for exactly the positions of the set bits, in order, until it is told to stop.
\<close>

section \<open>lib.rs\<close>

definition split_at_pos :: "bytes \<Rightarrow> nat \<Rightarrow> (bytes \<times> bytes) option" where
  "split_at_pos data pos = (if length data < pos then None else Some (take pos data, drop pos data))"

definition decode_u32 :: "bytes \<Rightarrow> (u32 \<times> bytes) option" where
  "decode_u32 data =
     (case split_at_pos data 4 of None \<Rightarrow> None | Some (num, data) \<Rightarrow> Some (word_of_nat (be_nat num), data))"

section \<open>Decoding\<close>

record ewah =
  ewah_num_bits :: u32
  ewah_words :: "u64 list"
  ewah_rlw :: u64

datatype ewah_message = EofAmountOfBits | EofChunkLength | EofBitData | EofRunLengthWidth

datatype ewah_error = EwahCorrupt ewah_message

fun decode_words :: "nat \<Rightarrow> bytes \<Rightarrow> (u64 list, ewah_error) outcome" where
  "decode_words 0 bits = Ok []"
| "decode_words (Suc n) bits =
     (if length bits < 8 then Panic
      else and_then (read_u64 (take 8 bits)) (\<lambda>w. and_then (decode_words n (drop 8 bits)) (\<lambda>ws. Ok (w # ws))))"

definition ewah_decode :: "bytes \<Rightarrow> (ewah \<times> bytes, ewah_error) outcome" where
  "ewah_decode data =
     and_then (ok_or (decode_u32 data) (EwahCorrupt EofAmountOfBits)) (\<lambda>(num_bits, data).
     and_then (ok_or (decode_u32 data) (EwahCorrupt EofChunkLength)) (\<lambda>(len, data).
     and_then (ok_or (split_at_pos data (unat len * 8)) (EwahCorrupt EofBitData)) (\<lambda>(bits, data).
     and_then (decode_words (unat len) bits) (\<lambda>buf.
     and_then (ok_or (decode_u32 data) (EwahCorrupt EofRunLengthWidth)) (\<lambda>(rlw, data).
     Ok (\<lparr>ewah_num_bits = num_bits, ewah_words = buf, ewah_rlw = ucast rlw\<rparr>, data))))))"

section \<open>Access\<close>

definition RLW_RUNNING_BITS :: nat where "RLW_RUNNING_BITS = 4 * 8"
definition RLW_LARGEST_RUNNING_COUNT :: u64 where "RLW_LARGEST_RUNNING_COUNT = push_bit RLW_RUNNING_BITS 1 - 1"

definition rlw_running_len :: "u64 \<Rightarrow> u64" where "rlw_running_len w = drop_bit 1 w AND RLW_LARGEST_RUNNING_COUNT"
definition rlw_running_len_bits :: "u64 \<Rightarrow> u64" where "rlw_running_len_bits w = rlw_running_len w * 64"
definition rlw_literal_words :: "u64 \<Rightarrow> u64" where "rlw_literal_words w = drop_bit (1 + RLW_RUNNING_BITS) w"
definition rlw_runbit_is_set :: "u64 \<Rightarrow> bool" where "rlw_runbit_is_set w \<longleftrightarrow> w AND 1 = 1"

definition num_bits :: "ewah \<Rightarrow> nat" where "num_bits v = unat (ewah_num_bits v)"

text \<open>
  The callback changes a state of its own and tells whether to go on.  The index is a 64-bit \<^verbatim>\<open>usize\<close>.
\<close>

type_synonym 's visitor = "u64 \<Rightarrow> 's \<Rightarrow> 's \<times> bool"

fun visit_run :: "'s visitor \<Rightarrow> nat \<Rightarrow> u64 \<Rightarrow> 's \<Rightarrow> u64 \<times> 's \<times> bool" where
  "visit_run f 0 index s = (index, s, True)"
| "visit_run f (Suc n) index s =
     (case f index s of (s, proceed) \<Rightarrow> if proceed then visit_run f n (index + 1) s else (index, s, False))"

fun visit_word :: "'s visitor \<Rightarrow> u64 \<Rightarrow> nat list \<Rightarrow> u64 \<Rightarrow> 's \<Rightarrow> u64 \<times> 's \<times> bool" where
  "visit_word f word [] index s = (index, s, True)"
| "visit_word f word (bit_index # rest) index s =
     (if word AND push_bit bit_index 1 \<noteq> 0 then
        (case f index s of (s, proceed) \<Rightarrow> if proceed then visit_word f word rest (index + 1) s else (index, s, False))
      else visit_word f word rest (index + 1) s)"

fun visit_literals :: "'s visitor \<Rightarrow> nat \<Rightarrow> u64 list \<Rightarrow> u64 \<Rightarrow> 's \<Rightarrow> (u64 list \<times> u64 \<times> 's \<times> bool) or_panic" where
  "visit_literals f 0 words index s = Some (words, index, s, True)"
| "visit_literals f (Suc n) words index s =
     (case words of
        [] \<Rightarrow> None
      | word # words \<Rightarrow>
          (case visit_word f word [0..<64] index s of (index, s, proceed) \<Rightarrow>
             if proceed then visit_literals f n words index s else Some (words, index, s, False)))"

lemma visit_literals_length: "visit_literals f n words index s = Some (words', r) \<Longrightarrow> length words' \<le> length words"
proof (induction n arbitrary: words index s)
  case (Suc n)
  then show ?case by (fastforce split: list.splits prod.splits if_splits)
qed simp

function for_each_loop :: "'s visitor \<Rightarrow> u64 list \<Rightarrow> u64 \<Rightarrow> 's \<Rightarrow> ('s \<times> bool) or_panic" where
  "for_each_loop f [] index s = Some (s, True)"
| "for_each_loop f (word # words) index s =
     (let len = rlw_running_len_bits word;
          (index, s, proceed) = (if rlw_runbit_is_set word then visit_run f (unat len) index s else (index + len, s, True)) in
      if \<not> proceed then Some (s, False)
      else
        (case visit_literals f (unat (rlw_literal_words word)) words index s of
           None \<Rightarrow> None
         | Some (words, index, s, proceed) \<Rightarrow> if proceed then for_each_loop f words index s else Some (s, False)))"
  by pat_completeness auto
termination
  by (relation "measure (\<lambda>(f, words, index, s). length words)") (auto dest: visit_literals_length)

definition for_each_set_bit :: "'s visitor \<Rightarrow> ewah \<Rightarrow> 's \<Rightarrow> ('s \<times> bool) or_panic" where
  "for_each_set_bit f v s = for_each_loop f (ewah_words v) 0 s"

section \<open>The sequence of bits\<close>

definition word_bits :: "u64 \<Rightarrow> bool list" where "word_bits w = map (bit w) [0..<64]"

text \<open>Bit 0 is the bit of the run, bits 1 to 32 its length in words, the others the number of literal words.\<close>

function ewah_bits :: "u64 list \<Rightarrow> bool list option" where
  "ewah_bits [] = Some []"
| "ewah_bits (w # ws) =
     (let run = unat w div 2 mod 2 ^ 32; literals = unat w div 2 ^ 33 in
      if length ws < literals then None
      else map_option (\<lambda>bs. replicate (64 * run) (odd (unat w)) @ concat (map word_bits (take literals ws)) @ bs)
        (ewah_bits (drop literals ws)))"
  by pat_completeness auto
termination by (relation "measure length") (auto simp: less_Suc_eq_le)

definition set_positions :: "nat \<Rightarrow> bool list \<Rightarrow> nat list" where
  "set_positions k bits = filter (\<lambda>i. bits ! (i - k)) [k..<k + length bits]"

fun each_while :: "'s visitor \<Rightarrow> u64 list \<Rightarrow> 's \<Rightarrow> 's \<times> bool" where
  "each_while f [] s = (s, True)"
| "each_while f (i # is) s = (case f i s of (s, proceed) \<Rightarrow> if proceed then each_while f is s else (s, False))"

text \<open>The file format.\<close>

definition ewah_bytes :: "u32 \<Rightarrow> u64 list \<Rightarrow> u32 \<Rightarrow> bytes" where
  "ewah_bytes n words rlw = be32 n @ be32 (word_of_nat (length words)) @ concat (map be64 words) @ be32 rlw"

section \<open>The visit\<close>

text \<open>Every part of the visit goes through a sequence of bits.\<close>

fun visit_bits :: "'s visitor \<Rightarrow> bool list \<Rightarrow> u64 \<Rightarrow> 's \<Rightarrow> u64 \<times> 's \<times> bool" where
  "visit_bits f [] index s = (index, s, True)"
| "visit_bits f (b # bs) index s =
     (if b then case f index s of (s, proceed) \<Rightarrow> if proceed then visit_bits f bs (index + 1) s else (index, s, False)
      else visit_bits f bs (index + 1) s)"

lemma visit_bits_append:
  "visit_bits f (xs @ ys) index s =
     (case visit_bits f xs index s of (index, s, proceed) \<Rightarrow> if proceed then visit_bits f ys index s else (index, s, False))"
  by (induction xs arbitrary: index s) (auto split: prod.split)

lemma visit_run_bits: "visit_run f n index s = visit_bits f (replicate n True) index s"
  by (induction n arbitrary: index s) (auto split: prod.split)

lemma visit_bits_unset: "visit_bits f (replicate n False) index s = (index + word_of_nat n, s, True)"
  by (induction n arbitrary: index) (simp_all add: add.assoc)

lemma visit_word_bits: "visit_word f word is index s = visit_bits f (map (bit word) is) index s"
proof (induction "is" arbitrary: index s)
  case (Cons i "is")
  have "word AND push_bit i 1 \<noteq> 0 \<longleftrightarrow> bit word i" by (simp add: push_bit_eq_mult and_exp_eq_0_iff_not_bit)
  then show ?case using Cons by (simp split: prod.split)
qed simp

lemma visit_literals_bits:
  assumes "n \<le> length words" "visit_bits f (concat (map word_bits (take n words))) index s = (index', s', proceed)"
  shows "if proceed then visit_literals f n words index s = Some (drop n words, index', s', True)
    else \<exists>rest. visit_literals f n words index s = Some (rest, index', s', False)"
  using assms
proof (induction n arbitrary: words index s)
  case (Suc n)
  then obtain w ws where words: "words = w # ws" "n \<le> length ws" by (cases words) auto
  obtain i1 s1 p1 where first: "visit_bits f (word_bits w) index s = (i1, s1, p1)" by (rule prod_cases3)
  then have word: "visit_word f w [0..<64] index s = (i1, s1, p1)" by (simp only: visit_word_bits word_bits_def)
  show ?case
  proof (cases p1)
    case True
    then have "visit_bits f (concat (map word_bits (take n ws))) i1 s1 = (index', s', proceed)"
      using Suc.prems(2) first by (simp add: words visit_bits_append)
    then show ?thesis using Suc.IH [OF words(2)] words(1) word True by simp
  next
    case False
    then have "(i1, s1, False) = (index', s', proceed)" using Suc.prems(2) first by (simp add: words visit_bits_append)
    then show ?thesis using words word False by simp
  qed
qed simp

lemma visit_literals_truncated:
  assumes "length words < n" "\<And>i s. snd (f i s)"
  shows "visit_literals f n words index s = None"
proof -
  have go: "\<exists>i s'. visit_word f w is index s = (i, s', True)" for w "is" index s
  proof (induction "is" arbitrary: index s)
    case (Cons i "is")
    then show ?case using assms(2) [of index s] by (cases "f index s") simp
  qed simp
  show ?thesis using assms(1)
  proof (induction n arbitrary: words index s)
    case (Suc n)
    show ?case
    proof (cases words)
      case (Cons w ws)
      obtain i s' where "visit_word f w [0..<64] index s = (i, s', True)" using go by blast
      then show ?thesis using Suc Cons by simp
    qed simp
  qed simp
qed

lemma largest_running_count: "RLW_LARGEST_RUNNING_COUNT = mask 32"
  by (simp add: RLW_LARGEST_RUNNING_COUNT_def RLW_RUNNING_BITS_def mask_eq_exp_minus_1)

lemma rlw_fields:
  "unat (rlw_running_len_bits w) = 64 * (unat w div 2 mod 2 ^ 32)"
  "unat (rlw_literal_words w) = unat w div 2 ^ 33" "rlw_runbit_is_set w = odd (unat w)"
proof -
  have len: "unat (rlw_running_len w) = unat w div 2 mod 2 ^ 32"
    by (simp only: rlw_running_len_def largest_running_count unat_and_mask unat_drop_bit power_one_right)
  moreover have "unat w div 2 mod 2 ^ 32 * 64 < 2 ^ 64" by (rule order.strict_trans2 [of _ "2 ^ 32 * 64"]) simp_all
  ultimately show "unat (rlw_running_len_bits w) = 64 * (unat w div 2 mod 2 ^ 32)"
    by (simp add: rlw_running_len_bits_def unat_word_ariths mult.commute)
  show "unat (rlw_literal_words w) = unat w div 2 ^ 33"
    by (simp add: rlw_literal_words_def RLW_RUNNING_BITS_def word_nat)
  have "unat (w AND 1) = unat w mod 2" using unat_and_mask [of w 1] by simp
  then show "rlw_runbit_is_set w = odd (unat w)"
    by (simp add: rlw_runbit_is_set_def word_unat_eq_iff odd_iff_mod_2_eq_one)
qed

text \<open>The run of a run-length word.\<close>

lemma visit_run_word:
  assumes "run = 64 * (unat w div 2 mod 2 ^ 32)"
  shows "(if rlw_runbit_is_set w then visit_run f (unat (rlw_running_len_bits w)) index s
      else (index + rlw_running_len_bits w, s, True)) =
    visit_bits f (replicate run (odd (unat w))) index s"
proof (cases "odd (unat w)")
  case False
  have "word_of_nat (unat (rlw_running_len_bits w)) = rlw_running_len_bits w" by simp
  then have "rlw_running_len_bits w = word_of_nat run" by (simp only: rlw_fields(1) assms)
  then show ?thesis using False by (simp add: rlw_fields(3) visit_bits_unset)
qed (simp add: rlw_fields visit_run_bits assms)

lemma for_each_loop_bits:
  "ewah_bits words = Some bits \<Longrightarrow>
   for_each_loop f words index s = Some (snd (visit_bits f bits index s))"
proof (induction words arbitrary: bits index s rule: ewah_bits.induct)
  case (2 w ws)
  define n where "n = unat w div 2 ^ 33"
  define run where "run = 64 * (unat w div 2 mod 2 ^ 32)"
  have lits: "unat (rlw_literal_words w) = n" by (simp add: n_def rlw_fields)
  obtain bs where bs: "n \<le> length ws" "ewah_bits (drop n ws) = Some bs"
    "bits = replicate run (odd (unat w)) @ concat (map word_bits (take n ws)) @ bs"
    using 2(2) by (auto simp: Let_def n_def run_def split: if_splits)
  have IH: "for_each_loop f (drop n ws) i s' = Some (snd (visit_bits f bs i s'))" for i s'
    using 2(1) [OF refl refl, of bs i s'] bs(1,2) unfolding n_def by simp
  obtain i1 s1 p1 where one: "visit_bits f (replicate run (odd (unat w))) index s = (i1, s1, p1)" by (rule prod_cases3)
  obtain i2 s2 p2 where two: "visit_bits f (concat (map word_bits (take n ws))) i1 s1 = (i2, s2, p2)" by (rule prod_cases3)
  note lit = visit_literals_bits [OF bs(1) two]
  have loop: "for_each_loop f (w # ws) index s =
      (if \<not> p1 then Some (s1, False)
       else case visit_literals f n ws i1 s1 of
           None \<Rightarrow> None
         | Some (words, index, s, proceed) \<Rightarrow> if proceed then for_each_loop f words index s else Some (s, False))"
    by (simp only: for_each_loop.simps Let_def visit_run_word [OF run_def] one lits prod.case)
  show ?case
  proof (cases "p1 \<and> p2")
    case True
    then show ?thesis using loop one two lit IH by (simp add: bs(3) visit_bits_append)
  next
    case False
    then show ?thesis using loop one two lit by (cases p1) (auto simp: bs(3) visit_bits_append)
  qed
qed simp

lemma visit_bits_proceeds: "(\<And>i s. snd (f i s)) \<Longrightarrow> snd (snd (visit_bits f bits index s))"
proof (induction bits arbitrary: index s)
  case (Cons b bits)
  obtain s' where "f index s = (s', True)" using Cons.prems [of index s] by (cases "f index s") simp
  then show ?case using Cons by simp
qed simp

lemma for_each_loop_truncated:
  assumes "\<And>i s. snd (f i s)"
  shows "ewah_bits words = None \<Longrightarrow> for_each_loop f words index s = None"
proof (induction words arbitrary: index s rule: ewah_bits.induct)
  case (2 w ws)
  define n where "n = unat w div 2 ^ 33"
  define run where "run = 64 * (unat w div 2 mod 2 ^ 32)"
  have lits: "unat (rlw_literal_words w) = n" by (simp add: n_def rlw_fields)
  obtain i1 s1 where one: "visit_bits f (replicate run (odd (unat w))) index s = (i1, s1, True)"
    using visit_bits_proceeds [of f "replicate run (odd (unat w))" index s] assms by (metis prod_cases3 snd_conv)
  have loop: "for_each_loop f (w # ws) index s =
      (case visit_literals f n ws i1 s1 of
           None \<Rightarrow> None
         | Some (words, index, s, proceed) \<Rightarrow> if proceed then for_each_loop f words index s else Some (s, False))"
    by (simp only: for_each_loop.simps Let_def visit_run_word [OF run_def] one lits prod.case not_True_eq_False if_False)
  show ?case
  proof (cases "length ws < n")
    case True
    then show ?thesis using loop visit_literals_truncated [of ws n f] assms by simp
  next
    case False
    then have rest: "ewah_bits (drop n ws) = None" using 2(2) by (simp add: n_def Let_def)
    obtain i2 s2 where "visit_bits f (concat (map word_bits (take n ws))) i1 s1 = (i2, s2, True)"
      using visit_bits_proceeds [of f "concat (map word_bits (take n ws))" i1 s1] assms by (metis prod_cases3 snd_conv)
    then have "visit_literals f n ws i1 s1 = Some (drop n ws, i2, s2, True)"
      using visit_literals_bits [of n ws f i1 s1 i2 s2 True] False by simp
    moreover have "for_each_loop f (drop n ws) i2 s2 = None"
      using 2(1) [OF refl refl, of i2 s2] False rest unfolding n_def by simp
    ultimately show ?thesis using loop by simp
  qed
qed simp

lemma set_positions_Cons: "set_positions k (b # bs) = (if b then [k] else []) @ set_positions (Suc k) bs"
proof -
  have "filter (\<lambda>i. (b # bs) ! (i - k)) [Suc k..<Suc k + length bs] = filter (\<lambda>i. bs ! (i - Suc k)) [Suc k..<Suc k + length bs]"
    by (rule filter_cong) (auto simp: nth_Cons')
  moreover have "[k..<k + length (b # bs)] = k # [Suc k..<Suc k + length bs]" by (simp add: upt_conv_Cons del: upt_Suc)
  ultimately show ?thesis by (cases b) (simp_all add: set_positions_def del: upt_Suc)
qed

lemma visit_bits_positions:
  "snd (visit_bits f bits (word_of_nat k) s) = each_while f (map word_of_nat (set_positions k bits)) s"
proof (induction bits arbitrary: k s)
  case (Cons b bits)
  have "snd (visit_bits f bits (word_of_nat k + 1) s) = each_while f (map word_of_nat (set_positions (Suc k) bits)) s" for s
    using Cons [of "Suc k" s] by (simp add: add.commute)
  then show ?case by (cases "f (word_of_nat k) s") (simp add: set_positions_Cons)
qed (simp add: set_positions_def)

section \<open>Decoding\<close>

lemma decode_u32_be32: "decode_u32 (be32 n @ rest) = Some (n, rest)"
proof -
  have "read_u32 (be32 n) = (Ok n :: (u32, unit) outcome)" by simp
  then have "word_of_nat (be_nat (be32 n)) = n" by (simp add: read_u32_def)
  then show ?thesis by (simp add: decode_u32_def split_at_pos_def)
qed

lemma decode_words_be64: "decode_words (length ws) (concat (map be64 ws)) = Ok ws"
  by (induction ws) simp_all

lemma ewah_decode_bytes:
  assumes "length words < 2 ^ 32"
  shows "ewah_decode (ewah_bytes n words rlw @ rest) = Ok (\<lparr>ewah_num_bits = n, ewah_words = words, ewah_rlw = ucast rlw\<rparr>, rest)"
proof -
  have len: "unat (word_of_nat (length words) :: u32) = length words" using assms by (simp add: unat_of_nat_small)
  have "split_at_pos (concat (map be64 words) @ be32 rlw @ rest) (length words * 8) = Some (concat (map be64 words), be32 rlw @ rest)"
    by (simp add: split_at_pos_def length_concat_const [of _ 8])
  then show ?thesis
    by (simp add: ewah_decode_def ewah_bytes_def decode_u32_be32 len decode_words_be64)
qed

text \<open>
  C37: a bitmap that is decoded from its file format lets the callback see exactly the positions of the bits that its run-length and
  literal words stand for, in ascending order, until it asks to stop, and reports whether it did; nothing is consumed behind it.  If the literal words are
  cut short, which decoding does not notice, a visit that is not stopped panics.
\<close>

theorem ewah_visits_exactly_set_bits:
  assumes "length words < 2 ^ 32"
  shows "\<exists>v. ewah_decode (ewah_bytes n words rlw @ rest) = Ok (v, rest) \<and>
    (\<forall>bits. ewah_bits words = Some bits \<longrightarrow>
      for_each_set_bit f v s = Some (each_while f (map word_of_nat (filter (\<lambda>i. bits ! i) [0..<length bits])) s)) \<and>
    (ewah_bits words = None \<longrightarrow> (\<forall>i s. snd (f i s)) \<longrightarrow> for_each_set_bit f v s = None)"
proof -
  have "for_each_loop f words 0 s = Some (each_while f (map word_of_nat (filter (\<lambda>i. bits ! i) [0..<length bits])) s)"
    if "ewah_bits words = Some bits" for bits
    using for_each_loop_bits [OF that, of f 0 s] visit_bits_positions [of f bits 0 s] by (simp add: set_positions_def)
  then show ?thesis
    using ewah_decode_bytes [OF assms] for_each_loop_truncated [of f words 0 s] by (simp add: for_each_set_bit_def)
qed

theorem ewah_visits_exactly_set_bits_witness:
  "\<exists>v u. ewah_decode (ewah_bytes 200 [0x200000005, 5] 0 @ [1]) = Ok (v, [1]) \<and>
      for_each_set_bit (\<lambda>i is. (is @ [i], True)) v [] =
        Some (each_while (\<lambda>i is. (is @ [i], True)) (map word_of_nat (filter (\<lambda>i. (replicate 128 True @ word_bits 5) ! i) [0..<192])) []) \<and>
      ewah_decode (ewah_bytes 200 [0x200000000] 0 @ [1]) = Ok (u, [1]) \<and> for_each_set_bit (\<lambda>i is. (is @ [i], True)) u [] = None"
proof -
  let ?f = "\<lambda>i is. (is @ [i], True) :: u64 list \<times> bool"
  let ?bits = "replicate 128 True @ word_bits 5"
  have bits: "ewah_bits [0x200000005, 5] = Some ?bits" "ewah_bits [0x200000000] = None" by (simp_all add: Let_def)
  have len: "length ?bits = 192" by (simp add: word_bits_def)
  have small: "length [0x200000005, 5 :: u64] < 2 ^ 32" "length [0x200000000 :: u64] < 2 ^ 32" by simp_all
  note one = ewah_visits_exactly_set_bits [OF small(1), of 200 0 "[1]" ?f "[]"]
  note two = ewah_visits_exactly_set_bits [OF small(2), of 200 0 "[1]" ?f "[]"]
  show ?thesis using one two unfolding bits len [symmetric] by fastforce
qed

end
