(* ===== verification/Gix_Object.thy ===== *)
theory Gix_Object
  imports Gix_Pack_Entry Gix_Numbers
begin

text \<open>
  Objects in general (\<^verbatim>\<open>src/gix-object/src/\<close>: \<^verbatim>\<open>kind.rs\<close>, \<^verbatim>\<open>encode.rs\<close>, \<^verbatim>\<open>data.rs\<close>, \<^verbatim>\<open>lib.rs\<close>): the names of the kinds, the header in front of a
  loose object, and the hash of an object, computed from memory or from a stream (\<^verbatim>\<open>src/gix-features/src/hash.rs\<close>).
  The hash function is an argument; a hasher is the sequence of bytes it was given.
\<close>

section \<open>kind.rs\<close>

datatype kind_error = InvalidObjectKind bytes

definition kind_from_bytes :: "bytes \<Rightarrow> (object_kind, kind_error) outcome" where
  "kind_from_bytes s =
     (if s = lit ''tree'' then Ok KTree
      else if s = lit ''blob'' then Ok KBlob
      else if s = lit ''commit'' then Ok KCommit
      else if s = lit ''tag'' then Ok KTag
      else Err (InvalidObjectKind s))"

fun kind_as_bytes :: "object_kind \<Rightarrow> bytes" where
  "kind_as_bytes KTree = lit ''tree''"
| "kind_as_bytes KCommit = lit ''commit''"
| "kind_as_bytes KBlob = lit ''blob''"
| "kind_as_bytes KTag = lit ''tag''"

section \<open>encode.rs and lib.rs\<close>

definition encode_loose_header :: "(u64 \<Rightarrow> bytes) \<Rightarrow> object_kind \<Rightarrow> u64 \<Rightarrow> bytes" where
  "encode_loose_header itoa kind sz = kind_as_bytes kind @ [0x20] @ itoa sz @ [0]"

datatype loose_header_message = ExpectedTypeSize | NoZeroByte

datatype loose_header_decode_error =
    LooseParseInteger parse_integer_error bytes
  | LooseInvalidHeader loose_header_message
  | LooseObjectHeader kind_error

definition decode_loose_header :: "bstr \<Rightarrow> bytes \<Rightarrow> (object_kind \<times> int \<times> nat, loose_header_decode_error) outcome" where
  "decode_loose_header bs input =
     and_then (ok_or (find_byte bs input 0x20) (LooseInvalidHeader ExpectedTypeSize)) (\<lambda>kind_end.
     and_then (expect (get_range input 0 kind_end)) (\<lambda>kind_bytes.
     and_then (map_err LooseObjectHeader (kind_from_bytes kind_bytes)) (\<lambda>kind.
     and_then (ok_or (find_byte bs input 0) (LooseInvalidHeader NoZeroByte)) (\<lambda>size_end.
     and_then (expect (get_range input (kind_end + 1) size_end)) (\<lambda>size_bytes.
     and_then (map_err (\<lambda>e. LooseParseInteger e size_bytes) (to_signed u64_type size_bytes)) (\<lambda>sz.
     Ok (kind, sz, size_end + 1)))))))"

section \<open>Hashes\<close>

text \<open>\<^verbatim>\<open>usize\<close> has 64 bits: the cast of a length to \<^verbatim>\<open>u64\<close> is exact.\<close>

definition compute_hash :: "(bytes \<Rightarrow> bytes) \<Rightarrow> (u64 \<Rightarrow> bytes) \<Rightarrow> hash_kind \<Rightarrow> object_kind \<Rightarrow> bytes \<Rightarrow> object_id" where
  "compute_hash sha1 itoa hash_kind object_kind data =
     (let header = encode_loose_header itoa object_kind (word_of_nat (length data)) in
      case hash_kind of KSha1 \<Rightarrow> Sha1 (sha1 (header @ data)))"

datatype verify_error = ChecksumMismatch object_id object_id

definition verify_checksum ::
    "(bytes \<Rightarrow> bytes) \<Rightarrow> (u64 \<Rightarrow> bytes) \<Rightarrow> object_kind \<Rightarrow> bytes \<Rightarrow> object_id \<Rightarrow> (unit, verify_error) outcome" where
  "verify_checksum sha1 itoa kind data desired =
     (let actual_id = compute_hash sha1 itoa (object_id_kind desired) kind data in
      if desired \<noteq> actual_id then Err (ChecksumMismatch desired actual_id) else Ok ())"

datatype stream_error = StreamEof | StreamInterrupted

definition BUF_SIZE :: nat where "BUF_SIZE = 2 ^ 16 - 1"

text \<open>
  \<open>interrupts k\<close> is the value of \<^verbatim>\<open>should_interrupt\<close> when it is looked at for the \<open>k\<close>-th time.
  Besides the result, the rest of the stream is kept.
\<close>

function hash_stream_loop ::
    "(nat \<Rightarrow> bool) \<Rightarrow> nat \<Rightarrow> bytes \<Rightarrow> nat \<Rightarrow> bytes \<Rightarrow> (bytes, stream_error) outcome \<times> bytes" where
  "hash_stream_loop interrupts k read bytes_left hasher =
     (if bytes_left = 0 then (Ok hasher, read)
      else
        (let n = min BUF_SIZE bytes_left in
         if length read < n then (Err StreamEof, [])
         else
           (let out = take n read; read = drop n read in
            if interrupts k then (Err StreamInterrupted, read)
            else hash_stream_loop interrupts (k + 1) read (bytes_left - n) (hasher @ out))))"
  by pat_completeness auto
termination by (relation "measure (\<lambda>(interrupts, k, read, bytes_left, hasher). bytes_left)") (auto simp: BUF_SIZE_def)

declare hash_stream_loop.simps [simp del]

definition bytes_with_hasher ::
    "(bytes \<Rightarrow> bytes) \<Rightarrow> (nat \<Rightarrow> bool) \<Rightarrow> bytes \<Rightarrow> u64 \<Rightarrow> bytes \<Rightarrow> (object_id, stream_error) outcome \<times> bytes" where
  "bytes_with_hasher sha1 interrupts read num_bytes_from_start hasher =
     (case hash_stream_loop interrupts 0 read (unat num_bytes_from_start) hasher of
        (r, read) \<Rightarrow> (and_then r (\<lambda>h. Ok (Sha1 (sha1 h))), read))"

definition compute_stream_hash ::
    "(bytes \<Rightarrow> bytes) \<Rightarrow> (u64 \<Rightarrow> bytes) \<Rightarrow> (nat \<Rightarrow> bool) \<Rightarrow> hash_kind \<Rightarrow> object_kind \<Rightarrow> bytes \<Rightarrow> u64 \<Rightarrow>
     (object_id, stream_error) outcome \<times> bytes" where
  "compute_stream_hash sha1 itoa interrupts hash_kind object_kind stream stream_len =
     (let header = encode_loose_header itoa object_kind stream_len in
      case hash_kind of KSha1 \<Rightarrow> bytes_with_hasher sha1 interrupts stream stream_len header)"

section \<open>The loose header\<close>

lemma kind_from_bytes_Ok: "kind_from_bytes s = Ok k \<longleftrightarrow> s = kind_as_bytes k"
  by (cases k) (auto simp: kind_from_bytes_def)

lemma kind_as_bytes_clean: "c \<in> set (kind_as_bytes k) \<Longrightarrow> c \<noteq> 0 \<and> c \<noteq> 0x20"
  by (cases k) auto

lemma kind_from_bytes_not_Panic: "kind_from_bytes s \<noteq> Panic"
  by (simp add: kind_from_bytes_def)

lemma u64_wf: "wf_int_type u64_type"
  using int_types_wf by blast

context bstr_spec
begin

text \<open>A header with a known kind: the size is between the first space and the first zero byte.\<close>

lemma decode_loose_header_kind:
  "decode_loose_header bs (kind_as_bytes k @ 0x20 # rest) =
     (case position (\<lambda>c. c = 0) rest of
        None \<Rightarrow> Err (LooseInvalidHeader NoZeroByte)
      | Some i \<Rightarrow>
          and_then (map_err (\<lambda>e. LooseParseInteger e (take i rest)) (to_signed u64_type (take i rest)))
            (\<lambda>sz. Ok (k, sz, length (kind_as_bytes k) + i + 2)))"
proof -
  let ?n = "length (kind_as_bytes k)"
  have p: "position (\<lambda>c. c = 0x20) (kind_as_bytes k) = None" "position (\<lambda>c. c = 0) (kind_as_bytes k) = None"
    using kind_as_bytes_clean by auto
  have space: "find_byte bs (kind_as_bytes k @ 0x20 # rest) 0x20 = Some ?n"
    by (simp add: find_byte position_append p del: position_None)
  have zero: "find_byte bs (kind_as_bytes k @ 0x20 # rest) 0 = map_option (\<lambda>i. ?n + Suc i) (position (\<lambda>c. c = 0) rest)"
    by (simp add: find_byte position_append p option.map_comp comp_def del: position_None)
  have kind: "kind_from_bytes (kind_as_bytes k) = Ok k" by (simp add: kind_from_bytes_Ok)
  show ?thesis
  proof (cases "position (\<lambda>c. c = 0) rest")
    case None
    then show ?thesis by (simp add: decode_loose_header_def space zero kind del: position_None)
  next
    case (Some i)
    then have "i < length rest" by (simp add: position_Some)
    then have "get_range (kind_as_bytes k @ 0x20 # rest) (?n + 1) (?n + Suc i) = Some (take i rest)"
      by (simp add: get_range_def)
    then show ?thesis using Some by (simp add: decode_loose_header_def space zero kind)
  qed
qed

lemma decode_loose_header_Ok_kind:
  assumes "decode_loose_header bs input = Ok (k, sz, n)"
  shows "\<exists>rest. input = kind_as_bytes k @ 0x20 # rest"
proof -
  obtain p where p: "find_byte bs input 0x20 = Some p"
    using assms by (cases "find_byte bs input 0x20") (simp_all add: decode_loose_header_def)
  then obtain ys zs where i: "input = ys @ 0x20 # zs" "length ys = p" by (auto simp: find_byte position_split)
  have "map_err LooseObjectHeader (kind_from_bytes ys) = Ok k"
    using assms p i by (auto simp: decode_loose_header_def and_then_Ok_iff)
  then have "ys = kind_as_bytes k" by (cases "kind_from_bytes ys") (simp_all add: kind_from_bytes_Ok)
  then show ?thesis using i by blast
qed

lemma decode_loose_header_not_Panic: "decode_loose_header bs input \<noteq> Panic"
proof
  assume a: "decode_loose_header bs input = Panic"
  then obtain p where p: "find_byte bs input 0x20 = Some p"
    by (cases "find_byte bs input 0x20") (simp_all add: decode_loose_header_def)
  then obtain ys zs where i: "input = ys @ 0x20 # zs" "length ys = p" by (auto simp: find_byte position_split)
  then have "get_range input 0 p = Some ys" by (simp add: get_range_def)
  then obtain k where "kind_from_bytes ys = Ok k"
    using a p kind_from_bytes_not_Panic [of ys]
    by (cases "kind_from_bytes ys") (simp_all add: decode_loose_header_def)
  then have "input = kind_as_bytes k @ 0x20 # zs" using i by (simp add: kind_from_bytes_Ok)
  moreover have "to_signed u64_type cs \<noteq> Panic" for cs
    using to_signed_with_radix_not_Panic [OF u64_wf] by (simp add: to_signed_def)
  then have "and_then (map_err f (to_signed u64_type cs)) (\<lambda>x. Ok (g x)) \<noteq> Panic"
    for f :: "parse_integer_error \<Rightarrow> loose_header_decode_error" and cs and g :: "int \<Rightarrow> object_kind \<times> int \<times> nat"
    by (cases "to_signed u64_type cs") simp_all
  ultimately show False using a by (simp add: decode_loose_header_kind split: option.splits)
qed

end

text \<open>
  The header of a loose object.  Decoding a header that was encoded gives back kind and size and consumes exactly its bytes, whatever
  follows.  Any input is accepted exactly when it is the name of a kind, a space, a number that fits 64 bits without a zero byte in it, and a zero
  byte; and no input makes the decoder panic.
\<close>

theorem loose_header_roundtrip:
  assumes "bstr_spec bs" "itoa_spec itoa"
  shows "decode_loose_header bs (encode_loose_header itoa kind sz @ rest) =
      Ok (kind, uint sz, length (encode_loose_header itoa kind sz)) \<and>
    (decode_loose_header bs input = Ok (k, n, consumed) \<longleftrightarrow>
      (\<exists>num tail. input = kind_as_bytes k @ 0x20 # num @ 0 # tail \<and> 0 \<notin> set num \<and> to_signed u64_type num = Ok n \<and>
        consumed = length (kind_as_bytes k) + length num + 2)) \<and>
    decode_loose_header bs input \<noteq> Panic" (is "?a \<and> ?b \<and> ?c")
proof (intro conjI)
  note kind = bstr_spec.decode_loose_header_kind [OF assms(1)]
  have dec: "itoa sz = decimal (unat sz)" using assms(2) by (rule itoa_spec.itoa)
  have "int (unat sz) \<le> int_max u64_type" using uint_bounded [of sz] by (simp add: u64_type_def)
  then have num: "to_signed u64_type (decimal (unat sz)) = Ok (uint sz)" by (simp add: to_signed_decimal u64_wf)
  have "position (\<lambda>c. c = 0) (decimal (unat sz)) = None" using decimal_no_nul by auto
  then have "position (\<lambda>c. c = 0) (decimal (unat sz) @ 0 # rest) = Some (length (decimal (unat sz)))"
    by (simp add: position_append del: position_None)
  then show ?a by (simp add: encode_loose_header_def dec kind num)
  show ?b (is "?l \<longleftrightarrow> ?r")
  proof
    assume l: ?l
    then obtain rest where i: "input = kind_as_bytes k @ 0x20 # rest"
      using bstr_spec.decode_loose_header_Ok_kind [OF assms(1)] by blast
    then obtain j where j: "position (\<lambda>c. c = 0) rest = Some j" using l by (auto simp: kind split: option.splits)
    then obtain num tail where r: "rest = num @ 0 # tail" "length num = j" "0 \<notin> set num" by (auto simp: position_split)
    then have "to_signed u64_type num = Ok n \<and> consumed = length (kind_as_bytes k) + length num + 2"
      using l j by (cases "to_signed u64_type num") (simp_all add: i kind)
    then show ?r using i r by blast
  next
    assume ?r
    then obtain num tail where i: "input = kind_as_bytes k @ 0x20 # num @ 0 # tail" "0 \<notin> set num" "to_signed u64_type num = Ok n"
      "consumed = length (kind_as_bytes k) + length num + 2" by blast
    have "position (\<lambda>c. c = 0) (num @ 0 # tail) = Some (length num)" using i(2) by (auto simp: position_split)
    then show ?l using i(3,4) by (simp add: i(1) kind)
  qed
  show ?c by (rule bstr_spec.decode_loose_header_not_Panic [OF assms(1)])
qed

theorem loose_header_roundtrip_witness:
  "decode_loose_header reference_bstr (encode_loose_header reference_itoa KBlob 11 @ lit ''hello world'') =
     Ok (KBlob, 11, length (encode_loose_header reference_itoa KBlob 11))"
  using loose_header_roundtrip [OF ref_bstr.bstr_spec_axioms ref_itoa.itoa_spec_axioms, of KBlob 11 "lit ''hello world''"] by simp

section \<open>Hashing a stream\<close>

lemma hash_stream_loop_Ok:
  "hash_stream_loop interrupts k read n hasher = (Ok h, rest) \<Longrightarrow> n \<le> length read \<and> h = hasher @ take n read \<and> rest = drop n read"
proof (induction interrupts k read n hasher rule: hash_stream_loop.induct)
  case (1 interrupts k read n hasher)
  define m where "m = min BUF_SIZE n"
  show ?case
  proof (cases "n = 0")
    case False
    then have c: "\<not> length read < m" "\<not> interrupts k"
      and rec: "hash_stream_loop interrupts (k + 1) (drop m read) (n - m) (hasher @ take m read) = (Ok h, rest)"
      using 1(2) by (auto simp: hash_stream_loop.simps [of interrupts k] Let_def m_def split: if_splits)
    have "n - m \<le> length (drop m read) \<and> h = (hasher @ take m read) @ take (n - m) (drop m read) \<and> rest = drop (n - m) (drop m read)"
      using 1(1) [OF False m_def c(1) refl refl c(2)] rec by simp
    moreover have "m \<le> n" by (simp add: m_def)
    ultimately show ?thesis using c(1) by (auto simp: take_add [symmetric] add.commute)
  qed (use 1(2) in \<open>simp add: hash_stream_loop.simps\<close>)
qed

lemma hash_stream_loop_total:
  assumes "\<And>i. \<not> interrupts i"
  shows "n \<le> length read \<Longrightarrow> \<exists>h rest. hash_stream_loop interrupts k read n hasher = (Ok h, rest)"
proof (induction n arbitrary: k read hasher rule: less_induct)
  case (less n)
  show ?case
  proof (cases "n = 0")
    case False
    define m where "m = min BUF_SIZE n"
    have m: "0 < m" "m \<le> n" using False by (simp_all add: m_def BUF_SIZE_def)
    have "hash_stream_loop interrupts k read n hasher = hash_stream_loop interrupts (k + 1) (drop m read) (n - m) (hasher @ take m read)"
      using False less.prems m(2) assms [of k]
      by (subst hash_stream_loop.simps) (simp add: Let_def m_def [symmetric])
    then show ?thesis using less.IH [of "n - m" "drop m read" "k + 1"] m less.prems by auto
  qed (simp add: hash_stream_loop.simps)
qed

text \<open>
  Hashing from a stream is hashing from memory.  If the stream has the promised number of bytes and nothing interrupts, the hash is the one of the
  object with these bytes, and the rest of the stream is not touched; whatever the interruptions, a hash that is returned is the right one, and a stream
  that is too short gives an error.
\<close>

theorem stream_hash_is_object_hash:
  assumes "\<forall>i. \<not> quiet i"
  shows "(unat n \<le> length stream \<longrightarrow>
      compute_stream_hash sha1 itoa quiet hash_kind kind stream n =
        (Ok (compute_hash sha1 itoa hash_kind kind (take (unat n) stream)), drop (unat n) stream)) \<and>
    (compute_stream_hash sha1 itoa interrupts hash_kind kind stream n = (Ok oid1, rest) \<longrightarrow>
      unat n \<le> length stream \<and> oid1 = compute_hash sha1 itoa hash_kind kind (take (unat n) stream) \<and> rest = drop (unat n) stream)"
proof -
  have ok: "compute_stream_hash sha1 itoa interrupts hash_kind kind stream n = (Ok oid1, rest) \<Longrightarrow>
      unat n \<le> length stream \<and> oid1 = compute_hash sha1 itoa hash_kind kind (take (unat n) stream) \<and> rest = drop (unat n) stream"
    for interrupts oid1 rest
    by (cases hash_kind)
      (auto simp: compute_stream_hash_def bytes_with_hasher_def compute_hash_def and_then_Ok_iff Let_def
        dest!: hash_stream_loop_Ok split: prod.splits)
  have "\<exists>oid1 rest. compute_stream_hash sha1 itoa quiet hash_kind kind stream n = (Ok oid1, rest)" if len: "unat n \<le> length stream"
  proof -
    obtain h rest where "hash_stream_loop quiet 0 stream (unat n) (encode_loose_header itoa kind n) = (Ok h, rest)"
      using hash_stream_loop_total [of quiet "unat n" stream 0] len assms by blast
    then show ?thesis by (cases hash_kind) (simp add: compute_stream_hash_def bytes_with_hasher_def Let_def)
  qed
  then show ?thesis using ok by blast
qed

theorem stream_hash_is_object_hash_witness:
  "compute_stream_hash (take 20) reference_itoa (\<lambda>_. False) KSha1 KBlob (lit ''hello world'') 5 =
     (Ok (compute_hash (take 20) reference_itoa KSha1 KBlob (lit ''hello'')), lit '' world'')"
  using stream_hash_is_object_hash [of "\<lambda>_. False" 5 "lit ''hello world''" "take 20" reference_itoa KSha1 KBlob] by simp

end
