(* ===== verification/Gix_Wildmatch.thy ===== *)
theory Gix_Wildmatch
  imports Gix_External
begin

text \<open>
  The glob matcher of \<^verbatim>\<open>src/gix-glob/src/wildmatch.rs\<close>.  The iterators over pattern and text are the index of the next element
  with the bytes that are left; the bytes are lowercased when they are taken, if case is to be ignored.  The matcher calls itself at most
  64 levels deep; the first argument of \<open>match_recursive\<close> is the number of levels that are left.  A slice or index expression that would
  panic gives \<open>None\<close>.
\<close>

section \<open>Results, modes and iterators\<close>

record wildmatch_mode =
  NO_MATCH_SLASH_LITERAL :: bool
  IGNORE_CASE :: bool

datatype match_result = Match | NoMatch | AbortAll | AbortToStarStar | RecursionLimitReached

abbreviation STAR :: u8 where "STAR \<equiv> 0x2a"
abbreviation BACKSLASH :: u8 where "BACKSLASH \<equiv> 0x5c"
abbreviation SLASH :: u8 where "SLASH \<equiv> 0x2f"
abbreviation BRACKET_OPEN :: u8 where "BRACKET_OPEN \<equiv> 0x5b"
abbreviation BRACKET_CLOSE :: u8 where "BRACKET_CLOSE \<equiv> 0x5d"
abbreviation COLON :: u8 where "COLON \<equiv> 0x3a"
abbreviation NEGATE_CLASS :: u8 where "NEGATE_CLASS \<equiv> 0x21"

definition RECURSION_LIMIT :: nat where "RECURSION_LIMIT = 64"

definition GLOB_CHARACTERS :: bytes where "GLOB_CHARACTERS = [0x2a, 0x3f, 0x5b, 0x5c]"

definition possibly_lowercase :: "wildmatch_mode \<Rightarrow> u8 \<Rightarrow> u8" where
  "possibly_lowercase mode c = (if IGNORE_CASE mode then to_ascii_lowercase c else c)"

type_synonym iter = "nat \<times> bytes"

fun iter_next :: "wildmatch_mode \<Rightarrow> iter \<Rightarrow> ((nat \<times> u8) \<times> iter) option" where
  "iter_next mode (i, []) = None"
| "iter_next mode (i, c # cs) = Some ((i, possibly_lowercase mode c), (Suc i, cs))"

definition iter_peek :: "wildmatch_mode \<Rightarrow> iter \<Rightarrow> u8 option" where
  "iter_peek mode p = map_option (\<lambda>((i, c), q). c) (iter_next mode p)"

definition slice_from :: "bytes \<Rightarrow> nat \<Rightarrow> bytes or_panic" where
  "slice_from xs i = (if i \<le> length xs then Some (drop i xs) else None)"

section \<open>Bracket expressions\<close>

definition is_ascii_whitespace :: "u8 \<Rightarrow> bool" where "is_ascii_whitespace c = (c \<in> {0x20, 0x09, 0x0a, 0x0c, 0x0d})"
definition is_ascii_control :: "u8 \<Rightarrow> bool" where "is_ascii_control c = (c \<le> 0x1f \<or> c = 0x7f)"
definition is_ascii_graphic :: "u8 \<Rightarrow> bool" where "is_ascii_graphic c = (0x21 \<le> c \<and> c \<le> 0x7e)"
definition is_ascii_alphabetic :: "u8 \<Rightarrow> bool" where "is_ascii_alphabetic c = (is_ascii_lowercase c \<or> is_ascii_uppercase c)"
definition is_ascii_alphanumeric :: "u8 \<Rightarrow> bool" where "is_ascii_alphanumeric c = (is_ascii_alphabetic c \<or> is_ascii_digit c)"
definition is_ascii_punctuation :: "u8 \<Rightarrow> bool" where
  "is_ascii_punctuation c = (is_ascii_graphic c \<and> \<not> is_ascii_alphanumeric c)"
definition is_ascii_hexdigit :: "u8 \<Rightarrow> bool" where
  "is_ascii_hexdigit c = (is_ascii_digit c \<or> 0x41 \<le> c \<and> c \<le> 0x46 \<or> 0x61 \<le> c \<and> c \<le> 0x66)"

text \<open>A named class: \<open>None\<close> for an unknown name.\<close>

definition class_matches :: "wildmatch_mode \<Rightarrow> bytes \<Rightarrow> u8 \<Rightarrow> bool option" where
  "class_matches mode name t_ch =
     (if name = lit ''alnum'' then Some (is_ascii_alphanumeric t_ch)
      else if name = lit ''alpha'' then Some (is_ascii_alphabetic t_ch)
      else if name = lit ''blank'' then Some (is_ascii_whitespace t_ch)
      else if name = lit ''cntrl'' then Some (is_ascii_control t_ch)
      else if name = lit ''digit'' then Some (is_ascii_digit t_ch)
      else if name = lit ''graph'' then Some (is_ascii_graphic t_ch)
      else if name = lit ''lower'' then Some (is_ascii_lowercase t_ch)
      else if name = lit ''print'' then Some (0x20 \<le> t_ch \<and> t_ch \<le> 0x7e)
      else if name = lit ''punct'' then Some (is_ascii_punctuation t_ch)
      else if name = lit ''space'' then Some (t_ch = 0x20)
      else if name = lit ''upper'' then Some (is_ascii_uppercase t_ch \<or> IGNORE_CASE mode \<and> is_ascii_lowercase t_ch)
      else if name = lit ''xdigit'' then Some (is_ascii_hexdigit t_ch)
      else None)"

definition in_range :: "wildmatch_mode \<Rightarrow> u8 \<Rightarrow> u8 \<Rightarrow> u8 \<Rightarrow> bool" where
  "in_range mode prev_p_ch p_ch t_ch =
     (if t_ch \<le> p_ch \<and> prev_p_ch \<le> t_ch then True
      else if IGNORE_CASE mode \<and> is_ascii_lowercase t_ch then
        (let t_ch_upper = to_ascii_uppercase t_ch in
         t_ch_upper \<le> to_ascii_uppercase p_ch \<and> to_ascii_uppercase prev_p_ch \<le> t_ch_upper \<or>
         t_ch_upper \<le> to_ascii_uppercase prev_p_ch \<and> to_ascii_uppercase p_ch \<le> t_ch_upper)
      else False)"

fun skip_to_close :: "wildmatch_mode \<Rightarrow> nat \<Rightarrow> bytes \<Rightarrow> iter" where
  "skip_to_close mode i [] = (i, [])"
| "skip_to_close mode i (c # cs) =
     (if possibly_lowercase mode c \<noteq> BRACKET_CLOSE then skip_to_close mode (Suc i) cs else (i, c # cs))"

text \<open>
  The variables of the loop over a bracket expression: the iterator, the previous character, whether the text matched so far and the offset that is
  added to indices after the iterator was restarted.  An item gives \<open>Some None\<close> when it makes the matcher return \<^verbatim>\<open>AbortAll\<close>.
\<close>

type_synonym bracket_state = "iter \<times> u8 \<times> bool \<times> nat"

definition bracket_restart :: "bytes \<Rightarrow> u8 \<Rightarrow> nat \<Rightarrow> u8 \<Rightarrow> bool \<Rightarrow> nat \<Rightarrow> bracket_state option or_panic" where
  "bracket_restart pattern t_ch p_idx prev_p_ch matched p_idx_ofs =
     (let matched = (if t_ch = BRACKET_OPEN then True else matched) in
      if p_idx > length pattern \<or> p_idx = 0 then Some None
      else Some (Some ((0, drop p_idx pattern), prev_p_ch, matched, p_idx_ofs + p_idx)))"

definition bracket_class ::
    "wildmatch_mode \<Rightarrow> bytes \<Rightarrow> u8 \<Rightarrow> nat \<Rightarrow> iter \<Rightarrow> u8 \<Rightarrow> bool \<Rightarrow> nat \<Rightarrow> bracket_state option or_panic" where
  "bracket_class mode pattern t_ch p_idx p prev_p_ch matched p_idx_ofs =
     (let p = skip_to_close mode (fst p + 1) (drop 1 (snd p)) in
        (case iter_next mode p of
           None \<Rightarrow> Some None
         | Some ((closing_bracket_idx, _), p) \<Rightarrow>
             if closing_bracket_idx - p_idx < 3 then bracket_restart pattern t_ch p_idx prev_p_ch matched p_idx_ofs
             else
               (case get_at pattern (closing_bracket_idx - 1) of
                  None \<Rightarrow> None
                | Some c \<Rightarrow>
                    if c \<noteq> COLON then bracket_restart pattern t_ch p_idx prev_p_ch matched p_idx_ofs
                    else
                      (case get_range pattern (p_idx + 2) (closing_bracket_idx - 1) of
                         None \<Rightarrow> None
                       | Some name \<Rightarrow>
                           (case class_matches mode name t_ch of
                              None \<Rightarrow> Some None
                            | Some m \<Rightarrow> Some (Some (p, 0, (if m then True else matched), p_idx_ofs)))))))"

definition bracket_item ::
    "wildmatch_mode \<Rightarrow> bytes \<Rightarrow> u8 \<Rightarrow> nat \<Rightarrow> u8 \<Rightarrow> bracket_state \<Rightarrow> bracket_state option or_panic" where
  "bracket_item mode pattern t_ch p_idx p_ch st =
     (case st of (p, prev_p_ch, matched, p_idx_ofs) \<Rightarrow>
        if p_ch = BACKSLASH then
          (case iter_next mode p of
             None \<Rightarrow> Some None
           | Some ((_, p_ch), p) \<Rightarrow>
               Some (Some (if p_ch = t_ch then (p, prev_p_ch, True, p_idx_ofs) else (p, p_ch, matched, p_idx_ofs))))
        else if p_ch = 0x2d \<and> prev_p_ch \<noteq> 0 \<and> iter_peek mode p \<noteq> None \<and> iter_peek mode p \<noteq> Some BRACKET_CLOSE then
          (case iter_next mode p of
             None \<Rightarrow> None
           | Some ((_, p_ch), p) \<Rightarrow>
               if p_ch = BACKSLASH then
                 (case iter_next mode p of
                    None \<Rightarrow> Some None
                  | Some ((_, p_ch), p) \<Rightarrow> Some (Some (p, 0, in_range mode prev_p_ch p_ch t_ch \<or> matched, p_idx_ofs)))
               else Some (Some (p, 0, in_range mode prev_p_ch p_ch t_ch \<or> matched, p_idx_ofs)))
        else if p_ch = BRACKET_OPEN \<and> iter_peek mode p = Some COLON then
          bracket_class mode pattern t_ch p_idx p prev_p_ch matched p_idx_ofs
        else Some (Some (p, p_ch, p_ch = t_ch \<or> matched, p_idx_ofs)))"

text \<open>
  The restart with index 0 cannot happen: a bracket expression is entered with the index of a byte behind its opening bracket
  (\<open>bracket_loop\<close> is called with positive indices only); the case makes the recursion evidently finite.
\<close>

lemma iter_next_shorter: "iter_next mode p = Some (x, q) \<Longrightarrow> length (snd q) < length (snd p)"
  by (cases p; cases "snd p") auto

lemma skip_to_close_length: "length (snd (skip_to_close mode i cs)) \<le> length cs"
  by (induction cs arbitrary: i) (auto simp: le_SucI)

lemma bracket_restart_progress:
  assumes "bracket_restart pattern t_ch p_idx prev m ofs = Some (Some (q, prev', m', ofs'))" "ofs \<le> p_idx"
  shows "ofs < ofs' \<and> ofs \<le> length pattern"
  using assms by (auto simp: bracket_restart_def Let_def split: if_splits)

lemma bracket_class_progress:
  assumes "bracket_class mode pattern t_ch p_idx p prev m ofs = Some (Some (q, prev', m', ofs'))" "ofs \<le> p_idx"
  shows "ofs' = ofs \<and> length (snd q) \<le> length (snd p) \<or> ofs < ofs' \<and> ofs \<le> length pattern"
proof -
  define r where "r = skip_to_close mode (fst p + 1) (drop 1 (snd p))"
  have r: "length (snd r) \<le> length (snd p)" using skip_to_close_length [of mode "fst p + 1" "drop 1 (snd p)"] by (simp add: r_def)
  obtain x q' where n: "iter_next mode r = Some (x, q')"
    using assms(1) unfolding bracket_class_def Let_def r_def [symmetric] by (cases "iter_next mode r") auto
  then have "length (snd q') \<le> length (snd p)" using iter_next_shorter [OF n] r by simp
  then show ?thesis
    using assms(1) bracket_restart_progress [OF _ assms(2), of pattern t_ch prev m q prev' m' ofs']
    unfolding bracket_class_def Let_def r_def [symmetric] n
    by (cases x) (auto split: if_splits option.splits)
qed

lemma bracket_item_progress:
  assumes "bracket_item mode pattern t_ch p_idx p_ch (p, prev, m, ofs) = Some (Some (q, prev', m', ofs'))" "ofs \<le> p_idx"
  shows "ofs' = ofs \<and> length (snd q) \<le> length (snd p) \<or> ofs < ofs' \<and> ofs \<le> length pattern"
  using assms bracket_class_progress [OF _ assms(2), of mode pattern t_ch p prev m q prev' m' ofs']
  by (auto simp: bracket_item_def less_imp_le split: if_splits option.splits dest!: iter_next_shorter)

text \<open>The loop, with \<open>next\<close> at hand; \<open>Some None\<close> stands for \<^verbatim>\<open>AbortAll\<close>, otherwise the iterator behind the bracket is returned.\<close>

function bracket_loop ::
    "wildmatch_mode \<Rightarrow> bytes \<Rightarrow> u8 \<Rightarrow> nat \<Rightarrow> u8 \<Rightarrow> bracket_state \<Rightarrow> (bool \<times> iter) option or_panic" where
  "bracket_loop mode pattern t_ch i p_ch (p, prev_p_ch, matched, p_idx_ofs) =
     (case bracket_item mode pattern t_ch (i + p_idx_ofs) p_ch (p, prev_p_ch, matched, p_idx_ofs) of
        None \<Rightarrow> None
      | Some None \<Rightarrow> Some None
      | Some (Some (p, prev_p_ch, matched, p_idx_ofs)) \<Rightarrow>
          (case iter_next mode p of
             None \<Rightarrow> Some None
           | Some ((i, p_ch), p) \<Rightarrow>
               if p_ch = BRACKET_CLOSE then Some (Some (matched, p))
               else bracket_loop mode pattern t_ch i p_ch (p, prev_p_ch, matched, p_idx_ofs)))"
  by pat_completeness auto
termination
proof (relation "measures [\<lambda>(mode, pattern, t_ch, i, p_ch, p, prev, m, ofs). length pattern + 1 - ofs,
    \<lambda>(mode, pattern, t_ch, i, p_ch, p, prev, m, ofs). length (snd p)]", goal_cases)
  case (2 mode pattern t_ch i p_ch p prev m ofs x st q y prev' z m' ofs' n w q' j c)
  have "bracket_item mode pattern t_ch (i + ofs) p_ch (p, prev, m, ofs) = Some (Some (q, prev', m', ofs'))"
    "iter_next mode q = Some ((j, c), q')" using 2 by simp_all
  then show ?case using bracket_item_progress [of mode pattern t_ch "i + ofs" p_ch p prev m ofs q prev' m' ofs'] iter_next_shorter
    by fastforce
qed simp

declare bracket_loop.simps [simp del]

text \<open>A bracket expression as a whole: behind the opening bracket.\<close>

definition match_bracket :: "wildmatch_mode \<Rightarrow> bytes \<Rightarrow> u8 \<Rightarrow> iter \<Rightarrow> (bool \<times> iter) option or_panic" where
  "match_bracket mode pattern t_ch p =
     (case iter_next mode p of
        None \<Rightarrow> Some None
      | Some ((p_idx, p_ch), p) \<Rightarrow>
          (let p_ch = (if p_ch = 0x5e then NEGATE_CLASS else p_ch);
               negated = (p_ch = NEGATE_CLASS) in
           case (if negated then iter_next mode p else Some ((p_idx, p_ch), p)) of
             None \<Rightarrow> Some None
           | Some ((i, c), p) \<Rightarrow>
               (case bracket_loop mode pattern t_ch i c (p, 0, False, 0) of
                  None \<Rightarrow> None
                | Some None \<Rightarrow> Some None
                | Some (Some (matched, p)) \<Rightarrow>
                    Some (Some (\<not> (matched = negated \<or> NO_MATCH_SLASH_LITERAL mode \<and> t_ch = SLASH), p)))))"

section \<open>Stars\<close>

fun skip_stars :: "wildmatch_mode \<Rightarrow> nat \<Rightarrow> bytes \<Rightarrow> iter" where
  "skip_stars mode i [] = (i, [])"
| "skip_stars mode i (c # cs) = (if possibly_lowercase mode c = STAR then skip_stars mode (Suc i) cs else (i, c # cs))"

text \<open>The inner loop that looks for a literal; the position and value of the current character and the rest of the text.\<close>

fun seek_literal :: "wildmatch_mode \<Rightarrow> bool \<Rightarrow> u8 \<Rightarrow> nat \<Rightarrow> u8 \<Rightarrow> nat \<Rightarrow> bytes \<Rightarrow> nat \<times> u8 \<times> iter" where
  "seek_literal mode match_slash p_ch t_idx t_ch i [] = (t_idx, t_ch, (i, []))"
| "seek_literal mode match_slash p_ch t_idx t_ch i (c # cs) =
     (if \<not> match_slash \<and> t_ch = SLASH \<or> t_ch = p_ch then (t_idx, t_ch, (i, c # cs))
      else seek_literal mode match_slash p_ch i (possibly_lowercase mode c) (Suc i) cs)"

lemma seek_literal_length: "seek_literal mode ms p_ch t_idx t_ch i cs = (a, b, t) \<Longrightarrow> length (snd t) \<le> length cs"
  by (induction mode ms p_ch t_idx t_ch i cs rule: seek_literal.induct) (auto simp: le_SucI split: if_splits)

text \<open>The loop that tries the rest of the pattern at every position; \<open>recurse\<close> is the matcher one level deeper.\<close>

type_synonym matcher = "bytes \<Rightarrow> bytes \<Rightarrow> match_result or_panic"

function star_loop ::
    "matcher \<Rightarrow> wildmatch_mode \<Rightarrow> bytes \<Rightarrow> bytes \<Rightarrow> bool \<Rightarrow> nat \<Rightarrow> u8 \<Rightarrow> nat \<Rightarrow> u8 \<Rightarrow> iter \<Rightarrow> match_result or_panic" where
  "star_loop recurse mode pattern text match_slash p_idx p_ch t_idx t_ch t =
     (let is_literal = (p_ch \<notin> set GLOB_CHARACTERS) in
      case (if is_literal then seek_literal mode match_slash p_ch t_idx t_ch (fst t) (snd t) else (t_idx, t_ch, t)) of
        (t_idx, t_ch, t) \<Rightarrow>
          if is_literal \<and> t_ch \<noteq> p_ch then Some NoMatch
          else
            (case (slice_from pattern p_idx, slice_from text t_idx) of
               (Some sub_pattern, Some sub_text) \<Rightarrow>
                 (case recurse sub_pattern sub_text of
                    None \<Rightarrow> None
                  | Some res \<Rightarrow>
                      if res \<noteq> NoMatch \<and> (\<not> match_slash \<or> res \<noteq> AbortToStarStar) then Some res
                      else if res = NoMatch \<and> \<not> match_slash \<and> t_ch = SLASH then Some AbortToStarStar
                      else
                        (case iter_next mode t of
                           Some ((t_idx, t_ch), t) \<Rightarrow> star_loop recurse mode pattern text match_slash p_idx p_ch t_idx t_ch t
                         | None \<Rightarrow> Some AbortAll))
             | _ \<Rightarrow> None))"
  by pat_completeness auto
termination
proof (relation "measure (\<lambda>(recurse, mode, pattern, text, ms, p_idx, p_ch, t_idx, t_ch, t). length (snd t))", goal_cases)
  case (2 recurse mode pattern tx ms p_idx p_ch t_idx t_ch t is_lit x y z w u v a b c d e g h k)
  then have w: "(if is_lit then seek_literal mode ms p_ch t_idx t_ch (fst t) (snd t) else (t_idx, t_ch, t)) = (x, z, w)"
    and "iter_next mode w = Some ((h, k), g)" by simp_all
  then have "length (snd g) < length (snd w)" using iter_next_shorter by blast
  moreover have "length (snd w) \<le> length (snd t)"
    using w seek_literal_length [of mode ms p_ch t_idx t_ch "fst t" "snd t"] by (cases is_lit) auto
  ultimately show ?case by simp
qed simp

declare star_loop.simps [simp del]

text \<open>A star either makes the matcher return or go on with other iterators.\<close>

datatype star_step = StarReturn match_result | StarContinue iter iter

definition trailing_star :: "bytes \<Rightarrow> nat \<Rightarrow> bool \<Rightarrow> star_step or_panic" where
  "trailing_star text t_idx match_slash =
     (case slice_from text t_idx of
        None \<Rightarrow> None
      | Some rest \<Rightarrow> Some (StarReturn (if \<not> match_slash \<and> SLASH \<in> set rest then NoMatch else Match)))"

definition star_rest ::
    "bstr \<Rightarrow> matcher \<Rightarrow> wildmatch_mode \<Rightarrow> bytes \<Rightarrow> bytes \<Rightarrow> bool \<Rightarrow> ((nat \<times> u8) option) \<Rightarrow> iter \<Rightarrow> nat \<Rightarrow> u8 \<Rightarrow> iter \<Rightarrow>
     star_step or_panic" where
  "star_rest bs recurse mode pattern text match_slash nxt p t_idx t_ch t =
     (case nxt of
        None \<Rightarrow> trailing_star text t_idx match_slash
      | Some (p_idx, p_ch) \<Rightarrow>
          if \<not> match_slash \<and> p_ch = SLASH then
            (case slice_from text t_idx of
               None \<Rightarrow> None
             | Some rest \<Rightarrow>
                 (case find_byte bs rest SLASH of
                    Some distance_to_slash \<Rightarrow>
                      Some (StarContinue p (fst t + min distance_to_slash (length (snd t)), drop distance_to_slash (snd t)))
                  | None \<Rightarrow> Some (StarReturn NoMatch)))
          else map_option StarReturn (star_loop recurse mode pattern text match_slash p_idx p_ch t_idx t_ch t))"

text \<open>Two stars stand at a boundary if a slash or nothing is in front of them and a slash or nothing behind.\<close>

definition double_star_bounded :: "wildmatch_mode \<Rightarrow> bytes \<Rightarrow> nat \<Rightarrow> ((nat \<times> u8) option) \<Rightarrow> iter \<Rightarrow> bool or_panic" where
  "double_star_bounded mode pattern p_idx nxt p =
     (let follows = (case nxt of
            None \<Rightarrow> True
          | Some (_, c) \<Rightarrow> c = SLASH \<or> c = BACKSLASH \<and> iter_peek mode p = Some SLASH) in
      if p_idx = 0 then Some follows
      else map_option (\<lambda>c. c = SLASH \<and> follows) (get_at pattern (p_idx - 1)))"

definition double_star_skip :: "matcher \<Rightarrow> bytes \<Rightarrow> bytes \<Rightarrow> ((nat \<times> u8) option) \<Rightarrow> nat \<Rightarrow> match_result or_panic" where
  "double_star_skip recurse pattern text nxt t_idx =
     (case nxt of
        None \<Rightarrow> Some NoMatch
      | Some (idx, _) \<Rightarrow>
          (case (slice_from pattern (idx + 1), slice_from text t_idx) of
             (Some sub_pattern, Some sub_text) \<Rightarrow> recurse sub_pattern sub_text
           | _ \<Rightarrow> None))"

definition match_star ::
    "bstr \<Rightarrow> matcher \<Rightarrow> wildmatch_mode \<Rightarrow> bytes \<Rightarrow> bytes \<Rightarrow> nat \<Rightarrow> iter \<Rightarrow> nat \<Rightarrow> u8 \<Rightarrow> iter \<Rightarrow> star_step or_panic" where
  "match_star bs recurse mode pattern text p_idx p t_idx t_ch t =
     (let match_slash = (\<not> NO_MATCH_SLASH_LITERAL mode) in
      case iter_next mode p of
        None \<Rightarrow> trailing_star text t_idx match_slash
      | Some ((next_p_idx, next_p_ch), p) \<Rightarrow>
          if next_p_ch = STAR then
            (let p = skip_stars mode (fst p) (snd p);
                 (nxt, p) = (case iter_next mode p of None \<Rightarrow> (None, p) | Some (x, p) \<Rightarrow> (Some x, p)) in
             if \<not> NO_MATCH_SLASH_LITERAL mode then star_rest bs recurse mode pattern text True nxt p t_idx t_ch t
             else
               (case double_star_bounded mode pattern p_idx nxt p of
                  None \<Rightarrow> None
                | Some bounded \<Rightarrow>
                    if bounded then
                      (case double_star_skip recurse pattern text nxt t_idx of
                         None \<Rightarrow> None
                       | Some res \<Rightarrow>
                           if res = Match then Some (StarReturn Match)
                           else star_rest bs recurse mode pattern text True nxt p t_idx t_ch t)
                    else star_rest bs recurse mode pattern text False nxt p t_idx t_ch t))
          else star_rest bs recurse mode pattern text match_slash (Some (next_p_idx, next_p_ch)) p t_idx t_ch t)"

section \<open>The matcher\<close>

lemma skip_stars_length: "length (snd (skip_stars mode i cs)) \<le> length cs"
  by (induction cs arbitrary: i) (auto simp: le_SucI)

lemma star_rest_shorter:
  "star_rest bs recurse mode pattern t0 ms nxt p t_idx t_ch t = Some (StarContinue q u) \<Longrightarrow> q = p \<and> length (snd u) \<le> length (snd t)"
  by (auto simp: star_rest_def trailing_star_def split: option.splits if_splits prod.splits)

lemma match_star_shorter:
  assumes "match_star bs recurse mode pattern t0 p_idx p t_idx t_ch t = Some (StarContinue q u)"
  shows "length (snd q) \<le> length (snd p) \<and> length (snd u) \<le> length (snd t)"
proof (cases "iter_next mode p")
  case None
  then show ?thesis using assms by (auto simp: match_star_def trailing_star_def split: option.splits)
next
  case (Some n)
  obtain i c r where n: "n = ((i, c), r)" by (metis surj_pair)
  have r: "length (snd r) \<le> length (snd p)" using iter_next_shorter [of mode p] Some n by fastforce
  define s where "s = skip_stars mode (fst r) (snd r)"
  have s: "length (snd s) \<le> length (snd p)" using skip_stars_length [of mode "fst r" "snd r"] r by (simp add: s_def)
  define after where "after = (case iter_next mode s of None \<Rightarrow> (None, s) | Some (x, p) \<Rightarrow> (Some x, p))"
  have "length (snd (snd after)) \<le> length (snd p)"
    using s iter_next_shorter [of mode s] by (fastforce simp: after_def split: option.split prod.split)
  then show ?thesis
    using assms r unfolding match_star_def Let_def Some n option.case prod.case s_def [symmetric] after_def [symmetric]
    by (auto dest!: star_rest_shorter split: if_splits option.splits prod.splits)
qed

function match_loop :: "bstr \<Rightarrow> matcher \<Rightarrow> wildmatch_mode \<Rightarrow> bytes \<Rightarrow> bytes \<Rightarrow> iter \<Rightarrow> iter \<Rightarrow> match_result or_panic" where
  "match_loop bs recurse mode pattern text p t =
     (case iter_next mode p of
        None \<Rightarrow> Some (if iter_next mode t = None then Match else NoMatch)
      | Some ((p_idx, p_ch), p) \<Rightarrow>
          if iter_next mode t = None \<and> p_ch \<noteq> STAR then Some AbortAll
          else
            (case (case iter_next mode t of None \<Rightarrow> ((length text, 0), t) | Some x \<Rightarrow> x) of ((t_idx, t_ch), t) \<Rightarrow>
               if p_ch = BACKSLASH then
                 (case iter_next mode p of
                    Some ((_, p_ch), p) \<Rightarrow>
                      if p_ch \<noteq> t_ch then Some NoMatch else match_loop bs recurse mode pattern text p t
                  | None \<Rightarrow> Some NoMatch)
               else if p_ch = 0x3f then
                 (if NO_MATCH_SLASH_LITERAL mode \<and> t_ch = SLASH then Some NoMatch
                  else match_loop bs recurse mode pattern text p t)
               else if p_ch = STAR then
                 (case match_star bs recurse mode pattern text p_idx p t_idx t_ch t of
                    None \<Rightarrow> None
                  | Some (StarReturn res) \<Rightarrow> Some res
                  | Some (StarContinue p t) \<Rightarrow> match_loop bs recurse mode pattern text p t)
               else if p_ch = BRACKET_OPEN then
                 (case match_bracket mode pattern t_ch p of
                    None \<Rightarrow> None
                  | Some None \<Rightarrow> Some AbortAll
                  | Some (Some (accepted, p)) \<Rightarrow>
                      if \<not> accepted then Some NoMatch else match_loop bs recurse mode pattern text p t)
               else if p_ch \<noteq> t_ch then Some NoMatch
               else match_loop bs recurse mode pattern text p t))"
  by pat_completeness auto
termination
  by (relation "measures [\<lambda>(bs, recurse, mode, pattern, text, p, t). length (snd t),
      \<lambda>(bs, recurse, mode, pattern, text, p, t). length (snd p)]")
    (auto dest!: iter_next_shorter match_star_shorter split: option.splits)

declare match_loop.simps [simp del]

fun match_recursive :: "nat \<Rightarrow> bstr \<Rightarrow> wildmatch_mode \<Rightarrow> bytes \<Rightarrow> bytes \<Rightarrow> match_result or_panic" where
  "match_recursive 0 bs mode pattern text = Some RecursionLimitReached"
| "match_recursive (Suc levels) bs mode pattern text =
     match_loop bs (match_recursive levels bs mode) mode pattern text (0, pattern) (0, text)"

definition wildmatch :: "bstr \<Rightarrow> bytes \<Rightarrow> bytes \<Rightarrow> wildmatch_mode \<Rightarrow> bool or_panic" where
  "wildmatch bs pattern val mode = map_option (\<lambda>res. res = Match) (match_recursive RECURSION_LIMIT bs mode pattern val)"

end
