(* ===== verification/Gix_Wildmatch_Spec.thy ===== *)
theory Gix_Wildmatch_Spec
  imports Gix_Wildmatch
begin

text \<open>
  What a glob pattern means, and that the matcher decides it.  \<open>glob\<close> describes the texts a pattern matches by recursion over the pattern alone,
  without indices, early aborts or a limit on the depth: a star stands for any number of bytes, or any number of bytes that are no slash, and two stars
  between slashes also for no directory at all.  The correctness proof attaches to every result of the matcher what it promises about the
  text, in particular what the two abort results promise about the suffixes a caller does not have to try.
\<close>

section \<open>Specification\<close>

text \<open>An element of a bracket expression whose first byte was taken: the previous character, whether the text matched, and the rest.\<close>

definition bracket_element :: "wildmatch_mode \<Rightarrow> u8 \<Rightarrow> u8 \<Rightarrow> bool \<Rightarrow> u8 \<Rightarrow> bytes \<Rightarrow> (u8 \<times> bool \<times> bytes) option" where
  "bracket_element m t prev matched c rest =
     (if c = BACKSLASH then
        (case rest of
           [] \<Rightarrow> None
         | d # r \<Rightarrow> Some (if possibly_lowercase m d = t then (prev, True, r) else (possibly_lowercase m d, matched, r)))
      else if c = 0x2d \<and> prev \<noteq> 0 \<and> rest \<noteq> [] \<and> hd rest \<noteq> BRACKET_CLOSE then
        (if hd rest = BACKSLASH then
           (case tl rest of
              [] \<Rightarrow> None
            | e # r \<Rightarrow> Some (0, in_range m prev (possibly_lowercase m e) t \<or> matched, r))
         else Some (0, in_range m prev (possibly_lowercase m (hd rest)) t \<or> matched, tl rest))
      else if c = BRACKET_OPEN \<and> rest \<noteq> [] \<and> hd rest = COLON then
        (case dropWhile (\<lambda>d. d \<noteq> BRACKET_CLOSE) (tl rest) of
           [] \<Rightarrow> None
         | _ # r \<Rightarrow>
             map_option (\<lambda>k. (0, k \<or> matched, r)) (class_matches m (butlast (takeWhile (\<lambda>d. d \<noteq> BRACKET_CLOSE) (tl rest))) t))
      else Some (c, c = t \<or> matched, rest))"

lemma bracket_element_shorter: "bracket_element m t prev matched c rest = Some (prev', matched', r) \<Longrightarrow> length r \<le> length rest"
proof -
  have "length (d # r) \<le> length xs" if "dropWhile P xs = d # r" for d r xs and P :: "u8 \<Rightarrow> bool"
    using that length_dropWhile_le [of P xs] by simp
  then show "bracket_element m t prev matched c rest = Some (prev', matched', r) \<Longrightarrow> length r \<le> length rest"
    by (cases rest) (fastforce simp: bracket_element_def split: if_splits list.splits)+
qed

function bracket_elements :: "wildmatch_mode \<Rightarrow> u8 \<Rightarrow> u8 \<Rightarrow> bool \<Rightarrow> u8 \<Rightarrow> bytes \<Rightarrow> (bool \<times> bytes) option" where
  "bracket_elements m t prev matched c rest =
     (case bracket_element m t prev matched c rest of
        None \<Rightarrow> None
      | Some (prev, matched, rest) \<Rightarrow>
          (case rest of
             [] \<Rightarrow> None
           | d # rest \<Rightarrow>
               if d = BRACKET_CLOSE then Some (matched, rest)
               else bracket_elements m t prev matched (possibly_lowercase m d) rest))"
  by pat_completeness auto
termination
  by (relation "measure (\<lambda>(m, t, prev, matched, c, rest). length rest)") (auto dest!: bracket_element_shorter)

declare bracket_elements.simps [simp del]

text \<open>A bracket expression behind its opening bracket: whether it accepts the byte, and the rest of the pattern.\<close>

definition bracket_accepts :: "wildmatch_mode \<Rightarrow> u8 \<Rightarrow> bytes \<Rightarrow> (bool \<times> bytes) option" where
  "bracket_accepts m t ps =
     (let negated = (ps \<noteq> [] \<and> hd ps \<in> {0x5e, NEGATE_CLASS}) in
      case (if negated then tl ps else ps) of
        [] \<Rightarrow> None
      | c # rest \<Rightarrow>
          map_option (\<lambda>(matched, rest). (matched \<noteq> negated \<and> \<not> (NO_MATCH_SLASH_LITERAL m \<and> t = SLASH), rest))
            (bracket_elements m t 0 False (possibly_lowercase m c) rest))"

lemma bracket_elements_shorter: "bracket_elements m t prev matched c rest = Some (b, r) \<Longrightarrow> length r < length rest"
proof (induction m t prev matched c rest rule: bracket_elements.induct)
  case (1 m t prev matched c rest)
  then obtain prev' m' rest' where e: "bracket_element m t prev matched c rest = Some (prev', m', rest')"
    by (auto simp: bracket_elements.simps [of m t prev matched c rest] split: option.splits)
  then have le: "length rest' \<le> length rest" by (rule bracket_element_shorter)
  then show ?case using 1 e
    by (fastforce simp: bracket_elements.simps [of m t prev matched c rest] split: list.splits if_splits)
qed

lemma bracket_accepts_shorter: "bracket_accepts m t ps = Some (b, r) \<Longrightarrow> length r < length ps"
  by (cases ps; cases "tl ps")
    (auto simp: bracket_accepts_def Let_def split: if_splits list.splits dest!: bracket_elements_shorter)

text \<open>The texts a pattern matches; \<open>prev\<close> is the byte in front of the pattern.\<close>

definition at_boundary :: "u8 option \<Rightarrow> bool" where "at_boundary prev \<longleftrightarrow> prev \<in> {None, Some SLASH}"

definition slash_follows :: "bytes \<Rightarrow> bool" where
  "slash_follows r \<longleftrightarrow> r = [] \<or> hd r = SLASH \<or> prefix [BACKSLASH, SLASH] r"

function glob :: "wildmatch_mode \<Rightarrow> u8 option \<Rightarrow> bytes \<Rightarrow> bytes \<Rightarrow> bool" where
  "glob m prev [] t \<longleftrightarrow> t = []"
| "glob m prev (c # ps) t \<longleftrightarrow>
     (if c = STAR then
        (let r = dropWhile (\<lambda>d. d = STAR) ps in
         if \<not> NO_MATCH_SLASH_LITERAL m then \<exists>k\<le>length t. glob m (Some STAR) r (drop k t)
         else if ps \<noteq> [] \<and> hd ps = STAR \<and> at_boundary prev \<and> slash_follows r then
           r \<noteq> [] \<and> glob m (Some (hd r)) (tl r) t \<or> (\<exists>k\<le>length t. glob m (Some STAR) r (drop k t))
         else \<exists>k\<le>length t. SLASH \<notin> set (take k t) \<and> glob m (Some STAR) r (drop k t))
      else
        (case t of
           [] \<Rightarrow> False
         | x # ts \<Rightarrow>
             if c = BACKSLASH then
               (case ps of
                  [] \<Rightarrow> False
                | d # ps \<Rightarrow> possibly_lowercase m d = possibly_lowercase m x \<and> glob m (Some d) ps ts)
             else if c = 0x3f then \<not> (NO_MATCH_SLASH_LITERAL m \<and> x = SLASH) \<and> glob m (Some c) ps ts
             else if c = BRACKET_OPEN then
               (case bracket_accepts m (possibly_lowercase m x) ps of
                  None \<Rightarrow> False
                | Some (accepted, ps) \<Rightarrow> accepted \<and> glob m (Some BRACKET_CLOSE) ps ts)
             else possibly_lowercase m c = possibly_lowercase m x \<and> glob m (Some c) ps ts))"
  by pat_completeness auto
termination
  by (relation "measure (\<lambda>(m, prev, ps, t). length ps)")
    (auto simp: less_Suc_eq_le length_dropWhile_le le_trans [OF diff_le_self length_dropWhile_le] dest!: bracket_accepts_shorter)

declare glob.simps [simp del]

text \<open>
  Inside a bracket expression, \<^verbatim>\<open>[:\<close> has to start a named class: the next closing bracket follows a colon that is not the one of the opening.
\<close>

fun regular_classes :: "bytes \<Rightarrow> bool" where
  "regular_classes [] = True"
| "regular_classes (c # cs) =
     ((case cs of
         [] \<Rightarrow> True
       | d # ds \<Rightarrow>
           c = BRACKET_OPEN \<and> d = COLON \<and> BRACKET_CLOSE \<in> set ds \<longrightarrow>
             takeWhile (\<lambda>e. e \<noteq> BRACKET_CLOSE) ds \<noteq> [] \<and> last (takeWhile (\<lambda>e. e \<noteq> BRACKET_CLOSE) ds) = COLON) \<and>
      regular_classes cs)"

section \<open>Iterators over suffixes\<close>

lemma lower_fixed:
  assumes "d \<in> {STAR, BACKSLASH, SLASH, BRACKET_OPEN, BRACKET_CLOSE, COLON, 0x3f, 0x2d, 0x5e, 0x21}"
  shows "possibly_lowercase m c = d \<longleftrightarrow> c = d"
proof -
  have "\<not> is_ascii_uppercase d" using assms by (auto simp: is_ascii_uppercase_def)
  moreover have "to_ascii_lowercase c \<noteq> d" if "is_ascii_uppercase c"
  proof -
    have "unat c \<in> set [0x41..<0x5b]" unfolding set_upt using that by (simp add: is_ascii_uppercase_def word_le_nat_alt)
    then have "is_ascii_lowercase (to_ascii_lowercase c)" by (rule byte_cases [rotated]) code_simp
    then show ?thesis using assms by (auto simp: is_ascii_lowercase_def)
  qed
  ultimately show ?thesis by (auto simp: possibly_lowercase_def to_ascii_lowercase_def)
qed

lemmas lower_fixed_simps [simp] =
  lower_fixed [of STAR, simplified] lower_fixed [of BACKSLASH, simplified] lower_fixed [of SLASH, simplified]
  lower_fixed [of BRACKET_OPEN, simplified] lower_fixed [of BRACKET_CLOSE, simplified] lower_fixed [of COLON, simplified]
  lower_fixed [of "0x3f", simplified] lower_fixed [of "0x2d", simplified] lower_fixed [of "0x5e", simplified]
  lower_fixed [of "0x21", simplified]

lemma lower_slash [simp]: "possibly_lowercase m SLASH = possibly_lowercase m a \<longleftrightarrow> a = SLASH"
proof -
  have s: "possibly_lowercase m SLASH = SLASH" using lower_fixed [of SLASH m SLASH] by blast
  have "possibly_lowercase m a = SLASH \<longleftrightarrow> a = SLASH" by (rule lower_fixed) simp
  then show ?thesis unfolding s by metis
qed

text \<open>The iterator that has \<open>rest\<close>, a suffix of the whole, left.\<close>

definition iter_at :: "bytes \<Rightarrow> bytes \<Rightarrow> iter" where "iter_at whole rest = (length whole - length rest, rest)"

lemma iter_at_start: "(0, xs) = iter_at xs xs"
  by (simp add: iter_at_def)

lemma iter_next_at:
  assumes "suffix (c # cs) whole"
  shows "iter_next m (iter_at whole (c # cs)) = Some ((length whole - length (c # cs), possibly_lowercase m c), iter_at whole cs)"
  using suffix_length_le [OF assms] by (simp add: iter_at_def Suc_diff_Suc)

lemma iter_next_at_Nil [simp]: "iter_next m (iter_at whole []) = None"
  by (simp add: iter_at_def)

lemma iter_peek_at: "iter_peek m (iter_at whole rest) = (case rest of [] \<Rightarrow> None | c # cs \<Rightarrow> Some (possibly_lowercase m c))"
  by (cases rest) (simp_all add: iter_peek_def iter_at_def)

lemma slice_from_suffix: "suffix rest whole \<Longrightarrow> slice_from whole (length whole - length rest) = Some rest"
  by (auto simp: slice_from_def suffix_def)

lemma suffix_Cons_tl: "suffix (c # cs) whole \<Longrightarrow> suffix cs whole"
  by (auto simp: suffix_def)

lemma regular_classes_suffix: "suffix rest whole \<Longrightarrow> regular_classes whole \<Longrightarrow> regular_classes rest"
proof -
  have "regular_classes (pre @ rest) \<Longrightarrow> regular_classes rest" for pre by (induction pre) auto
  then show "suffix rest whole \<Longrightarrow> regular_classes whole \<Longrightarrow> regular_classes rest" by (auto simp: suffix_def)
qed

section \<open>Bracket expressions\<close>

lemma skip_to_close_eq:
  "skip_to_close m i cs = (i + length (takeWhile (\<lambda>d. d \<noteq> BRACKET_CLOSE) cs), dropWhile (\<lambda>d. d \<noteq> BRACKET_CLOSE) cs)"
  by (induction cs arbitrary: i) simp_all

lemma bracket_class_at:
  assumes "suffix (BRACKET_OPEN # COLON # rest) pattern" "regular_classes pattern" "p_idx = length pattern - length (BRACKET_OPEN # COLON # rest)"
  shows "bracket_class m pattern t p_idx (iter_at pattern (COLON # rest)) prev matched 0 =
    Some (case dropWhile (\<lambda>d. d \<noteq> BRACKET_CLOSE) rest of
        [] \<Rightarrow> None
      | _ # r \<Rightarrow>
          map_option (\<lambda>k. (iter_at pattern r, 0, k \<or> matched, 0))
            (class_matches m (butlast (takeWhile (\<lambda>d. d \<noteq> BRACKET_CLOSE) rest)) t))"
proof -
  obtain pre where pattern: "pattern = pre @ BRACKET_OPEN # COLON # rest" using assms(1) by (auto simp: suffix_def)
  then have idx: "p_idx = length pre" using assms(3) by simp
  define name where "name = takeWhile (\<lambda>d. d \<noteq> BRACKET_CLOSE) rest"
  have start: "skip_to_close m (fst (iter_at pattern (COLON # rest)) + 1) (drop 1 (snd (iter_at pattern (COLON # rest)))) =
      (length pre + 2 + length name, dropWhile (\<lambda>d. d \<noteq> BRACKET_CLOSE) rest)"
    by (simp add: skip_to_close_eq iter_at_def pattern name_def)
  show ?thesis
  proof (cases "dropWhile (\<lambda>d. d \<noteq> BRACKET_CLOSE) rest")
    case Nil
    show ?thesis unfolding bracket_class_def start Let_def Nil by simp
  next
    case (Cons b r)
    have b: "b = BRACKET_CLOSE" using hd_dropWhile [of "\<lambda>d. d \<noteq> BRACKET_CLOSE" rest] Cons by simp
    have rest: "rest = name @ BRACKET_CLOSE # r" using takeWhile_dropWhile_id [of "\<lambda>d. d \<noteq> BRACKET_CLOSE" rest] Cons b by (simp add: name_def)
    have "regular_classes (BRACKET_OPEN # COLON # rest)" using regular_classes_suffix [OF assms(1,2)] .
    then have reg: "BRACKET_CLOSE \<in> set rest \<longrightarrow> name \<noteq> [] \<and> last name = COLON" by (simp add: name_def)
    moreover have "BRACKET_CLOSE \<in> set rest" by (subst rest) simp
    ultimately have name: "name \<noteq> []" "last name = COLON" by simp_all
    define nm where "nm = butlast name"
    have name_eq: "name = nm @ [COLON]" using name append_butlast_last_id [of name] by (simp add: nm_def)
    have whole: "pattern = (pre @ BRACKET_OPEN # COLON # nm) @ COLON # BRACKET_CLOSE # r" unfolding pattern by (subst rest) (simp add: name_eq)
    have close: "get_at pattern (length pre + 2 + length name - 1) = Some COLON"
      unfolding whole name_eq by (simp add: get_at_def nth_append)
    have range: "get_range pattern (length pre + 2) (length pre + 2 + length name - 1) = Some nm"
      unfolding whole name_eq by (simp add: get_range_def)
    have it: "(Suc (length pre + 2 + length name), r) = iter_at pattern r"
      unfolding whole name_eq by (simp add: iter_at_def)
    have nx: "iter_next m (length pre + 2 + length name, dropWhile (\<lambda>d. d \<noteq> BRACKET_CLOSE) rest) =
        Some ((length pre + 2 + length name, possibly_lowercase m b), iter_at pattern r)"
      by (simp only: Cons iter_next.simps it)
    have far: "\<not> length pre + 2 + length name - length pre < 3" using name(1) by (cases name) simp_all
    show ?thesis
      unfolding bracket_class_def start Let_def nx option.case prod.case idx close range
      unfolding Cons name_def [symmetric] nm_def [symmetric] list.case
      by (cases "class_matches m nm t") (simp_all add: far name(1))
  qed
qed

lemma bracket_item_at:
  assumes "suffix (raw # rest) pattern" "regular_classes pattern" "p_idx = length pattern - length (raw # rest)"
    "c = possibly_lowercase m raw"
  shows "bracket_item m pattern t p_idx c (iter_at pattern rest, prev, matched, 0) =
    Some (map_option (\<lambda>(prev, matched, r). (iter_at pattern r, prev, matched, 0)) (bracket_element m t prev matched c rest))"
proof (cases "c = BRACKET_OPEN \<and> rest \<noteq> [] \<and> hd rest = COLON")
  case True
  then obtain r where r: "rest = COLON # r" "raw = BRACKET_OPEN" using assms(4) by (cases rest) auto
  then have "bracket_item m pattern t p_idx c (iter_at pattern rest, prev, matched, 0) =
      bracket_class m pattern t p_idx (iter_at pattern (COLON # r)) prev matched 0"
    using True by (simp add: bracket_item_def iter_peek_at)
  also have "\<dots> = Some (map_option (\<lambda>(prev, matched, r). (iter_at pattern r, prev, matched, 0)) (bracket_element m t prev matched c rest))"
    using assms(1,3) True unfolding r
    by (subst bracket_class_at) (simp_all add: bracket_element_def assms(2) option.map_comp comp_def split: list.split del: dropWhile_eq_Nil_conv)
  finally show ?thesis .
next
  case False
  note nx = iter_next_at [where m = m and whole = pattern]
  have rest: "suffix rest pattern" "\<And>d r. rest = d # r \<Longrightarrow> suffix r pattern"
    using assms(1) suffix_Cons_tl by metis+
  show ?thesis
  proof (cases rest)
    case Nil
    then show ?thesis using False by (simp add: bracket_item_def bracket_element_def iter_peek_at)
  next
    case (Cons d r)
    have d: "iter_next m (iter_at pattern rest) = Some ((length pattern - length rest, possibly_lowercase m d), iter_at pattern r)"
      using nx rest(1) Cons by simp
    have e: "r = e # r' \<Longrightarrow> iter_next m (iter_at pattern r) = Some ((length pattern - length r, possibly_lowercase m e), iter_at pattern r')" for e r'
      using nx rest(2) Cons by simp
    show ?thesis using False d e Cons
      by (cases r) (auto simp: bracket_item_def bracket_element_def iter_peek_at)
  qed
qed

lemma bracket_element_suffix:
  assumes "bracket_element m t prev matched c rest = Some (prev', matched', r)"
  shows "suffix r rest"
proof -
  have "suffix r' xs" if "dropWhile P xs = d # r'" for d r' xs and P :: "u8 \<Rightarrow> bool"
    using suffix_dropWhile [of P xs] that suffix_Cons_tl by metis
  then show ?thesis using assms
    by (cases rest; cases "tl rest") (auto simp: bracket_element_def suffix_ConsI split: if_splits list.splits)
qed

lemma bracket_loop_at:
  assumes "suffix (raw # rest) pattern" "regular_classes pattern" "i = length pattern - length (raw # rest)" "c = possibly_lowercase m raw"
  shows "bracket_loop m pattern t i c (iter_at pattern rest, prev, matched, 0) =
    Some (map_option (\<lambda>(matched, r). (matched, iter_at pattern r)) (bracket_elements m t prev matched c rest))"
  using assms
proof (induction m t prev matched c rest arbitrary: raw i rule: bracket_elements.induct)
  case (1 m t prev matched c rest)
  note item = bracket_item_at [OF 1(2,3,4,5), of t prev matched]
  show ?case
  proof (cases "bracket_element m t prev matched c rest")
    case None
    then show ?thesis using item by (simp add: bracket_loop.simps bracket_elements.simps)
  next
    case (Some e)
    obtain prev' matched' r where e: "e = (prev', matched', r)" by (rule prod_cases3)
    have suf: "suffix r pattern" using bracket_element_suffix Some e 1(2) by (meson suffix_Cons_tl suffix_order.trans)
    show ?thesis
    proof (cases r)
      case Nil
      then show ?thesis using item Some e by (simp add: bracket_loop.simps bracket_elements.simps)
    next
      case (Cons d r')
      have nx: "iter_next m (iter_at pattern (d # r')) = Some ((length pattern - length (d # r'), possibly_lowercase m d), iter_at pattern r')"
        using iter_next_at suf Cons by blast
      have IH: "d \<noteq> BRACKET_CLOSE \<Longrightarrow> bracket_loop m pattern t (length pattern - length (d # r')) (possibly_lowercase m d)
            (iter_at pattern r', prev', matched', 0) =
          Some (map_option (\<lambda>(matched, r). (matched, iter_at pattern r)) (bracket_elements m t prev' matched' (possibly_lowercase m d) r'))"
        using 1(1) [OF Some, unfolded e, OF refl refl Cons _ _ 1(3) refl refl] suf Cons by simp
      show ?thesis
        unfolding bracket_loop.simps [of m pattern t i] add_0_right item Some e option.map option.case prod.case Cons nx
          bracket_elements.simps [of m t prev matched c rest] list.case
        using IH by simp
    qed
  qed
qed

lemma match_bracket_at:
  assumes "suffix ps pattern" "regular_classes pattern" "length ps < length pattern"
  shows "match_bracket m pattern t (iter_at pattern ps) =
    Some (map_option (\<lambda>(accepted, r). (accepted, iter_at pattern r)) (bracket_accepts m t ps))"
proof -
  note nx = iter_next_at [where m = m and whole = pattern]
  have loop: "bracket_loop m pattern t (length pattern - length (c # rest)) (possibly_lowercase m c) (iter_at pattern rest, 0, False, 0) =
      Some (map_option (\<lambda>(matched, r). (matched, iter_at pattern r)) (bracket_elements m t 0 False (possibly_lowercase m c) rest))"
    if "suffix (c # rest) pattern" for c rest using bracket_loop_at [OF that assms(2) refl refl] .
  show ?thesis
  proof (cases ps)
    case (Cons c rest)
    show ?thesis
    proof (cases "c \<in> {0x5e, NEGATE_CLASS}")
      case True
      show ?thesis
      proof (cases rest)
        case (Cons d rest')
        then have "suffix (d # rest') pattern" "suffix (c # d # rest') pattern" using assms(1) \<open>ps = c # rest\<close> suffix_Cons_tl by auto
        then show ?thesis using True nx [of c rest] nx [of d rest'] loop [of d rest'] \<open>ps = c # rest\<close> Cons
          by (auto simp: match_bracket_def bracket_accepts_def Let_def split: option.split)
      qed (use True nx [of c rest] assms(1) Cons in \<open>auto simp: match_bracket_def bracket_accepts_def Let_def\<close>)
    next
      case False
      then show ?thesis using nx [of c rest] loop [of c rest] assms(1) Cons
        by (auto simp: match_bracket_def bracket_accepts_def Let_def split: option.split)
    qed
  qed (simp add: match_bracket_def bracket_accepts_def Let_def)
qed

text \<open>
  Whether an escaped byte of a bracket expression is the start of a range depends on the text; without a dash behind escaped bytes, the end of the
  expression does not.
\<close>

fun regular_escapes :: "bytes \<Rightarrow> bool" where
  "regular_escapes (c # d # e # cs) = (\<not> (c = BACKSLASH \<and> e = 0x2d) \<and> regular_escapes (d # e # cs))"
| "regular_escapes cs = True"

lemma regular_escapes_Cons: "regular_escapes (c # cs) \<Longrightarrow> regular_escapes cs"
  by (cases cs rule: regular_escapes.cases) (auto elim: regular_escapes.elims)

lemma regular_escapes_suffix: "suffix rest whole \<Longrightarrow> regular_escapes whole \<Longrightarrow> regular_escapes rest"
proof -
  have "regular_escapes (pre @ rest) \<Longrightarrow> regular_escapes rest" for pre by (induction pre) (auto dest: regular_escapes_Cons)
  then show "suffix rest whole \<Longrightarrow> regular_escapes whole \<Longrightarrow> regular_escapes rest" by (auto simp: suffix_def)
qed

definition regular_pattern :: "bytes \<Rightarrow> bool" where
  "regular_pattern p \<longleftrightarrow> regular_classes p \<and> regular_escapes p"

lemma regular_pattern_suffix: "suffix rest whole \<Longrightarrow> regular_pattern whole \<Longrightarrow> regular_pattern rest"
  by (simp add: regular_pattern_def) (metis regular_classes_suffix regular_escapes_suffix)

lemma class_matches_uniform: "class_matches m name t = None \<longleftrightarrow> class_matches m name t' = None"
  by (simp add: class_matches_def)

text \<open>Two runs over the same elements for different bytes of the text, with previous characters that agree or are not looked at.\<close>

lemma bracket_element_uniform:
  assumes "regular_escapes (raw # rest)" "c = possibly_lowercase m raw" "prev = prev' \<or> c \<noteq> 0x2d"
  shows "case (bracket_element m t prev b c rest, bracket_element m t' prev' b' c rest) of
      (None, None) \<Rightarrow> True
    | (Some (q, _, r), Some (q', _, r')) \<Rightarrow> r = r' \<and> (q = q' \<or> (r \<noteq> [] \<longrightarrow> hd r \<noteq> 0x2d))
    | _ \<Rightarrow> False"
proof (cases "c = BACKSLASH")
  case True
  then have "raw = BACKSLASH" using assms(2) by simp
  then show ?thesis using assms(1) True
    by (cases rest; cases "tl rest") (auto simp: bracket_element_def)
next
  case False
  show ?thesis
  proof (cases "c = BRACKET_OPEN \<and> rest \<noteq> [] \<and> hd rest = COLON")
    case True
    then show ?thesis using class_matches_uniform [of m "butlast (takeWhile (\<lambda>d. d \<noteq> BRACKET_CLOSE) (tl rest))" t t']
      by (cases "class_matches m (butlast (takeWhile (\<lambda>d. d \<noteq> BRACKET_CLOSE) (tl rest))) t")
        (auto simp: bracket_element_def split: list.split simp del: dropWhile_eq_Nil_conv)
  next
    case other: False
    have "bracket_element m t prev b c rest =
        (if c = 0x2d \<and> prev \<noteq> 0 \<and> rest \<noteq> [] \<and> hd rest \<noteq> BRACKET_CLOSE then
           (if hd rest = BACKSLASH then
             (case tl rest of [] \<Rightarrow> None | e # r \<Rightarrow> Some (0, in_range m prev (possibly_lowercase m e) t \<or> b, r))
            else Some (0, in_range m prev (possibly_lowercase m (hd rest)) t \<or> b, tl rest))
         else Some (c, c = t \<or> b, rest))" for t prev b
      using False other by (auto simp: bracket_element_def)
    then show ?thesis using assms(3) by (cases "tl rest") (auto split: list.split)
  qed
qed

lemma bracket_elements_uniform:
  assumes "regular_escapes (raw # rest)" "c = possibly_lowercase m raw" "prev = prev' \<or> c \<noteq> 0x2d"
  shows "map_option snd (bracket_elements m t prev b c rest) = map_option snd (bracket_elements m t' prev' b' c rest)"
  using assms
proof (induction "length rest" arbitrary: raw rest c prev prev' b b' rule: less_induct)
  case less
  note u = bracket_element_uniform [OF less.prems, of t b t' b']
  show ?case
  proof (cases "bracket_element m t prev b c rest")
    case None
    then have "bracket_element m t' prev' b' c rest = None" using u by (auto split: option.splits)
    then show ?thesis using None by (simp add: bracket_elements.simps)
  next
    case (Some x)
    obtain q k r where x: "x = (q, k, r)" by (rule prod_cases3)
    then obtain q' k' where y: "bracket_element m t' prev' b' c rest = Some (q', k', r)" "q = q' \<or> (r \<noteq> [] \<longrightarrow> hd r \<noteq> 0x2d)"
      using u Some by (auto split: option.splits prod.splits)
    show ?thesis
    proof (cases r)
      case Nil
      then show ?thesis using Some x y by (simp add: bracket_elements.simps)
    next
      case (Cons d r')
      have suf: "suffix (d # r') rest" using bracket_element_suffix Some x Cons by blast
      then have "regular_escapes (d # r')" using less.prems(1) regular_escapes_suffix regular_escapes_Cons by blast
      moreover have "length r' < length rest" using suffix_length_le [OF suf] by simp
      ultimately have "map_option snd (bracket_elements m t q k (possibly_lowercase m d) r') =
          map_option snd (bracket_elements m t' q' k' (possibly_lowercase m d) r')"
        using less.hyps [of r' d] y(2) Cons by auto
      then show ?thesis using Some x y Cons by (simp add: bracket_elements.simps [of m _ _ _ c rest])
    qed
  qed
qed

lemma bracket_accepts_uniform:
  assumes "regular_escapes ps"
  shows "map_option snd (bracket_accepts m t ps) = map_option snd (bracket_accepts m t' ps)"
proof -
  have "map_option snd (bracket_elements m t 0 False (possibly_lowercase m c) rest) =
      map_option snd (bracket_elements m t' 0 False (possibly_lowercase m c) rest)" if "suffix (c # rest) ps" for c rest
    using bracket_elements_uniform [of c rest "possibly_lowercase m c" m 0 0] regular_escapes_suffix [OF that assms] by blast
  moreover have "tl ps = c # rest \<Longrightarrow> suffix (c # rest) ps" for c rest by (cases ps) (auto simp: suffix_ConsI)
  moreover have "map_option snd (map_option (\<lambda>(x, r). (f x, r)) o1) = map_option snd o1"
    for f :: "bool \<Rightarrow> bool" and o1 :: "(bool \<times> bytes) option" by (cases o1) auto
  ultimately show ?thesis
    by (cases "if ps \<noteq> [] \<and> hd ps \<in> {0x5e, NEGATE_CLASS} then tl ps else ps")
      (auto simp: bracket_accepts_def Let_def split: if_splits)
qed

section \<open>What the results promise\<close>

text \<open>
  \<^verbatim>\<open>AbortAll\<close>: no later part of the text matches either; if the pattern starts with a star at a boundary, this is promised for the parts that start behind a
  slash only, the others are not asked for.  \<^verbatim>\<open>AbortToStarStar\<close>: no part matches that starts before the next slash is passed.
\<close>

definition promises :: "wildmatch_mode \<Rightarrow> u8 option \<Rightarrow> bytes \<Rightarrow> bytes \<Rightarrow> match_result \<Rightarrow> bool" where
  "promises m prev P T r =
     (case r of
        Match \<Rightarrow> glob m prev P T
      | NoMatch \<Rightarrow> \<not> glob m prev P T
      | AbortAll \<Rightarrow>
          \<forall>k\<le>length T. k = 0 \<or> T ! (k - 1) = SLASH \<or> \<not> (P \<noteq> [] \<and> hd P = STAR \<and> at_boundary prev) \<longrightarrow> \<not> glob m prev P (drop k T)
      | AbortToStarStar \<Rightarrow>
          NO_MATCH_SLASH_LITERAL m \<and> (\<forall>k\<le>length T. SLASH \<notin> set (take k T) \<longrightarrow> \<not> glob m prev P (drop k T))
      | RecursionLimitReached \<Rightarrow> False)"

lemma promises_Match: "promises m prev P T r \<Longrightarrow> r = Match \<longleftrightarrow> glob m prev P T"
  by (cases r) (auto simp: promises_def)

lemma glob_prev_irrelevant:
  assumes "P = [] \<or> hd P \<noteq> STAR \<or> at_boundary prev \<and> at_boundary prev'"
  shows "glob m prev P T = glob m prev' P T"
  using assms by (cases P) (auto simp: glob.simps Let_def)

lemma promises_prev_irrelevant:
  assumes "P = [] \<or> hd P \<noteq> STAR \<or> at_boundary prev \<and> at_boundary prev'" "promises m prev P T r"
  shows "promises m prev' P T r"
  using assms(2) glob_prev_irrelevant [OF assms(1)] assms(1) by (cases r) (auto simp: promises_def)

lemma glob_needs_text: "P \<noteq> [] \<Longrightarrow> hd P \<noteq> STAR \<Longrightarrow> \<not> glob m prev P []"
  by (cases P) (simp_all add: glob.simps)

text \<open>A pattern that starts with something for exactly one byte.\<close>

lemma promises_one_byte:
  assumes eq: "\<And>X. glob m prev P X \<longleftrightarrow> (\<exists>x X'. X = x # X' \<and> acc x \<and> glob m prev' P' X')"
    and slash: "at_boundary prev' \<Longrightarrow> (\<And>x. acc x \<Longrightarrow> x = SLASH)"
    and stop: "NO_MATCH_SLASH_LITERAL m \<Longrightarrow> acc SLASH \<Longrightarrow> (\<And>x. acc x \<Longrightarrow> x = SLASH)"
    and acc: "acc x0" and prom: "promises m prev' P' T1 r"
  shows "promises m prev P (x0 # T1) r"
proof (cases r)
  case AbortAll
  have "\<not> glob m prev P (drop k (x0 # T1))" for k
  proof
    assume "glob m prev P (drop k (x0 # T1))"
    then obtain x X' where x: "drop k (x0 # T1) = x # X'" "acc x" "glob m prev' P' X'" using eq by blast
    have k: "k < length (x0 # T1)" using x(1) by (metis drop_eq_Nil2 leI list.distinct(1))
    then have "(x0 # T1) ! k = x" "X' = drop k T1" using x(1) by (metis Cons_nth_drop_Suc list.inject drop_Suc_Cons)+
    moreover from this(1) have "k = 0 \<or> T1 ! (k - 1) = SLASH \<or> \<not> at_boundary prev'"
      using slash x(2) by (cases k) auto
    moreover have "k \<le> length T1" using k by simp
    moreover have "\<forall>k\<le>length T1. k = 0 \<or> T1 ! (k - 1) = SLASH \<or> \<not> (P' \<noteq> [] \<and> hd P' = STAR \<and> at_boundary prev') \<longrightarrow>
        \<not> glob m prev' P' (drop k T1)" using prom unfolding promises_def AbortAll match_result.case .
    ultimately show False using x(3) by blast
  qed
  then show ?thesis using AbortAll by (simp add: promises_def)
next
  case AbortToStarStar
  then have ns: "NO_MATCH_SLASH_LITERAL m" using prom by (simp add: promises_def)
  have "\<not> glob m prev P (drop k (x0 # T1))" if free: "SLASH \<notin> set (take k (x0 # T1))" for k
  proof
    assume "glob m prev P (drop k (x0 # T1))"
    then obtain x X' where x: "drop k (x0 # T1) = x # X'" "acc x" "glob m prev' P' X'" using eq by blast
    have k: "k < length (x0 # T1)" using x(1) by (metis drop_eq_Nil2 leI list.distinct(1))
    then have X: "X' = drop k T1" "(x0 # T1) ! k = x" using x(1) by (metis Cons_nth_drop_Suc list.inject drop_Suc_Cons)+
    have "SLASH \<notin> set (take k T1)"
    proof (cases k)
      case (Suc j)
      have "x \<noteq> SLASH" using stop [OF ns] x(2) acc free Suc by fastforce
      moreover have "take k T1 = take j T1 @ [x]" using X(2) k Suc by (simp add: take_Suc_conv_app_nth)
      ultimately show ?thesis using free Suc by simp
    qed simp
    then show False using prom AbortToStarStar x(3) X(1) k by (auto simp: promises_def)
  qed
  then show ?thesis using AbortToStarStar ns by (simp add: promises_def)
qed (use prom eq [of "x0 # T1"] acc in \<open>auto simp: promises_def\<close>)

text \<open>A star before a slash goes to the next slash of the text.\<close>

lemma promises_star_slash:
  assumes eq: "\<And>X. glob m prev P X \<longleftrightarrow> (\<exists>A X'. X = A @ SLASH # X' \<and> SLASH \<notin> set A \<and> glob m (Some SLASH) P' X')"
    and prom: "promises m (Some SLASH) P' T1 r" and A: "SLASH \<notin> set A"
  shows "promises m prev P (A @ SLASH # T1) r"
proof -
  have split: "\<exists>j. X' = drop j T1 \<and> j \<le> length T1 \<and> (j = 0 \<or> T1 ! (j - 1) = SLASH) \<and> (j \<noteq> 0 \<longrightarrow> SLASH \<in> set (take k (A @ SLASH # T1)))"
    if "drop k (A @ SLASH # T1) = B @ SLASH # X'" "SLASH \<notin> set B" for k B X'
  proof (cases "k \<le> length A")
    case True
    then have "drop k A @ SLASH # T1 = B @ SLASH # X'" using that(1) by simp
    moreover have "SLASH \<notin> set (drop k A)" using A by (meson in_set_dropD)
    moreover have "dropWhile (\<lambda>c. c \<noteq> SLASH) (C @ SLASH # Y) = SLASH # Y" if "SLASH \<notin> set C" for C Y
      using that by (subst dropWhile_append2) auto
    ultimately have "X' = T1" using that(2) by (metis list.inject)
    then show ?thesis by (intro exI [of _ 0]) simp
  next
    case False
    then have "drop (k - length A - 1) T1 = B @ SLASH # X'" using that(1) by (simp add: drop_Cons')
    then obtain Q where T1: "T1 = Q @ SLASH # X'" by (metis append_assoc append_take_drop_id)
    have "X' = drop (length Q + 1) T1" "length Q + 1 \<le> length T1" "T1 ! (length Q + 1 - 1) = SLASH" by (simp_all add: T1)
    moreover have "SLASH \<in> set (take k (A @ SLASH # T1))" using False by (simp add: take_Cons')
    ultimately show ?thesis by blast
  qed
  have no: "\<not> glob m prev P (drop k (A @ SLASH # T1))"
    if none: "\<And>j. j \<le> length T1 \<Longrightarrow> j = 0 \<or> T1 ! (j - 1) = SLASH \<and> SLASH \<in> set (take k (A @ SLASH # T1)) \<Longrightarrow>
      \<not> glob m (Some SLASH) P' (drop j T1)" for k
  proof
    assume "glob m prev P (drop k (A @ SLASH # T1))"
    then obtain B X' where "drop k (A @ SLASH # T1) = B @ SLASH # X'" "SLASH \<notin> set B" "glob m (Some SLASH) P' X'" using eq by blast
    then obtain j where "X' = drop j T1" "j \<le> length T1" "j = 0 \<or> T1 ! (j - 1) = SLASH" "j \<noteq> 0 \<longrightarrow> SLASH \<in> set (take k (A @ SLASH # T1))"
      using split by blast
    then show False using none [of j] \<open>glob m (Some SLASH) P' X'\<close> by auto
  qed
  show ?thesis
  proof (cases r)
    case AbortAll
    have "\<forall>j\<le>length T1. j = 0 \<or> T1 ! (j - 1) = SLASH \<or> \<not> (P' \<noteq> [] \<and> hd P' = STAR \<and> at_boundary (Some SLASH)) \<longrightarrow>
        \<not> glob m (Some SLASH) P' (drop j T1)" using prom unfolding promises_def AbortAll match_result.case .
    then have "\<not> glob m prev P (drop k (A @ SLASH # T1))" for k by (intro no) blast
    then show ?thesis using AbortAll by (simp add: promises_def)
  next
    case AbortToStarStar
    then have ns: "NO_MATCH_SLASH_LITERAL m" and sub: "\<forall>k\<le>length T1. SLASH \<notin> set (take k T1) \<longrightarrow> \<not> glob m (Some SLASH) P' (drop k T1)"
      using prom by (simp_all add: promises_def)
    have "\<not> glob m (Some SLASH) P' (drop 0 T1)" using sub [rule_format, of 0] by simp
    then have "\<not> glob m prev P (drop k (A @ SLASH # T1))" if "SLASH \<notin> set (take k (A @ SLASH # T1))" for k
      using that by (intro no) blast
    then show ?thesis using AbortToStarStar ns by (simp add: promises_def)
  next
    case Match
    then show ?thesis using prom eq A by (auto simp: promises_def)
  next
    case NoMatch
    then have "\<not> glob m (Some SLASH) P' (drop 0 T1)" using prom by (simp add: promises_def)
    then have "\<not> glob m prev P (drop 0 (A @ SLASH # T1))" by (intro no) simp
    then show ?thesis using NoMatch by (simp add: promises_def)
  qed (use prom in \<open>simp add: promises_def\<close>)
qed

section \<open>The loop of a star\<close>

text \<open>What the loop promises about the rest \<open>R\<close> of the pattern at the positions of \<open>S\<close>.\<close>

definition star_promises :: "wildmatch_mode \<Rightarrow> bool \<Rightarrow> bytes \<Rightarrow> bytes \<Rightarrow> match_result \<Rightarrow> bool" where
  "star_promises m ms R S r =
     (case r of
        Match \<Rightarrow> \<exists>k\<le>length S. (ms \<or> SLASH \<notin> set (take k S)) \<and> glob m None R (drop k S)
      | NoMatch \<Rightarrow> \<forall>k\<le>length S. ms \<or> SLASH \<notin> set (take k S) \<longrightarrow> \<not> glob m None R (drop k S)
      | AbortAll \<Rightarrow> \<forall>k\<le>length S. \<not> glob m None R (drop k S)
      | AbortToStarStar \<Rightarrow> \<not> ms \<and> (\<forall>k\<le>length S. SLASH \<notin> set (take k S) \<longrightarrow> \<not> glob m None R (drop k S))
      | RecursionLimitReached \<Rightarrow> False)"

lemma star_promises_lift:
  assumes "star_promises m ms R S r" "\<And>i. i < length A \<Longrightarrow> \<not> glob m None R (drop i (A @ S))" "ms \<or> SLASH \<notin> set A"
  shows "star_promises m ms R (A @ S) r"
proof -
  have neg: "\<not> glob m None R (drop k (A @ S))"
    if "\<And>j. j \<le> length S \<Longrightarrow> k = length A + j \<Longrightarrow> \<not> glob m None R (drop j S)" "k \<le> length (A @ S)" for k
    using that(1) [of "k - length A"] that(2) assms(2) [of k] by (cases "k < length A") auto
  show ?thesis
  proof (cases r)
    case Match
    then obtain k where "k \<le> length S" "ms \<or> SLASH \<notin> set (take k S)" "glob m None R (drop k S)"
      using assms(1) by (auto simp: star_promises_def)
    then show ?thesis using Match assms(3) by (auto simp: star_promises_def intro!: exI [of _ "length A + k"])
  next
    case NoMatch
    have "\<not> glob m None R (drop k (A @ S))" if "k \<le> length (A @ S)" "ms \<or> SLASH \<notin> set (take k (A @ S))" for k
      using that(2) assms(1) NoMatch by (intro neg [OF _ that(1)]) (auto simp: star_promises_def)
    then show ?thesis using NoMatch by (simp add: star_promises_def)
  next
    case AbortAll
    have "\<not> glob m None R (drop k (A @ S))" if "k \<le> length (A @ S)" for k
      using assms(1) AbortAll by (intro neg [OF _ that(1)]) (auto simp: star_promises_def)
    then show ?thesis using AbortAll by (simp add: star_promises_def)
  next
    case AbortToStarStar
    have "\<not> glob m None R (drop k (A @ S))" if "k \<le> length (A @ S)" "SLASH \<notin> set (take k (A @ S))" for k
      using that(2) assms(1) AbortToStarStar by (intro neg [OF _ that(1)]) (auto simp: star_promises_def)
    then show ?thesis using AbortToStarStar assms(1) by (simp add: star_promises_def)
  qed (use assms(1) in \<open>simp add: star_promises_def\<close>)
qed

definition cur_ch :: "wildmatch_mode \<Rightarrow> bytes \<Rightarrow> u8" where
  "cur_ch m S = (case S of [] \<Rightarrow> 0 | x # _ \<Rightarrow> possibly_lowercase m x)"

lemma seek_literal_at:
  "suffix S whole \<Longrightarrow> \<exists>A S1. S = A @ S1 \<and>
     seek_literal m ms c (length whole - length S) (cur_ch m S) (fst (iter_at whole (tl S))) (tl S) =
       (length whole - length S1, cur_ch m S1, iter_at whole (tl S1)) \<and>
     (\<forall>x\<in>set A. possibly_lowercase m x \<noteq> c \<and> (ms \<or> x \<noteq> SLASH)) \<and>
     (tl S1 = [] \<or> \<not> ms \<and> cur_ch m S1 = SLASH \<or> cur_ch m S1 = c)"
proof (induction S)
  case (Cons x S)
  show ?case
  proof (cases "S = [] \<or> \<not> ms \<and> possibly_lowercase m x = SLASH \<or> possibly_lowercase m x = c")
    case True
    then show ?thesis by (intro exI [of _ "[]"] exI [of _ "x # S"]) (cases S; auto simp: cur_ch_def iter_at_def)
  next
    case False
    then obtain y S' where S: "S = y # S'" by (cases S) auto
    have suf: "suffix S whole" using Cons.prems by (rule suffix_Cons_tl)
    have "Suc (length whole - length S) = length whole - length S'" using suffix_length_le [OF suf] S by simp
    then have step: "seek_literal m ms c (length whole - length (x # S)) (cur_ch m (x # S)) (fst (iter_at whole (tl (x # S)))) (tl (x # S)) =
        seek_literal m ms c (length whole - length S) (cur_ch m S) (fst (iter_at whole (tl S))) (tl S)"
      using False by (auto simp: S cur_ch_def iter_at_def)
    obtain A S1 where IH: "S = A @ S1 \<and> seek_literal m ms c (length whole - length S) (cur_ch m S) (fst (iter_at whole (tl S))) (tl S) =
         (length whole - length S1, cur_ch m S1, iter_at whole (tl S1)) \<and>
       (\<forall>x\<in>set A. possibly_lowercase m x \<noteq> c \<and> (ms \<or> x \<noteq> SLASH)) \<and>
       (tl S1 = [] \<or> \<not> ms \<and> cur_ch m S1 = SLASH \<or> cur_ch m S1 = c)" using Cons.IH [OF suf] by (elim exE)
    show ?thesis unfolding step
    proof (rule exI, rule exI)
      show "x # S = (x # A) @ S1 \<and>
         seek_literal m ms c (length whole - length S) (cur_ch m S) (fst (iter_at whole (tl S))) (tl S) =
           (length whole - length S1, cur_ch m S1, iter_at whole (tl S1)) \<and>
         (\<forall>x\<in>set (x # A). possibly_lowercase m x \<noteq> c \<and> (ms \<or> x \<noteq> SLASH)) \<and>
         (tl S1 = [] \<or> \<not> ms \<and> cur_ch m S1 = SLASH \<or> cur_ch m S1 = c)" using IH False by auto
    qed
  qed
qed (auto simp: iter_at_def cur_ch_def)

abbreviation stars :: "bytes \<Rightarrow> nat" where "stars P \<equiv> count_list P STAR"

locale deeper_matcher = bstr_spec bs for bs +
  fixes recurse :: matcher and levels :: nat and m :: wildmatch_mode
  assumes recurse_promises:
    "regular_pattern P \<Longrightarrow> stars P < levels \<Longrightarrow> \<exists>r. recurse P T = Some r \<and> promises m None P T r"
begin

lemma star_loop_promises:
  assumes R: "suffix R pattern" "R \<noteq> []" "hd R \<noteq> STAR" "regular_pattern pattern" "stars R < levels"
    and S: "suffix S whole"
  shows "\<exists>r. star_loop recurse m pattern whole ms (length pattern - length R) (possibly_lowercase m (hd R))
      (length whole - length S) (cur_ch m S) (iter_at whole (tl S)) = Some r \<and> star_promises m ms R S r"
  using S
proof (induction S rule: length_induct)
  case (1 S)
  let ?c = "possibly_lowercase m (hd R)"
  let ?lit = "?c \<notin> set GLOB_CHARACTERS"
  have needs: "\<not> glob m None R []" using R(2,3) by (rule glob_needs_text)
  have lit: "glob m None R (x # X) \<Longrightarrow> ?lit \<Longrightarrow> possibly_lowercase m x = ?c" for x X
    using R(2) by (cases R) (auto simp: glob.simps GLOB_CHARACTERS_def)
  obtain A S1 where A: "S = A @ S1" "(if ?lit then seek_literal m ms ?c (length whole - length S) (cur_ch m S) (fst (iter_at whole (tl S))) (snd (iter_at whole (tl S)))
       else (length whole - length S, cur_ch m S, iter_at whole (tl S))) = (length whole - length S1, cur_ch m S1, iter_at whole (tl S1))"
     "\<forall>x\<in>set A. ?lit \<and> possibly_lowercase m x \<noteq> ?c \<and> (ms \<or> x \<noteq> SLASH)"
     "?lit \<longrightarrow> tl S1 = [] \<or> \<not> ms \<and> cur_ch m S1 = SLASH \<or> cur_ch m S1 = ?c"
  proof (cases ?lit)
    case True
    then show ?thesis using seek_literal_at [OF 1(2), of m ms ?c] that by (auto simp: iter_at_def)
  next
    case False
    then show ?thesis using that [of "[]" S] by simp
  qed
  have S1: "suffix S1 whole" using 1(2) A(1) by (meson suffix_appendD)
  have free: "\<not> glob m None R (drop i (A @ S1))" if "i < length A" for i
  proof -
    have "drop i (A @ S1) = A ! i # drop (Suc i) (A @ S1)" using that by (metis Cons_nth_drop_Suc length_append nth_append trans_less_add1)
    then show ?thesis using lit A(3) that by (metis nth_mem)
  qed
  have slash: "ms \<or> SLASH \<notin> set A" using A(3) by blast
  let ?loop = "star_loop recurse m pattern whole ms (length pattern - length R) ?c"
  have suf2: "suffix (tl S1) whole" using S1 by (cases S1) (simp_all add: suffix_Cons_tl)
  have nx: "iter_next m (iter_at whole (tl S1)) =
      (if tl S1 = [] then None else Some ((length whole - length (tl S1), cur_ch m (tl S1)), iter_at whole (tl (tl S1))))"
    using iter_next_at [where m = m and whole = whole] suf2 by (cases "tl S1") (simp_all add: cur_ch_def)
  have loop: "?loop (length whole - length S) (cur_ch m S) (iter_at whole (tl S)) =
      (if ?lit \<and> cur_ch m S1 \<noteq> ?c then Some NoMatch
       else case recurse R S1 of
           None \<Rightarrow> None
         | Some res \<Rightarrow>
             if res \<noteq> NoMatch \<and> (\<not> ms \<or> res \<noteq> AbortToStarStar) then Some res
             else if res = NoMatch \<and> \<not> ms \<and> cur_ch m S1 = SLASH then Some AbortToStarStar
             else if tl S1 = [] then Some AbortAll
             else ?loop (length whole - length (tl S1)) (cur_ch m (tl S1)) (iter_at whole (tl (tl S1))))"
    unfolding star_loop.simps [of recurse m pattern whole ms "length pattern - length R" ?c "length whole - length S"] Let_def A(2) nx
      prod.case slice_from_suffix [OF R(1)] slice_from_suffix [OF S1] option.case
    by (simp split: option.split)
  have "\<exists>r. ?loop (length whole - length S) (cur_ch m S) (iter_at whole (tl S)) = Some r \<and> star_promises m ms R S1 r"
  proof (cases "?lit \<and> cur_ch m S1 \<noteq> ?c")
    case True
    have "\<not> glob m None R (drop k S1)" if k: "k \<le> length S1" "ms \<or> SLASH \<notin> set (take k S1)" for k
    proof
      assume g: "glob m None R (drop k S1)"
      then obtain x X where x: "S1 = x # X" using needs by (cases S1) auto
      have "k \<noteq> 0" using g x lit [of x X] True by (cases k) (auto simp: cur_ch_def)
      then show False using A(4) True g needs k x by (cases k) (auto simp: cur_ch_def)
    qed
    then show ?thesis using loop True by (simp add: star_promises_def)
  next
    case False
    obtain res where res: "recurse R S1 = Some res" "promises m None R S1 res"
      using recurse_promises [OF regular_pattern_suffix [OF R(1,4)] R(5)] by blast
    note loop = loop [unfolded if_not_P [OF False] res(1) option.case]
    consider "res = Match" | "res = AbortAll" | "res = AbortToStarStar" "\<not> ms" | "res = NoMatch" "\<not> ms" "cur_ch m S1 = SLASH"
      | "res = AbortToStarStar \<or> res = NoMatch" "res = AbortToStarStar \<longrightarrow> ms" "ms \<or> cur_ch m S1 \<noteq> SLASH"
      using res(2) by (cases res) (auto simp: promises_def)
    then show ?thesis
    proof cases
      case 1
      then show ?thesis using loop res(2) by (auto simp: star_promises_def promises_def intro: exI [of _ 0])
    next
      case 2
      then show ?thesis using loop res(2) R(3) by (simp add: star_promises_def promises_def)
    next
      case 3
      then show ?thesis using loop res(2) by (simp add: star_promises_def promises_def)
    next
      case 4
      obtain x X where x: "S1 = x # X" "x = SLASH" using 4(3) by (cases S1) (auto simp: cur_ch_def)
      have "\<not> glob m None R (drop k S1)" if "SLASH \<notin> set (take k S1)" for k
        using that res(2) 4(1) x by (cases k) (auto simp: promises_def)
      then show ?thesis using loop 4 by (simp add: star_promises_def)
    next
      case 5
      have no: "\<not> glob m None R S1" using promises_Match [OF res(2)] 5(1) by auto
      show ?thesis
      proof (cases "tl S1 = []")
        case True
        have "\<not> glob m None R (drop k S1)" if "k \<le> length S1" for k
          using no needs True that by (cases S1; cases k) auto
        then show ?thesis using loop 5 True by (auto simp: star_promises_def)
      next
        case False
        then obtain x where x: "S1 = x # tl S1" by (cases S1) auto
        have "length (tl S1) < length S" using A(1) x by (metis length_append length_Cons lessI trans_less_add2)
        then obtain r where r: "?loop (length whole - length (tl S1)) (cur_ch m (tl S1)) (iter_at whole (tl (tl S1))) = Some r"
          "star_promises m ms R (tl S1) r" using 1(1) suf2 by blast
        have "star_promises m ms R ([x] @ tl S1) r"
          using r(2) no x 5(3) by (intro star_promises_lift) (auto simp: cur_ch_def split: list.splits)
        then show ?thesis using loop r(1) 5 False x by auto
      qed
    qed
  qed
  then show ?case using star_promises_lift [of m ms R S1 _ A] free slash A(1) by blast
qed

end

section \<open>Stars\<close>

text \<open>The equations of the three kinds of stars.\<close>

definition after_stars :: "bytes \<Rightarrow> bytes" where "after_stars ps = dropWhile (\<lambda>d. d = STAR) ps"

definition crossing :: "wildmatch_mode \<Rightarrow> u8 option \<Rightarrow> bytes \<Rightarrow> bool" where
  "crossing m prev ps \<longleftrightarrow>
     NO_MATCH_SLASH_LITERAL m \<and> ps \<noteq> [] \<and> hd ps = STAR \<and> at_boundary prev \<and> slash_follows (after_stars ps)"

lemma glob_star_crossing:
  "crossing m prev ps \<Longrightarrow> glob m prev (STAR # ps) X \<longleftrightarrow>
     after_stars ps \<noteq> [] \<and> glob m (Some (hd (after_stars ps))) (tl (after_stars ps)) X \<or>
     (\<exists>k\<le>length X. glob m (Some STAR) (after_stars ps) (drop k X))"
  by (simp add: glob.simps Let_def crossing_def after_stars_def)

lemma glob_star_plain:
  "\<not> crossing m prev ps \<Longrightarrow> glob m prev (STAR # ps) X \<longleftrightarrow>
     (\<exists>k\<le>length X. (\<not> NO_MATCH_SLASH_LITERAL m \<or> SLASH \<notin> set (take k X)) \<and> glob m (Some STAR) (after_stars ps) (drop k X))"
  by (simp add: glob.simps Let_def crossing_def after_stars_def) blast

lemma after_stars_hd: "after_stars ps \<noteq> [] \<Longrightarrow> hd (after_stars ps) \<noteq> STAR"
  using hd_dropWhile [of "\<lambda>d. d = STAR" ps] by (simp add: after_stars_def)

lemma after_stars_prev: "glob m prev (after_stars ps) X = glob m prev' (after_stars ps) X"
  using after_stars_hd by (intro glob_prev_irrelevant) blast

lemma after_stars_suffix: "suffix (after_stars ps) ps"
  by (simp add: after_stars_def suffix_dropWhile)

lemma stars_suffix: "suffix xs ys \<Longrightarrow> stars xs \<le> stars ys"
  by (auto simp: suffix_def)

lemma star_promises_plain:
  assumes "star_promises m (\<not> NO_MATCH_SLASH_LITERAL m) (after_stars ps) T r" "\<not> crossing m prev ps"
  shows "promises m prev (STAR # ps) T r"
proof -
  note eq = glob_star_plain [OF assms(2), unfolded after_stars_prev [where prev = "Some STAR" and prev' = None]]
  show ?thesis
  proof (cases r)
    case AbortAll
    then have none: "\<And>k. k \<le> length T \<Longrightarrow> \<not> glob m None (after_stars ps) (drop k T)"
      using assms(1) by (simp add: star_promises_def)
    have "\<not> glob m prev (STAR # ps) (drop k T)" if "k \<le> length T" for k
      unfolding eq using none that by (auto simp: le_diff_conv)
    then show ?thesis using AbortAll by (simp add: promises_def)
  next
    case AbortToStarStar
    then have ns: "NO_MATCH_SLASH_LITERAL m"
      and none: "\<And>k. k \<le> length T \<Longrightarrow> SLASH \<notin> set (take k T) \<Longrightarrow> \<not> glob m None (after_stars ps) (drop k T)"
      using assms(1) by (simp_all add: star_promises_def)
    have "\<not> glob m prev (STAR # ps) (drop k T)" if "k \<le> length T" "SLASH \<notin> set (take k T)" for k
    proof -
      have "\<not> glob m None (after_stars ps) (drop j (drop k T))" if j: "j \<le> length (drop k T)" "SLASH \<notin> set (take j (drop k T))" for j
      proof -
        have "SLASH \<notin> set (take (k + j) T)" unfolding take_add using j(2) \<open>SLASH \<notin> set (take k T)\<close> by simp
        then show ?thesis using none [of "k + j"] j(1) \<open>k \<le> length T\<close> by (simp add: add.commute)
      qed
      then show ?thesis unfolding eq using ns by blast
    qed
    then show ?thesis using AbortToStarStar ns by (simp add: promises_def)
  qed (use assms(1) eq [of T] in \<open>auto simp: star_promises_def promises_def\<close>)
qed

lemma star_promises_crossing:
  assumes "star_promises m True (after_stars ps) T r" "crossing m prev ps" "after_stars ps \<noteq> []"
    "\<not> glob m (Some (hd (after_stars ps))) (tl (after_stars ps)) T"
  shows "promises m prev (STAR # ps) T r"
proof -
  note eq = glob_star_crossing [OF assms(2), unfolded after_stars_prev [where prev = "Some STAR" and prev' = None]]
  show ?thesis
  proof (cases r)
    case AbortAll
    then have none: "\<And>k. k \<le> length T \<Longrightarrow> \<not> glob m None (after_stars ps) (drop k T)"
      using assms(1) by (simp add: star_promises_def)
    have "\<not> glob m prev (STAR # ps) (drop k T)" if k: "k \<le> length T" "k = 0 \<or> T ! (k - 1) = SLASH" for k
    proof -
      have "\<not> glob m (Some (hd (after_stars ps))) (tl (after_stars ps)) (drop k T)"
      proof (cases "k = 0")
        case False
        have "slash_follows (after_stars ps)" using assms(2) by (simp add: crossing_def)
        then consider R where "after_stars ps = SLASH # R" | R where "after_stars ps = BACKSLASH # SLASH # R"
          using assms(3) by (cases "after_stars ps") (auto simp: slash_follows_def prefix_def)
        then show ?thesis
        proof cases
          case 1
          have "drop (k - 1) T = SLASH # drop k T" using k False Cons_nth_drop_Suc [of "k - 1" T] by simp
          then show ?thesis using none [of "k - 1"] k 1 by (simp add: glob.simps)
        next
          case 2
          then show ?thesis using none [of k] k by (cases "drop k T") (simp_all add: glob.simps)
        qed
      qed (use assms(4) in simp)
      moreover have "\<not> glob m None (after_stars ps) (drop j (drop k T))" if "j \<le> length (drop k T)" for j
        using none [of "k + j"] that k(1) by (simp add: add.commute)
      ultimately show ?thesis unfolding eq by blast
    qed
    then show ?thesis using AbortAll assms(2) by (auto simp: promises_def crossing_def)
  qed (use assms eq [of T] in \<open>auto simp: star_promises_def promises_def\<close>)
qed

lemma skip_stars_at:
  "suffix ps whole \<Longrightarrow> skip_stars m (length whole - length ps) ps = iter_at whole (after_stars ps)"
proof (induction ps)
  case (Cons c ps)
  have "suffix ps whole" using Cons.prems by (rule suffix_Cons_tl)
  moreover have "Suc (length whole - length (c # ps)) = length whole - length ps"
    using suffix_length_le [OF Cons.prems] by simp
  ultimately show ?case using Cons.IH by (simp add: after_stars_def iter_at_def)
qed (simp add: iter_at_def after_stars_def)

definition prev_at :: "bytes \<Rightarrow> bytes \<Rightarrow> u8 option" where
  "prev_at whole rest = (if length rest < length whole then Some (whole ! (length whole - length rest - 1)) else None)"

lemma prev_at_Cons: "suffix (c # rest) whole \<Longrightarrow> prev_at whole rest = Some c"
  by (auto simp: prev_at_def suffix_def nth_append)

lemma glob_star_slash:
  assumes "\<not> crossing m prev ps" "NO_MATCH_SLASH_LITERAL m" "after_stars ps = SLASH # R"
  shows "glob m prev (STAR # ps) X \<longleftrightarrow> (\<exists>A X'. X = A @ SLASH # X' \<and> SLASH \<notin> set A \<and> glob m (Some SLASH) R X')"
proof -
  have lit: "glob m (Some STAR) (SLASH # R) Y \<longleftrightarrow> (\<exists>X'. Y = SLASH # X' \<and> glob m (Some SLASH) R X')" for Y
    by (cases Y) (auto simp: glob.simps)
  show ?thesis (is "_ \<longleftrightarrow> ?r")
  proof
    assume "glob m prev (STAR # ps) X"
    then obtain k X' where "SLASH \<notin> set (take k X)" "drop k X = SLASH # X'" "glob m (Some SLASH) R X'"
      using assms by (auto simp: glob_star_plain lit)
    then show ?r by (metis append_take_drop_id)
  next
    assume ?r
    then obtain A X' where "X = A @ SLASH # X'" "SLASH \<notin> set A" "glob m (Some SLASH) R X'" by blast
    then show "glob m prev (STAR # ps) X"
      using assms by (auto simp: glob_star_plain lit intro!: exI [of _ "length A"])
  qed
qed

text \<open>The iterator behind the stars.\<close>

lemma next_at:
  assumes "suffix R pattern"
  shows "(case iter_next m (iter_at pattern R) of None \<Rightarrow> (None, iter_at pattern R) | Some (x, p) \<Rightarrow> (Some x, p)) =
    (case R of [] \<Rightarrow> (None, iter_at pattern []) | c # R' \<Rightarrow> (Some (length pattern - length R, possibly_lowercase m c), iter_at pattern R'))"
  using assms iter_next_at [where m = m and whole = pattern] by (cases R) simp_all

lemma double_star_bounded_at:
  assumes "suffix (STAR # STAR # ps) pattern" "NO_MATCH_SLASH_LITERAL m"
    "(nxt, p) = (case after_stars ps of [] \<Rightarrow> (None, iter_at pattern []) | c # R' \<Rightarrow> (Some (i, possibly_lowercase m c), iter_at pattern R'))"
  shows "double_star_bounded m pattern (length pattern - length (STAR # STAR # ps)) nxt p =
    Some (crossing m (prev_at pattern (STAR # STAR # ps)) (STAR # ps))"
proof -
  have R: "after_stars (STAR # ps) = after_stars ps" by (simp add: after_stars_def)
  have follows: "(case nxt of None \<Rightarrow> True | Some (_, c) \<Rightarrow> c = SLASH \<or> c = BACKSLASH \<and> iter_peek m p = Some SLASH) =
      slash_follows (after_stars ps)"
    using assms(3) by (auto simp: slash_follows_def iter_peek_at split: list.splits)
  have len: "length (STAR # STAR # ps) \<le> length pattern" using suffix_length_le [OF assms(1)] .
  show ?thesis
    unfolding double_star_bounded_def follows Let_def
    using len assms(2) by (auto simp: crossing_def at_boundary_def prev_at_def get_at_def R)
qed

context deeper_matcher
begin

lemma star_rest_promises:
  assumes R: "suffix R pattern" "R \<noteq> [] \<longrightarrow> hd R \<noteq> STAR" "regular_pattern pattern" "stars R < levels" and T: "suffix T whole"
    and nxt: "(nxt, p) = (case R of [] \<Rightarrow> (None, iter_at pattern []) | c # R' \<Rightarrow> (Some (length pattern - length R, possibly_lowercase m c), iter_at pattern R'))"
  shows "(\<exists>r. star_rest bs recurse m pattern whole ms nxt p (length whole - length T) (cur_ch m T) (iter_at whole (tl T)) = Some (StarReturn r) \<and>
      star_promises m ms R T r) \<or>
    \<not> ms \<and> (\<exists>R' A T1. R = SLASH # R' \<and> T = A @ SLASH # T1 \<and> SLASH \<notin> set A \<and>
      star_rest bs recurse m pattern whole ms nxt p (length whole - length T) (cur_ch m T) (iter_at whole (tl T)) =
        Some (StarContinue (iter_at pattern R') (iter_at whole T1)))"
proof (cases R)
  case Nil
  have "star_promises m ms [] T (if \<not> ms \<and> SLASH \<in> set T then NoMatch else Match)"
    by (auto simp: star_promises_def glob.simps)
  then show ?thesis using nxt Nil by (simp add: star_rest_def trailing_star_def slice_from_suffix [OF T])
next
  case (Cons c R')
  then have n: "nxt = Some (length pattern - length R, possibly_lowercase m c)" "p = iter_at pattern R'" using nxt by simp_all
  show ?thesis
  proof (cases "\<not> ms \<and> c = SLASH")
    case False
    then have "star_rest bs recurse m pattern whole ms nxt p (length whole - length T) (cur_ch m T) (iter_at whole (tl T)) =
        map_option StarReturn (star_loop recurse m pattern whole ms (length pattern - length R) (possibly_lowercase m (hd R))
          (length whole - length T) (cur_ch m T) (iter_at whole (tl T)))"
      using Cons by (auto simp: star_rest_def n)
    then show ?thesis using star_loop_promises [OF R(1) _ _ R(3,4) T, of ms] R(2) Cons by auto
  next
    case True
    show ?thesis
    proof (cases "find_byte bs T SLASH")
      case None
      then have "SLASH \<notin> set (drop k T)" for k using in_set_dropD [of SLASH k T] by (auto simp: find_byte_None)
      then have "drop k T = a # X \<Longrightarrow> a \<noteq> SLASH" for k a X by (metis list.set_intros(1))
      then have "\<not> glob m None R (drop k T)" for k
        using True Cons by (cases "drop k T") (simp_all add: glob.simps)
      then have "star_promises m ms R T NoMatch" by (simp add: star_promises_def)
      then show ?thesis using None True by (simp add: star_rest_def n slice_from_suffix [OF T])
    next
      case (Some d)
      then obtain A T1 where A: "T = A @ SLASH # T1" "length A = d" "SLASH \<notin> set A" by (auto simp: find_byte position_split)
      have len: "length T \<le> length whole" using suffix_length_le [OF T] .
      have tl: "length (tl T) = d + length T1" "drop d (tl T) = T1" using A by (cases A; auto)+
      have "(fst (iter_at whole (tl T)) + min d (length (snd (iter_at whole (tl T)))), drop d (snd (iter_at whole (tl T)))) = iter_at whole T1"
        using tl len A(1,2) by (simp add: iter_at_def)
      then have "star_rest bs recurse m pattern whole ms nxt p (length whole - length T) (cur_ch m T) (iter_at whole (tl T)) =
          Some (StarContinue (iter_at pattern R') (iter_at whole T1))"
        unfolding star_rest_def n option.case prod.case slice_from_suffix [OF T] Some using True by simp
      then show ?thesis using True A Cons by blast
    qed
  qed
qed

end

text \<open>A star: the matcher returns with a promise about the whole pattern, or goes on behind the next slash.\<close>

definition star_outcome :: "wildmatch_mode \<Rightarrow> bytes \<Rightarrow> bytes \<Rightarrow> bytes \<Rightarrow> bytes \<Rightarrow> star_step or_panic \<Rightarrow> bool" where
  "star_outcome m pattern whole ps T step \<longleftrightarrow>
     (\<exists>r. step = Some (StarReturn r) \<and> promises m (prev_at pattern (STAR # ps)) (STAR # ps) T r) \<or>
     (\<exists>R A T1. suffix (SLASH # R) ps \<and> T = A @ SLASH # T1 \<and> SLASH \<notin> set A \<and>
        step = Some (StarContinue (iter_at pattern R) (iter_at whole T1)) \<and>
        (\<forall>r. promises m (Some SLASH) R T1 r \<longrightarrow> promises m (prev_at pattern (STAR # ps)) (STAR # ps) T r))"

context deeper_matcher
begin

lemma star_rest_plain:
  assumes P: "suffix (STAR # ps) pattern" "regular_pattern pattern" "stars (STAR # ps) \<le> levels" and T: "suffix T whole"
    and nxt: "(nxt, p) = (case after_stars ps of [] \<Rightarrow> (None, iter_at pattern [])
      | c # R' \<Rightarrow> (Some (length pattern - length (after_stars ps), possibly_lowercase m c), iter_at pattern R'))"
    and plain: "\<not> crossing m (prev_at pattern (STAR # ps)) ps"
  shows "star_outcome m pattern whole ps T
    (star_rest bs recurse m pattern whole (\<not> NO_MATCH_SLASH_LITERAL m) nxt p (length whole - length T) (cur_ch m T) (iter_at whole (tl T)))"
proof -
  have "suffix ps pattern" using P(1) by (rule suffix_Cons_tl)
  then have R: "suffix (after_stars ps) pattern" by (rule suffix_order.trans [OF after_stars_suffix])
  have lv: "stars (after_stars ps) < levels" using P(3) stars_suffix [OF after_stars_suffix, of ps] by simp
  have hd: "after_stars ps \<noteq> [] \<longrightarrow> hd (after_stars ps) \<noteq> STAR" using after_stars_hd by blast
  from star_rest_promises [OF R hd P(2) lv T nxt, of "\<not> NO_MATCH_SLASH_LITERAL m"] show ?thesis
  proof (elim disjE exE conjE)
    fix r
    assume "star_rest bs recurse m pattern whole (\<not> NO_MATCH_SLASH_LITERAL m) nxt p (length whole - length T) (cur_ch m T) (iter_at whole (tl T)) =
        Some (StarReturn r)" "star_promises m (\<not> NO_MATCH_SLASH_LITERAL m) (after_stars ps) T r"
    then show ?thesis using star_promises_plain plain by (auto simp: star_outcome_def)
  next
    fix R' A T1
    assume c: "\<not> \<not> NO_MATCH_SLASH_LITERAL m" "after_stars ps = SLASH # R'" "T = A @ SLASH # T1" "SLASH \<notin> set A"
      "star_rest bs recurse m pattern whole (\<not> NO_MATCH_SLASH_LITERAL m) nxt p (length whole - length T) (cur_ch m T) (iter_at whole (tl T)) =
        Some (StarContinue (iter_at pattern R') (iter_at whole T1))"
    have "promises m (prev_at pattern (STAR # ps)) (STAR # ps) T r" if "promises m (Some SLASH) R' T1 r" for r
      unfolding c(3) using glob_star_slash [OF plain _ c(2)] c(1,4) that by (intro promises_star_slash) simp_all
    moreover have "suffix (SLASH # R') ps" using c(2) after_stars_suffix by metis
    ultimately show ?thesis using c(3-5) unfolding star_outcome_def by blast
  qed
qed

end

context deeper_matcher
begin

lemma star_rest_crossing:
  assumes P: "suffix (STAR # ps) pattern" "regular_pattern pattern" "stars (STAR # ps) \<le> levels" and T: "suffix T whole"
    and nxt: "(nxt, p) = (case after_stars ps of [] \<Rightarrow> (None, iter_at pattern [])
      | c # R' \<Rightarrow> (Some (length pattern - length (after_stars ps), possibly_lowercase m c), iter_at pattern R'))"
    and cross: "crossing m (prev_at pattern (STAR # ps)) ps"
  shows "\<exists>res. double_star_skip recurse pattern whole nxt (length whole - length T) = Some res \<and>
    star_outcome m pattern whole ps T
      (if res = Match then Some (StarReturn Match)
       else star_rest bs recurse m pattern whole True nxt p (length whole - length T) (cur_ch m T) (iter_at whole (tl T)))"
proof -
  let ?R = "after_stars ps" and ?prev = "prev_at pattern (STAR # ps)"
  have "suffix ps pattern" using P(1) by (rule suffix_Cons_tl)
  then have R: "suffix ?R pattern" by (rule suffix_order.trans [OF after_stars_suffix])
  have lv: "stars ?R < levels" using P(3) stars_suffix [OF after_stars_suffix, of ps] by simp
  have hd: "?R \<noteq> [] \<longrightarrow> hd ?R \<noteq> STAR" using after_stars_hd by blast
  obtain r where r: "star_rest bs recurse m pattern whole True nxt p (length whole - length T) (cur_ch m T) (iter_at whole (tl T)) = Some (StarReturn r)"
    "star_promises m True ?R T r" using star_rest_promises [OF R hd P(2) lv T nxt, of True] by blast
  show ?thesis
  proof (cases ?R)
    case Nil
    then have "nxt = None" using nxt by simp
    moreover have "r = Match" using r(1) \<open>nxt = None\<close> by (simp add: star_rest_def trailing_star_def slice_from_suffix [OF T])
    moreover have "glob m ?prev (STAR # ps) T" unfolding glob_star_crossing [OF cross] Nil by (auto simp: glob.simps)
    ultimately show ?thesis using r(1) by (simp add: double_star_skip_def star_outcome_def promises_def)
  next
    case (Cons c R')
    have n: "nxt = Some (length pattern - length ?R, possibly_lowercase m c)" using nxt Cons by simp
    have suf: "suffix R' pattern" using R Cons suffix_Cons_tl by simp
    have len: "length pattern - length ?R + 1 = length pattern - length R'" using suffix_length_le [OF R] Cons by simp
    have "stars R' < levels" using lv Cons by (simp split: if_splits)
    then obtain res where res: "recurse R' T = Some res" "promises m None R' T res"
      using recurse_promises [OF regular_pattern_suffix [OF suf P(2)]] by blast
    have "slash_follows ?R" using cross by (simp add: crossing_def)
    then have "R' = [] \<or> hd R' \<noteq> STAR \<or> at_boundary None \<and> at_boundary (Some c)"
      using Cons by (cases R') (auto simp: slash_follows_def at_boundary_def)
    then have irr: "glob m (Some c) R' T = glob m None R' T" using glob_prev_irrelevant by blast
    have "double_star_skip recurse pattern whole nxt (length whole - length T) = Some res"
      by (simp only: double_star_skip_def n option.case prod.case len slice_from_suffix [OF suf] slice_from_suffix [OF T] res(1))
    moreover have "promises m ?prev (STAR # ps) T Match" if "res = Match"
      using promises_Match [OF res(2)] that irr Cons unfolding promises_def match_result.case glob_star_crossing [OF cross] by simp
    moreover have "promises m ?prev (STAR # ps) T r" if "res \<noteq> Match"
      using promises_Match [OF res(2)] that irr Cons by (intro star_promises_crossing [OF r(2) cross]) simp_all
    ultimately show ?thesis using r(1) by (cases "res = Match") (simp_all add: star_outcome_def)
  qed
qed

lemma match_star_promises:
  assumes P: "suffix (STAR # ps) pattern" "regular_pattern pattern" "stars (STAR # ps) \<le> levels" and T: "suffix T whole"
  shows "star_outcome m pattern whole ps T
    (match_star bs recurse m pattern whole (length pattern - length (STAR # ps)) (iter_at pattern ps)
      (length whole - length T) (cur_ch m T) (iter_at whole (tl T)))"
proof (cases "ps \<noteq> [] \<and> hd ps = STAR")
  case False
  then have plain: "\<not> crossing m (prev_at pattern (STAR # ps)) ps" and R: "after_stars ps = ps"
    by (auto simp: crossing_def after_stars_def dropWhile_eq_self_iff)
  show ?thesis
  proof (cases ps)
    case Nil
    have "star_outcome m pattern whole ps T
        (star_rest bs recurse m pattern whole (\<not> NO_MATCH_SLASH_LITERAL m) None (iter_at pattern []) (length whole - length T) (cur_ch m T) (iter_at whole (tl T)))"
      using R Nil by (intro star_rest_plain [OF P T _ plain]) simp
    then show ?thesis using Nil by (simp add: match_star_def star_rest_def)
  next
    case (Cons c ps')
    have "suffix (c # ps') pattern" using P(1) Cons suffix_Cons_tl by simp
    then have "iter_next m (iter_at pattern ps) = Some ((length pattern - length ps, possibly_lowercase m c), iter_at pattern ps')"
      using iter_next_at Cons by simp
    moreover have "star_outcome m pattern whole ps T
        (star_rest bs recurse m pattern whole (\<not> NO_MATCH_SLASH_LITERAL m) (Some (length pattern - length ps, possibly_lowercase m c)) (iter_at pattern ps')
          (length whole - length T) (cur_ch m T) (iter_at whole (tl T)))"
      using R Cons by (intro star_rest_plain [OF P T _ plain]) simp
    ultimately show ?thesis using False Cons by (simp add: match_star_def)
  qed
next
  case True
  then obtain ps' where ps: "ps = STAR # ps'" by (cases ps) auto
  have suf: "suffix (STAR # ps') pattern" using P(1) unfolding ps by (rule suffix_Cons_tl)
  have suf': "suffix ps' pattern" using suf by (rule suffix_Cons_tl)
  have R: "after_stars ps = after_stars ps'" using ps by (simp add: after_stars_def)
  have sufR: "suffix (after_stars ps') pattern" using suf' by (rule suffix_order.trans [OF after_stars_suffix])
  define nxt where "nxt = fst (case after_stars ps of [] \<Rightarrow> (None, iter_at pattern [])
      | c # R' \<Rightarrow> (Some (length pattern - length (after_stars ps), possibly_lowercase m c), iter_at pattern R'))"
  define p where "p = snd (case after_stars ps of [] \<Rightarrow> (None, iter_at pattern [])
      | c # R' \<Rightarrow> (Some (length pattern - length (after_stars ps), possibly_lowercase m c), iter_at pattern R'))"
  have np: "(nxt, p) = (case after_stars ps of [] \<Rightarrow> (None, iter_at pattern [])
      | c # R' \<Rightarrow> (Some (length pattern - length (after_stars ps), possibly_lowercase m c), iter_at pattern R'))"
    by (simp add: nxt_def p_def)
  have nx: "iter_next m (iter_at pattern ps) = Some ((length pattern - length ps, STAR), iter_at pattern ps')"
    using iter_next_at [OF suf, of m] ps by simp
  have skip: "skip_stars m (fst (iter_at pattern ps')) (snd (iter_at pattern ps')) = iter_at pattern (after_stars ps')"
    using skip_stars_at [OF suf'] by (simp add: iter_at_def)
  have after: "(case iter_next m (iter_at pattern (after_stars ps')) of None \<Rightarrow> (None, iter_at pattern (after_stars ps')) | Some (x, p) \<Rightarrow> (Some x, p)) = (nxt, p)"
    unfolding np R by (rule next_at [OF sufR])
  let ?rest = "\<lambda>ms. star_rest bs recurse m pattern whole ms nxt p (length whole - length T) (cur_ch m T) (iter_at whole (tl T))"
  have star: "match_star bs recurse m pattern whole (length pattern - length (STAR # ps)) (iter_at pattern ps)
      (length whole - length T) (cur_ch m T) (iter_at whole (tl T)) =
    (if \<not> NO_MATCH_SLASH_LITERAL m then ?rest True
     else case double_star_bounded m pattern (length pattern - length (STAR # ps)) nxt p of
         None \<Rightarrow> None
       | Some bounded \<Rightarrow>
           if bounded then
             (case double_star_skip recurse pattern whole nxt (length whole - length T) of
                None \<Rightarrow> None
              | Some res \<Rightarrow> if res = Match then Some (StarReturn Match) else ?rest True)
           else ?rest False)"
    unfolding match_star_def Let_def nx option.case prod.case skip after if_True simp_thms by simp
  show ?thesis
  proof (cases "NO_MATCH_SLASH_LITERAL m")
    case False
    then have "\<not> crossing m (prev_at pattern (STAR # ps)) ps" by (simp add: crossing_def)
    then show ?thesis using star_rest_plain [OF P T np] star False by simp
  next
    case True
    have b: "double_star_bounded m pattern (length pattern - length (STAR # ps)) nxt p = Some (crossing m (prev_at pattern (STAR # ps)) ps)"
      using double_star_bounded_at [of ps' pattern m nxt p "length pattern - length (after_stars ps)"] P(1) True np unfolding ps [symmetric] R by (simp add: ps)
    show ?thesis
    proof (cases "crossing m (prev_at pattern (STAR # ps)) ps")
      case True
      obtain res where "double_star_skip recurse pattern whole nxt (length whole - length T) = Some res"
        "star_outcome m pattern whole ps T (if res = Match then Some (StarReturn Match) else ?rest True)"
        using star_rest_crossing [OF P T np True] by blast
      then show ?thesis using star b True \<open>NO_MATCH_SLASH_LITERAL m\<close> by simp
    next
      case False
      then show ?thesis using star_rest_plain [OF P T np False] star b True by simp
    qed
  qed
qed

end

section \<open>The matcher\<close>

lemma bracket_elements_close:
  "bracket_elements m t prev matched c rest = Some (b, r) \<Longrightarrow> suffix (BRACKET_CLOSE # r) rest"
proof (induction m t prev matched c rest rule: bracket_elements.induct)
  case (1 m t prev matched c rest)
  obtain prev' m' rest' where e: "bracket_element m t prev matched c rest = Some (prev', m', rest')"
    using 1(2) by (auto simp: bracket_elements.simps [of m t prev matched c rest] split: option.splits)
  obtain d ds where d: "rest' = d # ds"
    using 1(2) e by (cases rest') (simp_all add: bracket_elements.simps [of m t prev matched c rest])
  have suf: "suffix (d # ds) rest" using bracket_element_suffix [OF e] d by simp
  show ?case
  proof (cases "d = BRACKET_CLOSE")
    case True
    then have "ds = r" using 1(2) e d by (simp add: bracket_elements.simps [of m t prev matched c rest])
    then show ?thesis using suf True by simp
  next
    case False
    then have "suffix (BRACKET_CLOSE # r) ds"
      using 1(1) [OF e refl refl d False] 1(2) e d by (simp add: bracket_elements.simps [of m t prev matched c rest])
    moreover have "suffix ds rest" using suf by (rule suffix_Cons_tl)
    ultimately show ?thesis by (rule suffix_order.trans)
  qed
qed

lemma bracket_accepts_close:
  assumes "bracket_accepts m t ps = Some (b, r)"
  shows "suffix (BRACKET_CLOSE # r) ps"
proof -
  let ?qs = "if ps \<noteq> [] \<and> hd ps \<in> {0x5e, NEGATE_CLASS} then tl ps else ps"
  obtain c rest where q: "?qs = c # rest" using assms by (cases ?qs) (auto simp: bracket_accepts_def Let_def)
  then have "suffix (BRACKET_CLOSE # r) rest"
    using assms bracket_elements_close by (auto simp: bracket_accepts_def Let_def split: if_splits)
  moreover have "suffix (c # rest) ps" unfolding q [symmetric] by (simp add: suffix_tl)
  ultimately show ?thesis using suffix_Cons_tl suffix_order.trans by metis
qed

lemma bracket_accepts_slash: "NO_MATCH_SLASH_LITERAL m \<Longrightarrow> bracket_accepts m SLASH ps = Some (b, r) \<Longrightarrow> \<not> b"
  by (auto simp: bracket_accepts_def Let_def split: list.splits)

lemma glob_bracket:
  assumes "bracket_accepts m t ps = Some (b, r)" "regular_escapes ps"
  shows "glob m prev (BRACKET_OPEN # ps) X \<longleftrightarrow>
    (\<exists>x X'. X = x # X' \<and> bracket_accepts m (possibly_lowercase m x) ps = Some (True, r) \<and> glob m (Some BRACKET_CLOSE) r X')"
proof (cases X)
  case (Cons x X')
  have "map_option snd (bracket_accepts m (possibly_lowercase m x) ps) = Some r"
    using bracket_accepts_uniform [OF assms(2), of m "possibly_lowercase m x" t] assms(1) by simp
  then obtain y where "bracket_accepts m (possibly_lowercase m x) ps = Some y" "snd y = r" unfolding map_option_eq_Some by blast
  then have "bracket_accepts m (possibly_lowercase m x) ps = Some (fst y, r)" by auto
  then show ?thesis unfolding Cons glob.simps(2) [of m prev BRACKET_OPEN ps] by auto
qed (simp add: glob.simps)

lemma glob_bracket_None:
  assumes "bracket_accepts m t ps = None" "regular_escapes ps"
  shows "\<not> glob m prev (BRACKET_OPEN # ps) X"
proof (cases X)
  case (Cons x X')
  have "bracket_accepts m (possibly_lowercase m x) ps = None"
    using bracket_accepts_uniform [OF assms(2), of m t "possibly_lowercase m x"] assms(1) by auto
  then show ?thesis using Cons by (simp add: glob.simps)
qed (simp add: glob.simps)

lemma promises_literal:
  assumes eq: "\<And>X. glob m prev P X \<longleftrightarrow> (\<exists>x X'. X = x # X' \<and> possibly_lowercase m d = possibly_lowercase m x \<and> glob m (Some d) P' X')"
    and "possibly_lowercase m d = possibly_lowercase m x" "promises m (Some d) P' T r"
  shows "promises m prev P (x # T) r"
proof (rule promises_one_byte [OF eq])
  show "y = SLASH" if "at_boundary (Some d)" "possibly_lowercase m d = possibly_lowercase m y" for y
    using that by (simp add: at_boundary_def)
  show "y = SLASH" if "possibly_lowercase m d = possibly_lowercase m SLASH" "possibly_lowercase m d = possibly_lowercase m y" for y
    using that lower_slash by metis
qed (use assms in simp_all)

text \<open>A byte of the pattern that is no glob character.\<close>

lemma match_loop_literal:
  assumes "suffix (c # ps) pattern" "suffix (x # T) whole" "c \<notin> {BACKSLASH, 0x3f, BRACKET_OPEN, STAR}"
  shows "match_loop bs recurse m pattern whole (iter_at pattern (c # ps)) (iter_at whole (x # T)) =
    (if possibly_lowercase m c \<noteq> possibly_lowercase m x then Some NoMatch
     else match_loop bs recurse m pattern whole (iter_at pattern ps) (iter_at whole T))"
  unfolding match_loop.simps [of bs recurse m pattern whole "iter_at pattern (c # ps)"] iter_next_at [OF assms(1)] iter_next_at [OF assms(2)]
    option.case prod.case lower_fixed_simps
  using assms(3) by simp

context deeper_matcher
begin

text \<open>One round of the loop, for a byte of the text and a pattern that does not start with a star.\<close>

lemma match_loop_byte:
  assumes P: "suffix (c # ps) pattern" "regular_pattern pattern" "c \<noteq> STAR" and T: "suffix (x # T) whole"
    and IH: "\<And>d P'. suffix (d # P') (c # ps) \<Longrightarrow>
      \<exists>r. match_loop bs recurse m pattern whole (iter_at pattern P') (iter_at whole T) = Some r \<and> promises m (Some d) P' T r"
  shows "\<exists>r. match_loop bs recurse m pattern whole (iter_at pattern (c # ps)) (iter_at whole (x # T)) = Some r \<and>
    promises m (prev_at pattern (c # ps)) (c # ps) (x # T) r"
proof -
  let ?loop = "\<lambda>P T. match_loop bs recurse m pattern whole (iter_at pattern P) (iter_at whole T)"
  let ?prev = "prev_at pattern (c # ps)"
  have suf': "suffix ps pattern" using P(1) by (rule suffix_Cons_tl)
  have esc: "regular_escapes ps" and cls: "regular_classes pattern"
    using regular_pattern_suffix [OF suf' P(2)] P(2) by (simp_all add: regular_pattern_def)
  note loop = match_loop.simps [of bs recurse m pattern whole "iter_at pattern (c # ps)" "iter_at whole (x # T)",
      unfolded iter_next_at [OF P(1)] iter_next_at [OF T] option.case prod.case option.distinct simp_thms if_False]
  consider (escape) "c = BACKSLASH" | (any) "c = 0x3f" | (bracket) "c = BRACKET_OPEN" | (literal) "c \<notin> {BACKSLASH, 0x3f, BRACKET_OPEN, STAR}"
    using P(3) by blast
  then show ?thesis
  proof cases
    case escape
    show ?thesis
    proof (cases ps)
      case Nil
      then show ?thesis using loop escape by (simp add: promises_def glob.simps)
    next
      case (Cons d ps')
      note nx = iter_next_at [of d ps' pattern m] 
      have eq: "glob m ?prev (c # ps) X \<longleftrightarrow> (\<exists>x X'. X = x # X' \<and> possibly_lowercase m d = possibly_lowercase m x \<and> glob m (Some d) ps' X')" for X
        using escape Cons by (cases X) (simp_all add: glob.simps)
      show ?thesis
      proof (cases "possibly_lowercase m d = possibly_lowercase m x")
        case True
        obtain r where "?loop ps' T = Some r" "promises m (Some d) ps' T r" using IH [of d ps'] Cons by (auto simp: suffix_ConsI)
        then show ?thesis using loop nx suf' Cons escape True promises_literal [OF eq True] by simp
      next
        case False
        then show ?thesis using loop nx suf' Cons escape eq [of "x # T"] by (simp add: promises_def)
      qed
    qed
  next
    case any
    have eq: "glob m ?prev (c # ps) X \<longleftrightarrow> (\<exists>x X'. X = x # X' \<and> \<not> (NO_MATCH_SLASH_LITERAL m \<and> x = SLASH) \<and> glob m (Some 0x3f) ps X')" for X
      using any by (cases X) (simp_all add: glob.simps)
    show ?thesis
    proof (cases "NO_MATCH_SLASH_LITERAL m \<and> x = SLASH")
      case True
      then show ?thesis using loop any eq [of "x # T"] by (simp add: promises_def)
    next
      case False
      obtain r where r: "?loop ps T = Some r" "promises m (Some 0x3f) ps T r" using IH [of c ps] any by auto
      have "promises m ?prev (c # ps) (x # T) r"
        using False r(2) by (intro promises_one_byte [OF eq]) (simp_all add: at_boundary_def)
      then show ?thesis using loop any False r(1) by simp
    qed
  next
    case bracket
    have b: "match_bracket m pattern (possibly_lowercase m x) (iter_at pattern ps) =
        Some (map_option (\<lambda>(accepted, r). (accepted, iter_at pattern r)) (bracket_accepts m (possibly_lowercase m x) ps))"
      using match_bracket_at [OF suf' cls] suffix_length_le [OF P(1)] by simp
    show ?thesis
    proof (cases "bracket_accepts m (possibly_lowercase m x) ps")
      case None
      then show ?thesis using loop b bracket glob_bracket_None [OF None esc] by (simp add: promises_def)
    next
      case (Some y)
      obtain acc R where y: "y = (acc, R)" by (rule prod.exhaust)
      note eq = glob_bracket [OF Some [unfolded y] esc, of ?prev]
      show ?thesis
      proof (cases acc)
        case False
        then show ?thesis using loop b bracket Some y eq [of "x # T"] by (simp add: promises_def)
      next
        case True
        have "suffix (BRACKET_CLOSE # R) (c # ps)" using bracket_accepts_close [OF Some [unfolded y]] by (rule suffix_ConsI)
        then obtain r where r: "?loop R T = Some r" "promises m (Some BRACKET_CLOSE) R T r" using IH by blast
        have sl: "possibly_lowercase m SLASH = SLASH" using lower_fixed [of SLASH m SLASH] by blast
        have "promises m ?prev (BRACKET_OPEN # ps) (x # T) r"
          using Some y True r(2)
          by (intro promises_one_byte [OF eq]) (auto simp: at_boundary_def sl dest: bracket_accepts_slash)
        then show ?thesis using loop b bracket Some y True r(1) by simp
      qed
    qed
  next
    case literal
    have eq: "glob m ?prev (c # ps) X \<longleftrightarrow> (\<exists>x X'. X = x # X' \<and> possibly_lowercase m c = possibly_lowercase m x \<and> glob m (Some c) ps X')" for X
      using literal by (cases X) (simp_all add: glob.simps)
    note step = match_loop_literal [OF P(1) T literal, of bs recurse m]
    show ?thesis
    proof (cases "possibly_lowercase m c = possibly_lowercase m x")
      case True
      obtain r where "?loop ps T = Some r" "promises m (Some c) ps T r" using IH [of c ps] by auto
      then show ?thesis using step True promises_literal [OF eq True] by simp
    next
      case False
      then show ?thesis using step eq [of "x # T"] by (simp add: promises_def)
    qed
  qed
qed

lemma match_loop_star:
  assumes P: "suffix (STAR # ps) pattern" "regular_pattern pattern" "stars (STAR # ps) \<le> levels" and T: "suffix T whole"
    and IH: "\<And>d P' T'. suffix (d # P') ps \<Longrightarrow> suffix T' whole \<Longrightarrow>
      \<exists>r. match_loop bs recurse m pattern whole (iter_at pattern P') (iter_at whole T') = Some r \<and> promises m (Some d) P' T' r"
  shows "\<exists>r. match_loop bs recurse m pattern whole (iter_at pattern (STAR # ps)) (iter_at whole T) = Some r \<and>
    promises m (prev_at pattern (STAR # ps)) (STAR # ps) T r"
proof -
  have item: "(case iter_next m (iter_at whole T) of None \<Rightarrow> ((length whole, 0), iter_at whole T) | Some x \<Rightarrow> x) =
      ((length whole - length T, cur_ch m T), iter_at whole (tl T))"
    using iter_next_at [of _ _ whole m] T by (cases T) (simp_all add: cur_ch_def iter_at_def)
  let ?star = "match_star bs recurse m pattern whole (length pattern - length (STAR # ps)) (iter_at pattern ps)
      (length whole - length T) (cur_ch m T) (iter_at whole (tl T))"
  have loop: "match_loop bs recurse m pattern whole (iter_at pattern (STAR # ps)) (iter_at whole T) =
      (case ?star of
         None \<Rightarrow> None
       | Some (StarReturn res) \<Rightarrow> Some res
       | Some (StarContinue p t) \<Rightarrow> match_loop bs recurse m pattern whole p t)"
    by (simp add: match_loop.simps [of bs recurse m pattern whole "iter_at pattern (STAR # ps)"] iter_next_at [OF P(1)] item del: length_Cons)
  have "star_outcome m pattern whole ps T ?star" by (rule match_star_promises [OF P T])
  then show ?thesis unfolding star_outcome_def
  proof (elim disjE exE conjE)
    fix r assume "?star = Some (StarReturn r)" "promises m (prev_at pattern (STAR # ps)) (STAR # ps) T r"
    then show ?thesis unfolding loop by simp
  next
    fix R A T1
    assume c: "suffix (SLASH # R) ps" "T = A @ SLASH # T1" "?star = Some (StarContinue (iter_at pattern R) (iter_at whole T1))"
      "\<forall>r. promises m (Some SLASH) R T1 r \<longrightarrow> promises m (prev_at pattern (STAR # ps)) (STAR # ps) T r"
    have "suffix (SLASH # T1) whole" using T unfolding c(2) by (rule suffix_appendD)
    then have "suffix T1 whole" by (rule suffix_Cons_tl)
    then obtain r where "match_loop bs recurse m pattern whole (iter_at pattern R) (iter_at whole T1) = Some r" "promises m (Some SLASH) R T1 r"
      using IH [OF c(1)] by blast
    then show ?thesis unfolding loop c(3) using c(4) by simp
  qed
qed

lemma match_loop_promises:
  assumes "regular_pattern pattern"
  shows "suffix P pattern \<Longrightarrow> stars P \<le> levels \<Longrightarrow> suffix T whole \<Longrightarrow>
    \<exists>r. match_loop bs recurse m pattern whole (iter_at pattern P) (iter_at whole T) = Some r \<and> promises m (prev_at pattern P) P T r"
proof (induction P arbitrary: T rule: length_induct)
  case (1 P)
  have IH: "\<exists>r. match_loop bs recurse m pattern whole (iter_at pattern P') (iter_at whole T') = Some r \<and> promises m (Some d) P' T' r"
    if "suffix (d # P') P" "suffix T' whole" for d P' T'
  proof -
    have suf: "suffix (d # P') pattern" using that(1) 1(2) by (rule suffix_order.trans)
    have "length P' < length P" using suffix_length_le [OF that(1)] by simp
    moreover have "stars P' \<le> levels" using stars_suffix [OF that(1)] 1(3) by (simp split: if_splits)
    ultimately show ?thesis using 1(1) that(2) suffix_Cons_tl [OF suf] prev_at_Cons [OF suf] by metis
  qed
  show ?case
  proof (cases P)
    case Nil
    then show ?thesis by (cases T) (simp_all add: match_loop.simps iter_at_def promises_def glob.simps)
  next
    case (Cons c ps)
    show ?thesis
    proof (cases "c = STAR")
      case True
      have P: "suffix (STAR # ps) pattern" "stars (STAR # ps) \<le> levels" using 1(2,3) Cons True by simp_all
      show ?thesis using match_loop_star [OF P(1) assms P(2) 1(4)] IH Cons True by (simp add: suffix_ConsI)
    next
      case False
      show ?thesis
      proof (cases T)
        case Nil
        have "\<not> glob m (prev_at pattern P) P []" using glob_needs_text [of P] Cons False by simp
        then show ?thesis using False Nil iter_next_at [of c ps pattern m] 1(2) Cons by (simp add: match_loop.simps promises_def)
      next
        case (Cons x T1)
        have suf: "suffix (c # ps) pattern" "suffix (x # T1) whole" using 1(2,4) Cons \<open>P = c # ps\<close> by simp_all
        have "suffix T1 whole" using suf(2) by (rule suffix_Cons_tl)
        then show ?thesis using match_loop_byte [OF suf(1) assms False suf(2)] IH \<open>P = c # ps\<close> Cons by simp
      qed
    qed
  qed
qed

end

lemma match_recursive_deeper:
  assumes "bstr_spec bs"
  shows "deeper_matcher bs (match_recursive levels bs m) levels m"
proof (induction levels)
  case 0
  show ?case using assms by (intro deeper_matcher.intro deeper_matcher_axioms.intro) simp_all
next
  case (Suc levels)
  have "\<exists>r. match_recursive (Suc levels) bs m P T = Some r \<and> promises m None P T r"
    if "regular_pattern P" "stars P < Suc levels" for P T
    using deeper_matcher.match_loop_promises [OF Suc that(1), of P T T] that(2) by (simp add: iter_at_def prev_at_def)
  then show ?case using assms by (intro deeper_matcher.intro deeper_matcher_axioms.intro)
qed

interpretation wm: deeper_matcher reference_bstr "match_recursive RECURSION_LIMIT reference_bstr m" RECURSION_LIMIT m for m
  by (rule match_recursive_deeper) (rule ref_bstr.bstr_spec_axioms)

lemma wildmatch_glob:
  assumes "bstr_spec bs" "regular_pattern pattern" "stars pattern \<le> 63"
  shows "wildmatch bs pattern val mode = Some (glob mode None pattern val)"
proof -
  have "stars pattern < RECURSION_LIMIT" using assms(3) by (simp add: RECURSION_LIMIT_def)
  then obtain r where "match_recursive RECURSION_LIMIT bs mode pattern val = Some r" "promises mode None pattern val r"
    using deeper_matcher.recurse_promises [OF match_recursive_deeper [OF assms(1)] assms(2)] by blast
  then show ?thesis using promises_Match by (simp add: wildmatch_def)
qed

text \<open>
  C38: the matcher decides exactly the meaning of the pattern, never panics and does not run into its depth limit, for every text and in every mode, if the
  pattern has at most 63 stars, every \<^verbatim>\<open>[:\<close> in it starts a complete class name and no escaped byte is followed by a dash.  So all of its
  early returns, the aborts that skip positions of the text included, lose no match and add none.
\<close>

theorem wildmatch_decides_glob:
  assumes "bstr_spec bs" "regular_pattern pattern" "count_list pattern STAR \<le> 63"
  shows "wildmatch bs pattern val mode = Some (glob mode None pattern val)"
  using assms by (rule wildmatch_glob)

theorem wildmatch_decides_glob_witness:
  "let mode = \<lparr>NO_MATCH_SLASH_LITERAL = True, IGNORE_CASE = False\<rparr> in
   wildmatch reference_bstr (lit ''src/**/[[:alpha:]]*.[ch]'') (lit ''src/a/b/x1.c'') mode = Some True \<and>
   glob mode None (lit ''src/**/[[:alpha:]]*.[ch]'') (lit ''src/a/b/x1.c'')"
proof -
  let ?mode = "\<lparr>NO_MATCH_SLASH_LITERAL = True, IGNORE_CASE = False\<rparr>" and ?p = "lit ''src/**/[[:alpha:]]*.[ch]''"
  have "wildmatch reference_bstr ?p (lit ''src/a/b/x1.c'') ?mode = Some True" by code_simp
  moreover have "regular_pattern ?p" "count_list ?p STAR \<le> 63" by code_simp+
  ultimately show ?thesis using wildmatch_decides_glob [OF ref_bstr.bstr_spec_axioms, of ?p "lit ''src/a/b/x1.c''" ?mode]
    unfolding Let_def by (simp only: option.inject simp_thms)
qed

text \<open>
  An incomplete class name in a bracket expression is meant to stand for its bytes, but whether it does depends on where in the pattern it is: the offset that
  is added to indices after the restart of the iterator grows too fast, and what follows the expression is taken from a wrong position.
\<close>

theorem incomplete_class_depends_on_position:
  "let mode = \<lparr>NO_MATCH_SLASH_LITERAL = True, IGNORE_CASE = False\<rparr> in
   wildmatch reference_bstr (lit ''[[:x]'') (lit ''x'') mode = Some True \<and>
   wildmatch reference_bstr (lit ''abc[[:x]'') (lit ''abcx'') mode = Some False \<and>
   wildmatch reference_bstr (lit ''[[:x]b'') (lit ''xb'') mode = Some True \<and>
   wildmatch reference_bstr (lit ''[[:x]*b'') (lit ''xb'') mode = Some False"
  unfolding Let_def by code_simp

end
