(* ===== verification/Gix_Glob.thy ===== *)
theory Gix_Glob
  imports Gix_Wildmatch_Spec
begin

text \<open>
  Glob patterns for paths (\<^verbatim>\<open>src/gix-glob/src/\<close>: \<^verbatim>\<open>parse.rs\<close>, \<^verbatim>\<open>pattern.rs\<close>, \<^verbatim>\<open>search/pattern.rs\<close>): parsing, printing, matching of paths with the
  shortcuts for simple patterns, and making paths relative to the base of a pattern list.  The shortcuts never change what
  the matcher of \<open>Gix_Wildmatch\<close> says.
\<close>

section \<open>parse.rs\<close>

record pattern_mode =
  NO_SUB_DIR :: bool
  ENDS_WITH :: bool
  MUST_BE_DIR :: bool
  NEGATIVE :: bool
  ABSOLUTE :: bool

definition first_wildcard_pos :: "bstr \<Rightarrow> bytes \<Rightarrow> nat option" where
  "first_wildcard_pos bs pat = find_byteset bs pat GLOB_CHARACTERS"

text \<open>The leading exclamation mark, or its escaped form, and that of a hash.\<close>

definition strip_negation :: "bytes \<Rightarrow> bool \<Rightarrow> bytes \<times> bool" where
  "strip_negation pat may_alter =
     (if may_alter then
        (if get_at pat 0 = Some 0x21 then (drop 1 pat, True)
         else if get_at pat 0 = Some BACKSLASH \<and> (get_at pat 1 = Some 0x21 \<or> get_at pat 1 = Some 0x23) then (drop 1 pat, False)
         else (pat, False))
      else (pat, False))"

definition parse_pattern :: "bstr \<Rightarrow> bytes \<Rightarrow> bool \<Rightarrow> (bytes \<times> pattern_mode \<times> nat option) option" where
  "parse_pattern bs pat may_alter =
     (if pat = [] then None
      else
        (case strip_negation pat may_alter of (pat, negative) \<Rightarrow>
           if list_all is_ascii_whitespace pat then None
           else
             (let absolute = (get_at pat 0 = Some SLASH);
                  pat = (if absolute then drop 1 pat else pat);
                  must_be_dir = (pat \<noteq> [] \<and> last pat = SLASH);
                  pat = (if must_be_dir then butlast pat else pat);
                  mode = \<lparr>NO_SUB_DIR = (SLASH \<notin> set pat),
                    ENDS_WITH = (get_at pat 0 = Some STAR \<and> first_wildcard_pos bs (drop 1 pat) = None),
                    MUST_BE_DIR = must_be_dir, NEGATIVE = negative, ABSOLUTE = absolute\<rparr> in
              Some (pat, mode, first_wildcard_pos bs pat))))"

section \<open>pattern.rs\<close>

record glob_pattern =
  pattern_text :: bytes
  pattern_flags :: pattern_mode
  pattern_wildcard :: "nat option"

datatype case_fold = Sensitive | Fold

definition pattern_from_bytes :: "bstr \<Rightarrow> bytes \<Rightarrow> glob_pattern option" where
  "pattern_from_bytes bs t =
     map_option (\<lambda>(t, mode, pos). \<lparr>pattern_text = t, pattern_flags = mode, pattern_wildcard = pos\<rparr>) (parse_pattern bs t True)"

definition pattern_from_bytes_without_negation :: "bstr \<Rightarrow> bytes \<Rightarrow> glob_pattern option" where
  "pattern_from_bytes_without_negation bs t =
     map_option (\<lambda>(t, mode, pos). \<lparr>pattern_text = t, pattern_flags = mode, pattern_wildcard = pos\<rparr>) (parse_pattern bs t False)"

definition is_negative :: "glob_pattern \<Rightarrow> bool" where
  "is_negative p = NEGATIVE (pattern_flags p)"

definition pattern_matches :: "bstr \<Rightarrow> glob_pattern \<Rightarrow> bytes \<Rightarrow> wildmatch_mode \<Rightarrow> bool or_panic" where
  "pattern_matches bs p val mode =
     (case pattern_wildcard p of
        Some pos \<Rightarrow>
          if ENDS_WITH (pattern_flags p) \<and> (\<not> NO_MATCH_SLASH_LITERAL mode \<or> SLASH \<notin> set val) then
            (case slice_from (pattern_text p) (pos + 1) of
               None \<Rightarrow> None
             | Some t \<Rightarrow>
                 Some (if IGNORE_CASE mode then
                     length t \<le> length val \<and> eq_ignore_ascii_case t (drop (length val - length t) val)
                   else suffix t val))
          else
            (case get_range (pattern_text p) 0 pos of
               None \<Rightarrow> None
             | Some t \<Rightarrow>
                 if IGNORE_CASE mode then
                   (case get_range val 0 pos of
                      None \<Rightarrow> Some False
                    | Some v \<Rightarrow> if \<not> eq_ignore_ascii_case v t then Some False else wildmatch bs (pattern_text p) val mode)
                 else if \<not> prefix t val then Some False
                 else wildmatch bs (pattern_text p) val mode)
      | None \<Rightarrow> Some (if IGNORE_CASE mode then eq_ignore_ascii_case (pattern_text p) val else pattern_text p = val))"

definition matches_repo_relative_path ::
    "bstr \<Rightarrow> glob_pattern \<Rightarrow> bytes \<Rightarrow> nat option \<Rightarrow> bool option \<Rightarrow> case_fold \<Rightarrow> wildmatch_mode \<Rightarrow> bool or_panic" where
  "matches_repo_relative_path bs p path basename_start_pos is_dir cas mode =
     (let is_dir = (case is_dir of None \<Rightarrow> False | Some d \<Rightarrow> d) in
      if \<not> is_dir \<and> MUST_BE_DIR (pattern_flags p) then Some False
      else
        (let flags = mode\<lparr>IGNORE_CASE := IGNORE_CASE mode \<or> cas = Fold\<rparr> in
         if NO_SUB_DIR (pattern_flags p) \<and> \<not> ABSOLUTE (pattern_flags p) then
           (case slice_from path (case basename_start_pos of None \<Rightarrow> 0 | Some pos \<Rightarrow> pos) of
              None \<Rightarrow> None
            | Some basename \<Rightarrow> pattern_matches bs p basename flags)
         else pattern_matches bs p path flags))"

definition pattern_display :: "glob_pattern \<Rightarrow> bytes" where
  "pattern_display p =
     (if NEGATIVE (pattern_flags p) then [0x21] else []) @
     (if ABSOLUTE (pattern_flags p) then [SLASH] else []) @
     pattern_text p @
     (if MUST_BE_DIR (pattern_flags p) then [SLASH] else [])"

section \<open>search/pattern.rs\<close>

text \<open>The position behind the base is negative, and the subtraction wraps, only if the base name starts inside of the base.\<close>

definition strip_base_handle_recompute_basename_pos ::
    "bytes \<Rightarrow> bytes \<Rightarrow> nat option \<Rightarrow> case_fold \<Rightarrow> (bytes \<times> nat option) option" where
  "strip_base_handle_recompute_basename_pos base relative_path basename_pos cas =
     (case (case cas of
          Sensitive \<Rightarrow> if prefix base relative_path then Some (drop (length base) relative_path) else None
        | Fold \<Rightarrow>
            (case get_range relative_path 0 (length base) of
               None \<Rightarrow> None
             | Some rela_dir \<Rightarrow>
                 if \<not> eq_ignore_ascii_case rela_dir base then None else Some (drop (length base) relative_path))) of
        None \<Rightarrow> None
      | Some path \<Rightarrow>
          Some (path, case basename_pos of
              None \<Rightarrow> None
            | Some pos \<Rightarrow>
                (let pos = (if length base \<le> pos then pos - length base else pos + 2 ^ 64 - length base) in
                 if pos \<noteq> 0 then Some pos else None)))"

section \<open>Literal patterns\<close>

definition literal_text :: "bytes \<Rightarrow> bool" where
  "literal_text t \<longleftrightarrow> (\<forall>c\<in>set t. c \<notin> set GLOB_CHARACTERS)"

lemma literal_text_Cons [simp]:
  "literal_text (c # t) \<longleftrightarrow> c \<notin> {BACKSLASH, 0x3f, BRACKET_OPEN, STAR} \<and> literal_text t"
  "literal_text []"
  by (auto simp: literal_text_def GLOB_CHARACTERS_def)

lemma literal_regular:
  assumes "literal_text t"
  shows "regular_pattern t" "stars t = 0"
proof -
  have "regular_classes t" using assms by (induction t) (auto split: list.split)
  moreover have "regular_escapes t" using assms by (induction t rule: regular_escapes.induct) simp_all
  ultimately show "regular_pattern t" by (simp add: regular_pattern_def)
  show "stars t = 0" using assms by (induction t) auto
qed

lemma star_literal_regular:
  assumes "literal_text t"
  shows "regular_pattern (STAR # t)" "stars (STAR # t) = 1"
proof -
  note t = literal_regular [OF assms]
  have "regular_classes (STAR # t)" using t(1) by (simp add: regular_pattern_def split: list.split)
  moreover have "regular_escapes (STAR # t)" using t(1) by (cases t rule: regular_escapes.cases) (auto simp: regular_pattern_def)
  ultimately show "regular_pattern (STAR # t)" by (simp add: regular_pattern_def)
  show "stars (STAR # t) = 1" using t(2) by simp
qed

lemma glob_literal: "literal_text t \<Longrightarrow> glob m prev t v \<longleftrightarrow> map (possibly_lowercase m) t = map (possibly_lowercase m) v"
proof (induction t arbitrary: prev v)
  case (Cons c t)
  then show ?case by (cases v) (auto simp: glob.simps)
qed (simp add: glob.simps)

lemma map_lower: "map (possibly_lowercase m) a = map (possibly_lowercase m) b \<longleftrightarrow> (if IGNORE_CASE m then eq_ignore_ascii_case a b else a = b)"
proof -
  have "possibly_lowercase m = (if IGNORE_CASE m then to_ascii_lowercase else id)" by (auto simp: possibly_lowercase_def)
  then show ?thesis by (simp add: eq_ignore_ascii_case_def)
qed

lemma glob_star_literal:
  assumes "literal_text t" "\<not> NO_MATCH_SLASH_LITERAL m \<or> SLASH \<notin> set v"
  shows "glob m prev (STAR # t) v \<longleftrightarrow>
    (if IGNORE_CASE m then length t \<le> length v \<and> eq_ignore_ascii_case t (drop (length v - length t) v) else suffix t v)"
proof -
  have hd: "\<not> (t \<noteq> [] \<and> hd t = STAR)" using assms(1) by (cases t) auto
  then have nc: "\<not> crossing m prev t" and R: "after_stars t = t" by (auto simp: crossing_def after_stars_def dropWhile_eq_self_iff)
  have "\<not> NO_MATCH_SLASH_LITERAL m \<or> SLASH \<notin> set (take k v)" for k using assms(2) in_set_takeD [of SLASH k v] by blast
  then have "glob m prev (STAR # t) v \<longleftrightarrow> (\<exists>k\<le>length v. map (possibly_lowercase m) t = map (possibly_lowercase m) (drop k v))"
    by (simp add: glob_star_plain [OF nc] R glob_literal [OF assms(1)])
  also have "\<dots> \<longleftrightarrow> length t \<le> length v \<and> map (possibly_lowercase m) t = map (possibly_lowercase m) (drop (length v - length t) v)"
  proof
    assume "\<exists>k\<le>length v. map (possibly_lowercase m) t = map (possibly_lowercase m) (drop k v)"
    then obtain k where k: "k \<le> length v" "map (possibly_lowercase m) t = map (possibly_lowercase m) (drop k v)" by blast
    have "length t = length v - k" using arg_cong [OF k(2), of length] by simp
    then show "length t \<le> length v \<and> map (possibly_lowercase m) t = map (possibly_lowercase m) (drop (length v - length t) v)"
      using k by simp
  qed (use diff_le_self in blast)
  finally show ?thesis by (auto simp: map_lower suffix_def) (metis append_take_drop_id)
qed

section \<open>The shortcuts\<close>

text \<open>A text that differs from the literal start of the pattern is rejected by the matcher, whatever follows.\<close>

lemma match_loop_prefix:
  assumes "literal_text L" "suffix (L @ R) pattern" "suffix T whole"
    "\<not> (length L \<le> length T \<and> map (possibly_lowercase m) (take (length L) T) = map (possibly_lowercase m) L)"
  shows "match_loop bs recurse m pattern whole (iter_at pattern (L @ R)) (iter_at whole T) \<in> {Some NoMatch, Some AbortAll}"
  using assms
proof (induction L arbitrary: T)
  case (Cons c L)
  have suf: "suffix (c # L @ R) pattern" using Cons.prems(2) by simp
  show ?case
  proof (cases T)
    case Nil
    then show ?thesis using Cons.prems(1) iter_next_at [OF suf, of m] by (simp add: match_loop.simps)
  next
    case (Cons x T1)
    have sufT: "suffix (x # T1) whole" using Cons.prems(3) Cons by simp
    have c: "c \<notin> {BACKSLASH, 0x3f, BRACKET_OPEN, STAR}" using Cons.prems(1) by simp
    note step = match_loop_literal [OF suf sufT c, of bs recurse m]
    show ?thesis
    proof (cases "possibly_lowercase m c = possibly_lowercase m x")
      case True
      have "match_loop bs recurse m pattern whole (iter_at pattern (L @ R)) (iter_at whole T1) \<in> {Some NoMatch, Some AbortAll}"
        using Cons.prems(1,4) True Cons suffix_Cons_tl [OF suf] suffix_Cons_tl [OF sufT] by (intro Cons.IH) auto
      then show ?thesis using step True Cons by simp
    qed (use step Cons in simp)
  qed
qed simp

lemma wildmatch_prefix:
  assumes "literal_text L" "\<not> (length L \<le> length v \<and> map (possibly_lowercase m) (take (length L) v) = map (possibly_lowercase m) L)"
  shows "wildmatch bs (L @ R) v m = Some False"
proof -
  have lim: "RECURSION_LIMIT = Suc 63" by (simp add: RECURSION_LIMIT_def)
  have "match_recursive RECURSION_LIMIT bs m (L @ R) v \<in> {Some NoMatch, Some AbortAll}"
    unfolding lim match_recursive.simps iter_at_start
    by (rule match_loop_prefix [OF assms(1) suffix_order.refl suffix_order.refl assms(2)])
  then show ?thesis by (auto simp: wildmatch_def)
qed

text \<open>What is known about a parsed pattern.\<close>

definition parsed_pattern :: "glob_pattern \<Rightarrow> bool" where
  "parsed_pattern p \<longleftrightarrow>
     pattern_wildcard p = position (\<lambda>c. c \<in> set GLOB_CHARACTERS) (pattern_text p) \<and>
     (ENDS_WITH (pattern_flags p) \<longrightarrow> (\<exists>t. pattern_text p = STAR # t \<and> literal_text t)) \<and>
     (NO_SUB_DIR (pattern_flags p) \<longleftrightarrow> SLASH \<notin> set (pattern_text p))"

context bstr_spec
begin

lemma parse_pattern_parsed:
  assumes "parse_pattern bs t may_alter = Some (txt', mode, pos)"
  shows "parsed_pattern \<lparr>pattern_text = txt', pattern_flags = mode, pattern_wildcard = pos\<rparr>"
proof -
  have "get_at xs 0 = Some STAR \<Longrightarrow> first_wildcard_pos bs (drop 1 xs) = None \<Longrightarrow> \<exists>t. xs = STAR # t \<and> literal_text t" for xs
    by (cases xs) (auto simp: first_wildcard_pos_def find_byteset literal_text_def)
  then show ?thesis
    using assms by (auto simp: parse_pattern_def parsed_pattern_def first_wildcard_pos_def find_byteset Let_def split: if_splits prod.splits)
qed

lemma from_bytes_parsed:
  "pattern_from_bytes bs t = Some p \<or> pattern_from_bytes_without_negation bs t = Some p \<Longrightarrow> parsed_pattern p"
  using parse_pattern_parsed by (auto simp: pattern_from_bytes_def pattern_from_bytes_without_negation_def)

lemma pattern_matches_wildmatch:
  assumes "parsed_pattern p"
  shows "pattern_matches bs p val mode = wildmatch bs (pattern_text p) val mode"
proof (cases "pattern_wildcard p")
  case None
  then have "position (\<lambda>c. c \<in> set GLOB_CHARACTERS) (pattern_text p) = None" using assms by (simp add: parsed_pattern_def)
  then have "literal_text (pattern_text p)" by (simp add: literal_text_def)
  then show ?thesis using None wildmatch_glob [OF bstr_spec_axioms] literal_regular
    by (simp add: pattern_matches_def glob_literal map_lower)
next
  case (Some pos)
  show ?thesis
  proof (cases "ENDS_WITH (pattern_flags p) \<and> (\<not> NO_MATCH_SLASH_LITERAL mode \<or> SLASH \<notin> set val)")
    case True
    then obtain t where t: "pattern_text p = STAR # t" "literal_text t" using assms by (auto simp: parsed_pattern_def)
    then have "pos = 0" using assms Some by (simp add: parsed_pattern_def GLOB_CHARACTERS_def)
    then show ?thesis using Some True t wildmatch_glob [OF bstr_spec_axioms] star_literal_regular [OF t(2)]
      by (simp add: pattern_matches_def slice_from_def glob_star_literal)
  next
    case False
    have "position (\<lambda>c. c \<in> set GLOB_CHARACTERS) (pattern_text p) = Some pos" using assms Some by (simp add: parsed_pattern_def)
    then obtain L c R where split: "pattern_text p = L @ c # R" "length L = pos" "literal_text L"
      unfolding position_split literal_text_def by blast
    have reject: "wildmatch bs (pattern_text p) val mode = Some False"
      if "\<not> (length L \<le> length val \<and> map (possibly_lowercase mode) (take (length L) val) = map (possibly_lowercase mode) L)"
      unfolding split(1) by (rule wildmatch_prefix [OF split(3) that])
    have "prefix L val \<longleftrightarrow> length L \<le> length val \<and> take (length L) val = L"
      by (metis append_eq_conv_conj append_take_drop_id length_take min.absorb2 prefix_def prefix_length_le)
    then show ?thesis using Some False reject split(1,2)
      by (auto simp: pattern_matches_def get_range_def map_lower)
  qed
qed

end

text \<open>
  C39: the shortcuts for literal patterns, for patterns that are a star and a literal, and for the literal start of a pattern never change the answer: for every
  pattern that was parsed, with or without negation, every value and every mode, \<^verbatim>\<open>Pattern::matches\<close> answers what the full matcher answers.
\<close>

theorem pattern_shortcuts_agree:
  assumes "bstr_spec bs" "pattern_from_bytes bs t = Some p \<or> pattern_from_bytes_without_negation bs t = Some p"
  shows "pattern_matches bs p val mode = wildmatch bs (pattern_text p) val mode"
  using bstr_spec.pattern_matches_wildmatch bstr_spec.from_bytes_parsed assms by blast

theorem pattern_shortcuts_agree_witness:
  "\<exists>p. pattern_from_bytes reference_bstr (lit ''!*.rs'') = Some p \<and>
     pattern_matches reference_bstr p (lit ''lib.RS'') \<lparr>NO_MATCH_SLASH_LITERAL = True, IGNORE_CASE = True\<rparr> =
       wildmatch reference_bstr (pattern_text p) (lit ''lib.RS'') \<lparr>NO_MATCH_SLASH_LITERAL = True, IGNORE_CASE = True\<rparr> \<and>
     pattern_matches reference_bstr p (lit ''lib.RS'') \<lparr>NO_MATCH_SLASH_LITERAL = True, IGNORE_CASE = True\<rparr> = Some True"
proof -
  have "pattern_from_bytes reference_bstr (lit ''!*.rs'') \<noteq> None" by code_simp
  then obtain p where p: "pattern_from_bytes reference_bstr (lit ''!*.rs'') = Some p" by blast
  have "map_option (\<lambda>p. pattern_matches reference_bstr p (lit ''lib.RS'') \<lparr>NO_MATCH_SLASH_LITERAL = True, IGNORE_CASE = True\<rparr>)
      (pattern_from_bytes reference_bstr (lit ''!*.rs'')) = Some (Some True)" by code_simp
  then show ?thesis using p pattern_shortcuts_agree [OF ref_bstr.bstr_spec_axioms, of "lit ''!*.rs''" p] by simp
qed

text \<open>
  C40: matching a path of the repository.  For a parsed pattern within the limits of the matcher, a path matches exactly if it is a directory, should the
  pattern ask for one, and the base name of the path, for patterns without a slash, or else the whole path is in the meaning of the pattern, in the
  case that was asked for.
\<close>

theorem repo_path_matching_is_glob:
  assumes "bstr_spec bs" "pattern_from_bytes bs t = Some p" "regular_pattern (pattern_text p)" "count_list (pattern_text p) STAR \<le> 63"
    and "path = dir @ basename" "SLASH \<notin> set basename" "dir = [] \<and> pos = None \<or> dir \<noteq> [] \<and> last dir = SLASH \<and> pos = Some (length dir)"
  shows "matches_repo_relative_path bs p path pos is_dir cas mode =
    Some ((MUST_BE_DIR (pattern_flags p) \<longrightarrow> is_dir = Some True) \<and>
      glob (mode\<lparr>IGNORE_CASE := IGNORE_CASE mode \<or> cas = Fold\<rparr>) None (pattern_text p)
        (if SLASH \<notin> set (pattern_text p) \<and> \<not> ABSOLUTE (pattern_flags p) then basename else path))"
proof -
  have parsed: "parsed_pattern p" using bstr_spec.from_bytes_parsed assms(1,2) by blast
  have base: "slice_from path (case pos of None \<Rightarrow> 0 | Some pos \<Rightarrow> pos) = Some basename"
    using assms(5,7) by (auto simp: slice_from_def)
  have m: "pattern_matches bs p v flags = Some (glob flags None (pattern_text p) v)" for v flags
    using bstr_spec.pattern_matches_wildmatch [OF assms(1) parsed] wildmatch_glob [OF assms(1,3,4)] by simp
  have sub: "NO_SUB_DIR (pattern_flags p) \<longleftrightarrow> SLASH \<notin> set (pattern_text p)" using parsed by (simp add: parsed_pattern_def)
  have "(case is_dir of None \<Rightarrow> False | Some d \<Rightarrow> d) \<longleftrightarrow> is_dir = Some True" by (cases is_dir) simp_all
  then show ?thesis unfolding matches_repo_relative_path_def Let_def base m sub option.case by simp
qed

theorem repo_path_matching_is_glob_witness:
  "\<exists>p. pattern_from_bytes reference_bstr (lit ''*.rs'') = Some p \<and>
     matches_repo_relative_path reference_bstr p (lit ''src/lib.rs'') (Some 4) None Sensitive \<lparr>NO_MATCH_SLASH_LITERAL = True, IGNORE_CASE = False\<rparr> = Some True"
proof -
  let ?mode = "\<lparr>NO_MATCH_SLASH_LITERAL = True, IGNORE_CASE = False\<rparr>"
  have "map_option pattern_text (pattern_from_bytes reference_bstr (lit ''*.rs'')) = Some (lit ''*.rs'')"
    "map_option pattern_flags (pattern_from_bytes reference_bstr (lit ''*.rs'')) =
      Some \<lparr>NO_SUB_DIR = True, ENDS_WITH = True, MUST_BE_DIR = False, NEGATIVE = False, ABSOLUTE = False\<rparr>" by code_simp+
  then obtain p where p: "pattern_from_bytes reference_bstr (lit ''*.rs'') = Some p" "pattern_text p = lit ''*.rs''"
    "pattern_flags p = \<lparr>NO_SUB_DIR = True, ENDS_WITH = True, MUST_BE_DIR = False, NEGATIVE = False, ABSOLUTE = False\<rparr>" by auto
  have g: "glob ?mode None (lit ''*.rs'') (lit ''lib.rs'')"
    using glob_star_literal [of "lit ''.rs''" ?mode "lit ''lib.rs''" None] by (simp add: suffix_def)
  have r: "regular_pattern (lit ''*.rs'')" "count_list (lit ''*.rs'') STAR \<le> 63" by code_simp+
  have "matches_repo_relative_path reference_bstr p (lit ''src/lib.rs'') (Some 4) None Sensitive ?mode =
      Some ((MUST_BE_DIR (pattern_flags p) \<longrightarrow> None = Some True) \<and>
        glob (?mode\<lparr>IGNORE_CASE := IGNORE_CASE ?mode \<or> Sensitive = Fold\<rparr>) None (pattern_text p)
          (if SLASH \<notin> set (pattern_text p) \<and> \<not> ABSOLUTE (pattern_flags p) then lit ''lib.rs'' else lit ''src/lib.rs''))"
    by (rule repo_path_matching_is_glob [OF ref_bstr.bstr_spec_axioms p(1), where dir = "lit ''src/''"]) (simp_all add: p r [simplified])
  then show ?thesis using p g by simp
qed

text \<open>
  Printing a parsed pattern gives the text it was parsed from, with one exception: the backslash in front of an escaped exclamation mark or hash is lost, so
  that the printed form of such a pattern is read as a negated pattern, or as a comment where these are allowed.
\<close>

theorem pattern_display_roundtrip:
  assumes "pattern_from_bytes bs t = Some p"
  shows "pattern_display p =
    (if get_at t 0 = Some BACKSLASH \<and> (get_at t 1 = Some 0x21 \<or> get_at t 1 = Some 0x23) then drop 1 t else t)"
proof -
  have tail: "(if xs \<noteq> [] \<and> last xs = SLASH then butlast xs else xs) @ (if xs \<noteq> [] \<and> last xs = SLASH then [SLASH] else []) = xs" for xs
    by (auto simp: snoc_eq_iff_butlast)
  have head: "get_at xs 0 = Some c \<Longrightarrow> c # drop 1 xs = xs" for xs and c :: u8 by (cases xs) simp_all
  obtain q neg where q: "strip_negation t True = (q, neg)" by (rule prod.exhaust)
  define r where "r = (if get_at q 0 = Some SLASH then drop 1 q else q)"
  have r: "(if get_at q 0 = Some SLASH then [SLASH] else []) @ r = q" using head by (simp add: r_def)
  have "pattern_display p = (if neg then [0x21] else []) @ (if get_at q 0 = Some SLASH then [SLASH] else []) @
      (if r \<noteq> [] \<and> last r = SLASH then butlast r else r) @ (if r \<noteq> [] \<and> last r = SLASH then [SLASH] else [])"
    using assms by (auto simp: pattern_from_bytes_def parse_pattern_def q Let_def pattern_display_def r_def [symmetric] split: if_splits)
  then have "pattern_display p = (if neg then [0x21] else []) @ q" by (simp only: tail r)
  then show ?thesis using q head by (auto simp: strip_negation_def split: if_splits)
qed

theorem pattern_display_roundtrip_witness:
  "\<exists>p. pattern_from_bytes reference_bstr (lit ''!/a*/'') = Some p \<and> pattern_display p = lit ''!/a*/''"
proof -
  have "pattern_from_bytes reference_bstr (lit ''!/a*/'') \<noteq> None" by code_simp
  then obtain p where p: "pattern_from_bytes reference_bstr (lit ''!/a*/'') = Some p" by blast
  then show ?thesis using pattern_display_roundtrip [OF p] by simp
qed

end
