(* ===== verification/Gix_Commitgraph_Format.thy ===== *)
theory Gix_Commitgraph_Format
  imports Gix_Commitgraph
begin

text \<open>
  The file format of commit graphs as git documents it, written down as an encoder of a list of commits, and the proof
  that the reader of \<^verbatim>\<open>src/gix-commitgraph/src/file/\<close> gets every commit back from such a file: ids, trees, generation numbers, times and
  parents, with the list of extra edges for commits with more than two parents.  Lookups by id follow from the locale
  \<open>oid_table\<close>, interpreted here on commit-graph files, and are lifted to graphs of several files.
\<close>

section \<open>The format\<close>

record cg_entry =
  ge_id :: oid
  ge_tree :: oid
  ge_parents :: "u32 list"
  ge_generation :: u32
  ge_time :: u64

text \<open>The two parent fields of a commit and its extra edges, the first of which has the index \<open>n\<close> in the list of them all.\<close>

fun encode_parents :: "nat \<Rightarrow> u32 list \<Rightarrow> u32 \<times> u32 \<times> u32 list" where
  "encode_parents n [] = (NO_PARENT, NO_PARENT, [])"
| "encode_parents n [a] = (a, NO_PARENT, [])"
| "encode_parents n [a, b] = (a, b, [])"
| "encode_parents n (a # b # c # ps) =
     (a, word_of_nat n OR EXTENDED_EDGES_MASK, butlast (b # c # ps) @ [last (b # c # ps) OR LAST_EXTENDED_EDGE_MASK])"

definition encode_commit :: "nat \<Rightarrow> cg_entry \<Rightarrow> bytes" where
  "encode_commit n e =
     (case encode_parents n (ge_parents e) of (p1, p2, _) \<Rightarrow>
        ge_tree e @ be32 p1 @ be32 p2 @ be64 (push_bit 34 (ucast (ge_generation e)) OR ge_time e))"

definition extra_edges :: "cg_entry \<Rightarrow> u32 list" where
  "extra_edges e = snd (snd (encode_parents 0 (ge_parents e)))"

fun encode_commits :: "nat \<Rightarrow> cg_entry list \<Rightarrow> bytes list" where
  "encode_commits n [] = []"
| "encode_commits n (e # es) = encode_commit n e # encode_commits (n + length (extra_edges e)) es"

definition all_edges :: "cg_entry list \<Rightarrow> u32 list" where
  "all_edges es = concat (map extra_edges es)"

definition ids_fan :: "oid list \<Rightarrow> u32 list" where
  "ids_fan ids = map (\<lambda>b. word_of_nat (length (filter (\<lambda>x. hd x \<le> word_of_nat b) ids))) [0..<256]"

definition cg_chunks :: "cg_entry list \<Rightarrow> (chunk_id \<times> bytes) list" where
  "cg_chunks es =
     [(OID_FAN_CHUNK_ID, concat (map be32 (ids_fan (map ge_id es)))),
      (OID_LOOKUP_CHUNK_ID, concat (map ge_id es)),
      (COMMIT_DATA_CHUNK_ID, concat (encode_commits 0 es))] @
     (if all_edges es = [] then [] else [(EXTENDED_EDGES_LIST_CHUNK_ID, concat (map be32 (all_edges es)))])"

definition cg_header :: "cg_entry list \<Rightarrow> bytes" where
  "cg_header es = CG_SIGNATURE @ [1, 1, word_of_nat (length (cg_chunks es)), 0]"

definition cg_encode :: "(bytes \<Rightarrow> bytes) \<Rightarrow> cg_entry list \<Rightarrow> bytes" where
  "cg_encode sha1 es =
     (case write_chunk_file (cg_header es) (cg_chunks es) of None \<Rightarrow> [] | Some data \<Rightarrow> data @ sha1 data)"

definition wf_cg_entry :: "cg_entry \<Rightarrow> bool" where
  "wf_cg_entry e \<longleftrightarrow> length (ge_id e) = 20 \<and> length (ge_tree e) = 20 \<and> list_all (\<lambda>p. p < NO_PARENT) (ge_parents e) \<and>
     ge_generation e \<le> GENERATION_NUMBER_MAX \<and> ge_time e < push_bit 34 1"

definition wf_cg_entries :: "cg_entry list \<Rightarrow> bool" where
  "wf_cg_entries es \<longleftrightarrow> es \<noteq> [] \<and> length es \<le> unat MAX_COMMITS \<and> length (all_edges es) < 2 ^ 31 \<and> list_all wf_cg_entry es \<and>
     sorted_wrt (\<lambda>a b. cmp_slice a b = Less) (map ge_id es)"

section \<open>Bits\<close>

lemma be_bytes_append: "be_bytes (m + n) v = be_bytes m (v div 256 ^ n) @ be_bytes n v"
proof (induction n arbitrary: v)
  case (Suc n)
  have "v div 256 div 256 ^ n = v div 256 ^ Suc n" by (simp add: div_mult2_eq)
  with Suc [of "v div 256"] show ?case by simp
qed simp

lemma be64_halves: "be64 w = be32 (ucast (drop_bit 32 w)) @ be32 (ucast w)"
proof -
  have "be_bytes 8 (unat w) = be_bytes 4 (unat w div 256 ^ 4) @ be_bytes 4 (unat w)"
    using be_bytes_append [of 4 4 "unat w"] by simp
  moreover have "be_bytes 4 (v mod 2 ^ 32) = be_bytes 4 v" for v
  proof -
    have "be_bytes 4 (be_nat (be_bytes 4 v)) = be_bytes 4 v" by (rule be_bytes_be_nat) simp
    then show ?thesis by (simp add: be_nat_be_bytes)
  qed
  ultimately show ?thesis
    by (simp add: be64_def be32_def unat_ucast_mod unat_drop_bit del: be_bytes.simps)
qed

lemma take_bit_small: "unat w < 2 ^ n \<Longrightarrow> take_bit n w = w" for w :: "'a::len word"
  by (rule unsigned_word_eqI [where 'a = nat]) (simp add: unat_take_bit)

lemma generation_bits:
  assumes "gen \<le> GENERATION_NUMBER_MAX" "time < push_bit 34 (1 :: u64)"
  shows "drop_bit 2 (ucast (drop_bit 32 (push_bit 34 (ucast gen) OR time)) :: u32) = gen"
    and "(push_bit 34 (ucast gen) OR time) AND 0x0003ffffffff = time"
proof -
  have t: "take_bit 34 time = time" using assms(2) by (intro take_bit_small) (simp add: word_less_nat_alt)
  have g: "take_bit 30 gen = gen"
    using assms(1) by (intro take_bit_small) (simp add: GENERATION_NUMBER_MAX_def word_le_nat_alt)
  have tb: "bit time n \<Longrightarrow> n < 34" for n using t by (metis bit_take_bit_iff)
  have gb: "bit gen n \<Longrightarrow> n < 30" for n using g by (metis bit_take_bit_iff)
  show "drop_bit 2 (ucast (drop_bit 32 (push_bit 34 (ucast gen) OR time)) :: u32) = gen"
    by (rule bit_word_eqI) (auto simp: bit_simps dest: tb gb)
  have m: "(0x0003ffffffff :: u64) = mask 34" by (simp add: mask_eq_exp_minus_1)
  show "(push_bit 34 (ucast gen) OR time) AND 0x0003ffffffff = time"
    unfolding m by (rule bit_word_eqI) (auto simp: bit_simps dest: tb)
qed

lemma edge_masks: "EXTENDED_EDGES_MASK = push_bit 31 1" "LAST_EXTENDED_EDGE_MASK = push_bit 31 1"
  by (simp_all add: EXTENDED_EDGES_MASK_def LAST_EXTENDED_EDGE_MASK_def)

lemma small_no_high_bit:
  fixes w :: u32
  assumes "unat w < 2 ^ 31"
  shows "\<not> bit w 31" and "w AND push_bit 31 1 = 0" and "(w OR push_bit 31 1) AND push_bit 31 1 \<noteq> 0"
    and "(w OR push_bit 31 1) AND NOT (push_bit 31 1) = w"
proof -
  have "take_bit 31 w = w" using assms by (rule take_bit_small)
  then show b: "\<not> bit w 31" by (metis bit_take_bit_iff less_irrefl)
  define h :: u32 where "h = push_bit 31 1"
  have one: "bit h n \<longleftrightarrow> n = 31" for n
    unfolding h_def by (subst bit_push_bit_iff) (auto simp: bit_1_iff)
  have "w AND h = 0" by (rule bit_word_eqI) (use b in \<open>auto simp: bit_and_iff one\<close>)
  moreover have "bit ((w OR h) AND h) 31" by (simp add: bit_and_iff bit_or_iff one)
  then have "(w OR h) AND h \<noteq> 0" by fastforce
  moreover have "(w OR h) AND NOT h = w"
    by (rule bit_word_eqI) (use b in \<open>auto simp: bit_and_iff bit_or_iff bit_not_iff one\<close>)
  ultimately show "w AND push_bit 31 1 = 0" "(w OR push_bit 31 1) AND push_bit 31 1 \<noteq> 0"
    "(w OR push_bit 31 1) AND NOT (push_bit 31 1) = w"
    unfolding h_def by blast+
qed

lemma position_small: "p < NO_PARENT \<Longrightarrow> unat p < 2 ^ 31"
  by (simp add: NO_PARENT_def word_less_nat_alt)

lemma parent_edge_position: "p < NO_PARENT \<Longrightarrow> parent_edge_from_raw p = EdgeGraphPosition p"
  using small_no_high_bit(2) [OF position_small] by (auto simp: parent_edge_from_raw_def edge_masks)

lemma parent_edge_none: "parent_edge_from_raw NO_PARENT = EdgeNone"
  by (simp add: parent_edge_from_raw_def)

lemma parent_edge_extra:
  assumes "n < 2 ^ 31"
  shows "parent_edge_from_raw (word_of_nat n OR EXTENDED_EDGES_MASK) = EdgeExtraEdgeIndex (word_of_nat n)"
proof -
  have u: "unat (word_of_nat n :: u32) = n" using assms by (intro unat_of_nat_small) simp
  note b = small_no_high_bit [of "word_of_nat n", unfolded u, OF assms]
  have "NO_PARENT AND push_bit 31 1 = 0" by (rule small_no_high_bit) (simp add: NO_PARENT_def)
  then have "word_of_nat n OR push_bit 31 1 \<noteq> NO_PARENT" using b(3) by metis
  then show ?thesis using b(3,4) by (simp add: parent_edge_from_raw_def edge_masks)
qed

lemma extra_edge_position:
  assumes "p < NO_PARENT"
  shows "extra_edge_from_raw p = EdgeInternal p" and "extra_edge_from_raw (p OR LAST_EXTENDED_EDGE_MASK) = EdgeLast p"
  using small_no_high_bit(2-4) [OF position_small [OF assms]] by (simp_all add: extra_edge_from_raw_def edge_masks)

section \<open>Reading parents back\<close>

lemma be32_not_Nil [simp]: "be32 w \<noteq> []"
  by (metis length_be(1) list.size(3) zero_neq_numeral)

lemma parents_from_exhausted: "parents_from c PsExhausted = []"
  by (simp add: parents_from.simps parents_next_def)

lemma parents_from_extra:
  assumes "list_all (\<lambda>p. p < NO_PARENT) qs" "qs \<noteq> []"
  shows "parents_from c (PsExtra (concat (map be32 (butlast qs @ [last qs OR LAST_EXTENDED_EDGE_MASK])) @ rest)) = map Ok qs"
  using assms
proof (induction qs)
  case (Cons q qs)
  show ?case
  proof (cases "qs = []")
    case True
    then show ?thesis
      using Cons.prems by (simp add: parents_from.simps [of c "PsExtra _"] parents_next_def parents_next_extra_def
          extra_edge_position parents_from_exhausted)
  next
    case False
    let ?rest = "concat (map be32 (butlast qs @ [last qs OR LAST_EXTENDED_EDGE_MASK])) @ rest"
    have "parents_from c (PsExtra (be32 q @ ?rest)) = Ok q # parents_from c (PsExtra ?rest)"
      using Cons.prems by (simp add: parents_from.simps [of c "PsExtra (be32 q @ _)"] parents_next_def parents_next_extra_def
          extra_edge_position)
    then show ?thesis using Cons False by simp
  qed
qed simp

text \<open>The parent fields of a commit hold a list of parents whose extra edges start at index \<open>n\<close>.\<close>

lemma iter_parents_encoded:
  assumes ps: "list_all (\<lambda>p. p < NO_PARENT) ps" and enc: "encode_parents n ps = (p1, p2, ex)"
    and c: "cc_parent1 c = parent_edge_from_raw p1" "cc_parent2 c = parent_edge_from_raw p2"
    and ex: "ex \<noteq> [] \<Longrightarrow> n < 2 ^ 31 \<and> extra_edges_data (cc_file c) = Some (Some (concat (map be32 (pre @ ex @ post)))) \<and> length pre = n"
  shows "iter_parents c = map Ok ps"
proof -
  note steps = iter_parents_def parents_from.simps [of c PsFirst] parents_from.simps [of c PsSecond] parents_next_def c
    parent_edge_none parent_edge_position parents_from_exhausted
  consider "ps = []" | a where "ps = [a]" | a b where "ps = [a, b]" | a b d r where "ps = a # b # d # r"
    by (metis list.exhaust)
  then show ?thesis
  proof cases
    case (4 a b d r)
    let ?qs = "b # d # r"
    have e: "p1 = a" "p2 = word_of_nat n OR EXTENDED_EDGES_MASK" "ex = butlast ?qs @ [last ?qs OR LAST_EXTENDED_EDGE_MASK]"
      using enc 4 by auto
    then have x: "n < 2 ^ 31" "extra_edges_data (cc_file c) = Some (Some (concat (map be32 (pre @ ex @ post))))" "length pre = n"
      using ex by auto
    have u: "unat (word_of_nat n :: u32) = n" using x(1) by (intro unat_of_nat_small) simp
    have l4: "length (concat (map be32 xs)) = length xs * 4" for xs using length_concat_const [of "map be32 xs" 4] by simp
    have dr: "drop (n * 4) (concat (map be32 (pre @ ex @ post))) = concat (map be32 ex) @ concat (map be32 post)"
      using x(3) by (simp add: l4)
    have le: "n * 4 \<le> length (concat (map be32 (pre @ ex @ post)))" using x(3) unfolding l4 by simp
    have "parents_next c PsSecond = (case parents_next_extra c (concat (map be32 ex) @ concat (map be32 post)) of (y, st) \<Rightarrow> (Some y, st))"
      unfolding parents_next_def c e(2) parent_edge_extra [OF x(1)] x(2) using le by (simp only: u dr parent_edge.case
          parent_iterator_state.case option.case Let_def if_True)
    also have "\<dots> = parents_next c (PsExtra (concat (map be32 ex) @ concat (map be32 post)))"
      by (simp add: parents_next_def)
    finally have "parents_from c PsSecond = parents_from c (PsExtra (concat (map be32 ex) @ concat (map be32 post)))"
      by (simp add: parents_from.simps [of c PsSecond] parents_from.simps [of c "PsExtra _"])
    also have "\<dots> = map Ok ?qs"
      unfolding e(3) by (rule parents_from_extra) (use ps 4 in auto)
    finally show ?thesis
      using 4 ps e(1) by (simp add: iter_parents_def parents_from.simps [of c PsFirst] parents_next_def c parent_edge_position)
  qed (use ps enc in \<open>auto simp: steps\<close>)
qed

section \<open>Opening an encoded file\<close>

lemma length_encode_commits [simp]: "length (encode_commits n es) = length es"
  by (induction es arbitrary: n) auto

lemma encode_commits_nth:
  "k < length es \<Longrightarrow> encode_commits n es ! k = encode_commit (n + length (all_edges (take k es))) (es ! k)"
proof (induction es arbitrary: n k)
  case (Cons e es)
  then show ?case by (cases k) (simp_all add: all_edges_def add.assoc)
qed simp

lemma length_encode_commit: "wf_cg_entry e \<Longrightarrow> length (encode_commit n e) = 36"
  by (simp add: encode_commit_def wf_cg_entry_def split: prod.splits)

lemma encode_commits_sizes: "list_all wf_cg_entry es \<Longrightarrow> \<forall>x\<in>set (encode_commits n es). length x = 36"
  by (induction es arbitrary: n) (auto simp: length_encode_commit)

lemma length_ids_fan [simp]: "length (ids_fan ids) = 256"
  by (simp add: ids_fan_def)

lemma ids_fan_last: "ids_fan ids ! 255 = word_of_nat (length ids)"
proof -
  have "b \<le> (255 :: u8)" for b using unat_lt_256 [of b] by (simp add: word_le_nat_alt less_Suc_eq_le [symmetric] del: unat_lt_256)
  then show ?thesis by (simp add: ids_fan_def filter_id_conv)
qed

lemma length_concat_be32 [simp]: "length (concat (map be32 xs)) = 4 * length xs"
  using length_concat_const [of "map be32 xs" 4] by simp

lemma MAX_COMMITS_unat: "unat MAX_COMMITS = 0x6fffffff"
  by (simp add: MAX_COMMITS_def)

definition cg_opens_as :: "cg_file \<Rightarrow> bytes \<Rightarrow> cg_entry list \<Rightarrow> bool" where
  "cg_opens_as f data es \<longleftrightarrow> cg_data f = data \<and> cg_fan f = ids_fan (map ge_id es) \<and> cg_hash_len f = 20 \<and>
     cg_object_hash f = KSha1 \<and> cg_base_graph_count f = 0 \<and> cg_base_graphs_list_offset f = None \<and>
     (\<exists>pre post. data = pre @ concat (map ge_id es) @ post \<and> length pre = cg_oid_lookup_offset f) \<and>
     (\<exists>pre post. data = pre @ concat (encode_commits 0 es) @ post \<and> length pre = cg_commit_data_offset f) \<and>
     extra_edges_data f = Some (if all_edges es = [] then None else Some (concat (map be32 (all_edges es))))"

lemma cg_chunks_wf:
  assumes "wf_cg_entries es"
  shows "wf_chunks 8 (cg_chunks es)" and "8 + size_for_entries (length (cg_chunks es)) + sum_list (map (length \<circ> snd) (cg_chunks es)) + 20 < 2 ^ 64"
    and "length (concat (map ge_id es)) = length es * 20" and "length (concat (encode_commits 0 es)) = length es * 36"
proof -
  have es: "es \<noteq> []" "length es \<le> 0x6fffffff" "length (all_edges es) < 2 ^ 31" "list_all wf_cg_entry es"
    using assms by (auto simp: wf_cg_entries_def MAX_COMMITS_unat)
  show ids: "length (concat (map ge_id es)) = length es * 20"
    using length_concat_const [of "map ge_id es" 20] es(4) by (simp add: list_all_iff wf_cg_entry_def)
  show cd: "length (concat (encode_commits 0 es)) = length es * 36"
    using length_concat_const [OF encode_commits_sizes [OF es(4)], of 0] by simp
  have ne: "concat (map ge_id es) \<noteq> []" "concat (encode_commits 0 es) \<noteq> []" "concat (map be32 (ids_fan (map ge_id es))) \<noteq> []"
    using ids cd es(1) length_concat_be32 [of "ids_fan (map ge_id es)"] by fastforce+
  let ?l = "size_for_entries (length (cg_chunks es)) + sum_list (map (length \<circ> snd) (cg_chunks es))"
  have "?l \<le> 12 * 5 + 1024 + length es * 20 + length es * 36 + 4 * length (all_edges es)"
    using ids cd by (simp add: cg_chunks_def size_for_entries_def ENTRY_SIZE_def del: length_concat)
  with es(2,3) have l: "8 + ?l + 20 < 2 ^ 64" by simp
  then show "8 + size_for_entries (length (cg_chunks es)) + sum_list (map (length \<circ> snd) (cg_chunks es)) + 20 < 2 ^ 64" by simp
  have "list_all (\<lambda>(k, d). length k = 4 \<and> k \<noteq> SENTINEL \<and> d \<noteq> []) (cg_chunks es)" "distinct (map fst (cg_chunks es))"
    "cg_chunks es \<noteq> []" "length (cg_chunks es) < 2 ^ 32"
    using ne by (auto simp: cg_chunks_def SENTINEL_def OID_FAN_CHUNK_ID_def OID_LOOKUP_CHUNK_ID_def COMMIT_DATA_CHUNK_ID_def
        EXTENDED_EDGES_LIST_CHUNK_ID_def)
  then show "wf_chunks 8 (cg_chunks es)" using l by (simp add: wf_chunks_def)
qed

lemma length_cg_header [simp]: "length (cg_header es) = 8"
  by (simp add: cg_header_def CG_SIGNATURE_def)

lemma cg_header_fields:
  assumes "data = cg_header es @ rest"
  shows "take (length CG_SIGNATURE) data = CG_SIGNATURE" "data ! 4 = 1" "data ! 5 = 1" "data ! 7 = 0"
    "(ucast (data ! 6) :: u32) = word_of_nat (length (cg_chunks es))"
  using assms by (simp_all add: cg_header_def CG_SIGNATURE_def) (simp add: cg_chunks_def)

lemma read_fan_ids: "read_fan (concat (map be32 (ids_fan ids)) @ rest) = Some (ids_fan ids, 1024)"
  using chunks_exact_concat [of 4 "map be32 (ids_fan ids)" rest]
  by (simp add: read_fan_def index_consts comp_def)

lemma counted_chunk_table:
  assumes "n < 2 ^ 32" "0 < m"
  shows "counted_chunk k m (a, a + n * m) = Ok (a, word_of_nat n)"
  using assms by (simp add: counted_chunk_def usize_to_u32_def Let_def)

lemma length_chunk_file:
  assumes "wf_chunks (length header) cs" "write_chunk_file header cs = Some body"
  shows "length body = length header + size_for_entries (length cs) + sum_list (map (length \<circ> snd) cs)"
    and "\<exists>rest. body = header @ rest"
proof -
  have k4: "\<forall>c\<in>set cs. length (fst c) = 4" using assms(1) by (auto simp: wf_chunks_def list_all_iff)
  have "length (concat (map snd cs)) = sum_list (map (length \<circ> snd) cs)" by (induction cs) auto
  then show "length body = length header + size_for_entries (length cs) + sum_list (map (length \<circ> snd) cs)"
    using write_chunk_file_eq [OF assms(1)] assms(2) length_write_toc [OF k4] by simp
  show "\<exists>rest. body = header @ rest" using write_chunk_file_eq [OF assms(1)] assms(2) by simp
qed

lemma extra_edges_range:
  assumes "\<forall>(k, d)\<in>set (cg_chunks es). data_by_id ci data k = Ok d" "map ce_kind (ci_chunks ci) = map fst (cg_chunks es)"
    and f: "cg_data f = data" "cg_extra_edges_list_range f =
      (case usize_offset_by_id ci EXTENDED_EDGES_LIST_CHUNK_ID of Ok r \<Rightarrow> Some r | _ \<Rightarrow> None)"
  shows "extra_edges_data f = Some (if all_edges es = [] then None else Some (concat (map be32 (all_edges es))))"
proof (cases "all_edges es = []")
  case True
  then have "EXTENDED_EDGES_LIST_CHUNK_ID \<notin> fst ` set (cg_chunks es)"
    by (simp add: cg_chunks_def EXTENDED_EDGES_LIST_CHUNK_ID_def OID_FAN_CHUNK_ID_def OID_LOOKUP_CHUNK_ID_def COMMIT_DATA_CHUNK_ID_def)
  from no_large_chunk [OF assms(2) this] show ?thesis using True f(2) by (simp add: extra_edges_data_def)
next
  case False
  let ?e = "concat (map be32 (all_edges es))"
  from False have "data_by_id ci data EXTENDED_EDGES_LIST_CHUNK_ID = Ok ?e" using assms(1) by (auto simp: cg_chunks_def)
  from data_by_id_range [OF this] obtain pre post where
    "usize_offset_by_id ci EXTENDED_EDGES_LIST_CHUNK_ID = Ok (length pre, length pre + length ?e)" "data = pre @ ?e @ post"
    by blast
  then show ?thesis using False f get_range_middle [of "length pre" pre "length pre + length ?e" ?e post]
    by (simp add: extra_edges_data_def del: length_concat_be32)
qed

lemma cg_encode_opens:
  assumes wf: "wf_cg_entries es" and sha1: "\<And>b. length (sha1 b) = 20"
  shows "\<exists>f. cg_file_new (cg_encode sha1 es) path = Ok f \<and> cg_path f = path \<and> cg_opens_as f (cg_encode sha1 es) es"
proof -
  let ?cs = "cg_chunks es" and ?n = "length es"
  note cs = cg_chunks_wf [OF wf]
  have hl: "length (cg_header es) = 8" by simp
  have wfc: "wf_chunks (length (cg_header es)) ?cs" using cs(1) hl by simp
  have n: "?n < 2 ^ 32" using wf by (simp add: wf_cg_entries_def MAX_COMMITS_unat)
  define body where "body = (case write_chunk_file (cg_header es) ?cs of None \<Rightarrow> [] | Some b \<Rightarrow> b)"
  have body: "write_chunk_file (cg_header es) ?cs = Some body" using write_chunk_file_eq [OF wfc] by (simp add: body_def)
  define dig where "dig = sha1 body"
  let ?d = "body @ dig"
  have enc: "cg_encode sha1 es = ?d" by (simp add: cg_encode_def body dig_def)
  have dl: "length dig = 20" by (simp add: dig_def sha1)
  from chunk_file_written [OF wfc, of dig] cs(2) dl hl body
  obtain ci where dec: "chunk_from_bytes ?d 8 (word_of_nat (length ?cs)) = Ok ci"
    and by_id: "\<forall>(k, d)\<in>set ?cs. data_by_id ci ?d k = Ok d"
    and hi: "highest_offset ci = Some (word_of_nat (length body))" and kinds: "map ce_kind (ci_chunks ci) = map fst ?cs"
    by auto
  note bl = length_chunk_file [OF wfc body]
  have ulen: "unat (word_of_nat (length body) :: u64) = length body" using cs(2) bl(1) hl by (intro unat_of_nat_small) simp
  obtain rest where "?d = cg_header es @ rest" using bl(2) by auto
  note fields = cg_header_fields [OF this]
  have "\<not> length ?d < CG_MIN_FILE_SIZE"
    unfolding length_append bl(1) hl dl
    by (simp add: CG_MIN_FILE_SIZE_def CG_HEADER_LEN_def size_for_entries_def ENTRY_SIZE_def FAN_LEN_def cg_chunks_def)
  note start = this fields
  have fan_d: "data_by_id ci ?d OID_FAN_CHUNK_ID = Ok (concat (map be32 (ids_fan (map ge_id es))))"
    and oid_d: "data_by_id ci ?d OID_LOOKUP_CHUNK_ID = Ok (concat (map ge_id es))"
    and cd_d: "data_by_id ci ?d COMMIT_DATA_CHUNK_ID = Ok (concat (encode_commits 0 es))"
    using by_id by (auto simp: cg_chunks_def)
  obtain p0 q0 where fan: "usize_offset_by_id ci OID_FAN_CHUNK_ID = Ok (length p0, length p0 + 1024)"
    "?d = p0 @ concat (map be32 (ids_fan (map ge_id es))) @ q0" using data_by_id_range [OF fan_d] by auto
  obtain p1 q1 where oid: "usize_offset_by_id ci OID_LOOKUP_CHUNK_ID = Ok (length p1, length p1 + ?n * 20)"
    "?d = p1 @ concat (map ge_id es) @ q1" using data_by_id_range [OF oid_d] unfolding cs(3) by blast
  obtain p2 q2 where cd: "usize_offset_by_id ci COMMIT_DATA_CHUNK_ID = Ok (length p2, length p2 + ?n * 36)"
    "?d = p2 @ concat (encode_commits 0 es) @ q2" using data_by_id_range [OF cd_d] unfolding cs(4) by blast
  have base: "optional_chunk ci BASE_GRAPHS_LIST_CHUNK_ID (base_graphs_chunk KSha1 0) = Ok None"
    using no_large_chunk [OF kinds, of BASE_GRAPHS_LIST_CHUNK_ID]
    by (simp add: optional_chunk_Ok cg_chunks_def BASE_GRAPHS_LIST_CHUNK_ID_def EXTENDED_EDGES_LIST_CHUNK_ID_def OID_FAN_CHUNK_ID_def
        OID_LOOKUP_CHUNK_ID_def COMMIT_DATA_CHUNK_ID_def split: if_splits)
  have req: "required_chunk ci OID_FAN_CHUNK_ID oid_fan_chunk = Ok (length p0)"
    "required_chunk ci OID_LOOKUP_CHUNK_ID (counted_chunk OID_LOOKUP_CHUNK_ID 20) = Ok (length p1, word_of_nat ?n)"
    "required_chunk ci COMMIT_DATA_CHUNK_ID (counted_chunk COMMIT_DATA_CHUNK_ID (20 + COMMIT_DATA_ENTRY_SIZE_SANS_HASH)) =
      Ok (length p2, word_of_nat ?n)"
    unfolding required_chunk_Ok fan(1) oid(1) cd(1) COMMIT_DATA_ENTRY_SIZE_SANS_HASH_def
    using counted_chunk_table [OF n] by (simp_all add: oid_fan_chunk_def FAN_LEN_def)
  have dr: "get_range ?d (length p0) (length ?d) = Some (concat (map be32 (ids_fan (map ge_id es))) @ q0)"
    unfolding fan(2) by (simp add: get_range_def)
  have trailer: "get_range ?d (length body) (length ?d) = Some dig" by (simp add: get_range_def)
  have last: "ids_fan (map ge_id es) ! 255 = word_of_nat ?n" by (simp add: ids_fan_last)
  let ?f = "\<lparr>cg_base_graph_count = 0, cg_base_graphs_list_offset = None,
                cg_commit_data_offset = length p2, cg_data = ?d,
                cg_extra_edges_list_range =
                  (case usize_offset_by_id ci EXTENDED_EDGES_LIST_CHUNK_ID of Ok r \<Rightarrow> Some r | _ \<Rightarrow> None),
                cg_fan = ids_fan (map ge_id es),
                cg_oid_lookup_offset = length p1, cg_path = path, cg_hash_len = 20,
                cg_object_hash = KSha1\<rparr>"
  have "cg_file_new ?d path = Ok ?f"
    unfolding cg_file_new_def Let_def
    using start by (simp add: kind_try_from_def dec base req hi ulen trailer dl dr read_fan_ids last
        del: length_append take_append drop_append)
  moreover have "extra_edges_data ?f = Some (if all_edges es = [] then None else Some (concat (map be32 (all_edges es))))"
    by (rule extra_edges_range [OF by_id kinds]) simp_all
  then have "cg_opens_as ?f ?d es"
    unfolding cg_opens_as_def cg_file.select_convs using oid(2) cd(2) by blast
  ultimately show ?thesis unfolding enc by auto
qed

section \<open>Well-formed files are sorted tables\<close>

definition cg_wf :: "cg_file \<Rightarrow> bool" where
  "cg_wf f \<longleftrightarrow> unat (cg_num_commits f) \<le> 2 ^ 31 \<and> cg_hash_len f = 20 \<and>
     (case cg_iter_ids f of
        None \<Rightarrow> False
      | Some ids \<Rightarrow> sorted_wrt (\<lambda>a b. cmp_slice a b = Less) ids \<and>
          list_all (\<lambda>b. unat (cg_fan f ! b) = length (filter (\<lambda>x. hd x \<le> word_of_nat b) ids)) [0..<256])"

definition empty_cg :: cg_file where
  "empty_cg = \<lparr>cg_base_graph_count = 0, cg_base_graphs_list_offset = None, cg_commit_data_offset = 0, cg_data = [],
     cg_extra_edges_list_range = None, cg_fan = replicate 256 0, cg_oid_lookup_offset = 0, cg_path = [], cg_hash_len = 20,
     cg_object_hash = KSha1\<rparr>"

definition checked_cg :: "cg_file \<Rightarrow> cg_file" where
  "checked_cg f = (if cg_wf f then f else empty_cg)"

lemma cg_wf_checked: "cg_wf (checked_cg f)"
  by (simp add: checked_cg_def cg_wf_def cg_iter_ids_def empty_cg_def cg_num_commits_def list_all_iff)

lemma checked_cg_id: "cg_wf f \<Longrightarrow> checked_cg f = f"
  by (simp add: checked_cg_def)

lemma cg_iter_ids_nth:
  assumes "cg_iter_ids f = Some ids"
  shows "length ids = unat (cg_num_commits f)" and "unat w < length ids \<Longrightarrow> cg_id_at f w = Some (ids ! unat w)"
proof -
  note ids = assms [unfolded cg_iter_ids_def]
  show len: "length ids = unat (cg_num_commits f)" using those_length [OF ids] by simp
  show "unat w < length ids \<Longrightarrow> cg_id_at f w = Some (ids ! unat w)" using those_nth [OF ids, of "unat w"] len by simp
qed

lemma cg_wf_table:
  assumes "cg_wf f"
  shows "oid_table (the (cg_iter_ids f)) (cg_fan f) (cg_id_at f) (cg_num_commits f)"
proof -
  from assms obtain ids where ids: "cg_iter_ids f = Some ids"
    and wf: "unat (cg_num_commits f) \<le> 2 ^ 31" "cg_hash_len f = 20" "sorted_wrt (\<lambda>a b. cmp_slice a b = Less) ids"
      "list_all (\<lambda>b. unat (cg_fan f ! b) = length (filter (\<lambda>x. hd x \<le> word_of_nat b) ids)) [0..<256]"
    by (auto simp: cg_wf_def split: option.splits)
  note nth = cg_iter_ids_nth [OF ids]
  have fan: "unat (cg_fan f ! unat b) = length (filter (\<lambda>x. hd x \<le> b) ids)" for b :: u8
    using wf(4) unat_lt_256 [of b] by (auto simp: list_all_iff)
  have l20: "length x = 20" if x: "x \<in> set ids" for x
  proof -
    obtain k where k: "k < length ids" "ids ! k = x" using x by (auto simp: in_set_conv_nth)
    moreover have "unat (word_of_nat k :: u32) = k" using k(1) nth(1) wf(1) by (intro unat_of_nat_small) simp
    ultimately have "cg_id_at f (word_of_nat k) = Some x" using nth(2) [of "word_of_nat k"] by simp
    then show ?thesis using wf(2) by (auto simp: cg_id_at_def get_range_Some Let_def split: if_splits)
  qed
  show ?thesis using wf nth fan l20 ids by unfold_locales simp_all
qed

interpretation cg_table: oid_table "the (cg_iter_ids (checked_cg f))" "cg_fan (checked_cg f)"
  "cg_id_at (checked_cg f)" "cg_num_commits (checked_cg f)" for f
  by (rule cg_wf_table [OF cg_wf_checked])

lemma cg_lookup_finds:
  assumes wf: "cg_wf f" and i: "length i = 20"
  shows "\<exists>r. cg_lookup f i = Some (Some r) \<and> (\<forall>k. r = Some k \<longleftrightarrow> cg_id_at f k = Some i)"
proof -
  from wf obtain ids where ids: "cg_iter_ids f = Some ids" by (auto simp: cg_wf_def split: option.splits)
  note nth = cg_iter_ids_nth [OF ids]
  have "unat k < length ids" if "cg_id_at f k = Some i" for k
    using that nth(1) by (auto simp: cg_id_at_def word_less_nat_alt split: if_splits)
  then have "cg_id_at f k = Some i \<longleftrightarrow> unat k < length ids \<and> ids ! unat k = i" for k using nth(2) [of k] by auto
  with cg_table.lookup_finds [OF i, of f] show ?thesis by (simp add: checked_cg_id [OF wf] ids cg_lookup_def)
qed

section \<open>Encoded files read back\<close>

lemma cg_opened_num:
  assumes "wf_cg_entries es" "cg_opens_as f data es"
  shows "cg_num_commits f = word_of_nat (length es)" and "unat (cg_num_commits f) = length es"
    and "k < length es \<Longrightarrow> unat (word_of_nat k :: u32) = k" and "k < length es \<Longrightarrow> (word_of_nat k :: u32) < cg_num_commits f"
proof -
  have n: "length es < 2 ^ 32" using assms(1) by (simp add: wf_cg_entries_def MAX_COMMITS_unat)
  show num: "cg_num_commits f = word_of_nat (length es)" using assms(2) by (simp add: cg_opens_as_def cg_num_commits_def ids_fan_last)
  then show un: "unat (cg_num_commits f) = length es" using unat_of_nat_small [where 'a = 32, of "length es"] n by simp
  show k: "k < length es \<Longrightarrow> unat (word_of_nat k :: u32) = k" using n by (intro unat_of_nat_small) simp
  then show "k < length es \<Longrightarrow> (word_of_nat k :: u32) < cg_num_commits f" using un by (simp add: word_less_nat_alt)
qed

lemma cg_opened_id:
  assumes wf: "wf_cg_entries es" and f: "cg_opens_as f data es" and k: "k < length es"
  shows "cg_id_at f (word_of_nat k) = Some (ge_id (es ! k))"
proof -
  from f obtain pre post where d: "cg_data f = pre @ concat (map ge_id es) @ post" "length pre = cg_oid_lookup_offset f"
    by (auto simp: cg_opens_as_def)
  have "\<forall>x\<in>set (map ge_id es). length x = 20" using wf by (auto simp: wf_cg_entries_def list_all_iff wf_cg_entry_def)
  then have "get_range (cg_data f) (cg_oid_lookup_offset f + k * 20) (cg_oid_lookup_offset f + k * 20 + 20) = Some (map ge_id es ! k)"
    unfolding d(1) using k d(2) by (intro get_range_record) auto
  then show ?thesis
    using f k cg_opened_num [OF wf f] by (simp add: cg_id_at_def cg_opens_as_def Let_def)
qed

lemma cg_opened_wf:
  assumes wf: "wf_cg_entries es" and f: "cg_opens_as f data es"
  shows "cg_wf f"
proof -
  have "cg_iter_ids f = Some (map ge_id es)"
  proof -
    have "map (\<lambda>k. cg_id_at f (word_of_nat k)) [0..<length es] = map Some (map ge_id es)"
      by (rule nth_equalityI) (simp_all add: cg_opened_id [OF wf f])
    then show ?thesis using those_map_Some [of "map ge_id es" Some "\<lambda>x. x"]
      by (simp add: cg_iter_ids_def cg_opened_num(2) [OF wf f] del: map_map)
  qed
  moreover have "length es < 2 ^ 31" using wf by (simp add: wf_cg_entries_def MAX_COMMITS_unat)
  moreover have "unat (word_of_nat (length (filter P (map ge_id es))) :: u32) = length (filter P (map ge_id es))" for P
    using length_filter_le [of P "map ge_id es"] calculation(2) by (intro unat_of_nat_small) (simp del: length_filter_le)
  ultimately show ?thesis
    using f wf by (auto simp: cg_wf_def cg_opened_num(2) [OF wf f] cg_opens_as_def wf_cg_entries_def ids_fan_def list_all_iff)
qed

lemma cg_opened_commit:
  assumes wf: "wf_cg_entries es" and f: "cg_opens_as f data es" and k: "k < length es"
  shows "\<exists>c. cg_commit_at f (word_of_nat k) = Some c \<and> cc_file c = f \<and> cc_pos c = word_of_nat k \<and> cc_root_tree_id c = ge_tree (es ! k) \<and>
    cc_generation c = ge_generation (es ! k) \<and> cc_commit_timestamp c = ge_time (es ! k) \<and> iter_parents c = map Ok (ge_parents (es ! k))"
proof -
  let ?e = "es ! k" and ?n = "length (all_edges (take k es))"
  have e: "wf_cg_entry ?e" using wf k by (auto simp: wf_cg_entries_def list_all_length)
  obtain p1 p2 ex where enc: "encode_parents ?n (ge_parents ?e) = (p1, p2, ex)" by (cases "encode_parents ?n (ge_parents ?e)")
  let ?w = "push_bit 34 (ucast (ge_generation ?e)) OR ge_time ?e"
  let ?b = "ge_tree ?e @ be32 p1 @ be32 p2 @ be64 ?w"
  from f obtain pre post where d: "cg_data f = pre @ concat (encode_commits 0 es) @ post" "length pre = cg_commit_data_offset f"
    by (auto simp: cg_opens_as_def)
  have "get_range (cg_data f) (cg_commit_data_offset f + k * 36) (cg_commit_data_offset f + k * 36 + 36) = Some (encode_commits 0 es ! k)"
    unfolding d(1) using k d(2) wf
    by (intro get_range_record [OF encode_commits_sizes]) (simp_all add: wf_cg_entries_def)
  then have b: "commit_data_bytes f (word_of_nat k) = Some ?b"
    using f k cg_opened_num [OF wf f] encode_commits_nth [OF k, of 0] enc
    by (simp add: commit_data_bytes_def cg_opens_as_def Let_def COMMIT_DATA_ENTRY_SIZE_SANS_HASH_def encode_commit_def)
  have lt: "length (ge_tree ?e) = 20" "cg_hash_len f = 20" using e f by (simp_all add: wf_cg_entry_def cg_opens_as_def)
  have g4: "take 4 (be64 ?w) = be32 (ucast (drop_bit 32 ?w))" by (simp add: be64_halves [of ?w])
  note bits = generation_bits [of "ge_generation ?e" "ge_time ?e"]
  let ?c = "\<lparr>cc_file = f, cc_pos = word_of_nat k, cc_commit_timestamp = ge_time ?e, cc_generation = ge_generation ?e,
    cc_parent1 = parent_edge_from_raw p1, cc_parent2 = parent_edge_from_raw p2, cc_root_tree_id = ge_tree ?e\<rparr>"
  have "cg_commit_at f (word_of_nat k) = Some ?c"
    using e bits by (simp add: cg_commit_at_def cg_commit_new_def b lt get_range_def g4 wf_cg_entry_def)
  moreover have "iter_parents ?c = map Ok (ge_parents ?e)"
  proof (rule iter_parents_encoded [OF _ enc])
    show "list_all (\<lambda>p. p < NO_PARENT) (ge_parents ?e)" using e by (simp add: wf_cg_entry_def)
    assume ex: "ex \<noteq> []"
    have x: "extra_edges ?e = ex"
      using enc unfolding extra_edges_def by (cases "(?n, ge_parents ?e)" rule: encode_parents.cases) auto
    have split: "all_edges es = all_edges (take k es) @ ex @ all_edges (drop (Suc k) es)"
      using arg_cong [OF id_take_nth_drop [OF k], of all_edges] x by (simp add: all_edges_def)
    then have "extra_edges_data f = Some (Some (concat (map be32 (all_edges (take k es) @ ex @ all_edges (drop (Suc k) es)))))"
      using f ex unfolding cg_opens_as_def by (metis append_is_Nil_conv)
    moreover have "?n < 2 ^ 31" using wf split unfolding wf_cg_entries_def by (metis length_append le_add1 le_less_trans)
    ultimately show "?n < 2 ^ 31 \<and> extra_edges_data (cc_file ?c) =
        Some (Some (concat (map be32 (all_edges (take k es) @ ex @ all_edges (drop (Suc k) es))))) \<and> length (all_edges (take k es)) = ?n"
      by simp
  qed simp_all
  ultimately show ?thesis by auto
qed

definition sample_cg_entries :: "cg_entry list" where
  "sample_cg_entries =
     [\<lparr>ge_id = replicate 20 1, ge_tree = replicate 20 9, ge_parents = [1, 2, 3], ge_generation = 2, ge_time = 1700000000\<rparr>,
      \<lparr>ge_id = replicate 20 3, ge_tree = replicate 20 9, ge_parents = [], ge_generation = 1, ge_time = 1600000000\<rparr>,
      \<lparr>ge_id = replicate 20 4, ge_tree = replicate 20 8, ge_parents = [], ge_generation = 1, ge_time = 1600000001\<rparr>,
      \<lparr>ge_id = replicate 20 7, ge_tree = replicate 20 7, ge_parents = [], ge_generation = 1, ge_time = 0\<rparr>]"

lemma sample_cg_entries_wf: "wf_cg_entries sample_cg_entries"
proof -
  have "sorted_wrt (\<lambda>a b. cmp_slice a b = Less) (map ge_id sample_cg_entries)" by code_simp
  moreover have "list_all wf_cg_entry sample_cg_entries"
    by (simp add: sample_cg_entries_def wf_cg_entry_def NO_PARENT_def GENERATION_NUMBER_MAX_def)
  ultimately show ?thesis
    by (simp add: wf_cg_entries_def sample_cg_entries_def all_edges_def extra_edges_def MAX_COMMITS_unat)
qed

text \<open>
  C8: a commit-graph file in git's format is read back.  For every sorted list of commits whose parents, generation
  numbers and times fit their fields, the file that holds them opens, and each commit is found at its position, and only there, by
  looking up its id, with its tree, generation number, time and list of parents of any length.
\<close>

theorem commitgraph_format_roundtrip:
  assumes wf: "wf_cg_entries es" and sha1: "\<And>b. length (sha1 b) = 20"
  shows "\<exists>f. cg_file_new (cg_encode sha1 es) path = Ok f \<and> unat (cg_num_commits f) = length es \<and>
    (\<forall>k<length es. cg_id_at f (word_of_nat k) = Some (ge_id (es ! k)) \<and>
       cg_lookup f (ge_id (es ! k)) = Some (Some (Some (word_of_nat k))) \<and>
       (\<exists>c. cg_commit_at f (word_of_nat k) = Some c \<and> cc_root_tree_id c = ge_tree (es ! k) \<and>
          cc_generation c = ge_generation (es ! k) \<and> cc_commit_timestamp c = ge_time (es ! k) \<and>
          iter_parents c = map Ok (ge_parents (es ! k)))) \<and>
    (\<forall>i. length i = 20 \<longrightarrow> i \<notin> ge_id ` set es \<longrightarrow> cg_lookup f i = Some (Some None))"
proof -
  obtain f where f: "cg_file_new (cg_encode sha1 es) path = Ok f" "cg_opens_as f (cg_encode sha1 es) es"
    using cg_encode_opens [of es sha1 path, OF wf sha1] by blast
  note num = cg_opened_num [OF wf f(2)] and cwf = cg_opened_wf [OF wf f(2)] and ids = cg_opened_id [OF wf f(2)]
  have found: "cg_lookup f (ge_id (es ! k)) = Some (Some (Some (word_of_nat k)))" if k: "k < length es" for k
  proof -
    have "length (ge_id (es ! k)) = 20" using wf k by (auto simp: wf_cg_entries_def wf_cg_entry_def list_all_length)
    from cg_lookup_finds [OF cwf this] ids [OF k] show ?thesis by auto
  qed
  have missing: "cg_lookup f i = Some (Some None)" if i: "length i = 20" "i \<notin> ge_id ` set es" for i
  proof -
    obtain r where r: "cg_lookup f i = Some (Some r)" "\<forall>k. r = Some k \<longleftrightarrow> cg_id_at f k = Some i"
      using cg_lookup_finds [OF cwf i(1)] by blast
    have "cg_id_at f k \<noteq> Some i" for k
    proof
      assume k: "cg_id_at f k = Some i"
      then have "unat k < length es" using num(2) by (auto simp: cg_id_at_def word_less_nat_alt split: if_splits)
      with ids [of "unat k"] k i(2) show False by auto
    qed
    with r show ?thesis by (cases r) auto
  qed
  show ?thesis using f(1) num(2) ids found missing cg_opened_commit [OF wf f(2)] by blast
qed

theorem commitgraph_format_roundtrip_witness:
  "\<exists>f c. cg_file_new (cg_encode (\<lambda>_. replicate 20 0) sample_cg_entries) [] = Ok f \<and>
     cg_lookup f (replicate 20 1) = Some (Some (Some 0)) \<and> cg_commit_at f 0 = Some c \<and> iter_parents c = [Ok 1, Ok 2, Ok 3] \<and>
     cg_lookup f (replicate 20 2) = Some (Some None)"
proof -
  from commitgraph_format_roundtrip [of sample_cg_entries "\<lambda>_. replicate 20 0" "[]", OF sample_cg_entries_wf length_replicate]
  obtain f where f: "cg_file_new (cg_encode (\<lambda>_. replicate 20 0) sample_cg_entries) [] = Ok f"
    "\<forall>k<length sample_cg_entries. cg_lookup f (ge_id (sample_cg_entries ! k)) = Some (Some (Some (word_of_nat k))) \<and>
       (\<exists>c. cg_commit_at f (word_of_nat k) = Some c \<and> iter_parents c = map Ok (ge_parents (sample_cg_entries ! k)))"
    "\<forall>i. length i = 20 \<longrightarrow> i \<notin> ge_id ` set sample_cg_entries \<longrightarrow> cg_lookup f i = Some (Some None)"
    by blast
  have "cg_lookup f (replicate 20 2) = Some (Some None)"
    by (rule f(3) [rule_format]) (simp_all add: sample_cg_entries_def)
  moreover have "cg_lookup f (replicate 20 1) = Some (Some (Some 0))" "\<exists>c. cg_commit_at f 0 = Some c \<and> iter_parents c = [Ok 1, Ok 2, Ok 3]"
    using f(2) [rule_format, of 0] by (simp_all add: sample_cg_entries_def)
  ultimately show ?thesis using f(1) by blast
qed

text \<open>
  C11: opening a commit-graph file of less than 4 GB never panics, and in a file it accepts every position below the number of commits has an
  id of 20 bytes and a commit with that id, any other position is rejected, the ids of all base graphs can be read, and
  so can the list of extra edges.
\<close>

theorem accepted_commitgraph_is_readable:
  assumes "length data < 2 ^ 32"
  shows "cg_file_new data path \<noteq> Panic \<and> (\<forall>f. cg_file_new data path = Ok f \<longrightarrow>
    (\<forall>pos. if pos < cg_num_commits f
       then \<exists>i c. cg_id_at f pos = Some i \<and> length i = 20 \<and> cg_commit_at f pos = Some c \<and> cg_commit_id c = Some i
       else cg_id_at f pos = None \<and> cg_commit_at f pos = None) \<and>
    (\<exists>ids. iter_base_graph_ids f = Some ids \<and> length ids = unat (cg_base_graph_count f)) \<and> extra_edges_data f \<noteq> None)"
proof (intro conjI allI impI)
  show "cg_file_new data path \<noteq> Panic" by (rule cg_file_new_no_panic [OF assms])
  fix f assume f: "cg_file_new data path = Ok f"
  have ok: "cg_file_ok f" using cg_file_new_ok(1) [OF f] assms by simp
  show "if pos < cg_num_commits f
       then \<exists>i c. cg_id_at f pos = Some i \<and> length i = 20 \<and> cg_commit_at f pos = Some c \<and> cg_commit_id c = Some i
       else cg_id_at f pos = None \<and> cg_commit_at f pos = None" for pos
    using cg_id_at_ok [OF ok, of pos] cg_commit_at_ok [OF ok, of pos]
    by (auto simp: cg_commit_id_def cg_id_at_def cg_commit_at_def cg_commit_new_def commit_data_bytes_def)
  show "\<exists>ids. iter_base_graph_ids f = Some ids \<and> length ids = unat (cg_base_graph_count f)"
    by (rule iter_base_graph_ids_ok [OF ok])
  show "extra_edges_data f \<noteq> None" by (rule extra_edges_data_ok [OF ok])
qed

theorem accepted_commitgraph_is_readable_witness:
  "\<exists>f i c. cg_file_new (cg_encode (\<lambda>_. replicate 20 0) sample_cg_entries) [] = Ok f \<and> cg_num_commits f = 4 \<and>
     cg_id_at f 3 = Some i \<and> cg_commit_at f 3 = Some c \<and> cg_commit_id c = Some i \<and> cg_commit_at f 4 = None"
proof -
  let ?d = "cg_encode (\<lambda>_. replicate 20 0) sample_cg_entries"
  obtain f where f: "cg_file_new ?d [] = Ok f" "cg_opens_as f ?d sample_cg_entries"
    using cg_encode_opens [of sample_cg_entries "\<lambda>_. replicate 20 0" "[]", OF sample_cg_entries_wf length_replicate] by blast
  have n: "cg_num_commits f = 4" using cg_opened_num(1) [OF sample_cg_entries_wf f(2)] by (simp add: sample_cg_entries_def)
  have "length ?d < 2 ^ 32"
  proof -
    have w: "wf_chunks (length (cg_header sample_cg_entries)) (cg_chunks sample_cg_entries)"
      using cg_chunks_wf(1) [OF sample_cg_entries_wf] by simp
    have "length (all_edges sample_cg_entries) = 2" by (simp add: sample_cg_entries_def all_edges_def extra_edges_def)
    then show ?thesis
      using write_chunk_file_eq [OF w] length_chunk_file(1) [OF w] cg_chunks_wf(3,4) [OF sample_cg_entries_wf]
      by (auto simp: cg_encode_def cg_chunks_def size_for_entries_def ENTRY_SIZE_def
          sample_cg_entries_def)
  qed
  from accepted_commitgraph_is_readable [OF this, of "[]"] f(1)
  have all: "\<forall>pos. if pos < cg_num_commits f
       then \<exists>i c. cg_id_at f pos = Some i \<and> length i = 20 \<and> cg_commit_at f pos = Some c \<and> cg_commit_id c = Some i
       else cg_id_at f pos = None \<and> cg_commit_at f pos = None" by blast
  show ?thesis using all [rule_format, of 3] all [rule_format, of 4] f(1) n by auto
qed

section \<open>Positions in a graph of several files\<close>

definition commits_before :: "cg_file list \<Rightarrow> nat" where
  "commits_before fs = sum_list (map (unat \<circ> cg_num_commits) fs)"

lemma commits_before_simps [simp]:
  "commits_before [] = 0" "commits_before (f # fs) = unat (cg_num_commits f) + commits_before fs"
  "commits_before (fs @ fs') = commits_before fs + commits_before fs'"
  by (simp_all add: commits_before_def)

lemma lookup_by_pos_loop_Some:
  "lookup_by_pos_loop fs idx w = Some (f, j, r) \<Longrightarrow>
   \<exists>pre post. fs = pre @ f # post \<and> unat w = commits_before pre + unat r \<and> r < cg_num_commits f \<and> j = idx + length pre"
proof (induction fs arbitrary: idx w)
  case (Cons f' fs)
  show ?case
  proof (cases "cg_num_commits f' \<le> w")
    case True
    then have "lookup_by_pos_loop fs (idx + 1) (w - cg_num_commits f') = Some (f, j, r)" using Cons.prems by simp
    from Cons.IH [OF this] obtain pre post where
      "fs = pre @ f # post \<and> unat (w - cg_num_commits f') = commits_before pre + unat r \<and> r < cg_num_commits f \<and> j = idx + 1 + length pre"
      by blast
    moreover have "unat (w - cg_num_commits f') = unat w - unat (cg_num_commits f')" using True by (simp add: unat_sub)
    ultimately show ?thesis
      using True by (intro exI [of _ "f' # pre"] exI [of _ post]) (auto simp: word_le_nat_alt)
  next
    case False
    then show ?thesis using Cons.prems by (intro exI [of _ "[]"] exI [of _ fs]) auto
  qed
qed simp

lemma lookup_by_pos_loop_at:
  "unat w = commits_before pre + unat r \<Longrightarrow> r < cg_num_commits f \<Longrightarrow>
   lookup_by_pos_loop (pre @ f # post) idx w = Some (f, idx + length pre, r)"
proof (induction pre arbitrary: idx w)
  case Nil
  then have "w = r" by (intro unsigned_word_eqI [where 'a = nat]) simp
  then show ?case using Nil by (simp add: not_le [symmetric])
next
  case (Cons f' pre)
  have le: "cg_num_commits f' \<le> w" using Cons.prems(1) by (simp add: word_le_nat_alt)
  then have "unat (w - cg_num_commits f') = commits_before pre + unat r" using Cons.prems(1) by (simp add: unat_sub)
  from Cons.IH [OF this Cons.prems(2), of "idx + 1"] le show ?case by simp
qed

lemma lookup_by_pos_loop_None: "lookup_by_pos_loop fs idx w = None \<longleftrightarrow> commits_before fs \<le> unat w"
proof (induction fs arbitrary: idx w)
  case (Cons f fs)
  show ?case
  proof (cases "cg_num_commits f \<le> w")
    case True
    then have "unat (w - cg_num_commits f) = unat w - unat (cg_num_commits f)" "unat (cg_num_commits f) \<le> unat w"
      by (simp_all add: unat_sub word_le_nat_alt)
    then show ?thesis using True Cons by auto
  qed (simp add: word_le_nat_alt)
qed simp

lemma cg_graph_new_Ok:
  assumes "cg_graph_new files = Ok g" "length files < 2 ^ 32"
  shows "cg_files g = files" and "commits_before files \<le> unat MAX_COMMITS"
proof -
  show "cg_files g = files" using assms(1) by (auto simp: cg_graph_new_def Let_def split: if_splits option.splits)
  have bound: "commits_before fs \<le> length fs * (2 ^ 32 - 1)" for fs
  proof (induction fs)
    case (Cons f fs)
    have "unat (cg_num_commits f) < 2 ^ 32" using unsigned_less [where 'a = nat and w = "cg_num_commits f"] by simp
    with Cons show ?case by simp
  qed simp
  have sum: "unat (sum_list (map (\<lambda>f. ucast (cg_num_commits f) :: u64) fs)) = commits_before fs" if "length fs < 2 ^ 32" for fs
    using that
  proof (induction fs)
    case (Cons f fs)
    have u: "unat (ucast (cg_num_commits f) :: u64) = unat (cg_num_commits f)"
      using unsigned_less [where 'a = nat and w = "cg_num_commits f"] by (simp add: unat_ucast_mod)
    have "length (f # fs) * (2 ^ 32 - 1) < 2 ^ 64" using Cons.prems by simp
    then have "commits_before (f # fs) < 2 ^ 64" using bound [of "f # fs"] by linarith
    then have "unat (cg_num_commits f) + commits_before fs < 2 ^ 64" by simp
    then show ?case using Cons u unat_add_lem [of "ucast (cg_num_commits f) :: u64" "sum_list (map (\<lambda>f. ucast (cg_num_commits f)) fs)"]
      by simp
  qed simp
  have "\<not> sum_list (map (\<lambda>f. ucast (cg_num_commits f) :: u64) files) > ucast MAX_COMMITS"
    using assms(1) by (auto simp: cg_graph_new_def Let_def split: if_splits)
  moreover have "unat (ucast MAX_COMMITS :: u64) = unat MAX_COMMITS" by (simp add: MAX_COMMITS_def)
  ultimately show "commits_before files \<le> unat MAX_COMMITS" using sum [OF assms(2)] by (simp add: word_less_nat_alt)
qed

lemma cg_graph_num_unat:
  assumes "cg_graph_new files = Ok g" "length files < 2 ^ 32"
  shows "unat (cg_graph_num_commits g) = commits_before files"
proof -
  have "unat (sum_list (map cg_num_commits fs)) = commits_before fs" if "commits_before fs < 2 ^ 32" for fs
    using that
  proof (induction fs)
    case (Cons f fs)
    then show ?case using unat_add_lem [of "cg_num_commits f" "sum_list (map cg_num_commits fs)"] by simp
  qed simp
  then show ?thesis using cg_graph_new_Ok [OF assms] by (simp add: cg_graph_num_commits_def MAX_COMMITS_unat)
qed

text \<open>The result of a search by id: the first file that has it, and the position of the id there and in the graph.\<close>

definition absent_in :: "oid \<Rightarrow> cg_file \<Rightarrow> bool" where
  "absent_in i f \<longleftrightarrow> (\<forall>k. cg_id_at f k \<noteq> Some i)"

definition found_first :: "cg_file list \<Rightarrow> oid \<Rightarrow> nat \<Rightarrow> cg_file \<Rightarrow> u32 \<Rightarrow> u32 \<Rightarrow> bool" where
  "found_first fs i start f k p \<longleftrightarrow> (\<forall>k'. cg_id_at f k' = Some i \<longleftrightarrow> k' = k) \<and>
     (\<exists>pre post. fs = pre @ f # post \<and> unat p = start + commits_before pre + unat k \<and> (\<forall>f'\<in>set pre. absent_in i f'))"

lemma found_first_later:
  assumes "found_first fs i (start + unat (cg_num_commits f0)) f k p" "absent_in i f0"
  shows "found_first (f0 # fs) i start f k p"
proof -
  from assms(1) obtain pre post where "fs = pre @ f # post" "unat p = start + unat (cg_num_commits f0) + commits_before pre + unat k"
    "\<forall>f'\<in>set pre. absent_in i f'" by (auto simp: found_first_def)
  then have "f0 # fs = (f0 # pre) @ f # post" "unat p = start + commits_before (f0 # pre) + unat k" "\<forall>f'\<in>set (f0 # pre). absent_in i f'"
    using assms(2) by simp_all
  with assms(1) show ?thesis unfolding found_first_def by blast
qed

lemma found_first_here:
  "\<forall>k'. cg_id_at f k' = Some i \<longleftrightarrow> k' = k \<Longrightarrow> unat p = start + unat k \<Longrightarrow> found_first (f # fs) i start f k p"
  unfolding found_first_def by (intro conjI exI [of _ "[]"] exI [of _ fs]) simp_all

lemma lookup_by_id_loop_result:
  assumes "\<forall>f\<in>set fs. cg_wf f" "length i = 20" "unat start + commits_before fs < 2 ^ 32"
  shows "(\<exists>f k p. lookup_by_id_loop fs i start = Some (Some (Some (f, k, p))) \<and> found_first fs i (unat start) f k p) \<or>
    (lookup_by_id_loop fs i start = Some (Some None) \<and> (\<forall>f\<in>set fs. absent_in i f))"
  using assms(1,3)
proof (induction fs arbitrary: start)
  case (Cons f fs)
  obtain r where r: "cg_lookup f i = Some (Some r)" "\<forall>k. r = Some k \<longleftrightarrow> cg_id_at f k = Some i"
    using cg_lookup_finds [of f i] Cons.prems(1) assms(2) by auto
  show ?case
  proof (cases r)
    case None
    have st: "unat (start + cg_num_commits f) = unat start + unat (cg_num_commits f)"
      using Cons.prems(2) unat_add_lem [of start "cg_num_commits f"] by simp
    have absent: "absent_in i f" using r(2) None by (auto simp: absent_in_def)
    have "(\<exists>f' k p. lookup_by_id_loop fs i (start + cg_num_commits f) = Some (Some (Some (f', k, p))) \<and>
          found_first fs i (unat (start + cg_num_commits f)) f' k p) \<or>
        (lookup_by_id_loop fs i (start + cg_num_commits f) = Some (Some None) \<and> (\<forall>f\<in>set fs. absent_in i f))"
      by (rule Cons.IH) (use Cons.prems st in auto)
    then show ?thesis using found_first_later [OF _ absent] absent r(1) None st by auto
  next
    case (Some k)
    with r(2) have k: "\<forall>k'. cg_id_at f k' = Some i \<longleftrightarrow> k' = k" by (metis option.inject)
    then have "cg_id_at f k = Some i" by simp
    then have "k < cg_num_commits f" by (auto simp: cg_id_at_def split: if_splits)
    then have "unat (start + k) = unat start + unat k"
      using Cons.prems(2) unat_add_lem [of start k] by (simp add: word_less_nat_alt)
    from found_first_here [OF k this] show ?thesis using r(1) Some by simp
  qed
qed simp

lemma found_first_position:
  assumes "found_first (cg_files g) i 0 f k p"
  shows "lookup_by_pos g p \<noteq> None" and "cg_graph_id_at g p = Some i" and "cg_graph_commit_at g p = cg_commit_at f k"
    and "cg_graph_id_at g q = Some i \<Longrightarrow> p \<le> q"
proof -
  from assms obtain pre post where fs: "cg_files g = pre @ f # post" "unat p = commits_before pre + unat k"
    "\<forall>f'\<in>set pre. absent_in i f'" and k: "\<And>k'. cg_id_at f k' = Some i \<longleftrightarrow> k' = k"
    by (auto simp: found_first_def)
  have at: "cg_id_at f k = Some i" using k by simp
  then have "k < cg_num_commits f" by (auto simp: cg_id_at_def split: if_splits)
  then have lp: "lookup_by_pos g p = Some (f, length pre, k)"
    using lookup_by_pos_loop_at [OF fs(2), of f post 0] by (simp add: lookup_by_pos_def fs(1))
  then show "lookup_by_pos g p \<noteq> None" "cg_graph_id_at g p = Some i" "cg_graph_commit_at g p = cg_commit_at f k"
    using at by (simp_all add: cg_graph_id_at_def cg_graph_commit_at_def)
  assume "cg_graph_id_at g q = Some i"
  then obtain f' j r where q: "lookup_by_pos g q = Some (f', j, r)" "cg_id_at f' r = Some i"
    by (auto simp: cg_graph_id_at_def bind_eq_Some_conv)
  then obtain pre' post' where q': "cg_files g = pre' @ f' # post'" "unat q = commits_before pre' + unat r" "r < cg_num_commits f'" "j = length pre'"
    using lookup_by_pos_loop_Some [of "cg_files g" 0 q f' j r] by (auto simp: lookup_by_pos_def)
  show "p \<le> q"
  proof (rule ccontr)
    assume "\<not> p \<le> q"
    then have "unat q < unat p" by (simp add: word_le_nat_alt)
    consider "length pre' < length pre" | "length pre' = length pre" | "length pre < length pre'" by linarith
    then show False
    proof cases
      case 1
      then have "f' \<in> set pre" using fs(1) q'(1) by (metis append_eq_append_conv_if nth_append nth_append_length nth_mem)
      then show False using fs(3) q(2) by (auto simp: absent_in_def)
    next
      case 2
      then have "f' = f" "pre' = pre" using fs(1) q'(1) by auto
      then show False using k q(2) \<open>unat q < unat p\<close> fs(2) q'(2) by simp
    next
      case 3
      then obtain m where "pre' = pre @ f # m" using fs(1) q'(1) by (auto simp: append_eq_append_conv2 append_eq_Cons_conv)
      then have "commits_before pre + unat (cg_num_commits f) \<le> unat q" using q'(2) by simp
      then show False using \<open>unat q < unat p\<close> fs(2) \<open>k < cg_num_commits f\<close> by (simp add: word_less_nat_alt)
    qed
  qed
qed

text \<open>
  C10: a graph of several well-formed files finds ids and positions consistently.  Looking up an id always returns; if it
  returns a position, that position has the id, no smaller one does, and finding the commit by id or by position
  is the same; otherwise no position has the id.  A position is rejected exactly if it is not below the number of commits.
\<close>

theorem graph_lookup_correct:
  assumes new: "cg_graph_new files = Ok g" "length files < 2 ^ 32" and wf: "list_all cg_wf files" and i: "length i = 20"
  shows "(\<exists>r. cg_graph_lookup g i = Some (Some r) \<and>
     (case r of
        Some p \<Rightarrow> cg_graph_id_at g p = Some i \<and> (\<forall>q. cg_graph_id_at g q = Some i \<longrightarrow> p \<le> q) \<and>
          commit_by_id g i = Some (map_option Some (cg_graph_commit_at g p))
      | None \<Rightarrow> (\<forall>q. cg_graph_id_at g q \<noteq> Some i) \<and> commit_by_id g i = Some (Some None))) \<and>
    (\<forall>p. lookup_by_pos g p = None \<longleftrightarrow> \<not> p < cg_graph_num_commits g)"
proof -
  note n = cg_graph_new_Ok [OF new]
  note num = cg_graph_num_unat [OF new]
  have pos: "lookup_by_pos g p = None \<longleftrightarrow> \<not> p < cg_graph_num_commits g" for p
    by (simp add: lookup_by_pos_def lookup_by_pos_loop_None n(1) word_less_nat_alt num not_less)
  have small: "unat (0 :: u32) + commits_before (cg_files g) < 2 ^ 32" using n by (simp add: MAX_COMMITS_unat)
  have "\<forall>f\<in>set (cg_files g). cg_wf f" using wf n(1) by (simp add: list_all_iff)
  from lookup_by_id_loop_result [OF this i small] show ?thesis
  proof (elim disjE exE conjE)
    fix f k p assume r: "lookup_by_id_loop (cg_files g) i 0 = Some (Some (Some (f, k, p)))"
      and "found_first (cg_files g) i (unat (0 :: u32)) f k p"
    then have "found_first (cg_files g) i 0 f k p" by simp
    note found = found_first_position [OF this]
    show ?thesis using r found pos by (simp add: cg_graph_lookup_def lookup_by_id_def commit_by_id_def)
  next
    assume r: "lookup_by_id_loop (cg_files g) i 0 = Some (Some None)" and a: "\<forall>f\<in>set (cg_files g). absent_in i f"
    have "cg_graph_id_at g q \<noteq> Some i" for q
    proof
      assume "cg_graph_id_at g q = Some i"
      then obtain f j k where "lookup_by_pos g q = Some (f, j, k)" "cg_id_at f k = Some i"
        by (auto simp: cg_graph_id_at_def bind_eq_Some_conv)
      with lookup_by_pos_loop_Some [of "cg_files g" 0 q f j k] a show False
        by (auto simp: lookup_by_pos_def absent_in_def)
    qed
    then show ?thesis using r pos by (simp add: cg_graph_lookup_def lookup_by_id_def commit_by_id_def)
  qed
qed

theorem graph_lookup_correct_witness:
  "\<exists>f g p. cg_file_new (cg_encode (\<lambda>_. replicate 20 0) sample_cg_entries) [] = Ok f \<and> cg_graph_new [f, f] = Ok g \<and>
     cg_graph_lookup g (replicate 20 4) = Some (Some (Some p)) \<and> cg_graph_id_at g p = Some (replicate 20 4)"
proof -
  let ?d = "cg_encode (\<lambda>_. replicate 20 0) sample_cg_entries"
  obtain f where f: "cg_file_new ?d [] = Ok f" "cg_opens_as f ?d sample_cg_entries"
    using cg_encode_opens [of sample_cg_entries "\<lambda>_. replicate 20 0" "[]", OF sample_cg_entries_wf length_replicate] by blast
  have n: "cg_num_commits f = 4" using cg_opened_num(1) [OF sample_cg_entries_wf f(2)] by (simp add: sample_cg_entries_def)
  have g: "cg_graph_new [f, f] = Ok \<lparr>cg_files = [f, f]\<rparr>" by (simp add: cg_graph_new_def n MAX_COMMITS_def)
  have at: "cg_id_at f 2 = Some (replicate 20 4)"
    using cg_opened_id [OF sample_cg_entries_wf f(2), of 2] by (simp add: sample_cg_entries_def)
  have "list_all cg_wf [f, f]" using cg_opened_wf [OF sample_cg_entries_wf f(2)] by simp
  from graph_lookup_correct [OF g _ this, of "replicate 20 4"] obtain r where
    r: "cg_graph_lookup \<lparr>cg_files = [f, f]\<rparr> (replicate 20 4) = Some (Some r)"
    "case r of Some p \<Rightarrow> cg_graph_id_at \<lparr>cg_files = [f, f]\<rparr> p = Some (replicate 20 4)
      | None \<Rightarrow> \<forall>q. cg_graph_id_at \<lparr>cg_files = [f, f]\<rparr> q \<noteq> Some (replicate 20 4)"
    by (auto split: option.splits)
  have "cg_graph_id_at \<lparr>cg_files = [f, f]\<rparr> 2 = Some (replicate 20 4)"
    using at by (simp add: cg_graph_id_at_def lookup_by_pos_def n)
  then show ?thesis using f(1) g r by (cases r) auto
qed

end
