(* ===== verification/Gix_Commitgraph_Verify.thy ===== *)
theory Gix_Commitgraph_Verify
  imports Gix_Commitgraph_Format
begin

text \<open>
  Verification of commit graphs (\<^verbatim>\<open>src/gix-commitgraph/src/file/verify.rs\<close> and \<^verbatim>\<open>verify.rs\<close>): the traversal of one file with its
  checksum, its name and the order of its commits, and the check of a whole graph with its base files, parents and
  generation numbers.  A processor is called with each commit and passes a state along, as a \<^verbatim>\<open>FnMut\<close> does; the digest
  and the hexadecimal crate are arguments.

  The lemmas show what a graph that was verified guarantees: generation numbers obey their defining equation, and the
  reported length is that of the longest path.  The argument about generation numbers is the locale \<open>generations\<close>.
\<close>

section \<open>Traversing one file\<close>

datatype 'e cg_file_verify_error =
    FvCommit cg_commit_error
  | FvCommitId object_id u32
  | FvCommitsOutOfOrder object_id u32 object_id
  | FvFilename bytes
  | FvGeneration u32 object_id
  | FvMismatch object_id object_id
  | FvProcessor 'e
  | FvRootTreeId object_id object_id

record cg_file_stats =
  fst_max_generation :: u32
  fst_min_generation :: u32
  fst_max_parents :: u32
  fst_num_commits :: u32
  fst_parent_counts :: "u32 \<Rightarrow> u32 option"

definition cg_checksum :: "cg_file \<Rightarrow> oid or_panic" where
  "cg_checksum f =
     (if cg_hash_len f \<le> length (cg_data f)
      then Some (drop (length (cg_data f) - cg_hash_len f) (cg_data f)) else None)"

definition cg_verify_checksum ::
    "(bytes \<Rightarrow> bytes) \<Rightarrow> cg_file \<Rightarrow> (object_id, object_id \<times> object_id) outcome" where
  "cg_verify_checksum sha1 f =
     (if length (cg_data f) < cg_hash_len f then Panic
      else
        let data_len_without_trailer = length (cg_data f) - cg_hash_len f in
        and_then (object_id_from_bytes_or_panic (case cg_object_hash f of KSha1 \<Rightarrow> sha1 (take data_len_without_trailer (cg_data f))))
          (\<lambda>actual.
        and_then (expect (cg_checksum f)) (\<lambda>expected.
        if object_id_as_slice actual = expected then Ok actual
        else and_then (oid_to_owned expected) (\<lambda>e. Err (actual, e)))))"

definition str_strip_prefix :: "bytes \<Rightarrow> bytes \<Rightarrow> bytes option" where
  "str_strip_prefix p s = (if take (length p) s = p then Some (drop (length p) s) else None)"

definition str_strip_suffix :: "bytes \<Rightarrow> bytes \<Rightarrow> bytes option" where
  "str_strip_suffix p s =
     (if length p \<le> length s \<and> drop (length s - length p) s = p then Some (take (length s - length p) s) else None)"

definition verify_split_chain_filename_hash ::
    "faster_hex \<Rightarrow> bytes \<Rightarrow> oid \<Rightarrow> (unit, bytes) outcome" where
  "verify_split_chain_filename_hash fh path expected =
     (case Option.bind (file_name path) (\<lambda>n.
           Option.bind (if utf8_valid n then Some n else None) (\<lambda>filename.
           Option.bind (str_strip_suffix (lit ''.graph'') filename) (str_strip_prefix (lit ''graph-'')))) of
        None \<Rightarrow> Ok ()
      | Some hex \<Rightarrow>
          (let mismatch = and_then (oid_to_hex fh expected) (\<lambda>h. Err (lit ''graph-'' @ h @ lit ''.graph'')) in
           case object_id_from_hex fh hex of
             Ok actual \<Rightarrow> if object_id_as_slice actual = expected then Ok () else mismatch
           | Err _ \<Rightarrow> mismatch
           | Panic \<Rightarrow> Panic))"

text \<open>\<^verbatim>\<open>try_fold(0u32, |acc, pos| pos.map(|_| acc + 1))\<close>.\<close>

fun count_items :: "('a, 'e) outcome list \<Rightarrow> u32 \<Rightarrow> (u32, 'e) outcome" where
  "count_items [] acc = Ok acc"
| "count_items (Ok _ # xs) acc = count_items xs (acc + 1)"
| "count_items (Err e # xs) acc = Err e"
| "count_items (Panic # xs) acc = Panic"

definition count_parents_entry :: "u32 \<Rightarrow> (u32 \<Rightarrow> u32 option) \<Rightarrow> (u32 \<Rightarrow> u32 option)" where
  "count_parents_entry k m = m(k \<mapsto> (case m k of None \<Rightarrow> 0 | Some v \<Rightarrow> v) + 1)"

definition traverse_check :: "oid \<Rightarrow> oid \<Rightarrow> oid \<Rightarrow> cg_commit \<Rightarrow> (unit, 'e cg_file_verify_error) outcome" where
  "traverse_check null_id prev_id cid commit =
     (if cmp_slice cid prev_id \<noteq> Greater then
        (if cid = null_id then and_then (oid_to_owned cid) (\<lambda>i. Err (FvCommitId i (cc_pos commit)))
         else and_then (oid_to_owned cid) (\<lambda>i. and_then (oid_to_owned prev_id) (\<lambda>p. Err (FvCommitsOutOfOrder i (cc_pos commit) p))))
      else if cc_root_tree_id commit = null_id then
        and_then (oid_to_owned cid) (\<lambda>i. and_then (oid_to_owned (cc_root_tree_id commit)) (\<lambda>r. Err (FvRootTreeId i r)))
      else if cc_generation commit > GENERATION_NUMBER_MAX then
        and_then (oid_to_owned cid) (\<lambda>i. Err (FvGeneration (cc_generation commit) i))
      else Ok ())"

fun traverse_loop ::
    "('s \<Rightarrow> cg_commit \<Rightarrow> ('s, 'e) outcome) \<Rightarrow> oid \<Rightarrow> cg_commit or_panic list \<Rightarrow> oid \<Rightarrow> cg_file_stats \<Rightarrow> 's \<Rightarrow>
     (cg_file_stats \<times> 's, 'e cg_file_verify_error) outcome" where
  "traverse_loop processor null_id [] prev_id stats s = Ok (stats, s)"
| "traverse_loop processor null_id (c # cs) prev_id stats s =
     and_then (expect c) (\<lambda>commit.
     and_then (expect (cg_commit_id commit)) (\<lambda>cid.
     and_then (traverse_check null_id prev_id cid commit) (\<lambda>_.
     and_then (map_err FvProcessor (processor s commit)) (\<lambda>s.
       let stats = stats\<lparr>fst_max_generation := max (fst_max_generation stats) (cc_generation commit),
                         fst_min_generation := min (fst_min_generation stats) (cc_generation commit)\<rparr> in
       and_then (map_err FvCommit (count_items (iter_parents commit) 0)) (\<lambda>parent_count.
       let stats = stats\<lparr>fst_parent_counts := count_parents_entry parent_count (fst_parent_counts stats)\<rparr> in
       traverse_loop processor null_id cs cid stats s)))))"

definition cg_traverse ::
    "(bytes \<Rightarrow> bytes) \<Rightarrow> faster_hex \<Rightarrow> ('s \<Rightarrow> cg_commit \<Rightarrow> ('s, 'e) outcome) \<Rightarrow> cg_file \<Rightarrow> 's \<Rightarrow>
     (cg_file_stats \<times> 's, 'e cg_file_verify_error) outcome" where
  "cg_traverse sha1 fh processor f s =
     and_then (map_err (\<lambda>(actual, expected). FvMismatch actual expected) (cg_verify_checksum sha1 f)) (\<lambda>_.
     and_then (expect (cg_checksum f)) (\<lambda>checksum.
     and_then (map_err FvFilename (verify_split_chain_filename_hash fh (cg_path f) checksum)) (\<lambda>_.
     let null_id = object_id_as_slice (object_id_null (cg_object_hash f));
         stats = \<lparr>fst_max_generation = 0, fst_min_generation = GENERATION_NUMBER_INFINITY, fst_max_parents = 0,
                  fst_num_commits = cg_num_commits f, fst_parent_counts = Map.empty\<rparr> in
     and_then (traverse_loop processor null_id (cg_iter_commits f) null_id stats s) (\<lambda>(stats, s).
       Ok (if fst_min_generation stats = GENERATION_NUMBER_INFINITY then stats\<lparr>fst_min_generation := 0\<rparr> else stats, s)))))"

section \<open>Verifying a graph\<close>

text \<open>The error of a file is never that of its processor here; \<open>unit\<close> stands for \<^verbatim>\<open>Infallible\<close>.\<close>

datatype 'e cg_verify_error =
    GvBaseGraphCount u8 u8 bytes
  | GvBaseGraphId object_id object_id u8 bytes
  | GvCommit cg_commit_error
  | GvFile "unit cg_file_verify_error" bytes
  | GvGeneration u32 u32 object_id
  | GvParentOutOfRange object_id u32 u32
  | GvProcessor 'e
  | GvTooManyFiles nat

record cg_outcome =
  out_longest_path_length :: "u32 option"
  out_num_commits :: u32
  out_parent_counts :: "u32 \<Rightarrow> u32 option"

fun check_base_ids :: "bytes \<Rightarrow> oid or_panic list \<Rightarrow> oid list \<Rightarrow> nat \<Rightarrow> (unit, 'e cg_verify_error) outcome" where
  "check_base_ids path (e # es) (actual # as) index =
     and_then (expect e) (\<lambda>expected.
       if actual \<noteq> expected then
         and_then (oid_to_owned actual) (\<lambda>a. and_then (oid_to_owned expected) (\<lambda>e. Err (GvBaseGraphId a e (word_of_nat index) path)))
       else check_base_ids path es as (index + 1))"
| "check_base_ids path (e # es) [] index = and_then (expect e) (\<lambda>_. Ok ())"
| "check_base_ids path [] as index = Ok ()"

fun max_parent_generation ::
    "cg_graph \<Rightarrow> u32 \<Rightarrow> cg_commit \<Rightarrow> (u32, cg_commit_error) outcome list \<Rightarrow> u32 \<Rightarrow> (u32, 'e cg_verify_error) outcome" where
  "max_parent_generation g next_file_start_pos commit [] acc = Ok acc"
| "max_parent_generation g next_file_start_pos commit (Ok parent_pos # ps) acc =
     (if parent_pos \<ge> next_file_start_pos then
        and_then (expect (cg_commit_id commit)) (\<lambda>i. and_then (oid_to_owned i) (\<lambda>i.
          Err (GvParentOutOfRange i (next_file_start_pos - 1) parent_pos)))
      else
        and_then (expect (cg_graph_commit_at g parent_pos)) (\<lambda>parent.
        max_parent_generation g next_file_start_pos commit ps (max acc (cc_generation parent))))"
| "max_parent_generation g next_file_start_pos commit (Err e # ps) acc = Err (GvCommit e)"
| "max_parent_generation g next_file_start_pos commit (Panic # ps) acc = Panic"

definition verify_commit ::
    "cg_graph \<Rightarrow> u32 \<Rightarrow> ('s \<Rightarrow> cg_commit \<Rightarrow> ('s, 'e) outcome) \<Rightarrow> 's \<Rightarrow> cg_commit \<Rightarrow> ('s, 'e cg_verify_error) outcome" where
  "verify_commit g next_file_start_pos processor s commit =
     and_then (max_parent_generation g next_file_start_pos commit (iter_parents commit) 0) (\<lambda>max_parent_generation.
       let expected_generation = min (max_parent_generation + 1) GENERATION_NUMBER_MAX in
       if cc_generation commit \<noteq> expected_generation then
         and_then (expect (cg_commit_id commit)) (\<lambda>i. and_then (oid_to_owned i) (\<lambda>i.
           Err (GvGeneration (cc_generation commit) expected_generation i)))
       else map_err GvProcessor (processor s commit))"

fun into_verify_error :: "bytes \<Rightarrow> 'e cg_verify_error cg_file_verify_error \<Rightarrow> 'e cg_verify_error" where
  "into_verify_error path (FvProcessor e) = e"
| "into_verify_error path (FvRootTreeId i r) = GvFile (FvRootTreeId i r) path"
| "into_verify_error path (FvMismatch a e) = GvFile (FvMismatch a e) path"
| "into_verify_error path (FvGeneration n i) = GvFile (FvGeneration n i) path"
| "into_verify_error path (FvFilename e) = GvFile (FvFilename e) path"
| "into_verify_error path (FvCommit e) = GvFile (FvCommit e) path"
| "into_verify_error path (FvCommitId i pos) = GvFile (FvCommitId i pos) path"
| "into_verify_error path (FvCommitsOutOfOrder i pos p) = GvFile (FvCommitsOutOfOrder i pos p) path"

definition add_parent_counts :: "(u32 \<Rightarrow> u32 option) \<Rightarrow> (u32 \<Rightarrow> u32 option) \<Rightarrow> (u32 \<Rightarrow> u32 option)" where
  "add_parent_counts m1 m2 =
     (\<lambda>k. case m2 k of None \<Rightarrow> m1 k | Some v \<Rightarrow> Some ((case m1 k of None \<Rightarrow> 0 | Some w \<Rightarrow> w) + v))"

fun verify_files ::
    "(bytes \<Rightarrow> bytes) \<Rightarrow> faster_hex \<Rightarrow> ('s \<Rightarrow> cg_commit \<Rightarrow> ('s, 'e) outcome) \<Rightarrow> cg_graph \<Rightarrow> cg_file list \<Rightarrow> nat \<Rightarrow>
     u32 \<Rightarrow> u32 \<Rightarrow> cg_outcome \<Rightarrow> 's \<Rightarrow> (u32 \<times> cg_outcome \<times> 's, 'e cg_verify_error) outcome" where
  "verify_files sha1 fh processor g [] file_index file_start_pos max_generation stats s = Ok (max_generation, stats, s)"
| "verify_files sha1 fh processor g (f # fs) file_index file_start_pos max_generation stats s =
     (if unat (cg_base_graph_count f) \<noteq> file_index
      then Err (GvBaseGraphCount (cg_base_graph_count f) (word_of_nat file_index) (cg_path f))
      else
        and_then (expect (iter_base_graph_ids f)) (\<lambda>base_ids.
        and_then (check_base_ids (cg_path f) (map cg_checksum (take file_index (cg_files g))) base_ids 0) (\<lambda>_.
        let next_file_start_pos = file_start_pos + cg_num_commits f in
        and_then (map_err (into_verify_error (cg_path f))
            (cg_traverse sha1 fh (verify_commit g next_file_start_pos processor) f s)) (\<lambda>(file_stats, s).
        verify_files sha1 fh processor g fs (file_index + 1) next_file_start_pos
          (max max_generation (fst_max_generation file_stats))
          (stats\<lparr>out_num_commits := out_num_commits stats + fst_num_commits file_stats,
                 out_parent_counts := add_parent_counts (out_parent_counts stats) (fst_parent_counts file_stats)\<rparr>) s))))"

definition verify_integrity ::
    "(bytes \<Rightarrow> bytes) \<Rightarrow> faster_hex \<Rightarrow> ('s \<Rightarrow> cg_commit \<Rightarrow> ('s, 'e) outcome) \<Rightarrow> cg_graph \<Rightarrow> 's \<Rightarrow>
     (cg_outcome \<times> 's, 'e cg_verify_error) outcome" where
  "verify_integrity sha1 fh processor g s =
     (if length (cg_files g) > 256 then Err (GvTooManyFiles (length (cg_files g)))
      else
        let stats = \<lparr>out_longest_path_length = None, out_num_commits = 0, out_parent_counts = Map.empty\<rparr> in
        and_then (verify_files sha1 fh processor g (cg_files g) 0 0 0 stats s) (\<lambda>(max_generation, stats, s).
          Ok (stats\<lparr>out_longest_path_length :=
                (if max_generation < GENERATION_NUMBER_MAX
                 then Some (if max_generation = 0 then 0 else max_generation - 1) else None)\<rparr>, s)))"

section \<open>Generation numbers and paths\<close>

text \<open>
  Nodes with lists of parents and a generation number that is one more than the largest of the parents'
  numbers.  A path leads from a node to a parent, from there to a parent of that, and so on.
\<close>

locale generations =
  fixes nodes :: "'p set" and parents :: "'p \<Rightarrow> 'p list" and gen :: "'p \<Rightarrow> nat"
  assumes parents_in: "p \<in> nodes \<Longrightarrow> set (parents p) \<subseteq> nodes"
    and gen_eq: "p \<in> nodes \<Longrightarrow> gen p = Suc (Max (insert 0 (gen ` set (parents p))))"

fun parent_path :: "('p \<Rightarrow> 'p list) \<Rightarrow> 'p list \<Rightarrow> bool" where
  "parent_path parents (p # q # ps) \<longleftrightarrow> q \<in> set (parents p) \<and> parent_path parents (q # ps)"
| "parent_path parents ps \<longleftrightarrow> True"

context generations
begin

lemma parent_gen: "p \<in> nodes \<Longrightarrow> q \<in> set (parents p) \<Longrightarrow> gen q < gen p"
  by (simp add: gen_eq less_Suc_eq_le)

lemma path_bounded: "parent_path parents (p # ps) \<Longrightarrow> p \<in> nodes \<Longrightarrow> length ps < gen p"
proof (induction ps arbitrary: p)
  case Nil
  then show ?case by (simp add: gen_eq)
next
  case (Cons q ps)
  then have q: "q \<in> set (parents p)" "parent_path parents (q # ps)" by simp_all
  then have "length ps < gen q" using Cons parents_in by blast
  with parent_gen [OF Cons.prems(2) q(1)] show ?case by simp
qed

lemma path_exists: "p \<in> nodes \<Longrightarrow> \<exists>ps. parent_path parents (p # ps) \<and> Suc (length ps) = gen p"
proof (induction "gen p" arbitrary: p rule: less_induct)
  case less
  let ?M = "Max (insert 0 (gen ` set (parents p)))"
  have m: "gen p = Suc ?M" by (rule gen_eq [OF less.prems])
  have "?M \<in> insert 0 (gen ` set (parents p))" by (rule Max_in) auto
  then show ?case
  proof (elim insertE)
    assume "?M = 0"
    then have "parent_path parents [p] \<and> Suc (length ([] :: 'p list)) = gen p" using m by simp
    then show ?thesis by blast
  next
    assume "?M \<in> gen ` set (parents p)"
    then obtain q where q: "q \<in> set (parents p)" "gen q = ?M" by auto
    then obtain ps where "parent_path parents (q # ps)" "Suc (length ps) = gen q"
      using less.hyps [of q] m parents_in [OF less.prems] by auto
    then have "parent_path parents (p # q # ps) \<and> Suc (length (q # ps)) = gen p" using q m by simp
    then show ?thesis by blast
  qed
qed

lemma no_cycle: "p \<in> nodes \<Longrightarrow> \<not> parent_path parents (p # ps @ [p])"
proof
  assume p: "p \<in> nodes" and c: "parent_path parents (p # ps @ [p])"
  have "gen r < gen q" if "parent_path parents (q # qs @ [r])" "q \<in> nodes" for q qs r
    using that
  proof (induction qs arbitrary: q)
    case Nil
    then show ?case using parent_gen by simp
  next
    case (Cons x qs)
    then have x: "x \<in> set (parents q)" "parent_path parents (x # qs @ [r])" by simp_all
    then have "gen r < gen x" using Cons parents_in by blast
    also have "gen x < gen q" by (rule parent_gen [OF Cons.prems(2) x(1)])
    finally show ?case .
  qed
  from this [OF c p] show False by simp
qed

end

section \<open>What the traversal of a file has checked\<close>

definition graph_generation :: "cg_graph \<Rightarrow> u32 \<Rightarrow> nat" where
  "graph_generation g p = (case cg_graph_commit_at g p of None \<Rightarrow> 0 | Some c \<Rightarrow> unat (cc_generation c))"

definition graph_parents :: "cg_graph \<Rightarrow> u32 \<Rightarrow> u32 list" where
  "graph_parents g p =
     (case cg_graph_commit_at g p of
        None \<Rightarrow> []
      | Some c \<Rightarrow> concat (map (\<lambda>x. case x of Ok q \<Rightarrow> [q] | _ \<Rightarrow> []) (iter_parents c)))"

text \<open>A commit whose parents lie below position \<open>n\<close> and whose generation number is right.\<close>

definition commit_ok :: "cg_graph \<Rightarrow> nat \<Rightarrow> cg_commit \<Rightarrow> bool" where
  "commit_ok g n c \<longleftrightarrow> (\<exists>ps. iter_parents c = map Ok ps \<and> (\<forall>p\<in>set ps. unat p < n) \<and>
     unat (cc_generation c) = min (Suc (Max (insert 0 (graph_generation g ` set ps)))) (unat GENERATION_NUMBER_MAX))"

lemma generation_30_bits:
  assumes "cg_commit_at f pos = Some c"
  shows "unat (cc_generation c) < 2 ^ 30"
proof -
  have "unat (drop_bit 2 w) < 2 ^ 30" for w :: u32
    using unsigned_less [where 'a = nat and w = w] by (simp add: unat_drop_bit)
  then show ?thesis using assms by (auto simp: cg_commit_at_def cg_commit_new_def bind_eq_Some_conv)
qed

lemma graph_generation_less: "graph_generation g p < 2 ^ 30"
  using generation_30_bits by (fastforce simp: graph_generation_def cg_graph_commit_at_def bind_eq_Some_conv split: option.splits)

lemma max_parent_generation_Ok:
  assumes "max_parent_generation g n c xs acc = (Ok m :: (u32, 'e cg_verify_error) outcome)"
  shows "\<exists>ps. xs = map Ok ps \<and> (\<forall>p\<in>set ps. p < n) \<and> unat m = Max (insert (unat acc) (graph_generation g ` set ps))"
  using assms
proof (induction g n c xs acc rule: max_parent_generation.induct)
  case (2 g n c p xs acc)
  from 2(2) obtain parent where lt: "p < n" and parent: "cg_graph_commit_at g p = Some parent"
    and rest: "max_parent_generation g n c xs (max acc (cc_generation parent)) = (Ok m :: (u32, 'e cg_verify_error) outcome)"
    by (auto simp: and_then_Ok_iff expect_Ok_iff not_le split: if_splits)
  have "\<not> n \<le> p" using lt by simp
  from 2(1) [OF this rest] obtain ps where ps: "xs = map Ok ps" "\<forall>p\<in>set ps. p < n"
    "unat m = Max (insert (unat (max acc (cc_generation parent))) (graph_generation g ` set ps))" by auto
  have "unat (max acc (cc_generation parent)) = max (unat acc) (graph_generation g p)"
    by (simp add: max_def word_le_nat_alt graph_generation_def parent)
  then have "unat m = Max (insert (unat acc) (graph_generation g ` set (p # ps)))"
    using ps(3) by (cases "set ps = {}") (simp_all add: max.assoc)
  with ps(1,2) lt show ?case by (intro exI [of _ "p # ps"]) simp
qed (auto simp: and_then_Ok_iff)

lemma verify_commit_Ok:
  assumes "verify_commit g n processor s c = Ok s'"
  shows "commit_ok g (unat n) c"
proof -
  from assms obtain m where m: "max_parent_generation g n c (iter_parents c) 0 = (Ok m :: (u32, 'b cg_verify_error) outcome)"
    and gen: "cc_generation c = min (m + 1) GENERATION_NUMBER_MAX"
    by (auto simp: verify_commit_def and_then_Ok_iff Let_def split: if_splits)
  from max_parent_generation_Ok [OF m] obtain ps where ps: "iter_parents c = map Ok ps" "\<forall>p\<in>set ps. p < n"
    "unat m = Max (insert 0 (graph_generation g ` set ps))" by auto
  have "unat m < 2 ^ 30"
    unfolding ps(3) using graph_generation_less by (subst Max_less_iff) auto
  then have "unat (m + 1) = Suc (unat m)" using unat_add_lem [of m 1] by simp
  then have "unat (cc_generation c) = min (Suc (unat m)) (unat GENERATION_NUMBER_MAX)"
    using gen by (simp add: min_def word_le_nat_alt)
  with ps show ?thesis by (auto simp: commit_ok_def word_less_nat_alt)
qed

lemma traverse_loop_Ok:
  assumes "traverse_loop processor null_id cs prev stats s = Ok (stats', s')"
  shows "(\<forall>c\<in>set cs. \<exists>k s1 s2. c = Some k \<and> processor s1 k = Ok s2 \<and> cc_generation k \<le> fst_max_generation stats') \<and>
    fst_max_generation stats \<le> fst_max_generation stats' \<and> fst_num_commits stats' = fst_num_commits stats \<and>
    (fst_max_generation stats' = fst_max_generation stats \<or> (\<exists>k. Some k \<in> set cs \<and> fst_max_generation stats' = cc_generation k))"
  using assms
proof (induction cs arbitrary: prev stats s)
  case (Cons c cs)
  from Cons.prems obtain k i s1 n where step: "c = Some k" "processor s k = Ok s1" and
    rest: "traverse_loop processor null_id cs i
      (stats\<lparr>fst_max_generation := max (fst_max_generation stats) (cc_generation k),
             fst_min_generation := min (fst_min_generation stats) (cc_generation k),
             fst_parent_counts := count_parents_entry n (fst_parent_counts stats)\<rparr>) s1 = Ok (stats', s')"
    by (auto simp: and_then_Ok_iff expect_Ok_iff map_err_Ok_iff Let_def)
  note ih = Cons.IH [OF rest, simplified]
  show ?case using ih step by (auto simp: max_def split: if_splits)
qed auto

lemma cg_traverse_Ok:
  assumes "cg_traverse sha1 fh processor f s = Ok (stats, s')"
  shows "k < cg_num_commits f \<Longrightarrow>
      \<exists>c s1 s2. cg_commit_at f k = Some c \<and> processor s1 c = Ok s2 \<and> cc_generation c \<le> fst_max_generation stats"
    and "fst_num_commits stats = cg_num_commits f"
    and "fst_max_generation stats = 0 \<or>
      (\<exists>k c. k < cg_num_commits f \<and> cg_commit_at f k = Some c \<and> fst_max_generation stats = cc_generation c)"
proof -
  from assms obtain null_id stats0 where loop: "traverse_loop processor null_id (cg_iter_commits f) null_id
      \<lparr>fst_max_generation = 0, fst_min_generation = GENERATION_NUMBER_INFINITY, fst_max_parents = 0,
       fst_num_commits = cg_num_commits f, fst_parent_counts = Map.empty\<rparr> s = Ok (stats0, s')"
    and stats: "fst_max_generation stats = fst_max_generation stats0" "fst_num_commits stats = fst_num_commits stats0"
    by (auto simp: cg_traverse_def Let_def and_then_Ok_iff split: if_splits)
  have pos: "set (cg_positions f) = {k. k < cg_num_commits f}"
  proof (intro set_eqI iffI)
    fix k assume "k \<in> {k. k < cg_num_commits f}"
    then show "k \<in> set (cg_positions f)"
      by (auto simp: cg_positions_def word_less_nat_alt intro!: image_eqI [of _ _ "unat k"])
  next
    fix k assume "k \<in> set (cg_positions f)"
    then obtain n where n: "k = word_of_nat n" "n < unat (cg_num_commits f)" by (auto simp: cg_positions_def)
    then have "n < 2 ^ 32" using unsigned_less [where 'a = nat and w = "cg_num_commits f"] by simp
    then show "k \<in> {k. k < cg_num_commits f}" using n unat_of_nat_small [where 'a = 32, of n] by (simp add: word_less_nat_alt)
  qed
  note l = traverse_loop_Ok [OF loop, simplified]
  show "k < cg_num_commits f \<Longrightarrow>
      \<exists>c s1 s2. cg_commit_at f k = Some c \<and> processor s1 c = Ok s2 \<and> cc_generation c \<le> fst_max_generation stats"
    using l pos stats by (auto simp: cg_iter_commits_def)
  show "fst_num_commits stats = cg_num_commits f" using l stats by simp
  show "fst_max_generation stats = 0 \<or>
      (\<exists>k c. k < cg_num_commits f \<and> cg_commit_at f k = Some c \<and> fst_max_generation stats = cc_generation c)"
    using l pos stats by (fastforce simp: cg_iter_commits_def)
qed

section \<open>What the verification of a graph has checked\<close>

lemma verify_files_Ok:
  assumes "verify_files sha1 fh processor g fs (length pre) start max0 stats s = Ok (max1, stats', s')"
    and "unat start = commits_before pre" "commits_before (pre @ fs) < 2 ^ 32"
  shows "(\<forall>as f bs k. fs = as @ f # bs \<longrightarrow> k < cg_num_commits f \<longrightarrow>
      (\<exists>c. cg_commit_at f k = Some c \<and> commit_ok g (commits_before (pre @ as @ [f])) c \<and> cc_generation c \<le> max1)) \<and>
    max0 \<le> max1 \<and> out_num_commits stats' = out_num_commits stats + sum_list (map cg_num_commits fs) \<and>
    (max1 = max0 \<or> (\<exists>f k c. f \<in> set fs \<and> k < cg_num_commits f \<and> cg_commit_at f k = Some c \<and> cc_generation c = max1))"
  using assms
proof (induction fs arbitrary: pre start max0 stats s)
  case (Cons f fs)
  let ?n = "start + cg_num_commits f"
  from Cons.prems(1) obtain fstats s1 where
    trav: "cg_traverse sha1 fh (verify_commit g ?n processor) f s = Ok (fstats, s1)" and
    rest: "verify_files sha1 fh processor g fs (length (pre @ [f])) ?n (max max0 (fst_max_generation fstats))
      (stats\<lparr>out_num_commits := out_num_commits stats + fst_num_commits fstats,
             out_parent_counts := add_parent_counts (out_parent_counts stats) (fst_parent_counts fstats)\<rparr>) s1 = Ok (max1, stats', s')"
    by (auto simp: Let_def and_then_Ok_iff map_err_Ok_iff split: if_splits)
  have n: "unat ?n = commits_before (pre @ [f])"
    using Cons.prems(2,3) unat_add_lem [of start "cg_num_commits f"] by simp
  note t = cg_traverse_Ok [OF trav]
  have ih: "(\<forall>as f' bs k. fs = as @ f' # bs \<longrightarrow> k < cg_num_commits f' \<longrightarrow>
      (\<exists>c. cg_commit_at f' k = Some c \<and> commit_ok g (commits_before ((pre @ [f]) @ as @ [f'])) c \<and> cc_generation c \<le> max1)) \<and>
    max max0 (fst_max_generation fstats) \<le> max1 \<and>
    out_num_commits stats' = out_num_commits stats + fst_num_commits fstats + sum_list (map cg_num_commits fs) \<and>
    (max1 = max max0 (fst_max_generation fstats) \<or>
      (\<exists>f k c. f \<in> set fs \<and> k < cg_num_commits f \<and> cg_commit_at f k = Some c \<and> cc_generation c = max1))"
    using Cons.IH [OF rest n] Cons.prems(3) by simp
  have own: "\<exists>c. cg_commit_at f k = Some c \<and> commit_ok g (commits_before (pre @ [f])) c \<and> cc_generation c \<le> max1"
    if k: "k < cg_num_commits f" for k
  proof -
    obtain c s1 s2 where c: "cg_commit_at f k = Some c" "verify_commit g ?n processor s1 c = Ok s2" "cc_generation c \<le> fst_max_generation fstats"
      using t(1) [OF k] by blast
    have "fst_max_generation fstats \<le> max1" using ih by simp
    then show ?thesis using c(1,3) verify_commit_Ok [OF c(2)] n by auto
  qed
  have all: "\<exists>c. cg_commit_at f' k = Some c \<and> commit_ok g (commits_before (pre @ as @ [f'])) c \<and> cc_generation c \<le> max1"
    if "f # fs = as @ f' # bs" "k < cg_num_commits f'" for as f' bs k
  proof (cases as)
    case Nil
    then show ?thesis using that own by simp
  next
    case (Cons a as')
    then have "fs = as' @ f' # bs" "a = f" using that(1) by simp_all
    then have "\<exists>c. cg_commit_at f' k = Some c \<and> commit_ok g (commits_before ((pre @ [f]) @ as' @ [f'])) c \<and> cc_generation c \<le> max1"
      using ih that(2) by blast
    then show ?thesis using Cons \<open>a = f\<close> by (simp add: add.assoc)
  qed
  have "max1 = max0 \<or> (\<exists>f' k c. f' \<in> set (f # fs) \<and> k < cg_num_commits f' \<and> cg_commit_at f' k = Some c \<and> cc_generation c = max1)"
  proof -
    have "max max0 (fst_max_generation fstats) = max0 \<or>
        (\<exists>k c. k < cg_num_commits f \<and> cg_commit_at f k = Some c \<and> cc_generation c = max max0 (fst_max_generation fstats))"
      using t(3) by (auto simp: max_def)
    moreover have "max1 = max max0 (fst_max_generation fstats) \<or>
        (\<exists>f k c. f \<in> set fs \<and> k < cg_num_commits f \<and> cg_commit_at f k = Some c \<and> cc_generation c = max1)"
      using ih by blast
    ultimately show ?thesis by (metis list.set_intros)
  qed
  then show ?case using all ih t(2) by (simp add: add.assoc)
qed simp

lemma verified_positions:
  assumes new: "cg_graph_new files = Ok g" and ver: "verify_integrity sha1 fh processor g s = Ok (stats, s')"
  obtains max1 where
    "\<And>p. p < cg_graph_num_commits g \<Longrightarrow>
      \<exists>f j r c. lookup_by_pos g p = Some (f, j, r) \<and> cg_graph_commit_at g p = Some c \<and>
        commit_ok g (commits_before (take (Suc j) files)) c \<and> cc_generation c \<le> max1"
    "max1 = 0 \<or> (\<exists>p<cg_graph_num_commits g. graph_generation g p = unat max1)"
    "out_num_commits stats = cg_graph_num_commits g"
    "out_longest_path_length stats =
       (if max1 < GENERATION_NUMBER_MAX then Some (if max1 = 0 then 0 else max1 - 1) else None)"
    "cg_files g = files" "unat (cg_graph_num_commits g) = commits_before files" "commits_before files \<le> unat MAX_COMMITS"
proof -
  from ver obtain max1 stats1 where len: "length (cg_files g) \<le> 256"
    and loop: "verify_files sha1 fh processor g (cg_files g) (length ([] :: cg_file list)) 0 0
      \<lparr>out_longest_path_length = None, out_num_commits = 0, out_parent_counts = Map.empty\<rparr> s = Ok (max1, stats1, s')"
    and stats: "stats = stats1\<lparr>out_longest_path_length :=
                (if max1 < GENERATION_NUMBER_MAX
                 then Some (if max1 = 0 then 0 else max1 - 1) else None)\<rparr>"
    by (auto simp: verify_integrity_def Let_def and_then_Ok_iff split: if_splits)
  have files: "cg_files g = files" using new by (auto simp: cg_graph_new_def Let_def split: if_splits option.splits)
  then have small: "length files < 2 ^ 32" using len by simp
  note n = cg_graph_new_Ok [OF new small] and num = cg_graph_num_unat [OF new small]
  have total: "commits_before ([] @ cg_files g) < 2 ^ 32" using n by (simp add: MAX_COMMITS_unat)
  note v = verify_files_Ok [OF loop _ total, simplified]
  have at: "\<exists>f j r c. lookup_by_pos g p = Some (f, j, r) \<and> cg_graph_commit_at g p = Some c \<and>
        commit_ok g (commits_before (take (Suc j) files)) c \<and> cc_generation c \<le> max1" if p: "p < cg_graph_num_commits g" for p
  proof -
    have "lookup_by_pos g p \<noteq> None"
      using p by (simp add: lookup_by_pos_def lookup_by_pos_loop_None files num [symmetric] word_less_nat_alt)
    then obtain f j r where l: "lookup_by_pos g p = Some (f, j, r)" by auto
    then obtain pre post where fs: "files = pre @ f # post" "r < cg_num_commits f" "j = length pre"
      using lookup_by_pos_loop_Some [of files 0 p f j r] files by (auto simp: lookup_by_pos_def)
    have "\<exists>c. cg_commit_at f r = Some c \<and> commit_ok g (commits_before (pre @ [f])) c \<and> cc_generation c \<le> max1"
      using v fs(1,2) files by simp
    then show ?thesis using l fs(1,3) by (auto simp: cg_graph_commit_at_def)
  qed
  have attained: "max1 = 0 \<or> (\<exists>p<cg_graph_num_commits g. graph_generation g p = unat max1)"
  proof (rule disjCI)
    assume "\<not> (\<exists>p<cg_graph_num_commits g. graph_generation g p = unat max1)"
    moreover have "\<exists>p<cg_graph_num_commits g. graph_generation g p = unat max1"
      if f: "f \<in> set files" "k < cg_num_commits f" "cg_commit_at f k = Some c" "cc_generation c = max1" for f k c
    proof -
      obtain pre post where fs: "files = pre @ f # post" using split_list [OF f(1)] by blast
      let ?n = "commits_before pre + unat k"
      have lt: "?n < commits_before files" using fs f(2) by (simp add: word_less_nat_alt)
      then have u: "unat (word_of_nat ?n :: u32) = ?n" using n(2) by (intro unat_of_nat_small) (simp add: MAX_COMMITS_unat)
      then have "lookup_by_pos g (word_of_nat ?n) = Some (f, length pre, k)"
        using lookup_by_pos_loop_at [OF u f(2), of post 0] by (simp add: lookup_by_pos_def files fs)
      then have "graph_generation g (word_of_nat ?n) = unat max1" using f(3,4) by (simp add: graph_generation_def cg_graph_commit_at_def)
      moreover have "word_of_nat ?n < cg_graph_num_commits g" using lt u num by (simp add: word_less_nat_alt)
      ultimately show ?thesis by blast
    qed
    ultimately show "max1 = 0" using v files by blast
  qed
  have "out_num_commits stats = cg_graph_num_commits g" using v stats by (simp add: cg_graph_num_commits_def)
  then show thesis using that [of max1] at attained stats files num n(2) by simp
qed

section \<open>Verified graphs\<close>

definition graph_verified :: "cg_graph \<Rightarrow> bool" where
  "graph_verified g \<longleftrightarrow> (\<forall>p<cg_graph_num_commits g. (\<forall>q\<in>set (graph_parents g p). q < cg_graph_num_commits g) \<and>
     graph_generation g p = Suc (Max (insert 0 (graph_generation g ` set (graph_parents g p)))))"

definition graph_nodes :: "cg_graph \<Rightarrow> u32 set" where
  "graph_nodes g = (if graph_verified g then {p. p < cg_graph_num_commits g} else {})"

interpretation cg_generations: generations "graph_nodes g" "graph_parents g" "graph_generation g" for g
  by unfold_locales (auto simp: graph_nodes_def graph_verified_def split: if_splits)

lemma graph_parents_Ok: "cg_graph_commit_at g p = Some c \<Longrightarrow> iter_parents c = map Ok ps \<Longrightarrow> graph_parents g p = ps"
  by (simp add: graph_parents_def comp_def)

lemma commits_before_take: "commits_before (take n fs) \<le> commits_before fs"
  by (induction fs arbitrary: n) (auto simp: take_Cons split: nat.splits)

text \<open>A chain of two commits, as an example of a graph that is verified.\<close>

definition sample_chain :: "cg_entry list" where
  "sample_chain =
     [\<lparr>ge_id = replicate 20 1, ge_tree = replicate 20 9, ge_parents = [1], ge_generation = 2, ge_time = 1700000000\<rparr>,
      \<lparr>ge_id = replicate 20 3, ge_tree = replicate 20 9, ge_parents = [], ge_generation = 1, ge_time = 1600000000\<rparr>]"

lemma sample_chain_wf: "wf_cg_entries sample_chain"
proof -
  have "sorted_wrt (\<lambda>a b. cmp_slice a b = Less) (map ge_id sample_chain)" by code_simp
  moreover have "list_all wf_cg_entry sample_chain"
    by (simp add: sample_chain_def wf_cg_entry_def NO_PARENT_def GENERATION_NUMBER_MAX_def)
  ultimately show ?thesis
    by (simp add: wf_cg_entries_def sample_chain_def all_edges_def extra_edges_def MAX_COMMITS_unat)
qed

lemma sample_chain_verified:
  "\<exists>f g stats. cg_file_new (cg_encode (\<lambda>_. replicate 20 0) sample_chain) [] = Ok f \<and> cg_graph_new [f] = Ok g \<and>
     cg_graph_num_commits g = 2 \<and>
     verify_integrity (\<lambda>_. replicate 20 0) fh (\<lambda>n _. Ok (Suc n) :: (nat, unit) outcome) g 0 = Ok (stats, 2) \<and>
     out_longest_path_length stats = Some 1 \<and> cg_graph_commit_at g 0 \<noteq> None"
proof -
  let ?d = "cg_encode (\<lambda>_. replicate 20 0) sample_chain"
  obtain f where f: "cg_file_new ?d [] = Ok f" "cg_path f = []" "cg_opens_as f ?d sample_chain"
    using cg_encode_opens [of sample_chain "\<lambda>_. replicate 20 0" "[]", OF sample_chain_wf length_replicate] by blast
  have n: "cg_num_commits f = 2" using cg_opened_num(1) [OF sample_chain_wf f(3)] by (simp add: sample_chain_def)
  let ?g = "\<lparr>cg_files = [f]\<rparr>"
  have g: "cg_graph_new [f] = Ok ?g" by (simp add: cg_graph_new_def n MAX_COMMITS_def)
  obtain body where body: "?d = body @ replicate 20 0"
    using write_chunk_file_eq [of "cg_header sample_chain" "cg_chunks sample_chain"] cg_chunks_wf(1) [OF sample_chain_wf]
    by (auto simp: cg_encode_def)
  have data: "cg_data f = body @ replicate 20 0" "cg_hash_len f = 20" "cg_object_hash f = KSha1" "cg_base_graph_count f = 0"
    using f(3) body by (simp_all add: cg_opens_as_def)
  have sum: "cg_checksum f = Some (replicate 20 0)" by (simp add: cg_checksum_def data)
  have vsum: "cg_verify_checksum (\<lambda>_. replicate 20 0) f = Ok (Sha1 (replicate 20 0))"
    by (simp add: cg_verify_checksum_def data sum object_id_from_bytes_or_panic_def object_id_as_slice_def)
  have name: "verify_split_chain_filename_hash fh (cg_path f) i = Ok ()" for i
    by (simp add: verify_split_chain_filename_hash_def f(2) file_name_def path_components_def)
  have ids: "cg_id_at f 0 = Some (replicate 20 1)" "cg_id_at f 1 = Some (replicate 20 3)"
    using cg_opened_id [OF sample_chain_wf f(3), of 0] cg_opened_id [OF sample_chain_wf f(3), of 1] by (simp_all add: sample_chain_def)
  obtain c0 where c0: "cg_commit_at f 0 = Some c0" "cc_file c0 = f" "cc_pos c0 = 0" "cc_root_tree_id c0 = replicate 20 9"
    "cc_generation c0 = 2" "iter_parents c0 = [Ok 1]"
    using cg_opened_commit [OF sample_chain_wf f(3), of 0] by (auto simp: sample_chain_def)
  obtain c1 where c1: "cg_commit_at f 1 = Some c1" "cc_file c1 = f" "cc_pos c1 = 1" "cc_root_tree_id c1 = replicate 20 9"
    "cc_generation c1 = 1" "iter_parents c1 = []"
    using cg_opened_commit [OF sample_chain_wf f(3), of 1] by (auto simp: sample_chain_def)
  have at1: "cg_graph_commit_at ?g 1 = Some c1" "cg_graph_commit_at ?g 0 = Some c0"
    using c0(1) c1(1) by (simp_all add: cg_graph_commit_at_def lookup_by_pos_def n word_le_nat_alt)
  have cs: "cg_iter_commits f = [Some c0, Some c1]"
    using c0(1) c1(1) by (simp add: cg_iter_commits_def cg_positions_def n upt_rec [of _ 2] upt_rec [of 1 2])
  have cmps: "cmp_slice (replicate 20 (1 :: u8)) (replicate 20 0) = Greater" "cmp_slice (replicate 20 (3 :: u8)) (replicate 20 1) = Greater"
    by code_simp+
  have base: "iter_base_graph_ids f = Some []"
    using f(3) by (simp add: iter_base_graph_ids_def cg_opens_as_def get_range_def chunks_exact.simps [of 20 "[]"])
  have commits: "verify_commit ?g 2 (\<lambda>n _. Ok (Suc n) :: (nat, unit) outcome) m c0 = Ok (Suc m)"
    "verify_commit ?g 2 (\<lambda>n _. Ok (Suc n) :: (nat, unit) outcome) m c1 = Ok (Suc m)" for m
    by (simp_all add: verify_commit_def c0 c1 at1 GENERATION_NUMBER_MAX_def Let_def min_def word_le_nat_alt max_def)
  have nul: "object_id_as_slice (object_id_null (cg_object_hash f)) = replicate 20 0"
    by (simp add: data object_id_null_def null_sha1_def object_id_as_slice_def)
  have trav: "\<exists>st. cg_traverse (\<lambda>_. replicate 20 0) fh (verify_commit ?g 2 (\<lambda>n _. Ok (Suc n) :: (nat, unit) outcome)) f 0 = Ok (st, 2) \<and>
      fst_max_generation st = 2"
    by (simp add: cg_traverse_def vsum sum name nul cs commits c0 c1 cg_commit_id_def ids traverse_check_def cmps
        GENERATION_NUMBER_MAX_def GENERATION_NUMBER_INFINITY_def word_le_nat_alt word_less_nat_alt max_def min_def Let_def)
  then obtain st where st: "cg_traverse (\<lambda>_. replicate 20 0) fh (verify_commit ?g 2 (\<lambda>n _. Ok (Suc n) :: (nat, unit) outcome)) f 0 = Ok (st, 2)"
    "fst_max_generation st = 2" by blast
  have "\<exists>stats. verify_integrity (\<lambda>_. replicate 20 0) fh (\<lambda>n _. Ok (Suc n) :: (nat, unit) outcome) ?g 0 = Ok (stats, 2) \<and>
     out_longest_path_length stats = Some 1"
    by (simp add: verify_integrity_def data base n st GENERATION_NUMBER_MAX_def max_def)
  moreover have "cg_graph_num_commits ?g = 2" by (simp add: cg_graph_num_commits_def n)
  ultimately show ?thesis using f(1) g at1 by auto
qed

text \<open>
  C9: if the verification of a graph succeeds it has seen all of its commits, and every commit has readable parents that lie in the same file or
  in one of its base files, and a generation number that is one more than the largest of its parents, or the largest
  number there is.
\<close>

theorem verified_graph_generations:
  assumes new: "cg_graph_new files = Ok g" and ver: "verify_integrity sha1 fh processor g s = Ok (stats, s')"
  shows "out_num_commits stats = cg_graph_num_commits g \<and>
    (\<forall>p<cg_graph_num_commits g. \<exists>f j r c ps. lookup_by_pos g p = Some (f, j, r) \<and> cg_graph_commit_at g p = Some c \<and>
       iter_parents c = map Ok ps \<and> (\<forall>q\<in>set ps. \<exists>f' j' r'. lookup_by_pos g q = Some (f', j', r') \<and> j' \<le> j) \<and>
       unat (cc_generation c) = min (Suc (Max (insert 0 (graph_generation g ` set ps)))) (unat GENERATION_NUMBER_MAX))"
proof (rule verified_positions [OF new ver])
  fix max1
  assume at: "\<And>p. p < cg_graph_num_commits g \<Longrightarrow>
      \<exists>f j r c. lookup_by_pos g p = Some (f, j, r) \<and> cg_graph_commit_at g p = Some c \<and>
        commit_ok g (commits_before (take (Suc j) files)) c \<and> cc_generation c \<le> max1"
    and num: "out_num_commits stats = cg_graph_num_commits g" and files: "cg_files g = files"
  have earlier: "\<exists>f' j' r'. lookup_by_pos g q = Some (f', j', r') \<and> j' \<le> j" if q: "unat q < commits_before (take (Suc j) files)" for q j
  proof -
    have "\<not> commits_before files \<le> unat q" using q commits_before_take [of "Suc j" files] by linarith
    then obtain f' j' r' where l: "lookup_by_pos g q = Some (f', j', r')"
      using lookup_by_pos_loop_None [of files 0 q] by (auto simp: lookup_by_pos_def files)
    then obtain pre post where fs: "files = pre @ f' # post" "unat q = commits_before pre + unat r'" "j' = length pre"
      using lookup_by_pos_loop_Some [of files 0 q f' j' r'] by (auto simp: lookup_by_pos_def files)
    have "j' \<le> j"
    proof (rule ccontr)
      assume "\<not> j' \<le> j"
      then have "take (Suc j) files = take (Suc j) pre" using fs(1,3) by simp
      then show False using q fs(2) commits_before_take [of "Suc j" pre] by simp
    qed
    with l show ?thesis by blast
  qed
  show ?thesis
  proof (intro conjI allI impI)
    fix p assume "p < cg_graph_num_commits g"
    from at [OF this] obtain f j r c where c: "lookup_by_pos g p = Some (f, j, r)" "cg_graph_commit_at g p = Some c"
      "commit_ok g (commits_before (take (Suc j) files)) c" by blast
    from c(3) obtain ps where ps: "iter_parents c = map Ok ps" "\<forall>q\<in>set ps. unat q < commits_before (take (Suc j) files)"
      "unat (cc_generation c) = min (Suc (Max (insert 0 (graph_generation g ` set ps)))) (unat GENERATION_NUMBER_MAX)"
      by (auto simp: commit_ok_def)
    from ps(2) earlier have "\<forall>q\<in>set ps. \<exists>f' j' r'. lookup_by_pos g q = Some (f', j', r') \<and> j' \<le> j" by blast
    with c(1,2) ps(1,3) show "\<exists>f j r c ps. lookup_by_pos g p = Some (f, j, r) \<and> cg_graph_commit_at g p = Some c \<and>
       iter_parents c = map Ok ps \<and> (\<forall>q\<in>set ps. \<exists>f' j' r'. lookup_by_pos g q = Some (f', j', r') \<and> j' \<le> j) \<and>
       unat (cc_generation c) = min (Suc (Max (insert 0 (graph_generation g ` set ps)))) (unat GENERATION_NUMBER_MAX)"
      by blast
  qed (rule num)
qed

theorem verified_graph_generations_witness:
  "\<exists>f g c ps. cg_file_new (cg_encode (\<lambda>_. replicate 20 0) sample_chain) [] = Ok f \<and> cg_graph_new [f] = Ok g \<and>
     cg_graph_commit_at g 0 = Some c \<and> iter_parents c = map Ok ps \<and>
     unat (cc_generation c) = min (Suc (Max (insert 0 (graph_generation g ` set ps)))) (unat GENERATION_NUMBER_MAX)"
proof -
  obtain f g stats where v: "cg_file_new (cg_encode (\<lambda>_. replicate 20 0) sample_chain) [] = Ok f" "cg_graph_new [f] = Ok g"
     "cg_graph_num_commits g = 2"
     "verify_integrity (\<lambda>_. replicate 20 0) reference_hex (\<lambda>n _. Ok (Suc n) :: (nat, unit) outcome) g 0 = Ok (stats, 2)"
    using sample_chain_verified [of reference_hex] by blast
  have "0 < cg_graph_num_commits g" using v(3) by (simp add: word_gt_0)
  with verified_graph_generations [OF v(2,4)] have "\<exists>c ps. cg_graph_commit_at g 0 = Some c \<and> iter_parents c = map Ok ps \<and>
      unat (cc_generation c) = min (Suc (Max (insert 0 (graph_generation g ` set ps)))) (unat GENERATION_NUMBER_MAX)"
    by blast
  with v(1,2) show ?thesis by blast
qed

lemma verified_uncapped:
  assumes at: "\<And>p. p < cg_graph_num_commits g \<Longrightarrow>
      \<exists>f j r c. lookup_by_pos g p = Some (f, j, r) \<and> cg_graph_commit_at g p = Some c \<and>
        commit_ok g (commits_before (take (Suc j) files)) c \<and> cc_generation c \<le> max1"
    and num: "unat (cg_graph_num_commits g) = commits_before files" and cap: "max1 < GENERATION_NUMBER_MAX"
  shows "graph_verified g"
  unfolding graph_verified_def
proof (intro allI impI)
  fix p assume "p < cg_graph_num_commits g"
  from at [OF this] obtain j c ps where c: "cg_graph_commit_at g p = Some c" "cc_generation c \<le> max1"
    and ps: "iter_parents c = map Ok ps" "\<forall>q\<in>set ps. unat q < commits_before (take (Suc j) files)"
      "unat (cc_generation c) = min (Suc (Max (insert 0 (graph_generation g ` set ps)))) (unat GENERATION_NUMBER_MAX)"
    by (auto simp: commit_ok_def)
  have "\<forall>q\<in>set ps. q < cg_graph_num_commits g"
    using ps(2) commits_before_take [of "Suc j" files] num by (force simp: word_less_nat_alt)
  moreover have "unat (cc_generation c) < unat GENERATION_NUMBER_MAX"
    using le_less_trans [OF c(2) cap] by (simp add: word_less_nat_alt)
  ultimately show "(\<forall>q\<in>set (graph_parents g p). q < cg_graph_num_commits g) \<and>
      graph_generation g p = Suc (Max (insert 0 (graph_generation g ` set (graph_parents g p))))"
    using ps(3) c(1) by (simp add: graph_parents_Ok [OF c(1) ps(1)] graph_generation_def min_def split: if_splits)
qed

text \<open>
  C7: the length that the verification of a graph reports is that of the longest path of commits, each a parent
  of the one before: no path has more edges, and if there are commits some path has as many.  In particular there are no cycles.  No length
  is reported only if a commit has the largest generation number.
\<close>

theorem verified_graph_longest_path:
  assumes new: "cg_graph_new files = Ok g" and ver: "verify_integrity sha1 fh processor g s = Ok (stats, s')"
  shows "case out_longest_path_length stats of
     Some n \<Rightarrow> (\<forall>p ps. p < cg_graph_num_commits g \<longrightarrow> parent_path (graph_parents g) (p # ps) \<longrightarrow> length ps \<le> unat n) \<and>
       (cg_graph_num_commits g > 0 \<longrightarrow>
         (\<exists>p ps. p < cg_graph_num_commits g \<and> parent_path (graph_parents g) (p # ps) \<and> length ps = unat n)) \<and>
       (\<forall>p ps. p < cg_graph_num_commits g \<longrightarrow> \<not> parent_path (graph_parents g) (p # ps @ [p]))
   | None \<Rightarrow> \<exists>p<cg_graph_num_commits g. graph_generation g p = unat GENERATION_NUMBER_MAX"
proof (rule verified_positions [OF new ver])
  fix max1
  assume at: "\<And>p. p < cg_graph_num_commits g \<Longrightarrow>
      \<exists>f j r c. lookup_by_pos g p = Some (f, j, r) \<and> cg_graph_commit_at g p = Some c \<and>
        commit_ok g (commits_before (take (Suc j) files)) c \<and> cc_generation c \<le> max1"
    and attained: "max1 = 0 \<or> (\<exists>p<cg_graph_num_commits g. graph_generation g p = unat max1)"
    and len: "out_longest_path_length stats =
       (if max1 < GENERATION_NUMBER_MAX then Some (if max1 = 0 then 0 else max1 - 1) else None)"
    and num: "unat (cg_graph_num_commits g) = commits_before files"
  have le: "graph_generation g p \<le> unat max1" if "p < cg_graph_num_commits g" for p
    using at [OF that] by (auto simp: graph_generation_def word_le_nat_alt)
  show ?thesis
  proof (cases "max1 < GENERATION_NUMBER_MAX")
    case True
    let ?n = "if max1 = 0 then 0 else max1 - 1"
    have n: "unat ?n = unat max1 - 1" by (simp add: unat_minus_one)
    have nodes: "graph_nodes g = {p. p < cg_graph_num_commits g}"
      using verified_uncapped [OF at num True] by (simp add: graph_nodes_def)
    have bounded: "length ps \<le> unat ?n" if "p < cg_graph_num_commits g" "parent_path (graph_parents g) (p # ps)" for p ps
      using cg_generations.path_bounded [OF that(2)] le [OF that(1)] that(1) unfolding nodes n by simp
    have cycle: "\<not> parent_path (graph_parents g) (p # ps @ [p])" if "p < cg_graph_num_commits g" for p ps
      by (rule cg_generations.no_cycle) (use that nodes in simp)
    have "\<exists>p ps. p < cg_graph_num_commits g \<and> parent_path (graph_parents g) (p # ps) \<and> length ps = unat ?n"
      if pos: "cg_graph_num_commits g > 0"
    proof -
      have "graph_generation g 0 \<noteq> 0" using cg_generations.gen_eq [of 0 g] pos unfolding nodes by simp
      then have "max1 \<noteq> 0" using le [OF pos] by auto
      then obtain p where p: "p < cg_graph_num_commits g" "graph_generation g p = unat max1" using attained by blast
      with cg_generations.path_exists [of p g] obtain ps where "parent_path (graph_parents g) (p # ps)" "Suc (length ps) = unat max1"
        unfolding nodes by auto
      with p(1) show ?thesis unfolding n by (intro exI [of _ p] exI [of _ ps]) auto
    qed
    with bounded cycle show ?thesis by (simp only: len True if_True option.case) blast
  next
    case False
    then have "max1 \<noteq> 0" by (auto simp: GENERATION_NUMBER_MAX_def)
    then obtain p where p: "p < cg_graph_num_commits g" "graph_generation g p = unat max1" using attained by blast
    have "graph_generation g p \<le> unat GENERATION_NUMBER_MAX" using at [OF p(1)] by (auto simp: graph_generation_def commit_ok_def)
    then have "graph_generation g p = unat GENERATION_NUMBER_MAX" using p(2) False by (simp add: word_less_nat_alt)
    with p(1) False show ?thesis by (auto simp: len)
  qed
qed

theorem verified_graph_longest_path_witness:
  "\<exists>f g p ps. cg_file_new (cg_encode (\<lambda>_. replicate 20 0) sample_chain) [] = Ok f \<and> cg_graph_new [f] = Ok g \<and>
     p < cg_graph_num_commits g \<and> parent_path (graph_parents g) (p # ps) \<and> length ps = 1"
proof -
  obtain f g stats where v: "cg_file_new (cg_encode (\<lambda>_. replicate 20 0) sample_chain) [] = Ok f" "cg_graph_new [f] = Ok g"
     "cg_graph_num_commits g = 2" "out_longest_path_length stats = Some 1"
     "verify_integrity (\<lambda>_. replicate 20 0) reference_hex (\<lambda>n _. Ok (Suc n) :: (nat, unit) outcome) g 0 = Ok (stats, 2)"
    using sample_chain_verified [of reference_hex] by blast
  have "cg_graph_num_commits g > 0" using v(3) by (simp add: word_gt_0)
  with verified_graph_longest_path [OF v(2,5)] v(4)
  have "\<exists>p ps. p < cg_graph_num_commits g \<and> parent_path (graph_parents g) (p # ps) \<and> length ps = 1" by auto
  with v(1,2) show ?thesis by blast
qed

end
