(* ===== verification/Gix_Refspec.thy ===== *)
theory Gix_Refspec
  imports Gix_Validate_Name Gix_Hash
begin

text \<open>
  The crate \<^verbatim>\<open>gix-refspec\<close>, specifications: parsing (\<^verbatim>\<open>parse.rs\<close>), instructions (\<^verbatim>\<open>instruction.rs\<close>, \<^verbatim>\<open>spec.rs\<close>), printing
  (\<^verbatim>\<open>write.rs\<close>) and the prefixes under which a server is asked for references.  The revision parser of
  \<^verbatim>\<open>gix-revision\<close>, which decides about sources of a push that are no reference names, is an argument.  The lemmas show
  what an accepted specification looks like, that it always has an instruction, and when printing and parsing gives it back.
\<close>

section \<open>Specifications\<close>

datatype operation = OpPush | OpFetch

datatype spec_mode = Normal | Force | Negative

record refspec =
  rs_mode :: spec_mode
  rs_op :: operation
  rs_src :: "bytes option"
  rs_dst :: "bytes option"

datatype push_instruction =
    AllMatchingBranches bool
  | PDelete bytes
  | Matching bytes bytes bool

datatype fetch_instruction =
    FetchOnly bytes
  | FetchExclude bytes
  | AndUpdate bytes bytes bool

datatype instruction = IPush push_instruction | IFetch fetch_instruction

definition instruction_operation :: "instruction \<Rightarrow> operation" where
  "instruction_operation i = (case i of IPush _ \<Rightarrow> OpPush | IFetch _ \<Rightarrow> OpFetch)"

definition allow_non_fast_forward :: "refspec \<Rightarrow> bool" where
  "allow_non_fast_forward r \<longleftrightarrow> rs_mode r = Force"

text \<open>\<^verbatim>\<open>instruction()\<close>; the combinations the code declares unreachable are the panic.\<close>

definition rs_instruction :: "refspec \<Rightarrow> instruction or_panic" where
  "rs_instruction r =
     (case rs_op r of
        OpFetch \<Rightarrow>
          (if rs_mode r = Negative then
             (case (rs_src r, rs_dst r) of (Some src, None) \<Rightarrow> Some (IFetch (FetchExclude src)) | _ \<Rightarrow> None)
           else
             (case (rs_src r, rs_dst r) of
                (Some src, None) \<Rightarrow> Some (IFetch (FetchOnly src))
              | (Some src, Some dst) \<Rightarrow> Some (IFetch (AndUpdate src dst (rs_mode r = Force)))
              | _ \<Rightarrow> None))
      | OpPush \<Rightarrow>
          (if rs_mode r = Negative then None
           else
             (case (rs_src r, rs_dst r) of
                (Some src, None) \<Rightarrow> Some (IPush (Matching src src (rs_mode r = Force)))
              | (None, Some dst) \<Rightarrow> Some (IPush (PDelete dst))
              | (None, None) \<Rightarrow> Some (IPush (AllMatchingBranches (rs_mode r = Force)))
              | (Some src, Some dst) \<Rightarrow> Some (IPush (Matching src dst (rs_mode r = Force))))))"

text \<open>Two specifications are equal when their instructions are; comparing evaluates both.\<close>

definition refspec_eq :: "refspec \<Rightarrow> refspec \<Rightarrow> bool or_panic" where
  "refspec_eq a b =
     (case (rs_instruction a, rs_instruction b) of (Some i, Some j) \<Rightarrow> Some (i = j) | _ \<Rightarrow> None)"

section \<open>Printing\<close>

abbreviation PLUS :: u8 where "PLUS \<equiv> 0x2b"
abbreviation CARET :: u8 where "CARET \<equiv> 0x5e"
abbreviation COLON :: u8 where "COLON \<equiv> 0x3a"
abbreviation STAR :: u8 where "STAR \<equiv> 0x2a"

definition plus_if :: "bool \<Rightarrow> bytes" where
  "plus_if force = (if force then [PLUS] else [])"

fun instruction_write_to :: "instruction \<Rightarrow> bytes" where
  "instruction_write_to (IPush (Matching src dst force)) = plus_if force @ src @ [COLON] @ dst"
| "instruction_write_to (IPush (AllMatchingBranches force)) = plus_if force @ [COLON]"
| "instruction_write_to (IPush (PDelete ref_or_pattern)) = [COLON] @ ref_or_pattern"
| "instruction_write_to (IFetch (FetchOnly src)) = src"
| "instruction_write_to (IFetch (FetchExclude src)) = [CARET] @ src"
| "instruction_write_to (IFetch (AndUpdate src dst force)) = plus_if force @ src @ [COLON] @ dst"

definition rs_to_bstring :: "refspec \<Rightarrow> bytes or_panic" where
  "rs_to_bstring r = map_option instruction_write_to (rs_instruction r)"

section \<open>Parsing\<close>

datatype 'r refspec_error =
    RSEmpty
  | NegativeWithDestination
  | NegativeEmpty
  | NegativeUnsupported
  | NegativeObjectHash
  | NegativePartialName
  | NegativeGlobPattern
  | InvalidFetchDestination
  | PushToEmpty
  | PatternUnsupported bytes
  | PatternUnbalanced
  | ReferenceName ref_name_error
  | RevSpec 'r

definition HEAD :: bytes where "HEAD = lit ''HEAD''"

definition fetch_head_only :: "spec_mode \<Rightarrow> refspec" where
  "fetch_head_only mode = \<lparr>rs_mode = mode, rs_op = OpFetch, rs_src = Some HEAD, rs_dst = None\<rparr>"

definition looks_like_object_hash :: "bytes \<Rightarrow> bool" where
  "looks_like_object_hash spec \<longleftrightarrow>
     kind_len_in_hex kind_shortest \<le> length spec \<and> list_all (\<lambda>c. nibble_of c \<noteq> None) spec"

definition validated_side ::
  "bstr \<Rightarrow> (bytes \<Rightarrow> (unit, 'r) outcome) \<Rightarrow> bytes option \<Rightarrow> bool \<Rightarrow> (bytes option \<times> bool, 'r refspec_error) outcome" where
  "validated_side bs revspec side allow_revspecs =
     (case side of
        None \<Rightarrow> Ok (None, False)
      | Some spec \<Rightarrow>
          let glob_count = length (take 2 (filter (\<lambda>b. b = STAR) spec)) in
          if 1 < glob_count then Err (PatternUnsupported spec)
          else
            and_then
              (if glob_count = 1 then
                 and_then (expect (find_byte bs spec STAR)) (\<lambda>glob_pos.
                   if glob_pos < length spec then
                     and_then (map_err ReferenceName (ref_name_partial bs (spec[glob_pos := 0x61]))) (\<lambda>_. Ok ())
                   else Panic)
               else
                 (case ref_name_partial bs spec of
                    Ok _ \<Rightarrow> Ok ()
                  | Panic \<Rightarrow> Panic
                  | Err err \<Rightarrow> if allow_revspecs then map_err RevSpec (revspec spec) else Err (ReferenceName err)))
              (\<lambda>_. Ok (Some spec, glob_count = 1)))"

text \<open>The leading byte gives the mode; it is not looked at for an empty specification.\<close>

definition parse_mode :: "bytes \<Rightarrow> operation \<Rightarrow> (spec_mode \<times> bytes, 'r refspec_error) outcome" where
  "parse_mode spec op =
     (if hd spec = CARET then if op = OpPush then Err NegativeUnsupported else Ok (Negative, tl spec)
      else if hd spec = PLUS then Ok (Force, tl spec)
      else Ok (Normal, spec))"

definition not_empty :: "bytes \<Rightarrow> bytes option" where
  "not_empty s = (if s = [] then None else Some s)"

definition parse_sides ::
  "bytes \<Rightarrow> nat \<Rightarrow> operation \<Rightarrow> (bytes option \<times> bytes option, 'r refspec_error) outcome" where
  "parse_sides spec pos op =
     and_then (expect (get_range spec 0 pos)) (\<lambda>src.
     and_then (expect (get_range spec (pos + 1) (length spec))) (\<lambda>dst.
       (case (not_empty src, not_empty dst) of
          (None, None) \<Rightarrow> (case op of OpPush \<Rightarrow> Ok (None, None) | OpFetch \<Rightarrow> Ok (Some HEAD, None))
        | (None, Some dst) \<Rightarrow> (case op of OpPush \<Rightarrow> Ok (None, Some dst) | OpFetch \<Rightarrow> Ok (Some HEAD, Some dst))
        | (Some src, None) \<Rightarrow> (case op of OpPush \<Rightarrow> Err PushToEmpty | OpFetch \<Rightarrow> Ok (Some src, None))
        | (Some src, Some dst) \<Rightarrow> Ok (Some src, Some dst))))"

definition check_negative :: "bytes option \<Rightarrow> bool \<Rightarrow> (unit, 'r refspec_error) outcome" where
  "check_negative src src_had_pattern =
     (case src of
        Some spec \<Rightarrow>
          if src_had_pattern then Err NegativeGlobPattern
          else if looks_like_object_hash spec then Err NegativeObjectHash
          else if \<not> prefix (lit ''refs/'') spec \<and> spec \<noteq> HEAD then Err NegativePartialName
          else Ok ()
      | None \<Rightarrow> Err NegativeEmpty)"

text \<open>From the two sides to the specification: the shortcut \<^verbatim>\<open>@\<close>, validation and the checks that depend on the mode.\<close>

definition parse_finish ::
  "bstr \<Rightarrow> (bytes \<Rightarrow> (unit, 'r) outcome) \<Rightarrow> spec_mode \<Rightarrow> operation \<Rightarrow> bytes option \<Rightarrow> bytes option \<Rightarrow>
   (refspec, 'r refspec_error) outcome" where
  "parse_finish bs revspec mode op src dst =
     (let src = (if src = Some (lit ''@'') then Some HEAD else src) in
      and_then (validated_side bs revspec src (op = OpPush \<and> dst \<noteq> None)) (\<lambda>(src, src_had_pattern).
      and_then (validated_side bs revspec dst False) (\<lambda>(dst, dst_had_pattern).
        if mode \<noteq> Negative \<and> src_had_pattern \<noteq> dst_had_pattern then Err PatternUnbalanced
        else
          and_then (if mode = Negative then check_negative src src_had_pattern else Ok ()) (\<lambda>_.
            Ok \<lparr>rs_mode = mode, rs_op = op, rs_src = src, rs_dst = dst\<rparr>))))"

definition refspec_parse ::
  "bstr \<Rightarrow> (bytes \<Rightarrow> (unit, 'r) outcome) \<Rightarrow> bytes \<Rightarrow> operation \<Rightarrow> (refspec, 'r refspec_error) outcome" where
  "refspec_parse bs revspec spec op =
     (if spec = [] then (case op of OpPush \<Rightarrow> Err RSEmpty | OpFetch \<Rightarrow> Ok (fetch_head_only Normal))
      else
        and_then (parse_mode spec op) (\<lambda>(mode, spec).
          case find_byte bs spec COLON of
            Some pos \<Rightarrow>
              if mode = Negative then Err NegativeWithDestination
              else and_then (parse_sides spec pos op) (\<lambda>(src, dst). parse_finish bs revspec mode op src dst)
          | None \<Rightarrow>
              let src = not_empty spec in
              if op = OpFetch \<and> mode \<noteq> Negative \<and> src = None then Ok (fetch_head_only mode)
              else parse_finish bs revspec mode op src None))"

section \<open>The sides of a specification and their prefixes\<close>

definition rs_remote :: "refspec \<Rightarrow> bytes option" where
  "rs_remote r = (case rs_op r of OpPush \<Rightarrow> rs_dst r | OpFetch \<Rightarrow> rs_src r)"

definition rs_local :: "refspec \<Rightarrow> bytes option" where
  "rs_local r = (case rs_op r of OpPush \<Rightarrow> rs_src r | OpFetch \<Rightarrow> rs_dst r)"

definition strip_refs :: "bytes \<Rightarrow> bytes option" where
  "strip_refs s = (if prefix (lit ''refs/'') s then Some (drop 5 s) else None)"

definition rs_prefix :: "bstr \<Rightarrow> refspec \<Rightarrow> bytes option or_panic" where
  "rs_prefix bs r =
     (if rs_mode r = Negative then Some None
      else case (case rs_op r of OpFetch \<Rightarrow> rs_src r | OpPush \<Rightarrow> rs_dst r) of
        None \<Rightarrow> Some None
      | Some source \<Rightarrow>
          if source = HEAD then Some (Some source)
          else case strip_refs source of
            None \<Rightarrow> Some None
          | Some suf \<Rightarrow>
              (case find_byte bs suf SLASH of
                 None \<Rightarrow> Some None
               | Some slash_pos \<Rightarrow>
                   map_option (\<lambda>p. if STAR \<in> set p then None else Some p) (get_range source 0 (5 + slash_pos + 1))))"

text \<open>\<^verbatim>\<open>expand_partial_name()\<close> hands the names to a callback until it returns a value.\<close>

definition expanded_names :: "bytes \<Rightarrow> bytes list" where
  "expanded_names name =
     [name, lit ''refs/'' @ name, lit ''refs/tags/'' @ name, lit ''refs/heads/'' @ name, lit ''refs/remotes/'' @ name,
      lit ''refs/remotes/'' @ name @ lit ''/HEAD'']"

fun first_some :: "('a \<Rightarrow> 'b option) \<Rightarrow> 'a list \<Rightarrow> 'b option" where
  "first_some cb [] = None"
| "first_some cb (x # xs) = (case cb x of Some res \<Rightarrow> Some res | None \<Rightarrow> first_some cb xs)"

definition expand_partial_name :: "bytes \<Rightarrow> (bytes \<Rightarrow> 'b option) \<Rightarrow> 'b option" where
  "expand_partial_name name cb = first_some cb (expanded_names name)"

definition expand_prefixes :: "bstr \<Rightarrow> faster_hex \<Rightarrow> refspec \<Rightarrow> bytes list \<Rightarrow> bytes list or_panic" where
  "expand_prefixes bs fh r out =
     Option.bind (rs_prefix bs r) (\<lambda>p.
       case p of
         Some pre \<Rightarrow> Some (out @ [pre])
       | None \<Rightarrow>
           (case (case rs_op r of OpFetch \<Rightarrow> rs_src r | OpPush \<Rightarrow> rs_dst r) of
              None \<Rightarrow> Some out
            | Some source \<Rightarrow>
                (case strip_refs source of
                   Some rest \<Rightarrow> Some (if SLASH \<notin> set rest then out @ [source] else out)
                 | None \<Rightarrow>
                     (case object_id_from_hex fh source of
                        Panic \<Rightarrow> None
                      | Ok _ \<Rightarrow> Some out
                      | Err _ \<Rightarrow> Some (out @ expanded_names source)))))"

section \<open>What is accepted\<close>

text \<open>A name in which one star may stand for a byte.\<close>

definition valid_pattern :: "bytes \<Rightarrow> bool" where
  "valid_pattern s \<longleftrightarrow> length (filter (\<lambda>b. b = STAR) s) \<le> 1 \<and> valid_name (map (\<lambda>b. if b = STAR then 0x61 else b) s)"

definition side_ok :: "(bytes \<Rightarrow> (unit, 'r) outcome) \<Rightarrow> bool \<Rightarrow> bytes \<Rightarrow> bool" where
  "side_ok revspec allow s \<longleftrightarrow> valid_pattern s \<or> allow \<and> STAR \<notin> set s \<and> revspec s = Ok ()"

definition has_star :: "bytes option \<Rightarrow> bool" where
  "has_star side \<longleftrightarrow> (case side of Some s \<Rightarrow> STAR \<in> set s | None \<Rightarrow> False)"

definition wf_source :: "(bytes \<Rightarrow> (unit, 'r) outcome) \<Rightarrow> refspec \<Rightarrow> bytes \<Rightarrow> bool" where
  "wf_source revspec r s \<longleftrightarrow> s \<noteq> [] \<and> COLON \<notin> set s \<and> s \<noteq> lit ''@'' \<and>
     side_ok revspec (rs_op r = OpPush \<and> rs_dst r \<noteq> None) s \<and> (rs_mode r = Normal \<longrightarrow> hd s \<noteq> PLUS \<and> hd s \<noteq> CARET)"

definition wf_refspec :: "(bytes \<Rightarrow> (unit, 'r) outcome) \<Rightarrow> refspec \<Rightarrow> bool" where
  "wf_refspec revspec r \<longleftrightarrow>
     pred_option (wf_source revspec r) (rs_src r) \<and> pred_option valid_pattern (rs_dst r) \<and>
     (if rs_mode r = Negative then
        rs_op r = OpFetch \<and> rs_dst r = None \<and>
        (\<exists>s. rs_src r = Some s \<and> STAR \<notin> set s \<and> (prefix (lit ''refs/'') s \<or> s = HEAD))
      else (rs_op r = OpFetch \<longrightarrow> rs_src r \<noteq> None) \<and> has_star (rs_src r) = has_star (rs_dst r))"

lemma valid_pattern_plain: "STAR \<notin> set s \<Longrightarrow> valid_pattern s \<longleftrightarrow> valid_name s"
proof -
  assume "STAR \<notin> set s"
  then have "map (\<lambda>b. if b = STAR then 0x61 else b) s = s" "filter (\<lambda>b. b = STAR) s = []"
    by (auto intro: map_idI simp: filter_empty_conv)
  then show ?thesis by (simp add: valid_pattern_def)
qed

lemma valid_pattern_bytes:
  assumes "valid_pattern s"
  shows "s \<noteq> []" "COLON \<notin> set s" "CARET \<notin> set s"
proof -
  have v: "valid_name (map (\<lambda>b. if b = STAR then 0x61 else b) s)" using assms by (simp add: valid_pattern_def)
  then show "s \<noteq> []" by (auto simp: valid_name_def)
  have "\<forall>b\<in>set s. ok_byte (if b = STAR then 0x61 else b)" using v by (simp add: valid_name_def list_all_iff)
  moreover have "\<not> ok_byte COLON" "\<not> ok_byte CARET" by (simp_all add: ok_byte_def is_invalid_byte_def)
  ultimately show "COLON \<notin> set s" "CARET \<notin> set s" by force+
qed

lemma valid_names_known: "valid_name HEAD" "valid_pattern HEAD" "STAR \<notin> set HEAD" "HEAD \<noteq> lit ''@''" "HEAD \<noteq> []"
  "COLON \<notin> set HEAD" "hd HEAD \<noteq> PLUS" "hd HEAD \<noteq> CARET"
  by code_simp+

lemma one_star_update:
  assumes "position (\<lambda>c. c = STAR) s = Some i" "length (filter (\<lambda>b. b = STAR) s) \<le> 1"
  shows "s[i := 0x61] = map (\<lambda>b. if b = STAR then 0x61 else b) s"
proof -
  obtain xs zs where s: "s = xs @ STAR # zs" "length xs = i" "\<forall>x\<in>set xs. x \<noteq> STAR"
    using assms(1) by (auto simp: position_split)
  then have "STAR \<notin> set zs" using assms(2) by (auto simp: filter_empty_conv)
  then have "map (\<lambda>b. if b = STAR then 0x61 else b) zs = zs" by (auto intro!: map_idI)
  moreover have "map (\<lambda>b. if b = STAR then 0x61 else b) xs = xs" using s(3) by (auto intro!: map_idI)
  ultimately show ?thesis using s(1,2) by auto
qed

lemma star_count: "length (filter (\<lambda>b. b = STAR) s) = 0 \<longleftrightarrow> STAR \<notin> set s"
  by (auto simp: filter_empty_conv)

context bstr_spec
begin

lemma name_partial_valid: "ref_name_partial bs n = Ok m \<longleftrightarrow> valid_name n \<and> m = n"
  "ref_name_partial bs n \<noteq> Panic" "ref_name_partial bs n = Err e \<Longrightarrow> \<not> valid_name n"
  using name_inner_Validate [of n]
  by (cases "valid_name n"; auto simp: ref_name_partial_def ref_validate_def)+

lemma validated_side_Ok:
  "validated_side bs revspec side allow = Ok r \<longleftrightarrow>
     r = (side, has_star side) \<and> pred_option (side_ok revspec allow) side"
proof (cases side)
  case (Some s)
  let ?n = "length (filter (\<lambda>b. b = STAR) s)"
  have c: "length (take 2 (filter (\<lambda>b. b = STAR) s)) = min 2 ?n" by simp
  show ?thesis
  proof (cases "?n \<le> 1")
    case True
    show ?thesis
    proof (cases "?n = 0")
      case True
      then have ns: "STAR \<notin> set s" using star_count by blast
      then have "valid_pattern s \<longleftrightarrow> valid_name s" by (rule valid_pattern_plain)
      then show ?thesis
        using Some True ns name_partial_valid(1) [of s] name_partial_valid(2) [of s] name_partial_valid(3) [of s]
        by (cases "ref_name_partial bs s")
          (auto simp: validated_side_def has_star_def side_ok_def and_then_Ok_iff map_err_Ok_iff c Let_def)
    next
      case False
      then have st: "STAR \<in> set s" and n: "?n = 1" using True star_count [of s] by (blast, linarith)
      from st have "position (\<lambda>c. c = STAR) s \<noteq> None" by simp
      then obtain i where i: "position (\<lambda>c. c = STAR) s = Some i" by blast
      define m where "m = map (\<lambda>b. if b = STAR then 0x61 else b) s"
      have "i < length s" using i by (rule position_SomeD)
      moreover have "s[i := 0x61] = m" unfolding m_def by (rule one_star_update [OF i True])
      moreover have "find_byte bs s STAR = Some i" using i by (simp add: find_byte)
      ultimately have v: "validated_side bs revspec side allow =
          and_then (map_err ReferenceName (ref_name_partial bs m)) (\<lambda>_. Ok (Some s, True))"
        unfolding validated_side_def Some using n by (simp add: Let_def and_then_assoc)
      have "valid_pattern s \<longleftrightarrow> valid_name m" using True by (simp add: valid_pattern_def m_def)
      then show ?thesis
        unfolding v and_then_Ok_iff map_err_Ok_iff name_partial_valid using Some st by (auto simp: has_star_def side_ok_def)
    qed
  next
    case False
    then have "STAR \<in> set s" using star_count [of s] by auto
    then show ?thesis using Some False by (auto simp: validated_side_def c side_ok_def valid_pattern_def Let_def)
  qed
qed (auto simp: validated_side_def has_star_def)

lemma parse_finish_Ok:
  "parse_finish bs revspec mode op src dst = Ok r \<longleftrightarrow>
     (let src = (if src = Some (lit ''@'') then Some HEAD else src) in
      r = \<lparr>rs_mode = mode, rs_op = op, rs_src = src, rs_dst = dst\<rparr> \<and>
      pred_option (side_ok revspec (op = OpPush \<and> dst \<noteq> None)) src \<and> pred_option valid_pattern dst \<and>
      (if mode = Negative then check_negative src (has_star src) = (Ok () :: (unit, 'r refspec_error) outcome) else has_star src = has_star dst))"
  for revspec :: "bytes \<Rightarrow> (unit, 'r) outcome"
proof -
  have "side_ok revspec False = valid_pattern" by (auto simp: side_ok_def)
  then show ?thesis
    by (auto simp: parse_finish_def and_then_Ok_iff validated_side_Ok Let_def split: if_splits)
qed

end

lemma hd_in_valid: "valid_pattern s \<Longrightarrow> hd s \<noteq> CARET"
  using valid_pattern_bytes [of s] hd_in_set [of s] by metis

lemma refs_no_hash: "prefix (lit ''refs/'') s \<or> s = HEAD \<Longrightarrow> \<not> looks_like_object_hash s"
proof -
  have "nibble_of 0x72 = None" "length HEAD = 4" by code_simp+
  then show "prefix (lit ''refs/'') s \<or> s = HEAD \<Longrightarrow> \<not> looks_like_object_hash s"
    by (auto simp: looks_like_object_hash_def gix_simps kind_shortest_def prefix_def)
qed

lemma check_negative_Ok:
  "check_negative src (has_star src) = Ok () \<longleftrightarrow>
     (\<exists>s. src = Some s \<and> STAR \<notin> set s \<and> (prefix (lit ''refs/'') s \<or> s = HEAD))"
  using refs_no_hash by (cases src) (auto simp: check_negative_def has_star_def)

lemma at_name: "valid_pattern (lit ''@'')" "hd (lit ''@'') \<noteq> PLUS"
  by code_simp+

lemma split_colon:
  assumes "position (\<lambda>c. c = COLON) spec = Some pos"
  obtains src dst where "spec = src @ COLON # dst" "length src = pos" "COLON \<notin> set src"
    "get_range spec 0 pos = Some src" "get_range spec (pos + 1) (length spec) = Some dst"
proof -
  obtain src dst where s: "spec = src @ COLON # dst" "length src = pos" "\<forall>x\<in>set src. x \<noteq> COLON"
    using assms by (auto simp: position_split)
  then have "get_range spec 0 pos = Some src" "get_range spec (pos + 1) (length spec) = Some dst"
    by (auto simp: get_range_def)
  with s show thesis using that by blast
qed

context bstr_spec
begin

text \<open>What the last step returns is well-formed when the source is free of colons and of the mode prefix.\<close>

lemma parse_finish_wf:
  assumes "parse_finish bs revspec mode op src dst = Ok r"
    and "pred_option (\<lambda>s. s \<noteq> [] \<and> COLON \<notin> set s \<and> (mode = Normal \<longrightarrow> hd s \<noteq> PLUS \<and> hd s \<noteq> CARET)) src"
    and "mode = Negative \<longrightarrow> op = OpFetch \<and> dst = None" and "op = OpFetch \<longrightarrow> mode = Negative \<or> src \<noteq> None"
  shows "wf_refspec revspec r"
  using assms valid_names_known
  by (auto simp: parse_finish_Ok Let_def wf_refspec_def wf_source_def check_negative_Ok pred_option_def split: if_splits)

end

lemma not_empty_simps [simp]: "not_empty [] = None" "s \<noteq> [] \<Longrightarrow> not_empty s = Some s"
  by (simp_all add: not_empty_def)

lemma wf_fetch_head_only: "mode \<noteq> Negative \<Longrightarrow> wf_refspec revspec (fetch_head_only mode)"
  using valid_names_known
  by (simp add: wf_refspec_def wf_source_def fetch_head_only_def side_ok_def has_star_def)

lemma wf_instruction:
  "wf_refspec revspec r \<Longrightarrow> \<exists>i. rs_instruction r = Some i \<and> instruction_operation i = rs_op r"
  by (auto simp: wf_refspec_def rs_instruction_def instruction_operation_def split: operation.splits option.splits if_splits)

context bstr_spec
begin

lemma find_colon: "COLON \<notin> set src \<Longrightarrow> find_byte bs (src @ COLON # dst) COLON = Some (length src)"
  by (auto simp: find_byte position_split)

lemma find_no_colon: "COLON \<notin> set src \<Longrightarrow> find_byte bs src COLON = None"
  by (simp add: find_byte_None)

lemma parse_sides_split:
  "parse_sides (src @ COLON # dst) (length src) op =
     (case (not_empty src, not_empty dst) of
          (None, None) \<Rightarrow> (case op of OpPush \<Rightarrow> Ok (None, None) | OpFetch \<Rightarrow> Ok (Some HEAD, None))
        | (None, Some dst) \<Rightarrow> (case op of OpPush \<Rightarrow> Ok (None, Some dst) | OpFetch \<Rightarrow> Ok (Some HEAD, Some dst))
        | (Some src, None) \<Rightarrow> (case op of OpPush \<Rightarrow> Err PushToEmpty | OpFetch \<Rightarrow> Ok (Some src, None))
        | (Some src, Some dst) \<Rightarrow> Ok (Some src, Some dst))"
proof -
  have "get_range (src @ COLON # dst) 0 (length src) = Some src"
    "get_range (src @ COLON # dst) (length src + 1) (length (src @ COLON # dst)) = Some dst"
    by (simp_all add: get_range_def)
  then show ?thesis by (simp add: parse_sides_def)
qed

lemma parse_mode_wf:
  assumes "spec \<noteq> []" "parse_mode spec op = Ok (mode, rest)"
  shows "mode = Negative \<longrightarrow> op = OpFetch"
    "mode = Normal \<longrightarrow> rest = spec \<and> hd spec \<noteq> PLUS \<and> hd spec \<noteq> CARET"
  using assms by (cases op; auto simp: parse_mode_def split: if_splits)+

lemma refspec_parse_wf:
  fixes revspec :: "bytes \<Rightarrow> (unit, 'r) outcome"
  assumes "refspec_parse bs revspec spec op = Ok r"
  shows "wf_refspec revspec r \<and> rs_op r = op"
proof (cases "spec = []")
  case True
  then show ?thesis using assms wf_fetch_head_only by (auto simp: refspec_parse_def fetch_head_only_def split: operation.splits)
next
  case False
  then obtain mode rest where m: "(parse_mode spec op :: (_, 'r refspec_error) outcome) = Ok (mode, rest)"
    using assms by (auto simp: refspec_parse_def and_then_Ok_iff)
  note pm = parse_mode_wf [OF False m]
  show ?thesis
  proof (cases "find_byte bs rest COLON")
    case None
    then have nc: "COLON \<notin> set rest" by (simp add: find_byte_None)
    show ?thesis
    proof (cases "op = OpFetch \<and> mode \<noteq> Negative \<and> rest = []")
      case True
      then show ?thesis using assms False m None wf_fetch_head_only by (auto simp: refspec_parse_def fetch_head_only_def)
    next
      case no: False
      then have f: "parse_finish bs revspec mode op (not_empty rest) None = Ok r"
        using assms False m None by (auto simp: refspec_parse_def not_empty_def)
      then have "wf_refspec revspec r" by (rule parse_finish_wf) (use no nc pm in \<open>auto simp: not_empty_def\<close>)
      then show ?thesis using f by (auto simp: parse_finish_Ok Let_def)
    qed
  next
    case (Some pos)
    then obtain src dst where s: "rest = src @ COLON # dst" "length src = pos" "COLON \<notin> set src"
      by (auto simp: find_byte elim!: split_colon)
    have nn: "mode \<noteq> Negative" using assms False m Some by (auto simp: refspec_parse_def)
    then obtain a b where p: "(parse_sides rest pos op :: (_, 'r refspec_error) outcome) = Ok (a, b)" "parse_finish bs revspec mode op a b = Ok r"
      using assms False m Some by (auto simp: refspec_parse_def and_then_Ok_iff)
    have a: "a = not_empty src \<and> (op = OpFetch \<longrightarrow> a \<noteq> None) \<or> a = Some HEAD"
      using p(1) unfolding s(1) s(2) [symmetric] parse_sides_split
      by (auto simp: not_empty_def split: if_splits operation.splits)
    have "wf_refspec revspec r"
      by (rule parse_finish_wf [OF p(2)]) (use a nn s pm valid_names_known in \<open>auto simp: not_empty_def split: if_splits\<close>)
    then show ?thesis using p(2) by (auto simp: parse_finish_Ok Let_def)
  qed
qed

end

section \<open>Printing and parsing\<close>

text \<open>A source that starts with a plus sign can only be kept when the sign of the mode stands before it.\<close>

definition ambiguous_plus :: "refspec \<Rightarrow> bool" where
  "ambiguous_plus r \<longleftrightarrow> rs_op r = OpFetch \<and> rs_mode r = Force \<and> rs_dst r = None \<and> (\<exists>s. rs_src r = Some (PLUS # s))"

context bstr_spec
begin

lemma parse_colon:
  assumes "COLON \<notin> set src" and "force \<or> src \<noteq> [] \<longrightarrow> force \<or> hd src \<noteq> PLUS \<and> hd src \<noteq> CARET"
  shows "refspec_parse bs revspec (plus_if force @ src @ [COLON] @ dst) op =
    and_then (parse_sides (src @ COLON # dst) (length src) op)
      (\<lambda>(src, dst). parse_finish bs revspec (if force then Force else Normal) op src dst)"
proof (cases force)
  case True
  then show ?thesis using find_colon [OF assms(1), of dst] by (simp add: refspec_parse_def parse_mode_def plus_if_def)
next
  case False
  then have "hd (src @ COLON # dst) \<noteq> PLUS" "hd (src @ COLON # dst) \<noteq> CARET" using assms(2) by (cases src; simp)+
  then show ?thesis using False find_colon [OF assms(1), of dst] by (simp add: refspec_parse_def parse_mode_def plus_if_def)
qed

lemma parse_plain:
  assumes "COLON \<notin> set src" "src \<noteq> []" "hd src \<noteq> PLUS" "hd src \<noteq> CARET"
  shows "refspec_parse bs revspec src op = parse_finish bs revspec Normal op (Some src) None"
  using assms find_no_colon [OF assms(1)] by (simp add: refspec_parse_def parse_mode_def)

lemma parse_negative:
  assumes "COLON \<notin> set src" "src \<noteq> []"
  shows "refspec_parse bs revspec (CARET # src) OpFetch = parse_finish bs revspec Negative OpFetch (Some src) None"
  using assms find_no_colon [OF assms(1)] by (simp add: refspec_parse_def parse_mode_def)

lemma finish_ok:
  assumes "mode \<noteq> Negative" "src \<noteq> Some (lit ''@'')" "has_star src = has_star dst"
    and "pred_option (side_ok revspec (op = OpPush \<and> dst \<noteq> None)) src" "pred_option valid_pattern dst"
  shows "parse_finish bs revspec mode op src dst = Ok \<lparr>rs_mode = mode, rs_op = op, rs_src = src, rs_dst = dst\<rparr>"
  unfolding parse_finish_Ok using assms by (simp add: Let_def)

lemma roundtrip_both_sides:
  assumes wf: "wf_refspec revspec r" and n: "rs_mode r \<noteq> Negative" and d: "rs_dst r = Some dst" "rs_src r = Some src"
  shows "refspec_parse bs revspec (plus_if (rs_mode r = Force) @ src @ [COLON] @ dst) (rs_op r) = Ok r"
proof -
  have s: "wf_source revspec r src" "valid_pattern dst" "has_star (Some src) = has_star (Some dst)"
    using wf n d by (simp_all add: wf_refspec_def)
  then have c: "COLON \<notin> set src" "src \<noteq> []" "dst \<noteq> []" and h: "rs_mode r = Force \<or> hd src \<noteq> PLUS \<and> hd src \<noteq> CARET"
    using valid_pattern_bytes n by (cases "rs_mode r"; auto simp: wf_source_def)+
  have "parse_finish bs revspec (rs_mode r) (rs_op r) (Some src) (Some dst) = Ok r"
    using finish_ok [of "rs_mode r" "Some src" "Some dst" revspec "rs_op r"] n s d by (simp add: wf_source_def)
  moreover have "(if rs_mode r = Force then Force else Normal) = rs_mode r" using n by (cases "rs_mode r") auto
  moreover have "rs_mode r = Force \<or> src \<noteq> [] \<longrightarrow> rs_mode r = Force \<or> hd src \<noteq> PLUS \<and> hd src \<noteq> CARET" using h by blast
  from parse_colon [OF c(1) this]
  have "refspec_parse bs revspec (plus_if (rs_mode r = Force) @ src @ [COLON] @ dst) (rs_op r) =
    and_then (parse_sides (src @ COLON # dst) (length src) (rs_op r))
      (\<lambda>(src, dst). parse_finish bs revspec (if rs_mode r = Force then Force else Normal) (rs_op r) src dst)" .
  ultimately show ?thesis unfolding parse_sides_split using c by simp
qed

lemma roundtrip_source_only:
  assumes wf: "wf_refspec revspec r" and n: "rs_mode r \<noteq> Negative" and d: "rs_dst r = None" "rs_src r = Some src"
  shows "rs_op r = OpFetch \<Longrightarrow> \<not> ambiguous_plus r \<Longrightarrow>
      refspec_parse bs revspec src OpFetch = Ok (r\<lparr>rs_mode := Normal\<rparr>)"
    and "rs_op r = OpPush \<Longrightarrow>
      refspec_parse bs revspec (plus_if (rs_mode r = Force) @ src @ [COLON] @ src) OpPush = Ok (r\<lparr>rs_dst := Some src\<rparr>)"
proof -
  have s: "wf_source revspec r src" "has_star (Some src) = has_star None" using wf n d by (simp_all add: wf_refspec_def)
  then have v: "valid_pattern src" using d by (simp add: wf_source_def side_ok_def)
  show "refspec_parse bs revspec src OpFetch = Ok (r\<lparr>rs_mode := Normal\<rparr>)" if op: "rs_op r = OpFetch" "\<not> ambiguous_plus r"
  proof -
    have "src \<noteq> []" using s by (simp add: wf_source_def)
    then have "hd src \<noteq> PLUS" using op s n d by (cases "rs_mode r"; cases src) (auto simp: wf_source_def ambiguous_plus_def)
    then have "refspec_parse bs revspec src OpFetch = parse_finish bs revspec Normal OpFetch (Some src) None"
      using s hd_in_valid [OF v] by (intro parse_plain) (auto simp: wf_source_def)
    then show ?thesis
      using finish_ok [of Normal "Some src" None revspec OpFetch] s op d v by (simp add: wf_source_def side_ok_def)
  qed
  show "refspec_parse bs revspec (plus_if (rs_mode r = Force) @ src @ [COLON] @ src) OpPush = Ok (r\<lparr>rs_dst := Some src\<rparr>)"
    if op: "rs_op r = OpPush"
  proof -
    have "wf_refspec revspec (r\<lparr>rs_dst := Some src\<rparr>)"
      using s v n d op by (simp add: wf_refspec_def wf_source_def side_ok_def)
    from roundtrip_both_sides [OF this, of src src] show ?thesis using n d op by simp
  qed
qed

lemma roundtrip_no_source:
  assumes wf: "wf_refspec revspec r" and n: "rs_mode r \<noteq> Negative" and d: "rs_src r = None"
  shows "rs_op r = OpPush"
    and "rs_dst r = Some dst \<Longrightarrow> refspec_parse bs revspec ([COLON] @ dst) OpPush = Ok (r\<lparr>rs_mode := Normal\<rparr>)"
    and "rs_dst r = None \<Longrightarrow> refspec_parse bs revspec (plus_if (rs_mode r = Force) @ [COLON]) OpPush = Ok r"
proof -
  show op: "rs_op r = OpPush" using wf n d by (cases "rs_op r") (auto simp: wf_refspec_def)
  have st: "has_star None = has_star (rs_dst r)" using wf n d by (simp add: wf_refspec_def)
  show "refspec_parse bs revspec ([COLON] @ dst) OpPush = Ok (r\<lparr>rs_mode := Normal\<rparr>)" if "rs_dst r = Some dst"
  proof -
    have v: "valid_pattern dst" using wf that by (simp add: wf_refspec_def)
    then have "parse_finish bs revspec Normal OpPush None (Some dst) = Ok (r\<lparr>rs_mode := Normal\<rparr>)"
      using finish_ok [of Normal None "Some dst" revspec OpPush] op st that d by simp
    moreover have "refspec_parse bs revspec ([COLON] @ dst) OpPush =
      and_then (parse_sides ([] @ COLON # dst) (length ([] :: bytes)) OpPush)
        (\<lambda>(src, dst). parse_finish bs revspec Normal OpPush src dst)"
      using parse_colon [of "[]" False revspec dst OpPush] by (simp add: plus_if_def)
    ultimately show ?thesis unfolding parse_sides_split using valid_pattern_bytes [OF v] by simp
  qed
  show "refspec_parse bs revspec (plus_if (rs_mode r = Force) @ [COLON]) OpPush = Ok r" if "rs_dst r = None"
  proof -
    have "\<lparr>rs_mode = rs_mode r, rs_op = OpPush, rs_src = None, rs_dst = None\<rparr> = r" using op that d by (cases r) simp
    then have "parse_finish bs revspec (rs_mode r) OpPush None None = Ok r"
      using finish_ok [OF n, of None None revspec OpPush] by (simp only: option.pred_inject option.simps simp_thms)
    moreover have "(if rs_mode r = Force then Force else Normal) = rs_mode r" using n by (cases "rs_mode r") auto
    moreover have "refspec_parse bs revspec (plus_if (rs_mode r = Force) @ [COLON]) OpPush =
      and_then (parse_sides ([] @ COLON # []) (length ([] :: bytes)) OpPush)
        (\<lambda>(src, dst). parse_finish bs revspec (if rs_mode r = Force then Force else Normal) OpPush src dst)"
      using parse_colon [of "[]" "rs_mode r = Force" revspec "[]" OpPush] by simp
    ultimately show ?thesis unfolding parse_sides_split by simp
  qed
qed

lemma roundtrip_negative:
  assumes wf: "wf_refspec revspec r" and n: "rs_mode r = Negative" and d: "rs_src r = Some src"
  shows "refspec_parse bs revspec (CARET # src) OpFetch = Ok r"
proof -
  have s: "wf_source revspec r src" "rs_dst r = None" "rs_op r = OpFetch"
    and c: "check_negative (Some src) (has_star (Some src)) = (Ok () :: (unit, 'r refspec_error) outcome)"
    using wf n d by (simp_all add: wf_refspec_def check_negative_Ok)
  then have "refspec_parse bs revspec (CARET # src) OpFetch = parse_finish bs revspec Negative OpFetch (Some src) None"
    by (intro parse_negative) (auto simp: wf_source_def)
  moreover have "parse_finish bs revspec Negative OpFetch (Some src) None = Ok r"
    unfolding parse_finish_Ok using s n d c by (simp add: Let_def wf_source_def side_ok_def check_negative_Ok)
  ultimately show ?thesis by simp
qed

end

context bstr_spec
begin

lemma roundtrip:
  assumes wf: "wf_refspec revspec r" and "\<not> ambiguous_plus r"
  shows "\<exists>s r'. rs_to_bstring r = Some s \<and> refspec_parse bs revspec s (rs_op r) = Ok r' \<and>
    rs_instruction r' = rs_instruction r"
proof (cases "rs_mode r = Negative")
  case True
  then obtain src where s: "rs_src r = Some src" "rs_dst r = None" "rs_op r = OpFetch"
    using wf by (auto simp: wf_refspec_def)
  then have "rs_to_bstring r = Some (CARET # src)" using True by (simp add: rs_to_bstring_def rs_instruction_def)
  then show ?thesis using roundtrip_negative [OF wf True s(1)] s by simp
next
  case n: False
  show ?thesis
  proof (cases "rs_src r")
    case None
    note ns = roundtrip_no_source [OF wf n None]
    show ?thesis
    proof (cases "rs_dst r")
      case (Some dst)
      have "rs_to_bstring r = Some ([COLON] @ dst)" "rs_instruction (r\<lparr>rs_mode := Normal\<rparr>) = rs_instruction r"
        using n None Some ns(1) by (simp_all add: rs_to_bstring_def rs_instruction_def)
      then show ?thesis using ns(1) ns(2) [OF Some] by auto
    next
      case d: None
      have "rs_to_bstring r = Some (plus_if (rs_mode r = Force) @ [COLON])"
        using n None d ns(1) by (simp add: rs_to_bstring_def rs_instruction_def)
      then show ?thesis using ns(1) ns(3) [OF d] by auto
    qed
  next
    case src: (Some src)
    show ?thesis
    proof (cases "rs_dst r")
      case (Some dst)
      have "rs_to_bstring r = Some (plus_if (rs_mode r = Force) @ src @ [COLON] @ dst)"
        using n src Some by (cases "rs_op r") (simp_all add: rs_to_bstring_def rs_instruction_def)
      then show ?thesis using roundtrip_both_sides [OF wf n Some src] by auto
    next
      case None
      note so = roundtrip_source_only [OF wf n None src]
      show ?thesis
      proof (cases "rs_op r")
        case OpFetch
        then have "rs_to_bstring r = Some src" "rs_instruction (r\<lparr>rs_mode := Normal\<rparr>) = rs_instruction r"
          using n src None by (simp_all add: rs_to_bstring_def rs_instruction_def)
        then show ?thesis using so(1) [OF OpFetch assms(2)] OpFetch by auto
      next
        case OpPush
        then have "rs_to_bstring r = Some (plus_if (rs_mode r = Force) @ src @ [COLON] @ src)"
          "rs_instruction (r\<lparr>rs_dst := Some src\<rparr>) = rs_instruction r"
          using n src None by (simp_all add: rs_to_bstring_def rs_instruction_def)
        then show ?thesis using so(2) [OF OpPush] OpPush by auto
      qed
    qed
  qed
qed

text \<open>Printed without the sign of the mode, the sign of the source is taken for it.\<close>

lemma ambiguous_changes:
  assumes wf: "wf_refspec revspec r" and a: "ambiguous_plus r"
    and p: "rs_to_bstring r = Some t" "refspec_parse bs revspec t (rs_op r) = Ok r'"
  shows "rs_instruction r' \<noteq> rs_instruction r"
proof -
  obtain s where s: "rs_src r = Some (PLUS # s)" "rs_op r = OpFetch" "rs_mode r = Force" "rs_dst r = None"
    using a by (auto simp: ambiguous_plus_def)
  then have t: "t = PLUS # s" using p(1) by (simp add: rs_to_bstring_def rs_instruction_def)
  have "COLON \<notin> set s" using wf s(1) by (simp add: wf_refspec_def wf_source_def)
  then have "find_byte bs s COLON = None" by (rule find_no_colon)
  then have "rs_src r' = Some s \<or> rs_src r' = Some HEAD" "rs_mode r' = Force" "rs_op r' = OpFetch" "rs_dst r' = None"
    using p(2) s(2) unfolding t
    by (cases "s = []"; auto simp: refspec_parse_def parse_mode_def fetch_head_only_def parse_finish_Ok Let_def split: if_splits)+
  then have "rs_instruction r' = Some (IFetch (FetchOnly s)) \<or> rs_instruction r' = Some (IFetch (FetchOnly HEAD))"
    by (auto simp: rs_instruction_def)
  moreover have "rs_instruction r = Some (IFetch (FetchOnly (PLUS # s)))" using s by (simp add: rs_instruction_def)
  moreover have "HEAD \<noteq> PLUS # s" by (simp add: HEAD_def)
  ultimately show ?thesis by auto
qed

lemma validated_side_no_panic:
  assumes "\<And>s. revspec s \<noteq> Panic"
  shows "validated_side bs revspec side allow \<noteq> Panic"
proof (cases side)
  case (Some s)
  have "find_byte bs s STAR \<noteq> None \<and> the (find_byte bs s STAR) < length s" if "STAR \<in> set s"
    using that position_SomeD(1) [of "\<lambda>c. c = STAR" s] by (cases "find_byte bs s STAR") (auto simp: find_byte_None find_byte)
  moreover have "STAR \<in> set s" if "length (take 2 (filter (\<lambda>b. b = STAR) s)) = 1"
    using that star_count [of s] by auto
  ultimately show ?thesis
    using assms Some name_partial_valid(2)
    by (auto simp: validated_side_def Let_def and_then_Panic_iff map_err_Panic_iff expect_Panic_iff expect_Ok_iff
        split: outcome.splits if_splits)
qed (simp add: validated_side_def)

lemma parse_sides_no_panic: "find_byte bs s COLON = Some pos \<Longrightarrow> parse_sides s pos op \<noteq> Panic"
proof -
  assume "find_byte bs s COLON = Some pos"
  then obtain src dst where sd: "s = src @ COLON # dst" "pos = length src" by (auto simp: find_byte elim!: split_colon)
  show ?thesis unfolding sd parse_sides_split by (simp add: not_empty_def split: operation.split)
qed

lemma refspec_parse_no_panic:
  assumes "\<And>s. revspec s \<noteq> Panic"
  shows "refspec_parse bs revspec spec op \<noteq> Panic"
proof -
  have f: "parse_finish bs revspec mode op' src dst \<noteq> Panic" for mode op' src dst
    using validated_side_no_panic [OF assms]
    by (auto simp: parse_finish_def Let_def and_then_Panic_iff check_negative_def split: if_splits option.splits)
  show ?thesis
  proof (cases "spec = []")
    case False
    show ?thesis
      unfolding refspec_parse_def if_not_P [OF False] and_then_Panic_iff
      using f
      by (auto simp: parse_sides_no_panic parse_mode_def and_then_Panic_iff Let_def split: option.splits if_splits)
  qed (simp add: refspec_parse_def split: operation.split)
qed

end

section \<open>Properties\<close>

text \<open>
  C15: Parsing a specification never panics, and what it accepts is well-formed: both sides are names in which at most
  one star stands for a byte (or, for the source of a push with a destination, something the revision parser accepts), either both
  sides have a star or none, an exclusion names one full reference, and there is always an instruction, for
  the operation that was asked for, so the combinations declared unreachable are never met.
\<close>

theorem parsed_refspecs_are_well_formed:
  assumes "bstr_spec bs" and "\<And>s. revspec s \<noteq> Panic"
  shows "refspec_parse bs revspec spec op \<noteq> Panic \<and> (\<forall>r. refspec_parse bs revspec spec op = Ok r \<longrightarrow>
      wf_refspec revspec r \<and> (\<exists>i. rs_instruction r = Some i \<and> instruction_operation i = op))"
  using bstr_spec.refspec_parse_no_panic [OF assms(1), of revspec spec op, OF assms(2)]
    bstr_spec.refspec_parse_wf [OF assms(1), of revspec spec op] wf_instruction [of revspec] by blast

theorem parsed_refspecs_are_well_formed_witness:
  "refspec_parse reference_bstr (\<lambda>s. Ok () :: (unit, nat) outcome) (lit ''+refs/heads/*:refs/remotes/o/*'') OpFetch =
     Ok \<lparr>rs_mode = Force, rs_op = OpFetch, rs_src = Some (lit ''refs/heads/*''), rs_dst = Some (lit ''refs/remotes/o/*'')\<rparr> \<and>
   wf_refspec (\<lambda>s. Ok () :: (unit, nat) outcome)
     \<lparr>rs_mode = Force, rs_op = OpFetch, rs_src = Some (lit ''refs/heads/*''), rs_dst = Some (lit ''refs/remotes/o/*'')\<rparr>"
proof -
  have "refspec_parse reference_bstr (\<lambda>s. Ok () :: (unit, nat) outcome) (lit ''+refs/heads/*:refs/remotes/o/*'') OpFetch =
     Ok \<lparr>rs_mode = Force, rs_op = OpFetch, rs_src = Some (lit ''refs/heads/*''), rs_dst = Some (lit ''refs/remotes/o/*'')\<rparr>"
    by code_simp
  then show ?thesis
    using parsed_refspecs_are_well_formed [OF ref_bstr.bstr_spec_axioms, of "\<lambda>s. Ok () :: (unit, nat) outcome"
        "lit ''+refs/heads/*:refs/remotes/o/*''" OpFetch] by simp
qed

text \<open>
  C16: Printing an accepted specification and parsing the output gives a specification that is equal to it, as equality of
  specifications is defined, if and only if it is not a forced fetch without destination whose source
  begins with a plus sign: there the printed form, which has no sign for the mode, loses the sign of the name.
\<close>

theorem refspec_print_parse:
  assumes "bstr_spec bs" and "refspec_parse bs revspec spec op = Ok r"
  shows "(\<exists>s r'. rs_to_bstring r = Some s \<and> refspec_parse bs revspec s op = Ok r' \<and> refspec_eq r' r = Some True) \<longleftrightarrow>
    \<not> ambiguous_plus r"
proof -
  have wf: "wf_refspec revspec r" "rs_op r = op" using bstr_spec.refspec_parse_wf [OF assms] by simp_all
  obtain i where "rs_instruction r = Some i" using wf_instruction [OF wf(1)] by blast
  then have e: "refspec_eq r' r = Some True \<longleftrightarrow> rs_instruction r' = rs_instruction r" for r'
    by (auto simp: refspec_eq_def split: option.split)
  show ?thesis
    unfolding e using bstr_spec.roundtrip [OF assms(1) wf(1)] bstr_spec.ambiguous_changes [OF assms(1) wf(1)] wf(2) by blast
qed

theorem refspec_print_parse_witness:
  "(\<exists>s r'. rs_to_bstring \<lparr>rs_mode = Force, rs_op = OpPush, rs_src = Some HEAD, rs_dst = None\<rparr> = Some s \<and>
      refspec_parse reference_bstr (\<lambda>s. Ok () :: (unit, nat) outcome) s OpPush = Ok r' \<and>
      refspec_eq r' \<lparr>rs_mode = Force, rs_op = OpPush, rs_src = Some HEAD, rs_dst = None\<rparr> = Some True) \<and>
   \<not> (\<exists>s r'. rs_to_bstring \<lparr>rs_mode = Force, rs_op = OpFetch, rs_src = Some (lit ''+a''), rs_dst = None\<rparr> = Some s \<and>
      refspec_parse reference_bstr (\<lambda>s. Ok () :: (unit, nat) outcome) s OpFetch = Ok r' \<and>
      refspec_eq r' \<lparr>rs_mode = Force, rs_op = OpFetch, rs_src = Some (lit ''+a''), rs_dst = None\<rparr> = Some True)"
proof -
  have a: "refspec_parse reference_bstr (\<lambda>s. Ok () :: (unit, nat) outcome) (lit ''+@'') OpPush =
      Ok \<lparr>rs_mode = Force, rs_op = OpPush, rs_src = Some HEAD, rs_dst = None\<rparr>" by code_simp
  have b: "refspec_parse reference_bstr (\<lambda>s. Ok () :: (unit, nat) outcome) (lit ''++a'') OpFetch =
      Ok \<lparr>rs_mode = Force, rs_op = OpFetch, rs_src = Some (lit ''+a''), rs_dst = None\<rparr>" by code_simp
  have "\<not> ambiguous_plus \<lparr>rs_mode = Force, rs_op = OpPush, rs_src = Some HEAD, rs_dst = None\<rparr>"
    "ambiguous_plus \<lparr>rs_mode = Force, rs_op = OpFetch, rs_src = Some (lit ''+a''), rs_dst = None\<rparr>"
    by (simp_all add: ambiguous_plus_def)
  then show ?thesis
    using refspec_print_parse [OF ref_bstr.bstr_spec_axioms a] refspec_print_parse [OF ref_bstr.bstr_spec_axioms b] by blast
qed

end
