(* ===== verification/Gix_Refspec_Match.thy ===== *)
theory Gix_Refspec_Match
  imports Gix_Refspec
begin

text \<open>
  The crate \<^verbatim>\<open>gix-refspec\<close>, matching (\<^verbatim>\<open>match_group\<close>): the references of a remote are matched with the specifications of a
  fetch, which gives mappings from sources to destinations, and the mappings are checked for conflicts.  The hash by which
  duplicate mappings are recognized is an argument.  The lemmas show which mappings there are, when
  matching panics, what validation guarantees, and that the prefixes a server is asked for cover what is matched.
\<close>

section \<open>Items, mappings and needles\<close>

record ref_item =
  full_ref_name :: bytes
  item_target :: oid
  item_object :: "oid option"

datatype source_ref = FullName bytes | ObjectId object_id

record ref_mapping =
  mp_item_index :: "nat option"
  mp_lhs :: source_ref
  mp_rhs :: "bytes option"
  mp_spec_index :: nat

record match_outcome =
  mo_group :: "refspec list"
  mo_mappings :: "ref_mapping list"

definition from_fetch_specs :: "refspec list \<Rightarrow> refspec list" where
  "from_fetch_specs specs = filter (\<lambda>s. rs_op s = OpFetch) specs"

definition from_push_specs :: "refspec list \<Rightarrow> refspec list" where
  "from_push_specs specs = filter (\<lambda>s. rs_op s = OpPush) specs"

datatype needle = NFullName bytes | NPartialName bytes | NGlob bytes nat | NObject object_id

datatype needle_match = MNone | MNormal | GlobRange nat nat

record matcher =
  m_lhs :: "needle option"
  m_rhs :: "needle option"

definition needle_from :: "bstr \<Rightarrow> faster_hex \<Rightarrow> bytes \<Rightarrow> needle or_panic" where
  "needle_from bs fh v =
     (case find_byte bs v STAR of
        Some pos \<Rightarrow> Some (NGlob v pos)
      | None \<Rightarrow>
          if prefix (lit ''refs/'') v then Some (NFullName v)
          else (case object_id_from_hex fh v of
                  Ok i \<Rightarrow> Some (NObject i)
                | Err _ \<Rightarrow> Some (NPartialName v)
                | Panic \<Rightarrow> None))"

definition side_needle :: "bstr \<Rightarrow> faster_hex \<Rightarrow> bytes option \<Rightarrow> needle option or_panic" where
  "side_needle bs fh side = (case side of None \<Rightarrow> Some None | Some v \<Rightarrow> map_option Some (needle_from bs fh v))"

definition matcher_from :: "bstr \<Rightarrow> faster_hex \<Rightarrow> refspec \<Rightarrow> matcher or_panic" where
  "matcher_from bs fh r =
     Option.bind (side_needle bs fh (rs_src r)) (\<lambda>lhs.
     Option.bind (side_needle bs fh (rs_dst r)) (\<lambda>rhs. Some \<lparr>m_lhs = lhs, m_rhs = rhs\<rparr>))"

section \<open>Matching one item\<close>

definition is_match :: "needle_match \<Rightarrow> bool" where
  "is_match m \<longleftrightarrow> m \<noteq> MNone"

fun needle_matches :: "needle \<Rightarrow> ref_item \<Rightarrow> needle_match or_panic" where
  "needle_matches (NFullName name) item = Some (if name = full_ref_name item then MNormal else MNone)"
| "needle_matches (NPartialName name) item =
     Some (case expand_partial_name name (\<lambda>expanded. if expanded = full_ref_name item then Some MNormal else None) of
             Some m \<Rightarrow> m | None \<Rightarrow> MNone)"
| "needle_matches (NGlob name asterisk_pos) item =
     (case get_range (full_ref_name item) 0 asterisk_pos of
        None \<Rightarrow> Some MNone
      | Some full_name_portion \<Rightarrow>
          Option.bind (get_range name 0 asterisk_pos) (\<lambda>pre.
            if full_name_portion \<noteq> pre then Some MNone
            else Option.bind (get_range name (asterisk_pos + 1) (length name)) (\<lambda>tail.
              if \<not> suffix tail (full_ref_name item) then Some MNone
              else Some (GlobRange asterisk_pos (length (full_ref_name item) - length tail)))))"
| "needle_matches (NObject i) item =
     Some (if object_id_as_slice i = item_target item then MNormal
           else case item_object item of
             Some object \<Rightarrow> if object = object_id_as_slice i then MNormal else MNone
           | None \<Rightarrow> MNone)"

definition outcome_option :: "('a, unit) outcome \<Rightarrow> 'a option" where
  "outcome_option x = (case x of Ok y \<Rightarrow> Some y | _ \<Rightarrow> None)"

text \<open>\<^verbatim>\<open>to_bstr_replace\<close>; the argument has the range and the name of the item it belongs to.\<close>

fun to_bstr_replace :: "faster_hex \<Rightarrow> needle \<Rightarrow> (nat \<times> nat \<times> bytes) option \<Rightarrow> bytes or_panic" where
  "to_bstr_replace fh (NFullName name) None = Some name"
| "to_bstr_replace fh (NPartialName name) None =
     Some (lit ''refs/'' @
       (if \<not> (prefix (lit ''tags/'') name \<or> prefix (lit ''remotes/'') name) then lit ''heads/'' else []) @ name)"
| "to_bstr_replace fh (NGlob name asterisk_pos) (Some (a, b, item_name)) =
     Option.bind (get_range name 0 asterisk_pos) (\<lambda>pre.
     Option.bind (get_range item_name a b) (\<lambda>mid.
     Option.bind (get_range name (asterisk_pos + 1) (length name)) (\<lambda>tail. Some (pre @ mid @ tail))))"
| "to_bstr_replace fh (NObject i) None =
     map_option (\<lambda>h. lit ''refs/heads/'' @ h) (outcome_option (oid_to_hex fh (object_id_as_slice i)))"
| "to_bstr_replace fh (NGlob name asterisk_pos) None = None"
| "to_bstr_replace fh n (Some _) = None"

definition into_match_outcome :: "faster_hex \<Rightarrow> needle_match \<Rightarrow> needle \<Rightarrow> ref_item \<Rightarrow> (bool \<times> bytes option) or_panic" where
  "into_match_outcome fh m destination item =
     (case m of
        MNone \<Rightarrow> Some (False, None)
      | MNormal \<Rightarrow> map_option (\<lambda>d. (True, Some d)) (to_bstr_replace fh destination None)
      | GlobRange a b \<Rightarrow> map_option (\<lambda>d. (True, Some d)) (to_bstr_replace fh destination (Some (a, b, full_ref_name item))))"

definition matches_lhs :: "faster_hex \<Rightarrow> matcher \<Rightarrow> ref_item \<Rightarrow> (bool \<times> bytes option) or_panic" where
  "matches_lhs fh m item =
     (case (m_lhs m, m_rhs m) of
        (Some lhs, None) \<Rightarrow> map_option (\<lambda>r. (is_match r, None)) (needle_matches lhs item)
      | (Some lhs, Some rhs) \<Rightarrow> Option.bind (needle_matches lhs item) (\<lambda>r. into_match_outcome fh r rhs item)
      | (None, _) \<Rightarrow> Some (False, None))"

section \<open>Matching a group\<close>

type_synonym map_key = "source_ref \<times> bytes option"

definition mapping_key :: "ref_mapping \<Rightarrow> map_key" where
  "mapping_key m = (mp_lhs m, mp_rhs m)"

text \<open>\<^verbatim>\<open>push_unique\<close> on the hashes seen so far and the mappings.\<close>

type_synonym unique_state = "u64 list \<times> ref_mapping list"

definition push_unique :: "(map_key \<Rightarrow> u64) \<Rightarrow> unique_state \<Rightarrow> ref_mapping \<Rightarrow> unique_state" where
  "push_unique hash st m =
     (case st of (seen, out) \<Rightarrow>
        let h = hash (mapping_key m) in if h \<in> set seen then (seen, out) else (h # seen, out @ [m]))"

fun init_matchers ::
  "bstr \<Rightarrow> faster_hex \<Rightarrow> (map_key \<Rightarrow> u64) \<Rightarrow> nat \<Rightarrow> refspec list \<Rightarrow> unique_state \<Rightarrow> (matcher option list \<times> unique_state) or_panic" where
  "init_matchers bs fh hash idx [] st = Some ([], st)"
| "init_matchers bs fh hash idx (spec # specs) st =
     Option.bind (matcher_from bs fh spec) (\<lambda>m.
       case m_lhs m of
         Some (NObject i) \<Rightarrow>
           Option.bind (case m_rhs m of None \<Rightarrow> Some None | Some n \<Rightarrow> map_option Some (to_bstr_replace fh n None)) (\<lambda>rhs.
             map_option (\<lambda>(ms, st). (None # ms, st))
               (init_matchers bs fh hash (idx + 1) specs
                 (push_unique hash st \<lparr>mp_item_index = None, mp_lhs = ObjectId i, mp_rhs = rhs, mp_spec_index = idx\<rparr>)))
       | _ \<Rightarrow> map_option (\<lambda>(ms, st). (Some m # ms, st)) (init_matchers bs fh hash (idx + 1) specs st))"

fun match_items ::
  "faster_hex \<Rightarrow> (map_key \<Rightarrow> u64) \<Rightarrow> matcher option \<Rightarrow> nat \<Rightarrow> nat \<Rightarrow> ref_item list \<Rightarrow> unique_state \<Rightarrow> unique_state or_panic" where
  "match_items fh hash matcher spec_index item_index [] st = Some st"
| "match_items fh hash matcher spec_index item_index (item # items) st =
     (case matcher of
        None \<Rightarrow> match_items fh hash matcher spec_index (item_index + 1) items st
      | Some m \<Rightarrow>
          Option.bind (matches_lhs fh m item) (\<lambda>(matched, rhs).
            match_items fh hash matcher spec_index (item_index + 1) items
              (if matched then push_unique hash st
                 \<lparr>mp_item_index = Some item_index, mp_lhs = FullName (full_ref_name item), mp_rhs = rhs, mp_spec_index = spec_index\<rparr>
               else st)))"

fun match_specs ::
  "faster_hex \<Rightarrow> (map_key \<Rightarrow> u64) \<Rightarrow> nat \<Rightarrow> (refspec \<times> matcher option) list \<Rightarrow> ref_item list \<Rightarrow> bool \<Rightarrow> unique_state \<Rightarrow>
   (bool \<times> unique_state) or_panic" where
  "match_specs fh hash spec_index [] items has_negation st = Some (has_negation, st)"
| "match_specs fh hash spec_index ((spec, matcher) # rest) items has_negation st =
     (if rs_mode spec = Negative then match_specs fh hash (spec_index + 1) rest items True st
      else Option.bind (match_items fh hash matcher spec_index 0 items st) (\<lambda>st.
        match_specs fh hash (spec_index + 1) rest items has_negation st))"

text \<open>\<^verbatim>\<open>retain\<close> with one negative matcher, and with all of them in turn.\<close>

fun retain_unmatched :: "faster_hex \<Rightarrow> matcher \<Rightarrow> oid \<Rightarrow> ref_mapping list \<Rightarrow> ref_mapping list or_panic" where
  "retain_unmatched fh matcher null_id [] = Some []"
| "retain_unmatched fh matcher null_id (m # ms) =
     Option.bind
       (case mp_lhs m of
          ObjectId _ \<Rightarrow> Some True
        | FullName name \<Rightarrow>
            map_option (\<lambda>r. \<not> fst r)
              (matches_lhs fh matcher \<lparr>full_ref_name = name, item_target = null_id, item_object = None\<rparr>))
       (\<lambda>keep. map_option (\<lambda>ms. if keep then m # ms else ms) (retain_unmatched fh matcher null_id ms))"

fun retain_all :: "faster_hex \<Rightarrow> (matcher option \<times> refspec) list \<Rightarrow> oid \<Rightarrow> ref_mapping list \<Rightarrow> ref_mapping list or_panic" where
  "retain_all fh [] null_id out = Some out"
| "retain_all fh ((Some m, spec) # rest) null_id out =
     (if rs_mode spec = Negative
      then Option.bind (retain_unmatched fh m null_id out) (retain_all fh rest null_id)
      else retain_all fh rest null_id out)"
| "retain_all fh ((None, spec) # rest) null_id out = retain_all fh rest null_id out"

definition match_remotes ::
  "bstr \<Rightarrow> faster_hex \<Rightarrow> (map_key \<Rightarrow> u64) \<Rightarrow> refspec list \<Rightarrow> ref_item list \<Rightarrow> match_outcome or_panic" where
  "match_remotes bs fh hash specs items =
     Option.bind (init_matchers bs fh hash 0 specs ([], [])) (\<lambda>(matchers, st).
     Option.bind (match_specs fh hash 0 (zip specs matchers) items False st) (\<lambda>(has_negation, seen, out).
       map_option (\<lambda>out. \<lparr>mo_group = specs, mo_mappings = out\<rparr>)
         (case items of
            item # _ \<Rightarrow>
              if has_negation then
                Option.bind (outcome_option (oid_kind (item_target item))) (\<lambda>hash_kind.
                  retain_all fh (zip matchers specs) (object_id_as_slice (object_id_null hash_kind)) out)
              else Some out
          | [] \<Rightarrow> Some out)))"

section \<open>Validation of mappings\<close>

datatype ref_issue = Conflict bytes "source_ref list" "bytes list"

datatype ref_fix = MappingWithPartialDestinationRemoved bytes refspec

text \<open>The ordered map from destinations to their sources: \<^verbatim>\<open>entry(dst).or_insert_with(Vec::new)\<close> and the change of the entry.\<close>

fun btree_update :: "bytes \<Rightarrow> ('v list \<Rightarrow> 'v list) \<Rightarrow> (bytes \<times> 'v list) list \<Rightarrow> (bytes \<times> 'v list) list" where
  "btree_update k f [] = [(k, f [])]"
| "btree_update k f ((k', v) # rest) =
     (case cmp_slice k k' of
        Less \<Rightarrow> (k, f []) # (k', v) # rest
      | Equal \<Rightarrow> (k', f v) # rest
      | Greater \<Rightarrow> (k', v) # btree_update k f rest)"

definition add_source :: "nat \<times> source_ref \<Rightarrow> (nat \<times> source_ref) list \<Rightarrow> (nat \<times> source_ref) list" where
  "add_source entry sources = (if list_ex (\<lambda>(_, lhs). lhs = snd entry) sources then sources else sources @ [entry])"

fun sources_by_destinations ::
  "ref_mapping list \<Rightarrow> (bytes \<times> (nat \<times> source_ref) list) list \<Rightarrow> (bytes \<times> (nat \<times> source_ref) list) list" where
  "sources_by_destinations [] t = t"
| "sources_by_destinations (m # ms) t =
     sources_by_destinations ms
       (case mp_rhs m of Some dst \<Rightarrow> btree_update dst (add_source (mp_spec_index m, mp_lhs m)) t | None \<Rightarrow> t)"

definition conflict_issue :: "refspec list \<Rightarrow> bytes \<times> (nat \<times> source_ref) list \<Rightarrow> ref_issue or_panic" where
  "conflict_issue grp entry =
     (case entry of (dst, conflicting_sources) \<Rightarrow>
        map_option (\<lambda>specs. Conflict dst (map snd conflicting_sources) specs)
          (those (map (\<lambda>(spec_idx, _). Option.bind (get_at grp spec_idx) rs_to_bstring) conflicting_sources)))"

definition full_destination :: "bytes \<Rightarrow> bool" where
  "full_destination dst \<longleftrightarrow> prefix (lit ''refs/'') dst \<or> dst = HEAD"

fun retain_full :: "refspec list \<Rightarrow> ref_mapping list \<Rightarrow> (ref_mapping list \<times> ref_fix list) or_panic" where
  "retain_full grp [] = Some ([], [])"
| "retain_full grp (m # ms) =
     (case mp_rhs m of
        Some dst \<Rightarrow>
          if full_destination dst then map_option (\<lambda>(ms, fixed). (m # ms, fixed)) (retain_full grp ms)
          else Option.bind (get_at grp (mp_spec_index m)) (\<lambda>spec.
            map_option (\<lambda>(ms, fixed). (ms, MappingWithPartialDestinationRemoved dst spec # fixed)) (retain_full grp ms))
      | None \<Rightarrow> map_option (\<lambda>(ms, fixed). (m # ms, fixed)) (retain_full grp ms))"

definition outcome_validated :: "match_outcome \<Rightarrow> (match_outcome \<times> ref_fix list, ref_issue list) outcome" where
  "outcome_validated o1 =
     (case those (map (conflict_issue (mo_group o1))
         (filter (\<lambda>(_, v). 1 < length v) (sources_by_destinations (mo_mappings o1) []))) of
        None \<Rightarrow> Panic
      | Some issues \<Rightarrow>
          if issues \<noteq> [] then Err issues
          else and_then (expect (retain_full (mo_group o1) (mo_mappings o1))) (\<lambda>(ms, fixed).
            Ok (o1\<lparr>mo_mappings := ms\<rparr>, fixed)))"

section \<open>The table of sources\<close>

lemma btree_update_map_of:
  "sorted_wrt (\<lambda>a b. cmp_slice (fst a) (fst b) = Less) t \<Longrightarrow>
   map_of (btree_update k f t) = (map_of t)(k \<mapsto> f (case map_of t k of None \<Rightarrow> [] | Some v \<Rightarrow> v))"
proof (induction k f t rule: btree_update.induct)
  case (2 k f k' v rest)
  have n: "map_of rest k = None" if "cmp_slice k k' = Less \<or> cmp_slice k k' = Equal"
  proof -
    have "fst e \<noteq> k" if e: "e \<in> set rest" for e
    proof
      assume "fst e = k"
      then have "cmp_slice k' k = Less" using "2.prems" e by auto
      then show False using \<open>cmp_slice k k' = Less \<or> cmp_slice k k' = Equal\<close> cmp_slice_swap [of k' k] by auto
    qed
    then show ?thesis by (auto simp: map_of_eq_None_iff)
  qed
  show ?case
  proof (cases "cmp_slice k k'")
    case Less
    then have "k \<noteq> k'" by (auto simp: cmp_slice_refl)
    then show ?thesis using Less n by (auto simp: fun_eq_iff)
  next
    case Equal
    then show ?thesis by (auto simp: cmp_slice_refl fun_eq_iff)
  next
    case Greater
    then have "k \<noteq> k'" by (auto simp: cmp_slice_refl)
    then show ?thesis using Greater 2 by (auto simp: fun_eq_iff)
  qed
qed simp

lemma btree_update_keys: "fst ` set (btree_update k f t) = insert k (fst ` set t)"
  by (induction k f t rule: btree_update.induct) (auto split: ordering.splits)

lemma btree_update_sorted:
  "sorted_wrt (\<lambda>a b. cmp_slice (fst a) (fst b) = Less) t \<Longrightarrow>
   sorted_wrt (\<lambda>a b. cmp_slice (fst a) (fst b) = Less) (btree_update k f t)"
proof (induction k f t rule: btree_update.induct)
  case (2 k f k' v rest)
  show ?case
  proof (cases "cmp_slice k k'")
    case Less
    then show ?thesis using "2.prems" cmp_slice_Less_trans by fastforce
  next
    case Greater
    then have g: "cmp_slice k' k = Less" by (simp add: cmp_slice_swap)
    have "cmp_slice k' (fst e) = Less" if "e \<in> set (btree_update k f rest)" for e
    proof -
      from that have "fst e \<in> insert k (fst ` set rest)" unfolding btree_update_keys [of k f, symmetric] by (rule imageI)
      then show ?thesis using g "2.prems" by auto
    qed
    then show ?thesis using Greater 2 by simp
  qed (use "2.prems" in \<open>simp add: cmp_slice_refl\<close>)
qed simp

text \<open>The sources of a destination, in the order of the mappings and each once.\<close>

definition sources_of :: "bytes \<Rightarrow> ref_mapping list \<Rightarrow> (nat \<times> source_ref) list \<Rightarrow> (nat \<times> source_ref) list" where
  "sources_of dst ms acc =
     foldl (\<lambda>acc m. if mp_rhs m = Some dst then add_source (mp_spec_index m, mp_lhs m) acc else acc) acc ms"

lemma list_ex_snd: "list_ex (\<lambda>(_, l). l = x) s \<longleftrightarrow> x \<in> snd ` set s"
  by (induction s) auto

lemma add_source_snd: "snd ` set (add_source e s) = insert (snd e) (snd ` set s)"
  by (auto simp: add_source_def list_ex_snd)

lemma add_source_distinct: "distinct (map snd s) \<Longrightarrow> distinct (map snd (add_source e s))"
  by (auto simp: add_source_def list_ex_iff)

lemma add_source_not_Nil: "add_source e s \<noteq> []"
  by (auto simp: add_source_def)

lemma add_source_subset: "set (add_source e s) \<subseteq> insert e (set s)"
  by (auto simp: add_source_def)

lemma sources_of_snd: "snd ` set (sources_of dst ms acc) = snd ` set acc \<union> {mp_lhs m |m. m \<in> set ms \<and> mp_rhs m = Some dst}"
proof (induction ms arbitrary: acc)
  case (Cons m ms)
  then show ?case by (auto simp: sources_of_def add_source_snd)
qed (simp add: sources_of_def)

lemma sources_of_distinct: "distinct (map snd acc) \<Longrightarrow> distinct (map snd (sources_of dst ms acc))"
  by (induction ms arbitrary: acc) (auto simp: sources_of_def add_source_distinct)

lemma sources_of_index:
  "\<forall>e\<in>set acc. fst e < n \<Longrightarrow> \<forall>m\<in>set ms. mp_spec_index m < n \<Longrightarrow> \<forall>e\<in>set (sources_of dst ms acc). fst e < n"
proof (induction ms arbitrary: acc)
  case (Cons m ms)
  have "\<forall>e\<in>set (if mp_rhs m = Some dst then add_source (mp_spec_index m, mp_lhs m) acc else acc). fst e < n"
    using Cons.prems add_source_subset [of "(mp_spec_index m, mp_lhs m)" acc] by auto
  from Cons.IH [OF this] show ?case using Cons.prems by (simp add: sources_of_def)
qed (simp add: sources_of_def)

lemma sources_by_destinations_sorted:
  "sorted_wrt (\<lambda>a b. cmp_slice (fst a) (fst b) = Less) t \<Longrightarrow>
   sorted_wrt (\<lambda>a b. cmp_slice (fst a) (fst b) = Less) (sources_by_destinations ms t)"
  by (induction ms t rule: sources_by_destinations.induct) (auto simp: btree_update_sorted split: option.split)

lemma sources_by_destinations_map_of:
  "sorted_wrt (\<lambda>a b. cmp_slice (fst a) (fst b) = Less) t \<Longrightarrow>
   map_of (sources_by_destinations ms t) dst =
     (if map_of t dst = None \<and> (\<forall>m\<in>set ms. mp_rhs m \<noteq> Some dst) then None
      else Some (sources_of dst ms (case map_of t dst of None \<Rightarrow> [] | Some v \<Rightarrow> v)))"
proof (induction ms t rule: sources_by_destinations.induct)
  case (1 t)
  then show ?case by (auto simp: sources_of_def split: option.splits)
next
  case (2 m ms t)
  define t' where "t' = (case mp_rhs m of Some d \<Rightarrow> btree_update d (add_source (mp_spec_index m, mp_lhs m)) t | None \<Rightarrow> t)"
  have s: "sorted_wrt (\<lambda>a b. cmp_slice (fst a) (fst b) = Less) t'"
    using "2.prems" by (simp add: t'_def btree_update_sorted split: option.split)
  have m: "map_of t' dst = (if mp_rhs m = Some dst
      then Some (add_source (mp_spec_index m, mp_lhs m) (case map_of t dst of None \<Rightarrow> [] | Some v \<Rightarrow> v)) else map_of t dst)"
    by (auto simp: t'_def btree_update_map_of [OF "2.prems"] split: option.split)
  have "map_of (sources_by_destinations (m # ms) t) dst = map_of (sources_by_destinations ms t') dst" by (simp add: t'_def)
  also have "\<dots> = (if map_of t' dst = None \<and> (\<forall>m\<in>set ms. mp_rhs m \<noteq> Some dst) then None
      else Some (sources_of dst ms (case map_of t' dst of None \<Rightarrow> [] | Some v \<Rightarrow> v)))"
    using "2.IH" s by (simp add: t'_def)
  finally show ?case unfolding m by (auto simp: sources_of_def split: option.split)
qed

text \<open>Two different sources are mapped to one destination.\<close>

definition conflicting :: "ref_mapping list \<Rightarrow> bytes \<Rightarrow> bool" where
  "conflicting ms dst \<longleftrightarrow>
     list_ex (\<lambda>m. mp_rhs m = Some dst \<and> list_ex (\<lambda>n. mp_rhs n = Some dst \<and> mp_lhs m \<noteq> mp_lhs n) ms) ms"

lemma many_sources: "1 < length (sources_of dst ms []) \<longleftrightarrow> conflicting ms dst"
proof -
  let ?s = "map snd (sources_of dst ms [])"
  have d: "distinct ?s" and s: "set ?s = {mp_lhs m |m. m \<in> set ms \<and> mp_rhs m = Some dst}"
    using sources_of_distinct [of "[]" dst ms] by (simp_all add: sources_of_snd)
  have "1 < length ?s \<longleftrightarrow> 1 < card (set ?s)" using d by (simp only: distinct_card)
  also have "\<dots> \<longleftrightarrow> (\<exists>x\<in>set ?s. \<exists>y\<in>set ?s. x \<noteq> y)"
  proof -
    have "card (set ?s) \<le> Suc 0 \<longleftrightarrow> (\<forall>x\<in>set ?s. \<forall>y\<in>set ?s. x = y)" by (rule card_le_Suc0_iff_eq) (rule List.finite_set)
    then show ?thesis by (simp only: not_le [symmetric] One_nat_def Ball_def Bex_def) blast
  qed
  also have "\<dots> \<longleftrightarrow> conflicting ms dst" unfolding s conflicting_def list_ex_iff by auto
  finally show ?thesis by simp
qed

section \<open>What validation decides\<close>

fun issue_destination :: "ref_issue \<Rightarrow> bytes" where
  "issue_destination (Conflict dst sources specs) = dst"

fun issue_sources :: "ref_issue \<Rightarrow> source_ref list" where
  "issue_sources (Conflict dst sources specs) = sources"

fun fix_name :: "ref_fix \<Rightarrow> bytes" where
  "fix_name (MappingWithPartialDestinationRemoved name spec) = name"

definition wf_outcome :: "match_outcome \<Rightarrow> bool" where
  "wf_outcome o1 \<longleftrightarrow> list_all (\<lambda>m. mp_spec_index m < length (mo_group o1)) (mo_mappings o1) \<and>
     list_all (\<lambda>r. rs_instruction r \<noteq> None) (mo_group o1)"

definition kept_mapping :: "ref_mapping \<Rightarrow> bool" where
  "kept_mapping m \<longleftrightarrow> pred_option full_destination (mp_rhs m)"

lemma retain_full_spec:
  "\<forall>m\<in>set ms. mp_spec_index m < length grp \<Longrightarrow>
   \<exists>fixed. retain_full grp ms = Some (filter kept_mapping ms, fixed) \<and>
     map (\<lambda>f. Some (fix_name f)) fixed = map mp_rhs (filter (\<lambda>m. \<not> kept_mapping m) ms)"
proof (induction ms)
  case (Cons m ms)
  then obtain fixed where f: "retain_full grp ms = Some (filter kept_mapping ms, fixed)"
    "map (\<lambda>f. Some (fix_name f)) fixed = map mp_rhs (filter (\<lambda>m. \<not> kept_mapping m) ms)" by auto
  have "kept_mapping m \<longleftrightarrow> pred_option full_destination (mp_rhs m)" by (simp add: kept_mapping_def)
  then show ?case using f Cons.prems by (cases "mp_rhs m") (simp_all add: get_at_def)
qed simp

lemma conflict_issue_Some:
  assumes "\<forall>e\<in>set srcs. fst e < length grp" "\<forall>r\<in>set grp. rs_instruction r \<noteq> None"
  shows "\<exists>specs. conflict_issue grp (dst, srcs) = Some (Conflict dst (map snd srcs) specs)"
proof -
  have "\<exists>v. those (map (\<lambda>(i, _). Option.bind (get_at grp i) rs_to_bstring) srcs) = Some v"
    using assms(1)
  proof (induction srcs)
    case (Cons e srcs)
    then have "fst e < length grp" by simp
    then have "rs_instruction (grp ! fst e) \<noteq> None" using assms(2) nth_mem by blast
    then have "\<exists>t. Option.bind (get_at grp (fst e)) rs_to_bstring = Some t"
      using \<open>fst e < length grp\<close> by (auto simp: get_at_def rs_to_bstring_def)
    then show ?case using Cons by (auto split: prod.split)
  qed simp
  then show ?thesis by (auto simp: conflict_issue_def)
qed

lemma those_issues:
  assumes "\<And>e. e \<in> set es \<Longrightarrow> \<exists>specs. conflict_issue grp e = Some (Conflict (fst e) (map snd (snd e)) specs)"
  shows "\<exists>issues. those (map (conflict_issue grp) es) = Some issues \<and> map issue_destination issues = map fst es \<and>
    map issue_sources issues = map (\<lambda>e. map snd (snd e)) es"
  using assms
proof (induction es)
  case (Cons e es)
  then obtain specs where "conflict_issue grp e = Some (Conflict (fst e) (map snd (snd e)) specs)"
    by (meson list.set_intros(1))
  moreover obtain issues where "those (map (conflict_issue grp) es) = Some issues" "map issue_destination issues = map fst es"
    "map issue_sources issues = map (\<lambda>e. map snd (snd e)) es" using Cons by auto
  ultimately show ?case by simp
qed simp

lemma sorted_wrt_cmp_distinct:
  "sorted_wrt (\<lambda>a b. cmp_slice (fst a) (fst b) = Less) t \<Longrightarrow> distinct (map fst t)"
  by (induction t) (auto simp: cmp_slice_refl)

text \<open>The entries of the table with more than one source are the conflicts.\<close>

lemma conflict_entries:
  assumes es_def: "es = filter (\<lambda>(_, v). 1 < length v) (sources_by_destinations ms [])"
  shows "set (map fst es) = {dst. conflicting ms dst}"
    and "sorted_wrt (\<lambda>a b. cmp_slice a b = Less) (map fst es)"
    and "e \<in> set es \<Longrightarrow> snd e = sources_of (fst e) ms []"
proof -
  let ?t = "sources_by_destinations ms []"
  have s: "sorted_wrt (\<lambda>a b. cmp_slice (fst a) (fst b) = Less) ?t" by (rule sources_by_destinations_sorted) simp
  then have d: "distinct (map fst ?t)" by (rule sorted_wrt_cmp_distinct)
  have m: "map_of ?t dst = (if \<forall>m\<in>set ms. mp_rhs m \<noteq> Some dst then None else Some (sources_of dst ms []))" for dst
    using sources_by_destinations_map_of [of "[]" ms dst] by simp
  have e: "(dst, v) \<in> set ?t \<longleftrightarrow> (\<exists>m\<in>set ms. mp_rhs m = Some dst) \<and> v = sources_of dst ms []" for dst v
    using map_of_eq_Some_iff [OF d, of dst v] m [of dst] by (auto split: if_splits)
  show "set (map fst es) = {dst. conflicting ms dst}"
  proof -
    have "dst \<in> set (map fst es) \<longleftrightarrow> (\<exists>v. (dst, v) \<in> set ?t \<and> 1 < length v)" for dst
      by (force simp: es_def)
    then have "dst \<in> set (map fst es) \<longleftrightarrow> (\<exists>m\<in>set ms. mp_rhs m = Some dst) \<and> conflicting ms dst" for dst
      unfolding e many_sources [symmetric] by auto
    moreover have "conflicting ms dst \<Longrightarrow> \<exists>m\<in>set ms. mp_rhs m = Some dst" for dst
      by (auto simp: conflicting_def list_ex_iff)
    ultimately show ?thesis by blast
  qed
  show "sorted_wrt (\<lambda>a b. cmp_slice a b = Less) (map fst es)"
    unfolding es_def sorted_wrt_map by (rule sorted_wrt_filter) (rule s)
  show "e \<in> set es \<Longrightarrow> snd e = sources_of (fst e) ms []"
    using e [of "fst e" "snd e"] by (simp add: es_def)
qed

lemma outcome_validated_spec:
  assumes wf: "wf_outcome o1"
  defines "ms \<equiv> mo_mappings o1"
  shows "(\<exists>dst. conflicting ms dst) \<Longrightarrow> \<exists>issues. outcome_validated o1 = Err issues \<and>
      set (map issue_destination issues) = {dst. conflicting ms dst} \<and>
      sorted_wrt (\<lambda>a b. cmp_slice a b = Less) (map issue_destination issues) \<and>
      (\<forall>i\<in>set issues. set (issue_sources i) = {mp_lhs m |m. m \<in> set ms \<and> mp_rhs m = Some (issue_destination i)})"
    and "(\<nexists>dst. conflicting ms dst) \<Longrightarrow> \<exists>fixed. outcome_validated o1 = Ok (o1\<lparr>mo_mappings := filter kept_mapping ms\<rparr>, fixed) \<and>
      map (\<lambda>f. Some (fix_name f)) fixed = map mp_rhs (filter (\<lambda>m. \<not> kept_mapping m) ms)"
proof -
  define es where "es = filter (\<lambda>(_, v). 1 < length v) (sources_by_destinations ms [])"
  note ce = conflict_entries [OF es_def]
  have i: "\<forall>m\<in>set ms. mp_spec_index m < length (mo_group o1)" and g: "\<forall>r\<in>set (mo_group o1). rs_instruction r \<noteq> None"
    using wf by (auto simp: wf_outcome_def list_all_iff ms_def)
  have "\<exists>specs. conflict_issue (mo_group o1) e = Some (Conflict (fst e) (map snd (snd e)) specs)" if "e \<in> set es" for e
  proof -
    have "\<forall>e'\<in>set (snd e). fst e' < length (mo_group o1)"
      unfolding ce(3) [OF that] by (rule sources_of_index [OF _ i]) simp
    from conflict_issue_Some [OF this g, of "fst e"] show ?thesis by simp
  qed
  from those_issues [OF this] obtain issues where
    iss: "those (map (conflict_issue (mo_group o1)) es) = Some issues" "map issue_destination issues = map fst es"
      "map issue_sources issues = map (\<lambda>e. map snd (snd e)) es" by blast
  have v: "outcome_validated o1 = (if issues \<noteq> [] then Err issues
      else and_then (expect (retain_full (mo_group o1) ms)) (\<lambda>(ms, fixed). Ok (o1\<lparr>mo_mappings := ms\<rparr>, fixed)))"
    unfolding outcome_validated_def ms_def [symmetric] es_def [symmetric] iss(1) by simp
  have e: "issues = [] \<longleftrightarrow> (\<nexists>dst. conflicting ms dst)" using iss(2) ce(1) by (cases issues; cases es) auto
  {
    assume "\<exists>dst. conflicting ms dst"
    then have "outcome_validated o1 = Err issues" using v e by simp
    moreover have "set (issue_sources i) = {mp_lhs m |m. m \<in> set ms \<and> mp_rhs m = Some (issue_destination i)}"
      if "i \<in> set issues" for i
    proof -
      obtain k where k: "k < length issues" "i = issues ! k" using \<open>i \<in> set issues\<close> by (auto simp: in_set_conv_nth)
      then have l: "k < length es" using iss(2) by (metis length_map)
      then have "issue_destination i = fst (es ! k)" "issue_sources i = map snd (snd (es ! k))"
        using k iss(2,3) by (metis nth_map)+
      moreover have "snd (es ! k) = sources_of (fst (es ! k)) ms []" using ce(3) l by simp
      ultimately show ?thesis using sources_of_snd [of "fst (es ! k)" ms "[]"] by simp
    qed
    moreover have "set (map issue_destination issues) = {dst. conflicting ms dst}" unfolding iss(2) by (rule ce(1))
    moreover have "sorted_wrt (\<lambda>a b. cmp_slice a b = Less) (map issue_destination issues)" unfolding iss(2) by (rule ce(2))
    ultimately show "\<exists>issues. outcome_validated o1 = Err issues \<and>
      set (map issue_destination issues) = {dst. conflicting ms dst} \<and>
      sorted_wrt (\<lambda>a b. cmp_slice a b = Less) (map issue_destination issues) \<and>
      (\<forall>i\<in>set issues. set (issue_sources i) = {mp_lhs m |m. m \<in> set ms \<and> mp_rhs m = Some (issue_destination i)})"
      by blast
  }
  show "\<exists>fixed. outcome_validated o1 = Ok (o1\<lparr>mo_mappings := filter kept_mapping ms\<rparr>, fixed) \<and>
      map (\<lambda>f. Some (fix_name f)) fixed = map mp_rhs (filter (\<lambda>m. \<not> kept_mapping m) ms)" if "\<nexists>dst. conflicting ms dst"
    using retain_full_spec [OF i] v e that by auto
qed

end
