(* ===== verification/Gix_Refspec_Maps.thy ===== *)
theory Gix_Refspec_Maps
  imports Gix_Refspec_Match
begin

text \<open>
  What matching the references of a remote means.  \<open>ref_maps\<close> states, without positions and ranges, which reference a
  specification maps to which destination, and \<open>wanted_mapping\<close> which mappings a group of specifications asks for.  The
  lemmas show that \<^verbatim>\<open>match_remotes\<close> finds exactly these, when it panics, and that what is left after validation can be
  written to.  The two foreign crates it relies on are joined in the locale \<open>refspec_crates\<close>.
\<close>

section \<open>The meaning of a specification\<close>

definition object_source :: "bytes \<Rightarrow> object_id option" where
  "object_source v = (if length v = 40 then map_option Sha1 (unhex v) else None)"

definition plain_destination :: "bytes \<Rightarrow> bytes" where
  "plain_destination d =
     (if prefix (lit ''refs/'') d then d
      else case object_source d of
        Some (Sha1 b) \<Rightarrow> lit ''refs/heads/'' @ hex_lower b
      | None \<Rightarrow> lit ''refs/'' @ (if \<not> (prefix (lit ''tags/'') d \<or> prefix (lit ''remotes/'') d) then lit ''heads/'' else []) @ d)"

inductive ref_maps :: "refspec \<Rightarrow> bytes \<Rightarrow> bytes option \<Rightarrow> bool" for r where
  full: "rs_src r = Some n \<Longrightarrow> STAR \<notin> set n \<Longrightarrow> prefix (lit ''refs/'') n \<Longrightarrow>
    ref_maps r n (map_option plain_destination (rs_dst r))"
| partial: "rs_src r = Some s \<Longrightarrow> STAR \<notin> set s \<Longrightarrow> \<not> prefix (lit ''refs/'') s \<Longrightarrow> object_source s = None \<Longrightarrow>
    n \<in> set (expanded_names s) \<Longrightarrow> ref_maps r n (map_option plain_destination (rs_dst r))"
| glob: "rs_src r = Some (pre @ STAR # tail) \<Longrightarrow> STAR \<notin> set pre \<Longrightarrow>
    rs_dst r = Some (dpre @ STAR # dtail) \<Longrightarrow> STAR \<notin> set dpre \<Longrightarrow>
    ref_maps r (pre @ mid @ tail) (Some (dpre @ mid @ dtail))"

text \<open>The name has what stands before and what stands behind the star, but the two overlap.\<close>

definition glob_overlap :: "refspec \<Rightarrow> bytes \<Rightarrow> bool" where
  "glob_overlap r n \<longleftrightarrow>
     (case rs_src r of
        None \<Rightarrow> False
      | Some s \<Rightarrow>
          (case position (\<lambda>c. c = STAR) s of
             None \<Rightarrow> False
           | Some p \<Rightarrow> prefix (take p s) n \<and> suffix (drop (p + 1) s) n \<and> length n + 1 < length s))"

text \<open>Both sides have a star or none; parsing establishes this for all specifications.\<close>

definition balanced :: "refspec \<Rightarrow> bool" where
  "balanced r \<longleftrightarrow> has_star (rs_src r) = has_star (rs_dst r)"

lemma wf_balanced: "wf_refspec revspec r \<Longrightarrow> balanced r"
  by (auto simp: wf_refspec_def balanced_def has_star_def split: if_splits)

lemma object_source_plain:
  assumes "object_source v = Some i"
  shows "STAR \<notin> set v" "\<not> prefix (lit ''refs/'') v"
proof -
  obtain b where "unhex v = Some b" using assms by (auto simp: object_source_def split: if_splits)
  then have "unhex v \<noteq> None" by simp
  then have a: "\<forall>c\<in>set v. nibble_of c \<noteq> None" using unhex_None [of v] by (simp add: list_all_iff)
  have n: "nibble_of STAR = None" "nibble_of 0x72 = None" by code_simp+
  then show "STAR \<notin> set v" using a by auto
  show "\<not> prefix (lit ''refs/'') v"
  proof
    assume "prefix (lit ''refs/'') v"
    then have "0x72 \<in> set v" by (auto simp: prefix_def)
    then show False using a n by auto
  qed
qed

lemma position_star:
  "STAR \<notin> set v \<Longrightarrow> position (\<lambda>c. c = STAR) v = None"
  "STAR \<notin> set pre \<Longrightarrow> position (\<lambda>c. c = STAR) (pre @ STAR # tail) = Some (length pre)"
  by (auto simp: position_split)

lemma split_star: "STAR \<in> set v \<Longrightarrow> \<exists>pre tail. v = pre @ STAR # tail \<and> STAR \<notin> set pre"
  by (rule split_list_first)

lemma first_some_expanded:
  "expand_partial_name s (\<lambda>e. if e = n then Some x else None) = (if n \<in> set (expanded_names s) then Some x else None)"
proof -
  have "first_some (\<lambda>e. if e = n then Some x else None) xs = (if n \<in> set xs then Some x else None)" for xs
    by (induction xs) auto
  then show ?thesis by (simp add: expand_partial_name_def)
qed

lemma maps_plain:
  assumes "rs_src r = Some s" "STAR \<notin> set s"
  shows "ref_maps r n rhs \<longleftrightarrow> rhs = map_option plain_destination (rs_dst r) \<and>
    (if prefix (lit ''refs/'') s then n = s else object_source s = None \<and> n \<in> set (expanded_names s))"
  (is "_ \<longleftrightarrow> ?R")
proof
  show "ref_maps r n rhs \<Longrightarrow> ?R" by (erule ref_maps.cases) (use assms in auto)
  show "?R \<Longrightarrow> ref_maps r n rhs" using assms by (auto intro: ref_maps.full ref_maps.partial split: if_splits)
qed

lemma maps_star:
  assumes "rs_src r = Some (pre @ STAR # tail)" "STAR \<notin> set pre"
    and "rs_dst r = Some (dpre @ STAR # dtail)" "STAR \<notin> set dpre"
  shows "ref_maps r n rhs \<longleftrightarrow> (\<exists>mid. n = pre @ mid @ tail \<and> rhs = Some (dpre @ mid @ dtail))"
proof
  have u: "p = q \<and> t = u" if "p @ STAR # t = q @ STAR # u" "STAR \<notin> set p" "STAR \<notin> set q" for p q t u :: bytes
    using that by (auto simp: append_eq_append_conv2 Cons_eq_append_conv append_eq_Cons_conv)
  show "ref_maps r n rhs \<Longrightarrow> \<exists>mid. n = pre @ mid @ tail \<and> rhs = Some (dpre @ mid @ dtail)"
  proof (erule ref_maps.cases)
    fix p t dp dt mid
    assume a: "n = p @ mid @ t" "rhs = Some (dp @ mid @ dt)" "rs_src r = Some (p @ STAR # t)" "STAR \<notin> set p"
      "rs_dst r = Some (dp @ STAR # dt)" "STAR \<notin> set dp"
    have "p = pre \<and> t = tail" using a(3,4) assms(1,2) by (intro u) simp_all
    moreover have "dp = dpre \<and> dt = dtail" using a(5,6) assms(3,4) by (intro u) simp_all
    ultimately show ?thesis using a(1,2) by blast
  qed (use assms in auto)
  show "\<exists>mid. n = pre @ mid @ tail \<and> rhs = Some (dpre @ mid @ dtail) \<Longrightarrow> ref_maps r n rhs"
    using ref_maps.glob [OF assms] by blast
qed

lemma overlap_star:
  assumes "rs_src r = Some (pre @ STAR # tail)" "STAR \<notin> set pre"
  shows "glob_overlap r n \<longleftrightarrow> prefix pre n \<and> suffix tail n \<and> length n < length pre + length tail"
  using assms position_star(2) [of pre tail] by (auto simp: glob_overlap_def)

lemma overlap_plain: "rs_src r = Some s \<Longrightarrow> STAR \<notin> set s \<Longrightarrow> \<not> glob_overlap r n"
  using position_star(1) [of s] by (simp add: glob_overlap_def del: position_None)

section \<open>What a group asks for\<close>

definition matcher_of :: "bstr \<Rightarrow> faster_hex \<Rightarrow> refspec \<Rightarrow> matcher option" where
  "matcher_of bs fh r =
     (case rs_src r of Some s \<Rightarrow> if object_source s = None then matcher_from bs fh r else None | None \<Rightarrow> None)"

text \<open>What parsing guarantees of a specification for fetching, as far as matching depends on it.\<close>

definition fetch_ok :: "refspec \<Rightarrow> bool" where
  "fetch_ok r \<longleftrightarrow> balanced r \<and>
     (\<exists>s. rs_src r = Some s \<and> (rs_mode r = Negative \<longrightarrow> rs_dst r = None \<and> object_source s = None))"

definition object_keys :: "refspec list \<Rightarrow> map_key set" where
  "object_keys specs =
     {(ObjectId i, map_option plain_destination (rs_dst r)) |i r s. r \<in> set specs \<and> rs_src r = Some s \<and> object_source s = Some i}"

definition name_keys :: "refspec list \<Rightarrow> ref_item list \<Rightarrow> map_key set" where
  "name_keys specs items =
     {(FullName n, rhs) |n rhs. n \<in> full_ref_name ` set items \<and> (\<exists>r\<in>set specs. rs_mode r \<noteq> Negative \<and> ref_maps r n rhs)}"

definition excluded :: "refspec list \<Rightarrow> source_ref \<Rightarrow> bool" where
  "excluded specs lhs \<longleftrightarrow>
     (case lhs of ObjectId _ \<Rightarrow> False | FullName n \<Rightarrow> \<exists>r\<in>set specs. rs_mode r = Negative \<and> ref_maps r n None)"

definition wanted_keys :: "refspec list \<Rightarrow> ref_item list \<Rightarrow> map_key set" where
  "wanted_keys specs items = {k \<in> object_keys specs \<union> name_keys specs items. \<not> excluded specs (fst k)}"

lemma fetch_okI: "wf_refspec revspec r \<Longrightarrow> rs_op r = OpFetch \<Longrightarrow> fetch_ok r"
proof -
  assume wf: "wf_refspec revspec r" and op: "rs_op r = OpFetch"
  show ?thesis
  proof (cases "rs_mode r = Negative")
    case True
    then obtain s where s: "rs_src r = Some s" "rs_dst r = None" "prefix (lit ''refs/'') s \<or> s = HEAD"
      using wf by (auto simp: wf_refspec_def)
    have "object_source HEAD = None" by code_simp
    then have "object_source s = None" using s(3) object_source_plain(2) [of s] by (cases "object_source s") auto
    then show ?thesis using s wf_balanced [OF wf] by (simp add: fetch_ok_def)
  next
    case False
    then show ?thesis using wf op wf_balanced [OF wf] by (auto simp: wf_refspec_def fetch_ok_def)
  qed
qed

lemma object_no_maps:
  assumes "rs_src r = Some s" "object_source s = Some i"
  shows "\<not> ref_maps r n rhs" "\<not> glob_overlap r n"
  using assms object_source_plain [OF assms(2)] maps_plain [OF assms(1)] overlap_plain [OF assms(1)] by simp_all

section \<open>Collecting mappings\<close>

lemma push_unique_foldl:
  assumes "foldl (push_unique hash) (map hash (rev (map mapping_key out0)), out0) cs = (seen, out)"
    and "distinct (map mapping_key out0)"
  shows "seen = map hash (rev (map mapping_key out))" "distinct (map mapping_key out)" "set out \<subseteq> set out0 \<union> set cs"
    and "inj_on hash (mapping_key ` (set out0 \<union> set cs)) \<Longrightarrow> mapping_key ` set out = mapping_key ` (set out0 \<union> set cs)"
proof -
  have "seen = map hash (rev (map mapping_key out)) \<and> distinct (map mapping_key out) \<and> set out \<subseteq> set out0 \<union> set cs \<and>
    (inj_on hash (mapping_key ` (set out0 \<union> set cs)) \<longrightarrow> mapping_key ` set out = mapping_key ` (set out0 \<union> set cs))"
    using assms
  proof (induction cs arbitrary: out0)
    case (Cons c cs)
    show ?case
    proof (cases "hash (mapping_key c) \<in> hash ` mapping_key ` set out0")
      case True
      then have "push_unique hash (map hash (rev (map mapping_key out0)), out0) c = (map hash (rev (map mapping_key out0)), out0)"
        by (simp add: push_unique_def)
      then have f: "foldl (push_unique hash) (map hash (rev (map mapping_key out0)), out0) cs = (seen, out)"
        using Cons.prems(1) by simp
      note ih = Cons.IH [OF f Cons.prems(2)]
      obtain e where e: "e \<in> set out0" "hash (mapping_key c) = hash (mapping_key e)" using True by blast
      have "mapping_key ` set out = mapping_key ` (set out0 \<union> set (c # cs))"
        if i: "inj_on hash (mapping_key ` (set out0 \<union> set (c # cs)))"
      proof -
        have "mapping_key c = mapping_key e" by (rule inj_onD [OF i e(2)]) (use e(1) in simp_all)
        then have k: "mapping_key ` (set out0 \<union> set (c # cs)) = mapping_key ` (set out0 \<union> set cs)" using e(1) by auto
        then show ?thesis using ih i by simp
      qed
      then show ?thesis using ih by auto
    next
      case False
      then have "mapping_key c \<notin> set (map mapping_key out0)" by auto
      then have d: "distinct (map mapping_key (out0 @ [c]))" using Cons.prems(2) by simp
      have "push_unique hash (map hash (rev (map mapping_key out0)), out0) c =
          (map hash (rev (map mapping_key (out0 @ [c]))), out0 @ [c])"
        using False by (simp add: push_unique_def)
      then have f: "foldl (push_unique hash) (map hash (rev (map mapping_key (out0 @ [c]))), out0 @ [c]) cs = (seen, out)"
        using Cons.prems(1) by simp
      show ?thesis using Cons.IH [OF f d] by (auto simp: insert_commute)
    qed
  qed auto
  then show "seen = map hash (rev (map mapping_key out))" "distinct (map mapping_key out)" "set out \<subseteq> set out0 \<union> set cs"
    "inj_on hash (mapping_key ` (set out0 \<union> set cs)) \<Longrightarrow> mapping_key ` set out = mapping_key ` (set out0 \<union> set cs)"
    by blast+
qed

locale refspec_crates = bstr_spec bs + faster_hex_spec fh for bs fh
begin

lemma needle_star: "STAR \<notin> set pre \<Longrightarrow> needle_from bs fh (pre @ STAR # tail) = Some (NGlob (pre @ STAR # tail) (length pre))"
  using position_star(2) [of pre tail] by (simp add: needle_from_def find_byte)

lemma needle_plain:
  "STAR \<notin> set v \<Longrightarrow> needle_from bs fh v =
    Some (if prefix (lit ''refs/'') v then NFullName v
          else case object_source v of Some i \<Rightarrow> NObject i | None \<Rightarrow> NPartialName v)"
  by (auto simp: needle_from_def find_byte_None from_hex_eq object_source_def split: option.splits)

lemma destination_plain:
  assumes "STAR \<notin> set d"
  shows "Option.bind (needle_from bs fh d) (\<lambda>n. to_bstr_replace fh n None) = Some (plain_destination d)"
proof (cases "prefix (lit ''refs/'') d")
  case False
  show ?thesis
  proof (cases "object_source d")
    case (Some i)
    then obtain b where b: "i = Sha1 b" "unhex d = Some b" "length d = 40" by (auto simp: object_source_def split: if_splits)
    then have "length b = 20" using unhex_SomeD [of d b] by simp
    then show ?thesis using False Some b assms
      by (simp add: needle_plain plain_destination_def object_id_as_slice_def to_hex_eq outcome_option_def)
  next
    case None
    then show ?thesis using False assms by (simp add: needle_plain plain_destination_def)
  qed
qed (use assms in \<open>simp add: needle_plain plain_destination_def\<close>)

text \<open>A glob finds the part the star stands for.\<close>

lemma glob_matches:
  "needle_matches (NGlob (pre @ STAR # tail) (length pre)) item =
     Some (if prefix pre (full_ref_name item) \<and> suffix tail (full_ref_name item)
           then GlobRange (length pre) (length (full_ref_name item) - length tail) else MNone)"
proof -
  let ?n = "full_ref_name item" and ?g = "pre @ STAR # tail"
  have g: "get_range ?g 0 (length pre) = Some pre" "get_range ?g (length pre + 1) (length ?g) = Some tail"
    by (simp_all add: get_range_def)
  show ?thesis
  proof (cases "length pre \<le> length ?n")
    case True
    have "take (length pre) ?n \<noteq> pre \<longleftrightarrow> \<not> prefix pre ?n" by (auto simp: prefix_def) (metis append_take_drop_id)
    then show ?thesis using True g by (auto simp: get_range_def)
  next
    case False
    then have "\<not> prefix pre ?n" using prefix_length_le by blast
    then show ?thesis using False by (simp add: get_range_def)
  qed
qed

lemma glob_replace:
  assumes "length pre + length tail \<le> length n" "prefix pre n" "suffix tail n" "STAR \<notin> set dpre"
  obtains mid where "n = pre @ mid @ tail"
    "to_bstr_replace fh (NGlob (dpre @ STAR # dtail) (length dpre)) (Some (length pre, length n - length tail, n)) =
      Some (dpre @ mid @ dtail)"
proof -
  obtain x where x: "n = x @ tail" using assms(3) by (auto simp: suffix_def)
  then have "prefix pre x" using assms(1,2) prefix_length_prefix [of pre n x] by simp
  then obtain mid where m: "n = pre @ mid @ tail" using x by (auto simp: prefix_def)
  then have "get_range n (length pre) (length n - length tail) = Some mid" by (simp add: get_range_def)
  moreover have "get_range (dpre @ STAR # dtail) 0 (length dpre) = Some dpre"
    "get_range (dpre @ STAR # dtail) (length dpre + 1) (length (dpre @ STAR # dtail)) = Some dtail"
    by (simp_all add: get_range_def)
  ultimately show thesis using m by (intro that) simp_all
qed

lemma matcher_plain:
  assumes "rs_src r = Some s" "STAR \<notin> set s" "balanced r"
  obtains m where "matcher_from bs fh r = Some m"
    "m_lhs m = Some (if prefix (lit ''refs/'') s then NFullName s
      else case object_source s of Some i \<Rightarrow> NObject i | None \<Rightarrow> NPartialName s)"
    "(case m_rhs m of None \<Rightarrow> Some None | Some n \<Rightarrow> map_option Some (to_bstr_replace fh n None)) =
      Some (map_option plain_destination (rs_dst r))"
proof -
  define ln where "ln = (if prefix (lit ''refs/'') s then NFullName s
      else case object_source s of Some i \<Rightarrow> NObject i | None \<Rightarrow> NPartialName s)"
  have l: "side_needle bs fh (rs_src r) = Some (Some ln)"
    using assms(1) needle_plain [OF assms(2)] by (simp add: side_needle_def ln_def)
  have "\<exists>rn. side_needle bs fh (rs_dst r) = Some rn \<and>
      (case rn of None \<Rightarrow> Some None | Some n \<Rightarrow> map_option Some (to_bstr_replace fh n None)) =
      Some (map_option plain_destination (rs_dst r))"
  proof (cases "rs_dst r")
    case (Some d)
    then have "STAR \<notin> set d" using assms by (simp add: balanced_def has_star_def)
    from destination_plain [OF this] show ?thesis using Some by (auto simp: side_needle_def split: bind_splits)
  qed (simp add: side_needle_def)
  then obtain rn where "side_needle bs fh (rs_dst r) = Some rn"
    "(case rn of None \<Rightarrow> Some None | Some n \<Rightarrow> map_option Some (to_bstr_replace fh n None)) =
      Some (map_option plain_destination (rs_dst r))" by blast
  then show thesis using l by (intro that [of "\<lparr>m_lhs = Some ln, m_rhs = rn\<rparr>"]) (simp_all add: matcher_from_def ln_def)
qed

lemma matches_plain:
  assumes s: "rs_src r = Some s" "STAR \<notin> set s" "object_source s = None" and "balanced r"
  shows "\<exists>m. matcher_from bs fh r = Some m \<and> (\<forall>i. m_lhs m \<noteq> Some (NObject i)) \<and>
    (\<forall>item. \<exists>x y. matches_lhs fh m item = Some (x, y) \<and> (\<forall>rhs. ref_maps r (full_ref_name item) rhs \<longleftrightarrow> x \<and> rhs = y))"
proof -
  obtain m where m: "matcher_from bs fh r = Some m"
    "m_lhs m = Some (if prefix (lit ''refs/'') s then NFullName s
      else case object_source s of Some i \<Rightarrow> NObject i | None \<Rightarrow> NPartialName s)"
    "(case m_rhs m of None \<Rightarrow> Some None | Some n \<Rightarrow> map_option Some (to_bstr_replace fh n None)) =
      Some (map_option plain_destination (rs_dst r))"
    by (rule matcher_plain [OF s(1,2) assms(4)])
  have m2: "m_lhs m = Some (if prefix (lit ''refs/'') s then NFullName s else NPartialName s)"
    unfolding m(2) s(3) by simp
  have "\<exists>x y. matches_lhs fh m item = Some (x, y) \<and> (\<forall>rhs. ref_maps r (full_ref_name item) rhs \<longleftrightarrow> x \<and> rhs = y)" for item
  proof -
    let ?q = "if prefix (lit ''refs/'') s then full_ref_name item = s else full_ref_name item \<in> set (expanded_names s)"
    define q where "q \<longleftrightarrow> ?q"
    define ln where "ln = (if prefix (lit ''refs/'') s then NFullName s else NPartialName s)"
    have nm: "needle_matches ln item = Some (if q then MNormal else MNone)"
      using first_some_expanded [of s "full_ref_name item" MNormal] by (simp add: q_def ln_def)
    have l: "m_lhs m = Some ln" using m2 by (simp only: ln_def)
    have "matches_lhs fh m item = Some (q, if q then map_option plain_destination (rs_dst r) else None)"
    proof (cases "m_rhs m")
      case None
      then have "rs_dst r = None" using m(3) by simp
      then show ?thesis using None nm l by (simp add: matches_lhs_def is_match_def)
    next
      case (Some nd)
      then obtain d where "rs_dst r = Some d" "to_bstr_replace fh nd None = Some (plain_destination d)"
        using m(3) by (cases "rs_dst r") auto
      then show ?thesis using Some nm l by (simp add: matches_lhs_def into_match_outcome_def)
    qed
    moreover have "ref_maps r (full_ref_name item) rhs \<longleftrightarrow> rhs = map_option plain_destination (rs_dst r) \<and> q" for rhs
      unfolding maps_plain [OF s(1,2)] using s(3) by (simp add: q_def)
    ultimately show ?thesis by auto
  qed
  moreover have "m_lhs m \<noteq> Some (NObject i)" for i using m2 by (simp split: if_split)
  ultimately show ?thesis using m(1) by blast
qed

lemma matches_star:
  assumes s: "rs_src r = Some (pre @ STAR # tail)" "STAR \<notin> set pre" and "balanced r"
  shows "\<exists>m. matcher_from bs fh r = Some m \<and> (\<forall>i. m_lhs m \<noteq> Some (NObject i)) \<and>
    (\<forall>item. if glob_overlap r (full_ref_name item) then matches_lhs fh m item = None
      else \<exists>x y. matches_lhs fh m item = Some (x, y) \<and> (\<forall>rhs. ref_maps r (full_ref_name item) rhs \<longleftrightarrow> x \<and> rhs = y))"
proof -
  obtain d where d: "rs_dst r = Some d" "STAR \<in> set d"
    using assms by (cases "rs_dst r") (auto simp: balanced_def has_star_def)
  then obtain dpre dtail where dd: "d = dpre @ STAR # dtail" "STAR \<notin> set dpre" using split_star by blast
  define m where "m = \<lparr>m_lhs = Some (NGlob (pre @ STAR # tail) (length pre)), m_rhs = Some (NGlob d (length dpre))\<rparr>"
  have "matcher_from bs fh r = Some m"
    using s d dd needle_star [OF s(2), of tail] needle_star [OF dd(2), of dtail]
    by (simp add: matcher_from_def side_needle_def m_def)
  moreover have "if glob_overlap r (full_ref_name item) then matches_lhs fh m item = None
      else \<exists>x y. matches_lhs fh m item = Some (x, y) \<and> (\<forall>rhs. ref_maps r (full_ref_name item) rhs \<longleftrightarrow> x \<and> rhs = y)" for item
  proof -
    let ?n = "full_ref_name item"
    have mm: "matches_lhs fh m item = (if prefix pre ?n \<and> suffix tail ?n
        then map_option (\<lambda>d. (True, Some d)) (to_bstr_replace fh (NGlob d (length dpre)) (Some (length pre, length ?n - length tail, ?n)))
        else Some (False, None))"
      using glob_matches [of pre tail item] by (simp add: matches_lhs_def m_def into_match_outcome_def)
    note maps = maps_star [OF s d(1) [unfolded dd(1)] dd(2), of ?n]
    show ?thesis
    proof (cases "prefix pre ?n \<and> suffix tail ?n")
      case False
      then have "\<not> glob_overlap r ?n" "\<not> ref_maps r ?n rhs" for rhs
        using overlap_star [OF s] maps by (auto simp: suffix_def)
      moreover have "matches_lhs fh m item = Some (False, None)" using False mm by simp
      ultimately show ?thesis by auto
    next
      case True
      show ?thesis
      proof (cases "length ?n < length pre + length tail")
        case l: True
        then have "glob_overlap r ?n" using True overlap_star [OF s] by simp
        moreover have "get_range ?n (length pre) (length ?n - length tail) = None" using l True suffix_length_le [of tail ?n] by (auto simp: get_range_def)
        ultimately show ?thesis using mm True by (simp add: Option.bind_eq_None_conv option.case_eq_if split: bind_splits)
      next
        case False
        then obtain mid where mid: "?n = pre @ mid @ tail"
          "to_bstr_replace fh (NGlob (dpre @ STAR # dtail) (length dpre)) (Some (length pre, length ?n - length tail, ?n)) =
            Some (dpre @ mid @ dtail)"
          using glob_replace [of pre tail ?n dpre dtail] True dd(2) by force
        then have "ref_maps r ?n rhs \<longleftrightarrow> rhs = Some (dpre @ mid @ dtail)" for rhs using maps by auto
        moreover have "\<not> glob_overlap r ?n" using False overlap_star [OF s] by simp
        moreover have "matches_lhs fh m item = Some (True, Some (dpre @ mid @ dtail))"
          unfolding mm dd(1) mid(2) using True by simp
        ultimately show ?thesis by auto
      qed
    qed
  qed
  moreover have "\<forall>i. m_lhs m \<noteq> Some (NObject i)" by (simp add: m_def)
  ultimately show ?thesis by blast
qed

lemma matches_spec:
  assumes "rs_src r = Some s" "object_source s = None" "balanced r"
  shows "\<exists>m. matcher_from bs fh r = Some m \<and> (\<forall>i. m_lhs m \<noteq> Some (NObject i)) \<and>
    (\<forall>item. if glob_overlap r (full_ref_name item) then matches_lhs fh m item = None
      else \<exists>x y. matches_lhs fh m item = Some (x, y) \<and> (\<forall>rhs. ref_maps r (full_ref_name item) rhs \<longleftrightarrow> x \<and> rhs = y))"
proof (cases "STAR \<in> set s")
  case True
  then obtain pre tail where "s = pre @ STAR # tail" "STAR \<notin> set pre" using split_star by blast
  then show ?thesis using matches_star [of r pre tail] assms by simp
next
  case False
  then show ?thesis using matches_plain [OF assms(1) False assms(2,3)] overlap_plain [OF assms(1) False] by simp
qed

text \<open>Matching all items with one specification gives a list of mappings, whatever was collected before.\<close>

lemma match_items_spec:
  assumes "\<And>item. item \<in> set items \<Longrightarrow>
      \<exists>x y. matches_lhs fh m item = Some (x, y) \<and> (\<forall>rhs. ref_maps r (full_ref_name item) rhs \<longleftrightarrow> x \<and> rhs = y)"
  shows "\<exists>cs. (\<forall>st. match_items fh hash (Some m) si ii items st = Some (foldl (push_unique hash) st cs)) \<and>
    (\<forall>c\<in>set cs. mp_spec_index c = si) \<and>
    mapping_key ` set cs = {(FullName n, rhs) |n rhs. n \<in> full_ref_name ` set items \<and> ref_maps r n rhs}"
  using assms
proof (induction items arbitrary: ii)
  case (Cons item items)
  obtain x y where xy: "matches_lhs fh m item = Some (x, y)" "\<And>rhs. ref_maps r (full_ref_name item) rhs \<longleftrightarrow> x \<and> rhs = y"
    using Cons.prems [of item] by auto
  obtain cs where cs: "\<And>st. match_items fh hash (Some m) si (ii + 1) items st = Some (foldl (push_unique hash) st cs)"
    "\<forall>c\<in>set cs. mp_spec_index c = si"
    "mapping_key ` set cs = {(FullName n, rhs) |n rhs. n \<in> full_ref_name ` set items \<and> ref_maps r n rhs}"
    using Cons.IH [of "ii + 1"] Cons.prems by auto
  define c where "c = \<lparr>mp_item_index = Some ii, mp_lhs = FullName (full_ref_name item), mp_rhs = y, mp_spec_index = si\<rparr>"
  have k: "mapping_key c = (FullName (full_ref_name item), y)" "mp_spec_index c = si" by (simp_all add: c_def mapping_key_def)
  let ?cs = "if x then c # cs else cs"
  have "match_items fh hash (Some m) si ii (item # items) st = Some (foldl (push_unique hash) st ?cs)" for st
    using xy(1) cs(1) by (simp add: c_def)
  moreover have "mapping_key ` set ?cs = {(FullName n, rhs) |n rhs. n \<in> full_ref_name ` set (item # items) \<and> ref_maps r n rhs}"
    using cs(3) k(1) xy(2) by auto
  moreover have "\<forall>c\<in>set ?cs. mp_spec_index c = si" using cs(2) k(2) by simp
  ultimately show ?case by blast
qed simp

lemma match_items_panics:
  assumes "item \<in> set items" "matches_lhs fh m item = None"
  shows "match_items fh hash (Some m) si ii items st = None"
  using assms
proof (induction items arbitrary: ii st)
  case (Cons a items)
  show ?case
  proof (cases "matches_lhs fh m a")
    case (Some p)
    then have "item \<in> set items" using Cons.prems by auto
    then show ?thesis using Cons.IH Cons.prems(2) by (simp add: Some split: prod.split)
  qed simp
qed simp

lemma init_matchers_spec:
  assumes "\<And>r. r \<in> set specs \<Longrightarrow> fetch_ok r"
  shows "\<exists>cs. (\<forall>st. init_matchers bs fh hash idx specs st = Some (map (matcher_of bs fh) specs, foldl (push_unique hash) st cs)) \<and>
    (\<forall>c\<in>set cs. mp_spec_index c < idx + length specs) \<and> mapping_key ` set cs = object_keys specs"
  using assms
proof (induction specs arbitrary: idx)
  case Nil
  then show ?case by (auto simp: object_keys_def)
next
  case (Cons r specs)
  obtain cs where cs: "\<And>st. init_matchers bs fh hash (idx + 1) specs st =
      Some (map (matcher_of bs fh) specs, foldl (push_unique hash) st cs)"
    "\<forall>c\<in>set cs. mp_spec_index c < idx + 1 + length specs" "mapping_key ` set cs = object_keys specs"
    using Cons.IH [of "idx + 1"] Cons.prems by auto
  obtain s where s: "rs_src r = Some s" "balanced r" using Cons.prems [of r] by (auto simp: fetch_ok_def)
  show ?case
  proof (cases "object_source s")
    case None
    obtain m where m: "matcher_from bs fh r = Some m" "\<forall>i. m_lhs m \<noteq> Some (NObject i)"
      using matches_spec [OF s(1) None s(2)] by blast
    then have "init_matchers bs fh hash idx (r # specs) st =
        Some (map (matcher_of bs fh) (r # specs), foldl (push_unique hash) st cs)" for st
      using cs(1) s(1) None by (cases "m_lhs m") (auto simp: matcher_of_def split: needle.split)
    moreover have "object_keys (r # specs) = object_keys specs" using s(1) None by (auto simp: object_keys_def)
    ultimately show ?thesis using cs(2,3) by (intro exI [of _ cs]) auto
  next
    case (Some i)
    note p = object_source_plain [OF Some]
    obtain m where m: "matcher_from bs fh r = Some m"
      "m_lhs m = Some (if prefix (lit ''refs/'') s then NFullName s
        else case object_source s of Some i \<Rightarrow> NObject i | None \<Rightarrow> NPartialName s)"
      "(case m_rhs m of None \<Rightarrow> Some None | Some n \<Rightarrow> map_option Some (to_bstr_replace fh n None)) =
        Some (map_option plain_destination (rs_dst r))"
      by (rule matcher_plain [OF s(1) p(1) s(2)])
    then have l: "m_lhs m = Some (NObject i)" using p Some by simp
    define c where "c = \<lparr>mp_item_index = None, mp_lhs = ObjectId i, mp_rhs = map_option plain_destination (rs_dst r),
      mp_spec_index = idx\<rparr>"
    have "init_matchers bs fh hash idx (r # specs) st =
        Some (map (matcher_of bs fh) (r # specs), foldl (push_unique hash) st (c # cs))" for st
      using cs(1) m(1,3) l s(1) Some by (simp add: matcher_of_def c_def)
    moreover have "object_keys (r # specs) = insert (mapping_key c) (object_keys specs)"
      using s(1) Some by (auto simp: object_keys_def c_def mapping_key_def)
    ultimately show ?thesis using cs(2,3) by (intro exI [of _ "c # cs"]) (auto simp: c_def)
  qed
qed

lemma spec_items:
  assumes "fetch_ok r"
  shows "(\<exists>item\<in>set items. glob_overlap r (full_ref_name item)) \<Longrightarrow> match_items fh hash (matcher_of bs fh r) si ii items st = None"
    and "\<not> (\<exists>item\<in>set items. glob_overlap r (full_ref_name item)) \<Longrightarrow>
      \<exists>cs. (\<forall>st. match_items fh hash (matcher_of bs fh r) si ii items st = Some (foldl (push_unique hash) st cs)) \<and>
      (\<forall>c\<in>set cs. mp_spec_index c = si) \<and>
      mapping_key ` set cs = {(FullName n, rhs) |n rhs. n \<in> full_ref_name ` set items \<and> ref_maps r n rhs}"
proof -
  obtain s where s: "rs_src r = Some s" "balanced r" using assms by (auto simp: fetch_ok_def)
  have o1: "match_items fh hash None si ii items st = Some st" for st
    by (induction items arbitrary: ii) auto
  have mex: "\<exists>m. matcher_of bs fh r = Some m \<and> (\<forall>item. if glob_overlap r (full_ref_name item) then matches_lhs fh m item = None
      else \<exists>x y. matches_lhs fh m item = Some (x, y) \<and> (\<forall>rhs. ref_maps r (full_ref_name item) rhs \<longleftrightarrow> x \<and> rhs = y))"
    if "object_source s = None"
    using matches_spec [OF s(1) that s(2)] s(1) that unfolding matcher_of_def by auto
  show "match_items fh hash (matcher_of bs fh r) si ii items st = None" if "\<exists>item\<in>set items. glob_overlap r (full_ref_name item)"
  proof -
    from that obtain item where i: "item \<in> set items" "glob_overlap r (full_ref_name item)" by blast
    then have n: "object_source s = None" using object_no_maps(2) [OF s(1)] by (cases "object_source s") auto
    from mex [OF n] obtain m where "matcher_of bs fh r = Some m" "matches_lhs fh m item = None" using i(2) by auto
    then show ?thesis using match_items_panics [OF i(1)] by simp
  qed
  show "\<exists>cs. (\<forall>st. match_items fh hash (matcher_of bs fh r) si ii items st = Some (foldl (push_unique hash) st cs)) \<and>
      (\<forall>c\<in>set cs. mp_spec_index c = si) \<and>
      mapping_key ` set cs = {(FullName n, rhs) |n rhs. n \<in> full_ref_name ` set items \<and> ref_maps r n rhs}"
    if no: "\<not> (\<exists>item\<in>set items. glob_overlap r (full_ref_name item))"
  proof (cases "object_source s")
    case None
    from mex [OF None] obtain m where m: "matcher_of bs fh r = Some m"
      "\<And>item. item \<in> set items \<Longrightarrow> \<exists>x y. matches_lhs fh m item = Some (x, y) \<and> (\<forall>rhs. ref_maps r (full_ref_name item) rhs \<longleftrightarrow> x \<and> rhs = y)"
      using no by auto
    show ?thesis unfolding m(1) by (rule match_items_spec) (rule m(2))
  next
    case (Some i)
    then show ?thesis using s(1) o1 object_no_maps(1) [OF s(1) Some] by (intro exI [of _ "[]"]) (auto simp: matcher_of_def)
  qed
qed

lemma match_specs_spec:
  assumes "\<And>r. r \<in> set specs \<Longrightarrow> fetch_ok r"
  shows "(\<exists>r\<in>set specs. rs_mode r \<noteq> Negative \<and> (\<exists>item\<in>set items. glob_overlap r (full_ref_name item))) \<Longrightarrow>
      match_specs fh hash si (zip specs (map (matcher_of bs fh) specs)) items neg st = None"
    and "\<not> (\<exists>r\<in>set specs. rs_mode r \<noteq> Negative \<and> (\<exists>item\<in>set items. glob_overlap r (full_ref_name item))) \<Longrightarrow>
      \<exists>cs. (\<forall>neg st. match_specs fh hash si (zip specs (map (matcher_of bs fh) specs)) items neg st =
          Some (neg \<or> (\<exists>r\<in>set specs. rs_mode r = Negative), foldl (push_unique hash) st cs)) \<and>
      (\<forall>c\<in>set cs. mp_spec_index c < si + length specs) \<and> mapping_key ` set cs = name_keys specs items"
  using assms
proof (induction specs arbitrary: si neg st)
  case (Cons r specs)
  {
    case 1
    show ?case
    proof (cases "rs_mode r \<noteq> Negative \<and> (\<exists>item\<in>set items. glob_overlap r (full_ref_name item))")
      case True
      then show ?thesis using spec_items(1) [of r items] "1.prems"(2) by simp
    next
      case False
      then have e: "\<exists>r\<in>set specs. rs_mode r \<noteq> Negative \<and> (\<exists>item\<in>set items. glob_overlap r (full_ref_name item))"
        using "1.prems"(1) by auto
      have "match_specs fh hash (si + 1) (zip specs (map (matcher_of bs fh) specs)) items neg' st' = None" for neg' st'
        by (rule Cons.IH(1) [OF e]) (simp add: "1.prems"(2))
      then show ?thesis by (cases "match_items fh hash (matcher_of bs fh r) si 0 items st") simp_all
    qed
  next
    case 2
    then have no: "\<not> (\<exists>r\<in>set specs. rs_mode r \<noteq> Negative \<and> (\<exists>item\<in>set items. glob_overlap r (full_ref_name item)))" by auto
    obtain cs where cs: "\<And>neg st. match_specs fh hash (si + 1) (zip specs (map (matcher_of bs fh) specs)) items neg st =
          Some (neg \<or> (\<exists>r\<in>set specs. rs_mode r = Negative), foldl (push_unique hash) st cs)"
      "\<forall>c\<in>set cs. mp_spec_index c < si + 1 + length specs" "mapping_key ` set cs = name_keys specs items"
      using Cons.IH(2) [OF no, of "si + 1"] "2.prems"(2) by auto
    show ?case
    proof (cases "rs_mode r = Negative")
      case True
      then have "name_keys (r # specs) items = name_keys specs items" by (auto simp: name_keys_def)
      then show ?thesis using cs True by (intro exI [of _ cs]) auto
    next
      case False
      then obtain ds where ds: "\<And>st. match_items fh hash (matcher_of bs fh r) si 0 items st = Some (foldl (push_unique hash) st ds)"
        "\<forall>c\<in>set ds. mp_spec_index c = si"
        "mapping_key ` set ds = {(FullName n, rhs) |n rhs. n \<in> full_ref_name ` set items \<and> ref_maps r n rhs}"
        using spec_items(2) [of r items hash si 0] "2.prems" by auto
      have "name_keys (r # specs) items = mapping_key ` set ds \<union> name_keys specs items"
        unfolding ds(3) using False by (auto simp: name_keys_def)
      then show ?thesis using cs ds(1,2) False by (intro exI [of _ "ds @ cs"]) (auto simp: image_Un)
    qed
  }
qed (auto simp: name_keys_def)

text \<open>A negative specification removes the mappings of the names it matches.\<close>

lemma retain_unmatched_spec:
  assumes "fetch_ok r" "rs_mode r = Negative"
  obtains m where "matcher_of bs fh r = Some m"
    "\<And>out. retain_unmatched fh m null_id out =
      Some (filter (\<lambda>c. case mp_lhs c of ObjectId _ \<Rightarrow> True | FullName n \<Rightarrow> \<not> ref_maps r n None) out)"
proof -
  obtain s where s: "rs_src r = Some s" "rs_dst r = None" "object_source s = None" "balanced r"
    using assms by (auto simp: fetch_ok_def)
  then have ns: "STAR \<notin> set s" by (simp add: balanced_def has_star_def)
  obtain m where m: "matcher_from bs fh r = Some m"
    "\<And>item. \<exists>x y. matches_lhs fh m item = Some (x, y) \<and> (\<forall>rhs. ref_maps r (full_ref_name item) rhs \<longleftrightarrow> x \<and> rhs = y)"
    using matches_plain [OF s(1) ns s(3,4)] by blast
  have "map_option (\<lambda>q. \<not> fst q) (matches_lhs fh m \<lparr>full_ref_name = n, item_target = null_id, item_object = None\<rparr>) =
      Some (\<not> ref_maps r n None)" for n
  proof -
    obtain x y where xy: "matches_lhs fh m \<lparr>full_ref_name = n, item_target = null_id, item_object = None\<rparr> = Some (x, y)"
      "\<forall>rhs. ref_maps r n rhs \<longleftrightarrow> x \<and> rhs = y"
      using m(2) [of "\<lparr>full_ref_name = n, item_target = null_id, item_object = None\<rparr>"] by auto
    have "x \<longleftrightarrow> ref_maps r n None"
    proof
      assume x
      then have "ref_maps r n y" using xy(2) by simp
      then have "y = None" using maps_plain [OF s(1) ns] s(2) by simp
      then show "ref_maps r n None" using \<open>x\<close> xy(2) by simp
    qed (use xy(2) in simp)
    then show ?thesis using xy(1) by simp
  qed
  then have keep: "(case mp_lhs c of ObjectId _ \<Rightarrow> Some True | FullName n \<Rightarrow> map_option (\<lambda>q. \<not> fst q)
        (matches_lhs fh m \<lparr>full_ref_name = n, item_target = null_id, item_object = None\<rparr>)) =
      Some (case mp_lhs c of ObjectId _ \<Rightarrow> True | FullName n \<Rightarrow> \<not> ref_maps r n None)" for c
    by (cases "mp_lhs c") simp_all
  have "retain_unmatched fh m null_id out =
      Some (filter (\<lambda>c. case mp_lhs c of ObjectId _ \<Rightarrow> True | FullName n \<Rightarrow> \<not> ref_maps r n None) out)" for out
    by (induction out) (simp_all only: retain_unmatched.simps keep filter.simps Option.bind.simps option.map)
  moreover have "matcher_of bs fh r = Some m" using s m(1) by (simp add: matcher_of_def)
  ultimately show thesis using that by blast
qed

lemma retain_all_spec:
  assumes "\<And>r. r \<in> set specs \<Longrightarrow> fetch_ok r"
  shows "retain_all fh (zip (map (matcher_of bs fh) specs) specs) null_id out =
    Some (filter (\<lambda>c. \<not> excluded specs (mp_lhs c)) out)"
  using assms
proof (induction specs arbitrary: out)
  case Nil
  then show ?case by (simp add: excluded_def split: source_ref.split)
next
  case (Cons r specs)
  show ?case
  proof (cases "rs_mode r = Negative")
    case True
    obtain m where m: "matcher_of bs fh r = Some m"
      "\<And>out. retain_unmatched fh m null_id out =
        Some (filter (\<lambda>c. case mp_lhs c of ObjectId _ \<Rightarrow> True | FullName n \<Rightarrow> \<not> ref_maps r n None) out)"
      using retain_unmatched_spec [OF _ True] Cons.prems [of r] by auto
    have "retain_all fh (zip (map (matcher_of bs fh) (r # specs)) (r # specs)) null_id out =
      Some (filter (\<lambda>c. \<not> excluded specs (mp_lhs c))
        (filter (\<lambda>c. case mp_lhs c of ObjectId _ \<Rightarrow> True | FullName n \<Rightarrow> \<not> ref_maps r n None) out))"
      using m True Cons by simp
    also have "\<dots> = Some (filter (\<lambda>c. \<not> excluded (r # specs) (mp_lhs c)) out)"
      unfolding filter_filter using True
      by (intro arg_cong [where f = Some] filter_cong) (auto simp: excluded_def split: source_ref.split)
    finally show ?thesis .
  next
    case False
    then have "excluded (r # specs) lhs = excluded specs lhs" for lhs by (auto simp: excluded_def split: source_ref.split)
    then show ?thesis using False Cons by (cases "matcher_of bs fh r") simp_all
  qed
qed

lemma match_remotes_spec:
  assumes all: "\<forall>r\<in>set specs. fetch_ok r" "\<forall>item\<in>set items. length (item_target item) = 20"
  shows "(\<exists>r\<in>set specs. rs_mode r \<noteq> Negative \<and> (\<exists>item\<in>set items. glob_overlap r (full_ref_name item))) \<Longrightarrow>
      match_remotes bs fh hash specs items = None"
    and "\<not> (\<exists>r\<in>set specs. rs_mode r \<noteq> Negative \<and> (\<exists>item\<in>set items. glob_overlap r (full_ref_name item))) \<Longrightarrow>
      \<exists>ms. match_remotes bs fh hash specs items = Some \<lparr>mo_group = specs, mo_mappings = ms\<rparr> \<and>
      distinct (map mapping_key ms) \<and> (\<forall>m\<in>set ms. mp_spec_index m < length specs) \<and>
      mapping_key ` set ms \<subseteq> wanted_keys specs items \<and>
      (inj_on hash (object_keys specs \<union> name_keys specs items) \<longrightarrow> mapping_key ` set ms = wanted_keys specs items)"
proof -
  have ok: "r \<in> set specs \<Longrightarrow> fetch_ok r" and tg: "item \<in> set items \<Longrightarrow> length (item_target item) = 20" for r item
    using all by blast+
  obtain cs where cs: "\<And>st. init_matchers bs fh hash 0 specs st = Some (map (matcher_of bs fh) specs, foldl (push_unique hash) st cs)"
    "\<forall>c\<in>set cs. mp_spec_index c < length specs" "mapping_key ` set cs = object_keys specs"
    using init_matchers_spec [OF ok, of specs hash 0] by auto
  show "match_remotes bs fh hash specs items = None"
    if "\<exists>r\<in>set specs. rs_mode r \<noteq> Negative \<and> (\<exists>item\<in>set items. glob_overlap r (full_ref_name item))"
    using match_specs_spec(1) [OF ok that] by (simp add: match_remotes_def cs(1))
  assume no: "\<not> (\<exists>r\<in>set specs. rs_mode r \<noteq> Negative \<and> (\<exists>item\<in>set items. glob_overlap r (full_ref_name item)))"
  obtain ds where ds: "\<And>neg st. match_specs fh hash 0 (zip specs (map (matcher_of bs fh) specs)) items neg st =
          Some (neg \<or> (\<exists>r\<in>set specs. rs_mode r = Negative), foldl (push_unique hash) st ds)"
      "\<forall>c\<in>set ds. mp_spec_index c < length specs" "mapping_key ` set ds = name_keys specs items"
    using match_specs_spec(2) [OF ok no, of hash 0] by auto
  obtain seen out where f: "foldl (push_unique hash) ([], []) (cs @ ds) = (seen, out)" by (cases "foldl (push_unique hash) ([], []) (cs @ ds)")
  have "foldl (push_unique hash) (map hash (rev (map mapping_key [])), []) (cs @ ds) = (seen, out)" using f by simp
  note pu = push_unique_foldl [OF this]
  have sub: "set out \<subseteq> set cs \<union> set ds" and dist: "distinct (map mapping_key out)"
    and keys: "inj_on hash (object_keys specs \<union> name_keys specs items) \<longrightarrow>
      mapping_key ` set out = object_keys specs \<union> name_keys specs items"
    using pu(2-4) cs(3) ds(3) by (simp_all add: image_Un)
  have ksub: "mapping_key ` set out \<subseteq> object_keys specs \<union> name_keys specs items"
    unfolding cs(3) [symmetric] ds(3) [symmetric] image_Un [symmetric] using sub by (rule image_mono)
  define ms where "ms = filter (\<lambda>c. \<not> excluded specs (mp_lhs c)) out"
  have "(case items of item # _ \<Rightarrow> if \<exists>r\<in>set specs. rs_mode r = Negative then
            Option.bind (outcome_option (oid_kind (item_target item))) (\<lambda>hash_kind.
              retain_all fh (zip (map (matcher_of bs fh) specs) specs) (object_id_as_slice (object_id_null hash_kind)) out)
          else Some out | [] \<Rightarrow> Some out) = Some ms"
  proof (cases items)
    case Nil
    have "\<not> excluded specs (mp_lhs c)" if "c \<in> set out" for c
    proof -
      have "mapping_key c \<in> object_keys specs" using that ksub Nil by (auto simp: name_keys_def)
      then show ?thesis by (auto simp: object_keys_def mapping_key_def excluded_def)
    qed
    then show ?thesis using Nil by (simp add: ms_def)
  next
    case (Cons item rest)
    then have "outcome_option (oid_kind (item_target item)) = Some KSha1"
      using tg [of item] by (simp add: oid_kind_def kind_from_len_in_bytes_def outcome_option_def)
    moreover have "\<not> excluded specs lhs" if "\<not> (\<exists>r\<in>set specs. rs_mode r = Negative)" for lhs
      using that by (auto simp: excluded_def split: source_ref.split)
    ultimately show ?thesis using Cons retain_all_spec [OF ok] by (auto simp: ms_def)
  qed
  then have "match_remotes bs fh hash specs items = Some \<lparr>mo_group = specs, mo_mappings = ms\<rparr>"
    using f by (simp add: match_remotes_def cs(1) ds(1))
  moreover have "distinct (map mapping_key ms)" using dist by (simp add: ms_def distinct_map_filter)
  moreover have "\<forall>m\<in>set ms. mp_spec_index m < length specs" using sub cs(2) ds(2) by (auto simp: ms_def)
  moreover have im: "mapping_key ` set ms = {k \<in> mapping_key ` set out. \<not> excluded specs (fst k)}"
    by (auto simp: ms_def mapping_key_def)
  then have "mapping_key ` set ms \<subseteq> wanted_keys specs items" using ksub by (auto simp: wanted_keys_def)
  moreover have "inj_on hash (object_keys specs \<union> name_keys specs items) \<longrightarrow> mapping_key ` set ms = wanted_keys specs items"
    using im keys by (simp add: wanted_keys_def)
  ultimately show "\<exists>ms. match_remotes bs fh hash specs items = Some \<lparr>mo_group = specs, mo_mappings = ms\<rparr> \<and>
      distinct (map mapping_key ms) \<and> (\<forall>m\<in>set ms. mp_spec_index m < length specs) \<and>
      mapping_key ` set ms \<subseteq> wanted_keys specs items \<and>
      (inj_on hash (object_keys specs \<union> name_keys specs items) \<longrightarrow> mapping_key ` set ms = wanted_keys specs items)"
    by blast
qed

end

interpretation ref_refspec: refspec_crates reference_bstr reference_hex
  by unfold_locales

section \<open>Prefixes\<close>

context refspec_crates
begin

text \<open>The prefix of a full name has no star, so it ends before the star of the name.\<close>

lemma prefix_covers:
  assumes s: "rs_src r = Some s" "s \<noteq> HEAD" "rs_op r = OpFetch" "rs_mode r \<noteq> Negative" "rs_prefix bs r = Some (Some p)"
    and m: "ref_maps r n rhs"
  shows "prefix p n"
proof -
  have ps: "prefix p s" "STAR \<notin> set p" "prefix (lit ''refs/'') s"
    using s by (auto simp: rs_prefix_def strip_refs_def get_range_def take_is_prefix split: option.splits if_splits)
  show ?thesis
  proof (cases "STAR \<in> set s")
    case False
    then have "n = s" using m maps_plain [OF s(1)] ps(3) by simp
    then show ?thesis using ps(1) by simp
  next
    case True
    from m show ?thesis
    proof cases
      case (glob pre tail dpre dtail mid)
      then have "prefix p (pre @ STAR # tail)" using ps(1) s(1) by simp
      then consider "prefix p pre" | us where "p = pre @ us" "prefix us (STAR # tail)" by (auto simp: prefix_append)
      then have "prefix p pre"
      proof cases
        case 2
        then have "us = []" using ps(2) by (cases us) auto
        then show ?thesis using 2 by simp
      qed
      then show ?thesis using glob by auto
    qed (use s(1) True in auto)
  qed
qed

lemma expand_prefixes_covers:
  assumes s: "rs_src r = Some s" "s \<noteq> HEAD" "rs_op r = OpFetch" "rs_mode r \<noteq> Negative"
    and g: "STAR \<in> set s \<longrightarrow> rs_prefix bs r \<noteq> Some None" and m: "ref_maps r n rhs"
  shows "\<exists>ps. expand_prefixes bs fh r out = Some (out @ ps) \<and> (\<exists>p\<in>set ps. prefix p n)"
proof -
  have np: "rs_prefix bs r \<noteq> None"
    using s position_SomeD(1) [of "\<lambda>c. c = SLASH" "drop 5 s"]
    by (auto simp: rs_prefix_def strip_refs_def get_range_def find_byte split: option.splits)
  show ?thesis
  proof (cases "rs_prefix bs r = Some None")
    case False
    then obtain p where p: "rs_prefix bs r = Some (Some p)" using np by auto
    then show ?thesis using prefix_covers [OF s p m] by (simp add: expand_prefixes_def)
  next
    case True
    then have ns: "STAR \<notin> set s" using g by blast
    show ?thesis
    proof (cases "prefix (lit ''refs/'') s")
      case refs: True
      then have "find_byte bs (drop 5 s) SLASH = None" 
        using True s ns by (auto simp: rs_prefix_def strip_refs_def get_range_def dest: in_set_takeD split: option.splits if_splits)
      then have "SLASH \<notin> set (drop 5 s)" by (simp add: find_byte_None)
      moreover have "n = s" using m maps_plain [OF s(1) ns] refs by simp
      ultimately show ?thesis using True s refs by (simp add: expand_prefixes_def strip_refs_def)
    next
      case False
      then have "object_source s = None" "n \<in> set (expanded_names s)" using m maps_plain [OF s(1) ns] by simp_all
      then have "\<exists>e. object_id_from_hex fh s = Err e"
        by (auto simp: from_hex_eq object_source_def split: if_splits option.splits)
      then have "expand_prefixes bs fh r out = Some (out @ expanded_names s)"
        using True s False by (auto simp: expand_prefixes_def strip_refs_def)
      then show ?thesis using \<open>n \<in> set (expanded_names s)\<close> by auto
    qed
  qed
qed

end

section \<open>Properties\<close>

lemma fetch_ok_parsed:
  "refspec_crates bs fh \<Longrightarrow> \<exists>t. refspec_parse bs revspec t OpFetch = Ok r \<Longrightarrow> fetch_ok r \<and> rs_instruction r \<noteq> None"
  using bstr_spec.refspec_parse_wf [of bs revspec _ OpFetch r] fetch_okI [of revspec r] wf_instruction [of revspec r]
  by (auto simp: refspec_crates_def)

text \<open>A fetch of all branches from a remote with one branch.\<close>

definition example_spec :: refspec where
  "example_spec = \<lparr>rs_mode = Force, rs_op = OpFetch, rs_src = Some (lit ''refs/heads/*''), rs_dst = Some (lit ''refs/remotes/o/*'')\<rparr>"

definition example_item :: ref_item where
  "example_item = \<lparr>full_ref_name = lit ''refs/heads/main'', item_target = replicate 20 1, item_object = None\<rparr>"

definition example_mapping :: ref_mapping where
  "example_mapping = \<lparr>mp_item_index = Some 0, mp_lhs = FullName (lit ''refs/heads/main''),
     mp_rhs = Some (lit ''refs/remotes/o/main''), mp_spec_index = 0\<rparr>"

lemma example_parsed:
  "refspec_parse reference_bstr (\<lambda>s. Ok () :: (unit, nat) outcome) (lit ''+refs/heads/*:refs/remotes/o/*'') OpFetch = Ok example_spec"
  by code_simp

lemma example_keys:
  "object_keys [example_spec] \<union> name_keys [example_spec] [example_item] =
     {(FullName (lit ''refs/heads/main''), Some (lit ''refs/remotes/o/main''))}"
proof -
  have o: "object_source (lit ''refs/heads/*'') = None" by code_simp
  have "ref_maps example_spec n rhs \<longleftrightarrow> (\<exists>mid. n = lit ''refs/heads/'' @ mid @ [] \<and> rhs = Some (lit ''refs/remotes/o/'' @ mid @ []))" for n rhs
    by (rule maps_star) (simp_all add: example_spec_def)
  then have "ref_maps example_spec (lit ''refs/heads/main'') rhs \<longleftrightarrow> rhs = Some (lit ''refs/remotes/o/main'')" for rhs by simp
  then have "name_keys [example_spec] [example_item] = {(FullName (lit ''refs/heads/main''), Some (lit ''refs/remotes/o/main''))}"
    unfolding name_keys_def by (auto simp: example_item_def example_spec_def)
  moreover have "object_keys [example_spec] = {}" using o by (auto simp: object_keys_def example_spec_def)
  ultimately show ?thesis by simp
qed

text \<open>
  C12: Matching the references of a remote with parsed specifications for fetching finds exactly the mappings the
  specifications ask for, each once: an object id that is a source, with its destination; and the name of a
  reference with a destination if some specification maps it there and no exclusion matches it.  A full name maps
  itself, a partial name everything it expands to, and a star what stands for it on both sides.  This holds where no name has the
  two ends of a glob overlap and where the hash that recognizes duplicates is injective on the mappings at hand.
\<close>

theorem match_remotes_finds_wanted_mappings:
  assumes "refspec_crates bs fh" and "\<forall>r\<in>set specs. \<exists>t. refspec_parse bs revspec t OpFetch = Ok r"
    and "\<forall>item\<in>set items. length (item_target item) = 20"
    and "\<forall>r\<in>set specs. \<forall>item\<in>set items. \<not> glob_overlap r (full_ref_name item)"
    and "inj_on hash (object_keys specs \<union> name_keys specs items)"
  shows "\<exists>ms. match_remotes bs fh hash specs items = Some \<lparr>mo_group = specs, mo_mappings = ms\<rparr> \<and>
    distinct (map mapping_key ms) \<and> mapping_key ` set ms = wanted_keys specs items"
proof -
  have ok: "\<forall>r\<in>set specs. fetch_ok r" using fetch_ok_parsed [OF assms(1)] assms(2) by blast
  have "\<not> (\<exists>r\<in>set specs. rs_mode r \<noteq> Negative \<and> (\<exists>item\<in>set items. glob_overlap r (full_ref_name item)))" using assms(4) by blast
  from refspec_crates.match_remotes_spec(2) [OF assms(1) ok assms(3) this, of hash] assms(5) show ?thesis by blast
qed

theorem match_remotes_finds_wanted_mappings_witness:
  "\<exists>ms. match_remotes reference_bstr reference_hex (\<lambda>k. 0) [example_spec] [example_item] = Some \<lparr>mo_group = [example_spec], mo_mappings = ms\<rparr> \<and>
     mapping_key ` set ms = {(FullName (lit ''refs/heads/main''), Some (lit ''refs/remotes/o/main''))}"
proof -
  have p: "\<forall>r\<in>set [example_spec]. \<exists>t. refspec_parse reference_bstr (\<lambda>s. Ok () :: (unit, nat) outcome) t OpFetch = Ok r"
    using example_parsed by auto
  have l: "\<forall>item\<in>set [example_item]. length (item_target item) = 20" by (simp add: example_item_def)
  have "\<not> glob_overlap example_spec (full_ref_name example_item)" by code_simp
  then have g: "\<forall>r\<in>set [example_spec]. \<forall>item\<in>set [example_item]. \<not> glob_overlap r (full_ref_name item)" by simp
  have "inj_on (\<lambda>k :: map_key. 0 :: u64) (object_keys [example_spec] \<union> name_keys [example_spec] [example_item])"
    unfolding example_keys by simp
  from match_remotes_finds_wanted_mappings [OF ref_refspec.refspec_crates_axioms p l g this] show ?thesis
    unfolding wanted_keys_def example_keys by (auto simp: excluded_def example_spec_def)
qed

text \<open>
  C14: Matching panics if and only if a specification has a star whose surroundings overlap in the name of a reference of the remote, that
  is, the name begins with what stands before the star and ends with what stands behind it but is shorter than both together; a
  remote with a branch \<^verbatim>\<open>a\<close> makes a fetch of \<^verbatim>\<open>refs/heads/*/a:refs/remotes/*/a\<close> panic.
\<close>

theorem match_remotes_panics_on_overlap:
  assumes "refspec_crates bs fh" and "\<forall>r\<in>set specs. \<exists>t. refspec_parse bs revspec t OpFetch = Ok r"
    and "\<forall>item\<in>set items. length (item_target item) = 20"
  shows "match_remotes bs fh hash specs items = None \<longleftrightarrow>
    (\<exists>r\<in>set specs. rs_mode r \<noteq> Negative \<and> (\<exists>item\<in>set items. glob_overlap r (full_ref_name item)))"
proof -
  have ok: "\<forall>r\<in>set specs. fetch_ok r" using fetch_ok_parsed [OF assms(1)] assms(2) by blast
  show ?thesis
    using refspec_crates.match_remotes_spec [OF assms(1) ok assms(3), of hash] by force
qed

theorem match_remotes_panics_on_overlap_witness:
  "match_remotes reference_bstr reference_hex (\<lambda>k. 0)
     [\<lparr>rs_mode = Normal, rs_op = OpFetch, rs_src = Some (lit ''refs/heads/*/a''), rs_dst = Some (lit ''refs/remotes/*/a'')\<rparr>]
     [\<lparr>full_ref_name = lit ''refs/heads/a'', item_target = replicate 20 1, item_object = None\<rparr>] = None"
proof -
  let ?r = "\<lparr>rs_mode = Normal, rs_op = OpFetch, rs_src = Some (lit ''refs/heads/*/a''), rs_dst = Some (lit ''refs/remotes/*/a'')\<rparr>"
  have p: "refspec_parse reference_bstr (\<lambda>s. Ok () :: (unit, nat) outcome) (lit ''refs/heads/*/a:refs/remotes/*/a'') OpFetch = Ok ?r"
    by code_simp
  have "glob_overlap ?r (lit ''refs/heads/a'')" by code_simp
  then show ?thesis
    using match_remotes_panics_on_overlap [OF ref_refspec.refspec_crates_axioms, of "[?r]" "\<lambda>s. Ok () :: (unit, nat) outcome"
        "[\<lparr>full_ref_name = lit ''refs/heads/a'', item_target = replicate 20 1, item_object = None\<rparr>]" "\<lambda>k. 0"] p by auto
qed

text \<open>
  C13: Validating the mappings that were matched never panics.  It fails exactly if two different sources are mapped to one
  destination, and then reports every such destination, in order, with all of its sources.  Otherwise it keeps the mappings
  that have no destination or a destination in \<^verbatim>\<open>refs/\<close> (or \<^verbatim>\<open>HEAD\<close>), and names the destinations of the others: no destination that is kept is
  written from two sources.
\<close>

theorem validated_mappings_do_not_conflict:
  assumes "refspec_crates bs fh" and "\<forall>r\<in>set specs. \<exists>t. refspec_parse bs revspec t OpFetch = Ok r"
    and "\<forall>item\<in>set items. length (item_target item) = 20" and "match_remotes bs fh hash specs items = Some o1"
  shows "case outcome_validated o1 of
      Panic \<Rightarrow> False
    | Err issues \<Rightarrow>
        issues \<noteq> [] \<and> set (map issue_destination issues) = {dst. conflicting (mo_mappings o1) dst} \<and>
        sorted_wrt (\<lambda>a b. cmp_slice a b = Less) (map issue_destination issues) \<and>
        (\<forall>i\<in>set issues. set (issue_sources i) =
          {mp_lhs m |m. m \<in> set (mo_mappings o1) \<and> mp_rhs m = Some (issue_destination i)})
    | Ok (o2, fixed) \<Rightarrow>
        o2 = o1\<lparr>mo_mappings := filter kept_mapping (mo_mappings o1)\<rparr> \<and>
        map (\<lambda>f. Some (fix_name f)) fixed = map mp_rhs (filter (\<lambda>m. \<not> kept_mapping m) (mo_mappings o1)) \<and>
        (\<forall>m\<in>set (mo_mappings o2). \<forall>n\<in>set (mo_mappings o2). mp_rhs m = mp_rhs n \<longrightarrow> mp_rhs m = None \<or> mp_lhs m = mp_lhs n)"
proof -
  have ok: "\<forall>r\<in>set specs. fetch_ok r" using fetch_ok_parsed [OF assms(1)] assms(2) by blast
  note mr = refspec_crates.match_remotes_spec [OF assms(1) ok assms(3), of hash]
  have "\<not> (\<exists>r\<in>set specs. rs_mode r \<noteq> Negative \<and> (\<exists>item\<in>set items. glob_overlap r (full_ref_name item)))"
    using mr(1) assms(4) by auto
  from mr(2) [OF this] obtain ms where "o1 = \<lparr>mo_group = specs, mo_mappings = ms\<rparr>" "\<forall>m\<in>set ms. mp_spec_index m < length specs"
    using assms(4) by auto
  moreover have "\<forall>r\<in>set specs. rs_instruction r \<noteq> None" using fetch_ok_parsed [OF assms(1)] assms(2) by blast
  ultimately have wf: "wf_outcome o1" by (simp add: wf_outcome_def list_all_iff)
  show ?thesis
  proof (cases "\<exists>dst. conflicting (mo_mappings o1) dst")
    case True
    with outcome_validated_spec(1) [OF wf True] show ?thesis by force
  next
    case False
    have "mp_rhs m = None \<or> mp_lhs m = mp_lhs n"
      if "m \<in> set (mo_mappings o1)" "n \<in> set (mo_mappings o1)" "mp_rhs m = mp_rhs n" for m n
    proof (cases "mp_rhs m")
      case (Some d)
      then have "mp_rhs n = Some d" using that(3) by simp
      moreover have "\<not> conflicting (mo_mappings o1) d" using False by blast
      ultimately show ?thesis using Some that(1,2) unfolding conflicting_def list_ex_iff by blast
    qed simp
    then show ?thesis using outcome_validated_spec(2) [OF wf False] by auto
  qed
qed

theorem validated_mappings_do_not_conflict_witness:
  "match_remotes reference_bstr reference_hex (\<lambda>k. 0) [example_spec] [example_item] =
     Some \<lparr>mo_group = [example_spec], mo_mappings = [example_mapping]\<rparr> \<and>
   (\<exists>o2 fixed. outcome_validated \<lparr>mo_group = [example_spec], mo_mappings = [example_mapping]\<rparr> = Ok (o2, fixed) \<and>
      mo_mappings o2 = filter kept_mapping [example_mapping])"
proof -
  let ?o = "\<lparr>mo_group = [example_spec], mo_mappings = [example_mapping]\<rparr>"
  have m: "match_remotes reference_bstr reference_hex (\<lambda>k. 0) [example_spec] [example_item] = Some ?o" by code_simp
  have p: "\<forall>r\<in>set [example_spec]. \<exists>t. refspec_parse reference_bstr (\<lambda>s. Ok () :: (unit, nat) outcome) t OpFetch = Ok r"
    using example_parsed by auto
  have l: "\<forall>item\<in>set [example_item]. length (item_target item) = 20" by (simp add: example_item_def)
  have v: "outcome_validated ?o = Ok (?o, [])" by code_simp
  from validated_mappings_do_not_conflict [OF ref_refspec.refspec_crates_axioms p l m]
  have "?o = ?o\<lparr>mo_mappings := filter kept_mapping (mo_mappings ?o)\<rparr>"
    unfolding v outcome.case prod.case by (elim conjE)
  from arg_cong [OF this, of mo_mappings] have "mo_mappings ?o = filter kept_mapping [example_mapping]"
    by (simp only: match_outcome.simps)
  then show ?thesis using m v by blast
qed

text \<open>
  C17: A reference that a fetch specification maps starts with one of the prefixes under which the server is asked for references, so
  asking by prefix loses nothing; the specification is not \<^verbatim>\<open>HEAD\<close> and, when it has a star, has a prefix of
  two components without it (\<^verbatim>\<open>refs/*:refs/*\<close> has none: it asks for the prefix \<^verbatim>\<open>refs/*\<close> itself).
\<close>

theorem prefixes_cover_mapped_references:
  assumes "refspec_crates bs fh" and "rs_src r = Some s" and "s \<noteq> HEAD" and "rs_op r = OpFetch" and "rs_mode r \<noteq> Negative"
    and "STAR \<in> set s \<longrightarrow> rs_prefix bs r \<noteq> Some None" and "ref_maps r n rhs"
  shows "\<exists>ps. expand_prefixes bs fh r out = Some (out @ ps) \<and> (\<exists>p\<in>set ps. prefix p n)"
  using refspec_crates.expand_prefixes_covers [OF assms] .

theorem prefixes_cover_mapped_references_witness:
  "\<exists>ps. expand_prefixes reference_bstr reference_hex
      \<lparr>rs_mode = Normal, rs_op = OpFetch, rs_src = Some (lit ''refs/heads/*''), rs_dst = Some (lit ''refs/remotes/o/*'')\<rparr> [] = Some ([] @ ps) \<and>
     (\<exists>p\<in>set ps. prefix p (lit ''refs/heads/main''))"
proof (rule prefixes_cover_mapped_references [OF ref_refspec.refspec_crates_axioms])
  let ?r = "\<lparr>rs_mode = Normal, rs_op = OpFetch, rs_src = Some (lit ''refs/heads/*''), rs_dst = Some (lit ''refs/remotes/o/*'')\<rparr>"
  have "ref_maps ?r (lit ''refs/heads/'' @ lit ''main'' @ []) (Some (lit ''refs/remotes/o/'' @ lit ''main'' @ []))"
    by (rule ref_maps.glob) simp_all
  then show "ref_maps ?r (lit ''refs/heads/main'') (Some (lit ''refs/remotes/o/main''))" by simp
  show "STAR \<in> set (lit ''refs/heads/*'') \<longrightarrow> rs_prefix reference_bstr ?r \<noteq> Some None" by code_simp
qed (simp_all add: HEAD_def)

text \<open>The specification of a mirror asks for a prefix no reference has.\<close>

lemma mirror_prefix:
  "expand_prefixes reference_bstr reference_hex
     \<lparr>rs_mode = Force, rs_op = OpFetch, rs_src = Some (lit ''refs/*''), rs_dst = Some (lit ''refs/*'')\<rparr> [] = Some [lit ''refs/*'']"
  by code_simp

end
