(* ===== verification/Gix_Revspec_Grammar.thy ===== *)
theory Gix_Revspec_Grammar
  imports Gix_Revspec
begin

text \<open>
  Revision specifications in git's syntax and the calls of the delegate they stand for.  \<open>rev_spec\<close> is the abstract syntax of
  single revisions and ranges with their anchors and navigation, of searches and of paths in the index; \<open>print_spec\<close> writes it down, and
  \<open>spec_steps\<close> lists what the delegate is told: a list of steps, each of them a list of calls that are alternatives to each other.
  \<open>wf_spec\<close> says which of them are covered.  The lemmas show that the parser makes exactly these calls, in this order, until the
  delegate refuses all alternatives of a step.
\<close>

section \<open>Abstract syntax\<close>

datatype rev_nav =
    Ancestor nat
  | FirstAncestor
  | Parent nat
  | FirstParent
  | CommitOf
  | PeelObject object_kind
  | PeelExisting
  | PeelTags
  | Search bytes bool

text \<open>A reflog entry by its number or by a date, which is kept together with its meaning, or a branch next to the one that is named.\<close>

datatype 't rev_reflog = AtEntry nat | AtSibling sibling_branch | AtDate bytes 't

text \<open>An anchor is \<^verbatim>\<open>@\<close>, a reference, an abbreviated object id, the output of \<^verbatim>\<open>git describe\<close>, or in the reflog.\<close>

datatype 't rev_anchor =
    AtHead
  | RefName bytes
  | ObjectHex bytes
  | DescribeName bytes nat bytes
  | RefReflog bytes "'t rev_reflog"
  | CurrentReflog "'t rev_reflog"
  | CheckedOut nat

type_synonym 't rev_side = "'t rev_anchor \<times> rev_nav list"

text \<open>
  Specifications: a single revision, what is not reachable from one, a range whose ends may be left out, the parents of a revision
  with and without it, the range from a parent of a reference (or of \<^verbatim>\<open>@\<close>), a search in all commits, and a path in the index.
\<close>

datatype range_op = TwoDots | ThreeDots

datatype 't rev_spec =
    SpecSingle "'t rev_side" "bytes option"
  | SpecExclude "'t rev_side" "bytes option"
  | SpecRange "'t rev_side option" range_op "'t rev_side option" "bytes option"
  | SpecParents "'t rev_side" bool
  | SpecFromParent "bytes option" "nat option"
  | SpecSearch bytes bool
  | SpecIndex "nat option" bytes

section \<open>Concrete syntax\<close>

fun escape_braces :: "bytes \<Rightarrow> bytes" where
  "escape_braces [] = []"
| "escape_braces (b # s) = (if b \<in> {0x7b, 0x7d, 0x5c} then [0x5c, b] else [b]) @ escape_braces s"

definition in_braces :: "bytes \<Rightarrow> bytes" where
  "in_braces s = lit ''{'' @ escape_braces s @ lit ''}''"

fun peel_name :: "object_kind \<Rightarrow> bytes" where
  "peel_name KCommit = lit ''commit''"
| "peel_name KTag = lit ''tag''"
| "peel_name KTree = lit ''tree''"
| "peel_name KBlob = lit ''blob''"

definition print_regex :: "bytes \<Rightarrow> bool \<Rightarrow> bytes" where
  "print_regex regex negated = (if negated then lit ''!-'' else if get_at regex 0 = Some 0x21 then lit ''!'' else []) @ regex"

fun print_nav :: "rev_nav \<Rightarrow> bytes" where
  "print_nav (Ancestor n) = lit ''~'' @ decimal n"
| "print_nav FirstAncestor = lit ''~''"
| "print_nav (Parent n) = lit ''^'' @ decimal n"
| "print_nav FirstParent = lit ''^''"
| "print_nav CommitOf = lit ''^0''"
| "print_nav (PeelObject k) = lit ''^'' @ in_braces (peel_name k)"
| "print_nav PeelExisting = lit ''^'' @ in_braces (lit ''object'')"
| "print_nav PeelTags = lit ''^'' @ in_braces []"
| "print_nav (Search regex negated) = lit ''^'' @ in_braces (lit ''/'' @ print_regex regex negated)"

fun reflog_text :: "'t rev_reflog \<Rightarrow> bytes" where
  "reflog_text (AtEntry n) = decimal n"
| "reflog_text (AtSibling Upstream) = lit ''upstream''"
| "reflog_text (AtSibling SiblingPush) = lit ''push''"
| "reflog_text (AtDate x t) = x"

definition describe_name :: "bytes \<Rightarrow> nat \<Rightarrow> bytes \<Rightarrow> bytes" where
  "describe_name tag gen ds = tag @ 0x2d # decimal gen @ 0x2d # 0x67 # ds"

fun print_anchor :: "'t rev_anchor \<Rightarrow> bytes" where
  "print_anchor AtHead = lit ''@''"
| "print_anchor (RefName name) = name"
| "print_anchor (ObjectHex ds) = ds"
| "print_anchor (DescribeName tag gen ds) = describe_name tag gen ds"
| "print_anchor (RefReflog name r) = name @ lit ''@'' @ in_braces (reflog_text r)"
| "print_anchor (CurrentReflog r) = lit ''@'' @ in_braces (reflog_text r)"
| "print_anchor (CheckedOut n) = lit ''@'' @ in_braces (lit ''-'' @ decimal n)"

definition print_side :: "'t rev_side \<Rightarrow> bytes" where
  "print_side s = print_anchor (fst s) @ concat (map print_nav (snd s))"

definition print_path :: "bytes option \<Rightarrow> bytes" where
  "print_path p = (case p of Some path \<Rightarrow> lit '':'' @ path | None \<Rightarrow> [])"

fun print_end :: "'t rev_side option \<Rightarrow> bytes" where
  "print_end (Some s) = print_side s"
| "print_end None = []"

fun print_op :: "range_op \<Rightarrow> bytes" where
  "print_op TwoDots = lit ''..''"
| "print_op ThreeDots = lit ''...''"

text \<open>The range from a parent starts at \<^verbatim>\<open>@\<close> or a reference, and at the first parent if there is no number.\<close>

definition from_name :: "bytes option \<Rightarrow> bytes" where
  "from_name name = (case name of Some n \<Rightarrow> n | None \<Rightarrow> lit ''@'')"

definition from_number :: "nat option \<Rightarrow> bytes" where
  "from_number n = (case n of Some k \<Rightarrow> decimal k | None \<Rightarrow> [])"

definition print_stage :: "nat option \<Rightarrow> bytes" where
  "print_stage stage = (case stage of Some n \<Rightarrow> decimal n @ lit '':'' | None \<Rightarrow> [])"

fun print_spec :: "'t rev_spec \<Rightarrow> bytes" where
  "print_spec (SpecSingle s p) = print_side s @ print_path p"
| "print_spec (SpecExclude s p) = lit ''^'' @ print_side s @ print_path p"
| "print_spec (SpecRange a r b p) = print_end a @ print_op r @ print_end b @ print_path p"
| "print_spec (SpecParents s excluded) = print_side s @ (if excluded then lit ''^!'' else lit ''^@'')"
| "print_spec (SpecFromParent name n) = from_name name @ lit ''^-'' @ from_number n"
| "print_spec (SpecSearch regex negated) = lit '':/'' @ print_regex regex negated"
| "print_spec (SpecIndex stage path) = lit '':'' @ print_stage stage @ path"

subsection \<open>What is covered\<close>

text \<open>
  A text within a name: no \<^verbatim>\<open>~\<close>, \<^verbatim>\<open>^\<close> or \<^verbatim>\<open>:\<close>, no two dots in a row and no dot at the end, and behind every \<^verbatim>\<open>@\<close> a character that is
  neither an opening brace nor a dot.
\<close>

fun name_text :: "bytes \<Rightarrow> bool" where
  "name_text [] \<longleftrightarrow> True"
| "name_text (b # n) \<longleftrightarrow> b \<notin> {0x7e, 0x5e, 0x3a} \<and> (b = 0x2e \<longrightarrow> n \<noteq> [] \<and> hd n \<noteq> 0x2e) \<and>
     (b = 0x40 \<longrightarrow> n \<noteq> [] \<and> hd n \<noteq> 0x7b \<and> hd n \<noteq> 0x2e) \<and> name_text n"

text \<open>Four to forty hexadecimal digits are an abbreviated object id.\<close>

definition id_digits :: "bytes \<Rightarrow> bool" where
  "id_digits ds \<longleftrightarrow> 4 \<le> length ds \<and> length ds \<le> 40 \<and> list_all (\<lambda>b. nibble_of b \<noteq> None) ds"

text \<open>
  A name that may be the output of \<^verbatim>\<open>git describe\<close>: one of its pieces between dashes, but the first, is a \<^verbatim>\<open>g\<close> and an abbreviated id, or
  there are two of them and the first is an abbreviated id.
\<close>

definition describe_like :: "bytes \<Rightarrow> bool" where
  "describe_like n \<longleftrightarrow> list_ex (\<lambda>x. x \<noteq> [] \<and> hd x = 0x67 \<and> id_digits (tl x)) (tl (split_on 0x2d n)) \<or>
     length (split_on 0x2d n) = 2 \<and> id_digits (hd (split_on 0x2d n))"

text \<open>A name that can only be a reference.\<close>

definition ref_name :: "bytes \<Rightarrow> bool" where
  "ref_name n \<longleftrightarrow> n \<noteq> [] \<and> hd n \<noteq> 0x2e \<and> name_text n \<and> \<not> id_digits n \<and> \<not> describe_like n"

text \<open>Numbers are within the range of the machine integers.\<close>

fun wf_nav :: "rev_nav \<Rightarrow> bool" where
  "wf_nav (Ancestor n) \<longleftrightarrow> n < 2 ^ 64"
| "wf_nav (Parent n) \<longleftrightarrow> 0 < n \<and> n < 2 ^ 63"
| "wf_nav _ \<longleftrightarrow> True"

text \<open>A date is text that the date parser understands, and is neither a number nor the name of a sibling branch.\<close>

fun wf_reflog :: "(bytes \<Rightarrow> ('t, 'e) outcome) \<Rightarrow> 't rev_reflog \<Rightarrow> bool" where
  "wf_reflog date (AtEntry n) \<longleftrightarrow> n < 2 ^ 63"
| "wf_reflog date (AtSibling _) \<longleftrightarrow> True"
| "wf_reflog date (AtDate x t) \<longleftrightarrow> date x = Ok t \<and> utf8_valid x \<and> list_ex (\<lambda>b. \<not> is_ascii_digit b) (drop 1 x) \<and>
     \<not> eq_ignore_ascii_case x (lit ''upstream'') \<and> \<not> eq_ignore_ascii_case x (lit ''push'')"

fun wf_anchor :: "(bytes \<Rightarrow> ('t, 'e) outcome) \<Rightarrow> 't rev_anchor \<Rightarrow> bool" where
  "wf_anchor date AtHead \<longleftrightarrow> True"
| "wf_anchor date (RefName name) \<longleftrightarrow> ref_name name"
| "wf_anchor date (ObjectHex ds) \<longleftrightarrow> id_digits ds"
| "wf_anchor date (DescribeName tag gen ds) \<longleftrightarrow>
     tag \<noteq> [] \<and> hd tag \<noteq> 0x2e \<and> name_text (tag @ [0x2d]) \<and> gen < 2 ^ 64 \<and> id_digits ds"
| "wf_anchor date (RefReflog name r) \<longleftrightarrow> ref_name name \<and> wf_reflog date r"
| "wf_anchor date (CurrentReflog r) \<longleftrightarrow> wf_reflog date r"
| "wf_anchor date (CheckedOut n) \<longleftrightarrow> 0 < n \<and> n \<le> 2 ^ 63"

definition wf_side :: "(bytes \<Rightarrow> ('t, 'e) outcome) \<Rightarrow> 't rev_side \<Rightarrow> bool" where
  "wf_side date s \<longleftrightarrow> wf_anchor date (fst s) \<and> list_all wf_nav (snd s)"

text \<open>Paths in the index have a stage from zero to two; those without a stage do not look like a search or like one with a stage.\<close>

fun wf_spec :: "(bytes \<Rightarrow> ('t, 'e) outcome) \<Rightarrow> 't rev_spec \<Rightarrow> bool" where
  "wf_spec date (SpecSingle s p) \<longleftrightarrow> wf_side date s"
| "wf_spec date (SpecExclude s p) \<longleftrightarrow> wf_side date s"
| "wf_spec date (SpecRange a r b p) \<longleftrightarrow> pred_option (wf_side date) a \<and> pred_option (wf_side date) b \<and> (b = None \<longrightarrow> p = None)"
| "wf_spec date (SpecParents s excluded) \<longleftrightarrow> wf_side date s"
| "wf_spec date (SpecFromParent name n) \<longleftrightarrow> pred_option ref_name name \<and> pred_option (\<lambda>k. 0 < k \<and> k < 2 ^ 63) n"
| "wf_spec date (SpecSearch regex negated) \<longleftrightarrow> regex \<noteq> []"
| "wf_spec date (SpecIndex stage path) \<longleftrightarrow>
     (case stage of
        Some n \<Rightarrow> n \<le> 2
      | None \<Rightarrow> path \<noteq> [] \<and> hd path \<noteq> 0x2f \<and> \<not> (is_ascii_digit (hd path) \<and> get_at path 1 = Some 0x3a))"

section \<open>What the delegate is told\<close>

type_synonym 't rev_step = "'t rev_call list"

fun nav_steps :: "rev_nav \<Rightarrow> 't rev_step list" where
  "nav_steps (Ancestor n) = (if n = 0 then [] else [[Traverse (NthAncestor n)]])"
| "nav_steps FirstAncestor = [[Traverse (NthAncestor 1)]]"
| "nav_steps (Parent n) = [[Traverse (NthParent n)]]"
| "nav_steps FirstParent = [[Traverse (NthParent 1)]]"
| "nav_steps CommitOf = [[PeelUntil (PeelKind KCommit)]]"
| "nav_steps (PeelObject k) = [[PeelUntil (PeelKind k)]]"
| "nav_steps PeelExisting = [[PeelUntil ValidObject]]"
| "nav_steps PeelTags = [[PeelUntil RecursiveTagObject]]"
| "nav_steps (Search regex negated) = (if regex = [] then [] else [[FindRegex regex negated]])"

fun reflog_call :: "'t rev_reflog \<Rightarrow> 't rev_call" where
  "reflog_call (AtEntry n) = Reflog (ReflogEntry n)"
| "reflog_call (AtSibling k) = SiblingOf k"
| "reflog_call (AtDate x t) = Reflog (ReflogDate t)"

text \<open>The prefix that the digits of an abbreviated id stand for.\<close>

definition hex_prefix :: "bytes \<Rightarrow> oid_prefix" where
  "hex_prefix ds =
     (let s = the (unhex (if even (length ds) then ds else ds @ [0x30])) in
      \<lparr>prefix_bytes = Sha1 (s @ replicate (20 - length s) 0), prefix_hex_len = length ds\<rparr>)"

text \<open>Where a name may be an object id, this is tried first, and the reference of that name if there is no such object.\<close>

fun anchor_steps :: "'t rev_anchor \<Rightarrow> 't rev_step list" where
  "anchor_steps AtHead = [[FindRef (lit ''HEAD'')]]"
| "anchor_steps (RefName name) = [[FindRef name]]"
| "anchor_steps (ObjectHex ds) = [[DisambiguatePrefix (hex_prefix ds) None, FindRef ds]]"
| "anchor_steps (DescribeName tag gen ds) =
     [[DisambiguatePrefix (hex_prefix ds) (Some (DescribeAnchor tag gen)), FindRef (describe_name tag gen ds)]]"
| "anchor_steps (RefReflog name r) = [[FindRef name], [reflog_call r]]"
| "anchor_steps (CurrentReflog r) = [[reflog_call r]]"
| "anchor_steps (CheckedOut n) = [[NthCheckedOutBranch n]]"

definition side_steps :: "'t rev_side \<Rightarrow> 't rev_step list" where
  "side_steps s = anchor_steps (fst s) @ concat (map nav_steps (snd s))"

definition path_steps :: "bytes option \<Rightarrow> 't rev_step list" where
  "path_steps p = (case p of Some path \<Rightarrow> [[PeelUntil (PeelPath path)]] | None \<Rightarrow> [])"

fun end_steps :: "'t rev_side option \<Rightarrow> 't rev_step list" where
  "end_steps (Some s) = side_steps s"
| "end_steps None = [[FindRef (lit ''HEAD'')]]"

fun op_kind :: "range_op \<Rightarrow> rev_kind" where
  "op_kind TwoDots = RangeBetween"
| "op_kind ThreeDots = ReachableToMergeBase"

definition from_ref :: "bytes option \<Rightarrow> bytes" where
  "from_ref name = (case name of Some n \<Rightarrow> n | None \<Rightarrow> lit ''HEAD'')"

definition from_parent :: "nat option \<Rightarrow> nat" where
  "from_parent n = (case n of Some k \<Rightarrow> k | None \<Rightarrow> 1)"

text \<open>The range from a parent of a revision is the range between that parent and the revision itself.\<close>

fun spec_steps :: "'t rev_spec \<Rightarrow> 't rev_step list" where
  "spec_steps (SpecSingle s p) = side_steps s @ path_steps p"
| "spec_steps (SpecExclude s p) = [CallKind ExcludeReachable] # side_steps s @ path_steps p"
| "spec_steps (SpecRange a r b p) = end_steps a @ [CallKind (op_kind r)] # end_steps b @ path_steps p"
| "spec_steps (SpecParents s excluded) =
     side_steps s @ [[CallKind (if excluded then ExcludeReachableFromParents else IncludeReachableFromParents)]]"
| "spec_steps (SpecFromParent name n) =
     [[FindRef (from_ref name)], [Traverse (NthParent (from_parent n))], [CallKind RangeBetween], [FindRef (from_ref name)]]"
| "spec_steps (SpecSearch regex negated) = [[FindRegex regex negated]]"
| "spec_steps (SpecIndex stage path) = [[IndexLookup path (case stage of Some n \<Rightarrow> word_of_nat n | None \<Rightarrow> 0)]]"

text \<open>
  Steps in a row, up to the first of which all alternatives are refused: of the delegate itself, and through the interceptor.
\<close>

fun try_calls :: "('s, 't) delegate \<Rightarrow> 't rev_step \<Rightarrow> 's \<Rightarrow> bool \<times> 's" where
  "try_calls d [] s = (False, s)"
| "try_calls d (c # cs) s = (case d c s of (s, ok) \<Rightarrow> if ok then (True, s) else try_calls d cs s)"

fun run_steps :: "('s, 't) delegate \<Rightarrow> 't rev_step list \<Rightarrow> 's \<Rightarrow> bool \<times> 's" where
  "run_steps d [] s = (True, s)"
| "run_steps d (c # cs) s = (case try_calls d c s of (ok, s) \<Rightarrow> if ok then run_steps d cs s else (False, s))"

fun try_intercepted :: "('s, 't) delegate \<Rightarrow> 't rev_step \<Rightarrow> 's intercept \<Rightarrow> bool \<times> 's intercept" where
  "try_intercepted d [] st = (False, st)"
| "try_intercepted d (c # cs) st = (case intercept_call d c st of (ok, st) \<Rightarrow> if ok then (True, st) else try_intercepted d cs st)"

fun run_intercepted :: "('s, 't) delegate \<Rightarrow> 't rev_step list \<Rightarrow> 's intercept \<Rightarrow> bool \<times> 's intercept" where
  "run_intercepted d [] st = (True, st)"
| "run_intercepted d (c # cs) st = (case try_intercepted d c st of (ok, st) \<Rightarrow> if ok then run_intercepted d cs st else (False, st))"

section \<open>Computations that replay calls\<close>

text \<open>
  From the given state a computation makes the calls and goes on with another computation, unless a call is refused; and it does so
  from every state.
\<close>

definition runs_to :: "('s, 't) delegate \<Rightarrow> ('s, 'e, 'a) rev \<Rightarrow> 't rev_step list \<Rightarrow> ('s, 'e, 'a) rev \<Rightarrow> 's intercept \<Rightarrow> bool" where
  "runs_to d m cs k st \<longleftrightarrow>
     m st = (case run_intercepted d cs st of (ok, st) \<Rightarrow> if ok then k st else (Err DelegateRefused, st))"

definition replays :: "('s, 't) delegate \<Rightarrow> ('s, 'e, 'a) rev \<Rightarrow> 't rev_step list \<Rightarrow> ('s, 'e, 'a) rev \<Rightarrow> bool" where
  "replays d m cs k \<longleftrightarrow> (\<forall>st. runs_to d m cs k st)"

lemma run_intercepted_append:
  "run_intercepted d (cs @ ds) st = (case run_intercepted d cs st of (ok, st) \<Rightarrow> if ok then run_intercepted d ds st else (False, st))"
  by (induction cs arbitrary: st) (auto split: prod.split)

lemma runs_to_trans:
  assumes "runs_to d m cs k st" "\<And>st'. run_intercepted d cs st = (True, st') \<Longrightarrow> runs_to d k ds l st'"
  shows "runs_to d m (cs @ ds) l st"
  using assms by (auto simp: runs_to_def run_intercepted_append split: prod.split)

lemma replays_trans: "replays d m cs k \<Longrightarrow> replays d k ds l \<Longrightarrow> replays d m (cs @ ds) l"
  by (auto simp: replays_def intro: runs_to_trans)

lemma replays_refl: "replays d m [] m"
  by (simp add: replays_def runs_to_def)

lemma replays_call_bind: "replays d (f ()) cs k \<Longrightarrow> replays d (rbind (rcall d c) f) ([c] # cs) k"
  by (auto simp: replays_def runs_to_def rbind_def rcall_def split: prod.split)

lemma replays_bind: "replays d m cs k \<Longrightarrow> replays d (rbind m f) cs (rbind k f)"
  by (auto simp: replays_def runs_to_def rbind_def split: prod.split)

lemma rbind_rlift: "rbind (rlift (Ok v)) f = f v"
  by (simp add: fun_eq_iff rbind_def rlift_def)

lemma rbind_rreturn: "rbind (rreturn v) f = f v"
  by (simp add: fun_eq_iff rbind_def rreturn_def)

lemma rbind_assoc: "rbind (rbind m f) g = rbind m (\<lambda>x. rbind (f x) g)"
  by (auto simp: fun_eq_iff rbind_def split: prod.split outcome.split)

lemma rbind_rcall: "rbind (rcall d c) rreturn = rcall d c"
  by (simp add: fun_eq_iff rbind_def rcall_def rreturn_def split: prod.split)

lemmas rbind_simps = rbind_rlift rbind_rreturn rbind_assoc

lemma replays_bind_return: "replays d m cs (rreturn x) \<Longrightarrow> replays d (f x) ds k \<Longrightarrow> replays d (rbind m f) (cs @ ds) k"
  using replays_trans [OF replays_bind [of d m cs "rreturn x" f]] by (simp add: rbind_simps)

lemma replays_call: "replays d (rcall d c) [[c]] (rreturn ())"
  by (simp add: replays_def runs_to_def rcall_def rreturn_def split: prod.split)

lemma replays_step: "replays d (rbind (rcall d c) (\<lambda>_. rreturn x)) [[c]] (rreturn x)"
  by (intro replays_call_bind replays_refl)

text \<open>Two alternatives: what follows does not depend on which of them was accepted.\<close>

lemma replays_alternatives:
  assumes "\<And>b. f b = k"
  shows "replays d (rbind (rbind (rtry d c) (\<lambda>ok. if ok then rreturn x else rbind (rcall d c') (\<lambda>_. rreturn y))) f) [[c, c']] k"
  by (auto simp: replays_def runs_to_def rbind_def rtry_def rcall_def rreturn_def assms split: prod.split)

section \<open>Numbers and braces are read back\<close>

lemma decimal_digits: "c \<in> set (decimal n) \<Longrightarrow> is_ascii_digit c"
proof (induction n rule: decimal.induct)
  case (1 n)
  have "list_all (\<lambda>d. is_ascii_digit (0x30 + word_of_nat d)) [0..<10]" by code_simp
  then have d: "k < 10 \<Longrightarrow> is_ascii_digit (0x30 + word_of_nat k)" for k by (simp add: list_all_iff)
  then show ?case using 1 by (subst (asm) (2) decimal.simps) (auto split: if_splits)
qed

lemma decimal_nonempty [simp]: "decimal n \<noteq> []"
  using decimal_values [of n] by blast

lemma sign_no_ascii_digit: "\<not> is_ascii_digit 0x2b" "\<not> is_ascii_digit 0x2d"
  by (simp_all add: is_ascii_digit_def)

text \<open>What may follow a number or a name: nothing, a separator or a range.\<close>

definition ends_token :: "bytes \<Rightarrow> bool" where
  "ends_token r \<longleftrightarrow> r = [] \<or> is_rev_separator (hd r)"

lemma separator_no_digit: "is_rev_separator b \<Longrightarrow> \<not> is_ascii_digit b \<and> b \<noteq> 0x2d \<and> b \<noteq> 0x2b \<and> b \<noteq> 0x7b \<and> b \<noteq> 0x21 \<and> b \<noteq> 0x40"
  by (auto simp: is_rev_separator_def is_ascii_digit_def)

lemma takeWhile_decimal:
  assumes "ends_token r"
  shows "takeWhile is_ascii_digit (decimal n @ r) = decimal n"
    "takeWhile (\<lambda>b. is_ascii_digit b \<or> b = 0x2d) (decimal n @ r) = decimal n"
  using assms by (cases r; auto simp: ends_token_def takeWhile_append2 decimal_digits dest: separator_no_digit)+

lemma std_parse_decimal:
  assumes "int n \<le> int_max I" "int_min I \<le> 0"
  shows "std_parse I (decimal n) = Some (int n)"
proof -
  obtain ds where ds: "digit_values 10 (decimal n) = Some ds" "value_from 10 0 ds = int n" using decimal_values by blast
  obtain c cs where c: "decimal n = c # cs" by (cases "decimal n") auto
  then have "c \<noteq> 0x2b" "c \<noteq> 0x2d" using decimal_digits [of c n] sign_no_ascii_digit by auto
  then show ?thesis using ds c assms by (simp add: std_parse_def checked_def del: digit_values_simps)
qed

lemma std_parse_negative:
  assumes "int_min I \<le> - int n" "0 \<le> int_max I" "0 < n"
  shows "std_parse I (0x2d # decimal n) = Some (- int n)"
proof -
  obtain ds where ds: "digit_values 10 (decimal n) = Some ds" "value_from 10 0 ds = int n" using decimal_values by blast
  then show ?thesis using assms by (simp add: std_parse_def checked_def)
qed

lemma decimal_get_at: "get_at (decimal n @ r) 0 \<noteq> Some 0x2b" "get_at (decimal n @ r) 0 \<noteq> Some 0x2d"
  using decimal_digits [of "hd (decimal n)" n] sign_no_ascii_digit by (cases "decimal n"; auto)+

lemma try_parse_decimal:
  assumes "int n \<le> int_max I" "int_min I \<le> 0"
  shows "try_parse I (decimal n) = Ok (Some (int n))"
  using std_parse_decimal [OF assms] decimal_get_at [of n "[]"]
  by (cases "decimal n") (simp_all add: try_parse_def)

lemma try_parse_usize_decimal:
  assumes "n < 2 ^ 64" "ends_token r"
  shows "try_parse_usize (decimal n @ r) = Ok (Some (n, length (decimal n)))"
proof -
  have "int n \<le> int_max usize_type" using assms(1) by (simp add: usize_type_def)
  then show ?thesis using assms decimal_get_at [of n r]
    by (simp add: try_parse_usize_def takeWhile_decimal try_parse_decimal ok_or_def usize_type_def)
qed

lemma try_parse_isize_decimal:
  assumes "n < 2 ^ 63" "ends_token r"
  shows "try_parse_isize (decimal n @ r) = Ok (Some (int n, False, length (decimal n)))"
proof -
  have "int n \<le> int_max i64_type" using assms(1) by (simp add: i64_type_def)
  then show ?thesis using assms decimal_get_at [of n r]
    by (simp add: try_parse_isize_def takeWhile_decimal try_parse_decimal ok_or_def i64_type_def)
qed

lemma try_parse_negative:
  assumes "0 < n" "n \<le> 2 ^ 63"
  shows "try_parse i64_type (0x2d # decimal n) = Ok (Some (- int n))"
proof -
  have "int_min i64_type \<le> - int n" "0 \<le> int_max i64_type" using assms by (simp_all add: i64_type_def)
  then show ?thesis using assms(1) by (simp add: try_parse_def std_parse_negative)
qed

lemma try_parse_isize_negative:
  assumes "0 < n" "n < 2 ^ 63"
  shows "try_parse_isize (0x2d # decimal n) = Ok (Some (- int n, True, Suc (length (decimal n))))"
proof -
  have t: "takeWhile (\<lambda>b. is_ascii_digit b \<or> b = 0x2d) (decimal n) = decimal n" by (simp add: takeWhile_eq_all_conv decimal_digits)
  show ?thesis using assms by (simp add: try_parse_isize_def ok_or_def try_parse_negative t)
qed

lemma try_parse_none: "ends_token r \<Longrightarrow> try_parse_usize r = Ok None" "ends_token r \<Longrightarrow> try_parse_isize r = Ok None"
  by (cases r; auto simp: try_parse_usize_def try_parse_isize_def ends_token_def dest: separator_no_digit)+


text \<open>The positions of the backslashes that \<^const>\<open>escape_braces\<close> adds.\<close>

fun escape_positions :: "nat \<Rightarrow> bytes \<Rightarrow> nat list" where
  "escape_positions i [] = []"
| "escape_positions i (b # s) = (if b \<in> {0x7b, 0x7d, 0x5c} then i # escape_positions (i + 2) s else escape_positions (i + 1) s)"

lemma parens_loop_escaped:
  "parens_loop i (escape_braces s @ 0x7d # rest) 1 False sk = Some (i + length (escape_braces s), sk @ escape_positions i s)"
  by (induction s arbitrary: i sk) (auto simp: butlast_append)

lemma parens_copy_escaped:
  "from \<le> length pre \<Longrightarrow> \<exists>f buf'.
     parens_copy (pre @ escape_braces s @ post) from (escape_positions (length pre) s) buf = Some (f, buf') \<and>
     f \<le> length pre + length (escape_braces s) \<and>
     buf' @ take (length pre + length (escape_braces s) - f) (drop f (pre @ escape_braces s @ post)) = buf @ drop from pre @ s"
proof (induction s arbitrary: pre "from" buf)
  case (Cons b s)
  show ?case
  proof (cases "b \<in> {0x7b, 0x7d, 0x5c}")
    case True
    have "get_range (pre @ 0x5c # b # escape_braces s @ post) from (length pre) = Some (drop from pre)"
      using Cons.prems by (simp add: get_range_def)
    then show ?thesis using Cons.IH [of "length pre + 1" "pre @ [0x5c, b]" "buf @ drop from pre"] True by (auto simp: numeral_2_eq_2)
  next
    case False
    then show ?thesis using Cons.IH [of "from" "pre @ [b]" buf] Cons.prems by auto
  qed
qed simp

lemma parens_in_braces: "parens (in_braces s @ rest) = Ok (Some (s, rest, length (in_braces s)))"
proof -
  let ?in = "[0x7b] @ escape_braces s @ 0x7d # rest"
  have i: "in_braces s @ rest = ?in" by (simp add: in_braces_def)
  have l: "parens_loop 0 ?in 0 False [] = Some (1 + length (escape_braces s), escape_positions 1 s)"
    using parens_loop_escaped [of 1 s rest "[]"] by simp
  obtain f buf where c: "parens_copy ?in 1 (escape_positions 1 s) [] = Some (f, buf)" "f \<le> 1 + length (escape_braces s)"
    "buf @ take (1 + length (escape_braces s) - f) (drop f ?in) = s"
    using parens_copy_escaped [of 1 "[0x7b]" s "0x7d # rest" "[]"] by auto
  have r: "get_range ?in f (1 + length (escape_braces s)) = Some (take (1 + length (escape_braces s) - f) (drop f ?in))"
    using c(2) by (simp add: get_range_def)
  have e: "get_range ?in (1 + length (escape_braces s) + 1) (length ?in) = Some rest" by (simp add: get_range_def)
  have n: "length (in_braces s) = 1 + length (escape_braces s) + 1" by (simp add: in_braces_def)
  show ?thesis
  proof (cases "escape_positions 1 s = []")
    case True
    then have "f = 1" "buf = []" using c(1) by simp_all
    then show ?thesis unfolding i n using l c(3) r e True by (simp add: parens_def)
  next
    case False
    then show ?thesis unfolding i n using l c(1,3) r e by (simp add: parens_def)
  qed
qed

lemma parens_other: "ends_token r \<Longrightarrow> parens r = Ok None"
  by (cases r) (auto simp: parens_def ends_token_def dest: separator_no_digit)

lemma parse_regex_print: "parse_regex_prefix (print_regex regex negated) = Ok (regex, negated)"
  by (cases regex) (auto simp: parse_regex_prefix_def print_regex_def)

section \<open>Navigation\<close>

lemma try_parse_isize_braces: "try_parse_isize (in_braces k @ r) = Ok None"
  by (simp add: try_parse_isize_def in_braces_def is_ascii_digit_def)

lemma try_parse_isize_zero: "ends_token r \<Longrightarrow> try_parse_isize (0x30 # r) = Ok (Some (0, False, 1))"
  using try_parse_isize_decimal [of 0 r] by (simp add: decimal.simps)

lemma replays_caret_braces:
  "replays d (nav_peel d k (length (in_braces k))) cs x \<Longrightarrow> replays d (nav_caret d (in_braces k @ r)) cs x"
  by (simp add: nav_caret_def nav_caret_other_def parens_in_braces rbind_simps try_parse_isize_braces)

lemma replays_nav_step:
  assumes "wf_nav n" "ends_token r"
  shows "replays d (nav_step d (hd (print_nav n)) (tl (print_nav n) @ r)) (nav_steps n) (rreturn (NavContinue (length (print_nav n) - 1)))"
proof (cases n)
  case (Ancestor n)
  then show ?thesis using assms by (simp add: nav_step_def nav_tilde_def try_parse_usize_decimal rbind_simps replays_step replays_refl)
next
  case FirstAncestor
  then show ?thesis using assms by (simp add: nav_step_def nav_tilde_def try_parse_none rbind_simps replays_step)
next
  case (Parent n)
  then show ?thesis using assms
    by (simp add: nav_step_def nav_caret_def try_parse_isize_decimal nav_caret_number_def isize_to_usize_def rbind_simps replays_step)
next
  case FirstParent
  have "get_at r 0 \<noteq> Some 0x21 \<and> get_at r 0 \<noteq> Some 0x40"
    using assms(2) by (cases r) (auto simp: ends_token_def dest: separator_no_digit)
  then show ?thesis using assms FirstParent
    by (simp add: nav_step_def nav_caret_def try_parse_none nav_caret_other_def parens_other rbind_simps replays_step)
next
  case CommitOf
  then show ?thesis using assms
    by (simp add: nav_step_def nav_caret_def try_parse_isize_zero nav_caret_number_def rbind_simps replays_step)
next
  case (PeelObject k)
  have "replays d (nav_peel d (peel_name k) m) (nav_steps n) (rreturn (NavContinue m))" for m
    using PeelObject by (cases k) (simp_all add: nav_peel_def replays_step)
  then show ?thesis using PeelObject by (simp add: nav_step_def) (rule replays_caret_braces)
next
  case PeelExisting
  have "replays d (nav_peel d (lit ''object'') m) (nav_steps n) (rreturn (NavContinue m))" for m
    using PeelExisting by (simp add: nav_peel_def replays_step)
  then show ?thesis using PeelExisting by (simp add: nav_step_def) (rule replays_caret_braces)
next
  case PeelTags
  have "replays d (nav_peel d [] m) (nav_steps n) (rreturn (NavContinue m))" for m
    using PeelTags by (simp add: nav_peel_def replays_step)
  then show ?thesis using PeelTags by (simp add: nav_step_def) (rule replays_caret_braces)
next
  case (Search regex negated)
  have "replays d (nav_peel d (0x2f # print_regex regex negated) m) (nav_steps n) (rreturn (NavContinue m))" for m
    using Search by (simp add: nav_peel_def parse_regex_print rbind_simps replays_step replays_refl)
  then show ?thesis using Search by (simp add: nav_step_def del: nav_steps.simps) (rule replays_caret_braces)
qed


lemma navigate_Cons:
  "navigate d (b # past) =
     rbind (nav_step d b past) (\<lambda>r. case r of NavContinue k \<Rightarrow> navigate d (drop k past) | NavStop rest \<Rightarrow> rreturn rest)"
  by (rule ext) (auto simp: rbind_def rreturn_def split: prod.split outcome.split nav_result.split)

lemma navigate_Nil: "navigate d [] = rreturn []"
  by (rule ext) (simp add: rreturn_def)

declare navigate.simps [simp del]

lemma replays_navigate_continue:
  fixes l :: "('s, 'e, bytes) rev"
  assumes "replays d (nav_step d b past) cs (rreturn (NavContinue k) :: ('s, 'e, nav_result) rev)" "replays d (navigate d (drop k past)) ds l"
  shows "replays d (navigate d (b # past)) (cs @ ds) l"
  unfolding navigate_Cons by (rule replays_bind_return [OF assms(1)]) (simp add: assms(2))

lemma replays_navigate_stop:
  assumes "replays d (nav_step d b past) cs (rreturn (NavStop rest) :: ('s, 'e, nav_result) rev)"
  shows "replays d (navigate d (b # past)) cs (rreturn rest :: ('s, 'e, bytes) rev)"
  unfolding navigate_Cons using replays_bind [OF assms, of "case_nav_result (\<lambda>k. navigate d (drop k past)) rreturn"]
  by (simp add: rbind_simps)

lemma print_nav_Cons: "\<exists>b t. print_nav n = b # t \<and> is_rev_separator b"
  by (cases n) (simp_all add: is_rev_separator_def)

lemma ends_token_navs: "ends_token r \<Longrightarrow> ends_token (concat (map print_nav ns) @ r)"
proof (cases ns)
  case (Cons n ns)
  then show ?thesis using print_nav_Cons [of n] by (auto simp: ends_token_def)
qed simp

lemma replays_navs:
  fixes k :: "('s, 'e, bytes) rev"
  assumes "list_all wf_nav ns" "ends_token r" "replays d (navigate d r) cs k"
  shows "replays d (navigate d (concat (map print_nav ns) @ r)) (concat (map nav_steps ns) @ cs) k"
  using assms(1)
proof (induction ns)
  case (Cons n ns)
  let ?r = "concat (map print_nav ns) @ r"
  obtain b t where b: "print_nav n = b # t" using print_nav_Cons by blast
  have "replays d (nav_step d b (t @ ?r)) (nav_steps n) (rreturn (NavContinue (length t)) :: ('s, 'e, nav_result) rev)"
    using replays_nav_step [of n ?r d] Cons.prems ends_token_navs [OF assms(2)] b by simp
  moreover have "replays d (navigate d (drop (length t) (t @ ?r))) (concat (map nav_steps ns) @ cs) k" using Cons by simp
  ultimately have "replays d (navigate d (b # t @ ?r)) (nav_steps n @ concat (map nav_steps ns) @ cs) k"
    by (rule replays_navigate_continue)
  then show ?case using b by simp
qed (use assms(3) in simp)

lemma replays_path: "replays d (navigate d (print_path p)) (path_steps p) (rreturn [])"
proof (cases p)
  case (Some path)
  then show ?thesis
    by (simp add: print_path_def path_steps_def nav_step_def replays_navigate_stop replays_step)
qed (simp add: print_path_def path_steps_def navigate_Nil replays_refl)

lemma replays_dots: "replays d (navigate d (0x2e # r)) [] (rreturn (0x2e # r))"
  by (rule replays_navigate_stop) (simp add: nav_step_def replays_refl)

section \<open>Anchors\<close>

text \<open>What may follow an anchor: a separator, or two dots.\<close>

definition ends_anchor :: "bytes \<Rightarrow> bool" where
  "ends_anchor r \<longleftrightarrow> ends_token r \<and> (get_at r 0 = Some 0x2e \<longrightarrow> get_at r 1 = Some 0x2e)"

text \<open>
  A name ends where the text does, at a separator, at two dots or at the navigation in braces.  The search for this place stops at
  dots on its way, and goes on behind them.
\<close>

definition ends_name :: "bytes \<Rightarrow> bool" where
  "ends_name r \<longleftrightarrow> ends_anchor r \<or> (\<exists>q. r = 0x40 # 0x7b # q)"

lemma find_separator_text:
  "name_text n \<Longrightarrow> 0x2e \<notin> set n \<Longrightarrow> (l = 1 \<longrightarrow> 0x40 \<notin> set n) \<Longrightarrow>
   \<exists>hex'. find_separator l pos (n @ r) hex = find_separator l (pos + length n) r hex'"
proof (induction n arbitrary: pos hex)
  case (Cons b n)
  then have b: "\<not> is_rev_separator b" by (auto simp: is_rev_separator_def)
  obtain h where h: "find_separator l pos ((b # n) @ r) hex = find_separator l (pos + 1) (n @ r) h"
  proof (cases "b = 0x40")
    case True
    then obtain c m where c: "n = c # m" "c \<noteq> 0x7b" "\<not> is_rev_separator c"
      using Cons.prems(1,2) by (cases n) (auto simp: is_rev_separator_def)
    have "l \<noteq> 1" using Cons.prems(3) True by auto
    then have "find_separator l pos ((b # n) @ r) hex = find_separator l (pos + 1) (n @ r) hex" using True c by simp
    then show ?thesis by (rule that)
  next
    case False
    then show ?thesis using b that by simp
  qed
  obtain h' where "find_separator l (pos + 1) (n @ r) h = find_separator l (pos + 1 + length n) r h'"
    using Cons.IH [of "pos + 1" h] Cons.prems by auto
  then show ?case using h by (intro exI [of _ h']) simp
qed auto

lemma find_separator_end:
  assumes "ends_name r"
  shows "\<exists>hex'. find_separator l pos r hex = (case r of [] \<Rightarrow> None | b # _ \<Rightarrow> Some (pos, b), hex')"
  using assms by (cases r) (auto simp: ends_name_def ends_anchor_def ends_token_def dest: separator_no_digit)

lemma name_text_split: "name_text (a @ 0x2e # b) \<Longrightarrow> 0x2e \<notin> set a \<Longrightarrow> name_text a \<and> b \<noteq> [] \<and> hd b \<noteq> 0x2e \<and> name_text b"
proof (induction a)
  case (Cons x a)
  have "name_text (a @ 0x2e # b)" "0x2e \<notin> set a" using Cons.prems by simp_all
  then have ih: "name_text a" "b \<noteq> []" "hd b \<noteq> 0x2e" "name_text b" using Cons.IH by blast+
  have "x \<notin> {0x7e, 0x5e, 0x3a}" "x \<noteq> 0x2e" "x = 0x40 \<longrightarrow> a \<noteq> [] \<and> hd a \<noteq> 0x7b \<and> hd a \<noteq> 0x2e"
    using Cons.prems by (cases a; simp)+
  then have "name_text (x # a)" using ih(1) by simp
  with ih show ?case by blast
qed simp

lemma name_text_at: "name_text n \<Longrightarrow> 0x40 \<in> set n \<Longrightarrow> 2 \<le> length n"
  by (cases n; cases "tl n") auto

lemma scan_text_dotless:
  assumes "ends_name r" "name_text n" "0x2e \<notin> set n"
  shows "\<exists>hex'. scan_name ofs (n @ r) hex = (if r = [] then None else Some (ofs + length n), hex')"
proof -
  let ?l = "length (n @ r)"
  have "?l = 1 \<longrightarrow> 0x40 \<notin> set n" using name_text_at [OF assms(2)] by auto
  then obtain h1 where h1: "find_separator ?l 0 (n @ r) hex = find_separator ?l (0 + length n) r h1"
    using find_separator_text [OF assms(2,3)] by blast
  obtain h2 where h2: "find_separator ?l (0 + length n) r h1 = (case r of [] \<Rightarrow> None | b # _ \<Rightarrow> Some (0 + length n, b), h2)"
    using find_separator_end [OF assms(1)] by blast
  have "get_at (n @ r) (length n + 1) = Some 0x2e" if "r = 0x2e # t" for t
    using assms(1) that by (cases t) (auto simp: ends_name_def ends_anchor_def get_at_def nth_append)
  then have "scan_name ofs (n @ r) hex = (if r = [] then None else Some (ofs + length n), h2)"
    by (subst scan_name.simps, unfold h1 h2) (cases r; auto)
  then show ?thesis by blast
qed

lemma scan_text_dot:
  assumes "name_text (a @ 0x2e # b)" "0x2e \<notin> set a"
  shows "\<exists>hex'. scan_name ofs ((a @ 0x2e # b) @ r) hex = scan_name (ofs + length a + 1) (b @ r) hex'"
proof -
  let ?n = "(a @ 0x2e # b) @ r"
  note ab = name_text_split [OF assms]
  have "length ?n = 1 \<longrightarrow> 0x40 \<notin> set a" using ab by auto
  then obtain h1 where "find_separator (length ?n) 0 (a @ 0x2e # b @ r) hex = find_separator (length ?n) (0 + length a) (0x2e # b @ r) h1"
    using find_separator_text [OF _ assms(2)] ab by blast
  then have f: "find_separator (length ?n) 0 ?n hex = (Some (length a, 0x2e), h1)" by (simp add: is_rev_separator_def)
  have "get_at ?n (length a + 1) \<noteq> Some 0x2e" using ab by (cases b) (auto simp: get_at_def nth_append)
  then have "scan_name ofs ?n hex = scan_name (ofs + length a + 1) (b @ r) h1" by (subst scan_name.simps, unfold f) simp
  then show ?thesis by blast
qed

lemma scan_text:
  assumes "ends_name r"
  shows "name_text n \<Longrightarrow> \<exists>hex'. scan_name ofs (n @ r) hex = (if r = [] then None else Some (ofs + length n), hex')"
proof (induction "length n" arbitrary: n ofs hex rule: less_induct)
  case less
  show ?case
  proof (cases "0x2e \<in> set n")
    case False
    then show ?thesis using scan_text_dotless [OF assms less.prems] by blast
  next
    case True
    then obtain a b where n: "n = a @ 0x2e # b" "0x2e \<notin> set a" by (meson split_list_first)
    obtain h1 where "scan_name ofs (n @ r) hex = scan_name (ofs + length a + 1) (b @ r) h1"
      using scan_text_dot [OF less.prems [unfolded n(1)] n(2)] n(1) by blast
    moreover have "name_text b" "length b < length n" using name_text_split [OF less.prems [unfolded n(1)] n(2)] n(1) by simp_all
    then obtain h2 where "scan_name (ofs + length a + 1) (b @ r) h1 = (if r = [] then None else Some (ofs + length a + 1 + length b), h2)"
      using less.hyps by blast
    ultimately show ?thesis using n(1) by (intro exI [of _ h2]) simp
  qed
qed

lemma find_separator_digits:
  "list_all (\<lambda>b. nibble_of b \<noteq> None) n \<Longrightarrow> find_separator l pos (n @ r) (Some k) = find_separator l (pos + length n) r (Some (k + length n))"
proof (induction n arbitrary: pos k)
  case (Cons b n)
  have "nibble_of 0x40 = None" "nibble_of 0x7e = None" "nibble_of 0x5e = None" "nibble_of 0x3a = None" "nibble_of 0x2e = None" by code_simp+
  then have "b \<noteq> 0x40" "\<not> is_rev_separator b" using Cons.prems by (auto simp: is_rev_separator_def)
  then show ?case using Cons by simp
qed simp

lemma find_separator_end_hex:
  assumes "ends_anchor r"
  shows "find_separator l pos r hex = (case r of [] \<Rightarrow> None | b # _ \<Rightarrow> Some (pos, b), hex)"
  using assms by (cases r) (auto simp: ends_anchor_def ends_token_def dest: separator_no_digit)

lemma scan_digits:
  assumes "list_all (\<lambda>b. nibble_of b \<noteq> None) n" "ends_anchor r"
  shows "scan_name 0 (n @ r) (Some 0) = (if r = [] then None else Some (length n), Some (length n))"
proof -
  have "get_at (n @ r) (length n + 1) = Some 0x2e" if "r = 0x2e # t" for t
    using assms(2) that by (cases t) (auto simp: ends_anchor_def get_at_def nth_append)
  then show ?thesis
    by (subst scan_name.simps) (auto simp: find_separator_digits [OF assms(1)] find_separator_end_hex [OF assms(2)] split: list.split)
qed

lemma scan_at:
  "r = [] \<or> is_rev_separator (hd r) \<or> hd r = 0x7b \<Longrightarrow> scan_name 0 (0x40 # r) (Some 0) = (Some 0, Some 0)"
  by (cases r) (auto simp: scan_name.simps [of 0])

subsection \<open>Object ids and the output of describe\<close>

context faster_hex_spec
begin

lemma prefix_from_hex_digits:
  assumes "id_digits ds"
  shows "prefix_from_hex fh ds = Ok (hex_prefix ds)"
proof -
  let ?ds = "if even (length ds) then ds else ds @ [0x30]"
  have "nibble_of 0x30 \<noteq> None" by code_simp
  then have "unhex ?ds \<noteq> None" using assms by (auto simp: unhex_None id_digits_def)
  then obtain s where s: "unhex ?ds = Some s" by blast
  have e: "even (length ?ds)" by simp
  then have dec: "hex_decode fh ?ds (length ?ds div 2) = Ok s" using decode_valid [OF _ s, of "length ?ds div 2"] by simp
  have "2 * length s = length ?ds" using unhex_SomeD [OF s] by simp
  then have "length s \<le> 20" using assms by (auto simp: id_digits_def split: if_splits)
  then show ?thesis
    using assms s dec by (auto simp: prefix_from_hex_def hex_prefix_def id_digits_def hash_defs Let_def even_iff_mod_2_eq_zero split: if_splits)
qed

lemma prefix_from_hex_other:
  assumes "\<not> id_digits ds"
  shows "\<exists>e. prefix_from_hex fh ds = Err e"
proof (cases "4 \<le> length ds \<and> length ds \<le> 40")
  case True
  let ?ds = "if even (length ds) then ds else ds @ [0x30]"
  have "\<not> list_all (\<lambda>b. nibble_of b \<noteq> None) ds" using True assms by (simp add: id_digits_def)
  then have n: "unhex ?ds = None" by (simp add: unhex_None)
  have "hex_decode fh ?ds (length ?ds div 2) = Err InvalidChar \<or> hex_decode fh ?ds (length ?ds div 2) = Err Overflow"
    by (rule decode_invalid [OF _ n]) simp
  then show ?thesis using True by (auto simp: prefix_from_hex_def hash_defs Let_def even_iff_mod_2_eq_zero split: if_splits)
qed (auto simp: prefix_from_hex_def hash_defs)

lemma try_set_prefix_digits: "id_digits ds \<Longrightarrow> try_set_prefix fh d ds hint = rtry d (DisambiguatePrefix (hex_prefix ds) hint)"
proof -
  assume i: "id_digits ds"
  then have "all_hexdigits ds" by (simp add: id_digits_def all_hexdigits_def)
  then have "utf8_valid ds" by (rule all_hexdigits_utf8)
  then show ?thesis using prefix_from_hex_digits [OF i] by (simp add: try_set_prefix_def)
qed

lemma try_set_prefix_other: "\<not> id_digits ds \<Longrightarrow> utf8_valid ds \<Longrightarrow> try_set_prefix fh d ds hint = rreturn False"
  using prefix_from_hex_other [of ds] by (auto simp: try_set_prefix_def)

text \<open>A name that is no object id is not tried as one.\<close>

lemma set_anchor_no_id:
  assumes "\<not> id_digits name" "MIN_HEX_LEN \<le> (case hex of Some n \<Rightarrow> n | None \<Rightarrow> 0) \<longrightarrow> utf8_valid name" "name \<noteq> []"
  shows "set_anchor fh d name hex =
     rbind (case describe_prefix name of None \<Rightarrow> rreturn False | Some (p, hint) \<Rightarrow> try_set_prefix fh d p hint)
       (\<lambda>ok. if ok then rreturn False else rbind (rcall d (FindRef name)) (\<lambda>_. rreturn True))"
  using assms by (cases "MIN_HEX_LEN \<le> (case hex of Some n \<Rightarrow> n | None \<Rightarrow> 0)") (simp_all add: set_anchor_def try_set_prefix_other rbind_simps cong: if_cong)

end

lemma describe_candidate_piece:
  "describe_candidate ts = Some (c, left) \<Longrightarrow> \<exists>a. ts = a @ (0x67 # c) # left"
proof (induction ts)
  case (Cons t ts)
  show ?case
  proof (cases "get_at t 0 = Some 0x67 \<and> all_hexdigits (drop 1 t)")
    case True
    then have "t # ts = [] @ (0x67 # c) # left" using Cons.prems by (cases t) auto
    then show ?thesis by blast
  next
    case False
    have "describe_candidate ts = Some (c, left)" using Cons.prems unfolding describe_candidate.simps if_not_P [OF False] .
    then obtain a where "ts = a @ (0x67 # c) # left" using Cons.IH by blast
    then have "t # ts = (t # a) @ (0x67 # c) # left" by simp
    then show ?thesis by blast
  qed
qed simp

lemma describe_prefix_unlike:
  assumes "\<not> describe_like n" "describe_prefix n = Some (p, hint)"
  shows "\<not> id_digits p"
proof (cases "long_describe_prefix n")
  case None
  then have "short_describe_prefix n = Some p" using assms(2) by (auto simp: describe_prefix_def)
  then obtain x where "split_on 0x2d n = [p, x]" by (auto simp: short_describe_prefix_def split: list.splits if_splits)
  then show ?thesis using assms(1) by (simp add: describe_like_def)
next
  case (Some ch)
  then have "fst ch = p" using assms(2) by (auto simp: describe_prefix_def split: prod.splits)
  then obtain left where l: "describe_candidate (rev (split_on 0x2d n)) = Some (p, left)" "list_ex (\<lambda>token. token \<noteq> []) left"
    using Some by (cases ch) (auto simp: long_describe_prefix_def Let_def split: option.splits prod.splits if_splits)
  then have "left \<noteq> []" by auto
  then obtain a where "rev (split_on 0x2d n) = a @ (0x67 # p) # left" using describe_candidate_piece [OF l(1)] by blast
  then have "split_on 0x2d n = rev left @ (0x67 # p) # rev a" by (metis append.assoc append_Cons append_Nil rev_append rev_rev_ident rev.simps(2))
  then have "0x67 # p \<in> set (tl (split_on 0x2d n))" using \<open>left \<noteq> []\<close> by simp
  then show ?thesis using assms(1) by (auto simp: describe_like_def list_ex_iff)
qed

context faster_hex_spec
begin

text \<open>The parts of a name that is unlike the output of describe are not tried either.\<close>

lemma describe_unlike:
  assumes "\<not> describe_like n"
  shows "(case describe_prefix n of None \<Rightarrow> rreturn False | Some (p, hint) \<Rightarrow> try_set_prefix fh d p hint) = rreturn False"
proof (cases "describe_prefix n")
  case (Some ph)
  obtain p hint where "ph = (p, hint)" by fastforce
  with Some have "\<not> id_digits p" "utf8_valid p" using describe_prefix_unlike [OF assms] describe_prefix_hex [of n p hint] all_hexdigits_utf8 by blast+
  then show ?thesis using Some \<open>ph = (p, hint)\<close> by (simp add: try_set_prefix_other)
qed simp

end

lemma split_on_nonempty: "split_on b s \<noteq> []"
  by (induction s) (auto split: list.split)

lemma split_on_append: "split_on b (x @ b # y) = split_on b x @ split_on b y"
proof (induction x)
  case (Cons c x)
  then show ?case using split_on_nonempty [of b x] by (auto split: list.split)
qed simp

lemma split_on_none: "b \<notin> set n \<Longrightarrow> split_on b n = [n]"
  by (induction n) auto

lemma join_dashes_Cons: "join_dashes ((x # y) # ys) = x # join_dashes (y # ys)"
  by (cases ys) simp_all

lemma join_split: "join_dashes (split_on 0x2d s) = s"
proof (induction s)
  case (Cons c s)
  obtain y ys where y: "split_on 0x2d s = y # ys" using split_on_nonempty by (cases "split_on 0x2d s") blast
  then show ?case using Cons join_dashes_Cons by auto
qed simp

lemma describe_prefix_name:
  assumes "gen < 2 ^ 64" "id_digits ds"
  shows "describe_prefix (describe_name tag gen ds) = Some (ds, Some (DescribeAnchor tag gen))"
proof -
  have "0x2d \<notin> set (decimal gen)" using decimal_digits [of "0x2d" gen] sign_no_ascii_digit by blast
  moreover have "nibble_of 0x2d = None" by code_simp
  then have "0x2d \<notin> set (0x67 # ds)" using assms(2) by (auto simp: id_digits_def list_all_iff)
  ultimately have sp: "split_on 0x2d (describe_name tag gen ds) = split_on 0x2d tag @ [decimal gen, 0x67 # ds]"
    unfolding describe_name_def split_on_append by (simp add: split_on_none del: split_on.simps)
  obtain token r where r: "rev (split_on 0x2d tag) = token # r" using split_on_nonempty [of "0x2d" tag] by (cases "rev (split_on 0x2d tag)") auto
  then have j: "join_dashes (rev (token # r)) = tag" using join_split [of tag] by (metis rev_rev_ident)
  have g: "std_parse usize_type (decimal gen) = Some (int gen)"
    by (rule std_parse_decimal) (use assms(1) in \<open>simp_all add: usize_type_def\<close>)
  have "all_hexdigits ds" using assms(2) by (simp add: id_digits_def all_hexdigits_def)
  then have c: "describe_candidate (rev (split_on 0x2d (describe_name tag gen ds))) = Some (ds, decimal gen # token # r)"
    unfolding sp using r by simp
  show ?thesis unfolding describe_prefix_def long_describe_prefix_def c using g j by (simp add: Let_def)
qed

subsection \<open>Setting an anchor\<close>

text \<open>Where the digits of a name are counted to its end, it is text.\<close>

lemma scan_name_utf8:
  assumes "scan_name 0 input (Some 0) = (sp, hex)" "name = take (case sp of Some pos \<Rightarrow> pos | None \<Rightarrow> length input) input"
  shows "MIN_HEX_LEN \<le> (case hex of Some n \<Rightarrow> n | None \<Rightarrow> 0) \<longrightarrow> utf8_valid name"
proof (rule impI, rule hexish_utf8, rule ballI)
  assume m: "MIN_HEX_LEN \<le> (case hex of Some n \<Rightarrow> n | None \<Rightarrow> 0)"
  obtain k where k: "hex = Some k" using m by (cases hex) (simp_all add: MIN_HEX_LEN_def)
  fix b assume "b \<in> set name"
  then obtain i where i: "i < length name" "b = name ! i" by (auto simp: in_set_conv_nth)
  have "hexish (input ! i)"
    by (rule scan_name_hexish [OF assms(1) [unfolded k]]) (use i assms(2) in \<open>auto split: option.splits\<close>)
  then show "hexish b" using i assms(2) by simp
qed

lemma ref_nameD:
  assumes "ref_name n"
  shows "n \<noteq> []" "name_text n" "\<not> id_digits n" "\<not> describe_like n" "get_at (n @ q) 0 \<noteq> Some 0x3a" "\<not> is_rev_separator (hd n)"
  using assms by (cases n; auto simp: ref_name_def is_rev_separator_def)+

lemma name_text_append: "name_text (a @ [c]) \<Longrightarrow> name_text (c # b) \<Longrightarrow> name_text (a @ c # b)"
proof (induction a)
  case (Cons x a)
  then show ?case by (cases a) auto
qed simp

lemma name_text_plain: "list_all (\<lambda>b. \<not> is_rev_separator b \<and> b \<noteq> 0x40) n \<Longrightarrow> name_text n"
  by (induction n) (auto simp: is_rev_separator_def)

lemma describe_name_text:
  assumes "name_text (tag @ [0x2d])" "id_digits ds"
  shows "name_text (describe_name tag gen ds)"
proof -
  have "\<not> is_rev_separator b \<and> b \<noteq> 0x40" if "is_ascii_digit b" for b
    using that separator_no_digit [of b] by (auto simp: is_ascii_digit_def)
  then have d: "list_all (\<lambda>b. \<not> is_rev_separator b \<and> b \<noteq> 0x40) (decimal gen)"
    using decimal_digits [of _ gen] by (auto simp: list_all_iff)
  have "nibble_of 0x40 = None" "nibble_of 0x7e = None" "nibble_of 0x5e = None" "nibble_of 0x3a = None" "nibble_of 0x2e = None" by code_simp+
  then have "list_all (\<lambda>b. \<not> is_rev_separator b \<and> b \<noteq> 0x40) ds"
    using assms(2) by (auto simp: id_digits_def list_all_iff is_rev_separator_def)
  with d have "name_text (0x2d # decimal gen @ 0x2d # 0x67 # ds)"
    by (intro name_text_plain) (simp add: is_rev_separator_def)
  from name_text_append [OF assms(1) this] show ?thesis by (simp add: describe_name_def)
qed

lemma set_anchor_empty: "set_anchor fh d [] (Some 0) = rreturn True"
  by (simp add: set_anchor_def MIN_HEX_LEN_def describe_prefix_def long_describe_prefix_def short_describe_prefix_def rbind_simps)

lemma try_parse_sibling: "try_parse i64_type (reflog_text (AtSibling k)) = Ok None"
  by (cases k) (simp_all add: try_parse_def std_parse_def to_digit_def is_ascii_digit_def is_ascii_lowercase_def is_ascii_uppercase_def)

lemma sibling_parse_sibling: "sibling_parse (reflog_text (AtSibling k)) = Some k"
  by (cases k; simp; code_simp)

lemma digit_values_other: "list_ex (\<lambda>b. \<not> is_ascii_digit b) x \<Longrightarrow> digit_values 10 x = None"
proof (induction x)
  case (Cons b x)
  show ?case
  proof (cases "is_ascii_digit b")
    case True
    then show ?thesis using Cons by (simp split: option.split)
  next
    case False
    then have "to_digit b 10 = None" by (auto simp: to_digit_def is_ascii_digit_def is_ascii_lowercase_def is_ascii_uppercase_def word_le_nat_alt word_less_nat_alt Let_def)
    then show ?thesis by simp
  qed
qed simp

lemma try_parse_text: "list_ex (\<lambda>b. \<not> is_ascii_digit b) (drop 1 x) \<Longrightarrow> try_parse I x = Ok None"
proof (cases x)
  case (Cons c cs)
  assume "list_ex (\<lambda>b. \<not> is_ascii_digit b) (drop 1 x)"
  then have "digit_values 10 cs = None" "digit_values 10 x = None"
    using digit_values_other [of cs] digit_values_other [of x] Cons by simp_all
  then show ?thesis using Cons by (simp add: try_parse_def std_parse_def)
qed simp

lemma sibling_parse_date:
  assumes "list_ex (\<lambda>b. \<not> is_ascii_digit b) (drop 1 x)" "\<not> eq_ignore_ascii_case x (lit ''upstream'')" "\<not> eq_ignore_ascii_case x (lit ''push'')"
  shows "sibling_parse x = None"
proof -
  have "\<not> eq_ignore_ascii_case x (lit ''u'')" using assms(1) by (cases x) (auto simp: eq_ignore_ascii_case_def)
  then show ?thesis using assms(2,3) by (simp only: sibling_parse_def if_False simp_thms)
qed

lemma replays_reflog:
  assumes "wf_reflog date r"
  shows "replays d (reflog_nav date d name True (reflog_text r)) [[reflog_call r]] (rreturn ())"
proof (cases r)
  case (AtEntry n)
  then have "int n \<le> int_max i64_type" "int_min i64_type \<le> 0" using assms by (simp_all add: i64_type_def)
  then show ?thesis using AtEntry
    by (simp add: reflog_nav_def try_parse_decimal rbind_simps isize_to_usize_def replays_call)
next
  case (AtSibling k)
  then show ?thesis by (simp add: reflog_nav_def try_parse_sibling sibling_parse_sibling rbind_simps replays_call del: reflog_text.simps)
next
  case (AtDate x t)
  then have x: "list_ex (\<lambda>b. \<not> is_ascii_digit b) (drop 1 x)" "date x = Ok t" "utf8_valid x" "sibling_parse x = None"
    using assms sibling_parse_date [of x] by auto
  then show ?thesis using AtDate by (simp add: reflog_nav_def try_parse_text [OF x(1)] rbind_simps replays_call)
qed

lemma replays_checked_out:
  "0 < n \<Longrightarrow> n \<le> 2 ^ 63 \<Longrightarrow> replays d (reflog_nav date d [] True (0x2d # decimal n)) [[NthCheckedOutBranch n]] (rreturn ())"
  by (simp add: reflog_nav_def try_parse_negative rbind_simps replays_call)

lemma replays_tail_braces:
  "replays d (reflog_nav date d name True t) cs (rreturn ()) \<Longrightarrow>
   replays d (revision_tail date d (name @ 0x40 # in_braces t @ q) name (Some (length name)) True) cs (navigate d q)"
  using replays_bind [of d "reflog_nav date d name True t" cs "rreturn ()" "\<lambda>_. navigate d q"]
  by (simp add: revision_tail_def parens_in_braces rbind_simps nth_append get_at_def)

lemma in_braces_Cons: "in_braces t @ q = 0x7b # tl (in_braces t @ q)"
  by (simp add: in_braces_def)

text \<open>Behind an anchor without braces the navigation follows, whatever the anchor was.\<close>

lemma tail_of_name:
  assumes "n \<noteq> []" "ends_anchor q"
  shows "revision_tail date d (n @ q) n (if q = [] then None else Some (length n)) b = navigate d q"
  using assms by (cases q) (auto simp: revision_tail_def rbind_simps ends_anchor_def ends_token_def get_at_def dest: separator_no_digit)

text \<open>A revision that starts with a name.\<close>

lemma revision_of_name:
  assumes "scan_name 0 (n @ r) (Some 0) = (if r = [] then None else Some (length n), hex)" "n \<noteq> []" "get_at (n @ r) 0 \<noteq> Some 0x3a"
  shows "revision fh date d (n @ r) =
    rbind (set_anchor fh d n hex) (revision_tail date d (n @ r) n (if r = [] then None else Some (length n)))"
  using assms by (simp add: revision_def)

context faster_hex_spec
begin

lemma replays_set_anchor_ref:
  assumes "ref_name n" "MIN_HEX_LEN \<le> (case hex of Some n \<Rightarrow> n | None \<Rightarrow> 0) \<longrightarrow> utf8_valid n"
  shows "replays d (set_anchor fh d n hex) [[FindRef n]] (rreturn True)"
  unfolding set_anchor_no_id [OF ref_nameD(3) [OF assms(1)] assms(2) ref_nameD(1) [OF assms(1)]]
    describe_unlike [OF ref_nameD(4) [OF assms(1)]]
  by (simp add: rbind_simps replays_step)

lemma replays_ref_anchor:
  assumes "ref_name n" "ends_name r" "replays d (revision_tail date d (n @ r) n (if r = [] then None else Some (length n)) True) cs k"
  shows "replays d (revision fh date d (n @ r)) ([FindRef n] # cs) k"
proof -
  note n = ref_nameD [OF assms(1)]
  obtain hex where sc: "scan_name 0 (n @ r) (Some 0) = (if r = [] then None else Some (length n), hex)"
    using scan_text [OF assms(2) n(2), of 0 "Some 0"] by auto
  have u: "MIN_HEX_LEN \<le> (case hex of Some n \<Rightarrow> n | None \<Rightarrow> 0) \<longrightarrow> utf8_valid n" by (rule scan_name_utf8 [OF sc]) simp
  show ?thesis unfolding revision_of_name [OF sc n(1,5)]
    using replays_bind_return [where f = "revision_tail date d (n @ r) n (if r = [] then None else Some (length n))",
      OF replays_set_anchor_ref [OF assms(1) u] assms(3)] by simp
qed

lemma replays_object:
  assumes "id_digits ds" "ends_anchor q"
  shows "replays d (revision fh date d (ds @ q)) [[DisambiguatePrefix (hex_prefix ds) None, FindRef ds]] (navigate d q)"
proof -
  have ds: "ds \<noteq> []" "MIN_HEX_LEN \<le> length ds" "list_all (\<lambda>b. nibble_of b \<noteq> None) ds"
    using assms(1) by (auto simp: id_digits_def MIN_HEX_LEN_def)
  have nib: "nibble_of 0x2d = None" "nibble_of 0x67 = None" "nibble_of 0x3a = None" by code_simp+
  then have c: "get_at (ds @ q) 0 \<noteq> Some 0x3a" "0x2d \<notin> set ds" "get_at ds 0 \<noteq> Some 0x67" using ds(1,3) by (cases ds; auto simp: list_all_iff)+
  then have "describe_prefix ds = None"
    by (simp add: describe_prefix_def long_describe_prefix_def short_describe_prefix_def split_on_none)
  then have a: "set_anchor fh d ds (Some (length ds)) = rbind (rtry d (DisambiguatePrefix (hex_prefix ds) None))
      (\<lambda>ok. if ok then rreturn False else rbind (rcall d (FindRef ds)) (\<lambda>_. rreturn True))"
    using ds(1,2) by (simp add: set_anchor_def try_set_prefix_digits [OF assms(1)] rbind_simps cong: if_cong)
  show ?thesis unfolding revision_of_name [OF scan_digits [OF ds(3) assms(2)] ds(1) c(1)] a
    by (rule replays_alternatives) (rule tail_of_name [OF ds(1) assms(2)])
qed

lemma replays_describe:
  assumes "wf_anchor date (DescribeName tag gen ds)" "ends_anchor q"
  shows "replays d (revision fh date d (describe_name tag gen ds @ q))
    [[DisambiguatePrefix (hex_prefix ds) (Some (DescribeAnchor tag gen)), FindRef (describe_name tag gen ds)]] (navigate d q)"
proof -
  let ?n = "describe_name tag gen ds"
  have n: "?n \<noteq> []" "get_at (?n @ q) 0 \<noteq> Some 0x3a" "name_text ?n" "ends_name q"
    using assms describe_name_text [of tag ds gen] by (cases tag; auto simp: describe_name_def ends_name_def)+
  have "nibble_of 0x2d = None" by code_simp
  then have "\<not> id_digits ?n" by (auto simp: id_digits_def describe_name_def)
  obtain hex where sc: "scan_name 0 (?n @ q) (Some 0) = (if q = [] then None else Some (length ?n), hex)"
    using scan_text [OF n(4,3), of 0 "Some 0"] by auto
  have u: "MIN_HEX_LEN \<le> (case hex of Some n \<Rightarrow> n | None \<Rightarrow> 0) \<longrightarrow> utf8_valid ?n" by (rule scan_name_utf8 [OF sc]) simp
  have p: "describe_prefix ?n = Some (ds, Some (DescribeAnchor tag gen))" and i: "id_digits ds"
    using assms(1) by (simp_all add: describe_prefix_name)
  have a: "set_anchor fh d ?n hex = rbind (rtry d (DisambiguatePrefix (hex_prefix ds) (Some (DescribeAnchor tag gen))))
      (\<lambda>ok. if ok then rreturn False else rbind (rcall d (FindRef ?n)) (\<lambda>_. rreturn True))"
    unfolding set_anchor_no_id [OF \<open>\<not> id_digits ?n\<close> u n(1)] p by (simp add: try_set_prefix_digits [OF i])
  show ?thesis unfolding revision_of_name [OF sc n(1,2)] a
    by (rule replays_alternatives) (rule tail_of_name [OF n(1) assms(2)])
qed

end

lemma replays_at_head:
  assumes "ends_anchor q"
  shows "replays d (revision fh date d (0x40 # q)) [[FindRef (lit ''HEAD'')]] (navigate d q)"
proof (cases q)
  case Nil
  then show ?thesis by (simp add: revision_def scan_at navigate_Nil replays_step)
next
  case (Cons b t)
  then have b: "is_rev_separator b" using assms by (simp add: ends_anchor_def ends_token_def)
  then have "revision_tail date d (0x40 # q) [] (Some 1) True = navigate d q"
    using Cons by (auto simp: revision_tail_def rbind_simps dest: separator_no_digit)
  then show ?thesis using b Cons by (auto simp: revision_def scan_at intro!: replays_call_bind replays_refl dest: separator_no_digit)
qed

lemma replays_current_braces:
  assumes "replays d (reflog_nav date d [] True t) cs (rreturn ())"
  shows "replays d (revision fh date d (0x40 # in_braces t @ q)) cs (navigate d q)"
proof -
  have "scan_name 0 (0x40 # in_braces t @ q) (Some 0) = (Some 0, Some 0)" by (subst in_braces_Cons, rule scan_at) simp
  moreover have "get_at (0x40 # in_braces t @ q) 1 = Some 0x7b" by (subst in_braces_Cons) simp
  ultimately show ?thesis using replays_tail_braces [OF assms] by (simp add: revision_def set_anchor_empty rbind_simps)
qed

context faster_hex_spec
begin

lemma replays_anchor:
  assumes "wf_anchor date a" "ends_anchor q"
  shows "replays d (revision fh date d (print_anchor a @ q)) (anchor_steps a) (navigate d q)"
proof (cases a)
  case (RefName n)
  have "ends_name q" using assms(2) by (simp add: ends_name_def)
  moreover have "replays d (revision_tail date d (n @ q) n (if q = [] then None else Some (length n)) True) [] (navigate d q)"
    using assms RefName ref_nameD(1) [of n] by (simp only: tail_of_name [of n q] wf_anchor.simps replays_refl simp_thms)
  ultimately show ?thesis using replays_ref_anchor [of n q d date "[]"] assms(1) RefName by simp
next
  case (RefReflog n t)
  let ?r = "0x40 # in_braces (reflog_text t) @ q"
  have "ends_name ?r" unfolding ends_name_def using in_braces_Cons [of "reflog_text t" q] by blast
  moreover have "replays d (revision_tail date d (n @ ?r) n (Some (length n)) True) [[reflog_call t]] (navigate d q)"
    by (rule replays_tail_braces, rule replays_reflog) (use assms(1) RefReflog in simp)
  ultimately show ?thesis using replays_ref_anchor [of n ?r d date "[[reflog_call t]]"] assms(1) RefReflog by simp
next
  case AtHead
  then show ?thesis using replays_at_head [OF assms(2), of d fh date] by simp
next
  case (CheckedOut n)
  then show ?thesis using assms by (simp add: replays_current_braces replays_checked_out)
next
  case (DescribeName tag gen ds)
  then show ?thesis using replays_describe [of date tag gen ds q d] assms by simp
qed (use assms in \<open>simp_all add: replays_object replays_current_braces replays_reflog\<close>)

lemma replays_side:
  assumes "wf_side date s" "ends_anchor r" "replays d (navigate d r) cs k"
  shows "replays d (revision fh date d (print_side s @ r)) (side_steps s @ cs) k"
proof -
  let ?q = "concat (map print_nav (snd s)) @ r"
  have "ends_anchor ?q"
  proof (cases "snd s")
    case (Cons n ns)
    obtain b t where "print_nav n = b # t" "b \<noteq> 0x2e" "is_rev_separator b"
      by (cases n) (simp_all add: is_rev_separator_def)
    then show ?thesis using Cons by (simp add: ends_anchor_def ends_token_def)
  qed (use assms(2) in simp)
  then have "replays d (revision fh date d (print_anchor (fst s) @ ?q)) (anchor_steps (fst s)) (navigate d ?q)"
    using assms(1) by (simp add: wf_side_def replays_anchor)
  moreover have "replays d (navigate d ?q) (concat (map nav_steps (snd s)) @ cs) k"
    using assms by (simp add: wf_side_def ends_anchor_def replays_navs)
  ultimately show ?thesis unfolding print_side_def side_steps_def append_assoc by (rule replays_trans)
qed

end

section \<open>Specifications\<close>

text \<open>The interceptor is told that parsing is done only where the delegate is.\<close>

lemma try_keeps_done: "try_intercepted d cs st = (ok, st') \<Longrightarrow> CallDone \<notin> set cs \<Longrightarrow> ir_done st' = ir_done st"
proof (induction cs arbitrary: st)
  case (Cons c cs)
  then show ?case
    by (cases c) (auto simp: intercept_call_def intercept_note_def split: prod.splits if_splits dest!: Cons.IH)
qed simp

lemma run_keeps_done: "run_intercepted d cs st = (ok, st') \<Longrightarrow> CallDone \<notin> set (concat cs) \<Longrightarrow> ir_done st' = ir_done st"
proof (induction cs arbitrary: st)
  case (Cons c cs)
  obtain ok1 st1 where c: "try_intercepted d c st = (ok1, st1)" by fastforce
  then have "ir_done st1 = ir_done st" using try_keeps_done Cons.prems(2) by fastforce
  then show ?case using c Cons.prems Cons.IH [of st1] by (auto split: if_splits)
qed simp

lemma try_intercepted_inner: "try_intercepted d cs st = (ok, st') \<Longrightarrow> try_calls d cs (ir_inner st) = (ok, ir_inner st')"
proof (induction cs arbitrary: st)
  case (Cons c cs)
  then show ?case by (auto simp: intercept_call_def split: prod.splits if_splits dest!: Cons.IH)
qed simp

lemma run_intercepted_inner: "run_intercepted d cs st = (ok, st') \<Longrightarrow> run_steps d cs (ir_inner st) = (ok, ir_inner st')"
proof (induction cs arbitrary: st)
  case (Cons c cs)
  obtain ok1 st1 where c: "try_intercepted d c st = (ok1, st1)" by fastforce
  then show ?case using try_intercepted_inner [OF c] Cons.prems Cons.IH [of st1] by (auto split: if_splits)
qed simp

lemma nav_steps_not_done: "CallDone \<notin> set (concat (nav_steps n))"
  by (cases n) simp_all

lemma reflog_call_not_done: "CallDone \<noteq> reflog_call r"
  by (cases r) simp_all

lemma anchor_steps_not_done: "CallDone \<notin> set (concat (anchor_steps a))"
  by (cases a) (simp_all add: reflog_call_not_done)

lemma side_steps_not_done: "CallDone \<notin> set (concat (side_steps s))" "CallDone \<notin> set (concat (path_steps p))"
proof -
  have "CallDone \<notin> set (concat (concat (map nav_steps ns)))" for ns
    by (induction ns) (simp_all add: nav_steps_not_done del: set_concat)
  then show "CallDone \<notin> set (concat (side_steps s))" by (simp add: side_steps_def anchor_steps_not_done del: set_concat)
  show "CallDone \<notin> set (concat (path_steps p))" by (cases p) (simp_all add: path_steps_def)
qed

lemma print_side_Cons: "wf_side date s \<Longrightarrow> \<exists>b t. print_side s = b # t \<and> \<not> is_rev_separator b"
proof -
  assume w: "wf_side date s"
  have n: "n \<noteq> [] \<Longrightarrow> \<not> is_rev_separator (hd n) \<Longrightarrow> \<exists>b t. n @ x = b # t \<and> \<not> is_rev_separator b" for n x by (cases n) auto
  have nib: "nibble_of 0x7e = None" "nibble_of 0x5e = None" "nibble_of 0x3a = None" "nibble_of 0x2e = None" by code_simp+
  have "\<exists>b t. print_anchor (fst s) = b # t \<and> \<not> is_rev_separator b"
  proof (cases "fst s")
    case (ObjectHex ds)
    then show ?thesis using w nib by (cases ds) (auto simp: wf_side_def id_digits_def is_rev_separator_def)
  next
    case (DescribeName tag gen ds)
    then show ?thesis using w by (cases tag) (auto simp: wf_side_def describe_name_def is_rev_separator_def)
  next
    case (RefName name)
    then show ?thesis using w ref_nameD(1,6) [of name] n [of name "[]"] by (simp add: wf_side_def)
  next
    case (RefReflog name r)
    then show ?thesis using w ref_nameD(1,6) [of name] n [of name "lit ''@'' @ in_braces (reflog_text r)"] by (simp add: wf_side_def)
  qed (simp_all add: is_rev_separator_def)
  then show ?thesis by (auto simp: print_side_def)
qed

lemma runs_to_bind: "runs_to d m cs k st \<Longrightarrow> runs_to d (rbind m f) cs (rbind k f) st"
  by (auto simp: runs_to_def rbind_def split: prod.split)

lemma runs_to_call: "runs_to d (rbind (rcall d c) f) [[c]] (f ()) st"
  by (auto simp: runs_to_def rbind_def rcall_def split: prod.split)

text \<open>A revision that does not end the specification is followed by the rest.\<close>

lemma runs_to_revision:
  assumes "replays d (revision fh date d input) cs (rreturn rest)" "CallDone \<notin> set (concat cs)" "\<not> ir_done st"
    "\<And>st'. \<not> ir_done st' \<Longrightarrow> runs_to d (f rest) ds k st'"
  shows "runs_to d (rbind (revision fh date d input) f) (cs @ ds) k st"
proof (rule runs_to_trans)
  show "runs_to d (rbind (revision fh date d input) f) cs (f rest) st"
    using runs_to_bind [of d "revision fh date d input" cs "rreturn rest" st f] assms(1) by (simp add: replays_def rbind_simps)
  show "runs_to d (f rest) ds k st'" if "run_intercepted d cs st = (True, st')" for st'
    using run_keeps_done [OF that assms(2)] assms(3,4) by simp
qed

lemma try_range_op: "get_at x 0 \<noteq> Some 0x2e \<Longrightarrow> try_range (print_op r @ x) = Some (x, op_kind r)"
  by (cases x; cases r) (auto simp: try_range_def)

lemma runs_to_rest_end: "\<not> ir_done st \<Longrightarrow> runs_to d (revspec_rest fh date d prev found []) [] (rdone d) st"
  by (simp add: runs_to_def revspec_rest_def try_range_def revspec_finish_def)

lemma runs_to_rest_range:
  assumes "\<not> ir_done st" "get_at x 0 \<noteq> Some 0x2e" "replays d (revspec_range fh date d found x (op_kind r)) cs k"
  shows "runs_to d (revspec_rest fh date d None found (print_op r @ x)) cs k st"
  using assms by (simp add: runs_to_def replays_def revspec_rest_def try_range_op)

lemma replays_revision_empty: "replays d (revision fh date d []) [] (rreturn [])"
proof -
  have "scan_name 0 [] (Some 0) = (None, Some 0)" by (simp add: scan_name.simps)
  then show ?thesis by (simp add: revision_def set_anchor_empty revision_tail_def rbind_simps navigate_Nil replays_refl)
qed

lemma replays_revision_dots: "replays d (revision fh date d (0x2e # 0x2e # r)) [] (rreturn (0x2e # 0x2e # r))"
proof -
  have "scan_name 0 (0x2e # 0x2e # r) (Some 0) = (Some 0, Some 0)" by (simp add: scan_name.simps [of 0] is_rev_separator_def)
  then show ?thesis by (simp add: revision_def set_anchor_empty revision_tail_def rbind_simps replays_dots)
qed


lemma get_at_end: "(b = None \<longrightarrow> p = None) \<Longrightarrow> pred_option (wf_side date) b \<Longrightarrow> get_at (print_end b @ print_path p) 0 \<noteq> Some 0x2e"
  using print_side_Cons by (cases b) (fastforce simp: print_path_def is_rev_separator_def)+

lemma head_then_finish: "rbind (head_unless d True) (\<lambda>_. revspec_finish d []) = rdone d"
  by (simp add: rbind_simps head_unless_def revspec_finish_def)

lemma ends_anchor_path: "ends_anchor (print_path p)"
  by (auto simp: print_path_def ends_anchor_def ends_token_def is_rev_separator_def split: option.split)

context faster_hex_spec
begin

lemma replays_side_path:
  "wf_side date s \<Longrightarrow> replays d (revision fh date d (print_side s @ print_path p)) (side_steps s @ path_steps p) (rreturn [])"
  by (rule replays_side [OF _ ends_anchor_path replays_path])

lemma replays_range:
  assumes "pred_option (wf_side date) b" "b = None \<longrightarrow> p = None"
  shows "replays d (revspec_range fh date d found (print_end b @ print_path p) kind)
    ((if found then [] else [[FindRef (lit ''HEAD'')]]) @ [CallKind kind] # end_steps b @ path_steps p) (rdone d)"
proof -
  let ?x = "print_end b @ print_path p"
  have e: "replays d (rbind (revision fh date d ?x) (\<lambda>m. rbind (head_unless d (m \<noteq> ?x)) (\<lambda>_. revspec_finish d m)))
      (end_steps b @ path_steps p) (rdone d)"
  proof (cases b)
    case None
    let ?f = "\<lambda>m. rbind (head_unless d (m \<noteq> [])) (\<lambda>_. revspec_finish d m)"
    have "replays d (?f []) [[FindRef (lit ''HEAD'')]] (rdone d)"
      by (simp add: head_unless_def revspec_finish_def replays_call_bind replays_refl)
    then have "replays d (rbind (revision fh date d []) ?f) ([] @ [[FindRef (lit ''HEAD'')]]) (rdone d)"
      by (rule replays_bind_return [where f = ?f, OF replays_revision_empty])
    then show ?thesis using None assms(2) by (simp add: print_path_def path_steps_def)
  next
    case (Some s)
    have "replays d (revision fh date d ?x) (side_steps s @ path_steps p) (rreturn [])"
      using Some assms(1) by (simp add: replays_side_path)
    moreover have "[] \<noteq> ?x" using Some assms(1) print_side_Cons [of date s] by auto
    ultimately show ?thesis using Some replays_bind [of d "revision fh date d ?x" "side_steps s @ path_steps p" "rreturn []"
      "\<lambda>m. rbind (head_unless d (m \<noteq> ?x)) (\<lambda>_. revspec_finish d m)"] by (simp only: rbind_simps end_steps.simps head_then_finish not_False_eq_True)
  qed
  show ?thesis unfolding revspec_range_def head_unless_def [of d found]
    using e by (auto simp: rbind_simps intro!: replays_call_bind)
qed

lemma runs_to_range:
  assumes "wf_spec date (SpecRange a r b p)" "\<not> ir_done st"
  shows "runs_to d (rbind (revision fh date d (print_spec (SpecRange a r b p)))
    (\<lambda>rest. revspec_rest fh date d None (rest \<noteq> print_spec (SpecRange a r b p)) rest)) (spec_steps (SpecRange a r b p)) (rdone d) st"
proof -
  let ?x = "print_end b @ print_path p"
  let ?cs = "case a of Some s \<Rightarrow> side_steps s | None \<Rightarrow> []"
  obtain y where y: "print_op r @ ?x = 0x2e # 0x2e # y" by (cases r) simp_all
  have "replays d (revision fh date d (print_end a @ print_op r @ ?x)) ?cs (rreturn (print_op r @ ?x))"
  proof (cases a)
    case None
    then show ?thesis unfolding y by (simp add: replays_revision_dots)
  next
    case (Some s)
    have "ends_anchor (0x2e # 0x2e # y)" by (simp add: ends_anchor_def ends_token_def is_rev_separator_def)
    then show ?thesis using Some assms(1) replays_side [OF _ _ replays_dots] unfolding y by fastforce
  qed
  moreover have "CallDone \<notin> set (concat ?cs)" by (cases a) (simp_all add: side_steps_not_done del: set_concat)
  moreover have "runs_to d (revspec_rest fh date d None (print_op r @ ?x \<noteq> print_end a @ print_op r @ ?x) (print_op r @ ?x))
      ((if print_op r @ ?x \<noteq> print_end a @ print_op r @ ?x then [] else [[FindRef (lit ''HEAD'')]]) @
       [CallKind (op_kind r)] # end_steps b @ path_steps p) (rdone d) st'" if "\<not> ir_done st'" for st'
    using that assms(1) by (intro runs_to_rest_range get_at_end [where date = date] replays_range) simp_all
  ultimately have "runs_to d (rbind (revision fh date d (print_end a @ print_op r @ ?x))
      (\<lambda>rest. revspec_rest fh date d None (rest \<noteq> print_end a @ print_op r @ ?x) rest))
      (?cs @ (if print_op r @ ?x \<noteq> print_end a @ print_op r @ ?x then [] else [[FindRef (lit ''HEAD'')]]) @
       [CallKind (op_kind r)] # end_steps b @ path_steps p) (rdone d) st"
    using assms(2) by (intro runs_to_revision)
  moreover have "print_op r @ ?x \<noteq> print_end a @ print_op r @ ?x \<longleftrightarrow> a \<noteq> None"
    using assms(1) print_side_Cons by (cases a) fastforce+
  ultimately show ?thesis by (cases a) simp_all
qed

end

lemma ends_anchor_caret: "ends_anchor (0x5e # r)"
  by (simp add: ends_anchor_def ends_token_def is_rev_separator_def)

text \<open>The suffixes that end a specification tell the delegate so themselves.\<close>

lemma rdone_then_rest: "rbind (rdone d) (\<lambda>_. revspec_rest fh date d prev found []) = rdone d"
  by (rule ext) (simp add: rbind_def rdone_def revspec_rest_def rreturn_def intercept_call_def intercept_note_def split: prod.split)

context faster_hex_spec
begin

lemma replays_parents:
  assumes "wf_side date s"
  shows "replays d (rbind (revision fh date d (print_spec (SpecParents s excluded)))
    (\<lambda>rest. revspec_rest fh date d None (rest \<noteq> print_spec (SpecParents s excluded)) rest)) (spec_steps (SpecParents s excluded)) (rdone d)"
proof -
  let ?kind = "if excluded then ExcludeReachableFromParents else IncludeReachableFromParents"
  let ?c = "if excluded then 0x21 else 0x40 :: u8"
  let ?k = "rbind (rdone d) (\<lambda>_. rreturn [])"
  have "replays d (navigate d [0x5e, ?c]) [[CallKind ?kind]] ?k"
    by (simp add: navigate_Cons nav_step_def nav_caret_def try_parse_isize_def is_ascii_digit_def nav_caret_other_def parens_def
        rbind_simps replays_call_bind replays_refl)
  then have "replays d (revision fh date d (print_side s @ [0x5e, ?c])) (side_steps s @ [[CallKind ?kind]]) ?k"
    by (rule replays_side [OF assms ends_anchor_caret])
  moreover have "print_spec (SpecParents s excluded) = print_side s @ [0x5e, ?c]" by simp
  ultimately show ?thesis
    using replays_bind [of d "revision fh date d (print_side s @ [0x5e, ?c])" "side_steps s @ [[CallKind ?kind]]" ?k
      "\<lambda>rest. revspec_rest fh date d None (rest \<noteq> print_side s @ [0x5e, ?c]) rest"]
    by (simp only: rbind_simps rdone_then_rest spec_steps.simps)
qed

end

text \<open>The range from a parent ends at the reference that was named last.\<close>

definition set_again :: "('s, 't) delegate \<Rightarrow> bytes \<Rightarrow> ('s, 'e, unit) rev" where
  "set_again d past_sep st =
     (case ir_last_prefix st of
        Some (p, hint) \<Rightarrow> rcall d (DisambiguatePrefix p hint) (st\<lparr>ir_last_prefix := None\<rparr>)
      | None \<Rightarrow>
          (case ir_last_ref st of
             Some name \<Rightarrow> rcall d (FindRef name) (st\<lparr>ir_last_ref := None\<rparr>)
           | None \<Rightarrow> rthrow (UnconsumedInput past_sep) st))"

lemma set_again_def': "set_again d past_sep = (\<lambda>st. case ir_last_prefix st of
        Some (p, hint) \<Rightarrow> rcall d (DisambiguatePrefix p hint) (st\<lparr>ir_last_prefix := None\<rparr>)
      | None \<Rightarrow>
          (case ir_last_ref st of
             Some name \<Rightarrow> rcall d (FindRef name) (st\<lparr>ir_last_ref := None\<rparr>)
           | None \<Rightarrow> rthrow (UnconsumedInput past_sep) st))"
  by (rule ext) (rule set_again_def)

lemma runs_to_set_again:
  assumes "ir_last_prefix st = None" "ir_last_ref st = Some name"
  shows "runs_to d (set_again d past) [[FindRef name]] (rreturn ()) st"
  using assms by (cases "d (FindRef name) (ir_inner st)")
    (simp add: runs_to_def set_again_def rcall_def rreturn_def intercept_call_def intercept_note_def)

lemma try_parse_isize_parent:
  assumes "pred_option (\<lambda>k. 0 < k \<and> k < 2 ^ 63) n"
  shows "try_parse_isize (0x2d # from_number n) = Ok (Some (- int (from_parent n), True, Suc (length (from_number n))))"
proof (cases n)
  case (Some k)
  then show ?thesis using assms by (simp add: from_number_def from_parent_def try_parse_isize_negative)
qed (simp add: from_number_def from_parent_def try_parse_isize_def)

lemma nav_caret_negative:
  assumes "pred_option (\<lambda>k. 0 < k \<and> k < 2 ^ 63) n"
  shows "nav_caret d (0x2d # from_number n) =
     rbind (rcall d (Traverse (NthParent (from_parent n)))) (\<lambda>_. rbind (rcall d (CallKind RangeBetween)) (\<lambda>_.
     rbind (set_again d (0x2d # from_number n)) (\<lambda>_. rbind (rdone d) (\<lambda>_. rreturn (NavStop [])))))"
proof -
  have "0 < from_parent n" "from_parent n < 2 ^ 63" using assms by (auto simp: from_parent_def split: option.splits)
  then have "checked_mul i64_type (- int (from_parent n)) (- 1) = Some (int (from_parent n))"
    by (simp add: checked_mul_def checked_def i64_type_def)
  moreover have "get_range (0x2d # from_number n) (Suc (length (from_number n))) (length (0x2d # from_number n)) = Some []" by (simp add: get_range_def)
  ultimately show ?thesis
    by (simp add: nav_caret_def try_parse_isize_parent [OF assms] nav_caret_number_def nav_range_from_parent_def rbind_simps
        isize_to_usize_def ok_or_def set_again_def')
qed

lemma replays_from_parent:
  assumes "pred_option (\<lambda>k. 0 < k \<and> k < 2 ^ 63) n"
  shows "replays d (navigate d (0x5e # 0x2d # from_number n)) [[Traverse (NthParent (from_parent n))], [CallKind RangeBetween]]
    (rbind (set_again d (0x2d # from_number n)) (\<lambda>_. rbind (rdone d) (\<lambda>_. rreturn [])))"
  by (simp add: navigate_Cons nav_step_def nav_caret_negative [OF assms] rbind_simps replays_call_bind replays_refl)

lemma run_from_parent:
  assumes "run_intercepted d [[FindRef name], [Traverse t], [CallKind k]] st = (True, st')"
  shows "ir_last_ref st' = Some name" "ir_last_prefix st' = ir_last_prefix st"
  using assms by (auto simp: intercept_call_def intercept_note_def split: prod.splits if_splits)

context faster_hex_spec
begin

lemma runs_to_from_parent:
  fixes date :: "bytes \<Rightarrow> ('t, 'e) outcome" and d :: "('s, 't) delegate"
  assumes "wf_spec date (SpecFromParent name n)" "ir_last_prefix st = None"
  shows "runs_to d (rbind (revision fh date d (print_spec (SpecFromParent name n)))
    (\<lambda>rest. revspec_rest fh date d None (rest \<noteq> print_spec (SpecFromParent name n)) rest)) (spec_steps (SpecFromParent name n)) (rdone d) st"
proof -
  let ?t = "0x2d # from_number n"
  let ?s = "(case name of Some m \<Rightarrow> RefName m | None \<Rightarrow> AtHead, []) :: 't rev_side"
  let ?in = "from_name name @ 0x5e # ?t"
  let ?f = "\<lambda>rest. revspec_rest fh date d None (rest \<noteq> ?in) rest"
  let ?cs = "[[FindRef (from_ref name)], [Traverse (NthParent (from_parent n))], [CallKind RangeBetween]]"
  have n: "pred_option (\<lambda>k. 0 < k \<and> k < 2 ^ 63) n" and w: "wf_side date ?s" using assms(1) by (auto simp: wf_side_def split: option.splits)
  have "replays d (revision fh date d (print_side ?s @ 0x5e # ?t)) (side_steps ?s @ [[Traverse (NthParent (from_parent n))], [CallKind RangeBetween]])
      (rbind (set_again d ?t) (\<lambda>_. rbind (rdone d) (\<lambda>_. rreturn [])))"
    by (rule replays_side [OF w ends_anchor_caret replays_from_parent [OF n]])
  then have rv: "replays d (revision fh date d ?in) ?cs (rbind (set_again d ?t) (\<lambda>_. rbind (rdone d) (\<lambda>_. rreturn [])))"
    by (cases name) (simp_all add: print_side_def side_steps_def from_name_def from_ref_def)
  have r: "replays d (rbind (revision fh date d ?in) ?f) ?cs (rbind (set_again d ?t) (\<lambda>_. rdone d))"
    using replays_bind [OF rv, of ?f] by (simp only: rbind_simps rdone_then_rest)
  have "runs_to d (rbind (revision fh date d ?in) ?f) (?cs @ [[FindRef (from_ref name)]]) (rdone d) st"
  proof (rule runs_to_trans)
    show "runs_to d (rbind (revision fh date d ?in) ?f) ?cs (rbind (set_again d ?t) (\<lambda>_. rdone d)) st" using r by (simp only: replays_def)
    fix st' assume st': "run_intercepted d ?cs st = (True, st')"
    show "runs_to d (rbind (set_again d ?t) (\<lambda>_. rdone d)) [[FindRef (from_ref name)]] (rdone d) st'"
      using runs_to_bind [OF runs_to_set_again, of st' "from_ref name" d ?t "\<lambda>_. rdone d"] run_from_parent [OF st'] assms(2) by (simp add: rbind_simps)
  qed
  then show ?thesis by simp
qed

text \<open>A search in all commits and a path in the index stand alone.\<close>

lemma revision_of_search: "regex \<noteq> [] \<Longrightarrow> revision fh date d (print_spec (SpecSearch regex negated)) = rbind (rcall d (FindRegex regex negated)) (\<lambda>_. rreturn [])"
proof -
  assume r: "regex \<noteq> []"
  then have "print_regex regex negated \<noteq> []" by (simp add: print_regex_def)
  then show ?thesis using r by (simp add: revision_def revision_colon_def parse_regex_print rbind_simps)
qed

lemma revision_of_index:
  assumes "wf_spec date (SpecIndex stage path)"
  shows "revision fh date d (print_spec (SpecIndex stage path :: 't rev_spec)) =
    rbind (rcall d (IndexLookup path (case stage of Some n \<Rightarrow> word_of_nat n | None \<Rightarrow> 0))) (\<lambda>_. rreturn [])"
proof (cases stage)
  case None
  obtain b t where p: "path = b # t" using assms None by (cases path) auto
  then have "b \<noteq> 0x2f" "\<not> (is_ascii_digit b \<and> get_at t 0 = Some 0x3a)" using assms None by auto
  then have "\<not> prefix (lit '':/'') (0x3a # path)" "\<not> prefix (lit '':0:'') (0x3a # path)" "\<not> prefix (lit '':1:'') (0x3a # path)"
    "\<not> prefix (lit '':2:'') (0x3a # path)" "0x3a # path \<noteq> lit '':''" "0x3a # path \<noteq> lit '':/''"
    using p by (cases t; auto simp: is_ascii_digit_def)+
  then show ?thesis using None by (simp add: revision_def revision_colon_def print_stage_def del: prefix_code)
next
  case (Some n)
  then consider "n = 0" | "n = 1" | "n = 2" using assms by fastforce
  then show ?thesis using Some by cases (simp_all add: revision_def revision_colon_def print_stage_def decimal.simps)
qed

lemma runs_to_whole:
  assumes "revision fh date d input = rbind (rcall d c) (\<lambda>_. rreturn [])" "c \<noteq> CallDone" "\<not> ir_done st"
  shows "runs_to d (rbind (revision fh date d input) (\<lambda>rest. revspec_rest fh date d None (P rest) rest)) [[c]] (rdone d) st"
proof -
  have "replays d (revision fh date d input) [[c]] (rreturn [])" unfolding assms(1) by (rule replays_step)
  then have "runs_to d (rbind (revision fh date d input) (\<lambda>rest. revspec_rest fh date d None (P rest) rest)) ([[c]] @ []) (rdone d) st"
    by (rule runs_to_revision) (use assms(2,3) runs_to_rest_end in simp_all)
  then show ?thesis by simp
qed

lemma runs_to_single:
  assumes "wf_side date s" "\<not> ir_done st"
  shows "runs_to d (rbind (revision fh date d (print_side s @ print_path p)) (\<lambda>rest. revspec_rest fh date d prev (P rest) rest))
    (side_steps s @ path_steps p) (rdone d) st"
proof -
  have "CallDone \<notin> set (concat (side_steps s @ path_steps p))" using side_steps_not_done(1) [of s] side_steps_not_done(2) [of p] by simp
  then have "runs_to d (rbind (revision fh date d (print_side s @ print_path p)) (\<lambda>rest. revspec_rest fh date d prev (P rest) rest))
    ((side_steps s @ path_steps p) @ []) (rdone d) st"
    by (intro runs_to_revision [OF replays_side_path [OF assms(1)] _ assms(2)] runs_to_rest_end)
  then show ?thesis by simp
qed

lemma runs_to_exclude:
  assumes "wf_side date r" "\<not> ir_done st"
  shows "runs_to d (revspec_parse fh date d (print_spec (SpecExclude r p))) (spec_steps (SpecExclude r p)) (rdone d) st"
proof -
  let ?x = "print_side r @ print_path p"
  have "runs_to d (revspec_parse fh date d (print_spec (SpecExclude r p))) ([[CallKind ExcludeReachable]] @ side_steps r @ path_steps p) (rdone d) st"
  proof (rule runs_to_trans)
    show "runs_to d (revspec_parse fh date d (print_spec (SpecExclude r p))) [[CallKind ExcludeReachable]]
      (rbind (revision fh date d ?x) (\<lambda>rest. revspec_rest fh date d (Some ExcludeReachable) (rest \<noteq> ?x) rest)) st"
      by (simp add: revspec_parse_def) (rule runs_to_call)
    fix st' assume "run_intercepted d [[CallKind ExcludeReachable]] st = (True, st')"
    then have "\<not> ir_done st'" using run_keeps_done [of d "[[CallKind ExcludeReachable]]" st] assms(2) by simp
    then show "runs_to d (rbind (revision fh date d ?x) (\<lambda>rest. revspec_rest fh date d (Some ExcludeReachable) (rest \<noteq> ?x) rest))
      (side_steps r @ path_steps p) (rdone d) st'" by (rule runs_to_single [OF assms(1)])
  qed
  then show ?thesis by simp
qed

lemma revspec_parse_plain:
  "get_at input 0 \<noteq> Some 0x5e \<Longrightarrow>
   revspec_parse fh date d input = rbind (revision fh date d input) (\<lambda>rest. revspec_rest fh date d None (rest \<noteq> input) rest)"
  by (simp add: revspec_parse_def)

lemma print_spec_no_caret:
  assumes "wf_spec date sp" "\<And>r p. sp \<noteq> SpecExclude r p"
  shows "get_at (print_spec sp) 0 \<noteq> Some 0x5e"
proof -
  have c: "get_at (print_side r @ q) 0 \<noteq> Some 0x5e" if "wf_side date r" for r q
    using print_side_Cons [OF that] by (auto simp: is_rev_separator_def)
  show ?thesis
  proof (cases sp)
    case (SpecRange a r b p)
    then show ?thesis using assms(1) c by (cases a; cases r) simp_all
  next
    case (SpecFromParent name n)
    then show ?thesis using assms(1) ref_nameD(1,6) by (cases name) (auto simp: from_name_def get_at_def nth_append hd_conv_nth is_rev_separator_def)
  qed (use assms c in simp_all)
qed

lemma runs_to_spec:
  assumes "wf_spec date sp"
  shows "runs_to d (revspec_parse fh date d (print_spec sp)) (spec_steps sp) (rdone d) (intercept_new s)"
proof -
  have i: "\<not> ir_done (intercept_new s)" "ir_last_prefix (intercept_new s) = None" by (simp_all add: intercept_new_def)
  note c = revspec_parse_plain [where date = date and d = d, OF print_spec_no_caret [OF assms]]
  show ?thesis
  proof (cases sp)
    case (SpecSingle r p)
    then have "wf_side date r" using assms by simp
    then show ?thesis using SpecSingle runs_to_single [OF _ i(1), where s = r and d = d and date = date and p = p and prev = None] by (subst c) simp_all
  next
    case (SpecExclude r p)
    then have "wf_side date r" using assms by simp
    then show ?thesis unfolding SpecExclude by (rule runs_to_exclude [OF _ i(1)])
  next
    case (SpecRange a r b p)
    show ?thesis by (subst c, simp add: SpecRange, unfold SpecRange, rule runs_to_range [OF _ i(1)]) (use assms SpecRange in simp)
  next
    case (SpecParents r e)
    then have "wf_side date r" using assms by simp
    from replays_parents [OF this, where d = d and excluded = e] show ?thesis unfolding SpecParents [symmetric] replays_def
      using SpecParents by (subst c) simp_all
  next
    case (SpecSearch regex negated)
    then have "regex \<noteq> []" using assms by simp
    from runs_to_whole [OF revision_of_search [OF this] _ i(1)] show ?thesis using SpecSearch by (subst c) simp_all
  next
    case (SpecIndex stage path)
    from runs_to_whole [OF revision_of_index [OF assms [unfolded SpecIndex]] _ i(1)] show ?thesis using SpecIndex by (subst c) simp_all
  next
    case (SpecFromParent name n)
    show ?thesis by (subst c, simp add: SpecFromParent, unfold SpecFromParent, rule runs_to_from_parent [OF _ i(2)])
      (use assms SpecFromParent in simp)
  qed
qed

end

section \<open>The specification is replayed\<close>

lemma revspec_run_print:
  assumes "faster_hex_spec fh" "wf_spec date sp"
  shows "revspec_run fh date d (print_spec sp) s =
    (case run_steps d (spec_steps sp) s of
       (True, s') \<Rightarrow> (Ok (), fst (d CallDone s'))
     | (False, s') \<Rightarrow> (Err DelegateRefused, s'))"
proof -
  obtain ok st where r: "run_intercepted d (spec_steps sp) (intercept_new s) = (ok, st)" by fastforce
  then have "run_steps d (spec_steps sp) s = (ok, ir_inner st)" using run_intercepted_inner by (fastforce simp: intercept_new_def)
  then show ?thesis using faster_hex_spec.runs_to_spec [OF assms, of d s] r
    by (simp add: revspec_run_def runs_to_def rdone_def intercept_call_def split: prod.split)
qed

text \<open>
  C18: The part of git's revision syntax that \<open>rev_spec\<close> describes is understood as what it means: the parser makes exactly the calls of the
  delegate that belong to the parts of a specification, in their order, and then tells it that it is done; it stops at the first
  step of which the delegate refuses all alternatives and reports the refusal.  Covered are
  \<^item> as anchors: \<^verbatim>\<open>@\<close>; a reference name; four to forty hexadecimal digits and the output of \<^verbatim>\<open>git describe\<close> (\<^verbatim>\<open>tag-number-gdigits\<close>), which
    are tried as an object id first and as a reference if that is refused; a reference name or nothing, an \<^verbatim>\<open>@\<close>, and in braces
    a number, a date, \<^verbatim>\<open>upstream\<close> or \<^verbatim>\<open>push\<close>; and an \<^verbatim>\<open>@\<close> with a negative number in braces;
  \<^item> behind an anchor: any sequence of \<^verbatim>\<open>~n\<close>, \<^verbatim>\<open>^n\<close>, \<^verbatim>\<open>^{kind}\<close>, \<^verbatim>\<open>^{}\<close> and \<^verbatim>\<open>^{/regex}\<close>, with braces in a search escaped, and then \<^verbatim>\<open>:path\<close> (in
    a range behind its right end, which must not be left out then);
  \<^item> as a whole: one revision, \<^verbatim>\<open>^rev\<close>, \<^verbatim>\<open>a..b\<close> and \<^verbatim>\<open>a...b\<close> with either end left out, \<^verbatim>\<open>rev^@\<close>, \<^verbatim>\<open>rev^!\<close>, \<^verbatim>\<open>:/regex\<close>, \<^verbatim>\<open>:path\<close> and \<^verbatim>\<open>:n:path\<close> with
    a stage up to two, and \<^verbatim>\<open>rev^-n\<close> for a reference or \<^verbatim>\<open>@\<close> without navigation, where it is the range from the parent to the same reference.

  Not covered are names with a \<^verbatim>\<open>~\<close>, \<^verbatim>\<open>^\<close>, \<^verbatim>\<open>:\<close>, two dots in a row or a dot at either end, or with an \<^verbatim>\<open>@\<close> that is last or before a brace or a dot; references
  whose name looks like the output of describe in another way (\<^verbatim>\<open>describe_like\<close>); reflogs of names that may be an object id;
  \<^verbatim>\<open>rev^-n\<close> behind navigation, reflogs or object ids; paths without a stage that start with a slash or with a digit and a
  colon; numbers beyond the machine integers; and everything that is malformed.  The theorem holds for every delegate and every date
  parser (a date is text that this parser accepts, that has a character behind the first that is no digit, and that is not \<^verbatim>\<open>upstream\<close> or
  \<^verbatim>\<open>push\<close>); the hypothesis about the hexadecimal decoder is its documented behaviour.
\<close>

theorem revspec_replays_syntax:
  assumes "faster_hex_spec fh" "wf_spec date sp"
  shows "revspec_run fh date d (print_spec sp) s =
    (case run_steps d (spec_steps sp) s of
       (True, s') \<Rightarrow> (Ok (), fst (d CallDone s'))
     | (False, s') \<Rightarrow> (Err DelegateRefused, s'))"
  by (rule revspec_run_print [OF assms])

definition recording_delegate :: "('t rev_call list, 't) delegate" where
  "recording_delegate c s = (s @ [c], True)"

text \<open>A delegate that records its calls and knows no object ids.\<close>

definition refs_delegate :: "('t rev_call list, 't) delegate" where
  "refs_delegate c s = (s @ [c], case c of DisambiguatePrefix _ _ \<Rightarrow> False | _ \<Rightarrow> True)"

definition no_dates :: "bytes \<Rightarrow> (unit, unit) outcome" where
  "no_dates s = Err ()"

theorem revspec_replays_syntax_witness:
  "wf_spec no_dates (SpecRange (Some (RefName (lit ''release-1.0''), [Ancestor 2, PeelObject KTree])) ThreeDots (Some (ObjectHex (lit ''beef''), [])) None) \<and>
   revspec_run reference_hex no_dates refs_delegate (lit ''release-1.0~2^{tree}...beef'') [] =
     (Ok (), [FindRef (lit ''release-1.0''), Traverse (NthAncestor 2), PeelUntil (PeelKind KTree), CallKind ReachableToMergeBase,
       DisambiguatePrefix (hex_prefix (lit ''beef'')) None, FindRef (lit ''beef''), CallDone])"
proof -
  let ?sp = "SpecRange (Some (RefName (lit ''release-1.0''), [Ancestor 2, PeelObject KTree])) ThreeDots (Some (ObjectHex (lit ''beef''), [])) None :: unit rev_spec"
  have "ref_name (lit ''release-1.0'')" "id_digits (lit ''beef'')" by code_simp+
  then have w: "wf_spec no_dates ?sp" by (simp add: wf_side_def)
  have p: "print_spec ?sp = lit ''release-1.0~2^{tree}...beef''" by code_simp
  have c: "run_steps (refs_delegate :: (unit rev_call list, unit) delegate) (spec_steps ?sp) [] =
      (True, [FindRef (lit ''release-1.0''), Traverse (NthAncestor 2), PeelUntil (PeelKind KTree), CallKind ReachableToMergeBase,
       DisambiguatePrefix (hex_prefix (lit ''beef'')) None, FindRef (lit ''beef'')])"
    by (simp add: refs_delegate_def side_steps_def path_steps_def)
  show ?thesis
    using w revspec_replays_syntax [OF ref_hex.faster_hex_spec_axioms w, where d = refs_delegate and s = "[]", unfolded p c]
    by (simp add: refs_delegate_def)
qed

lemma revspec_run_no_panic:
  assumes "faster_hex_spec fh" "\<And>s. date s \<noteq> Panic"
  shows "fst (revspec_run fh date d input s) \<noteq> Panic"
proof -
  have "rsafe (revspec_parse fh date d input)" by (rule faster_hex_spec.rsafe_revspec_parse [OF assms(1)]) (rule assms(2))
  then have "fst (revspec_parse fh date d input (intercept_new s)) \<noteq> Panic" by (rule rsafeD)
  then show ?thesis by (cases "revspec_parse fh date d input (intercept_new s)") (simp add: revspec_run_def)
qed

end
