(* ===== verification/Gix_Refspec_Revisions.thy ===== *)
theory Gix_Refspec_Revisions
  imports Gix_Refspec Gix_Revspec_Grammar
begin

text \<open>
  Refspecs together with the revision parser: what \<^verbatim>\<open>gix-refspec\<close> does with the source of a push that is no reference name is to
  hand it to \<^verbatim>\<open>gix-revision\<close> with a delegate that accepts every call (\<^verbatim>\<open>Noop\<close>).  The lemmas compose the results about both crates: a
  push from a revision in the part of git's syntax that \<open>wf_spec\<close> covers is accepted, and neither parser panics.
\<close>

definition parse_with_revspecs ::
    "faster_hex \<Rightarrow> (bytes \<Rightarrow> ('t, 'e) outcome) \<Rightarrow> bstr \<Rightarrow> bytes \<Rightarrow> operation \<Rightarrow> (refspec, 'e rev_error refspec_error) outcome" where
  "parse_with_revspecs fh date bs spec op = refspec_parse bs (\<lambda>s. fst (revspec_run fh date noop_delegate s ())) spec op"

section \<open>Refspecs do not panic\<close>

context bstr_spec
begin

lemma validated_side_no_panic:
  assumes "\<And>s. revspec s \<noteq> Panic"
  shows "validated_side bs revspec side allow \<noteq> Panic"
proof (cases side)
  case (Some s)
  let ?n = "length (take 2 (filter (\<lambda>b. b = STAR) s))"
  consider "1 < ?n" | "?n = 0" | "?n = 1" by linarith
  then show ?thesis
  proof cases
    case 2
    then show ?thesis using Some assms name_partial_valid(2) [of s]
      by (cases "ref_name_partial bs s") (auto simp: validated_side_def Let_def and_then_Panic_iff map_err_Panic_iff)
  next
    case 3
    then have "STAR \<in> set s" using star_count [of s] by (cases "filter (\<lambda>b. b = STAR) s") auto
    then obtain i where i: "find_byte bs s STAR = Some i" "i < length s"
      using position_SomeD [of "\<lambda>c. c = STAR" s] by (cases "position (\<lambda>c. c = STAR) s") (auto simp: find_byte)
    show ?thesis using Some 3 i name_partial_valid(2) [of "s[i := 0x61]"]
      by (auto simp: validated_side_def Let_def and_then_Panic_iff map_err_Panic_iff)
  qed (use Some in \<open>simp add: validated_side_def\<close>)
qed (simp add: validated_side_def)

lemma parse_finish_no_panic:
  assumes "\<And>s. revspec s \<noteq> Panic"
  shows "parse_finish bs revspec mode op src dst \<noteq> Panic"
  using validated_side_no_panic [OF assms]
  by (auto simp: parse_finish_def Let_def and_then_Panic_iff check_negative_def split: option.splits if_splits)

lemma refspec_parse_no_panic:
  assumes "\<And>s. revspec s \<noteq> Panic"
  shows "refspec_parse bs revspec spec op \<noteq> Panic"
proof (cases "spec = []")
  case False
  have s: "parse_sides rest pos op \<noteq> Panic" if "find_byte bs rest COLON = Some pos" for rest pos
  proof -
    have "pos < length rest" using that by (auto simp: find_byte dest: position_SomeD)
    then show ?thesis by (auto simp: parse_sides_def get_range_def split: option.splits operation.splits)
  qed
  show ?thesis using False s parse_finish_no_panic [OF assms]
    by (auto simp: refspec_parse_def and_then_Panic_iff parse_mode_def Let_def split: option.splits if_splits)
qed (auto simp: refspec_parse_def split: operation.splits)

end

section \<open>Pushing a revision\<close>

lemma run_noop: "(\<And>c. c \<in> set cs \<Longrightarrow> c \<noteq> []) \<Longrightarrow> run_steps noop_delegate cs s = (True, s)"
proof (induction cs)
  case (Cons c cs)
  then obtain x xs where "c = x # xs" by (cases c) auto
  then show ?case using Cons by (simp add: noop_delegate_def)
qed simp

lemma spec_steps_nonempty: "c \<in> set (spec_steps sp) \<Longrightarrow> c \<noteq> []"
proof -
  have n: "c \<in> set (nav_steps n) \<Longrightarrow> c \<noteq> []" for n by (cases n) (auto split: if_splits)
  have a: "c \<in> set (anchor_steps a) \<Longrightarrow> c \<noteq> []" for a by (cases a) auto
  have s: "c \<in> set (side_steps s) \<Longrightarrow> c \<noteq> []" for s using n a by (auto simp: side_steps_def)
  have e: "c \<in> set (end_steps b) \<Longrightarrow> c \<noteq> []" for b using s by (cases b) auto
  have p: "c \<in> set (path_steps q) \<Longrightarrow> c \<noteq> []" for q by (cases q) (auto simp: path_steps_def)
  show "c \<in> set (spec_steps sp) \<Longrightarrow> c \<noteq> []" using s e p by (cases sp) auto
qed

lemma run_noop_spec: "run_steps noop_delegate (spec_steps sp) s = (True, s)"
  by (rule run_noop) (rule spec_steps_nonempty)

context bstr_spec
begin

lemma push_source:
  assumes "src \<noteq> []" "COLON \<notin> set src" "STAR \<notin> set src" "revspec src = Ok ()" "valid_pattern dst" "STAR \<notin> set dst"
    and "force \<or> hd src \<noteq> PLUS \<and> hd src \<noteq> CARET"
  shows "refspec_parse bs revspec (plus_if force @ src @ [COLON] @ dst) OpPush =
    Ok \<lparr>rs_mode = (if force then Force else Normal), rs_op = OpPush, rs_src = Some (if src = lit ''@'' then HEAD else src), rs_dst = Some dst\<rparr>"
proof -
  let ?src = "if src = lit ''@'' then HEAD else src" and ?mode = "if force then Force else Normal"
  have dst: "dst \<noteq> []" using assms(5) valid_pattern_bytes by blast
  have "side_ok revspec True ?src" "\<not> has_star (Some ?src)" "\<not> has_star (Some dst)"
    using assms(3,4,6) valid_names_known by (simp_all add: side_ok_def has_star_def)
  moreover have "Some ?src \<noteq> Some (lit ''@'')" using valid_names_known(4) by simp
  ultimately have "parse_finish bs revspec ?mode OpPush (Some ?src) (Some dst) =
      Ok \<lparr>rs_mode = ?mode, rs_op = OpPush, rs_src = Some ?src, rs_dst = Some dst\<rparr>"
    using assms(5) by (intro finish_ok) simp_all
  moreover have "parse_finish bs revspec ?mode OpPush (Some src) (Some dst) = parse_finish bs revspec ?mode OpPush (Some ?src) (Some dst)"
    using valid_names_known(4) by (simp add: parse_finish_def)
  moreover have "refspec_parse bs revspec (plus_if force @ src @ [COLON] @ dst) OpPush =
      and_then (parse_sides (src @ COLON # dst) (length src) OpPush) (\<lambda>(src, dst). parse_finish bs revspec ?mode OpPush src dst)"
    using assms(7) by (intro parse_colon [OF assms(2)]) blast
  ultimately show ?thesis unfolding parse_sides_split using assms(1) dst by simp
qed

end

text \<open>
  C19: The source of a push may be a revision.  Let a specification of the part of git's syntax that is covered (that of
  \<open>wf_spec\<close>, as for \<open>revspec_replays_syntax\<close>) be written without a colon and without a star, and let the destination be a valid
  reference name without a star.  With force, the push refspec is accepted and carries the source as it is written,
  only \<^verbatim>\<open>@\<close> becomes \<^verbatim>\<open>HEAD\<close>, and the destination.  Without force this holds unless the source starts with \<^verbatim>\<open>+\<close>, which is then taken for the
  sign of force, or with \<^verbatim>\<open>^\<close>, where the refspec is rejected, since a push cannot exclude.
\<close>

theorem push_accepts_revisions:
  assumes "bstr_spec bs" "faster_hex_spec fh" "wf_spec date sp" "COLON \<notin> set (print_spec sp)" "STAR \<notin> set (print_spec sp)"
    and "print_spec sp \<noteq> []" "force \<or> hd (print_spec sp) \<noteq> PLUS" "valid_pattern dst" "STAR \<notin> set dst"
  shows "parse_with_revspecs fh date bs (plus_if force @ print_spec sp @ [COLON] @ dst) OpPush =
    (if \<not> force \<and> hd (print_spec sp) = CARET then Err NegativeUnsupported
     else Ok \<lparr>rs_mode = (if force then Force else Normal), rs_op = OpPush,
       rs_src = Some (if print_spec sp = lit ''@'' then HEAD else print_spec sp), rs_dst = Some dst\<rparr>)"
proof (cases "\<not> force \<and> hd (print_spec sp) = CARET")
  case True
  then show ?thesis using assms(6) by (simp add: parse_with_revspecs_def refspec_parse_def parse_mode_def plus_if_def)
next
  case False
  have "fst (revspec_run fh date noop_delegate (print_spec sp) ()) = Ok ()"
    by (simp add: revspec_run_print [OF assms(2,3)] run_noop_spec)
  from bstr_spec.push_source [OF assms(1) assms(6,4,5), where revspec = "\<lambda>s. fst (revspec_run fh date noop_delegate s ())", OF this assms(8,9), of force]
  show ?thesis using False assms(7) unfolding parse_with_revspecs_def by auto
qed

theorem push_accepts_revisions_witness:
  "parse_with_revspecs reference_hex no_dates reference_bstr (lit ''+release-1.0~3^{commit}:refs/heads/old'') OpPush =
     Ok \<lparr>rs_mode = Force, rs_op = OpPush, rs_src = Some (lit ''release-1.0~3^{commit}''), rs_dst = Some (lit ''refs/heads/old'')\<rparr> \<and>
   parse_with_revspecs reference_hex no_dates reference_bstr (lit ''@:refs/heads/old'') OpPush =
     Ok \<lparr>rs_mode = Normal, rs_op = OpPush, rs_src = Some HEAD, rs_dst = Some (lit ''refs/heads/old'')\<rparr>"
proof -
  let ?sp = "SpecSingle (RefName (lit ''release-1.0''), [Ancestor 3, PeelObject KCommit]) None :: unit rev_spec"
  let ?at = "SpecSingle (AtHead, []) None :: unit rev_spec"
  have "ref_name (lit ''release-1.0'')" by code_simp
  then have w: "wf_spec no_dates ?sp" "wf_spec no_dates ?at" by (simp_all add: wf_side_def)
  have p: "print_spec ?sp = lit ''release-1.0~3^{commit}''" "print_spec ?at = lit ''@''" by code_simp+
  have v: "valid_pattern (lit ''refs/heads/old'')" "STAR \<notin> set (lit ''refs/heads/old'')" by code_simp+
  note t = push_accepts_revisions [OF ref_bstr.bstr_spec_axioms ref_hex.faster_hex_spec_axioms _ _ _ _ _ v]
  have "COLON \<notin> set (lit ''release-1.0~3^{commit}'')" "STAR \<notin> set (lit ''release-1.0~3^{commit}'')" "COLON \<notin> set (lit ''@'')" "STAR \<notin> set (lit ''@'')"
    "hd (lit ''@'') \<noteq> PLUS" "hd (lit ''@'') \<noteq> CARET" by simp_all
  then show ?thesis using t [OF w(1), where force = True] t [OF w(2), where force = False] unfolding p by (simp add: plus_if_def)
qed

text \<open>
  C20: Neither parser panics: on every input, with every delegate and with every date parser that does not panic itself, a revision
  specification and a refspec for either direction give a result or an error.
\<close>

theorem revision_parsers_never_panic:
  assumes "faster_hex_spec fh" "bstr_spec bs" "\<And>s. date s \<noteq> Panic"
  shows "fst (revspec_run fh date d input s) \<noteq> Panic \<and> parse_with_revspecs fh date bs input op \<noteq> Panic"
  unfolding parse_with_revspecs_def
  by (intro conjI revspec_run_no_panic [OF assms(1,3)] bstr_spec.refspec_parse_no_panic [OF assms(2)])

theorem revision_parsers_never_panic_witness:
  "fst (revspec_run reference_hex no_dates recording_delegate (lit ''main^{{}^-9:'') []) \<noteq> Panic \<and>
   parse_with_revspecs reference_hex no_dates reference_bstr (lit ''main^{{}^-9:'') OpPush \<noteq> Panic"
  using revision_parsers_never_panic [OF ref_hex.faster_hex_spec_axioms ref_bstr.bstr_spec_axioms, where date = no_dates and
      d = recording_delegate and input = "lit ''main^{{}^-9:''" and s = "[]" and op = OpPush] by (simp add: no_dates_def)

end
