(* ===== verification/Spec2Isabelle.thy ===== *)
theory Spec2Isabelle
  imports
    Gix_Prelude Gix_External Gix_Hash Gix_Pack_Entry Gix_Delta Gix_Lookup Gix_Pack_Index Gix_Chunk
    Gix_Multi_Index Gix_Packetline Gix_Packetline_Read Gix_Validate_Name Gix_Validate_Path
    Gix_Binary_Search Gix_Object_Tree Gix_Tree_Editor Gix_Tree_Write Gix_Numbers Gix_Quote
    Gix_Bitmap Gix_Object Gix_Wildmatch Gix_Wildmatch_Spec Gix_Glob Gix_Commitgraph
    Gix_Commitgraph_Format Gix_Commitgraph_Verify Gix_Refspec Gix_Refspec_Match Gix_Refspec_Maps
    Gix_Revspec Gix_Revspec_Grammar Gix_Refspec_Revisions
begin

text \<open>
  Verification of gitoxide, the Rust implementation of git (\<^verbatim>\<open>src/\<close>, a workspace of crates).

  The program's core are libraries that read and write git's data formats and apply git's rules to
  names, patterns and values; the command line tool and the umbrella crate \<^verbatim>\<open>gix\<close> glue them to a file system and
  to remote processes.  The development models the crates that carry this logic, one theory per component, as
  executable functions over bytes and machine words, and proves what makes each of them correct.

  \<^bold>\<open>Conventions.\<close>  A byte string is a \<open>u8 list\<close>, a fixed-width integer a \<open>word\<close> of that width, \<^verbatim>\<open>usize\<close> a \<open>nat\<close>
  (a length of something in memory; where a 64-bit value is converted to \<^verbatim>\<open>usize\<close> the target is a 64-bit one).  Arithmetic wraps, as
  the release profile of \<^verbatim>\<open>src/Cargo.toml\<close> has it, and \<^verbatim>\<open>debug_assert!\<close> is not executed.  The outcome of an
  operation is \<open>Ok\<close>, \<open>Err\<close> with the error value of the source, or \<open>Panic\<close>; an operation without error values that may
  panic gives an \<open>option\<close>.  Loops are recursive functions with termination proofs; the one loop of the
  modelled code that does not always end, the bisection in a pack index, is a \<^theory_text>\<open>partial_function (option)\<close>, for which
  it is proved when it ends and that it does not end on tables of more than \<open>2 ^ 31\<close> entries.  No fuel is used.

  \<^bold>\<open>Code outside of the repository.\<close>  The crates \<^verbatim>\<open>faster_hex\<close> and \<^verbatim>\<open>bstr\<close> are records of functions (theory
  \<open>Gix_External\<close>) with the locales \<open>faster_hex_spec\<close> and \<open>bstr_spec\<close> for their documented behaviour; SHA-1, the date parser of
  revision specifications and the hash that finds duplicate mappings of refspecs are function arguments.  The properties that rely on them assume the locale, and their witnesses use the reference instances.

  \<^bold>\<open>The theories.\<close>
  \<^item> \<open>Gix_Prelude\<close>: types, outcomes, slices, orderings, big-endian integers, ASCII, stable sorting, and the
    lemmas on lists and words that the components share; the locale \<open>comparator\<close> states what sorting asks of a comparison.
  \<^item> \<open>Gix_Hash\<close> (\<^verbatim>\<open>gix-hash\<close>): object ids and abbreviated ids.  Hexadecimal round trips; an abbreviation compares like
    the leading digits it stands for.
  \<^item> \<open>Gix_Pack_Entry\<close>, \<open>Gix_Delta\<close> (\<^verbatim>\<open>gix-pack/src/data\<close>, \<^verbatim>\<open>gix-features/src/decode.rs\<close>): the pack header, entry headers and deltas.
    Headers are read back as written, by the slice and by the stream parser; a delta reconstructs its target.
  \<^item> \<open>Gix_Lookup\<close> (\<^verbatim>\<open>gix-pack/src/index/access.rs\<close>, \<^verbatim>\<open>index/write/encode.rs\<close>): fan-out table, bisection and prefix lookup over a table of
    ids, in the locale \<open>oid_table\<close>, which both kinds of index and commit-graph files interpret.
  \<^item> \<open>Gix_Pack_Index\<close> (\<^verbatim>\<open>gix-pack/src/index\<close>), \<open>Gix_Chunk\<close> (\<^verbatim>\<open>gix-chunk\<close>), \<open>Gix_Multi_Index\<close> (\<^verbatim>\<open>gix-pack/src/multi_index\<close>):
    reading, searching and writing pack indices and multi-pack indices.  What is written is found again, with
    offsets beyond 31 bits, and nothing else is found.
  \<^item> \<open>Gix_Packetline\<close>, \<open>Gix_Packetline_Read\<close> (\<^verbatim>\<open>gix-packetline\<close>): the wire format, the line writer, the peekable line iterator
    and the side-band reader.  Round trips, incremental decoding, invisibility of peeking, separation of the channels.
  \<^item> \<open>Gix_Validate_Name\<close>, \<open>Gix_Validate_Path\<close> (\<^verbatim>\<open>gix-validate\<close>): names of references, tags and submodules, and path
    components.  Validation accepts exactly git's valid names, sanitizing produces them, and exactly the safe components are accepted.
  \<^item> \<open>Gix_Binary_Search\<close>: the binary search of the standard library and what insertion at its result keeps of the order.
  \<^item> \<open>Gix_Object_Tree\<close> (\<^verbatim>\<open>gix-object/src/tree\<close>): tree objects.  What is written is parsed again by the parser and by the iterator; the search by
    name finds exactly the entry of that name and type.
  \<^item> \<open>Gix_Tree_Editor\<close>, \<open>Gix_Tree_Write\<close> (\<^verbatim>\<open>gix-object/src/tree/editor.rs\<close>): editing of trees in memory.  An insertion or removal is seen at its
    path and nowhere else, all trees remain sorted, and the two-stack loop that writes the changed trees hands out exactly what
    a recursive definition gives; leftovers of a removed directory come back when a path below it is inserted.
  \<^item> \<open>Gix_Numbers\<close> (\<^verbatim>\<open>gix-utils/src/btoi.rs\<close>, \<^verbatim>\<open>backoff.rs\<close>): integers in byte strings and the exponential back-off.  The parser accepts exactly
    the numbers that fit the integer type, and the back-off iterator ends.
  \<^item> \<open>Gix_Quote\<close> (\<^verbatim>\<open>gix-quote\<close>): shell quoting and C-style quoted strings.  The shell reads back what was quoted; \<^verbatim>\<open>undo\<close> accepts exactly the
    strings of the grammar.
  \<^item> \<open>Gix_Bitmap\<close> (\<^verbatim>\<open>gix-bitmap\<close>): EWAH bitmaps.  The visit sees exactly the set bits.
  \<^item> \<open>Gix_Object\<close> (\<^verbatim>\<open>gix-object/src\<close>: \<^verbatim>\<open>kind.rs\<close>, \<^verbatim>\<open>encode.rs\<close>, \<^verbatim>\<open>lib.rs\<close>, \<^verbatim>\<open>data.rs\<close>; \<^verbatim>\<open>gix-features/src/hash.rs\<close>): loose headers and object hashes.  Headers
    round-trip, and hashing a stream is hashing its bytes.
  \<^item> \<open>Gix_Wildmatch\<close>, \<open>Gix_Wildmatch_Spec\<close>, \<open>Gix_Glob\<close> (\<^verbatim>\<open>gix-glob\<close>): the glob matcher, the meaning of patterns, and patterns for paths.  The matcher, with
    its recursion, aborts and literal search, decides the meaning; the shortcuts of \<^verbatim>\<open>Pattern::matches\<close> never change the answer.
    The matcher may go 64 levels deep and each level needs a star, so patterns with at most 63 stars never reach the limit.
  \<^item> \<open>Gix_Commitgraph\<close>, \<open>Gix_Commitgraph_Format\<close>, \<open>Gix_Commitgraph_Verify\<close> (\<^verbatim>\<open>gix-commitgraph\<close>): commit-graph files, graphs of several of them,
    and their verification.  An accepted file can be read without panics; git's format, written down as an encoder, is read back with all
    parents; ids and positions of a graph agree; and a verified graph has no cycles, right generation numbers and a longest path of the
    reported length (locale \<open>generations\<close>).
  \<^item> \<open>Gix_Refspec\<close>, \<open>Gix_Refspec_Match\<close>, \<open>Gix_Refspec_Maps\<close> (\<^verbatim>\<open>gix-refspec\<close>): refspecs, the matching of references with them and the validation of the
    result.  Accepted specifications are well-formed and read back as printed; matching finds exactly the mappings a declarative
    meaning asks for and panics only where a glob overlaps; validated mappings do not conflict.
  \<^item> \<open>Gix_Revspec\<close>, \<open>Gix_Revspec_Grammar\<close>, \<open>Gix_Refspec_Revisions\<close> (\<^verbatim>\<open>gix-revision/src/spec\<close>): the parser for revision specifications, whose delegate
    is a state transformer, the abstract syntax of specifications with the calls they stand for, and the use that refspecs make of the
    parser.  Parsing never panics and, for the part of git's syntax that \<open>wf_spec\<close> describes, replays exactly
    the calls it stands for; a push from such a revision is accepted.

  \<^bold>\<open>What the components share.\<close>  Ids of \<open>Gix_Hash\<close> are the keys of both indices and of commit-graph files; the multi-pack index and
  the commit-graph are built on chunk files and on the tables of ids of the pack index, and their lookup is the same function; the packet
  lines carry packs whose entries \<open>Gix_Pack_Entry\<close> describes.  Refspecs are made of names that \<open>Gix_Validate_Name\<close> accepts and of
  ids of \<open>Gix_Hash\<close>, and hand other sources to the revision parser (\<open>Gix_Refspec_Revisions\<close>).

  \<^bold>\<open>Not modelled.\<close>  Everything that is input and output, process or thread management, memory mapping, compression (zlib
  is a foreign library), terminal and progress rendering, and the glue of the umbrella crate and the command line tool.
  The async variants of operations repeat the blocking ones.  The manifest lists every crate with its
  status and the reason.  In \<^verbatim>\<open>gix-pack\<close> the streaming decoder, delta trees, caches and verification are left out, in \<^verbatim>\<open>gix-object\<close> commits
  and tags and in \<^verbatim>\<open>gix-revision\<close> the description of commits and merge bases; the git index file, reference stores and their
  transactions, configuration files, revision walking and diffing are not covered: their parsers are built from the combinators of
  a foreign crate, or they work on lazily loaded object databases, lock files and file metadata.
\<close>

end
